(* ===== verification/AR_Prelude.thy ===== *)
theory AR_Prelude
  imports Main "HOL-Library.Word"
begin

text \<open>
  Shared vocabulary of the development of the asynchronous runtime: the machine integer
  types of the C++ sources, the error values that stand for the exceptions they throw, the
  collections of automation facts, the generic lemmas on words and lists, and the two
  interfaces that several components implement (a codec, and an invariant kept along every
  run of a step relation).
\<close>

unbundle bit_operations_syntax

section \<open>Machine integers and errors\<close>

type_synonym u8 = "8 word"
type_synonym u16 = "16 word"
type_synonym u32 = "32 word"
type_synonym u64 = "64 word"

text \<open>
  The exceptions thrown by the sources. \<open>runtime_error\<close> carries its message;
  \<open>bad_alloc\<close> is thrown by the allocators; \<open>broken_promise\<close> is what a future
  reports when its promise is destroyed unresolved; \<open>assertion_failed\<close> is a failed
  \<open>assert\<close>, \<open>undefined_behaviour\<close> an access outside an array or to a deleted object, and
  \<open>out_of_range\<close> is thrown by the \<open>at\<close> of a map.
\<close>

datatype ar_error =
    runtime_error string
  | bad_alloc
  | broken_promise
  | assertion_failed
  | undefined_behaviour
  | out_of_range

section \<open>Collections of automation facts\<close>

text \<open>
  \<open>bitfield_simps\<close> collects the equations that read a bit field back from a packed
  word, \<open>step_intros\<close> the introduction rules of the step relations.
\<close>

named_theorems bitfield_simps
named_theorems step_intros

section \<open>Words\<close>

lemma u8_exhaust:
  assumes "\<And>n. n < 256 \<Longrightarrow> P (word_of_nat n :: u8)"
  shows "P b"
proof -
  have "unat b < 256" using unsigned_less [of b, where 'a = nat] by simp
  then have "P (word_of_nat (unat b))" by (rule assms)
  then show ?thesis by simp
qed

text \<open>Checking a property of every byte by evaluation of the 256 cases.\<close>

lemma u8_by_cases:
  assumes "list_all (\<lambda>n. P (word_of_nat n :: u8)) [0..<256]"
  shows "P b"
proof (rule u8_exhaust)
  fix n :: nat
  assume "n < 256"
  then have "n \<in> set [0..<256]" by (simp only: set_upt atLeastLessThan_iff le0 simp_thms)
  then show "P (word_of_nat n)" using assms by (simp only: list_all_iff)
qed

section \<open>Lists\<close>

lemma foldl_upd_length [simp]: "length (foldl (\<lambda>xs i. xs[f i := g i]) xs is) = length xs"
  by (induction "is" arbitrary: xs) auto

text \<open>The elements with a property, when one element is exchanged.\<close>

lemma filter_at:
  assumes "i < length xs"
  shows "filter P xs = filter P (take i xs) @ (if P (xs ! i) then [xs ! i] else []) @ filter P (drop (Suc i) xs)"
    and "filter P (xs[i := a]) = filter P (take i xs) @ (if P a then [a] else []) @ filter P (drop (Suc i) xs)"
proof -
  have "filter P xs = filter P (take i xs @ xs ! i # drop (Suc i) xs)" using assms by (simp add: id_take_nth_drop [symmetric])
  then show "filter P xs = filter P (take i xs) @ (if P (xs ! i) then [xs ! i] else []) @ filter P (drop (Suc i) xs)" by simp
  show "filter P (xs[i := a]) = filter P (take i xs) @ (if P a then [a] else []) @ filter P (drop (Suc i) xs)"
    using assms by (simp add: upd_conv_take_nth_drop)
qed

lemma filter_only:
  assumes "i < length xs" "P (xs ! i)" "length (filter P xs) = 1"
  shows "filter P xs = [xs ! i]" "filter P (xs[i := a]) = (if P a then [a] else [])"
  using filter_at [OF assms(1), of P] assms(2,3) by auto

lemma filter_other:
  assumes "i < length xs" "\<not> P (xs ! i)" "\<not> P a"
  shows "filter P (xs[i := a]) = filter P xs"
  using filter_at [OF assms(1), of P] assms(2,3) by auto

lemma filter_first:
  assumes "i < length xs" "filter P xs = []" "P a"
  shows "filter P (xs[i := a]) = [a]"
  using filter_at [OF assms(1), of P] assms(2,3) by (auto split: if_splits)

section \<open>Codecs\<close>

text \<open>
  A pair of functions where decoding recovers what was encoded; \<open>valid\<close> are the
  values the encoder is meant for. Both the packing of entity tags and the Base64 text
  encoding provide it.
\<close>

locale codec =
  fixes enc :: "'a \<Rightarrow> 'b" and dec :: "'b \<Rightarrow> 'e + 'a" and valid :: "'a \<Rightarrow> bool"
  assumes dec_enc: "valid x \<Longrightarrow> dec (enc x) = Inr x"
begin

lemma enc_inj: "valid x \<Longrightarrow> valid y \<Longrightarrow> enc x = enc y \<longleftrightarrow> x = y"
  by (metis dec_enc sum.inject(2))

lemma enc_inj_on: "inj_on enc (Collect valid)"
  by (auto simp: inj_on_def enc_inj)

end

section \<open>Invariants of step relations\<close>

lemma run_then: "r\<^sup>*\<^sup>* a b \<Longrightarrow> r b c \<Longrightarrow> r\<^sup>*\<^sup>* a c"
  by (rule rtranclp.rtrancl_into_rtrancl)

lemma run_of_2: "r a b \<Longrightarrow> r b c \<Longrightarrow> r\<^sup>*\<^sup>* a c"
  by (blast intro: run_then r_into_rtranclp)

lemma run_of_4: "r a b \<Longrightarrow> r b c \<Longrightarrow> r c d \<Longrightarrow> r d e \<Longrightarrow> r\<^sup>*\<^sup>* a e"
  by (blast intro: run_then run_of_2)

text \<open>
  A predicate that holds at the start and is kept by every step holds in every reachable
  state. The concurrent components instantiate it with their own step relation.
\<close>

locale step_invariant =
  fixes start :: "'s \<Rightarrow> bool" and step :: "'s \<Rightarrow> 's \<Rightarrow> bool" and inv :: "'s \<Rightarrow> bool"
  assumes inv_start: "start s \<Longrightarrow> inv s"
    and inv_step: "inv s \<Longrightarrow> step s t \<Longrightarrow> inv t"
begin

lemma inv_steps: "step\<^sup>*\<^sup>* s t \<Longrightarrow> inv s \<Longrightarrow> inv t"
  by (induction rule: rtranclp_induct) (auto intro: inv_step)

lemma inv_reachable: "start s \<Longrightarrow> step\<^sup>*\<^sup>* s t \<Longrightarrow> inv t"
  by (blast intro: inv_steps inv_start)

end

text \<open>
  A relation that holds at the start and that every concrete step keeps, with at most one abstract step,
  gives every reachable concrete state a reachable abstract one.
\<close>

locale step_simulation =
  fixes cstart :: "'c \<Rightarrow> bool" and cstep :: "'c \<Rightarrow> 'c \<Rightarrow> bool" and astart :: "'a \<Rightarrow> bool" and astep :: "'a \<Rightarrow> 'a \<Rightarrow> bool"
    and related :: "'c \<Rightarrow> 'a \<Rightarrow> bool"
  assumes sim_start: "cstart c \<Longrightarrow> \<exists>a. astart a \<and> related c a"
    and sim_step: "related c a \<Longrightarrow> cstep c d \<Longrightarrow> \<exists>b. (b = a \<or> astep a b) \<and> related d b"
begin

lemma sim_steps: "cstep\<^sup>*\<^sup>* c d \<Longrightarrow> related c a \<Longrightarrow> \<exists>b. astep\<^sup>*\<^sup>* a b \<and> related d b"
proof (induction rule: rtranclp_induct)
  case (step d e)
  then obtain b where b: "astep\<^sup>*\<^sup>* a b" "related d b" by blast
  with sim_step [OF b(2) step(2)] show ?case by (metis rtranclp.rtrancl_into_rtrancl)
qed blast

lemma sim_reachable:
  assumes "cstart c" "cstep\<^sup>*\<^sup>* c d"
  shows "\<exists>a b. astart a \<and> astep\<^sup>*\<^sup>* a b \<and> related d b"
  using sim_start [OF assms(1)] sim_steps [OF assms(2)] by blast

end

end
