(* ===== verification/Base64.thy ===== *)
theory Base64
  imports AR_Prelude
begin

text \<open>
  \<open>src/base64.cpp\<close>: the Base64 encoder and decoder and the line-breaking variants.
  A \<open>std::string\<close> is a \<open>string\<close>, whose characters are bytes. The encoder's loop
  counter is an \<open>unsigned int\<close> and is kept at 32 bits, because it is compared with a
  64-bit length: the loop is a \<^theory_text>\<open>partial_function (option)\<close>, where \<open>None\<close>
  means that it does not return. An exception is the left summand of a sum.
\<close>

section \<open>Definitions\<close>

definition base64_chars :: "bool \<Rightarrow> string" where
  "base64_chars url =
     ''ABCDEFGHIJKLMNOPQRSTUVWXYZ'' @ ''abcdefghijklmnopqrstuvwxyz'' @ ''0123456789'' @
     (if url then ''-_'' else ''+/'')"

definition pos_of_char :: "char \<Rightarrow> ar_error + u32" where
  "pos_of_char chr =
     (let c = (of_char chr :: u32) in
      if of_char CHR ''A'' \<le> c \<and> c \<le> of_char CHR ''Z'' then Inr (c - of_char CHR ''A'')
      else if of_char CHR ''a'' \<le> c \<and> c \<le> of_char CHR ''z'' then
        Inr (c - of_char CHR ''a'' + (of_char CHR ''Z'' - of_char CHR ''A'') + 1)
      else if of_char CHR ''0'' \<le> c \<and> c \<le> of_char CHR ''9'' then
        Inr (c - of_char CHR ''0'' + (of_char CHR ''Z'' - of_char CHR ''A'')
             + (of_char CHR ''z'' - of_char CHR ''a'') + 2)
      else if chr = CHR ''+'' \<or> chr = CHR ''-'' then Inr 62
      else if chr = CHR ''/'' \<or> chr = CHR ''_'' then Inr 63
      else Inl (runtime_error ''Input is not valid base64-encoded data.''))"

partial_function (option) linebreak_loop :: "nat \<Rightarrow> string \<Rightarrow> nat \<Rightarrow> string option" where
  "linebreak_loop distance str pos =
     (if pos < length str
      then linebreak_loop distance (take pos str @ CHR 0x0A # drop pos str) (pos + distance + 1)
      else Some str)"

definition insert_linebreaks :: "string \<Rightarrow> nat \<Rightarrow> string option" where
  "insert_linebreaks str distance =
     (if str = [] then Some [] else linebreak_loop distance str distance)"

text \<open>One iteration of the encoder's loop: the four characters pushed for the group at \<open>pos\<close>.\<close>

definition encode_group :: "string \<Rightarrow> char \<Rightarrow> string \<Rightarrow> u32 \<Rightarrow> string" where
  "encode_group tbl trailing_char bytes pos =
     (let in_len = length bytes;
          b = (\<lambda>i. of_char (bytes ! unat (pos + i)) :: u32);
          ch = (\<lambda>w :: u32. tbl ! unat w) in
      ch (drop_bit 2 (b 0 AND 0xfc)) #
      (if unat (pos + 1) < in_len then
         ch (push_bit 4 (b 0 AND 0x03) + drop_bit 4 (b 1 AND 0xf0)) #
         (if unat (pos + 2) < in_len then
            [ch (push_bit 2 (b 1 AND 0x0f) + drop_bit 6 (b 2 AND 0xc0)), ch (b 2 AND 0x3f)]
          else [ch (push_bit 2 (b 1 AND 0x0f)), trailing_char])
       else [ch (push_bit 4 (b 0 AND 0x03)), trailing_char, trailing_char]))"

partial_function (option) encode_loop ::
  "string \<Rightarrow> char \<Rightarrow> string \<Rightarrow> u32 \<Rightarrow> string \<Rightarrow> string option" where
  "encode_loop tbl trailing_char bytes pos ret =
     (if unat pos < length bytes
      then encode_loop tbl trailing_char bytes (pos + 3)
             (ret @ encode_group tbl trailing_char bytes pos)
      else Some ret)"

definition base64_encode :: "string \<Rightarrow> bool \<Rightarrow> string option" where
  "base64_encode s url =
     encode_loop (base64_chars url) (if url then CHR ''.'' else CHR ''='') s 0 []"

definition encode_with_line_breaks :: "nat \<Rightarrow> string \<Rightarrow> string option" where
  "encode_with_line_breaks line_length s =
     Option.bind (base64_encode s False) (\<lambda>e. insert_linebreaks e line_length)"

definition base64_encode_pem :: "string \<Rightarrow> string option" where
  "base64_encode_pem s = encode_with_line_breaks 64 s"

definition base64_encode_mime :: "string \<Rightarrow> string option" where
  "base64_encode_mime s = encode_with_line_breaks 76 s"

text \<open>
  Reading a \<open>std::string\<close> at its length gives the terminating null character. The
  decoder reads at most there: \<open>pos + 1\<close> is at most the length inside its loop.
\<close>

definition str_at :: "string \<Rightarrow> nat \<Rightarrow> char" where
  "str_at s i = (if i < length s then s ! i else CHR 0x00)"

definition is_pad :: "char \<Rightarrow> bool" where
  "is_pad c \<longleftrightarrow> c = CHR ''='' \<or> c = CHR ''.''"

text \<open>One iteration of the decoder's loop: the one to three bytes emitted for a chunk.\<close>

definition decode_chunk :: "string \<Rightarrow> nat \<Rightarrow> ar_error + string" where
  "decode_chunk s pos =
     (case pos_of_char (str_at s (pos + 1)) of Inl e \<Rightarrow> Inl e | Inr p1 \<Rightarrow>
      case pos_of_char (str_at s pos) of Inl e \<Rightarrow> Inl e | Inr p0 \<Rightarrow>
      let c0 = char_of (unat (push_bit 2 p0 + drop_bit 4 (p1 AND 0x30))) in
      if pos + 2 < length s \<and> \<not> is_pad (str_at s (pos + 2)) then
        case pos_of_char (str_at s (pos + 2)) of Inl e \<Rightarrow> Inl e | Inr p2 \<Rightarrow>
        let c1 = char_of (unat (push_bit 4 (p1 AND 0x0f) + drop_bit 2 (p2 AND 0x3c))) in
        if pos + 3 < length s \<and> \<not> is_pad (str_at s (pos + 3)) then
          case pos_of_char (str_at s (pos + 3)) of Inl e \<Rightarrow> Inl e | Inr p3 \<Rightarrow>
          Inr [c0, c1, char_of (unat (push_bit 6 (p2 AND 0x03) + p3))]
        else Inr [c0, c1]
      else Inr [c0])"

function decode_loop :: "string \<Rightarrow> nat \<Rightarrow> string \<Rightarrow> ar_error + string" where
  "decode_loop s pos ret =
     (if pos < length s then
        case decode_chunk s pos of Inl e \<Rightarrow> Inl e
        | Inr cs \<Rightarrow> decode_loop s (pos + 4) (ret @ cs)
      else Inr ret)"
  by pat_completeness auto
termination
  by (relation "measure (\<lambda>(s, pos, ret). length s - pos)") auto

definition base64_decode :: "string \<Rightarrow> bool \<Rightarrow> ar_error + string" where
  "base64_decode s remove_linebreaks =
     (if s = [] then Inr []
      else if remove_linebreaks then
        (let copy = filter (\<lambda>c. c \<noteq> CHR 0x0A) s in
         if copy = [] then Inr [] else decode_loop copy 0 [])
      else decode_loop s 0 [])"

declare decode_loop.simps [simp del]

section \<open>The alphabet\<close>

lemma length_base64_chars [simp]: "length (base64_chars url) = 64"
  by (simp add: base64_chars_def)

lemma alphabet_all:
  "list_all (\<lambda>url. list_all (\<lambda>c. pos_of_char (snd c) = Inr (word_of_nat (fst c))
       \<and> \<not> is_pad (snd c) \<and> snd c \<noteq> CHR 0x0A) (enumerate 0 (base64_chars url))) [True, False]"
  by (simp add: base64_chars_def pos_of_char_def is_pad_def Let_def)

lemma alphabet_at:
  assumes "i < 64"
  shows "pos_of_char (base64_chars url ! i) = Inr (word_of_nat i)"
    and "\<not> is_pad (base64_chars url ! i)" and "base64_chars url ! i \<noteq> CHR 0x0A"
proof -
  have "(i, base64_chars url ! i) \<in> set (enumerate 0 (base64_chars url))"
    using assms by (simp add: in_set_enumerate_eq)
  moreover have "url \<in> set [True, False]" by simp
  ultimately show "pos_of_char (base64_chars url ! i) = Inr (word_of_nat i)"
    and "\<not> is_pad (base64_chars url ! i)" and "base64_chars url ! i \<noteq> CHR 0x0A"
    using alphabet_all unfolding list_all_iff by (metis fst_conv snd_conv)+
qed

section \<open>Bit fields of a byte as division and remainder\<close>

lemma nat_low_mask:
  "a AND 3 = a mod (4 :: nat)" "a AND 15 = a mod (16 :: nat)" "a AND 63 = a mod (64 :: nat)"
  using take_bit_eq_mask [of 2 a] take_bit_eq_mask [of 4 a] take_bit_eq_mask [of 6 a]
  by (simp_all add: mask_eq_exp_minus_1 take_bit_eq_mod)

lemma nat_high_field:
  "drop_bit 2 (a AND 252) = a div 4 mod (64 :: nat)"
  "drop_bit 4 (a AND 240) = a div 16 mod (16 :: nat)"
  "drop_bit 6 (a AND 192) = a div 64 mod (4 :: nat)"
  "drop_bit 4 (a AND 48) = a div 16 mod (4 :: nat)"
  "drop_bit 2 (a AND 60) = a div 4 mod (16 :: nat)"
  using drop_bit_and [of 2 a 252] drop_bit_and [of 4 a 240] drop_bit_and [of 6 a 192]
    drop_bit_and [of 4 a 48] drop_bit_and [of 2 a 60]
  by (simp_all add: drop_bit_eq_div nat_low_mask)

lemma byte_fields [bitfield_simps]:
  fixes x :: u32
  shows "unat (drop_bit 2 (x AND 252)) = unat x div 4 mod 64"
    "unat (drop_bit 4 (x AND 240)) = unat x div 16 mod 16"
    "unat (drop_bit 6 (x AND 192)) = unat x div 64 mod 4"
    "unat (drop_bit 4 (x AND 48)) = unat x div 16 mod 4"
    "unat (drop_bit 2 (x AND 60)) = unat x div 4 mod 16"
    "unat (push_bit 4 (x AND 3)) = unat x mod 4 * 16"
    "unat (push_bit 6 (x AND 3)) = unat x mod 4 * 64"
    "unat (push_bit 2 (x AND 15)) = unat x mod 16 * 4"
    "unat (push_bit 4 (x AND 15)) = unat x mod 16 * 16"
    "unat (x AND 63) = unat x mod 64"
proof -
  show "unat (drop_bit 2 (x AND 252)) = unat x div 4 mod 64"
    "unat (drop_bit 4 (x AND 240)) = unat x div 16 mod 16"
    "unat (drop_bit 6 (x AND 192)) = unat x div 64 mod 4"
    "unat (drop_bit 4 (x AND 48)) = unat x div 16 mod 4"
    "unat (drop_bit 2 (x AND 60)) = unat x div 4 mod 16"
    by (simp_all add: unat_drop_bit_eq unsigned_and_eq, simp_all add: nat_low_mask drop_bit_eq_div)
  show "unat (push_bit 4 (x AND 3)) = unat x mod 4 * 16"
    "unat (push_bit 6 (x AND 3)) = unat x mod 4 * 64"
    "unat (push_bit 2 (x AND 15)) = unat x mod 16 * 4"
    "unat (push_bit 4 (x AND 15)) = unat x mod 16 * 16"
    "unat (x AND 63) = unat x mod 64"
    by (simp_all only: unsigned_push_bit_eq unsigned_and_eq) (simp_all add: nat_low_mask push_bit_eq_mult take_bit_eq_mod)
qed

lemma unat_sum_eq:
  "unat x = m \<Longrightarrow> unat y = n \<Longrightarrow> m + n < 2 ^ 32 \<Longrightarrow> unat (x + y :: u32) = m + n"
  by (auto simp: unat_word_ariths)

lemma unat_of_char [simp]: "unat (of_char c :: u32) = of_char c"
proof -
  have "(of_char c :: nat) mod 2 ^ 32 = of_char c"
    by (rule mod_less, rule less_trans [of _ 256]) simp_all
  then have "unat (word_of_nat (of_char c) :: u32) = of_char c"
    by (simp only: unat_of_nat len_bit0 len_num1) simp
  then show ?thesis by (simp only: of_nat_of_char)
qed

section \<open>The encoder by groups\<close>

text \<open>
  The encoding by groups, for a table and a pad: three bytes become four characters of six bits
  each, a last group of one or two bytes is padded.
\<close>

fun b64_spec :: "string \<Rightarrow> char \<Rightarrow> string \<Rightarrow> string" where
  "b64_spec tbl tr [] = []"
| "b64_spec tbl tr [a] = [tbl ! (of_char a div 4), tbl ! (of_char a mod 4 * 16), tr, tr]"
| "b64_spec tbl tr [a, b] =
     [tbl ! (of_char a div 4), tbl ! (of_char a mod 4 * 16 + of_char b div 16),
      tbl ! (of_char b mod 16 * 4), tr]"
| "b64_spec tbl tr (a # b # c # xs) =
     [tbl ! (of_char a div 4), tbl ! (of_char a mod 4 * 16 + of_char b div 16),
      tbl ! (of_char b mod 16 * 4 + of_char c div 64), tbl ! (of_char c mod 64)]
     @ b64_spec tbl tr xs"

lemma length_b64_spec: "length (b64_spec tbl tr bs) = (length bs + 2) div 3 * 4"
  by (induction tbl tr bs rule: b64_spec.induct) (auto, presburger)

lemma unat_plus_const:
  fixes pos :: u32 assumes "unat pos + k < 2 ^ 32" shows "unat (pos + word_of_nat k) = unat pos + k"
  using assms by (simp add: unat_word_ariths unat_of_nat)

lemma char_fields [simp]:
  "(of_char a :: nat) div 4 mod 64 = of_char a div 4"
  "(of_char a :: nat) div 16 mod 16 = of_char a div 16"
  "(of_char a :: nat) div 64 mod 4 = of_char a div 64"
proof -
  have "(of_char a :: nat) < 256" by simp
  then show "(of_char a :: nat) div 4 mod 64 = of_char a div 4"
    "(of_char a :: nat) div 16 mod 16 = of_char a div 16"
    "(of_char a :: nat) div 64 mod 4 = of_char a div 64"
    by (simp_all add: less_mult_imp_div_less)
qed

lemma unat_char_sums:
  "unat (push_bit 4 (of_char a AND 3) + drop_bit 4 (of_char b AND 240) :: u32)
     = of_char a mod 4 * 16 + of_char b div 16"
  "unat (push_bit 2 (of_char a AND 15) + drop_bit 6 (of_char b AND 192) :: u32)
     = of_char a mod 16 * 4 + of_char b div 64"
proof -
  have "m mod 4 * 16 + n div 16 < 2 ^ 32" "m mod 16 * 4 + n div 64 < 2 ^ 32" if "n < 256" for m n :: nat
    using that mod_less_divisor [of 4 m] mod_less_divisor [of 16 m]
      div_le_dividend [of n 16] div_le_dividend [of n 64] by auto
  from this [of "of_char b" "of_char a"]
  have "(of_char a :: nat) mod 4 * 16 + of_char b div 16 < 2 ^ 32"
    "(of_char a :: nat) mod 16 * 4 + of_char b div 64 < 2 ^ 32" by simp_all
  then show "unat (push_bit 4 (of_char a AND 3) + drop_bit 4 (of_char b AND 240) :: u32)
       = of_char a mod 4 * 16 + of_char b div 16"
    "unat (push_bit 2 (of_char a AND 15) + drop_bit 6 (of_char b AND 192) :: u32)
       = of_char a mod 16 * 4 + of_char b div 64"
    by (intro unat_sum_eq; simp only: byte_fields unat_of_char char_fields)+
qed

text \<open>The group at \<open>pos\<close> is the reference encoding of the three bytes at \<open>pos\<close>.\<close>

lemma encode_group_spec:
  assumes "unat pos < length bs" and "unat pos + 2 < 2 ^ 32"
  shows "encode_group tbl tr bs pos = b64_spec tbl tr (take 3 (drop (unat pos) bs))"
proof -
  have p: "unat (pos + 1) = unat pos + 1" "unat (pos + 2) = unat pos + 2"
    using unat_plus_const [of pos 1] unat_plus_const [of pos 2] assms(2) by simp_all
  obtain a xs where d: "drop (unat pos) bs = a # xs"
    using assms(1) Cons_nth_drop_Suc [of "unat pos" bs] by metis
  have n: "bs ! (unat pos + i) = (a # xs) ! i" if "unat pos + i < length bs" for i
    using that d by (metis nth_drop less_imp_le_nat assms(1))
  have l: "unat pos + i < length bs \<longleftrightarrow> i \<le> length xs" for i
    using d assms(1) by (metis Suc_le_lessD length_Cons length_drop less_Suc_eq_le less_diff_conv add.commute)
  have g: "encode_group tbl tr bs pos =
    tbl ! (of_char a div 4) #
      (if 1 \<le> length xs then tbl ! (of_char a mod 4 * 16 + of_char (xs ! 0) div 16) #
         (if 2 \<le> length xs then
           [tbl ! (of_char (xs ! 0) mod 16 * 4 + of_char (xs ! 1) div 64), tbl ! (of_char (xs ! 1) mod 64)]
          else [tbl ! (of_char (xs ! 0) mod 16 * 4), tr])
       else [tbl ! (of_char a mod 4 * 16), tr, tr])"
    unfolding encode_group_def Let_def p using n [of 0] n [of 1] n [of 2] assms(1)
    by (simp only: p l byte_fields unat_char_sums unat_of_char char_fields) (simp add: p l)
  show ?thesis unfolding g d
    by (cases xs rule: b64_spec.cases [of "(tbl, tr, ys)" for ys, case_product list.exhaust])
      (auto)
qed

lemma b64_spec_split:
  "xs \<noteq> [] \<Longrightarrow> b64_spec tbl tr xs = b64_spec tbl tr (take 3 xs) @ b64_spec tbl tr (drop 3 xs)"
  by (cases "(tbl, tr, xs)" rule: b64_spec.cases) auto

text \<open>
  The loop counter runs through the multiples of three, and \<open>2 ^ 32 - 1\<close> is one of
  them: as long as the input is shorter than \<open>2 ^ 32\<close> bytes, no step of the counter
  wraps around before the loop's guard fails.
\<close>

lemma encode_loop_spec:
  assumes "length bs < 2 ^ 32" and "unat pos mod 3 = 0"
  shows "encode_loop tbl tr bs pos ret = Some (ret @ b64_spec tbl tr (drop (unat pos) bs))"
  using assms(2)
proof (induction "length bs - unat pos" arbitrary: pos ret rule: less_induct)
  case less
  show ?case
  proof (cases "unat pos < length bs")
    case True
    with assms(1) less.prems have lt: "unat pos + 3 < 2 ^ 32" by simp presburger
    then have p: "unat (pos + 3) = unat pos + 3" using unat_plus_const [of pos 3] by simp
    have "encode_loop tbl tr bs (pos + 3) (ret @ encode_group tbl tr bs pos)
        = Some ((ret @ encode_group tbl tr bs pos) @ b64_spec tbl tr (drop (unat pos + 3) bs))"
      using less.hyps [of "pos + 3"] True less.prems by (simp add: p)
    moreover have "b64_spec tbl tr (drop (unat pos) bs)
        = encode_group tbl tr bs pos @ b64_spec tbl tr (drop (unat pos + 3) bs)"
      using b64_spec_split [of "drop (unat pos) bs" tbl tr] encode_group_spec [of pos bs tbl tr] True lt
      by (simp add: add.commute)
    ultimately show ?thesis using True by (subst encode_loop.simps) simp
  next
    case False
    then show ?thesis by (subst encode_loop.simps) simp
  qed
qed

lemma base64_encode_spec:
  "length s < 2 ^ 32 \<Longrightarrow>
     base64_encode s url = Some (b64_spec (base64_chars url) (if url then CHR ''.'' else CHR ''='') s)"
  by (simp add: base64_encode_def encode_loop_spec)

text \<open>From \<open>2 ^ 32\<close> bytes on, the guard holds for every value of the 32-bit counter.\<close>

lemma encode_loop_diverges:
  assumes "2 ^ 32 \<le> length bs"
  shows "encode_loop tbl tr bs pos ret = None"
proof (rule ccontr)
  assume "encode_loop tbl tr bs pos ret \<noteq> None"
  then obtain r where ret: "encode_loop tbl tr bs pos ret = Some r" by auto
  have "length bs < 2 ^ 32"
  proof (rule encode_loop.raw_induct [where P = "\<lambda>tbl tr bs pos ret r. length bs < 2 ^ 32", OF _ ret])
    fix f tbl tr bs pos ret r
    assume IH: "\<And>tbl tr bs pos ret r. f tbl tr bs pos ret = Some r \<Longrightarrow> length bs < 2 ^ 32"
      and eq: "(if unat pos < length bs
        then f tbl tr bs (pos + 3) (ret @ encode_group tbl tr bs pos) else Some ret) = Some r"
    show "length (bs :: string) < 2 ^ 32"
      using IH eq unsigned_less [of pos, where 'a = nat] by (cases "unat pos < length bs") fastforce+
  qed
  with assms show False by simp
qed

section \<open>The decoder inverts the reference encoder\<close>

lemma str_at_drop: "str_at s (pos + i) = str_at (drop pos s) i"
  by (auto simp: str_at_def)

lemma decode_chunk_drop: "decode_chunk s pos = decode_chunk (drop pos s) 0"
proof -
  have "str_at s pos = str_at (drop pos s) 0" using str_at_drop [of s pos 0] by simp
  moreover have "pos + i < length s \<longleftrightarrow> i < length (drop pos s)" for i by auto
  ultimately show ?thesis unfolding decode_chunk_def str_at_drop by (simp only: add_0_left drop0)
qed

lemma unat_index [simp]: "i < 64 \<Longrightarrow> unat (word_of_nat i :: u32) = i"
  by (simp add: unat_of_nat)

lemma decoded_fields:
  assumes "i < 64" "j < 64"
  shows "unat (push_bit 2 (word_of_nat i) + drop_bit 4 (word_of_nat j AND 48) :: u32) = i * 4 + j div 16"
    "unat (push_bit 4 (word_of_nat i AND 15) + drop_bit 2 (word_of_nat j AND 60) :: u32) = i mod 16 * 16 + j div 4"
    "unat (push_bit 6 (word_of_nat i AND 3) + word_of_nat j :: u32) = i mod 4 * 64 + j"
proof -
  have "unat (push_bit 2 (word_of_nat i :: u32)) = i * 4"
    using assms by (simp only: unsigned_push_bit_eq unat_index) (simp add: push_bit_eq_mult take_bit_eq_mod)
  moreover have "j div 16 mod 4 = j div 16" "j div 4 mod 16 = j div 4"
    using assms by (simp_all add: less_mult_imp_div_less)
  moreover have "i * 4 + j div 16 < 2 ^ 32" "i mod 16 * 16 + j div 4 < 2 ^ 32" "i mod 4 * 64 + j < 2 ^ 32"
    using assms mod_less_divisor [of 4 i] mod_less_divisor [of 16 i]
      div_le_dividend [of j 16] div_le_dividend [of j 4] by auto
  ultimately show "unat (push_bit 2 (word_of_nat i) + drop_bit 4 (word_of_nat j AND 48) :: u32) = i * 4 + j div 16"
    "unat (push_bit 4 (word_of_nat i AND 15) + drop_bit 2 (word_of_nat j AND 60) :: u32) = i mod 16 * 16 + j div 4"
    "unat (push_bit 6 (word_of_nat i AND 3) + word_of_nat j :: u32) = i mod 4 * 64 + j"
    using assms by (intro unat_sum_eq; simp only: byte_fields unat_index)+
qed

lemma sextets:
  fixes a b c :: nat
  assumes "a < 256" "b < 256" "c < 256"
  shows "a div 4 * 4 + (a mod 4 * 16 + b div 16) div 16 = a"
    "(a mod 4 * 16 + b div 16) mod 16 * 16 + (b mod 16 * 4 + c div 64) div 4 = b"
    "(b mod 16 * 4 + c div 64) mod 4 * 64 + c mod 64 = c"
    "a div 4 < 64" "a mod 4 * 16 + b div 16 < 64" "b mod 16 * 4 + c div 64 < 64"
proof -
  have q: "b div 16 < 16" "c div 64 < 4" "a div 4 < 64" using assms by (simp_all add: less_mult_imp_div_less)
  then show "a div 4 * 4 + (a mod 4 * 16 + b div 16) div 16 = a"
    "(a mod 4 * 16 + b div 16) mod 16 * 16 + (b mod 16 * 4 + c div 64) div 4 = b"
    "(b mod 16 * 4 + c div 64) mod 4 * 64 + c mod 64 = c"
    by simp_all
  show "a div 4 < 64" "a mod 4 * 16 + b div 16 < 64" "b mod 16 * 4 + c div 64 < 64"
    using q mod_less_divisor [of 4 a] mod_less_divisor [of 16 b] by linarith+
qed

lemma decode_group:
  assumes "i < 64" "j < 64" "k < 64" "l < 64" and "tbl = base64_chars url"
  shows "decode_chunk (tbl ! i # tbl ! j # tbl ! k # tbl ! l # rest) 0
      = Inr [char_of (i * 4 + j div 16), char_of (j mod 16 * 16 + k div 4), char_of (k mod 4 * 64 + l)]"
    and "is_pad tr \<Longrightarrow> decode_chunk [tbl ! i, tbl ! j, tbl ! k, tr] 0
      = Inr [char_of (i * 4 + j div 16), char_of (j mod 16 * 16 + k div 4)]"
    and "is_pad tr \<Longrightarrow> decode_chunk [tbl ! i, tbl ! j, tr, tr] 0
      = Inr [char_of (i * 4 + j div 16)]"
  using assms decoded_fields [of i j] decoded_fields [of j k] decoded_fields [of k l]
  by (simp_all add: decode_chunk_def str_at_def alphabet_at Let_def)

lemma decode_b64_group:
  assumes "tbl = base64_chars url"
  shows "decode_chunk (b64_spec tbl tr [a, b, c] @ rest) 0 = Inr [a, b, c]"
    and "is_pad tr \<Longrightarrow> decode_chunk (b64_spec tbl tr [a, b]) 0 = Inr [a, b]"
    and "is_pad tr \<Longrightarrow> decode_chunk (b64_spec tbl tr [a]) 0 = Inr [a]"
  using sextets [of "of_char a" "of_char b" "of_char c"] sextets [of "of_char a" "of_char b" 0]
    sextets [of "of_char a" 0 0] assms
  by (simp_all add: decode_group)

lemma decode_loop_encoded:
  assumes "tbl = base64_chars url" and "is_pad tr" and "drop pos s = b64_spec tbl tr bs"
  shows "decode_loop s pos ret = Inr (ret @ bs)"
  using assms
proof (induction tbl tr bs arbitrary: pos ret rule: b64_spec.induct)
  case (1 tbl tr)
  then show ?case by (simp add: decode_loop.simps)
next
  case (2 tbl tr a)
  then have "length s - pos = 4" using length_drop [of pos s] by simp
  then have "pos < length s" "length s = pos + 4" by arith+
  then show ?case using 2 by (simp add: decode_loop.simps [of s] decode_chunk_drop [of s] decode_b64_group del: b64_spec.simps)
next
  case (3 tbl tr a b)
  then have "length s - pos = 4" using length_drop [of pos s] by simp
  then have "pos < length s" "length s = pos + 4" by arith+
  then show ?case using 3 by (simp add: decode_loop.simps [of s] decode_chunk_drop [of s] decode_b64_group del: b64_spec.simps)
next
  case (4 tbl tr a b c xs)
  have d: "drop pos s = b64_spec tbl tr [a, b, c] @ b64_spec tbl tr xs" using "4.prems" by simp
  then have p: "pos < length s" using length_drop [of pos s] by (auto intro: ccontr)
  have "drop (pos + 4) s = drop 4 (drop pos s)" by (simp add: add.commute)
  then have "drop (pos + 4) s = b64_spec tbl tr xs" by (simp add: d)
  then have "decode_loop s (pos + 4) (ret @ [a, b, c]) = Inr ((ret @ [a, b, c]) @ xs)"
    using "4.IH" "4.prems" by blast
  moreover have "decode_chunk s pos = Inr [a, b, c]"
    using decode_b64_group(1) [OF "4.prems"(1)] decode_chunk_drop [of s pos] d by simp
  ultimately show ?case using p by (simp add: decode_loop.simps [of s pos ret])
qed

section \<open>Line breaks\<close>

text \<open>The reference: lines of \<open>d\<close> characters, the last one shorter or as long.\<close>

function wrap :: "nat \<Rightarrow> string \<Rightarrow> string" where
  "wrap d s = (if 0 < d \<and> d < length s then take d s @ CHR 0x0A # wrap d (drop d s) else s)"
  by pat_completeness auto
termination by (relation "measure (\<lambda>(d, s). length s)") auto

declare wrap.simps [simp del]

lemma linebreak_loop_wrap:
  assumes "0 < d"
  shows "linebreak_loop d (pre @ s) (length pre + d) = Some (pre @ wrap d s)"
  using assms
proof (induction d s arbitrary: pre rule: wrap.induct)
  case (1 d s)
  show ?case
  proof (cases "d < length s")
    case True
    let ?pre = "pre @ take d s @ [CHR 0x0A]"
    have "linebreak_loop d (?pre @ drop d s) (length ?pre + d) = Some (?pre @ wrap d (drop d s))"
      using "1.IH" [of ?pre] "1.prems" True by blast
    moreover have "length ?pre + d = length pre + d + d + 1" using True by simp
    ultimately show ?thesis
      using True "1.prems" by (subst linebreak_loop.simps, subst wrap.simps) (simp add: add.assoc)
  next
    case False
    then show ?thesis by (subst linebreak_loop.simps, subst wrap.simps) simp
  qed
qed

lemma insert_linebreaks_wrap: "0 < d \<Longrightarrow> insert_linebreaks s d = Some (wrap d s)"
  using linebreak_loop_wrap [of d "[]" s] by (auto simp: insert_linebreaks_def wrap.simps)

lemma filter_wrap: "filter (\<lambda>c. c \<noteq> CHR 0x0A) (wrap d s) = filter (\<lambda>c. c \<noteq> CHR 0x0A) s"
proof (induction d s rule: wrap.induct)
  case (1 d s)
  have "filter P s = filter P (take d s) @ filter P (drop d s)" for P
    by (simp flip: filter_append)
  with 1 show ?case by (subst wrap.simps) simp
qed

text \<open>The lines of a text: the maximal runs without a line feed.\<close>

fun lines_of :: "string \<Rightarrow> string list" where
  "lines_of [] = [[]]"
| "lines_of (c # cs) =
     (if c = CHR 0x0A then [] # lines_of cs
      else case lines_of cs of [] \<Rightarrow> [[c]] | l # ls \<Rightarrow> (c # l) # ls)"

lemma lines_of_append: "CHR 0x0A \<notin> set s \<Longrightarrow> lines_of (s @ CHR 0x0A # t) = s # lines_of t"
  by (induction s) auto

lemma lines_of_single: "CHR 0x0A \<notin> set s \<Longrightarrow> lines_of s = [s]"
  by (induction s) auto

lemma lines_of_wrap:
  assumes "CHR 0x0A \<notin> set s" "0 < d" "l \<in> set (lines_of (wrap d s))"
  shows "length l \<le> d"
  using assms
proof (induction d s arbitrary: l rule: wrap.induct)
  case (1 d s)
  have nl: "CHR 0x0A \<notin> set (take d s)" "CHR 0x0A \<notin> set (drop d s)"
    using "1.prems"(1) by (meson in_set_takeD in_set_dropD)+
  show ?case
  proof (cases "d < length s")
    case True
    then have "wrap d s = take d s @ CHR 0x0A # wrap d (drop d s)"
      using "1.prems"(2) by (subst wrap.simps) simp
    with "1.prems"(3) have "l = take d s \<or> l \<in> set (lines_of (wrap d (drop d s)))"
      using lines_of_append [OF nl(1)] by simp
    then show ?thesis using "1.IH" [OF _ nl(2) "1.prems"(2)] True "1.prems"(2) by auto
  next
    case False
    then have "wrap d s = s" by (subst wrap.simps) simp
    with False "1.prems" show ?thesis using lines_of_single [of s] by simp
  qed
qed

lemma b64_spec_no_newline:
  assumes "tbl = base64_chars url" "is_pad tr"
  shows "CHR 0x0A \<notin> set (b64_spec tbl tr bs)"
  using assms
proof (induction tbl tr bs rule: b64_spec.induct)
  case (4 tbl tr x y z xs)
  then show ?case
    using sextets [of "of_char x" "of_char y" "of_char z"] by (simp add: alphabet_at(3) [THEN not_sym])
next
  case (3 tbl tr x y)
  then show ?case
    using sextets [of "of_char x" "of_char y" 0] by (auto simp: alphabet_at(3) [THEN not_sym] is_pad_def)
next
  case (2 tbl tr x)
  then show ?case
    using sextets [of "of_char x" 0 0] by (auto simp: alphabet_at(3) [THEN not_sym] is_pad_def)
qed simp

section \<open>Inputs that are rejected\<close>

text \<open>
  A last group of a single character makes the decoder read the terminating null
  character, which is in no alphabet.
\<close>

lemma pos_of_char_error:
  "pos_of_char c = Inl e \<Longrightarrow> e = runtime_error ''Input is not valid base64-encoded data.''"
  by (auto simp: pos_of_char_def Let_def split: if_splits)

lemma pos_of_char_null: "pos_of_char CHR 0x00 = Inl (runtime_error ''Input is not valid base64-encoded data.'')"
  by (simp add: pos_of_char_def)

lemma decode_chunk_error:
  "decode_chunk s pos = Inl e \<Longrightarrow> e = runtime_error ''Input is not valid base64-encoded data.''"
  by (auto simp: decode_chunk_def Let_def dest!: pos_of_char_error split: sum.splits if_splits)

lemma decode_loop_truncated:
  assumes "(length s - pos) mod 4 = 1"
  shows "decode_loop s pos ret = Inl (runtime_error ''Input is not valid base64-encoded data.'')"
  using assms
proof (induction s pos ret rule: decode_loop.induct)
  case (1 s pos ret)
  then have lt: "pos < length s" by (auto intro: ccontr)
  show ?case
  proof (cases "decode_chunk s pos")
    case (Inl e)
    then show ?thesis using lt decode_chunk_error [OF Inl] by (subst decode_loop.simps) simp
  next
    case (Inr cs)
    have "decode_chunk s pos = Inl (runtime_error ''Input is not valid base64-encoded data.'')"
      if "length s - pos = 1"
    proof -
      have "str_at s (pos + 1) = CHR 0x00" using that by (auto simp: str_at_def)
      then show ?thesis by (simp add: decode_chunk_def pos_of_char_null del: One_nat_def)
    qed
    with Inr have "length s - pos \<noteq> 1" by auto
    moreover have "(n - 4) mod 4 = 1" if "n mod 4 = 1" "n \<noteq> 1" for n :: nat
    proof -
      have "n = 4 * (n div 4) + 1" using that mult_div_mod_eq [of 4 n] by simp
      with that(2) obtain q where "n = 4 * Suc q + 1" by (cases "n div 4") auto
      then show ?thesis by simp
    qed
    ultimately have "(length s - pos - 4) mod 4 = 1" using "1.prems" by blast
    then have "(length s - (pos + 4)) mod 4 = 1" by simp
    with "1.IH" [OF lt Inr] show ?thesis using lt Inr by (subst decode_loop.simps) simp
  qed
qed

section \<open>The codec\<close>

text \<open>
  Encoding and decoding as a codec on the inputs shorter than \<open>2 ^ 32\<close> bytes; the
  encoder's result is unwrapped by the decoding side.
\<close>

lemma b64_spec_empty: "b64_spec tbl tr s = [] \<longleftrightarrow> s = []"
  by (cases "(tbl, tr, s)" rule: b64_spec.cases) auto

lemma base64_decode_spec:
  "is_pad tr \<Longrightarrow> base64_decode (b64_spec (base64_chars url) tr s) False = Inr s"
  using decode_loop_encoded [of "base64_chars url" url tr 0 "b64_spec (base64_chars url) tr s" s "[]"]
  by (simp add: base64_decode_def b64_spec_empty)

interpretation b64: codec "\<lambda>s. base64_encode s url"
  "\<lambda>e. case e of None \<Rightarrow> Inl undefined_behaviour | Some t \<Rightarrow> base64_decode t False"
  "\<lambda>s. length s < 2 ^ 32" for url
  by unfold_locales (simp add: base64_encode_spec base64_decode_spec is_pad_def)

lemma encode_with_line_breaks_spec:
  "length s < 2 ^ 32 \<Longrightarrow> 0 < d \<Longrightarrow>
     encode_with_line_breaks d s = Some (wrap d (b64_spec (base64_chars False) CHR ''='' s))"
  by (simp add: encode_with_line_breaks_def base64_encode_spec insert_linebreaks_wrap)

lemma decode_wrapped:
  assumes "is_pad tr"
  shows "base64_decode (wrap d (b64_spec (base64_chars url) tr s)) True = Inr s"
proof -
  let ?e = "b64_spec (base64_chars url) tr s"
  have f: "filter (\<lambda>c. c \<noteq> CHR 0x0A) (wrap d ?e) = ?e"
    unfolding filter_wrap using b64_spec_no_newline [OF refl assms, of url s] by (auto intro!: filter_True)
  moreover have "decode_loop ?e 0 [] = Inr s" using decode_loop_encoded [OF refl assms, of 0] by simp
  moreover have "s = []" if "wrap d ?e = []"
    using f b64_spec_empty [of "base64_chars url" tr s] unfolding that by simp
  ultimately show ?thesis by (auto simp: base64_decode_def b64_spec_empty)
qed

lemma lines_of_wrapped:
  "0 < d \<Longrightarrow> \<forall>l\<in>set (lines_of (wrap d (b64_spec (base64_chars url) CHR ''='' s))). length l \<le> d"
  by (intro ballI lines_of_wrap [OF b64_spec_no_newline [OF refl]]) (auto simp: is_pad_def)

section \<open>Properties\<close>

text \<open>C28: for every input shorter than 2^32 bytes, and for both alphabets, the encoder
  returns and the decoder gives the input back.\<close>

theorem base64_roundtrip:
  assumes "length s < 2 ^ 32"
  shows "\<exists>e. base64_encode s url = Some e \<and> base64_decode e False = Inr s"
  using assms by (simp add: base64_encode_spec base64_decode_spec is_pad_def)

theorem base64_roundtrip_witness:
  "\<exists>e. base64_encode ''Many hands'' True = Some e \<and> base64_decode e False = Inr ''Many hands''"
  by (rule base64_roundtrip) simp

section \<open>Base 64 as RFC 4648 describes it\<close>

text \<open>
  The input is a sequence of bits, the most significant bit of each byte first; it is cut into
  groups of six, the last one filled up with zeros; each group is the index of a character, and
  the text is filled up to a multiple of four characters with the pad. Section 4 has the
  alphabet with \<open>+\<close> and \<open>/\<close>, section 5 the one with \<open>-\<close> and \<open>_\<close>; both have the pad \<open>=\<close>.
\<close>

definition rfc4648_char :: "bool \<Rightarrow> nat \<Rightarrow> char" where
  "rfc4648_char url i =
     (if i < 26 then char_of (65 + i) else if i < 52 then char_of (97 + (i - 26)) else if i < 62 then char_of (48 + (i - 52))
      else if i = 62 then (if url then CHR ''-'' else CHR ''+'') else (if url then CHR ''_'' else CHR ''/''))"

definition byte_bits :: "char \<Rightarrow> bool list" where
  "byte_bits c = map (bit (of_char c :: nat)) [7, 6, 5, 4, 3, 2, 1, 0]"

definition bits_value :: "bool list \<Rightarrow> nat" where
  "bits_value bs = foldl (\<lambda>n b. 2 * n + of_bool b) 0 bs"

function sextets :: "bool list \<Rightarrow> nat list" where
  "sextets bs = (if bs = [] then [] else bits_value (take 6 (bs @ replicate 5 False)) # sextets (drop 6 bs))"
  by auto
termination by (relation "measure length") auto

declare sextets.simps [simp del]

definition rfc4648_base64 :: "bool \<Rightarrow> char \<Rightarrow> string \<Rightarrow> string" where
  "rfc4648_base64 url pad s =
     (let cs = map (rfc4648_char url) (sextets (concat (map byte_bits s)))
      in cs @ replicate ((4 - length cs mod 4) mod 4) pad)"

lemma base64_chars_rfc: "i < 64 \<Longrightarrow> base64_chars url ! i = rfc4648_char url i"
proof -
  have "list_all (\<lambda>url. base64_chars url = map (rfc4648_char url) [0..<64]) [True, False]"
    by code_simp
  moreover assume "i < 64"
  ultimately show ?thesis by (cases url) simp_all
qed

lemma bits_value_append: "bits_value (xs @ ys) = bits_value xs * 2 ^ length ys + bits_value ys"
proof -
  have "foldl (\<lambda>n b. 2 * n + of_bool b) a ys = a * 2 ^ length ys + bits_value ys" for a
    unfolding bits_value_def
  proof (induction ys arbitrary: a)
    case (Cons y ys)
    show ?case using Cons [of "2 * a + of_bool y"] Cons [of "of_bool y"] by (simp add: algebra_simps)
  qed simp
  moreover have "bits_value (xs @ ys) = foldl (\<lambda>n b. 2 * n + of_bool b) (bits_value xs) ys" by (simp add: bits_value_def)
  ultimately show ?thesis by (simp only:)
qed

lemma bits_value_bits: "bits_value (map (bit n) (rev [k..<k + m])) = take_bit m (drop_bit k n)"
proof (induction m)
  case (Suc m)
  have "bits_value (map (bit n) (rev [k..<k + Suc m])) = of_bool (bit n (k + m)) * 2 ^ m + take_bit m (drop_bit k n)"
    using bits_value_append [of "[bit n (k + m)]" "map (bit n) (rev [k..<k + m])"] Suc by (simp add: bits_value_def)
  also have "\<dots> = take_bit (Suc m) (drop_bit k n)"
    by (subst take_bit_Suc_from_most) (simp add: bit_simps add.commute)
  finally show ?case .
qed (simp add: bits_value_def)

lemma byte_bits_parts:
  fixes c :: char
  defines "n \<equiv> of_char c :: nat"
  shows "byte_bits c = [bit n 7, bit n 6, bit n 5, bit n 4, bit n 3, bit n 2, bit n 1, bit n 0]"
    and "bits_value [bit n 7, bit n 6, bit n 5, bit n 4, bit n 3, bit n 2] = n div 4"
    and "bits_value [bit n 1, bit n 0] = n mod 4"
    and "bits_value [bit n 7, bit n 6, bit n 5, bit n 4] = n div 16"
    and "bits_value [bit n 3, bit n 2, bit n 1, bit n 0] = n mod 16"
    and "bits_value [bit n 7, bit n 6] = n div 64"
    and "bits_value [bit n 5, bit n 4, bit n 3, bit n 2, bit n 1, bit n 0] = n mod 64"
proof -
  have n: "n < 256" by (simp add: n_def)
  have b: "take_bit m (drop_bit k n) = n div 2 ^ k mod 2 ^ m" for k m by (simp add: take_bit_eq_mod drop_bit_eq_div)
  show "byte_bits c = [bit n 7, bit n 6, bit n 5, bit n 4, bit n 3, bit n 2, bit n 1, bit n 0]"
    by (simp add: byte_bits_def n_def)
  show "bits_value [bit n 7, bit n 6, bit n 5, bit n 4, bit n 3, bit n 2] = n div 4"
    using bits_value_bits [of n 2 6] n by (simp add: b upt_rec)
  show "bits_value [bit n 1, bit n 0] = n mod 4" using bits_value_bits [of n 0 2] by (simp add: take_bit_eq_mod upt_rec)
  show "bits_value [bit n 7, bit n 6, bit n 5, bit n 4] = n div 16" using bits_value_bits [of n 4 4] n by (simp add: b upt_rec)
  have r: "rev [0..<0 + 4] = [3, 2, 1, 0]" "rev [0..<0 + 6] = [5, 4, 3, 2, 1, 0]" by code_simp+
  show "bits_value [bit n 3, bit n 2, bit n 1, bit n 0] = n mod 16"
    using bits_value_bits [of n 0 4] unfolding r by (simp add: take_bit_eq_mod)
  show "bits_value [bit n 7, bit n 6] = n div 64" using bits_value_bits [of n 6 2] n by (simp add: b upt_rec)
  show "bits_value [bit n 5, bit n 4, bit n 3, bit n 2, bit n 1, bit n 0] = n mod 64"
    using bits_value_bits [of n 0 6] unfolding r by (simp add: take_bit_eq_mod)
qed

lemma bits_value_zeros: "bits_value (xs @ replicate k False) = bits_value xs * 2 ^ k"
proof -
  have "bits_value (replicate k False) = 0" by (induction k) (simp_all add: bits_value_def)
  then show ?thesis by (simp add: bits_value_append)
qed

lemma sextets_simps [simp]:
  "sextets [] = []" "sextets (a # b # c # d # e # f # bs) = bits_value [a, b, c, d, e, f] # sextets bs"
  "sextets [a, b] = [bits_value [a, b] * 16]" "sextets [a, b, c, d] = [bits_value [a, b, c, d] * 4]"
  using bits_value_zeros [of "[a, b]" 4] bits_value_zeros [of "[a, b, c, d]" 2]
  by (simp_all add: sextets.simps numeral_eq_Suc)

lemma sextet_small [simp]:
  "(of_char c :: nat) div 4 < 64" "(of_char a :: nat) mod 4 * 16 + of_char b div 16 < 64" "(of_char b :: nat) mod 16 * 4 + of_char c div 64 < 64"
proof -
  have byte: "(of_char x :: nat) < 256" for x :: char by simp
  have "(of_char c :: nat) div 4 < 64" "(of_char b :: nat) div 16 < 16" "(of_char c :: nat) div 64 < 4"
    by (rule less_mult_imp_div_less, use byte in simp)+
  moreover have "(of_char a :: nat) mod 4 < 4" "(of_char b :: nat) mod 16 < 16" by simp_all
  ultimately show "(of_char c :: nat) div 4 < 64" "(of_char a :: nat) mod 4 * 16 + of_char b div 16 < 64"
    "(of_char b :: nat) mod 16 * 4 + of_char c div 64 < 64" by linarith+
qed

lemma sextets_groups:
  fixes a b c :: char
  defines "x \<equiv> of_char a :: nat" and "y \<equiv> of_char b :: nat" and "z \<equiv> of_char c :: nat"
  shows "sextets (byte_bits a @ byte_bits b @ byte_bits c @ bs) =
      [x div 4, x mod 4 * 16 + y div 16, y mod 16 * 4 + z div 64, z mod 64] @ sextets bs"
    and "sextets (byte_bits a @ byte_bits b) = [x div 4, x mod 4 * 16 + y div 16, y mod 16 * 4]"
    and "sextets (byte_bits a) = [x div 4, x mod 4 * 16]"
proof -
  note p = byte_bits_parts [of a, folded x_def] byte_bits_parts [of b, folded y_def] byte_bits_parts [of c, folded z_def]
  have xy: "bits_value [bit x 1, bit x 0, bit y 7, bit y 6, bit y 5, bit y 4] = x mod 4 * 16 + y div 16"
    using bits_value_append [of "[bit x 1, bit x 0]" "[bit y 7, bit y 6, bit y 5, bit y 4]"] by (simp add: p del: One_nat_def)
  have yz: "bits_value [bit y 3, bit y 2, bit y 1, bit y 0, bit z 7, bit z 6] = y mod 16 * 4 + z div 64"
    using bits_value_append [of "[bit y 3, bit y 2, bit y 1, bit y 0]" "[bit z 7, bit z 6]"] by (simp add: p del: One_nat_def)
  show "sextets (byte_bits a @ byte_bits b @ byte_bits c @ bs) =
      [x div 4, x mod 4 * 16 + y div 16, y mod 16 * 4 + z div 64, z mod 64] @ sextets bs"
    by (simp add: p xy yz del: One_nat_def)
  show "sextets (byte_bits a @ byte_bits b) = [x div 4, x mod 4 * 16 + y div 16, y mod 16 * 4]"
    by (simp add: p xy del: One_nat_def)
  show "sextets (byte_bits a) = [x div 4, x mod 4 * 16]"
    by (simp add: p del: One_nat_def)
qed

lemma b64_spec_rfc:
  "b64_spec (base64_chars url) pad s = rfc4648_base64 url pad s"
proof (induction "base64_chars url" pad s rule: b64_spec.induct)
  case (1 tr)
  show ?case by (simp add: rfc4648_base64_def)
next
  case (2 tr a)
  then show ?case by (simp add: rfc4648_base64_def sextets_groups base64_chars_rfc numeral_2_eq_2)
next
  case (3 tr a b)
  then show ?case by (simp add: rfc4648_base64_def sextets_groups base64_chars_rfc)
next
  case (4 tr a b c xs)
  then show ?case by (simp add: rfc4648_base64_def sextets_groups base64_chars_rfc Let_def)
qed

text \<open>C30: for every input shorter than \<open>2 ^ 32\<close> bytes the encoder's loop, with its 32-bit counter, gives
  the text that RFC 4648 describes: the bits of the input in groups of six, each the index of a
  letter, padded to a multiple of four letters. The standard variant has the alphabet and the
  pad of section 4; the URL variant has the alphabet of section 5, but pads with \<open>.\<close> where the
  RFC has \<open>=\<close>.\<close>

theorem base64_encode_reference:
  assumes "length s < 2 ^ 32"
  shows "base64_encode s url = Some (rfc4648_base64 url (if url then CHR ''.'' else CHR ''='') s)"
  using base64_encode_spec [OF assms, of url] unfolding b64_spec_rfc .

theorem base64_encode_reference_witness:
  "base64_encode ''Man'' False = Some ''TWFu''"
proof -
  have "rfc4648_base64 False CHR ''='' ''Man'' = ''TWFu''" by code_simp
  then show ?thesis using base64_encode_reference [of "''Man''" False] by simp
qed

text \<open>The encoder returns exactly on the inputs shorter than 2^32 bytes. From there on the
  32-bit counter is below the 64-bit length for ever and the loop does not end.\<close>

theorem base64_encode_returns_iff:
  "(\<exists>e. base64_encode s url = Some e) \<longleftrightarrow> length s < 2 ^ 32"
  using base64_encode_spec [of s url] encode_loop_diverges [of s] by (force simp: base64_encode_def)

text \<open>The PEM and MIME encoders cut the text into lines of at most 64 and 76 characters,
  and the decoder with \<open>remove_linebreaks\<close> gives the input back.\<close>

theorem base64_lines_roundtrip:
  assumes "length s < 2 ^ 32"
  shows "(\<exists>e. base64_encode_pem s = Some e \<and> base64_decode e True = Inr s
            \<and> (\<forall>l\<in>set (lines_of e). length l \<le> 64))
       \<and> (\<exists>e. base64_encode_mime s = Some e \<and> base64_decode e True = Inr s
            \<and> (\<forall>l\<in>set (lines_of e). length l \<le> 76))"
  using assms by (simp add: base64_encode_pem_def base64_encode_mime_def encode_with_line_breaks_spec
      decode_wrapped is_pad_def lines_of_wrapped)

theorem base64_lines_roundtrip_witness:
  "(\<exists>e. base64_encode_pem ''pem'' = Some e \<and> base64_decode e True = Inr ''pem''
            \<and> (\<forall>l\<in>set (lines_of e). length l \<le> 64))
   \<and> (\<exists>e. base64_encode_mime ''pem'' = Some e \<and> base64_decode e True = Inr ''pem''
            \<and> (\<forall>l\<in>set (lines_of e). length l \<le> 76))"
  by (rule base64_lines_roundtrip) simp

text \<open>A text whose length is one more than a multiple of four is rejected with the
  exception for invalid input, whatever its characters are.\<close>

theorem base64_decode_truncated:
  assumes "length s mod 4 = 1"
  shows "base64_decode s False = Inl (runtime_error ''Input is not valid base64-encoded data.'')"
  using assms decode_loop_truncated [of s 0 "[]"] by (auto simp: base64_decode_def)

theorem base64_decode_truncated_witness:
  "base64_decode ''TWFuT'' False = Inl (runtime_error ''Input is not valid base64-encoded data.'')"
  by (rule base64_decode_truncated) simp

end
