(* ===== verification/Atomic_Array.thy ===== *)
theory Atomic_Array
  imports AR_Prelude
begin

text \<open>
  \<open>include/ar/array.hpp\<close>: the circular array under the work-stealing queues. Indices
  are unbounded (\<open>int64_t\<close> in the source; an index is at most the number of pushes) and
  are reduced with the mask \<open>M\<close>; the capacity is a power of two. A slot of a freshly
  allocated array holds whatever \<open>std::atomic<T>\<close> is created with, the parameter
  \<open>ini\<close>. The laws that the queues use are the interface \<open>ring_array\<close>.
\<close>

section \<open>Definitions\<close>

record 'a AtomicArray =
  arr_C :: int
  arr_M :: int
  arr_U :: u64
  arr_S :: "'a list"

definition new_AtomicArray :: "'a \<Rightarrow> int \<Rightarrow> 'a AtomicArray" where
  "new_AtomicArray ini c =
     \<lparr>arr_C = c, arr_M = c - 1, arr_U = 0, arr_S = replicate (nat c) ini\<rparr>"

definition AtomicArray_capacity :: "'a AtomicArray \<Rightarrow> int" where
  "AtomicArray_capacity a = arr_C a"

definition AtomicArray_size :: "'a AtomicArray \<Rightarrow> u64" where
  "AtomicArray_size a = arr_U a"

definition AtomicArray_store :: "'a AtomicArray \<Rightarrow> int \<Rightarrow> 'a \<Rightarrow> 'a AtomicArray" where
  "AtomicArray_store a i v =
     a\<lparr>arr_S := (arr_S a)[nat (i AND arr_M a) := v], arr_U := arr_U a + 1\<rparr>"

definition AtomicArray_load :: "'a AtomicArray \<Rightarrow> int \<Rightarrow> 'a" where
  "AtomicArray_load a i = arr_S a ! nat (i AND arr_M a)"

text \<open>
  The loop of \<open>resize\<close> runs from \<open>t\<close> up to \<open>b\<close>; the queues only call it with
  \<open>t < b\<close>.
\<close>

definition AtomicArray_resize :: "'a \<Rightarrow> 'a AtomicArray \<Rightarrow> int \<Rightarrow> int \<Rightarrow> 'a AtomicArray" where
  "AtomicArray_resize ini a b t =
     fold (\<lambda>i ptr. AtomicArray_store ptr i (AtomicArray_load a i)) [t..b - 1]
       (new_AtomicArray ini (2 * arr_C a))"

section \<open>Masks and powers of two\<close>

lemma and_mask_mod: "i AND (2 ^ k - 1) = i mod (2 ^ k :: int)"
  by (simp flip: mask_eq_exp_minus_1 take_bit_eq_mask take_bit_eq_mod)

lemma mod_inj_range:
  fixes i j t c :: int
  assumes "t \<le> i" "i < t + c" "t \<le> j" "j < t + c"
  shows "i mod c = j mod c \<longleftrightarrow> i = j"
proof
  assume "i mod c = j mod c"
  then have "c dvd i - j" by (simp add: mod_eq_dvd_iff)
  moreover have "\<bar>i - j\<bar> < c" using assms by auto
  ultimately show "i = j" using zdvd_imp_le [of c "\<bar>i - j\<bar>"] by (cases "i = j") auto
qed simp

text \<open>The constructors' assertion \<open>c && !(c & (c - 1))\<close> holds exactly for the powers of two.\<close>

lemma pow2_assertion:
  fixes c :: int
  shows "c \<noteq> 0 \<and> c AND (c - 1) = 0 \<longleftrightarrow> (\<exists>k. c = 2 ^ k)"
proof
  assume c: "c \<noteq> 0 \<and> c AND (c - 1) = 0"
  then have pos: "0 < c"
    using and_negative_int_iff [of c "c - 1"] by linarith
  then obtain n where n: "c = int n" "0 < n" by (metis pos_int_cases)
  obtain k where k: "2 ^ k \<le> n" "n < 2 ^ (k + 1)" using ex_power_ivl1 [of 2 n] n(2) by auto
  have odd: "bit (m :: int) k" if "2 ^ k \<le> m" "m < 2 ^ (k + 1)" for m
  proof -
    have "m div 2 ^ k = 1" using that by (intro int_div_pos_eq [of _ _ _ "m - 2 ^ k"]) auto
    then show ?thesis by (simp add: bit_iff_odd)
  qed
  have kc: "2 ^ k \<le> c" "c < 2 ^ (k + 1)"
    using k n(1) by (metis of_nat_le_iff of_nat_less_iff of_nat_numeral of_nat_power)+
  have "c = 2 ^ k"
  proof (rule ccontr)
    assume "c \<noteq> 2 ^ k"
    with kc have "bit (c AND (c - 1)) k" using odd [of c] odd [of "c - 1"] by (simp add: bit_and_iff)
    with c show False by simp
  qed
  then show "\<exists>k. c = 2 ^ k" by blast
next
  assume "\<exists>k. c = 2 ^ k"
  then show "c \<noteq> 0 \<and> c AND (c - 1) = 0" by (auto simp: and_mask_mod)
qed

section \<open>The interface of a circular array\<close>

locale ring_array =
  fixes new :: "int \<Rightarrow> 'r" and cap :: "'r \<Rightarrow> int"
    and st :: "'r \<Rightarrow> int \<Rightarrow> 'a \<Rightarrow> 'r" and ld :: "'r \<Rightarrow> int \<Rightarrow> 'a" and wf :: "'r \<Rightarrow> bool"
  assumes wf_new: "wf (new (2 ^ k))"
    and cap_new: "cap (new c) = c"
    and wf_cap: "wf a \<Longrightarrow> \<exists>k. cap a = 2 ^ k"
    and wf_st: "wf a \<Longrightarrow> wf (st a i v)"
    and cap_st: "cap (st a i v) = cap a"
    and ld_st: "wf a \<Longrightarrow> ld (st a i v) j = (if i mod cap a = j mod cap a then v else ld a j)"
begin

lemma cap_pos: "wf a \<Longrightarrow> 0 < cap a"
  using wf_cap by fastforce

lemma wf_copy: "wf p \<Longrightarrow> wf (fold (\<lambda>i p. st p i (f i)) is p)"
  by (induction "is" arbitrary: p) (auto intro: wf_st)

lemma cap_copy: "cap (fold (\<lambda>i p. st p i (f i)) is p) = cap p"
  by (induction "is" arbitrary: p) (auto simp: cap_st)

lemma ld_copy:
  assumes "wf p" "b - t \<le> cap p" "t \<le> j" "j < b"
  shows "ld (fold (\<lambda>i p. st p i (f i)) [t..b - 1] p) j = f j"
proof -
  have "ld (fold (\<lambda>i p. st p i (f i)) [t..t + int n - 1] p) j = f j"
    if "t + int n \<le> b" "j < t + int n" for n
    using that
  proof (induction n)
    case 0
    with assms show ?case by simp
  next
    case (Suc n)
    let ?q = "fold (\<lambda>i p. st p i (f i)) [t..t + int n - 1] p"
    have "[t..t + int (Suc n) - 1] = [t..t + int n - 1] @ [t + int n]"
      using upto_rec2 [of t "t + int n"] by (simp add: algebra_simps)
    then have "ld (fold (\<lambda>i p. st p i (f i)) [t..t + int (Suc n) - 1] p) j
        = (if (t + int n) mod cap p = j mod cap p then f (t + int n) else ld ?q j)"
      using assms(1) by (simp add: ld_st wf_copy cap_copy)
    moreover have "(t + int n) mod cap p = j mod cap p \<longleftrightarrow> t + int n = j"
      using Suc.prems assms by (intro mod_inj_range [of t]) auto
    ultimately show ?case using Suc by auto
  qed
  from this [of "nat (b - t)"] show ?thesis using assms by simp
qed

text \<open>Writing at the bottom index leaves the items between top and bottom alone.\<close>

lemma ld_st_other:
  assumes "wf a" "b - t < cap a" "t \<le> j" "j < b"
  shows "ld (st a b v) j = ld a j"
  using assms mod_inj_range [of t b "cap a" j] by (auto simp: ld_st)

lemma contents_st:
  assumes "wf a" "b - t < cap a" "t \<le> b"
  shows "map (ld (st a b v)) [t..b] = map (ld a) [t..b - 1] @ [v]"
proof -
  have "map (ld (st a b v)) [t..b - 1] = map (ld a) [t..b - 1]"
    using assms by (auto intro: ld_st_other)
  then show ?thesis using assms upto_rec2 [of t b] by (simp add: ld_st)
qed

lemma contents_copy:
  assumes "wf p" "b - t \<le> cap p"
  shows "map (ld (fold (\<lambda>i p. st p i (f i)) [t..b - 1] p)) [t..b - 1] = map f [t..b - 1]"
  using assms by (auto simp: ld_copy)

lemma contents_last: "t \<le> b \<Longrightarrow> map (ld a) [t..b] = map (ld a) [t..b - 1] @ [ld a b]"
  using upto_rec2 [of t b] by simp

lemma contents_first: "t \<le> b \<Longrightarrow> map (ld a) [t..b] = ld a t # map (ld a) [t + 1..b]"
  using upto_rec1 [of t b] by simp

end

section \<open>The atomic array provides it\<close>

definition AtomicArray_wf :: "'a AtomicArray \<Rightarrow> bool" where
  "AtomicArray_wf a \<longleftrightarrow>
     (\<exists>k. arr_C a = 2 ^ k) \<and> arr_M a = arr_C a - 1 \<and> length (arr_S a) = nat (arr_C a)"

interpretation aa: ring_array "new_AtomicArray ini" AtomicArray_capacity AtomicArray_store
  AtomicArray_load AtomicArray_wf for ini
proof unfold_locales
  fix a :: "'a AtomicArray" and i j :: int and v :: 'a
  assume "AtomicArray_wf a"
  then obtain k where k: "arr_C a = 2 ^ k" "arr_M a = 2 ^ k - 1" "length (arr_S a) = 2 ^ k"
    by (auto simp: AtomicArray_wf_def nat_power_eq)
  have "nat (i mod 2 ^ k) < 2 ^ k" by (simp add: nat_less_iff)
  moreover have "nat (i mod 2 ^ k) = nat (j mod 2 ^ k) \<longleftrightarrow> i mod 2 ^ k = j mod 2 ^ k"
    by (simp add: nat_eq_iff)
  ultimately show "AtomicArray_load (AtomicArray_store a i v) j
      = (if i mod AtomicArray_capacity a = j mod AtomicArray_capacity a then v
         else AtomicArray_load a j)"
    by (simp add: AtomicArray_load_def AtomicArray_store_def AtomicArray_capacity_def k
        and_mask_mod)
qed (auto simp: AtomicArray_wf_def new_AtomicArray_def AtomicArray_capacity_def
    AtomicArray_store_def)

lemma AtomicArray_resize_facts:
  assumes "AtomicArray_wf a" "b - t \<le> arr_C a"
  shows "AtomicArray_wf (AtomicArray_resize ini a b t)"
    and "AtomicArray_capacity (AtomicArray_resize ini a b t) = 2 * AtomicArray_capacity a"
    and "t \<le> j \<Longrightarrow> j < b \<Longrightarrow> AtomicArray_load (AtomicArray_resize ini a b t) j = AtomicArray_load a j"
proof -
  obtain k where k: "arr_C a = 2 ^ k" using assms by (auto simp: AtomicArray_wf_def)
  have wf: "AtomicArray_wf (new_AtomicArray ini (2 * arr_C a))" for ini :: 'a
    using aa.wf_new [of ini "Suc k"] k by simp
  show "AtomicArray_wf (AtomicArray_resize ini a b t)"
    unfolding AtomicArray_resize_def by (rule aa.wf_copy [OF wf])
  show "AtomicArray_capacity (AtomicArray_resize ini a b t) = 2 * AtomicArray_capacity a"
    unfolding AtomicArray_resize_def unfolding aa.cap_copy aa.cap_new by (simp add: AtomicArray_capacity_def)
  show "t \<le> j \<Longrightarrow> j < b \<Longrightarrow> AtomicArray_load (AtomicArray_resize ini a b t) j = AtomicArray_load a j"
    unfolding AtomicArray_resize_def using assms(2) k
    by (intro aa.ld_copy [OF wf]) (auto simp: aa.cap_new)
qed

end
