(* ===== verification/Work_Steal_Queue.thy ===== *)
theory Work_Steal_Queue
  imports Atomic_Array "HOL-Library.Multiset"
begin

text \<open>
  \<open>include/ar/work_steal_queue.hpp\<close>: the queue of one owner, who pushes and pops at the
  bottom, and of any number of thieves, who steal at the top. The allocated arrays live in
  a store, a pointer is an index into it, and \<open>_garbage\<close> keeps the replaced ones.
  This theory has the operations as the owner alone sees them, a deque contract stated as
  a locale, and the refinement of the queue to a list; the interleavings of the owner with
  the thieves are in theory \<open>Chase_Lev\<close>.
\<close>

section \<open>Definitions\<close>

record 'a WorkStealQueue =
  wsq_top :: int
  wsq_bottom :: int
  wsq_array :: nat
  wsq_garbage :: "nat list"
  wsq_heap :: "'a AtomicArray list"

definition new_WorkStealQueue :: "'a \<Rightarrow> int \<Rightarrow> ar_error + 'a WorkStealQueue" where
  "new_WorkStealQueue ini c =
     (if \<not> (c \<noteq> 0 \<and> c AND (c - 1) = 0) then Inl assertion_failed
      else Inr \<lparr>wsq_top = 0, wsq_bottom = 0, wsq_array = 0, wsq_garbage = [],
                wsq_heap = [new_AtomicArray ini c]\<rparr>)"

definition wsq_cur :: "('a, 'm) WorkStealQueue_scheme \<Rightarrow> 'a AtomicArray" where
  "wsq_cur q = wsq_heap q ! wsq_array q"

definition wsq_empty :: "('a, 'm) WorkStealQueue_scheme \<Rightarrow> bool" where
  "wsq_empty q \<longleftrightarrow> wsq_bottom q \<le> wsq_top q"

definition wsq_size :: "('a, 'm) WorkStealQueue_scheme \<Rightarrow> nat" where
  "wsq_size q =
     (let b = wsq_bottom q; t = wsq_top q in nat (if b \<ge> t then b - t else 0))"

definition wsq_capacity :: "('a, 'm) WorkStealQueue_scheme \<Rightarrow> int" where
  "wsq_capacity q = AtomicArray_capacity (wsq_cur q)"

text \<open>The growing branch of \<open>push\<close>: allocate, retire the old array, publish the new one.\<close>

definition wsq_grow ::
  "'a \<Rightarrow> int \<Rightarrow> int \<Rightarrow> ('a, 'm) WorkStealQueue_scheme \<Rightarrow> ('a, 'm) WorkStealQueue_scheme" where
  "wsq_grow ini b t q =
     q\<lparr>wsq_garbage := wsq_garbage q @ [wsq_array q],
       wsq_array := length (wsq_heap q),
       wsq_heap := wsq_heap q @ [AtomicArray_resize ini (wsq_cur q) b t]\<rparr>"

definition wsq_write ::
  "int \<Rightarrow> 'a \<Rightarrow> ('a, 'm) WorkStealQueue_scheme \<Rightarrow> ('a, 'm) WorkStealQueue_scheme" where
  "wsq_write b x q =
     q\<lparr>wsq_heap := (wsq_heap q)[wsq_array q := AtomicArray_store (wsq_cur q) b x]\<rparr>"

definition wsq_push :: "'a \<Rightarrow> 'a \<Rightarrow> 'a WorkStealQueue \<Rightarrow> 'a WorkStealQueue" where
  "wsq_push ini x q =
     (let b = wsq_bottom q; t = wsq_top q;
          q1 = (if wsq_capacity q - 1 < b - t then wsq_grow ini b t q else q);
          q2 = wsq_write b x q1 in
      q2\<lparr>wsq_bottom := b + 1\<rparr>)"

text \<open>
  The owner alone: the value of \<open>_top\<close> read before the compare-and-swap is still there
  when it happens; the branch where the swap fails is kept as it is written.
\<close>

definition wsq_pop :: "'a WorkStealQueue \<Rightarrow> 'a option \<times> 'a WorkStealQueue" where
  "wsq_pop q =
     (let b = wsq_bottom q - 1; q1 = q\<lparr>wsq_bottom := b\<rparr>; t = wsq_top q1 in
      if t \<le> b then
        let item = Some (AtomicArray_load (wsq_cur q1) b) in
        if t = b then
          if wsq_top q1 = t then (item, q1\<lparr>wsq_top := t + 1, wsq_bottom := b + 1\<rparr>)
          else (None, q1\<lparr>wsq_bottom := b + 1\<rparr>)
        else (item, q1)
      else (None, q1\<lparr>wsq_bottom := b + 1\<rparr>))"

definition wsq_steal :: "'a WorkStealQueue \<Rightarrow> 'a option \<times> 'a WorkStealQueue" where
  "wsq_steal q =
     (let t = wsq_top q; b = wsq_bottom q in
      if t < b then
        let item = Some (AtomicArray_load (wsq_cur q) t) in
        if wsq_top q = t then (item, q\<lparr>wsq_top := t + 1\<rparr>) else (None, q)
      else (None, q))"

text \<open>The destructor: the pointers it deletes, in order.\<close>

definition wsq_delete :: "'a WorkStealQueue \<Rightarrow> nat list" where
  "wsq_delete q = wsq_garbage q @ [wsq_array q]"

section \<open>The contract of a work-stealing deque\<close>

text \<open>
  A deque holds a list. \<open>push\<close> appends to it, \<open>pop\<close> takes the last item and
  \<open>steal\<close> the first one. A client's calls are a list of requests; \<open>run_deque\<close> makes
  them one after the other and collects the answers.
\<close>

datatype 'a deque_op = DPush 'a | DPop | DSteal

fun run_deque :: "('a \<Rightarrow> 'q \<Rightarrow> 'q) \<Rightarrow> ('q \<Rightarrow> 'a option \<times> 'q) \<Rightarrow> ('q \<Rightarrow> 'a option \<times> 'q)
    \<Rightarrow> 'a deque_op list \<Rightarrow> 'q \<Rightarrow> 'a option list \<times> 'q" where
  "run_deque push pop steal [] q = ([], q)"
| "run_deque push pop steal (DPush x # ops) q = run_deque push pop steal ops (push x q)"
| "run_deque push pop steal (DPop # ops) q =
     (let (r, q1) = pop q; (rs, q2) = run_deque push pop steal ops q1 in (r # rs, q2))"
| "run_deque push pop steal (DSteal # ops) q =
     (let (r, q1) = steal q; (rs, q2) = run_deque push pop steal ops q1 in (r # rs, q2))"

definition list_pop :: "'a list \<Rightarrow> 'a option \<times> 'a list" where
  "list_pop xs = (if xs = [] then (None, []) else (Some (last xs), butlast xs))"

definition list_steal :: "'a list \<Rightarrow> 'a option \<times> 'a list" where
  "list_steal xs = (case xs of [] \<Rightarrow> (None, []) | x # ys \<Rightarrow> (Some x, ys))"

definition list_push :: "'a \<Rightarrow> 'a list \<Rightarrow> 'a list" where
  "list_push x xs = xs @ [x]"

fun pushed_items :: "'a deque_op list \<Rightarrow> 'a list" where
  "pushed_items [] = []"
| "pushed_items (DPush x # ops) = x # pushed_items ops"
| "pushed_items (_ # ops) = pushed_items ops"

definition answers :: "'a option list \<Rightarrow> 'a list" where
  "answers rs = List.map_filter id rs"

lemma answers_simps [simp]:
  "answers [] = []" "answers (None # rs) = answers rs" "answers (Some x # rs) = x # answers rs"
  by (simp_all add: answers_def map_filter_simps)

lemma list_deque_simps [simp]:
  "list_pop [] = (None, [])" "xs \<noteq> [] \<Longrightarrow> list_pop xs = (Some (last xs), butlast xs)"
  "list_steal [] = (None, [])" "list_steal (x # xs) = (Some x, xs)"
  by (simp_all add: list_pop_def list_steal_def)

lemma mset_list_push: "mset (list_push x xs) = add_mset x (mset xs)"
  by (simp add: list_push_def)

lemma list_run_conserves:
  "run_deque list_push list_pop list_steal ops xs = (rs, ys) \<Longrightarrow>
     mset xs + mset (pushed_items ops) = mset (answers rs) + mset ys"
proof (induction ops arbitrary: xs rs ys)
  case (Cons op ops)
  have bl: "mset zs = add_mset (last zs) (mset (butlast zs))" if "zs \<noteq> []" for zs :: "'a list"
    using that by (metis append_butlast_last_id mset.simps mset_append add_mset_add_single)
  show ?case
  proof (cases op)
    case (DPush x)
    then show ?thesis
      using Cons.prems Cons.IH [of "list_push x xs" rs ys] by (simp add: mset_list_push)
  next
    case DPop
    then show ?thesis
      using Cons.prems bl [of xs] Cons.IH [of "butlast xs"] Cons.IH [of "[]"]
      by (cases "xs = []") (auto split: prod.splits)
  next
    case DSteal
    then show ?thesis
      using Cons.prems Cons.IH [of "tl xs"] Cons.IH [of "[]"]
      by (cases xs) (auto split: prod.splits)
  qed
qed simp

locale work_deque =
  fixes inv :: "'q \<Rightarrow> bool" and abs :: "'q \<Rightarrow> 'a list" and push :: "'a \<Rightarrow> 'q \<Rightarrow> 'q"
    and pop :: "'q \<Rightarrow> 'a option \<times> 'q" and steal :: "'q \<Rightarrow> 'a option \<times> 'q"
    and ok :: "'a \<Rightarrow> bool"
  assumes push_inv: "inv q \<Longrightarrow> ok x \<Longrightarrow> inv (push x q)"
    and push_abs: "inv q \<Longrightarrow> ok x \<Longrightarrow> abs (push x q) = list_push x (abs q)"
    and pop_inv: "inv q \<Longrightarrow> inv (snd (pop q))"
    and pop_abs: "inv q \<Longrightarrow> map_prod id abs (pop q) = list_pop (abs q)"
    and steal_inv: "inv q \<Longrightarrow> inv (snd (steal q))"
    and steal_abs: "inv q \<Longrightarrow> map_prod id abs (steal q) = list_steal (abs q)"
begin

lemma run_refines:
  "inv q \<Longrightarrow> list_all ok (pushed_items ops) \<Longrightarrow> run_deque push pop steal ops q = (rs, q') \<Longrightarrow>
     inv q' \<and> run_deque list_push list_pop list_steal ops (abs q) = (rs, abs q')"
proof (induction ops arbitrary: q rs)
  case (Cons op ops)
  show ?case
  proof (cases op)
    case (DPush x)
    then show ?thesis using Cons by (auto simp: push_inv push_abs dest!: Cons.IH [rotated 2])
  next
    case DPop
    then show ?thesis
      using Cons.prems pop_inv [of q] pop_abs [of q] Cons.IH [of "snd (pop q)"]
      by (auto split: prod.splits simp: map_prod_def)
  next
    case DSteal
    then show ?thesis
      using Cons.prems steal_inv [of q] steal_abs [of q] Cons.IH [of "snd (steal q)"]
      by (auto split: prod.splits simp: map_prod_def)
  qed
qed simp

lemma run_conserves:
  "inv q \<Longrightarrow> list_all ok (pushed_items ops) \<Longrightarrow> run_deque push pop steal ops q = (rs, q') \<Longrightarrow>
     mset (abs q) + mset (pushed_items ops) = mset (answers rs) + mset (abs q')"
  using run_refines list_run_conserves by blast

end

section \<open>The queue is a deque\<close>

definition wsq_items :: "('a, 'm) WorkStealQueue_scheme \<Rightarrow> 'a list" where
  "wsq_items q = map (AtomicArray_load (wsq_cur q)) [wsq_top q..wsq_bottom q - 1]"

text \<open>
  The invariant: the current array is the youngest, every older one is in the garbage once,
  and the indices between top and bottom fit into the array.
\<close>

definition wsq_inv :: "('a, 'm) WorkStealQueue_scheme \<Rightarrow> bool" where
  "wsq_inv q \<longleftrightarrow>
     length (wsq_heap q) = Suc (wsq_array q) \<and> wsq_garbage q = [0..<wsq_array q] \<and>
     AtomicArray_wf (wsq_cur q) \<and> 0 \<le> wsq_top q \<and> wsq_top q \<le> wsq_bottom q \<and>
     wsq_bottom q - wsq_top q \<le> wsq_capacity q"

lemma wsq_cur_grow [simp]: "wsq_cur (wsq_grow ini b t q) = AtomicArray_resize ini (wsq_cur q) b t"
  by (simp add: wsq_cur_def wsq_grow_def)

lemma wsq_cur_write [simp]:
  "wsq_array q < length (wsq_heap q) \<Longrightarrow>
     wsq_cur (wsq_write b x q) = AtomicArray_store (wsq_cur q) b x"
  by (simp add: wsq_cur_def wsq_write_def)

lemma wsq_cur_update [simp]:
  "wsq_cur (q\<lparr>wsq_bottom := b\<rparr>) = wsq_cur q" "wsq_cur (q\<lparr>wsq_top := t\<rparr>) = wsq_cur q"
  by (simp_all add: wsq_cur_def)

lemma wsq_frame [simp]:
  "wsq_top (wsq_grow ini b t q) = wsq_top q" "wsq_bottom (wsq_grow ini b t q) = wsq_bottom q"
  "wsq_array (wsq_grow ini b t q) = length (wsq_heap q)"
  "length (wsq_heap (wsq_grow ini b t q)) = Suc (length (wsq_heap q))"
  "wsq_garbage (wsq_grow ini b t q) = wsq_garbage q @ [wsq_array q]"
  "wsq_top (wsq_write b x q) = wsq_top q" "wsq_bottom (wsq_write b x q) = wsq_bottom q"
  "wsq_array (wsq_write b x q) = wsq_array q"
  "length (wsq_heap (wsq_write b x q)) = length (wsq_heap q)"
  "wsq_garbage (wsq_write b x q) = wsq_garbage q"
  by (simp_all add: wsq_grow_def wsq_write_def)

lemma wsq_capacity_facts [simp]:
  "wsq_array q < length (wsq_heap q) \<Longrightarrow> wsq_capacity (wsq_write b x q) = wsq_capacity q"
  "wsq_capacity (q\<lparr>wsq_bottom := b\<rparr>) = wsq_capacity q"
  "wsq_capacity (q\<lparr>wsq_top := t\<rparr>) = wsq_capacity q"
  by (simp_all add: wsq_capacity_def aa.cap_st)

text \<open>What the growing branch leaves: the same items in an array with room for one more.\<close>

lemma wsq_grow_facts:
  assumes "wsq_inv q"
  shows "wsq_inv (wsq_grow ini (wsq_bottom q) (wsq_top q) q)"
    and "wsq_items (wsq_grow ini (wsq_bottom q) (wsq_top q) q) = wsq_items q"
    and "wsq_bottom q - wsq_top q < wsq_capacity (wsq_grow ini (wsq_bottom q) (wsq_top q) q)"
proof -
  have wf: "AtomicArray_wf (wsq_cur q)" and fit: "wsq_bottom q - wsq_top q \<le> arr_C (wsq_cur q)"
    and pos: "0 < arr_C (wsq_cur q)"
    using assms aa.cap_pos [of "wsq_cur q"]
    by (auto simp: wsq_inv_def wsq_capacity_def AtomicArray_capacity_def)
  note r = AtomicArray_resize_facts [OF wf fit, where ini = ini]
  show "wsq_bottom q - wsq_top q < wsq_capacity (wsq_grow ini (wsq_bottom q) (wsq_top q) q)"
    using r(2) fit pos by (simp add: wsq_capacity_def AtomicArray_capacity_def)
  then show "wsq_inv (wsq_grow ini (wsq_bottom q) (wsq_top q) q)"
    using assms r(1) by (simp add: wsq_inv_def)
  show "wsq_items (wsq_grow ini (wsq_bottom q) (wsq_top q) q) = wsq_items q"
    using r(3) by (simp add: wsq_items_def)
qed

lemma wsq_push_facts:
  assumes "wsq_inv q"
  shows "wsq_inv (wsq_push ini x q)" and "wsq_items (wsq_push ini x q) = wsq_items q @ [x]"
    and "wsq_bottom (wsq_push ini x q) = wsq_bottom q + 1"
proof -
  let ?b = "wsq_bottom q" and ?t = "wsq_top q"
  define q1 where "q1 = (if wsq_capacity q - 1 < ?b - ?t then wsq_grow ini ?b ?t q else q)"
  have q1: "wsq_inv q1" "wsq_items q1 = wsq_items q" "?b - ?t < wsq_capacity q1"
    "wsq_bottom q1 = ?b" "wsq_top q1 = ?t"
    using wsq_grow_facts [OF assms] assms by (auto simp: q1_def)
  have p: "wsq_push ini x q = (wsq_write ?b x q1)\<lparr>wsq_bottom := ?b + 1\<rparr>"
    by (simp add: wsq_push_def q1_def Let_def)
  have wf: "AtomicArray_wf (wsq_cur q1)" "wsq_array q1 < length (wsq_heap q1)" "?t \<le> ?b"
    using q1 assms by (auto simp: wsq_inv_def)
  then have "map (AtomicArray_load (AtomicArray_store (wsq_cur q1) ?b x)) [?t..?b]
      = map (AtomicArray_load (wsq_cur q1)) [?t..?b - 1] @ [x]"
    using q1(3) by (intro aa.contents_st) (auto simp: wsq_capacity_def)
  then show "wsq_items (wsq_push ini x q) = wsq_items q @ [x]"
    using q1 wf unfolding p by (simp add: wsq_items_def)
  show "wsq_inv (wsq_push ini x q)" "wsq_bottom (wsq_push ini x q) = wsq_bottom q + 1"
    using q1 wf unfolding p by (auto simp: wsq_inv_def aa.wf_st)
qed

lemma wsq_items_empty: "wsq_items q = [] \<longleftrightarrow> wsq_empty q"
  by (auto simp: wsq_items_def wsq_empty_def)

lemma wsq_pop_facts:
  assumes "wsq_inv q"
  shows "wsq_inv (snd (wsq_pop q))" and "map_prod id wsq_items (wsq_pop q) = list_pop (wsq_items q)"
proof -
  show "wsq_inv (snd (wsq_pop q))"
    using assms by (auto simp: wsq_pop_def Let_def wsq_inv_def)
  have "wsq_items q = map (AtomicArray_load (wsq_cur q)) [wsq_top q..wsq_bottom q - 2]
      @ [AtomicArray_load (wsq_cur q) (wsq_bottom q - 1)]" if "wsq_top q < wsq_bottom q"
    using that aa.contents_last [of "wsq_top q" "wsq_bottom q - 1"] by (simp add: wsq_items_def)
  then show "map_prod id wsq_items (wsq_pop q) = list_pop (wsq_items q)"
    using assms wsq_items_empty [of q]
    by (auto simp: wsq_pop_def Let_def list_pop_def wsq_empty_def wsq_inv_def wsq_items_def)
qed

lemma wsq_steal_facts:
  assumes "wsq_inv q"
  shows "wsq_inv (snd (wsq_steal q))"
    and "map_prod id wsq_items (wsq_steal q) = list_steal (wsq_items q)"
proof -
  show "wsq_inv (snd (wsq_steal q))"
    using assms by (auto simp: wsq_steal_def Let_def wsq_inv_def)
  show "map_prod id wsq_items (wsq_steal q) = list_steal (wsq_items q)"
    using aa.contents_first [of "wsq_top q" "wsq_bottom q - 1" "wsq_cur q"]
    by (auto simp: wsq_steal_def Let_def list_steal_def wsq_items_def)
qed

interpretation wsq: work_deque wsq_inv wsq_items "wsq_push ini" wsq_pop wsq_steal "\<lambda>_. True" for ini
  by unfold_locales (simp_all add: wsq_push_facts wsq_pop_facts wsq_steal_facts list_push_def)

lemma new_WorkStealQueue_inv:
  "new_WorkStealQueue ini c = Inr q \<Longrightarrow> wsq_inv q \<and> wsq_items q = [] \<and> wsq_capacity q = c"
  using pow2_assertion [of c] aa.wf_new [of ini]
  by (auto simp: new_WorkStealQueue_def wsq_inv_def wsq_items_def wsq_capacity_def wsq_cur_def
      AtomicArray_capacity_def new_AtomicArray_def split: if_splits)

text \<open>The bottom index is a count of pushes; it cannot pass their number.\<close>

lemma wsq_bottom_le:
  "wsq_bottom (snd (wsq_pop q)) \<le> wsq_bottom q" "wsq_bottom (snd (wsq_steal q)) = wsq_bottom q"
  by (auto simp: wsq_pop_def wsq_steal_def Let_def)

lemma wsq_run_bottom:
  "wsq_inv q \<Longrightarrow> run_deque (wsq_push ini) wsq_pop wsq_steal ops q = (rs, q') \<Longrightarrow>
     wsq_bottom q' \<le> wsq_bottom q + int (length (pushed_items ops))"
proof (induction ops arbitrary: q rs)
  case (Cons op ops)
  show ?case
  proof (cases op)
    case (DPush x)
    then show ?thesis
      using Cons.prems Cons.IH [of "wsq_push ini x q" rs] wsq_push_facts [of q ini x] by auto
  next
    case DPop
    then show ?thesis
      using Cons.prems Cons.IH [of "snd (wsq_pop q)"] wsq_pop_facts(1) [of q] wsq_bottom_le(1) [of q]
      by (fastforce split: prod.splits)
  next
    case DSteal
    then show ?thesis
      using Cons.prems Cons.IH [of "snd (wsq_steal q)"] wsq_steal_facts(1) [of q] wsq_bottom_le(2) [of q]
      by (fastforce split: prod.splits)
  qed
qed simp

section \<open>Properties\<close>

text \<open>C16: every sequence of pushes, pops and steals on a new queue gives the answers of a list
  where pushes append, pops take the last item and steals the first one; the circular array,
  its growth and its index arithmetic do not show. At the end the queue holds exactly the
  items of that list.\<close>

theorem wsq_refines_deque:
  assumes "new_WorkStealQueue ini c = Inr q"
    and "run_deque (wsq_push ini) wsq_pop wsq_steal ops q = (rs, q')"
  shows "wsq_inv q' \<and> run_deque list_push list_pop list_steal ops [] = (rs, wsq_items q')"
  using wsq.run_refines [OF _ _ assms(2)] new_WorkStealQueue_inv [OF assms(1)]
  by (simp add: list_all_iff)

theorem wsq_refines_deque_witness:
  "\<exists>q rs q'. new_WorkStealQueue (0 :: nat) 2 = Inr q
     \<and> run_deque (wsq_push 0) wsq_pop wsq_steal [DPush 1, DPush 2, DPush 3, DSteal, DPop] q = (rs, q')
     \<and> wsq_inv q' \<and> rs = [Some 1, Some 3] \<and> wsq_items q' = [2]"
proof -
  obtain q where q: "new_WorkStealQueue (0 :: nat) 2 = Inr q" by (simp add: new_WorkStealQueue_def)
  obtain rs q' where r: "run_deque (wsq_push 0) wsq_pop wsq_steal
      [DPush 1, DPush 2, DPush 3, DSteal, DPop] q = (rs, q')" by (rule prod.exhaust)
  from wsq_refines_deque [OF q r] have "wsq_inv q'" "rs = [Some 1, Some 3]" "wsq_items q' = [2]"
    by (auto simp: list_push_def)
  with q r show ?thesis by blast
qed

text \<open>Along every such sequence the destructor deletes every array that was allocated, and
  each exactly once, and the bottom index never passes the number of pushes, so that the
  64-bit index cannot overflow in fewer than 2^63 pushes.\<close>

theorem wsq_resources:
  assumes "new_WorkStealQueue ini c = Inr q"
    and "run_deque (wsq_push ini) wsq_pop wsq_steal ops q = (rs, q')"
  shows "wsq_delete q' = [0..<length (wsq_heap q')]
       \<and> 0 \<le> wsq_top q' \<and> wsq_bottom q' \<le> int (length (pushed_items ops))"
proof -
  have "wsq_bottom q = 0" using assms(1) by (auto simp: new_WorkStealQueue_def split: if_splits)
  moreover have "wsq_inv q" using new_WorkStealQueue_inv [OF assms(1)] by blast
  ultimately have "wsq_inv q'" "wsq_bottom q' \<le> int (length (pushed_items ops))"
    using wsq.run_refines [OF _ _ assms(2)] wsq_run_bottom [OF _ assms(2)] by (auto simp: list_all_iff)
  then show ?thesis by (simp add: wsq_inv_def wsq_delete_def)
qed

theorem wsq_resources_witness:
  "\<exists>q rs q'. new_WorkStealQueue (0 :: nat) 1 = Inr q
     \<and> run_deque (wsq_push 0) wsq_pop wsq_steal [DPush 1, DPush 2, DPush 3] q = (rs, q')
     \<and> wsq_delete q' = [0..<length (wsq_heap q')] \<and> 0 \<le> wsq_top q' \<and> wsq_bottom q' \<le> 3"
proof -
  obtain q where q: "new_WorkStealQueue (0 :: nat) 1 = Inr q" by (simp add: new_WorkStealQueue_def)
  obtain rs q' where r: "run_deque (wsq_push 0) wsq_pop wsq_steal [DPush 1, DPush 2, DPush 3] q
      = (rs, q')" by (rule prod.exhaust)
  from wsq_resources [OF q r] have "wsq_delete q' = [0..<length (wsq_heap q')]" "0 \<le> wsq_top q'"
    "wsq_bottom q' \<le> 3" by simp_all
  with q r show ?thesis by blast
qed

text \<open>The constructor's assertion accepts exactly the capacities that are powers of two,
  and a queue made with one is empty and has that capacity.\<close>

theorem new_WorkStealQueue_accepts:
  "case new_WorkStealQueue ini c of
     Inr q \<Rightarrow> (\<exists>k. c = 2 ^ k) \<and> wsq_empty q \<and> wsq_capacity q = c \<and> wsq_inv q
   | Inl e \<Rightarrow> (\<nexists>k. c = 2 ^ k) \<and> e = assertion_failed"
proof (cases "new_WorkStealQueue ini c")
  case (Inr q)
  then show ?thesis
    using new_WorkStealQueue_inv [OF Inr] pow2_assertion [of c] wsq_items_empty [of q]
    by (auto simp: new_WorkStealQueue_def split: if_splits)
next
  case (Inl e)
  then show ?thesis
    using pow2_assertion [of c] by (auto simp: new_WorkStealQueue_def split: if_splits)
qed

end
