(* ===== verification/Chase_Lev.thy ===== *)
theory Chase_Lev
  imports Work_Steal_Queue
begin

text \<open>
  \<open>include/ar/work_steal_queue.hpp\<close> under concurrency: the owner runs \<open>push\<close> and
  \<open>pop\<close>, any number of thieves run \<open>steal\<close>, and their accesses to the shared
  variables interleave. One step is one access to \<open>_top\<close>, \<open>_bottom\<close>, \<open>_array\<close>
  or a slot, in the order of the source; between two steps a thread's local variables are in
  its program counter. Loads and stores are sequentially consistent: the memory orders of
  the source are not modelled. \<open>cl_pushed\<close> and \<open>cl_taken\<close> record the items handed
  in and out; the code does not have them.
\<close>

section \<open>Definitions\<close>

datatype 'a owner_pc =
    OIdle
  | OPushRead 'a int int
  | OPushWrite 'a int
  | OPushed 'a int
  | OPop int
  | OPopTop int int
  | OPopCas int int 'a
  | OPopRestore int

datatype 'a thief_pc =
    TIdle
  | TTop int
  | TBottom int int
  | TArray int nat
  | TItem int 'a

record 'a cl_state = "'a WorkStealQueue" +
  cl_owner :: "'a owner_pc"
  cl_thief :: "nat \<Rightarrow> 'a thief_pc"
  cl_pushed :: "'a list"
  cl_taken :: "'a list"

definition cl_init :: "'a WorkStealQueue \<Rightarrow> 'a cl_state" where
  "cl_init q = WorkStealQueue.extend q
     \<lparr>cl_owner = OIdle, cl_thief = (\<lambda>_. TIdle), cl_pushed = [], cl_taken = []\<rparr>"

definition set_thief :: "nat \<Rightarrow> 'a thief_pc \<Rightarrow> 'a cl_state \<Rightarrow> 'a cl_state" where
  "set_thief i pc s = s\<lparr>cl_thief := (cl_thief s)(i := pc)\<rparr>"

inductive cl_step :: "'a \<Rightarrow> 'a cl_state \<Rightarrow> 'a cl_state \<Rightarrow> bool" for ini :: 'a where
  push_read: "cl_owner s = OIdle \<Longrightarrow>
    cl_step ini s (s\<lparr>cl_owner := OPushRead x (wsq_bottom s) (wsq_top s)\<rparr>)"
| push_grow: "cl_owner s = OPushRead x b t \<Longrightarrow> wsq_capacity s - 1 < b - t \<Longrightarrow>
    cl_step ini s ((wsq_grow ini b t s)\<lparr>cl_owner := OPushWrite x b\<rparr>)"
| push_fits: "cl_owner s = OPushRead x b t \<Longrightarrow> \<not> wsq_capacity s - 1 < b - t \<Longrightarrow>
    cl_step ini s (s\<lparr>cl_owner := OPushWrite x b\<rparr>)"
| push_write: "cl_owner s = OPushWrite x b \<Longrightarrow>
    cl_step ini s ((wsq_write b x s)\<lparr>cl_owner := OPushed x b\<rparr>)"
| push_publish: "cl_owner s = OPushed x b \<Longrightarrow>
    cl_step ini s (s\<lparr>wsq_bottom := b + 1, cl_owner := OIdle, cl_pushed := cl_pushed s @ [x]\<rparr>)"
| pop_bottom: "cl_owner s = OIdle \<Longrightarrow>
    cl_step ini s (s\<lparr>wsq_bottom := wsq_bottom s - 1, cl_owner := OPop (wsq_bottom s - 1)\<rparr>)"
| pop_top: "cl_owner s = OPop b \<Longrightarrow> cl_step ini s (s\<lparr>cl_owner := OPopTop b (wsq_top s)\<rparr>)"
| pop_empty: "cl_owner s = OPopTop b t \<Longrightarrow> \<not> t \<le> b \<Longrightarrow>
    cl_step ini s (s\<lparr>wsq_bottom := b + 1, cl_owner := OIdle\<rparr>)"
| pop_many: "cl_owner s = OPopTop b t \<Longrightarrow> t < b \<Longrightarrow>
    cl_step ini s (s\<lparr>cl_owner := OIdle,
      cl_taken := cl_taken s @ [AtomicArray_load (wsq_cur s) b]\<rparr>)"
| pop_last: "cl_owner s = OPopTop b t \<Longrightarrow> t = b \<Longrightarrow>
    cl_step ini s (s\<lparr>cl_owner := OPopCas b t (AtomicArray_load (wsq_cur s) b)\<rparr>)"
| pop_cas: "cl_owner s = OPopCas b t x \<Longrightarrow> wsq_top s = t \<Longrightarrow>
    cl_step ini s (s\<lparr>wsq_top := t + 1, cl_owner := OPopRestore b, cl_taken := cl_taken s @ [x]\<rparr>)"
| pop_lost: "cl_owner s = OPopCas b t x \<Longrightarrow> wsq_top s \<noteq> t \<Longrightarrow>
    cl_step ini s (s\<lparr>cl_owner := OPopRestore b\<rparr>)"
| pop_restore: "cl_owner s = OPopRestore b \<Longrightarrow>
    cl_step ini s (s\<lparr>wsq_bottom := b + 1, cl_owner := OIdle\<rparr>)"
| steal_top: "cl_thief s i = TIdle \<Longrightarrow> cl_step ini s (set_thief i (TTop (wsq_top s)) s)"
| steal_bottom: "cl_thief s i = TTop t \<Longrightarrow> cl_step ini s (set_thief i (TBottom t (wsq_bottom s)) s)"
| steal_empty: "cl_thief s i = TBottom t b \<Longrightarrow> \<not> t < b \<Longrightarrow> cl_step ini s (set_thief i TIdle s)"
| steal_array: "cl_thief s i = TBottom t b \<Longrightarrow> t < b \<Longrightarrow>
    cl_step ini s (set_thief i (TArray t (wsq_array s)) s)"
| steal_item: "cl_thief s i = TArray t a \<Longrightarrow>
    cl_step ini s (set_thief i (TItem t (AtomicArray_load (wsq_heap s ! a) t)) s)"
| steal_cas: "cl_thief s i = TItem t x \<Longrightarrow> wsq_top s = t \<Longrightarrow>
    cl_step ini s (set_thief i TIdle (s\<lparr>wsq_top := t + 1, cl_taken := cl_taken s @ [x]\<rparr>))"
| steal_lost: "cl_thief s i = TItem t x \<Longrightarrow> wsq_top s \<noteq> t \<Longrightarrow> cl_step ini s (set_thief i TIdle s)"

lemmas cl_step_rules [step_intros] = cl_step.intros

section \<open>The invariant\<close>

text \<open>
  \<open>cl_end\<close> is the end of the range of items not yet handed out, \<open>cl_shared\<close> the
  end of the part of it that thieves may still take: they differ while the owner holds the
  last item without a compare-and-swap.
\<close>

definition cl_end :: "'a cl_state \<Rightarrow> int" where
  "cl_end s = (case cl_owner s of
       OPop b \<Rightarrow> b + 1 | OPopTop b t \<Rightarrow> b + 1 | OPopCas b t x \<Rightarrow> b + 1 | OPopRestore b \<Rightarrow> b + 1
     | _ \<Rightarrow> wsq_bottom s)"

definition cl_shared :: "'a cl_state \<Rightarrow> int" where
  "cl_shared s = (case cl_owner s of
       OPopTop b t \<Rightarrow> if t < b then b else b + 1 | _ \<Rightarrow> cl_end s)"

definition cl_items :: "'a cl_state \<Rightarrow> 'a list" where
  "cl_items s = map (AtomicArray_load (wsq_cur s)) [wsq_top s..cl_end s - 1]"

definition cl_owner_ok :: "'a cl_state \<Rightarrow> bool" where
  "cl_owner_ok s = (case cl_owner s of
       OIdle \<Rightarrow> True
     | OPushRead x b t \<Rightarrow> b = wsq_bottom s \<and> t \<le> wsq_top s \<and> b - t \<le> wsq_capacity s
     | OPushWrite x b \<Rightarrow> b = wsq_bottom s \<and> b - wsq_top s < wsq_capacity s
     | OPushed x b \<Rightarrow> b = wsq_bottom s \<and> b - wsq_top s < wsq_capacity s
         \<and> AtomicArray_load (wsq_cur s) b = x
     | OPop b \<Rightarrow> wsq_bottom s = b
     | OPopTop b t \<Rightarrow> wsq_bottom s = b \<and> t \<le> wsq_top s
     | OPopCas b t x \<Rightarrow> wsq_bottom s = b \<and> t = b \<and> t \<le> wsq_top s
         \<and> x = AtomicArray_load (wsq_cur s) b
     | OPopRestore b \<Rightarrow> wsq_bottom s = b)"

definition cl_thief_ok :: "'a cl_state \<Rightarrow> 'a thief_pc \<Rightarrow> bool" where
  "cl_thief_ok s pc = (case pc of
       TIdle \<Rightarrow> True
     | TTop t \<Rightarrow> t \<le> wsq_top s
     | TBottom t b \<Rightarrow> t \<le> wsq_top s \<and> (t < b \<and> t = wsq_top s \<longrightarrow> t < cl_shared s)
     | TArray t a \<Rightarrow> t \<le> wsq_top s \<and> a < length (wsq_heap s) \<and>
         (t = wsq_top s \<longrightarrow> t < cl_shared s
            \<and> AtomicArray_load (wsq_heap s ! a) t = AtomicArray_load (wsq_cur s) t)
     | TItem t x \<Rightarrow> t \<le> wsq_top s \<and>
         (t = wsq_top s \<longrightarrow> t < cl_shared s \<and> x = AtomicArray_load (wsq_cur s) t))"

definition cl_base :: "'a cl_state \<Rightarrow> bool" where
  "cl_base s \<longleftrightarrow>
     length (wsq_heap s) = Suc (wsq_array s) \<and> AtomicArray_wf (wsq_cur s) \<and>
     wsq_top s \<le> cl_shared s \<and> cl_end s - wsq_top s \<le> wsq_capacity s \<and>
     mset (cl_pushed s) = mset (cl_taken s) + mset (cl_items s)"

definition cl_inv :: "'a cl_state \<Rightarrow> bool" where
  "cl_inv s \<longleftrightarrow> cl_base s \<and> cl_owner_ok s \<and> (\<forall>i. cl_thief_ok s (cl_thief s i))"

text \<open>How a thief's knowledge survives the steps of the others.\<close>

lemma cl_thief_ok_keep:
  assumes "cl_thief_ok s pc" and "wsq_top s' = wsq_top s"
    and "length (wsq_heap s) \<le> length (wsq_heap s')"
    and "wsq_top s < cl_shared s \<Longrightarrow> wsq_top s < cl_shared s'
      \<and> AtomicArray_load (wsq_cur s') (wsq_top s) = AtomicArray_load (wsq_cur s) (wsq_top s)"
    and "\<And>a. a < length (wsq_heap s) \<Longrightarrow> wsq_top s < cl_shared s \<Longrightarrow>
      AtomicArray_load (wsq_heap s' ! a) (wsq_top s) = AtomicArray_load (wsq_heap s ! a) (wsq_top s)"
  shows "cl_thief_ok s' pc"
  using assms by (fastforce simp: cl_thief_ok_def split: thief_pc.splits)

lemma cl_thief_ok_advance:
  assumes "cl_thief_ok s pc" and "wsq_top s < wsq_top s'"
    and "length (wsq_heap s) \<le> length (wsq_heap s')"
  shows "cl_thief_ok s' pc"
  using assms by (auto simp: cl_thief_ok_def split: thief_pc.splits)

lemma cl_items_first:
  "wsq_top s < cl_end s \<Longrightarrow> cl_items s
     = AtomicArray_load (wsq_cur s) (wsq_top s)
       # map (AtomicArray_load (wsq_cur s)) [wsq_top s + 1..cl_end s - 1]"
  using aa.contents_first [of "wsq_top s" "cl_end s - 1"] by (simp add: cl_items_def)

lemma cl_shared_end: "cl_shared s \<le> cl_end s"
  by (auto simp: cl_shared_def cl_end_def split: owner_pc.splits)


lemma cl_frame [simp]:
  "wsq_cur (s\<lparr>cl_owner := p\<rparr>) = wsq_cur s" "wsq_cur (s\<lparr>cl_taken := xs\<rparr>) = wsq_cur s"
  "wsq_cur (s\<lparr>cl_pushed := xs\<rparr>) = wsq_cur s" "wsq_cur (s\<lparr>cl_thief := f\<rparr>) = wsq_cur s"
  "wsq_capacity (s\<lparr>cl_owner := p\<rparr>) = wsq_capacity s"
  "wsq_capacity (s\<lparr>cl_taken := xs\<rparr>) = wsq_capacity s"
  "wsq_capacity (s\<lparr>cl_pushed := xs\<rparr>) = wsq_capacity s"
  "wsq_capacity (s\<lparr>cl_thief := f\<rparr>) = wsq_capacity s"
  "cl_pushed (wsq_grow ini b t s) = cl_pushed s" "cl_taken (wsq_grow ini b t s) = cl_taken s"
  "cl_owner (wsq_grow ini b t s) = cl_owner s" "cl_thief (wsq_grow ini b t s) = cl_thief s"
  "cl_pushed (wsq_write b x s) = cl_pushed s" "cl_taken (wsq_write b x s) = cl_taken s"
  "cl_owner (wsq_write b x s) = cl_owner s" "cl_thief (wsq_write b x s) = cl_thief s"
  by (simp_all add: wsq_cur_def wsq_capacity_def wsq_grow_def wsq_write_def)

lemmas cl_pc_defs = cl_end_def cl_shared_def cl_owner_ok_def

text \<open>A step of the owner that leaves the top and the arrays alone.\<close>

lemma cl_inv_owner_step:
  assumes "cl_inv s" and "wsq_heap s' = wsq_heap s" "wsq_array s' = wsq_array s"
    and "wsq_top s' = wsq_top s" "cl_thief s' = cl_thief s"
    and "wsq_top s \<le> cl_shared s'" "wsq_top s < cl_shared s \<Longrightarrow> wsq_top s < cl_shared s'"
    and "cl_end s' - wsq_top s \<le> wsq_capacity s"
    and "mset (cl_pushed s') = mset (cl_taken s') + mset (cl_items s')"
    and "cl_owner_ok s'"
  shows "cl_inv s'"
proof -
  have "wsq_cur s' = wsq_cur s" "wsq_capacity s' = wsq_capacity s"
    using assms(2,3) by (simp_all add: wsq_cur_def wsq_capacity_def)
  then show ?thesis
    using assms cl_thief_ok_keep [of s _ s'] by (auto simp: cl_inv_def cl_base_def)
qed

lemma cl_inv_steal_cas:
  assumes "cl_inv s" and "cl_thief s i = TItem t x" and "wsq_top s = t"
  shows "cl_inv (set_thief i TIdle (s\<lparr>wsq_top := t + 1, cl_taken := cl_taken s @ [x]\<rparr>))"
    (is "cl_inv ?s'")
proof -
  have lt: "wsq_top s < cl_shared s" and x: "x = AtomicArray_load (wsq_cur s) (wsq_top s)"
    using assms by (auto simp: cl_inv_def cl_thief_ok_def dest!: spec [of _ i])
  have e: "cl_end ?s' = cl_end s" "cl_shared ?s' = cl_shared s"
    by (auto simp: cl_end_def cl_shared_def set_thief_def split: owner_pc.splits)
  have "cl_items s = x # cl_items ?s'"
    using cl_items_first [of s] lt x cl_shared_end [of s] e assms(3) by (simp add: cl_items_def set_thief_def)
  then have "cl_base ?s'"
    using assms lt e by (auto simp: cl_inv_def cl_base_def set_thief_def)
  moreover have "cl_owner_ok ?s'"
    using assms by (auto simp: cl_inv_def cl_owner_ok_def set_thief_def split: owner_pc.splits)
  moreover have "cl_thief_ok ?s' (cl_thief ?s' j)" for j
    using assms cl_thief_ok_advance [of s "cl_thief s j" ?s']
    by (auto simp: cl_inv_def set_thief_def cl_thief_ok_def [of _ TIdle])
  ultimately show ?thesis by (simp add: cl_inv_def)
qed

lemma cl_inv_pop_cas:
  assumes "cl_inv s" and "cl_owner s = OPopCas b t x" and "wsq_top s = t"
  shows "cl_inv (s\<lparr>wsq_top := t + 1, cl_owner := OPopRestore b, cl_taken := cl_taken s @ [x]\<rparr>)"
    (is "cl_inv ?s'")
proof -
  have o: "wsq_bottom s = b" "t = b" "x = AtomicArray_load (wsq_cur s) b" "cl_end s = b + 1"
    using assms by (auto simp: cl_inv_def cl_pc_defs)
  then have "cl_items s = [x]" "cl_items ?s' = []"
    using assms(3) by (simp_all add: cl_items_def cl_end_def)
  then have "cl_base ?s'"
    using assms o by (auto simp: cl_inv_def cl_base_def cl_pc_defs)
  moreover have "cl_thief_ok ?s' (cl_thief ?s' j)" for j
    using assms cl_thief_ok_advance [of s "cl_thief s j" ?s'] by (auto simp: cl_inv_def)
  ultimately show ?thesis using o by (simp add: cl_inv_def cl_owner_ok_def)
qed

text \<open>A step of a thief on its own variables.\<close>

lemma cl_inv_thief_step:
  assumes "cl_inv s" and "cl_thief_ok s pc"
  shows "cl_inv (set_thief i pc s)"
proof -
  let ?s' = "set_thief i pc s"
  have e: "cl_end ?s' = cl_end s" "cl_shared ?s' = cl_shared s" "cl_owner_ok ?s' = cl_owner_ok s"
    "cl_items ?s' = cl_items s"
    by (auto simp: cl_pc_defs cl_items_def set_thief_def split: owner_pc.splits)
  then have "cl_thief_ok ?s' p = cl_thief_ok s p" for p
    by (simp add: cl_thief_ok_def set_thief_def split: thief_pc.split)
  then show ?thesis using assms e by (auto simp: cl_inv_def cl_base_def set_thief_def)
qed

lemma cl_inv_push_write:
  assumes "cl_inv s" and "cl_owner s = OPushWrite x b"
  shows "cl_inv ((wsq_write b x s)\<lparr>cl_owner := OPushed x b\<rparr>)" (is "cl_inv ?s'")
proof -
  have o: "b = wsq_bottom s" "b - wsq_top s < wsq_capacity s" "cl_end s = b" "cl_shared s = b"
    "cl_end ?s' = b" "cl_shared ?s' = b" and wf: "AtomicArray_wf (wsq_cur s)"
    and a: "wsq_array s < length (wsq_heap s)"
    using assms by (auto simp: cl_inv_def cl_base_def cl_pc_defs)
  have cur: "wsq_cur ?s' = AtomicArray_store (wsq_cur s) b x" using a by simp
  have ld: "AtomicArray_load (wsq_cur ?s') j = AtomicArray_load (wsq_cur s) j"
    if "wsq_top s \<le> j" "j < b" for j
    unfolding cur using o(2) wf that
    by (intro aa.ld_st_other [where t = "wsq_top s"]) (simp_all add: wsq_capacity_def)
  then have "cl_items ?s' = cl_items s" using o by (simp add: cl_items_def)
  then have "cl_base ?s'"
    using assms o wf a by (simp add: cl_inv_def cl_base_def aa.wf_st wsq_capacity_def aa.cap_st)
  moreover have "cl_owner_ok ?s'"
    using o wf a by (simp add: cl_owner_ok_def aa.ld_st)
  moreover have "cl_thief_ok ?s' (cl_thief ?s' j)" for j
  proof (rule cl_thief_ok_keep [of s])
    fix k assume "k < length (wsq_heap s)" "wsq_top s < cl_shared s"
    then show "AtomicArray_load (wsq_heap ?s' ! k) (wsq_top s) = AtomicArray_load (wsq_heap s ! k) (wsq_top s)"
      using ld [of "wsq_top s"] o cur by (cases "k = wsq_array s") (auto simp: wsq_write_def wsq_cur_def)
  qed (use assms o ld in \<open>auto simp: cl_inv_def\<close>)
  ultimately show ?thesis by (simp add: cl_inv_def)
qed

lemma cl_inv_push_grow:
  assumes "cl_inv s" and "cl_owner s = OPushRead x b t"
  shows "cl_inv ((wsq_grow ini b t s)\<lparr>cl_owner := OPushWrite x b\<rparr>)" (is "cl_inv ?s'")
proof -
  have o: "b = wsq_bottom s" "t \<le> wsq_top s" "b - t \<le> arr_C (wsq_cur s)" "cl_end s = b" "cl_shared s = b"
    "cl_end ?s' = b" "cl_shared ?s' = b" and wf: "AtomicArray_wf (wsq_cur s)"
    and a: "length (wsq_heap s) = Suc (wsq_array s)" and tb: "wsq_top s \<le> b"
    using assms by (auto simp: cl_inv_def cl_base_def cl_pc_defs wsq_capacity_def AtomicArray_capacity_def)
  note r = AtomicArray_resize_facts [OF wf o(3), where ini = ini]
  have cap: "wsq_capacity ?s' = 2 * arr_C (wsq_cur s)" "0 < arr_C (wsq_cur s)"
    using r(2) aa.cap_pos [OF wf] by (simp_all add: wsq_capacity_def AtomicArray_capacity_def)
  have ld: "AtomicArray_load (wsq_cur ?s') j = AtomicArray_load (wsq_cur s) j"
    if "wsq_top s \<le> j" "j < b" for j
    using r(3) that o(2) by simp
  then have "cl_items ?s' = cl_items s" using o by (simp add: cl_items_def)
  then have "cl_base ?s'"
    using assms o wf a cap r(1) tb by (simp add: cl_inv_def cl_base_def)
  moreover have "cl_owner_ok ?s'" using o tb cap by (simp add: cl_owner_ok_def)
  moreover have "cl_thief_ok ?s' (cl_thief ?s' j)" for j
    by (rule cl_thief_ok_keep [of s])
      (use assms o ld in \<open>auto simp: cl_inv_def wsq_grow_def nth_append\<close>)
  ultimately show ?thesis by (simp add: cl_inv_def)
qed

lemma cl_inv_push_publish:
  assumes "cl_inv s" and "cl_owner s = OPushed x b"
  shows "cl_inv (s\<lparr>wsq_bottom := b + 1, cl_owner := OIdle, cl_pushed := cl_pushed s @ [x]\<rparr>)"
    (is "cl_inv ?s'")
proof -
  have o: "b = wsq_bottom s" "b - wsq_top s < wsq_capacity s" "AtomicArray_load (wsq_cur s) b = x"
    "cl_end s = b" "cl_shared s = b" "wsq_top s \<le> b"
    using assms by (auto simp: cl_inv_def cl_base_def cl_pc_defs)
  then have "cl_items ?s' = cl_items s @ [x]"
    using aa.contents_last [of "wsq_top s" b "wsq_cur s"] by (simp add: cl_items_def cl_end_def)
  with assms o show ?thesis
    by (intro cl_inv_owner_step [OF assms(1)]) (auto simp: cl_inv_def cl_base_def cl_pc_defs)
qed

lemma cl_inv_pop_many:
  assumes "cl_inv s" and "cl_owner s = OPopTop b t" and "t < b"
  shows "cl_inv (s\<lparr>cl_owner := OIdle,
      cl_taken := cl_taken s @ [AtomicArray_load (wsq_cur s) b]\<rparr>)" (is "cl_inv ?s'")
proof -
  have o: "b = wsq_bottom s" "cl_end s = b + 1" "cl_shared s = b" "wsq_top s \<le> b"
    using assms by (auto simp: cl_inv_def cl_base_def cl_pc_defs)
  then have "cl_items s = cl_items ?s' @ [AtomicArray_load (wsq_cur s) b]"
    using aa.contents_last [of "wsq_top s" b "wsq_cur s"] by (simp add: cl_items_def cl_end_def)
  with assms o show ?thesis
    by (intro cl_inv_owner_step [OF assms(1)]) (auto simp: cl_inv_def cl_base_def cl_pc_defs)
qed

text \<open>The remaining steps of the owner change neither the items nor the top.\<close>

lemma cl_inv_owner_local:
  assumes "cl_inv s" and "wsq_heap s' = wsq_heap s" "wsq_array s' = wsq_array s"
    and "wsq_top s' = wsq_top s" "cl_thief s' = cl_thief s"
    and "cl_pushed s' = cl_pushed s" "cl_taken s' = cl_taken s" and "cl_owner_ok s'"
    and "cl_end s' = cl_end s" and "wsq_top s < cl_shared s \<Longrightarrow> wsq_top s < cl_shared s'"
    and "wsq_top s \<le> cl_shared s'"
  shows "cl_inv s'"
proof (rule cl_inv_owner_step [OF assms(1-5,11,10)])
  have "cl_items s' = cl_items s" using assms by (simp add: cl_items_def wsq_cur_def)
  then show "mset (cl_pushed s') = mset (cl_taken s') + mset (cl_items s')"
    using assms by (simp add: cl_inv_def cl_base_def)
qed (use assms in \<open>auto simp: cl_inv_def cl_base_def\<close>)

lemma cl_thief_ok_pc: "cl_inv s \<Longrightarrow> cl_thief s i = pc \<Longrightarrow> cl_thief_ok s pc"
  by (auto simp: cl_inv_def)

lemma cl_bottom_shared: "cl_inv s \<Longrightarrow> wsq_bottom s \<le> cl_shared s"
  by (auto simp: cl_inv_def cl_pc_defs split: owner_pc.splits)

lemma cl_inv_step:
  assumes inv: "cl_inv s" and step: "cl_step ini s s'"
  shows "cl_inv s'"
  using step
proof cases
  case (push_grow x b t)
  then show ?thesis using cl_inv_push_grow [OF inv] by simp
next
  case (push_write x b)
  then show ?thesis using cl_inv_push_write [OF inv] by simp
next
  case (push_publish x b)
  then show ?thesis using cl_inv_push_publish [OF inv] by simp
next
  case (pop_many b t)
  then show ?thesis using cl_inv_pop_many [OF inv] by simp
next
  case (pop_cas b t x)
  then show ?thesis using cl_inv_pop_cas [OF inv] by simp
next
  case (steal_top i)
  then show ?thesis using inv by (simp add: cl_inv_thief_step cl_thief_ok_def)
next
  case (steal_bottom i t)
  have "cl_thief_ok s (TBottom t (wsq_bottom s))"
    using cl_thief_ok_pc [OF inv steal_bottom(2)] cl_bottom_shared [OF inv] by (simp add: cl_thief_ok_def)
  with steal_bottom inv show ?thesis by (simp add: cl_inv_thief_step)
next
  case (steal_empty i t b)
  then show ?thesis using inv by (simp add: cl_inv_thief_step cl_thief_ok_def)
next
  case (steal_array i t b)
  have "cl_thief_ok s (TArray t (wsq_array s))"
    using steal_array inv cl_thief_ok_pc [OF inv steal_array(2)]
    by (simp add: cl_thief_ok_def wsq_cur_def cl_inv_def cl_base_def)
  with steal_array inv show ?thesis by (simp add: cl_inv_thief_step)
next
  case (steal_item i t a)
  have "cl_thief_ok s (TItem t (AtomicArray_load (wsq_heap s ! a) t))"
    using cl_thief_ok_pc [OF inv steal_item(2)] by (simp add: cl_thief_ok_def)
  with steal_item inv show ?thesis by (simp add: cl_inv_thief_step)
next
  case (steal_cas i t x)
  then show ?thesis using cl_inv_steal_cas [OF inv] by simp
next
  case (steal_lost i t x)
  then show ?thesis using inv by (simp add: cl_inv_thief_step cl_thief_ok_def)
qed (rule cl_inv_owner_local [OF inv]; insert inv; auto simp: cl_inv_def cl_base_def cl_pc_defs)+


text \<open>The states the program starts in: a new queue, the owner and all thieves outside a call.\<close>

definition cl_start :: "'a \<Rightarrow> 'a cl_state \<Rightarrow> bool" where
  "cl_start ini s \<longleftrightarrow> (\<exists>c q. new_WorkStealQueue ini c = Inr q \<and> s = cl_init q)"

lemma cl_init_facts [simp]:
  "wsq_top (cl_init q) = wsq_top q" "wsq_bottom (cl_init q) = wsq_bottom q"
  "wsq_heap (cl_init q) = wsq_heap q" "wsq_array (cl_init q) = wsq_array q"
  "cl_owner (cl_init q) = OIdle" "cl_thief (cl_init q) = (\<lambda>_. TIdle)"
  "cl_pushed (cl_init q) = []" "cl_taken (cl_init q) = []"
  by (simp_all add: cl_init_def WorkStealQueue.defs)

lemma cl_inv_start: "cl_start ini s \<Longrightarrow> cl_inv s"
proof -
  assume "cl_start ini s"
  then obtain c q where q: "new_WorkStealQueue ini c = Inr q" and s: "s = cl_init q"
    by (auto simp: cl_start_def)
  have "wsq_cur s = wsq_cur q" "wsq_capacity s = wsq_capacity q" by (simp_all add: s wsq_cur_def wsq_capacity_def)
  then show ?thesis
    using new_WorkStealQueue_inv [OF q]
    by (auto simp: s cl_inv_def cl_base_def cl_pc_defs cl_items_def wsq_inv_def wsq_items_def cl_thief_ok_def)
qed

interpretation chase_lev: step_invariant "cl_start ini" "cl_step ini" cl_inv for ini
  by unfold_locales (auto intro: cl_inv_start cl_inv_step)

section \<open>Uninterrupted calls\<close>

text \<open>
  Run without interruption, the steps of a call are the operations of theory
  \<open>Work_Steal_Queue\<close>.
\<close>

abbreviation wsq_part :: "'a cl_state \<Rightarrow> 'a WorkStealQueue" where
  "wsq_part s \<equiv> WorkStealQueue.truncate s"

lemma wsq_part_facts [simp]:
  "wsq_cur (wsq_part s) = wsq_cur s" "wsq_capacity (wsq_part s) = wsq_capacity s"
  "wsq_part (wsq_grow ini b t s) = wsq_grow ini b t (wsq_part s)"
  "wsq_part (wsq_write b x s) = wsq_write b x (wsq_part s)"
  "wsq_top (wsq_part s) = wsq_top s" "wsq_bottom (wsq_part s) = wsq_bottom s"
  "wsq_part (s\<lparr>cl_owner := p\<rparr>) = wsq_part s" "wsq_part (s\<lparr>cl_pushed := xs\<rparr>) = wsq_part s"
  "wsq_part (s\<lparr>cl_taken := xs\<rparr>) = wsq_part s" "wsq_part (s\<lparr>cl_thief := f\<rparr>) = wsq_part s"
  "wsq_part (s\<lparr>wsq_bottom := b\<rparr>) = (wsq_part s)\<lparr>wsq_bottom := b\<rparr>"
  "wsq_part (s\<lparr>wsq_top := t\<rparr>) = (wsq_part s)\<lparr>wsq_top := t\<rparr>"
  by (simp_all add: WorkStealQueue.defs wsq_cur_def wsq_capacity_def wsq_grow_def wsq_write_def)

lemma cl_push_run:
  assumes "cl_owner s = OIdle"
  shows "\<exists>s'. (cl_step ini)\<^sup>*\<^sup>* s s' \<and> wsq_part s' = wsq_push ini x (wsq_part s)
     \<and> cl_owner s' = OIdle \<and> cl_pushed s' = cl_pushed s @ [x] \<and> cl_taken s' = cl_taken s"
proof -
  let ?b = "wsq_bottom s" and ?t = "wsq_top s"
  let ?s1 = "s\<lparr>cl_owner := OPushRead x ?b ?t\<rparr>"
  define g where "g = (if wsq_capacity s - 1 < ?b - ?t then wsq_grow ini ?b ?t ?s1 else ?s1)"
  let ?s2 = "g\<lparr>cl_owner := OPushWrite x ?b\<rparr>"
  let ?s3 = "(wsq_write ?b x ?s2)\<lparr>cl_owner := OPushed x ?b\<rparr>"
  let ?s4 = "?s3\<lparr>wsq_bottom := ?b + 1, cl_owner := OIdle, cl_pushed := cl_pushed ?s3 @ [x]\<rparr>"
  have "cl_step ini s ?s1" using assms by (rule cl_step.push_read)
  moreover have "cl_step ini ?s1 ?s2"
    using cl_step.push_grow [of ?s1 x ?b ?t ini] cl_step.push_fits [of ?s1 x ?b ?t ini]
    by (simp add: g_def)
  moreover have "cl_step ini ?s2 ?s3" by (rule cl_step.push_write) simp
  moreover have "cl_step ini ?s3 ?s4" by (rule cl_step.push_publish) simp
  ultimately have "(cl_step ini)\<^sup>*\<^sup>* s ?s4" by (rule run_of_4)
  moreover have "wsq_part ?s4 = wsq_push ini x (wsq_part s)"
    by (simp add: wsq_push_def Let_def g_def)
  ultimately show ?thesis by (intro exI [of _ ?s4]) (simp add: g_def)
qed

lemma cl_pop_run:
  assumes "cl_owner s = OIdle"
  shows "\<exists>s'. (cl_step ini)\<^sup>*\<^sup>* s s' \<and> wsq_part s' = snd (wsq_pop (wsq_part s))
     \<and> cl_owner s' = OIdle \<and> cl_pushed s' = cl_pushed s
     \<and> cl_taken s' = cl_taken s @ answers [fst (wsq_pop (wsq_part s))]"
proof -
  let ?b = "wsq_bottom s - 1" and ?t = "wsq_top s"
  let ?s1 = "s\<lparr>wsq_bottom := ?b, cl_owner := OPop ?b\<rparr>"
  let ?s2 = "?s1\<lparr>cl_owner := OPopTop ?b ?t\<rparr>"
  have "cl_step ini s ?s1" using assms by (rule cl_step.pop_bottom)
  moreover have "cl_step ini ?s1 ?s2" using cl_step.pop_top [of ?s1 ?b ini] by simp
  ultimately have s2: "(cl_step ini)\<^sup>*\<^sup>* s ?s2" by (rule run_of_2)
  consider "?t < ?b" | "?t = ?b" | "\<not> ?t \<le> ?b" by linarith
  then show ?thesis
  proof cases
    case 1
    let ?s3 = "?s2\<lparr>cl_owner := OIdle,
      cl_taken := cl_taken ?s2 @ [AtomicArray_load (wsq_cur ?s2) ?b]\<rparr>"
    have "cl_step ini ?s2 ?s3" using 1 by (intro cl_step.pop_many) simp_all
    with s2 have "(cl_step ini)\<^sup>*\<^sup>* s ?s3" by (rule run_then)
    then show ?thesis using 1 by (intro exI [of _ ?s3]) (simp add: wsq_pop_def Let_def)
  next
    case 2
    let ?x = "AtomicArray_load (wsq_cur ?s2) ?b"
    let ?s3 = "?s2\<lparr>cl_owner := OPopCas ?b ?t ?x\<rparr>"
    let ?s4 = "?s3\<lparr>wsq_top := ?t + 1, cl_owner := OPopRestore ?b, cl_taken := cl_taken ?s3 @ [?x]\<rparr>"
    let ?s5 = "?s4\<lparr>wsq_bottom := ?b + 1, cl_owner := OIdle\<rparr>"
    have "cl_step ini ?s2 ?s3" using 2 by (intro cl_step.pop_last) simp_all
    moreover have "cl_step ini ?s3 ?s4" by (rule cl_step.pop_cas) simp_all
    moreover have "cl_step ini ?s4 ?s5" by (rule cl_step.pop_restore) simp
    ultimately have "(cl_step ini)\<^sup>*\<^sup>* s ?s5" using s2 by (blast intro: run_then)
    then show ?thesis using 2 by (intro exI [of _ ?s5]) (simp add: wsq_pop_def Let_def)
  next
    case 3
    let ?s3 = "?s2\<lparr>wsq_bottom := ?b + 1, cl_owner := OIdle\<rparr>"
    have "cl_step ini ?s2 ?s3" using 3 by (intro cl_step.pop_empty) simp_all
    with s2 have "(cl_step ini)\<^sup>*\<^sup>* s ?s3" by (rule run_then)
    then show ?thesis using 3 by (intro exI [of _ ?s3]) (simp add: wsq_pop_def Let_def)
  qed
qed

lemma cl_steal_run:
  assumes "cl_thief s i = TIdle"
  shows "\<exists>s'. (cl_step ini)\<^sup>*\<^sup>* s s' \<and> wsq_part s' = snd (wsq_steal (wsq_part s))
     \<and> cl_thief s' = cl_thief s \<and> cl_owner s' = cl_owner s \<and> cl_pushed s' = cl_pushed s
     \<and> cl_taken s' = cl_taken s @ answers [fst (wsq_steal (wsq_part s))]"
proof -
  let ?b = "wsq_bottom s" and ?t = "wsq_top s"
  let ?s1 = "set_thief i (TTop ?t) s"
  let ?s2 = "set_thief i (TBottom ?t ?b) ?s1"
  have "cl_step ini s ?s1" using assms by (rule cl_step.steal_top)
  moreover have "cl_step ini ?s1 ?s2"
    using cl_step.steal_bottom [of ?s1 i ?t ini] by (simp add: set_thief_def)
  ultimately have s2: "(cl_step ini)\<^sup>*\<^sup>* s ?s2" by (rule run_of_2)
  show ?thesis
  proof (cases "?t < ?b")
    case True
    let ?x = "AtomicArray_load (wsq_cur s) ?t"
    let ?s3 = "set_thief i (TArray ?t (wsq_array s)) ?s2"
    let ?s4 = "set_thief i (TItem ?t ?x) ?s3"
    let ?s5 = "set_thief i TIdle (?s4\<lparr>wsq_top := ?t + 1, cl_taken := cl_taken ?s4 @ [?x]\<rparr>)"
    have "cl_step ini ?s2 ?s3"
      using cl_step.steal_array [of ?s2 i ?t ?b ini] True by (simp add: set_thief_def)
    moreover have "cl_step ini ?s3 ?s4"
      using cl_step.steal_item [of ?s3 i ?t "wsq_array s" ini] by (simp add: set_thief_def wsq_cur_def)
    moreover have "cl_step ini ?s4 ?s5" by (rule cl_step.steal_cas) (simp_all add: set_thief_def)
    ultimately have "(cl_step ini)\<^sup>*\<^sup>* s ?s5" using s2 by (blast intro: run_then)
    then show ?thesis
      using True assms by (intro exI [of _ ?s5]) (auto simp: wsq_steal_def set_thief_def Let_def)
  next
    case False
    let ?s3 = "set_thief i TIdle ?s2"
    have "cl_step ini ?s2 ?s3"
      using False by (intro cl_step.steal_empty) (simp_all add: set_thief_def)
    with s2 have "(cl_step ini)\<^sup>*\<^sup>* s ?s3" by (rule run_then)
    then show ?thesis
      using False assms by (intro exI [of _ ?s3]) (auto simp: wsq_steal_def set_thief_def Let_def)
  qed
qed

section \<open>Properties\<close>

text \<open>C3: whatever the interleaving of one owner with any number of thieves, and across any
  number of growths of the array, no item is lost and none is handed out twice: at every
  moment the items pushed are, with their multiplicity, the items taken by the owner or a
  thief and the items still in the queue.\<close>

theorem chase_lev_exactly_once:
  assumes "cl_start ini s" and "(cl_step ini)\<^sup>*\<^sup>* s s'"
  shows "mset (cl_pushed s') = mset (cl_taken s') + mset (cl_items s')
       \<and> (cl_owner s' = OIdle \<longrightarrow> cl_items s' = wsq_items s' \<and> wsq_top s' \<le> wsq_bottom s'
            \<and> wsq_bottom s' - wsq_top s' \<le> wsq_capacity s')"
proof -
  have "cl_inv s'" using chase_lev.inv_reachable [OF assms] .
  then show ?thesis
    by (auto simp: cl_inv_def cl_base_def cl_items_def wsq_items_def cl_end_def cl_shared_def)
qed

theorem chase_lev_exactly_once_witness:
  "\<exists>s s'. cl_start (0 :: nat) s \<and> (cl_step 0)\<^sup>*\<^sup>* s s' \<and> cl_pushed s' = [7] \<and> cl_owner s' = OIdle
     \<and> mset (cl_pushed s') = mset (cl_taken s') + mset (cl_items s') \<and> cl_items s' = wsq_items s'"
proof -
  obtain q where "new_WorkStealQueue (0 :: nat) 1 = Inr q" by (simp add: new_WorkStealQueue_def)
  then have start: "cl_start 0 (cl_init q)" by (auto simp: cl_start_def)
  obtain s' where s': "(cl_step 0)\<^sup>*\<^sup>* (cl_init q) s'" "cl_owner s' = OIdle" "cl_pushed s' = [7]"
    using cl_push_run [of "cl_init q" 0 7] by auto
  with start chase_lev_exactly_once [OF start s'(1)] show ?thesis by blast
qed

text \<open>A call that is not interrupted does what the sequential operation does: from any
  state where the owner is between calls, the steps of \<open>push\<close> and of \<open>pop\<close> lead to
  the state, and hand out the item, of \<open>wsq_push\<close> and \<open>wsq_pop\<close>; likewise for a
  thief's \<open>steal\<close>.\<close>

theorem chase_lev_uninterrupted:
  assumes "cl_owner s = OIdle" and "cl_thief s i = TIdle"
  shows "(\<exists>s'. (cl_step ini)\<^sup>*\<^sup>* s s' \<and> wsq_part s' = wsq_push ini x (wsq_part s)
            \<and> cl_owner s' = OIdle \<and> cl_pushed s' = cl_pushed s @ [x] \<and> cl_taken s' = cl_taken s)
       \<and> (\<exists>s'. (cl_step ini)\<^sup>*\<^sup>* s s' \<and> wsq_part s' = snd (wsq_pop (wsq_part s))
            \<and> cl_owner s' = OIdle \<and> cl_pushed s' = cl_pushed s
            \<and> cl_taken s' = cl_taken s @ answers [fst (wsq_pop (wsq_part s))])
       \<and> (\<exists>s'. (cl_step ini)\<^sup>*\<^sup>* s s' \<and> wsq_part s' = snd (wsq_steal (wsq_part s))
            \<and> cl_thief s' = cl_thief s \<and> cl_owner s' = cl_owner s \<and> cl_pushed s' = cl_pushed s
            \<and> cl_taken s' = cl_taken s @ answers [fst (wsq_steal (wsq_part s))])"
  using cl_push_run [OF assms(1)] cl_pop_run [OF assms(1)] cl_steal_run [OF assms(2)] by blast

theorem chase_lev_uninterrupted_witness:
  "\<exists>q s'. new_WorkStealQueue (0 :: nat) 1 = Inr q \<and> (cl_step 0)\<^sup>*\<^sup>* (cl_init q) s'
     \<and> wsq_part s' = wsq_push 0 7 (wsq_part (cl_init q)) \<and> cl_pushed s' = [7]"
proof -
  obtain q where q: "new_WorkStealQueue (0 :: nat) 1 = Inr q" by (simp add: new_WorkStealQueue_def)
  have "cl_owner (cl_init q) = OIdle" "cl_thief (cl_init q) 0 = TIdle" by simp_all
  from chase_lev_uninterrupted [OF this, of 0 7] q show ?thesis by auto
qed

end
