(* ===== verification/Triple_Buffer.thy ===== *)
theory Triple_Buffer
  imports AR_Prelude
begin

text \<open>
  \<open>include/ar/triple_buffer.hpp\<close>: a buffer of three slots through which one writer hands
  its last value to one reader without a lock. A byte of flags names the slot being written
  (dirty), the slot with the last finished value (clean) and the reader's slot (snap), and
  a bit for "written since the last read". The flag functions and the two operations are
  modelled sequentially, then as the interleaved steps of the two threads: a step is one
  access to the flags or to a slot; \<open>compare_exchange_weak\<close> may fail although the flags
  did not change.
\<close>

section \<open>Definitions\<close>

definition isNewWrite :: "u8 \<Rightarrow> bool" where
  "isNewWrite flags \<longleftrightarrow> flags AND 0x40 \<noteq> 0"

definition swapSnapWithClean :: "u8 \<Rightarrow> u8" where
  "swapSnapWithClean flags =
     (flags AND 0x30) OR push_bit 2 (flags AND 0x3) OR drop_bit 2 (flags AND 0xC)"

definition newWriteSwapCleanWithDirty :: "u8 \<Rightarrow> u8" where
  "newWriteSwapCleanWithDirty flags =
     0x40 OR push_bit 2 (flags AND 0xC) OR drop_bit 2 (flags AND 0x30) OR (flags AND 0x3)"

definition dirtyIndex :: "u8 \<Rightarrow> nat" where
  "dirtyIndex flags = unat (drop_bit 4 (flags AND 0x30))"

definition cleanIndex :: "u8 \<Rightarrow> nat" where
  "cleanIndex flags = unat (drop_bit 2 (flags AND 0xC))"

definition snapIndex :: "u8 \<Rightarrow> nat" where
  "snapIndex flags = unat (flags AND 0x3)"

record 'a TripleBuffer =
  tb_flags :: u8
  tb_buffer :: "'a list"

definition new_TripleBuffer :: "'a \<Rightarrow> 'a TripleBuffer" where
  "new_TripleBuffer dummy = \<lparr>tb_flags = 0x6, tb_buffer = [dummy, dummy, dummy]\<rparr>"

definition tb_read :: "('a, 'm) TripleBuffer_scheme \<Rightarrow> 'a \<times> ('a, 'm) TripleBuffer_scheme" where
  "tb_read b =
     (let flagsNow = tb_flags b;
          b1 = (if isNewWrite flagsNow then b\<lparr>tb_flags := swapSnapWithClean flagsNow\<rparr> else b) in
      (tb_buffer b1 ! snapIndex (tb_flags b1), b1))"

definition tb_write :: "'a \<Rightarrow> ('a, 'm) TripleBuffer_scheme \<Rightarrow> ('a, 'm) TripleBuffer_scheme" where
  "tb_write item b =
     (let b1 = b\<lparr>tb_buffer := (tb_buffer b)[dirtyIndex (tb_flags b) := item]\<rparr> in
      b1\<lparr>tb_flags := newWriteSwapCleanWithDirty (tb_flags b1)\<rparr>)"

definition tb_isUpdate :: "('a, 'm) TripleBuffer_scheme \<Rightarrow> bool" where
  "tb_isUpdate b = isNewWrite (tb_flags b)"

text \<open>The two threads: their program counters hold their local variables.\<close>

datatype 'a writer_pc = WrIdle | WrWriting 'a nat | WrWritten 'a | WrLoaded 'a u8
datatype reader_pc = RdIdle | RdLoaded u8 | RdDone | RdReading nat

text \<open>
  \<open>tbs_written\<close> and \<open>tbs_reads\<close> record the values published and, for each finished
  read, how many values had been published when it began, the number of the value it
  returned, and the value; \<open>tbs_start\<close> and \<open>tbs_index\<close> are the first two of the read
  under way.
\<close>

record 'a tb_sys = "'a TripleBuffer" +
  tbs_writer :: "'a writer_pc"
  tbs_reader :: reader_pc
  tbs_written :: "'a list"
  tbs_start :: nat
  tbs_index :: nat
  tbs_reads :: "(nat \<times> nat \<times> 'a) list"

definition tb_init :: "'a \<Rightarrow> 'a tb_sys" where
  "tb_init dummy = TripleBuffer.extend (new_TripleBuffer dummy)
     \<lparr>tbs_writer = WrIdle, tbs_reader = RdIdle, tbs_written = [], tbs_start = 0, tbs_index = 0,
      tbs_reads = []\<rparr>"

inductive tb_step :: "'a tb_sys \<Rightarrow> 'a tb_sys \<Rightarrow> bool" where
  wr_begin: "tbs_writer s = WrIdle \<Longrightarrow>
    tb_step s (s\<lparr>tbs_writer := WrWriting x (dirtyIndex (tb_flags s))\<rparr>)"
| wr_store: "tbs_writer s = WrWriting x i \<Longrightarrow>
    tb_step s (s\<lparr>tb_buffer := (tb_buffer s)[i := x], tbs_writer := WrWritten x\<rparr>)"
| wr_load: "tbs_writer s = WrWritten x \<Longrightarrow> tb_step s (s\<lparr>tbs_writer := WrLoaded x (tb_flags s)\<rparr>)"
| wr_cas: "tbs_writer s = WrLoaded x f \<Longrightarrow> tb_flags s = f \<Longrightarrow>
    tb_step s (s\<lparr>tb_flags := newWriteSwapCleanWithDirty f, tbs_writer := WrIdle,
      tbs_written := tbs_written s @ [x]\<rparr>)"
| wr_retry: "tbs_writer s = WrLoaded x f \<Longrightarrow> tb_step s (s\<lparr>tbs_writer := WrLoaded x (tb_flags s)\<rparr>)"
| rd_load: "tbs_reader s = RdIdle \<Longrightarrow>
    tb_step s (s\<lparr>tbs_reader := RdLoaded (tb_flags s), tbs_start := length (tbs_written s)\<rparr>)"
| rd_skip: "tbs_reader s = RdLoaded f \<Longrightarrow> \<not> isNewWrite f \<Longrightarrow> tb_step s (s\<lparr>tbs_reader := RdDone\<rparr>)"
| rd_cas: "tbs_reader s = RdLoaded f \<Longrightarrow> isNewWrite f \<Longrightarrow> tb_flags s = f \<Longrightarrow>
    tb_step s (s\<lparr>tb_flags := swapSnapWithClean f, tbs_reader := RdDone,
      tbs_index := length (tbs_written s)\<rparr>)"
| rd_retry: "tbs_reader s = RdLoaded f \<Longrightarrow> isNewWrite f \<Longrightarrow>
    tb_step s (s\<lparr>tbs_reader := RdLoaded (tb_flags s)\<rparr>)"
| rd_index: "tbs_reader s = RdDone \<Longrightarrow> tb_step s (s\<lparr>tbs_reader := RdReading (snapIndex (tb_flags s))\<rparr>)"
| rd_copy: "tbs_reader s = RdReading i \<Longrightarrow>
    tb_step s (s\<lparr>tbs_reader := RdIdle,
      tbs_reads := tbs_reads s @ [(tbs_start s, tbs_index s, tb_buffer s ! i)]\<rparr>)"

lemmas tb_step_rules [step_intros] = tb_step.intros

section \<open>The flags\<close>

text \<open>The twelve values of the flags whose three indices are a permutation of the slots.\<close>

definition tb_valid_flags :: "u8 list" where
  "tb_valid_flags = [0x06, 0x09, 0x12, 0x18, 0x21, 0x24, 0x46, 0x49, 0x52, 0x58, 0x61, 0x64]"

lemma tb_flags_table:
  "list_all (\<lambda>f.
     swapSnapWithClean f \<in> set tb_valid_flags \<and> newWriteSwapCleanWithDirty f \<in> set tb_valid_flags
     \<and> dirtyIndex (swapSnapWithClean f) = dirtyIndex f
     \<and> cleanIndex (swapSnapWithClean f) = snapIndex f \<and> snapIndex (swapSnapWithClean f) = cleanIndex f
     \<and> \<not> isNewWrite (swapSnapWithClean f)
     \<and> dirtyIndex (newWriteSwapCleanWithDirty f) = cleanIndex f
     \<and> cleanIndex (newWriteSwapCleanWithDirty f) = dirtyIndex f
     \<and> snapIndex (newWriteSwapCleanWithDirty f) = snapIndex f
     \<and> isNewWrite (newWriteSwapCleanWithDirty f)
     \<and> dirtyIndex f < 3 \<and> cleanIndex f < 3 \<and> snapIndex f < 3
     \<and> distinct [dirtyIndex f, cleanIndex f, snapIndex f]) tb_valid_flags"
  by (simp add: tb_valid_flags_def swapSnapWithClean_def newWriteSwapCleanWithDirty_def
      dirtyIndex_def cleanIndex_def snapIndex_def isNewWrite_def)

lemma tb_flags_laws:
  assumes "f \<in> set tb_valid_flags"
  shows "swapSnapWithClean f \<in> set tb_valid_flags" "newWriteSwapCleanWithDirty f \<in> set tb_valid_flags"
    "dirtyIndex (swapSnapWithClean f) = dirtyIndex f"
    "cleanIndex (swapSnapWithClean f) = snapIndex f" "snapIndex (swapSnapWithClean f) = cleanIndex f"
    "\<not> isNewWrite (swapSnapWithClean f)"
    "dirtyIndex (newWriteSwapCleanWithDirty f) = cleanIndex f"
    "cleanIndex (newWriteSwapCleanWithDirty f) = dirtyIndex f"
    "snapIndex (newWriteSwapCleanWithDirty f) = snapIndex f"
    "isNewWrite (newWriteSwapCleanWithDirty f)"
    "dirtyIndex f < 3" "cleanIndex f < 3" "snapIndex f < 3"
    "dirtyIndex f \<noteq> cleanIndex f" "dirtyIndex f \<noteq> snapIndex f" "cleanIndex f \<noteq> snapIndex f"
  using tb_flags_table assms unfolding list_all_iff by auto

section \<open>The invariant of the two threads\<close>

text \<open>
  \<open>tb_value s k\<close> is the \<open>k\<close>-th value published, the zeroth being what the buffer was
  created with. The last value is in the clean slot while the flag says so, else in the
  reader's slot.
\<close>

definition tb_value :: "'a \<Rightarrow> 'a tb_sys \<Rightarrow> nat \<Rightarrow> 'a" where
  "tb_value dummy s k = (dummy # tbs_written s) ! k"

definition tb_inv :: "'a \<Rightarrow> 'a tb_sys \<Rightarrow> bool" where
  "tb_inv dummy s \<longleftrightarrow>
     tb_flags s \<in> set tb_valid_flags \<and> length (tb_buffer s) = 3
     \<and> tbs_index s \<le> length (tbs_written s)
     \<and> tb_buffer s ! snapIndex (tb_flags s) = tb_value dummy s (tbs_index s)
     \<and> (if isNewWrite (tb_flags s)
        then tb_buffer s ! cleanIndex (tb_flags s) = tb_value dummy s (length (tbs_written s))
        else tbs_index s = length (tbs_written s))
     \<and> (case tbs_writer s of WrWriting x i \<Rightarrow> i = dirtyIndex (tb_flags s)
        | WrWritten x \<Rightarrow> tb_buffer s ! dirtyIndex (tb_flags s) = x
        | WrLoaded x f \<Rightarrow> tb_buffer s ! dirtyIndex (tb_flags s) = x | WrIdle \<Rightarrow> True)
     \<and> (case tbs_reader s of RdLoaded f \<Rightarrow> tbs_start s \<le> length (tbs_written s)
          \<and> (\<not> isNewWrite f \<longrightarrow> tbs_start s \<le> tbs_index s)
        | RdDone \<Rightarrow> tbs_start s \<le> tbs_index s
        | RdReading i \<Rightarrow> i = snapIndex (tb_flags s) \<and> tbs_start s \<le> tbs_index s | RdIdle \<Rightarrow> True)
     \<and> (\<forall>(st, k, v) \<in> set (tbs_reads s). st \<le> k \<and> k \<le> tbs_index s \<and> v = tb_value dummy s k)
     \<and> sorted (map (fst \<circ> snd) (tbs_reads s))"


lemma tb_value_same: "tbs_written s' = tbs_written s \<Longrightarrow> tb_value d s' = tb_value d s"
  by (simp add: tb_value_def fun_eq_iff)

lemma tb_value_grow:
  assumes "tbs_written s' = tbs_written s @ [x]"
  shows "k \<le> length (tbs_written s) \<Longrightarrow> tb_value d s' k = tb_value d s k"
    and "tb_value d s' (length (tbs_written s')) = x"
  using assms by (auto simp: tb_value_def nth_append nth_Cons' )

lemma tb_inv_facts:
  assumes "tb_inv d s"
  shows "(st, k, v) \<in> set (tbs_reads s) \<Longrightarrow> st \<le> k \<and> k \<le> tbs_index s \<and> v = tb_value d s k"
    and "tbs_index s \<le> length (tbs_written s)" and "tb_flags s \<in> set tb_valid_flags"
  using assms by (auto simp: tb_inv_def)

text \<open>Steps of the writer, then steps of the reader.\<close>

lemma tb_inv_store:
  assumes "tb_inv d s" "tbs_writer s = WrWriting x i"
  shows "tb_inv d (s\<lparr>tb_buffer := (tb_buffer s)[i := x], tbs_writer := WrWritten x\<rparr>)"
proof -
  have f: "tb_flags s \<in> set tb_valid_flags" and i: "i = dirtyIndex (tb_flags s)" "length (tb_buffer s) = 3"
    using assms by (auto simp: tb_inv_def)
  note laws = tb_flags_laws [OF f]
  have "(tb_buffer s)[i := x] ! snapIndex (tb_flags s) = tb_buffer s ! snapIndex (tb_flags s)"
    "(tb_buffer s)[i := x] ! cleanIndex (tb_flags s) = tb_buffer s ! cleanIndex (tb_flags s)"
    "(tb_buffer s)[i := x] ! dirtyIndex (tb_flags s) = x"
    using laws i by simp_all
  then show ?thesis using assms i by (simp add: tb_inv_def tb_value_def split: reader_pc.splits)
qed

lemma tb_inv_publish:
  assumes "tb_inv d s" "tbs_writer s = WrLoaded x (tb_flags s)"
  shows "tb_inv d (s\<lparr>tb_flags := newWriteSwapCleanWithDirty (tb_flags s), tbs_writer := WrIdle,
      tbs_written := tbs_written s @ [x]\<rparr>)" (is "tb_inv d ?s'")
proof -
  have f: "tb_flags s \<in> set tb_valid_flags" using assms by (simp add: tb_inv_def)
  note laws = tb_flags_laws [OF f]
  have w: "tbs_written ?s' = tbs_written s @ [x]" by simp
  note v = tb_value_grow [OF w]
  note le = tb_inv_facts(2) [OF assms(1)]
  have "st \<le> k \<and> k \<le> tbs_index s \<and> y = tb_value d ?s' k" if "(st, k, y) \<in> set (tbs_reads s)" for st k y
    using tb_inv_facts(1) [OF assms(1) that] le v(1) [of k d] by simp
  then have reads: "\<forall>(st, k, y) \<in> set (tbs_reads s). st \<le> k \<and> k \<le> tbs_index s \<and> y = tb_value d ?s' k"
    by blast
  show ?thesis
    using assms laws v(1) [OF le, of d] v(2) [of d] le reads
    unfolding tb_inv_def by (auto split: reader_pc.splits)
qed

lemma tb_inv_take:
  assumes "tb_inv d s" "tbs_reader s = RdLoaded (tb_flags s)" "isNewWrite (tb_flags s)"
  shows "tb_inv d (s\<lparr>tb_flags := swapSnapWithClean (tb_flags s), tbs_reader := RdDone,
      tbs_index := length (tbs_written s)\<rparr>)" (is "tb_inv d ?s'")
proof -
  have f: "tb_flags s \<in> set tb_valid_flags" using assms by (simp add: tb_inv_def)
  note laws = tb_flags_laws [OF f]
  have v: "tb_value d ?s' = tb_value d s" by (rule tb_value_same) simp
  have "st \<le> k \<and> k \<le> length (tbs_written s) \<and> y = tb_value d s k" if "(st, k, y) \<in> set (tbs_reads s)" for st k y
    using tb_inv_facts(1) [OF assms(1) that] tb_inv_facts(2) [OF assms(1)] by simp
  then have "\<forall>(st, k, y) \<in> set (tbs_reads s). st \<le> k \<and> k \<le> length (tbs_written s) \<and> y = tb_value d s k"
    by blast
  then show ?thesis
    using assms laws unfolding tb_inv_def v by (auto split: writer_pc.splits)
qed

lemma tb_inv_copy:
  assumes "tb_inv d s" "tbs_reader s = RdReading i"
  shows "tb_inv d (s\<lparr>tbs_reader := RdIdle,
      tbs_reads := tbs_reads s @ [(tbs_start s, tbs_index s, tb_buffer s ! i)]\<rparr>)" (is "tb_inv d ?s'")
proof -
  have v: "tb_value d ?s' = tb_value d s" by (rule tb_value_same) simp
  have "\<forall>k\<in>set (map (fst \<circ> snd) (tbs_reads s)). k \<le> tbs_index s"
    using tb_inv_facts(1) [OF assms(1)] by auto
  then have "sorted (map (fst \<circ> snd) (tbs_reads s @ [(tbs_start s, tbs_index s, tb_buffer s ! i)]))"
    using assms by (auto simp: tb_inv_def sorted_append)
  then show ?thesis using assms unfolding tb_inv_def v by (auto split: writer_pc.splits)
qed

lemma tb_inv_step: "tb_inv d s \<Longrightarrow> tb_step s s' \<Longrightarrow> tb_inv d s'"
proof -
  assume inv: "tb_inv d s" and step: "tb_step s s'"
  from step show ?thesis
  proof cases
    case (wr_store x i)
    then show ?thesis using tb_inv_store [OF inv] by simp
  next
    case (wr_cas x f)
    then show ?thesis using tb_inv_publish [OF inv] by simp
  next
    case (rd_cas f)
    then show ?thesis using tb_inv_take [OF inv] by simp
  next
    case (rd_copy i)
    then show ?thesis using tb_inv_copy [OF inv] by simp
  qed (use inv in \<open>auto simp: tb_inv_def tb_value_def split: reader_pc.splits writer_pc.splits\<close>)
qed

lemma tb_init_facts:
  "tb_flags (tb_init d) = 0x6" "tb_buffer (tb_init d) = [d, d, d]" "tbs_writer (tb_init d) = WrIdle"
  "tbs_reader (tb_init d) = RdIdle" "tbs_written (tb_init d) = []" "tbs_reads (tb_init d) = []"
  "tbs_index (tb_init d) = 0"
  by (simp_all add: tb_init_def new_TripleBuffer_def TripleBuffer.defs)

lemma tb_inv_init: "tb_inv d (tb_init d)"
  by (simp add: tb_inv_def tb_init_facts tb_valid_flags_def snapIndex_def isNewWrite_def tb_value_def)

interpretation triple: step_invariant "\<lambda>s. s = tb_init d" tb_step "tb_inv d" for d
  by unfold_locales (auto intro: tb_inv_init tb_inv_step)

section \<open>Sequential use\<close>

definition tb_ok :: "('a, 'm) TripleBuffer_scheme \<Rightarrow> bool" where
  "tb_ok b \<longleftrightarrow> tb_flags b \<in> set tb_valid_flags \<and> length (tb_buffer b) = 3"

text \<open>The value the next read returns.\<close>

definition tb_last :: "('a, 'm) TripleBuffer_scheme \<Rightarrow> 'a" where
  "tb_last b = tb_buffer b ! (if isNewWrite (tb_flags b) then cleanIndex (tb_flags b) else snapIndex (tb_flags b))"

lemma tb_write_facts:
  "tb_ok b \<Longrightarrow> tb_ok (tb_write x b) \<and> tb_last (tb_write x b) = x \<and> tb_isUpdate (tb_write x b)"
  using tb_flags_laws [of "tb_flags b"]
  by (auto simp: tb_ok_def tb_write_def tb_last_def tb_isUpdate_def Let_def)

lemma tb_read_facts:
  "tb_ok b \<Longrightarrow> fst (tb_read b) = tb_last b \<and> tb_ok (snd (tb_read b)) \<and> tb_last (snd (tb_read b)) = tb_last b
     \<and> \<not> tb_isUpdate (snd (tb_read b))"
  using tb_flags_laws [of "tb_flags b"]
  by (auto simp: tb_ok_def tb_read_def tb_last_def tb_isUpdate_def Let_def)

lemma tb_new_ok: "tb_ok (new_TripleBuffer d) \<and> tb_last (new_TripleBuffer d) = d"
  by (simp add: tb_ok_def new_TripleBuffer_def tb_valid_flags_def tb_last_def isNewWrite_def snapIndex_def)

section \<open>Properties\<close>

text \<open>C18: with one writer and one reader, in every interleaving, the writer never writes the slot
  the reader is copying, and every finished read returned a value that was published, not
  older than the last value published when the read began; the values read never go
  backwards in the order of publication.\<close>

theorem triple_buffer_reads:
  assumes "tb_step\<^sup>*\<^sup>* (tb_init d) s"
  shows "(\<forall>x i j. tbs_writer s = WrWriting x i \<and> tbs_reader s = RdReading j \<longrightarrow> i \<noteq> j)
     \<and> (\<forall>(start, k, v) \<in> set (tbs_reads s).
          start \<le> k \<and> k \<le> length (tbs_written s) \<and> v = (d # tbs_written s) ! k)
     \<and> sorted (map (fst \<circ> snd) (tbs_reads s))"
proof -
  have inv: "tb_inv d s" using triple.inv_reachable [OF refl assms] .
  have "tb_flags s \<in> set tb_valid_flags" using inv by (simp add: tb_inv_def)
  note laws = tb_flags_laws [OF this]
  have "st \<le> k \<and> k \<le> length (tbs_written s) \<and> v = (d # tbs_written s) ! k"
    if "(st, k, v) \<in> set (tbs_reads s)" for st k v
    using tb_inv_facts(1) [OF inv that] tb_inv_facts(2) [OF inv] by (simp add: tb_value_def)
  then have "\<forall>(st, k, v) \<in> set (tbs_reads s). st \<le> k \<and> k \<le> length (tbs_written s) \<and> v = (d # tbs_written s) ! k"
    by blast
  then show ?thesis using inv laws by (auto simp: tb_inv_def)
qed

theorem triple_buffer_reads_witness:
  "\<exists>s. tb_step\<^sup>*\<^sup>* (tb_init (0 :: nat)) s \<and> tbs_writer s = WrWriting 5 0
     \<and> sorted (map (fst \<circ> snd) (tbs_reads s))"
proof -
  let ?s = "(tb_init (0 :: nat))\<lparr>tbs_writer := WrWriting 5 (dirtyIndex (tb_flags (tb_init (0 :: nat))))\<rparr>"
  have "tb_step (tb_init 0) ?s" by (rule tb_step.wr_begin) (simp add: tb_init_facts)
  then have r: "tb_step\<^sup>*\<^sup>* (tb_init 0) ?s" by blast
  moreover have "tbs_writer ?s = WrWriting 5 0" by (simp add: tb_init_facts dirtyIndex_def)
  ultimately show ?thesis using triple_buffer_reads [OF r] by blast
qed

text \<open>Used by one thread, \<open>read\<close> returns what the last \<open>write\<close> stored, however many
  writes and reads went before, and \<open>isUpdate\<close> says whether a write came after the last read.\<close>

theorem triple_buffer_last_write:
  assumes "tb_ok b"
  shows "fst (tb_read (tb_write x b)) = x \<and> tb_isUpdate (tb_write x b)
     \<and> tb_ok (tb_write x b) \<and> tb_ok (snd (tb_read b)) \<and> \<not> tb_isUpdate (snd (tb_read b))
     \<and> fst (tb_read (snd (tb_read b))) = fst (tb_read b)
     \<and> tb_ok (new_TripleBuffer x) \<and> fst (tb_read (new_TripleBuffer x)) = x"
  using assms tb_write_facts [OF assms, of x] tb_read_facts [OF assms] tb_read_facts [of "tb_write x b"]
    tb_read_facts [of "snd (tb_read b)"] tb_new_ok [of x] tb_read_facts [of "new_TripleBuffer x"] by auto

theorem triple_buffer_last_write_witness:
  "fst (tb_read (tb_write 7 (tb_write 5 (new_TripleBuffer (0 :: nat))))) = 7"
proof -
  have "tb_ok (tb_write 5 (new_TripleBuffer (0 :: nat)))"
    using tb_new_ok [of "0 :: nat"] tb_write_facts [of "new_TripleBuffer (0 :: nat)" 5] by simp
  from triple_buffer_last_write [OF this] show ?thesis by blast
qed

end
