(* ===== verification/Dataflow_Buffers.thy ===== *)
theory Dataflow_Buffers
  imports Triple_Buffer
begin

text \<open>
  \<open>include/ar/dataflow/shared_buffer.hpp\<close>, \<open>fifo_shared_buffer.hpp\<close>,
  \<open>triple_shared_buffer.hpp\<close> and \<open>shared_buffer_factory.hpp\<close>: the message buffers of
  the dataflow layer. Each operation of the bounded queue holds its mutex, so an operation
  is one step. A metrics counter is the number of increments it received. A call with an
  rvalue also says what is left in the caller's variable: \<open>moved m\<close> stands for a message
  that was moved from.
\<close>

section \<open>Definitions\<close>

datatype SharedBufferType = kFIFO_BUFFER | kTRIPLE_BUFFER

datatype SharedBufferError = kNO_ERROR | kBUFFER_OVERFLOW | kBUFFER_NOT_FOUND

fun error_code :: "SharedBufferError \<Rightarrow> int" where
  "error_code kNO_ERROR = 0"
| "error_code kBUFFER_OVERFLOW = 1"
| "error_code kBUFFER_NOT_FOUND = 2"

text \<open>
  \<open>capacity\<close> is an \<open>int\<close> that the constructor fills from a \<open>size_t\<close>, and is
  compared with the queue's \<open>size_t\<close> size.
\<close>

record 'a FIFOBuffer =
  fb_capacity :: u32
  fb_queue :: "'a list"
  fb_skip_counter :: "nat option"

definition new_FIFOBuffer :: "nat \<Rightarrow> 'a FIFOBuffer" where
  "new_FIFOBuffer cap = \<lparr>fb_capacity = word_of_nat cap, fb_queue = [], fb_skip_counter = None\<rparr>"

definition fifo_limit :: "'a FIFOBuffer \<Rightarrow> nat" where
  "fifo_limit b = unat (signed (fb_capacity b) :: u64)"

definition FIFO_Write :: "'a \<Rightarrow> 'a FIFOBuffer \<Rightarrow> SharedBufferError \<times> 'a FIFOBuffer" where
  "FIFO_Write msg b =
     (if length (fb_queue b) < fifo_limit b
      then (kNO_ERROR, b\<lparr>fb_queue := fb_queue b @ [msg]\<rparr>)
      else (kBUFFER_OVERFLOW, b\<lparr>fb_skip_counter := map_option Suc (fb_skip_counter b)\<rparr>))"

definition FIFO_Write_move ::
  "('a \<Rightarrow> 'a) \<Rightarrow> 'a \<Rightarrow> 'a FIFOBuffer \<Rightarrow> SharedBufferError \<times> 'a FIFOBuffer \<times> 'a" where
  "FIFO_Write_move moved msg b =
     (if length (fb_queue b) < fifo_limit b
      then (kNO_ERROR, b\<lparr>fb_queue := fb_queue b @ [msg]\<rparr>, moved msg)
      else (kBUFFER_OVERFLOW, b\<lparr>fb_skip_counter := map_option Suc (fb_skip_counter b)\<rparr>, msg))"

definition FIFO_Read :: "'a FIFOBuffer \<Rightarrow> 'a option \<times> 'a FIFOBuffer" where
  "FIFO_Read b = (case fb_queue b of [] \<Rightarrow> (None, b) | m # ms \<Rightarrow> (Some m, b\<lparr>fb_queue := ms\<rparr>))"

text \<open>\<open>TryRead\<close> leaves \<open>res\<close> as it is when there is no message.\<close>

definition FIFO_TryRead :: "'a \<Rightarrow> 'a FIFOBuffer \<Rightarrow> bool \<times> 'a \<times> 'a FIFOBuffer" where
  "FIFO_TryRead res b =
     (case fb_queue b of [] \<Rightarrow> (False, res, b) | m # ms \<Rightarrow> (True, m, b\<lparr>fb_queue := ms\<rparr>))"

definition FIFO_Empty :: "'a FIFOBuffer \<Rightarrow> bool" where
  "FIFO_Empty b \<longleftrightarrow> fb_queue b = []"

fun flush_loop :: "'a list \<Rightarrow> 'a list" where
  "flush_loop [] = []"
| "flush_loop (m # ms) = flush_loop ms"

definition FIFO_Flush :: "'a FIFOBuffer \<Rightarrow> 'a FIFOBuffer" where
  "FIFO_Flush b = b\<lparr>fb_queue := flush_loop (fb_queue b)\<rparr>"

text \<open>
  The dataflow layer has a triple buffer of its own. Its constructor leaves the three slots
  as the message type creates them, the parameter \<open>ini\<close>.
\<close>

definition IsNewWrite :: "u8 \<Rightarrow> bool" where
  "IsNewWrite flags \<longleftrightarrow> flags AND 0x40 \<noteq> 0"

definition SwapSnapWithClean :: "u8 \<Rightarrow> u8" where
  "SwapSnapWithClean flags =
     (flags AND 0x30) OR push_bit 2 (flags AND 0x3) OR drop_bit 2 (flags AND 0xC)"

definition NewWriteSwapCleanWithDirty :: "u8 \<Rightarrow> u8" where
  "NewWriteSwapCleanWithDirty flags =
     0x40 OR push_bit 2 (flags AND 0xC) OR drop_bit 2 (flags AND 0x30) OR (flags AND 0x3)"

definition new_df_TripleBuffer :: "'a list \<Rightarrow> 'a TripleBuffer" where
  "new_df_TripleBuffer ini = \<lparr>tb_flags = 0x6, tb_buffer = ini\<rparr>"

definition df_Read :: "'a TripleBuffer \<Rightarrow> 'a option \<times> 'a TripleBuffer" where
  "df_Read b =
     (let flagsNow = tb_flags b;
          b1 = (if IsNewWrite flagsNow then b\<lparr>tb_flags := SwapSnapWithClean flagsNow\<rparr> else b) in
      (Some (tb_buffer b1 ! unat (tb_flags b1 AND 0x3)), b1))"

definition df_Write :: "'a \<Rightarrow> 'a TripleBuffer \<Rightarrow> SharedBufferError \<times> 'a TripleBuffer" where
  "df_Write item b =
     (let b1 = b\<lparr>tb_buffer := (tb_buffer b)[unat (drop_bit 4 (tb_flags b AND 0x30)) := item]\<rparr> in
      (kNO_ERROR, b1\<lparr>tb_flags := NewWriteSwapCleanWithDirty (tb_flags b1)\<rparr>))"

definition df_Write_move ::
  "('a \<Rightarrow> 'a) \<Rightarrow> 'a \<Rightarrow> 'a TripleBuffer \<Rightarrow> SharedBufferError \<times> 'a TripleBuffer \<times> 'a" where
  "df_Write_move moved item b =
     (let b1 = b\<lparr>tb_buffer := (tb_buffer b)[unat (drop_bit 4 (tb_flags b AND 0x30)) := item]\<rparr> in
      (kNO_ERROR, b1\<lparr>tb_flags := NewWriteSwapCleanWithDirty (tb_flags b1)\<rparr>, moved item))"

text \<open>The factory and the virtual calls through \<open>SharedBuffer\<close>.\<close>

datatype 'a SharedBuffer = SB_FIFO "'a FIFOBuffer" | SB_Triple "'a TripleBuffer"

definition SharedBuffer_Make :: "SharedBufferType \<Rightarrow> nat \<Rightarrow> 'a list \<Rightarrow> 'a SharedBuffer" where
  "SharedBuffer_Make type cap ini =
     (if type = kFIFO_BUFFER then SB_FIFO (new_FIFOBuffer cap) else SB_Triple (new_df_TripleBuffer ini))"

fun SharedBuffer_GetType :: "'a SharedBuffer \<Rightarrow> SharedBufferType" where
  "SharedBuffer_GetType (SB_FIFO b) = kFIFO_BUFFER"
| "SharedBuffer_GetType (SB_Triple b) = kTRIPLE_BUFFER"

fun SharedBuffer_Write :: "'a \<Rightarrow> 'a SharedBuffer \<Rightarrow> SharedBufferError \<times> 'a SharedBuffer" where
  "SharedBuffer_Write m (SB_FIFO b) = map_prod id SB_FIFO (FIFO_Write m b)"
| "SharedBuffer_Write m (SB_Triple b) = map_prod id SB_Triple (df_Write m b)"

fun SharedBuffer_Read :: "'a SharedBuffer \<Rightarrow> 'a option \<times> 'a SharedBuffer" where
  "SharedBuffer_Read (SB_FIFO b) = map_prod id SB_FIFO (FIFO_Read b)"
| "SharedBuffer_Read (SB_Triple b) = map_prod id SB_Triple (df_Read b)"

fun SharedBuffer_TryRead :: "'a \<Rightarrow> 'a SharedBuffer \<Rightarrow> bool \<times> 'a \<times> 'a SharedBuffer" where
  "SharedBuffer_TryRead res (SB_FIFO b) = (let (r, m, b') = FIFO_TryRead res b in (r, m, SB_FIFO b'))"
| "SharedBuffer_TryRead res (SB_Triple b) = (False, res, SB_Triple b)"

fun SharedBuffer_Empty :: "'a SharedBuffer \<Rightarrow> bool" where
  "SharedBuffer_Empty (SB_FIFO b) = FIFO_Empty b"
| "SharedBuffer_Empty (SB_Triple b) = False"

fun SharedBuffer_Flush :: "'a SharedBuffer \<Rightarrow> 'a SharedBuffer" where
  "SharedBuffer_Flush (SB_FIFO b) = SB_FIFO (FIFO_Flush b)"
| "SharedBuffer_Flush (SB_Triple b) = SB_Triple b"

section \<open>The contract of a bounded queue of messages\<close>

text \<open>
  A run of calls: \<open>Some m\<close> writes \<open>m\<close>, \<open>None\<close> reads. The results are the
  messages accepted, the messages read and the queue at the end.
\<close>

fun run_buffer :: "('a \<Rightarrow> 'q \<Rightarrow> bool \<times> 'q) \<Rightarrow> ('q \<Rightarrow> 'a option \<times> 'q) \<Rightarrow> 'a option list \<Rightarrow> 'q
    \<Rightarrow> 'a list \<times> 'a list \<times> 'q" where
  "run_buffer wr rd [] q = ([], [], q)"
| "run_buffer wr rd (Some m # cs) q =
     (let (k, q1) = wr m q; (a, r, q2) = run_buffer wr rd cs q1 in (if k then m # a else a, r, q2))"
| "run_buffer wr rd (None # cs) q =
     (let (v, q1) = rd q; (a, r, q2) = run_buffer wr rd cs q1 in (a, (case v of None \<Rightarrow> r | Some m \<Rightarrow> m # r), q2))"

locale bounded_fifo =
  fixes wr :: "'a \<Rightarrow> 'q \<Rightarrow> bool \<times> 'q" and rd :: "'q \<Rightarrow> 'a option \<times> 'q" and items :: "'q \<Rightarrow> 'a list"
    and cap :: "'q \<Rightarrow> nat" and ok :: "'q \<Rightarrow> bool"
  assumes write_ok: "ok q \<Longrightarrow> ok (snd (wr m q))"
    and read_ok: "ok q \<Longrightarrow> ok (snd (rd q))"
    and write_fits: "ok q \<Longrightarrow> length (items q) < cap q \<Longrightarrow> fst (wr m q) \<and> items (snd (wr m q)) = items q @ [m]"
    and write_full: "ok q \<Longrightarrow> \<not> length (items q) < cap q \<Longrightarrow> \<not> fst (wr m q) \<and> items (snd (wr m q)) = items q"
    and write_cap: "ok q \<Longrightarrow> cap (snd (wr m q)) = cap q"
    and read_cap: "ok q \<Longrightarrow> cap (snd (rd q)) = cap q"
    and read_items: "ok q \<Longrightarrow> fst (rd q) = (case items q of [] \<Rightarrow> None | m # ms \<Rightarrow> Some m)"
    and read_rest: "ok q \<Longrightarrow> items (snd (rd q)) = tl (items q)"
begin

lemma fifo_order:
  assumes "ok q" "run_buffer wr rd cs q = (a, r, q')"
  shows "items q @ a = r @ items q' \<and> ok q'"
  using assms
proof (induction cs arbitrary: q a r)
  case (Cons c cs)
  show ?case
  proof (cases c)
    case (Some m)
    obtain a1 where "run_buffer wr rd cs (snd (wr m q)) = (a1, r, q')" "a = (if fst (wr m q) then m # a1 else a1)"
      using Cons.prems(2) Some by (auto split: prod.splits)
    then show ?thesis
      using Cons.IH [of "snd (wr m q)" a1 r] write_ok [OF Cons.prems(1), of m]
        write_fits [OF Cons.prems(1), of m] write_full [OF Cons.prems(1), of m]
      by (cases "length (items q) < cap q") auto
  next
    case None
    obtain r1 where "run_buffer wr rd cs (snd (rd q)) = (a, r1, q')"
      "r = (case fst (rd q) of None \<Rightarrow> r1 | Some m \<Rightarrow> m # r1)"
      using Cons.prems(2) None by (auto split: prod.splits)
    then show ?thesis
      using Cons.IH [of "snd (rd q)" a r1] read_ok [OF Cons.prems(1)]
        read_items [OF Cons.prems(1)] read_rest [OF Cons.prems(1)]
      by (cases "items q") auto
  qed
qed simp

lemma fifo_bounded:
  assumes "ok q" "length (items q) \<le> cap q" "run_buffer wr rd cs q = (a, r, q')"
  shows "length (items q') \<le> cap q \<and> cap q' = cap q"
  using assms
proof (induction cs arbitrary: q a r)
  case (Cons c cs)
  show ?case
  proof (cases c)
    case (Some m)
    obtain a1 where "run_buffer wr rd cs (snd (wr m q)) = (a1, r, q')"
      using Cons.prems(3) Some by (auto split: prod.splits)
    moreover have "length (items (snd (wr m q))) \<le> cap (snd (wr m q))"
      using Cons.prems write_fits [of q m] write_full [of q m] write_cap [of q m]
      by (cases "length (items q) < cap q") auto
    ultimately show ?thesis using Cons.IH [of "snd (wr m q)"] Cons.prems write_ok write_cap by force
  next
    case None
    obtain r1 where "run_buffer wr rd cs (snd (rd q)) = (a, r1, q')"
      using Cons.prems(3) None by (auto split: prod.splits)
    moreover have "length (items (snd (rd q))) \<le> cap (snd (rd q))"
      using Cons.prems read_rest [of q] read_cap [of q] by (cases "items q") auto
    ultimately show ?thesis using Cons.IH [of "snd (rd q)"] Cons.prems read_ok read_cap by force
  qed
qed simp

end


section \<open>The buffers of the sources provide it\<close>

abbreviation FIFO_write_accepts :: "'a \<Rightarrow> 'a FIFOBuffer \<Rightarrow> bool \<times> 'a FIFOBuffer" where
  "FIFO_write_accepts m b \<equiv> map_prod (\<lambda>e. error_code e = 0) id (FIFO_Write m b)"

interpretation fifo: bounded_fifo FIFO_write_accepts FIFO_Read fb_queue fifo_limit "\<lambda>_. True"
  by unfold_locales (auto simp: FIFO_Write_def FIFO_Read_def fifo_limit_def split: list.splits)

lemma flush_loop_empty [simp]: "flush_loop ms = []"
  by (induction ms) auto

text \<open>The dataflow triple buffer is the one of \<open>include/ar/triple_buffer.hpp\<close>.\<close>

lemma df_flags_same:
  "IsNewWrite = isNewWrite" "SwapSnapWithClean = swapSnapWithClean"
  "NewWriteSwapCleanWithDirty = newWriteSwapCleanWithDirty"
  by (simp_all add: fun_eq_iff IsNewWrite_def isNewWrite_def SwapSnapWithClean_def swapSnapWithClean_def
      NewWriteSwapCleanWithDirty_def newWriteSwapCleanWithDirty_def)

lemma df_triple_same: "df_Read b = map_prod Some id (tb_read b)" "df_Write m b = (kNO_ERROR, tb_write m b)"
  "df_Write_move moved m b = (kNO_ERROR, tb_write m b, moved m)"
  by (simp_all add: df_Read_def tb_read_def df_Write_def tb_write_def df_Write_move_def df_flags_same
      snapIndex_def dirtyIndex_def Let_def)

text \<open>How the constructor's \<open>size_t\<close> becomes the limit through an \<open>int\<close>.\<close>

lemma fifo_limit_new:
  "fifo_limit (new_FIFOBuffer cap) =
     (if cap mod 2 ^ 32 < 2 ^ 31 then cap mod 2 ^ 32 else 2 ^ 64 - 2 ^ 32 + cap mod 2 ^ 32)"
proof -
  let ?w = "word_of_nat cap :: u32"
  have u: "unat ?w = cap mod 2 ^ 32" by (simp add: unat_of_nat)
  have s: "sint ?w = (if cap mod 2 ^ 32 < 2 ^ 31 then int (cap mod 2 ^ 32) else int (cap mod 2 ^ 32) - 2 ^ 32)"
  proof -
    define k where "k = int (cap mod 2 ^ 32)"
    have k: "0 \<le> k" "k < 2 ^ 32" by (simp_all add: k_def)
    have "sint ?w = signed_take_bit 31 k" using u by (simp add: sint_uint uint_nat k_def)
    also have "\<dots> = (k + 2 ^ 31) mod 2 ^ 32 - 2 ^ 31"
      by (simp add: signed_take_bit_eq_take_bit_shift take_bit_eq_mod)
    also have "\<dots> = (if k < 2 ^ 31 then k else k - 2 ^ 32)"
      using k mod_pos_pos_trivial [of "k + 2 ^ 31" "2 ^ 32"] mod_add_self2 [of "k - 2 ^ 31" "2 ^ 32"]
        mod_pos_pos_trivial [of "k - 2 ^ 31" "2 ^ 32"] by (auto simp: add.commute)
    finally show ?thesis by (simp add: k_def)
  qed
  have "unat (signed ?w :: u64) = nat (sint ?w mod 2 ^ 64)"
    by (subst of_int_sint [symmetric], subst unat_eq_nat_uint, subst uint_word_of_int) simp
  moreover have "(int m - 2 ^ 32) mod 2 ^ 64 = 2 ^ 64 - 2 ^ 32 + int m" if "m < 2 ^ 32" for m
    using that mod_add_self2 [of "int m - 2 ^ 32" "2 ^ 64"]
      mod_pos_pos_trivial [of "int m - 2 ^ 32 + 2 ^ 64" "2 ^ 64"] by (simp add: add.commute)
  from this [of "cap mod 2 ^ 32"]
  have "nat ((int (cap mod 2 ^ 32) - 2 ^ 32) mod 2 ^ 64) = 2 ^ 64 - 2 ^ 32 + cap mod 2 ^ 32" by simp
  ultimately show ?thesis using s unfolding fifo_limit_def new_FIFOBuffer_def by simp
qed


section \<open>Properties\<close>

text \<open>On a new bounded queue, for every sequence of writes and reads, the messages accepted are
  the messages read followed by the messages still queued, in this order: none is lost,
  repeated or reordered once accepted, and the queue never holds more than its capacity, for
  capacities below 2^31.\<close>

theorem fifo_buffer_order:
  assumes "cap < 2 ^ 31"
    and "run_buffer FIFO_write_accepts FIFO_Read cs (new_FIFOBuffer cap) = (accepted, got, b)"
  shows "accepted = got @ fb_queue b \<and> length (fb_queue b) \<le> cap"
proof -
  have "fb_queue (new_FIFOBuffer cap) = ([] :: 'a list)" by (simp add: new_FIFOBuffer_def)
  moreover have "fifo_limit (new_FIFOBuffer cap :: 'a FIFOBuffer) = cap"
    using fifo_limit_new [of cap] assms(1) by simp
  ultimately show ?thesis
    using fifo.fifo_order [OF _ assms(2)] fifo.fifo_bounded [OF _ _ assms(2)] by simp
qed

theorem fifo_buffer_order_witness:
  "\<exists>accepted got b. run_buffer FIFO_write_accepts FIFO_Read [Some 1, Some (2 :: nat), None] (new_FIFOBuffer 1)
       = (accepted, got, b) \<and> accepted = got @ fb_queue b \<and> length (fb_queue b) \<le> 1"
proof -
  obtain a r b where "run_buffer FIFO_write_accepts FIFO_Read [Some 1, Some (2 :: nat), None] (new_FIFOBuffer 1)
      = (a, r, b)" by (metis prod_cases3)
  from fifo_buffer_order [OF _ this] this show ?thesis by simp
qed

text \<open>The capacity passes through an \<open>int\<close>: the limit in force is the requested capacity only
  below 2^31; from 2^31 to 2^32 it is close to 2^64, beyond 2^32 it is reduced modulo 2^32.\<close>

theorem fifo_capacity_conversion:
  "fifo_limit (new_FIFOBuffer cap) =
     (if cap mod 2 ^ 32 < 2 ^ 31 then cap mod 2 ^ 32 else 2 ^ 64 - 2 ^ 32 + cap mod 2 ^ 32)"
  by (rule fifo_limit_new)

text \<open>Through the interface of the shared buffers, a triple buffer accepts every message and
  the next read returns the last one written.\<close>

theorem shared_triple_last_write:
  assumes "tb_ok b"
  shows "\<exists>b1 b2. SharedBuffer_Write m (SB_Triple b) = (kNO_ERROR, SB_Triple b1)
     \<and> SharedBuffer_Read (SB_Triple b1) = (Some m, SB_Triple b2) \<and> tb_ok b1 \<and> tb_ok b2"
  using tb_write_facts [OF assms, of m] tb_read_facts [of "tb_write m b"]
  by (cases "tb_read (tb_write m b)") (auto simp: df_triple_same)

theorem shared_triple_last_write_witness:
  "\<exists>b1 b2. SharedBuffer_Write 3 (SharedBuffer_Make kTRIPLE_BUFFER 0 [0, 0, 0 :: nat]) = (kNO_ERROR, SB_Triple b1)
     \<and> SharedBuffer_Read (SB_Triple b1) = (Some 3, SB_Triple b2)"
proof -
  have "tb_ok (new_df_TripleBuffer [0, 0, 0 :: nat])"
    by (simp add: tb_ok_def new_df_TripleBuffer_def tb_valid_flags_def)
  from shared_triple_last_write [OF this, of 3] show ?thesis
    unfolding SharedBuffer_Make_def by auto
qed

end
