(* ===== verification/Dataflow_Notifier.thy ===== *)
theory Dataflow_Notifier
  imports AR_Prelude
begin

text \<open>
  \<open>include/ar/dataflow/kernel_events.hpp\<close>, \<open>include/ar/dataflow/notifier.hpp\<close> and
  \<open>src/dataflow/notifier.cpp\<close>: the notifier through which ports tell a kernel of events.
  An \<open>int\<close> is a 32-bit word, the two state fields are bytes. The promises come from a
  library: a promise is a number, \<open>promise = {}\<close> takes the next one, and
  \<open>dn_calls\<close> records the calls of \<open>set_value\<close>. A returned future is that of a promise
  or a resolved one. Every operation holds the notifier's mutex and is one step.
\<close>

section \<open>Definitions\<close>

type_synonym cint = "32 word"

datatype KernelEvent =
    kKERNEL_EVENT_ANY
  | kKERNEL_EVENT_READ_SOURCE
  | kKERNEL_EVENT_TERMINATE
  | kKERNEL_EVENT_SINK_SUBSCRIPTION
  | kKERNEL_EVENT_SINK_UNSUBSCRIPTION

fun event_value :: "KernelEvent \<Rightarrow> cint" where
  "event_value kKERNEL_EVENT_ANY = push_bit 1 1"
| "event_value kKERNEL_EVENT_READ_SOURCE = push_bit 1 1"
| "event_value kKERNEL_EVENT_TERMINATE = push_bit 2 1"
| "event_value kKERNEL_EVENT_SINK_SUBSCRIPTION = push_bit 3 1"
| "event_value kKERNEL_EVENT_SINK_UNSUBSCRIPTION = push_bit 4 1"

datatype df_future = FutureOf nat | ResolvedFuture cint

record DfNotifier =
  dn_promise :: nat
  dn_calls :: "(nat \<times> cint) list"
  dn_notified :: bool
  dn_watch_any :: bool
  dn_watch_state :: u8
  dn_notify_state :: u8

definition new_DfNotifier :: DfNotifier where
  "new_DfNotifier = \<lparr>dn_promise = 0, dn_calls = [], dn_notified = False, dn_watch_any = False,
     dn_watch_state = 0, dn_notify_state = 0\<rparr>"

definition HasState :: "cint \<Rightarrow> cint \<Rightarrow> bool" where
  "HasState states state \<longleftrightarrow> states AND state = state"

definition Notify :: "cint \<Rightarrow> DfNotifier \<Rightarrow> DfNotifier" where
  "Notify state n =
     (let n1 = n\<lparr>dn_notify_state := ucast ((ucast (dn_notify_state n) :: cint) OR state)\<rparr> in
      if dn_watch_any n1 \<or> (ucast (dn_watch_state n1) :: cint) AND state = state then
        if \<not> dn_notified n1
        then n1\<lparr>dn_notified := True, dn_calls := dn_calls n1 @ [(dn_promise n1, ucast (dn_notify_state n1))]\<rparr>
        else n1
      else n1)"

definition CheckNotifications :: "DfNotifier \<Rightarrow> cint \<Rightarrow> cint \<Rightarrow> cint" where
  "CheckNotifications n state notifications =
     (if (ucast (dn_notify_state n) :: cint) AND state = state then notifications OR state
      else notifications)"

definition AsyncWatch :: "cint list \<Rightarrow> DfNotifier \<Rightarrow> df_future \<times> DfNotifier" where
  "AsyncWatch args n =
     (let n1 = n\<lparr>dn_watch_any := False\<rparr>;
          notifications = fold (CheckNotifications n1) args 0;
          watch = fold (\<lambda>a w. ucast ((ucast w :: cint) OR a)) args (0 :: u8);
          n2 = n1\<lparr>dn_watch_state := watch, dn_notify_state := 0, dn_notified := False,
                  dn_promise := dn_promise n1 + 1\<rparr> in
      if notifications = 0 then (FutureOf (dn_promise n2), n2)
      else (ResolvedFuture notifications, n2))"

definition AsyncWatchAny :: "DfNotifier \<Rightarrow> df_future \<times> DfNotifier" where
  "AsyncWatchAny n =
     (let n1 = n\<lparr>dn_watch_any := True\<rparr>;
          notifications = (ucast (dn_notify_state n1) :: cint);
          n2 = n1\<lparr>dn_watch_state := 0, dn_notify_state := 0, dn_notified := False,
                  dn_promise := dn_promise n1 + 1\<rparr> in
      if dn_notify_state n1 = 0 then (FutureOf (dn_promise n2), n2)
      else (ResolvedFuture notifications, n2))"

text \<open>A client's calls, in the order in which they take the mutex, and the futures they get.\<close>

datatype df_call = CNotify cint | CWatch "cint list" | CWatchAny

fun run_notifier :: "df_call list \<Rightarrow> DfNotifier \<Rightarrow> df_future list \<times> DfNotifier" where
  "run_notifier [] n = ([], n)"
| "run_notifier (CNotify e # cs) n = run_notifier cs (Notify e n)"
| "run_notifier (CWatch args # cs) n =
     (let (f, n1) = AsyncWatch args n; (fs, n2) = run_notifier cs n1 in (f # fs, n2))"
| "run_notifier (CWatchAny # cs) n =
     (let (f, n1) = AsyncWatchAny n; (fs, n2) = run_notifier cs n1 in (f # fs, n2))"

section \<open>Each promise is fulfilled at most once\<close>

definition dn_inv :: "DfNotifier \<Rightarrow> bool" where
  "dn_inv n \<longleftrightarrow> distinct (map fst (dn_calls n)) \<and> (\<forall>p\<in>set (map fst (dn_calls n)). p \<le> dn_promise n)
     \<and> (dn_notified n \<longleftrightarrow> dn_promise n \<in> set (map fst (dn_calls n)))"

lemma dn_inv_new: "dn_inv new_DfNotifier"
  by (simp add: dn_inv_def new_DfNotifier_def)

lemma dn_inv_Notify: "dn_inv n \<Longrightarrow> dn_inv (Notify e n)"
  by (auto simp: dn_inv_def Notify_def Let_def)

lemma dn_inv_watch:
  "dn_inv n \<Longrightarrow> dn_inv (snd (AsyncWatch args n))" "dn_inv n \<Longrightarrow> dn_inv (snd (AsyncWatchAny n))"
  by (force simp: dn_inv_def AsyncWatch_def AsyncWatchAny_def Let_def)+

lemma dn_inv_run: "dn_inv n \<Longrightarrow> run_notifier cs n = (fs, n') \<Longrightarrow> dn_inv n'"
proof (induction cs arbitrary: n fs)
  case (Cons c cs)
  show ?case
  proof (cases c)
    case (CNotify e)
    then show ?thesis using Cons.prems Cons.IH [of "Notify e n"] by (simp add: dn_inv_Notify)
  next
    case (CWatch args)
    then show ?thesis
      using Cons.prems Cons.IH [of "snd (AsyncWatch args n)"] dn_inv_watch(1) [of n args] by (auto split: prod.splits)
  next
    case CWatchAny
    then show ?thesis
      using Cons.prems Cons.IH [of "snd (AsyncWatchAny n)"] dn_inv_watch(2) [of n] by (auto split: prod.splits)
  qed
qed simp

section \<open>Events that were notified\<close>

text \<open>Events of the kernel fit into the byte of the notifier.\<close>

definition event_bits :: "cint \<Rightarrow> bool" where
  "event_bits e \<longleftrightarrow> e \<noteq> 0 \<and> ucast (ucast e :: u8) = e"

lemma event_bits_values: "event_bits (event_value e)"
  by (cases e) (simp_all add: event_bits_def)

lemma ucast_or: "(ucast (ucast x OR e :: cint) :: u8) = x OR ucast e" for x :: u8
  by (rule bit_word_eqI) (auto simp: bit_simps)

lemma ucast_u8_or: "(ucast (x OR y) :: cint) = ucast x OR ucast y" for x y :: u8
  by (rule bit_word_eqI) (auto simp: bit_simps)

lemma Notify_state: "dn_notify_state (Notify e n) = dn_notify_state n OR ucast e"
  by (simp add: Notify_def Let_def ucast_or)

lemma Notify_frame [simp]:
  "dn_watch_any (Notify e n) = dn_watch_any n" "dn_watch_state (Notify e n) = dn_watch_state n"
  "dn_promise (Notify e n) = dn_promise n"
  by (simp_all add: Notify_def Let_def)

lemma event_bits_nonzero:
  assumes "event_bits e"
  shows "(x OR ucast e :: u8) \<noteq> 0" "HasState (ucast (x OR ucast e :: u8)) e"
proof -
  have e: "ucast (ucast e :: u8) = e" "e \<noteq> 0" using assms by (auto simp: event_bits_def)
  then have "(ucast e :: u8) \<noteq> 0" by auto
  then show "(x OR ucast e :: u8) \<noteq> 0" by (metis or_eq_0_iff)
  show "HasState (ucast (x OR ucast e :: u8)) e"
    unfolding HasState_def ucast_u8_or e(1) by (rule bit_word_eqI) (auto simp: bit_simps)
qed

lemma HasState_more:
  assumes "HasState (ucast (x :: u8)) e" shows "HasState (ucast (x OR y)) e"
proof -
  have "(ucast x OR ucast y) AND e = (ucast x AND e) OR (ucast y AND e)"
    by (rule bit.conj_disj_distrib2)
  also have "\<dots> = e OR (ucast y AND e)" using assms by (simp add: HasState_def)
  also have "\<dots> = e" by (rule bit_word_eqI) (auto simp: bit_simps)
  finally show ?thesis unfolding HasState_def ucast_u8_or .
qed

text \<open>The state collects every event since the last watch.\<close>

lemma notify_all_state:
  "dn_notify_state (fold Notify es n) = fold (\<lambda>e x. x OR ucast e) es (dn_notify_state n)"
  by (induction es arbitrary: n) (simp_all add: Notify_state)

lemma fold_or_HasState:
  "event_bits e \<Longrightarrow> e \<in> set es \<or> HasState (ucast x) e \<Longrightarrow> HasState (ucast (fold (\<lambda>e x. x OR ucast e) es (x :: u8))) e"
  by (induction es arbitrary: x) (auto intro: event_bits_nonzero(2) HasState_more)

lemma HasState_nonzero: "event_bits e \<Longrightarrow> HasState (ucast (x :: u8)) e \<Longrightarrow> x \<noteq> 0"
  by (auto simp: HasState_def event_bits_def)


lemma Notify_calls_mono: "c \<in> set (dn_calls n) \<Longrightarrow> c \<in> set (dn_calls (fold Notify es n))"
  by (induction es arbitrary: n) (auto simp: Notify_def Let_def)

text \<open>A watched event fulfils the promise if nothing did so before.\<close>

lemma Notify_fulfils:
  assumes "\<not> dn_notified n" "dn_watch_any n \<or> HasState (ucast (dn_watch_state n)) e" "event_bits e"
  shows "\<exists>v. (dn_promise n, v) \<in> set (dn_calls (Notify e n)) \<and> HasState v e"
  using assms event_bits_nonzero(2) [OF assms(3), of "dn_notify_state n"]
  by (auto simp: Notify_def Let_def ucast_or HasState_def)

lemma AsyncWatch_state:
  "snd (AsyncWatch args n) = n\<lparr>dn_watch_any := False, dn_notified := False, dn_notify_state := 0,
     dn_promise := dn_promise n + 1, dn_watch_state := fold (\<lambda>e x. x OR ucast e) args 0\<rparr>"
proof -
  have "fold (\<lambda>a w. ucast ((ucast w :: cint) OR a)) args w = fold (\<lambda>e x. x OR ucast e) args (w :: u8)" for w
    by (induction args arbitrary: w) (simp_all add: ucast_or)
  then show ?thesis by (simp add: AsyncWatch_def Let_def)
qed

section \<open>Properties\<close>

text \<open>Whatever the calls, \<open>set_value\<close> is called at most once on every promise, so the exception
  for a promise already satisfied is never thrown, and never on a promise that has been
  replaced.\<close>

theorem notifier_promise_once:
  assumes "run_notifier cs new_DfNotifier = (fs, n)"
  shows "distinct (map fst (dn_calls n)) \<and> (\<forall>(p, v)\<in>set (dn_calls n). p \<le> dn_promise n)"
  using dn_inv_run [OF dn_inv_new assms] by (auto simp: dn_inv_def)

theorem notifier_promise_once_witness:
  "\<exists>fs n. run_notifier [CWatchAny, CNotify 2, CNotify 4] new_DfNotifier = (fs, n) \<and> distinct (map fst (dn_calls n))"
  using notifier_promise_once [of "[CWatchAny, CNotify 2, CNotify 4]"] by (metis surj_pair)

text \<open>C35: no event is lost between two calls of \<open>AsyncWatchAny\<close>: a pending future of the first
  call is fulfilled by the first event, and the second call returns a resolved future with
  every event since the first call, also those the first future already reported: an event
  that fulfils a pending watch is reported a second time by the next one.\<close>

theorem watch_any_reports:
  assumes "AsyncWatchAny n = (f, n1)" and "\<forall>e'\<in>set (e # es). event_bits e'"
    and "n2 = fold Notify (e # es) n1"
  shows "(\<exists>v n3. AsyncWatchAny n2 = (ResolvedFuture v, n3) \<and> (\<forall>e'\<in>set (e # es). HasState v e'))
     \<and> (\<forall>p. f = FutureOf p \<longrightarrow> (\<exists>v. (p, v) \<in> set (dn_calls n2) \<and> HasState v e))"
proof -
  have n1: "dn_watch_any n1" "\<not> dn_notified n1" "f = FutureOf p \<Longrightarrow> p = dn_promise n1" for p
    using assms(1) by (auto simp: AsyncWatchAny_def Let_def split: if_splits)
  have all: "HasState (ucast (dn_notify_state n2)) e'" if "e' \<in> set (e # es)" for e'
    using that assms(2,3) fold_or_HasState [of e' "e # es"] notify_all_state [of "e # es" n1] by auto
  then have "dn_notify_state n2 \<noteq> 0" using assms(2) HasState_nonzero by force
  moreover have "\<exists>v. (p, v) \<in> set (dn_calls n2) \<and> HasState v e" if "f = FutureOf p" for p
    using Notify_fulfils [of n1 e] n1 that assms(2,3) Notify_calls_mono [of _ "Notify e n1" es] by fastforce
  ultimately show ?thesis using all by (auto simp: AsyncWatchAny_def Let_def)
qed

theorem watch_any_reports_witness:
  "\<exists>p n1 v w n3. AsyncWatchAny new_DfNotifier = (FutureOf p, n1)
     \<and> (p, v) \<in> set (dn_calls (Notify 2 n1)) \<and> HasState v 2
     \<and> AsyncWatchAny (Notify 2 n1) = (ResolvedFuture w, n3) \<and> HasState w 2"
proof -
  obtain p n1 where w: "AsyncWatchAny new_DfNotifier = (FutureOf p, n1)"
    by (simp add: AsyncWatchAny_def new_DfNotifier_def)
  from watch_any_reports [OF w, of 2 "[]" "Notify 2 n1"] w show ?thesis
    by (force simp: event_bits_def)
qed

text \<open>A pending future of \<open>AsyncWatch\<close> is fulfilled by the first notification of any of the
  watched events, with a value that contains it, and by no event that is not among the
  watched bits.\<close>

theorem watch_selected:
  assumes "AsyncWatch args n = (FutureOf p, n1)" and "event_bits e"
  shows "(e \<in> set args \<longrightarrow> (\<exists>v. (p, v) \<in> set (dn_calls (Notify e n1)) \<and> HasState v e))
     \<and> (\<not> HasState (ucast (dn_watch_state n1)) e \<longrightarrow> dn_calls (Notify e n1) = dn_calls n1)"
proof -
  have n1: "n1 = snd (AsyncWatch args n)" and p: "p = dn_promise n1"
    using assms(1) by (auto simp: AsyncWatch_def Let_def split: if_splits)
  have st: "\<not> dn_notified n1" "\<not> dn_watch_any n1" "dn_watch_state n1 = fold (\<lambda>e x. x OR ucast e) args 0"
    unfolding n1 AsyncWatch_state by simp_all
  have "HasState (ucast (dn_watch_state n1)) e" if "e \<in> set args"
    using that assms(2) fold_or_HasState [of e args 0] st by simp
  then show ?thesis
    using Notify_fulfils [OF st(1) _ assms(2)] p st by (auto simp: Notify_def Let_def HasState_def)
qed

theorem watch_selected_witness:
  "\<exists>p n1 v. AsyncWatch [8, 4] new_DfNotifier = (FutureOf p, n1) \<and> (p, v) \<in> set (dn_calls (Notify 4 n1))"
proof -
  obtain p n1 where w: "AsyncWatch [8, 4] new_DfNotifier = (FutureOf p, n1)"
    by (simp add: AsyncWatch_def new_DfNotifier_def CheckNotifications_def Let_def)
  from watch_selected [OF w, of 4] w show ?thesis by (force simp: event_bits_def)
qed

end
