(* ===== verification/Dataflow_Ports.thy ===== *)
theory Dataflow_Ports
  imports Dataflow_Buffers Dataflow_Notifier
begin

text \<open>
  \<open>include/ar/dataflow/\<close> and \<open>src/dataflow/\<close>: \<open>port\<close>, \<open>consumer\<close>, \<open>source\<close>,
  \<open>sink\<close> and \<open>port_controller\<close>. Ports and notifiers are shared through pointers, so they
  live in a store and a pointer is an index into it; a shared pointer that may be null is
  an \<open>option\<close>. The queue inside a source port is a library class: it is the parameter
  \<open>Q\<close> of the operations, and what is relied on is the interface \<open>spsc_queue\<close>. The system
  clock is a parameter too. All messages have one type.
\<close>

section \<open>Definitions\<close>

text \<open>\<open>q_push_move\<close> also says what is left in the variable that was moved from.\<close>

record ('q, 'a) spsc =
  q_new :: "nat \<Rightarrow> 'q"
  q_push :: "'a \<Rightarrow> 'q \<Rightarrow> bool \<times> 'q"
  q_push_move :: "'a \<Rightarrow> 'q \<Rightarrow> bool \<times> 'q \<times> 'a"
  q_pop :: "'q \<Rightarrow> ('a \<times> 'q) option"
  q_empty :: "'q \<Rightarrow> bool"

record Port =
  port_name :: string
  port_subscribers :: "nat set"
  port_subscribers_count :: nat

definition new_Port :: "string \<Rightarrow> Port" where
  "new_Port name = \<lparr>port_name = name, port_subscribers = {}, port_subscribers_count = 0\<rparr>"

definition Port_Subscribe :: "nat \<Rightarrow> Port \<Rightarrow> Port" where
  "Port_Subscribe user p =
     (let subs = insert user (port_subscribers p) in
      p\<lparr>port_subscribers := subs, port_subscribers_count := card subs\<rparr>)"

definition Port_Unsubscribe :: "nat \<Rightarrow> Port \<Rightarrow> Port" where
  "Port_Unsubscribe user p =
     (let subs = port_subscribers p - {user} in
      p\<lparr>port_subscribers := subs, port_subscribers_count := card subs\<rparr>)"

definition Port_SubscribersEmpty :: "Port \<Rightarrow> bool" where
  "Port_SubscribersEmpty p \<longleftrightarrow> port_subscribers_count p = 0"

definition Port_UnsubscribeAll :: "Port \<Rightarrow> Port" where
  "Port_UnsubscribeAll p = p\<lparr>port_subscribers := {}, port_subscribers_count := 0\<rparr>"

record 'q SourcePort =
  sp_port :: Port
  sp_active :: bool
  sp_notifier :: "nat option"
  sp_queue :: 'q
  sp_skip_counter :: "nat option"

record SinkPort =
  sk_port :: Port
  sk_notifier :: "nat option"
  sk_last_msg_ts :: int
  sk_consumers :: "nat option list"

record 'q df_store =
  st_notifiers :: "DfNotifier list"
  st_sources :: "'q SourcePort list"
  st_sinks :: "SinkPort list"

definition notify_at :: "nat option \<Rightarrow> KernelEvent \<Rightarrow> 'q df_store \<Rightarrow> 'q df_store" where
  "notify_at ptr e st = (case ptr of None \<Rightarrow> st
     | Some k \<Rightarrow> st\<lparr>st_notifiers := (st_notifiers st)[k := Notify (event_value e) (st_notifiers st ! k)]\<rparr>)"

definition set_source :: "nat \<Rightarrow> 'q SourcePort \<Rightarrow> 'q df_store \<Rightarrow> 'q df_store" where
  "set_source a sp st = st\<lparr>st_sources := (st_sources st)[a := sp]\<rparr>"

definition set_sink :: "nat \<Rightarrow> SinkPort \<Rightarrow> 'q df_store \<Rightarrow> 'q df_store" where
  "set_sink a sk st = st\<lparr>st_sinks := (st_sinks st)[a := sk]\<rparr>"

text \<open>Source ports. The constructor takes a buffer type and does not use it.\<close>

definition new_SourcePort ::
  "('q, 'a) spsc \<Rightarrow> nat option \<Rightarrow> string \<Rightarrow> SharedBufferType \<Rightarrow> nat \<Rightarrow> 'q SourcePort" where
  "new_SourcePort Q notifier name buffer_type capacity =
     \<lparr>sp_port = new_Port name, sp_active = True, sp_notifier = notifier, sp_queue = q_new Q capacity,
      sp_skip_counter = None\<rparr>"

definition SourcePort_Write :: "('q, 'a) spsc \<Rightarrow> 'a \<Rightarrow> nat \<Rightarrow> 'q df_store \<Rightarrow> int \<times> 'q df_store" where
  "SourcePort_Write Q msg a st =
     (let sp = st_sources st ! a; (k, q) = q_push Q msg (sp_queue sp);
          error = (if k then kNO_ERROR else kBUFFER_OVERFLOW);
          sp1 = sp\<lparr>sp_queue := q,
                   sp_skip_counter := (if k then sp_skip_counter sp else map_option Suc (sp_skip_counter sp))\<rparr>;
          st1 = notify_at (sp_notifier sp) kKERNEL_EVENT_READ_SOURCE (set_source a sp1 st) in
      (error_code error, st1))"

definition SourcePort_Write_move ::
  "('q, 'a) spsc \<Rightarrow> 'a \<Rightarrow> nat \<Rightarrow> 'q df_store \<Rightarrow> int \<times> 'q df_store \<times> 'a" where
  "SourcePort_Write_move Q msg a st =
     (let sp = st_sources st ! a; (k, q, msg') = q_push_move Q msg (sp_queue sp);
          error = (if k then kNO_ERROR else kBUFFER_OVERFLOW);
          sp1 = sp\<lparr>sp_queue := q,
                   sp_skip_counter := (if k then sp_skip_counter sp else map_option Suc (sp_skip_counter sp))\<rparr>;
          st1 = notify_at (sp_notifier sp) kKERNEL_EVENT_READ_SOURCE (set_source a sp1 st) in
      (error_code error, st1, msg'))"

definition SourcePort_Read :: "('q, 'a) spsc \<Rightarrow> nat \<Rightarrow> 'q df_store \<Rightarrow> 'a option \<times> 'q df_store" where
  "SourcePort_Read Q a st =
     (case q_pop Q (sp_queue (st_sources st ! a)) of
        Some (msg, q) \<Rightarrow> (Some msg, set_source a ((st_sources st ! a)\<lparr>sp_queue := q\<rparr>) st)
      | None \<Rightarrow> (None, st))"

definition SourcePort_TryRead :: "('q, 'a) spsc \<Rightarrow> 'a \<Rightarrow> nat \<Rightarrow> 'q df_store \<Rightarrow> bool \<times> 'a \<times> 'q df_store" where
  "SourcePort_TryRead Q res a st =
     (case q_pop Q (sp_queue (st_sources st ! a)) of
        Some (msg, q) \<Rightarrow> (True, msg, set_source a ((st_sources st ! a)\<lparr>sp_queue := q\<rparr>) st)
      | None \<Rightarrow> (False, res, st))"

definition SourcePort_Empty :: "('q, 'a) spsc \<Rightarrow> 'q SourcePort \<Rightarrow> bool" where
  "SourcePort_Empty Q sp = q_empty Q (sp_queue sp)"

partial_function (option) sp_flush_loop :: "('q, 'a) spsc \<Rightarrow> 'q \<Rightarrow> 'q option" where
  "sp_flush_loop Q q =
     (if q_empty Q q then Some q
      else case q_pop Q q of None \<Rightarrow> Some q | Some (msg, q') \<Rightarrow> sp_flush_loop Q q')"

definition SourcePort_Flush :: "('q, 'a) spsc \<Rightarrow> 'q SourcePort \<Rightarrow> 'q SourcePort option" where
  "SourcePort_Flush Q sp = map_option (\<lambda>q. sp\<lparr>sp_queue := q\<rparr>) (sp_flush_loop Q (sp_queue sp))"

definition SourcePort_Activate :: "'q SourcePort \<Rightarrow> 'q SourcePort" where
  "SourcePort_Activate sp = sp\<lparr>sp_active := True\<rparr>"

definition SourcePort_Deactivate :: "'q SourcePort \<Rightarrow> 'q SourcePort" where
  "SourcePort_Deactivate sp = sp\<lparr>sp_active := False\<rparr>"

definition SourcePort_IsActive :: "'q SourcePort \<Rightarrow> bool" where
  "SourcePort_IsActive sp = sp_active sp"

definition SourcePort_SetSkipCounter :: "nat option \<Rightarrow> 'q SourcePort \<Rightarrow> 'q SourcePort" where
  "SourcePort_SetSkipCounter counter sp = sp\<lparr>sp_skip_counter := counter\<rparr>"

text \<open>The set of source ports of a kernel, by name.\<close>

record Source =
  src_notifier :: "nat option"
  src_port_map :: "(string \<times> nat) list"

definition Source_Add_capacity ::
  "('q, 'a) spsc \<Rightarrow> string \<Rightarrow> SharedBufferType \<Rightarrow> nat \<Rightarrow> Source \<Rightarrow> 'q df_store
    \<Rightarrow> ar_error + (nat \<times> Source \<times> 'q df_store)" where
  "Source_Add_capacity Q name buffer_type capacity src st =
     (if map_of (src_port_map src) name \<noteq> None then Inl (runtime_error ''Source port already exists'')
      else
        let a = length (st_sources st) in
        Inr (a, src\<lparr>src_port_map := src_port_map src @ [(name, a)]\<rparr>,
             st\<lparr>st_sources := st_sources st @ [new_SourcePort Q (src_notifier src) name buffer_type capacity]\<rparr>))"

definition Source_Add ::
  "('q, 'a) spsc \<Rightarrow> string \<Rightarrow> SharedBufferType \<Rightarrow> Source \<Rightarrow> 'q df_store
    \<Rightarrow> ar_error + (nat \<times> Source \<times> 'q df_store)" where
  "Source_Add Q name buffer_type src st = Source_Add_capacity Q name buffer_type 100 src st"

definition Source_At :: "string \<Rightarrow> Source \<Rightarrow> ar_error + nat" where
  "Source_At name src = (case map_of (src_port_map src) name of
     None \<Rightarrow> Inl (runtime_error ''Source port not found'') | Some a \<Rightarrow> Inr a)"

fun Source_Flush_loop :: "('q, 'a) spsc \<Rightarrow> nat list \<Rightarrow> 'q df_store \<Rightarrow> 'q df_store option" where
  "Source_Flush_loop Q [] st = Some st"
| "Source_Flush_loop Q (a # as) st =
     Option.bind (SourcePort_Flush Q (st_sources st ! a)) (\<lambda>sp. Source_Flush_loop Q as (set_source a sp st))"

definition Source_Flush :: "('q, 'a) spsc \<Rightarrow> Source \<Rightarrow> 'q df_store \<Rightarrow> 'q df_store option" where
  "Source_Flush Q src st = Source_Flush_loop Q (map snd (src_port_map src)) st"

definition Source_Activate :: "Source \<Rightarrow> 'q df_store \<Rightarrow> 'q df_store" where
  "Source_Activate src st =
     fold (\<lambda>a st. set_source a (SourcePort_Activate (st_sources st ! a)) st) (map snd (src_port_map src)) st"

definition Source_Deactivate :: "Source \<Rightarrow> 'q df_store \<Rightarrow> 'q df_store" where
  "Source_Deactivate src st = st"

text \<open>Sink ports.\<close>

definition new_SinkPort :: "nat option \<Rightarrow> string \<Rightarrow> SinkPort" where
  "new_SinkPort notifier name =
     \<lparr>sk_port = new_Port name, sk_notifier = notifier, sk_last_msg_ts = 0, sk_consumers = []\<rparr>"

text \<open>The predicate of \<open>Connect\<close> and \<open>Disconnect\<close>: null pointers are never equal.\<close>

definition same_consumer :: "nat option \<Rightarrow> nat option \<Rightarrow> bool" where
  "same_consumer c p = (if c \<noteq> None \<and> p \<noteq> None then c = p else False)"

definition SinkPort_Connect :: "nat option \<Rightarrow> SinkPort \<Rightarrow> ar_error + SinkPort" where
  "SinkPort_Connect c sk =
     (if list_ex (same_consumer c) (sk_consumers sk) then Inl (runtime_error ''Consumer already exist'')
      else Inr (sk\<lparr>sk_consumers := sk_consumers sk @ [c]\<rparr>))"

definition SinkPort_Disconnect :: "nat option \<Rightarrow> SinkPort \<Rightarrow> SinkPort" where
  "SinkPort_Disconnect c sk = sk\<lparr>sk_consumers := filter (\<lambda>p. \<not> same_consumer c p) (sk_consumers sk)\<rparr>"

definition SinkPort_DisconnectAll :: "SinkPort \<Rightarrow> SinkPort" where
  "SinkPort_DisconnectAll sk = sk\<lparr>sk_consumers := []\<rparr>"

definition SinkPort_ConsumersCount :: "SinkPort \<Rightarrow> nat" where
  "SinkPort_ConsumersCount sk = length (sk_consumers sk)"

definition SinkPort_Send_to :: "('q, 'a) spsc \<Rightarrow> nat option \<Rightarrow> 'a \<Rightarrow> 'q df_store \<Rightarrow> ar_error + (bool \<times> 'q df_store)" where
  "SinkPort_Send_to Q c msg st = (case c of None \<Rightarrow> Inl undefined_behaviour
     | Some a \<Rightarrow> let (e, st1) = SourcePort_Write Q msg a st in Inr (e = 0, st1))"

definition SinkPort_Send_to_move ::
  "('q, 'a) spsc \<Rightarrow> nat option \<Rightarrow> 'a \<Rightarrow> 'q df_store \<Rightarrow> ar_error + (bool \<times> 'q df_store \<times> 'a)" where
  "SinkPort_Send_to_move Q c msg st = (case c of None \<Rightarrow> Inl undefined_behaviour
     | Some a \<Rightarrow> let (e, st1, msg') = SourcePort_Write_move Q msg a st in Inr (e = 0, st1, msg'))"

definition SinkPort_IsActive :: "nat option \<Rightarrow> 'q df_store \<Rightarrow> ar_error + bool" where
  "SinkPort_IsActive c st = (case c of None \<Rightarrow> Inl undefined_behaviour
     | Some a \<Rightarrow> Inr (SourcePort_IsActive (st_sources st ! a)))"

text \<open>The loop of \<open>Send\<close>; a null consumer is dereferenced.\<close>

fun send_loop :: "('q, 'a) spsc \<Rightarrow> 'a \<Rightarrow> nat option list \<Rightarrow> 'q df_store \<Rightarrow> ar_error + 'q df_store" where
  "send_loop Q msg [] st = Inr st"
| "send_loop Q msg (None # cs) st = Inl undefined_behaviour"
| "send_loop Q msg (Some a # cs) st =
     (if SourcePort_IsActive (st_sources st ! a) then send_loop Q msg cs (snd (SourcePort_Write Q msg a st))
      else send_loop Q msg cs st)"

definition SinkPort_Send :: "('q, 'a) spsc \<Rightarrow> int \<Rightarrow> 'a \<Rightarrow> nat \<Rightarrow> 'q df_store \<Rightarrow> ar_error + 'q df_store" where
  "SinkPort_Send Q now msg s st =
     (let st1 = set_sink s ((st_sinks st ! s)\<lparr>sk_last_msg_ts := now\<rparr>) st in
      send_loop Q msg (sk_consumers (st_sinks st1 ! s)) st1)"

fun send_move_loop :: "('q, 'a) spsc \<Rightarrow> 'a \<Rightarrow> nat option list \<Rightarrow> 'q df_store \<Rightarrow> ar_error + ('q df_store \<times> 'a)" where
  "send_move_loop Q msg [] st = Inr (st, msg)"
| "send_move_loop Q msg (None # cs) st = Inl undefined_behaviour"
| "send_move_loop Q msg (Some a # cs) st =
     (if SourcePort_IsActive (st_sources st ! a)
      then let (e, st1, msg') = SourcePort_Write_move Q msg a st in send_move_loop Q msg' cs st1
      else send_move_loop Q msg cs st)"

definition SinkPort_Send_move ::
  "('q, 'a) spsc \<Rightarrow> int \<Rightarrow> 'a \<Rightarrow> nat \<Rightarrow> 'q df_store \<Rightarrow> ar_error + ('q df_store \<times> 'a)" where
  "SinkPort_Send_move Q now msg s st =
     (let st1 = set_sink s ((st_sinks st ! s)\<lparr>sk_last_msg_ts := now\<rparr>) st in
      send_move_loop Q msg (sk_consumers (st_sinks st1 ! s)) st1)"

definition SinkPort_Subscribe :: "nat \<Rightarrow> nat \<Rightarrow> 'q df_store \<Rightarrow> 'q df_store" where
  "SinkPort_Subscribe user s st =
     (let sk = st_sinks st ! s in
      notify_at (sk_notifier sk) kKERNEL_EVENT_SINK_SUBSCRIPTION
        (set_sink s (sk\<lparr>sk_port := Port_Subscribe user (sk_port sk)\<rparr>) st))"

definition SinkPort_Unsubscribe :: "nat \<Rightarrow> nat \<Rightarrow> 'q df_store \<Rightarrow> 'q df_store" where
  "SinkPort_Unsubscribe user s st =
     (let sk = st_sinks st ! s; has_notify = \<not> Port_SubscribersEmpty (sk_port sk);
          st1 = set_sink s (sk\<lparr>sk_port := Port_Unsubscribe user (sk_port sk)\<rparr>) st in
      if has_notify then notify_at (sk_notifier sk) kKERNEL_EVENT_SINK_UNSUBSCRIPTION st1 else st1)"

text \<open>The set of sink ports of a kernel, by name.\<close>

record Sink =
  snk_notifier :: "nat option"
  snk_port_map :: "(string \<times> nat) list"

definition Sink_Add :: "string \<Rightarrow> Sink \<Rightarrow> 'q df_store \<Rightarrow> ar_error + (nat \<times> Sink \<times> 'q df_store)" where
  "Sink_Add name snk st =
     (if map_of (snk_port_map snk) name \<noteq> None then Inl (runtime_error ''Source port already exists'')
      else
        let a = length (st_sinks st) in
        Inr (a, snk\<lparr>snk_port_map := snk_port_map snk @ [(name, a)]\<rparr>,
             st\<lparr>st_sinks := st_sinks st @ [new_SinkPort (snk_notifier snk) name]\<rparr>))"

definition Sink_At :: "string \<Rightarrow> Sink \<Rightarrow> ar_error + nat" where
  "Sink_At name snk = (case map_of (snk_port_map snk) name of
     None \<Rightarrow> Inl (runtime_error ''Source port not found'') | Some a \<Rightarrow> Inr a)"

definition Sink_Subscribe :: "string \<Rightarrow> nat \<Rightarrow> Sink \<Rightarrow> 'q df_store \<Rightarrow> ar_error + 'q df_store" where
  "Sink_Subscribe name user snk st = (case Sink_At name snk of Inl e \<Rightarrow> Inl e
     | Inr a \<Rightarrow> Inr (SinkPort_Subscribe user a st))"

definition Sink_Unsubscribe :: "string \<Rightarrow> nat \<Rightarrow> Sink \<Rightarrow> 'q df_store \<Rightarrow> ar_error + 'q df_store" where
  "Sink_Unsubscribe name user snk st = (case Sink_At name snk of Inl e \<Rightarrow> Inl e
     | Inr a \<Rightarrow> Inr (SinkPort_Unsubscribe user a st))"

definition Sink_UnsubscribeAll :: "Sink \<Rightarrow> 'q df_store \<Rightarrow> 'q df_store" where
  "Sink_UnsubscribeAll snk st =
     fold (\<lambda>a st. set_sink a ((st_sinks st ! a)\<lparr>sk_port := Port_UnsubscribeAll (sk_port (st_sinks st ! a))\<rparr>) st)
       (map snd (snk_port_map snk)) st"

text \<open>The body of its loop is a comment.\<close>

definition Sink_DisconnectAll :: "Sink \<Rightarrow> 'q df_store \<Rightarrow> 'q df_store" where
  "Sink_DisconnectAll snk st = st"

definition Sink_SubscribersEmpty :: "Sink \<Rightarrow> 'q df_store \<Rightarrow> bool" where
  "Sink_SubscribersEmpty snk st =
     list_all (\<lambda>a. Port_SubscribersEmpty (sk_port (st_sinks st ! a))) (map snd (snk_port_map snk))"

text \<open>A port behind a base pointer, and the controller that subscribes to several of them.\<close>

datatype port_ptr = SourcePtr nat | SinkPtr nat

fun port_Subscribe :: "nat \<Rightarrow> port_ptr \<Rightarrow> 'q df_store \<Rightarrow> 'q df_store" where
  "port_Subscribe user (SinkPtr s) st = SinkPort_Subscribe user s st"
| "port_Subscribe user (SourcePtr a) st =
     set_source a ((st_sources st ! a)\<lparr>sp_port := Port_Subscribe user (sp_port (st_sources st ! a))\<rparr>) st"

fun port_Unsubscribe :: "nat \<Rightarrow> port_ptr \<Rightarrow> 'q df_store \<Rightarrow> 'q df_store" where
  "port_Unsubscribe user (SinkPtr s) st = SinkPort_Unsubscribe user s st"
| "port_Unsubscribe user (SourcePtr a) st =
     set_source a ((st_sources st ! a)\<lparr>sp_port := Port_Unsubscribe user (sp_port (st_sources st ! a))\<rparr>) st"

type_synonym PortController = "port_ptr list"

definition AddUsedPort :: "port_ptr \<Rightarrow> PortController \<Rightarrow> PortController" where
  "AddUsedPort p c = c @ [p]"

definition PortController_Subscribe :: "nat \<Rightarrow> PortController \<Rightarrow> 'q df_store \<Rightarrow> 'q df_store" where
  "PortController_Subscribe user c st = fold (port_Subscribe user) c st"

definition PortController_Unsubscribe :: "nat \<Rightarrow> PortController \<Rightarrow> 'q df_store \<Rightarrow> 'q df_store" where
  "PortController_Unsubscribe user c st = fold (port_Unsubscribe user) c st"

section \<open>The contract of the queue of a source port\<close>

definition pop_read :: "('q, 'a) spsc \<Rightarrow> 'q \<Rightarrow> 'a option \<times> 'q" where
  "pop_read Q q = (case q_pop Q q of None \<Rightarrow> (None, q) | Some (m, q') \<Rightarrow> (Some m, q'))"

locale spsc_queue = bounded_fifo "q_push Q" "pop_read Q" items cap ok
  for Q :: "('q, 'a) spsc" and items :: "'q \<Rightarrow> 'a list" and cap :: "'q \<Rightarrow> nat" and ok :: "'q \<Rightarrow> bool" +
  assumes new_queue: "0 < c \<Longrightarrow> c < 2 ^ 31 \<Longrightarrow> ok (q_new Q c) \<and> items (q_new Q c) = [] \<and> cap (q_new Q c) = c"
    and empty_items: "ok q \<Longrightarrow> q_empty Q q \<longleftrightarrow> items q = []"
    and push_move: "ok q \<Longrightarrow> q_push_move Q m q = (k, q', m') \<Longrightarrow> q_push Q m q = (k, q')"
begin

lemma pop_Some:
  assumes "ok q" "items q = m # ms"
  shows "\<exists>q'. q_pop Q q = Some (m, q') \<and> ok q' \<and> items q' = ms"
  using read_items [OF assms(1)] read_rest [OF assms(1)] read_ok [OF assms(1)] assms(2)
  by (auto simp: pop_read_def split: option.splits prod.splits)

lemma flush_terminates:
  assumes "ok q" shows "\<exists>q'. sp_flush_loop Q q = Some q' \<and> ok q' \<and> items q' = []"
  using assms
proof (induction "items q" arbitrary: q)
  case Nil
  then show ?case by (subst sp_flush_loop.simps) (simp add: empty_items)
next
  case (Cons m ms)
  then obtain q' where "q_pop Q q = Some (m, q')" "ok q'" "items q' = ms"
    using pop_Some [of q m ms] by auto
  then show ?case
    using Cons.hyps(1) [of q'] Cons.hyps(2) Cons.prems
    by (subst sp_flush_loop.simps) (simp add: empty_items flip: Cons.hyps(2))
qed

lemma push_facts:
  assumes "ok q"
  shows "ok (snd (q_push Q m q))"
    "items (snd (q_push Q m q)) = (if length (items q) < cap q then items q @ [m] else items q)"
    "fst (q_push Q m q) \<longleftrightarrow> length (items q) < cap q"
  using write_ok [OF assms] write_fits [OF assms] write_full [OF assms] by auto

end

text \<open>The bounded queue of the shared buffers has the operations of the library's queue.\<close>

definition fifo_ops :: "('a \<Rightarrow> 'a) \<Rightarrow> ('a FIFOBuffer, 'a) spsc" where
  "fifo_ops moved = \<lparr>q_new = new_FIFOBuffer, q_push = FIFO_write_accepts,
     q_push_move = (\<lambda>m b. let (e, b', m') = FIFO_Write_move moved m b in (error_code e = 0, b', m')),
     q_pop = (\<lambda>b. case FIFO_Read b of (None, b') \<Rightarrow> None | (Some m, b') \<Rightarrow> Some (m, b')),
     q_empty = FIFO_Empty\<rparr>"

lemma pop_read_fifo: "pop_read (fifo_ops moved) = FIFO_Read"
  by (rule ext) (simp add: pop_read_def fifo_ops_def FIFO_Read_def split: list.splits)

interpretation port_queue: spsc_queue "fifo_ops moved" fb_queue fifo_limit "\<lambda>_. True"
  for moved :: "'a \<Rightarrow> 'a"
proof -
  have push: "q_push (fifo_ops moved) = FIFO_write_accepts" by (simp add: fifo_ops_def)
  show "spsc_queue (fifo_ops moved) fb_queue fifo_limit (\<lambda>_. True)"
    unfolding spsc_queue_def push pop_read_fifo
  proof (intro conjI fifo.bounded_fifo_axioms, unfold_locales)
    show "True \<and> fb_queue (q_new (fifo_ops moved) c) = [] \<and> fifo_limit (q_new (fifo_ops moved) c) = c"
      if "0 < c" "c < 2 ^ 31" for c
      using that fifo_limit_new [of c, where 'a = 'a] by (simp add: fifo_ops_def) (simp add: new_FIFOBuffer_def)
  qed (auto simp: fifo_ops_def FIFO_Empty_def FIFO_Write_move_def FIFO_Write_def Let_def split: if_splits)
qed

section \<open>Sending\<close>

definition after_write :: "('q, 'a) spsc \<Rightarrow> 'a \<Rightarrow> 'q SourcePort \<Rightarrow> 'q SourcePort" where
  "after_write Q msg sp = sp\<lparr>sp_queue := snd (q_push Q msg (sp_queue sp)),
     sp_skip_counter := (if fst (q_push Q msg (sp_queue sp)) then sp_skip_counter sp
       else map_option Suc (sp_skip_counter sp))\<rparr>"

lemma after_write_frame [simp]:
  "sp_active (after_write Q msg sp) = sp_active sp" "sp_notifier (after_write Q msg sp) = sp_notifier sp"
  "sp_queue (after_write Q msg sp) = snd (q_push Q msg (sp_queue sp))"
  by (simp_all add: after_write_def)

definition notified_at :: "'q df_store \<Rightarrow> nat \<Rightarrow> KernelEvent \<Rightarrow> bool" where
  "notified_at st k e \<longleftrightarrow> HasState (ucast (dn_notify_state (st_notifiers st ! k))) (event_value e)"

lemma notify_at_frame [simp]:
  "st_sources (notify_at p e st) = st_sources st" "st_sinks (notify_at p e st) = st_sinks st"
  "length (st_notifiers (notify_at p e st)) = length (st_notifiers st)"
  by (simp_all add: notify_at_def split: option.splits)

lemma set_frame [simp]:
  "st_sources (set_sink s sk st) = st_sources st" "st_sinks (set_source a sp st) = st_sinks st"
  "st_notifiers (set_source a sp st) = st_notifiers st" "st_notifiers (set_sink s sk st) = st_notifiers st"
  "st_sources (set_source a sp st) = (st_sources st)[a := sp]" "st_sinks (set_sink s sk st) = (st_sinks st)[s := sk]"
  by (simp_all add: set_source_def set_sink_def)

lemma notified_set [simp]:
  "notified_at (set_source a sp st) k e = notified_at st k e" "notified_at (set_sink s sk st) k e = notified_at st k e"
  by (simp_all add: notified_at_def)

lemma notified_mono: "notified_at st k e \<Longrightarrow> notified_at (notify_at p e' st) k e"
proof (cases "\<exists>j. p = Some j \<and> j = k \<and> k < length (st_notifiers st)")
  case True
  moreover assume "notified_at st k e"
  ultimately show ?thesis
    by (auto simp: notified_at_def notify_at_def Notify_state intro: HasState_more)
next
  case False
  moreover assume "notified_at st k e"
  ultimately have "st_notifiers (notify_at p e' st) ! k = st_notifiers st ! k"
    by (cases p; cases "p = Some k") (auto simp: notify_at_def list_update_beyond)
  then show ?thesis using \<open>notified_at st k e\<close> by (simp add: notified_at_def)
qed

lemma notified_now: "k < length (st_notifiers st) \<Longrightarrow> notified_at (notify_at (Some k) e st) k e"
  using event_bits_nonzero(2) [OF event_bits_values]
  by (simp add: notified_at_def notify_at_def Notify_state)

lemma Write_facts:
  shows "st_sources (snd (SourcePort_Write Q msg a st)) = (st_sources st)[a := after_write Q msg (st_sources st ! a)]"
    "st_sinks (snd (SourcePort_Write Q msg a st)) = st_sinks st"
    "length (st_notifiers (snd (SourcePort_Write Q msg a st))) = length (st_notifiers st)"
    "notified_at st k e \<Longrightarrow> notified_at (snd (SourcePort_Write Q msg a st)) k e"
    "sp_notifier (st_sources st ! a) = Some k \<Longrightarrow> k < length (st_notifiers st)
      \<Longrightarrow> notified_at (snd (SourcePort_Write Q msg a st)) k kKERNEL_EVENT_READ_SOURCE"
  by (simp_all add: SourcePort_Write_def after_write_def Let_def split_beta notified_mono notified_now)

lemma Write_result: "fst (SourcePort_Write Q msg a st) = (if fst (q_push Q msg (sp_queue (st_sources st ! a))) then 0 else 1)"
  by (simp add: SourcePort_Write_def Let_def split_beta)

lemma send_loop_frame:
  assumes "send_loop Q msg cs st = Inr st'"
  shows "st_sinks st' = st_sinks st \<and> length (st_notifiers st') = length (st_notifiers st)
    \<and> (notified_at st k e \<longrightarrow> notified_at st' k e)"
  using assms by (induction Q msg cs st rule: send_loop.induct) (auto simp: Write_facts split: if_splits)

lemma send_loop_sources:
  assumes "distinct as" "\<forall>a\<in>set as. a < length (st_sources st)"
  shows "\<exists>st'. send_loop Q msg (map Some as) st = Inr st' \<and> length (st_sources st') = length (st_sources st)
     \<and> (\<forall>b<length (st_sources st). st_sources st' ! b =
          (if b \<in> set as \<and> sp_active (st_sources st ! b) then after_write Q msg (st_sources st ! b) else st_sources st ! b))
     \<and> (\<forall>b\<in>set as. sp_active (st_sources st ! b) \<longrightarrow> (\<forall>k<length (st_notifiers st). sp_notifier (st_sources st ! b) = Some k
          \<longrightarrow> notified_at st' k kKERNEL_EVENT_READ_SOURCE))"
  using assms
proof (induction as arbitrary: st)
  case (Cons a as)
  let ?st1 = "if sp_active (st_sources st ! a) then snd (SourcePort_Write Q msg a st) else st"
  have src1: "length (st_sources ?st1) = length (st_sources st)"
    "length (st_notifiers ?st1) = length (st_notifiers st)"
    "\<And>b. b \<noteq> a \<Longrightarrow> st_sources ?st1 ! b = st_sources st ! b"
    "a < length (st_sources st) \<Longrightarrow> st_sources ?st1 ! a =
      (if sp_active (st_sources st ! a) then after_write Q msg (st_sources st ! a) else st_sources st ! a)"
    by (auto simp: Write_facts)
  obtain st' where st': "send_loop Q msg (map Some as) ?st1 = Inr st'"
    "length (st_sources st') = length (st_sources st)"
    "\<forall>b<length (st_sources st). st_sources st' ! b =
      (if b \<in> set as \<and> sp_active (st_sources ?st1 ! b) then after_write Q msg (st_sources ?st1 ! b) else st_sources ?st1 ! b)"
    "\<forall>b\<in>set as. sp_active (st_sources ?st1 ! b) \<longrightarrow> (\<forall>k<length (st_notifiers st). sp_notifier (st_sources ?st1 ! b) = Some k
      \<longrightarrow> notified_at st' k kKERNEL_EVENT_READ_SOURCE)"
    using Cons.IH [of ?st1] Cons.prems by (auto simp only: src1 distinct.simps list.set(2) insert_iff)
  have loop: "send_loop Q msg (map Some (a # as)) st = Inr st'"
    using st'(1) by (simp add: SourcePort_IsActive_def split: if_splits)
  have a: "a \<notin> set as" "a < length (st_sources st)" using Cons.prems by auto
  have now: "notified_at st' k kKERNEL_EVENT_READ_SOURCE"
    if "sp_active (st_sources st ! a)" "k < length (st_notifiers st)" "sp_notifier (st_sources st ! a) = Some k" for k
    using send_loop_frame [OF st'(1)] Write_facts(5) [OF that(3,2), of Q msg] that(1) by simp
  show ?case
  proof (intro exI [of _ st'] conjI loop st'(2) allI ballI impI)
    fix b assume "b < length (st_sources st)"
    then show "st_sources st' ! b = (if b \<in> set (a # as) \<and> sp_active (st_sources st ! b)
        then after_write Q msg (st_sources st ! b) else st_sources st ! b)"
      using st'(3) a src1(3) [of b] src1(4) [OF a(2)] by (cases "b = a") auto
  next
    fix b k assume "b \<in> set (a # as)" "sp_active (st_sources st ! b)" "k < length (st_notifiers st)"
      "sp_notifier (st_sources st ! b) = Some k"
    then show "notified_at st' k kKERNEL_EVENT_READ_SOURCE"
      using st'(4) now [of k] src1(3) [of b] by (cases "b = a") auto
  qed
qed simp

text \<open>\<open>Send(T &&)\<close> does what \<open>Send(const T &)\<close> does when the queue's push leaves its argument.\<close>

lemma send_move_loop_copies:
  assumes "\<And>m q. q_push_move Q m q = (fst (q_push Q m q), snd (q_push Q m q), m)"
  shows "send_move_loop Q msg cs st = map_sum id (\<lambda>st'. (st', msg)) (send_loop Q msg cs st)"
proof -
  have "SourcePort_Write_move Q msg a st = (fst (SourcePort_Write Q msg a st), snd (SourcePort_Write Q msg a st), msg)" for a st
    by (simp add: SourcePort_Write_move_def SourcePort_Write_def assms Let_def split_beta)
  then show ?thesis by (induction Q msg cs st rule: send_loop.induct) (simp_all add: Let_def)
qed

section \<open>Connections and names\<close>

text \<open>Calls of \<open>Connect\<close> and \<open>Disconnect\<close> with consumers that exist; one that throws changes nothing.\<close>

datatype conn_call = CConnect nat | CDisconnect nat | CDisconnectAll

fun conn_step :: "conn_call \<Rightarrow> SinkPort \<Rightarrow> SinkPort" where
  "conn_step (CConnect c) sk = (case SinkPort_Connect (Some c) sk of Inl e \<Rightarrow> sk | Inr sk' \<Rightarrow> sk')"
| "conn_step (CDisconnect c) sk = SinkPort_Disconnect (Some c) sk"
| "conn_step CDisconnectAll sk = SinkPort_DisconnectAll sk"

fun conn_spec :: "conn_call \<Rightarrow> nat list \<Rightarrow> nat list" where
  "conn_spec (CConnect c) as = (if c \<in> set as then as else as @ [c])"
| "conn_spec (CDisconnect c) as = removeAll c as"
| "conn_spec CDisconnectAll as = []"

lemma same_consumer_Some [simp]: "same_consumer (Some c) (Some p) \<longleftrightarrow> c = p"
  by (simp add: same_consumer_def)

lemma Connect_iff:
  "sk_consumers sk = map Some as \<Longrightarrow> SinkPort_Connect (Some c) sk =
     (if c \<in> set as then Inl (runtime_error ''Consumer already exist'') else Inr (sk\<lparr>sk_consumers := map Some (as @ [c])\<rparr>))"
  by (auto simp: SinkPort_Connect_def list_ex_iff)

lemma conn_step_refines:
  assumes "sk_consumers sk = map Some as"
  shows "sk_consumers (conn_step call sk) = map Some (conn_spec call as)"
  using assms
  by (cases call) (simp_all add: Connect_iff SinkPort_Disconnect_def SinkPort_DisconnectAll_def filter_map o_def
      removeAll_filter_not_eq)

lemma conn_run_refines:
  "sk_consumers sk = map Some as \<Longrightarrow> sk_consumers (fold conn_step calls sk) = map Some (fold conn_spec calls as)"
  by (induction calls arbitrary: sk as) (auto dest: conn_step_refines)

lemma conn_spec_distinct: "distinct as \<Longrightarrow> distinct (fold conn_spec calls as)"
proof (induction calls arbitrary: as)
  case (Cons call calls)
  have "distinct (conn_spec call as)" using Cons.prems by (cases call) (auto simp: distinct_removeAll)
  then show ?case using Cons.IH by simp
qed simp

text \<open>A set of ports by name, as \<open>Source\<close> and \<open>Sink\<close> keep it.\<close>

fun add_all :: "(string \<Rightarrow> 's \<Rightarrow> ar_error + (nat \<times> 's)) \<Rightarrow> string list \<Rightarrow> 's \<Rightarrow> ar_error + (nat list \<times> 's)" where
  "add_all add [] s = Inr ([], s)"
| "add_all add (nm # nms) s = (case add nm s of Inl e \<Rightarrow> Inl e
     | Inr (a, s1) \<Rightarrow> map_sum id (map_prod (Cons a) id) (add_all add nms s1))"

locale port_registry =
  fixes add :: "string \<Rightarrow> 's \<Rightarrow> ar_error + (nat \<times> 's)" and at :: "string \<Rightarrow> 's \<Rightarrow> ar_error + nat"
    and ok :: "'s \<Rightarrow> bool"
  assumes add_known: "at nm s = Inr a \<Longrightarrow> add nm s = Inl (runtime_error ''Source port already exists'')"
    and add_new: "ok s \<Longrightarrow> at nm s = Inl e \<Longrightarrow> \<exists>a s'. add nm s = Inr (a, s') \<and> ok s' \<and> at nm s' = Inr a
      \<and> (\<forall>nm'. nm' \<noteq> nm \<longrightarrow> at nm' s' = at nm' s) \<and> (\<forall>nm'. at nm' s \<noteq> Inr a)"
begin

lemma adds_lookup:
  assumes "ok s" "distinct nms" "\<forall>nm\<in>set nms. \<exists>e. at nm s = Inl e"
  shows "\<exists>as s'. add_all add nms s = Inr (as, s') \<and> distinct as \<and> list_all2 (\<lambda>nm a. at nm s' = Inr a) nms as
     \<and> (\<forall>nm. nm \<notin> set nms \<longrightarrow> at nm s' = at nm s) \<and> (\<forall>nm. \<forall>a\<in>set as. at nm s \<noteq> Inr a)"
  using assms
proof (induction nms arbitrary: s)
  case (Cons nm nms)
  then obtain a s1 where 1: "add nm s = Inr (a, s1)" "ok s1" "at nm s1 = Inr a"
    "\<forall>nm'. nm' \<noteq> nm \<longrightarrow> at nm' s1 = at nm' s" "\<forall>nm'. at nm' s \<noteq> Inr a"
    using add_new [of s nm] by (metis list.set_intros(1))
  obtain as s' where 2: "add_all add nms s1 = Inr (as, s')" "distinct as" "list_all2 (\<lambda>nm a. at nm s' = Inr a) nms as"
    "\<forall>nm. nm \<notin> set nms \<longrightarrow> at nm s' = at nm s1" "\<forall>nm. \<forall>a\<in>set as. at nm s1 \<noteq> Inr a"
    using Cons.IH [of s1] Cons.prems 1(2,4) by fastforce
  have "a \<notin> set as" "at nm s' = Inr a" using 1(3) 2(4,5) Cons.prems(2) by auto
  moreover have "\<forall>nm'. \<forall>b\<in>set as. at nm' s \<noteq> Inr b"
    using 2(5) 1(4) Cons.prems(3) by (metis list.set_intros(1) sum.distinct(1))
  ultimately show ?case using 1 2 by auto
qed simp

end

abbreviation source_add :: "('q, 'a) spsc \<Rightarrow> string \<Rightarrow> Source \<times> 'q df_store \<Rightarrow> ar_error + (nat \<times> Source \<times> 'q df_store)" where
  "source_add Q nm s \<equiv> Source_Add Q nm kFIFO_BUFFER (fst s) (snd s)"

abbreviation sink_add :: "string \<Rightarrow> Sink \<times> 'q df_store \<Rightarrow> ar_error + (nat \<times> Sink \<times> 'q df_store)" where
  "sink_add nm s \<equiv> Sink_Add nm (fst s) (snd s)"

definition source_ok :: "Source \<Rightarrow> 'q df_store \<Rightarrow> bool" where
  "source_ok src st \<longleftrightarrow> (\<forall>a\<in>set (map snd (src_port_map src)). a < length (st_sources st))"

definition sink_ok :: "Sink \<Rightarrow> 'q df_store \<Rightarrow> bool" where
  "sink_ok snk st \<longleftrightarrow> (\<forall>a\<in>set (map snd (snk_port_map snk)). a < length (st_sinks st))"

interpretation source_names: port_registry "source_add Q" "\<lambda>nm s. Source_At nm (fst s)" "\<lambda>s. source_ok (fst s) (snd s)"
  for Q :: "('q, 'a) spsc"
  by unfold_locales
    (auto simp: Source_Add_def Source_Add_capacity_def Source_At_def source_ok_def Let_def map_add_def
      dest!: map_of_SomeD split: option.splits if_splits)

interpretation sink_names: port_registry sink_add "\<lambda>nm s. Sink_At nm (fst s)" "\<lambda>s. sink_ok (fst s) (snd s)"
  by unfold_locales
    (auto simp: Sink_Add_def Sink_At_def sink_ok_def Let_def map_add_def
      dest!: map_of_SomeD split: option.splits if_splits)

section \<open>Subscriptions\<close>

fun port_valid :: "'q df_store \<Rightarrow> port_ptr \<Rightarrow> bool" where
  "port_valid st (SourcePtr a) \<longleftrightarrow> a < length (st_sources st)"
| "port_valid st (SinkPtr s) \<longleftrightarrow> s < length (st_sinks st)"

fun port_at :: "'q df_store \<Rightarrow> port_ptr \<Rightarrow> Port" where
  "port_at st (SourcePtr a) = sp_port (st_sources st ! a)"
| "port_at st (SinkPtr s) = sk_port (st_sinks st ! s)"

text \<open>The counter is the number of subscribers.\<close>

definition port_inv :: "Port \<Rightarrow> bool" where
  "port_inv p \<longleftrightarrow> finite (port_subscribers p) \<and> port_subscribers_count p = card (port_subscribers p)"

lemma port_inv_ops:
  "port_inv (new_Port name)" "port_inv p \<Longrightarrow> port_inv (Port_Subscribe u p)" "port_inv p \<Longrightarrow> port_inv (Port_Unsubscribe u p)"
  "port_inv (Port_UnsubscribeAll p)"
  by (simp_all add: port_inv_def new_Port_def Port_Subscribe_def Port_Unsubscribe_def Port_UnsubscribeAll_def Let_def)

lemma SubscribersEmpty_iff: "port_inv p \<Longrightarrow> Port_SubscribersEmpty p \<longleftrightarrow> port_subscribers p = {}"
  by (auto simp: port_inv_def Port_SubscribersEmpty_def)

lemma subscribe_idem [simp]: "Port_Subscribe u (Port_Subscribe u p) = Port_Subscribe u p"
  "Port_Unsubscribe u (Port_Unsubscribe u p) = Port_Unsubscribe u p"
  by (simp_all add: Port_Subscribe_def Port_Unsubscribe_def Let_def)

lemma unsubscribe_subscribe:
  "port_inv p \<Longrightarrow> u \<notin> port_subscribers p \<Longrightarrow> Port_Unsubscribe u (Port_Subscribe u p) = p"
  by (simp add: port_inv_def Port_Subscribe_def Port_Unsubscribe_def Let_def)

lemma subscribe_frame [simp]:
  "length (st_sources (port_Subscribe u p st)) = length (st_sources st)"
  "length (st_sinks (port_Subscribe u p st)) = length (st_sinks st)"
  "length (st_notifiers (port_Subscribe u p st)) = length (st_notifiers st)"
  "length (st_sources (port_Unsubscribe u p st)) = length (st_sources st)"
  "length (st_sinks (port_Unsubscribe u p st)) = length (st_sinks st)"
  "length (st_notifiers (port_Unsubscribe u p st)) = length (st_notifiers st)"
  by (cases p; simp add: SinkPort_Subscribe_def SinkPort_Unsubscribe_def Let_def)+

lemma port_valid_sub [simp]: "port_valid (port_Subscribe u p st) q = port_valid st q"
  "port_valid (port_Unsubscribe u p st) q = port_valid st q"
  by (cases q; simp)+

lemma port_at_sub:
  "port_valid st p \<Longrightarrow> port_at (port_Subscribe u p st) q = (if q = p then Port_Subscribe u (port_at st q) else port_at st q)"
  "port_valid st p \<Longrightarrow> port_at (port_Unsubscribe u p st) q = (if q = p then Port_Unsubscribe u (port_at st q) else port_at st q)"
  by (cases p; cases q; simp add: SinkPort_Subscribe_def SinkPort_Unsubscribe_def Let_def nth_list_update)+

lemma sink_notifier_sub [simp]:
  "sk_notifier (st_sinks (port_Subscribe u p st) ! s) = sk_notifier (st_sinks st ! s)"
  "sk_notifier (st_sinks (port_Unsubscribe u p st) ! s) = sk_notifier (st_sinks st ! s)"
proof -
  have "sk_notifier (xs[i := (xs ! i)\<lparr>sk_port := q\<rparr>] ! s) = sk_notifier (xs ! s)" for xs :: "SinkPort list" and i q
    by (cases "i < length xs") (auto simp: nth_list_update list_update_beyond)
  then show "sk_notifier (st_sinks (port_Subscribe u p st) ! s) = sk_notifier (st_sinks st ! s)"
    "sk_notifier (st_sinks (port_Unsubscribe u p st) ! s) = sk_notifier (st_sinks st ! s)"
    by (cases p; simp add: SinkPort_Subscribe_def SinkPort_Unsubscribe_def Let_def)+
qed

lemma notified_sub_mono:
  "notified_at st k e \<Longrightarrow> notified_at (port_Subscribe u p st) k e"
  "notified_at st k e \<Longrightarrow> notified_at (port_Unsubscribe u p st) k e"
  by (cases p; simp add: SinkPort_Subscribe_def SinkPort_Unsubscribe_def Let_def notified_mono)+

lemma notified_sub_now:
  assumes "sk_notifier (st_sinks st ! s) = Some k" "k < length (st_notifiers st)"
  shows "notified_at (port_Subscribe u (SinkPtr s) st) k kKERNEL_EVENT_SINK_SUBSCRIPTION"
    "\<not> Port_SubscribersEmpty (sk_port (st_sinks st ! s))
       \<Longrightarrow> notified_at (port_Unsubscribe u (SinkPtr s) st) k kKERNEL_EVENT_SINK_UNSUBSCRIPTION"
  using assms by (simp_all add: SinkPort_Subscribe_def SinkPort_Unsubscribe_def Let_def notified_now)

lemma controller_subscribe:
  assumes "\<forall>p\<in>set c. port_valid st p"
  shows "port_at (PortController_Subscribe u c st) q = (if q \<in> set c then Port_Subscribe u (port_at st q) else port_at st q)
    \<and> (port_valid (PortController_Subscribe u c st) q \<longleftrightarrow> port_valid st q)"
  unfolding PortController_Subscribe_def using assms
  by (induction c arbitrary: st) (auto simp: port_at_sub)

lemma controller_unsubscribe:
  assumes "\<forall>p\<in>set c. port_valid st p"
  shows "port_at (PortController_Unsubscribe u c st) q = (if q \<in> set c then Port_Unsubscribe u (port_at st q) else port_at st q)"
  unfolding PortController_Unsubscribe_def using assms
  by (induction c arbitrary: st) (auto simp: port_at_sub)

lemma controller_frame:
  "sk_notifier (st_sinks (PortController_Subscribe u c st) ! s) = sk_notifier (st_sinks st ! s)"
  "length (st_notifiers (PortController_Subscribe u c st)) = length (st_notifiers st)"
  "notified_at st k e \<Longrightarrow> notified_at (PortController_Subscribe u c st) k e"
  "notified_at st k e \<Longrightarrow> notified_at (PortController_Unsubscribe u c st) k e"
  unfolding PortController_Subscribe_def PortController_Unsubscribe_def
  by (induction c arbitrary: st) (simp_all add: notified_sub_mono)

lemma controller_notified:
  assumes "SinkPtr s \<in> set c" "sk_notifier (st_sinks st ! s) = Some k" "k < length (st_notifiers st)"
  shows "notified_at (PortController_Subscribe u c st) k kKERNEL_EVENT_SINK_SUBSCRIPTION"
  using assms
proof (induction c arbitrary: st)
  case (Cons p c)
  show ?case
  proof (cases "p = SinkPtr s")
    case True
    then show ?thesis
      using controller_frame(3) [OF notified_sub_now(1) [OF Cons.prems(2,3), of u], of u c]
      by (simp add: PortController_Subscribe_def)
  next
    case False
    then show ?thesis using Cons.IH [of "port_Subscribe u p st"] Cons.prems by (simp add: PortController_Subscribe_def)
  qed
qed simp

lemma controller_unnotified:
  assumes "SinkPtr s \<in> set c" "sk_notifier (st_sinks st ! s) = Some k" "k < length (st_notifiers st)"
    "\<not> Port_SubscribersEmpty (sk_port (st_sinks st ! s))" "\<forall>p\<in>set c. port_valid st p"
  shows "notified_at (PortController_Unsubscribe u c st) k kKERNEL_EVENT_SINK_UNSUBSCRIPTION"
  using assms
proof (induction c arbitrary: st)
  case (Cons p c)
  show ?case
  proof (cases "p = SinkPtr s")
    case True
    then show ?thesis
      using controller_frame(4) [OF notified_sub_now(2) [OF Cons.prems(2,3,4), of u], of u c]
      by (simp add: PortController_Unsubscribe_def)
  next
    case False
    then have "sk_port (st_sinks (port_Unsubscribe u p st) ! s) = sk_port (st_sinks st ! s)"
      using port_at_sub(2) [of st p u "SinkPtr s"] Cons.prems(5) by simp
    then show ?thesis
      using False Cons.IH [of "port_Unsubscribe u p st"] Cons.prems by (simp add: PortController_Unsubscribe_def)
  qed
qed simp

section \<open>Flushing\<close>

context spsc_queue
begin

lemma flush_port:
  assumes "ok (sp_queue sp)"
  shows "\<exists>q'. SourcePort_Flush Q sp = Some (sp\<lparr>sp_queue := q'\<rparr>) \<and> ok q' \<and> items q' = []"
  using flush_terminates [OF assms] by (auto simp: SourcePort_Flush_def)

lemma flush_loop_empties:
  assumes "\<forall>a\<in>set as. a < length (st_sources st) \<and> ok (sp_queue (st_sources st ! a))"
  shows "\<exists>st'. Source_Flush_loop Q as st = Some st' \<and> length (st_sources st') = length (st_sources st)
     \<and> st_sinks st' = st_sinks st \<and> st_notifiers st' = st_notifiers st
     \<and> (\<forall>b. st_sources st' ! b = (st_sources st ! b)\<lparr>sp_queue := sp_queue (st_sources st' ! b)\<rparr>)
     \<and> (\<forall>b. if b \<in> set as then ok (sp_queue (st_sources st' ! b)) \<and> items (sp_queue (st_sources st' ! b)) = []
          else st_sources st' ! b = st_sources st ! b)"
  using assms
proof (induction as arbitrary: st)
  case (Cons a as)
  obtain q' where q': "SourcePort_Flush Q (st_sources st ! a) = Some ((st_sources st ! a)\<lparr>sp_queue := q'\<rparr>)" "ok q'" "items q' = []"
    using flush_port Cons.prems by force
  let ?st1 = "set_source a ((st_sources st ! a)\<lparr>sp_queue := q'\<rparr>) st"
  have a: "a < length (st_sources st)" using Cons.prems by simp
  have src1: "st_sources ?st1 ! b = (if b = a then (st_sources st ! a)\<lparr>sp_queue := q'\<rparr> else st_sources st ! b)" for b
    using a by simp
  have "\<forall>b\<in>set as. b < length (st_sources ?st1) \<and> ok (sp_queue (st_sources ?st1 ! b))"
    using Cons.prems q'(2) by (auto simp: nth_list_update)
  from Cons.IH [OF this] obtain st' where st': "Source_Flush_loop Q as ?st1 = Some st'"
    "length (st_sources st') = length (st_sources ?st1)" "st_sinks st' = st_sinks ?st1" "st_notifiers st' = st_notifiers ?st1"
    "\<And>b. st_sources st' ! b = (st_sources ?st1 ! b)\<lparr>sp_queue := sp_queue (st_sources st' ! b)\<rparr>"
    "\<And>b. if b \<in> set as then ok (sp_queue (st_sources st' ! b)) \<and> items (sp_queue (st_sources st' ! b)) = []
          else st_sources st' ! b = st_sources ?st1 ! b"
    by blast
  have "st_sources st' ! b = (st_sources st ! b)\<lparr>sp_queue := sp_queue (st_sources st' ! b)\<rparr>" for b
    using st'(5) [of b] unfolding src1 by (cases "b = a") simp_all
  moreover have "if b \<in> set (a # as) then ok (sp_queue (st_sources st' ! b)) \<and> items (sp_queue (st_sources st' ! b)) = []
          else st_sources st' ! b = st_sources st ! b" for b
    using st'(6) [of b] q'(2,3) unfolding src1 by (cases "b = a") (auto split: if_splits)
  ultimately show ?case using st'(1-4) q'(1) by auto
qed simp

end

section \<open>Properties\<close>

text \<open>C17: \<open>Send\<close> on a sink port appends the message to the queue of every connected consumer that is
  active and has room, leaves every other queue as it is, and notifies the kernel of every
  active connected consumer, also of one whose queue is full; it records the time.\<close>

theorem sink_send_delivers:
  assumes "spsc_queue Q items cap ok" and "s < length (st_sinks st)"
    and "sk_consumers (st_sinks st ! s) = map Some as" and "distinct as"
    and "\<forall>a\<in>set as. a < length (st_sources st) \<and> ok (sp_queue (st_sources st ! a))"
  shows "\<exists>st'. SinkPort_Send Q now msg s st = Inr st' \<and> sk_last_msg_ts (st_sinks st' ! s) = now
     \<and> (\<forall>b<length (st_sources st). let sp = st_sources st ! b in
          items (sp_queue (st_sources st' ! b)) =
            (if b \<in> set as \<and> sp_active sp \<and> length (items (sp_queue sp)) < cap (sp_queue sp)
             then items (sp_queue sp) @ [msg] else items (sp_queue sp))
        \<and> (\<forall>k<length (st_notifiers st). b \<in> set as \<and> sp_active sp \<and> sp_notifier sp = Some k
             \<longrightarrow> notified_at st' k kKERNEL_EVENT_READ_SOURCE))"
proof -
  let ?st1 = "set_sink s ((st_sinks st ! s)\<lparr>sk_last_msg_ts := now\<rparr>) st"
  have src1: "st_sources ?st1 = st_sources st" "st_notifiers ?st1 = st_notifiers st" by simp_all
  obtain st' where st': "send_loop Q msg (map Some as) ?st1 = Inr st'"
    "\<forall>b<length (st_sources st). st_sources st' ! b =
          (if b \<in> set as \<and> sp_active (st_sources st ! b) then after_write Q msg (st_sources st ! b) else st_sources st ! b)"
    "\<forall>b\<in>set as. sp_active (st_sources st ! b) \<longrightarrow> (\<forall>k<length (st_notifiers st). sp_notifier (st_sources st ! b) = Some k
          \<longrightarrow> notified_at st' k kKERNEL_EVENT_READ_SOURCE)"
    using send_loop_sources [OF assms(4), of ?st1 Q msg] assms(5) unfolding src1 by blast
  have "SinkPort_Send Q now msg s st = Inr st'" using st'(1) assms(2,3) by (simp add: SinkPort_Send_def Let_def)
  moreover have "sk_last_msg_ts (st_sinks st' ! s) = now" using send_loop_frame [OF st'(1)] assms(2) by simp
  moreover have "items (snd (q_push Q msg q)) = (if length (items q) < cap q then items q @ [msg] else items q)" if "ok q" for q
    using spsc_queue.push_facts [OF assms(1) that] by simp
  ultimately show ?thesis using st'(2,3) assms(5) by (auto simp: Let_def)
qed

text \<open>A kernel with two source ports, the second without room, connected to one sink.\<close>

definition demo_store :: "nat FIFOBuffer df_store" where
  "demo_store = \<lparr>st_notifiers = [new_DfNotifier],
     st_sources = [new_SourcePort (fifo_ops id) (Some 0) ''a'' kFIFO_BUFFER 1,
                   (new_SourcePort (fifo_ops id) (Some 0) ''b'' kFIFO_BUFFER 1)
                     \<lparr>sp_queue := snd (FIFO_write_accepts 5 (new_FIFOBuffer 1))\<rparr>],
     st_sinks = [(new_SinkPort (Some 0) ''s'')\<lparr>sk_consumers := [Some 0, Some 1]\<rparr>]\<rparr>"

theorem sink_send_delivers_witness:
  "\<exists>st'. SinkPort_Send (fifo_ops id) 9 7 0 demo_store = Inr st' \<and> fb_queue (sp_queue (st_sources st' ! 0)) = [7]
     \<and> fb_queue (sp_queue (st_sources st' ! 1)) = [5] \<and> notified_at st' 0 kKERNEL_EVENT_READ_SOURCE"
proof -
  have l1: "fifo_limit (new_FIFOBuffer 1 :: nat FIFOBuffer) = 1" by (simp add: fifo_limit_new)
  then have l2: "fifo_limit (snd (FIFO_write_accepts 5 (new_FIFOBuffer 1 :: nat FIFOBuffer))) = 1"
    using fifo.write_cap [where q = "new_FIFOBuffer 1 :: nat FIFOBuffer" and m = 5] by (simp del: fst_map_prod snd_map_prod One_nat_def)
  have q: "fb_queue (new_FIFOBuffer 1 :: nat FIFOBuffer) = []"
    "fb_queue (snd (FIFO_write_accepts 5 (new_FIFOBuffer 1 :: nat FIFOBuffer))) = [5]"
    using fifo.write_fits [where q = "new_FIFOBuffer 1 :: nat FIFOBuffer" and m = 5] l1 by (simp_all add: new_FIFOBuffer_def)
  have src: "sp_queue (st_sources demo_store ! 0) = new_FIFOBuffer 1" "sp_active (st_sources demo_store ! 0)"
    "sp_queue (st_sources demo_store ! 1) = snd (FIFO_write_accepts 5 (new_FIFOBuffer 1))" "length (st_sources demo_store) = 2"
    "sp_notifier (st_sources demo_store ! 0) = Some 0" "length (st_notifiers demo_store) = 1"
    by (simp_all add: demo_store_def new_SourcePort_def fifo_ops_def)
  obtain st' where st': "SinkPort_Send (fifo_ops id) 9 7 0 demo_store = Inr st'"
    "\<forall>b<length (st_sources demo_store). let sp = st_sources demo_store ! b in
          fb_queue (sp_queue (st_sources st' ! b)) =
            (if b \<in> set [0, 1] \<and> sp_active sp \<and> length (fb_queue (sp_queue sp)) < fifo_limit (sp_queue sp)
             then fb_queue (sp_queue sp) @ [7] else fb_queue (sp_queue sp))
        \<and> (\<forall>k<length (st_notifiers demo_store). b \<in> set [0, 1] \<and> sp_active sp \<and> sp_notifier sp = Some k
             \<longrightarrow> notified_at st' k kKERNEL_EVENT_READ_SOURCE)"
    using sink_send_delivers [OF port_queue.spsc_queue_axioms [of id], where s = 0 and st = demo_store and as = "[0, 1]" and now = 9 and msg = 7]
    by (auto simp: demo_store_def)
  have "fb_queue (sp_queue (st_sources st' ! 0)) = [7] \<and> notified_at st' 0 kKERNEL_EVENT_READ_SOURCE"
    using st'(2) [rule_format, of 0] by (simp add: Let_def src l1 q del: fst_map_prod snd_map_prod One_nat_def)
  moreover have "fb_queue (sp_queue (st_sources st' ! 1)) = [5]"
    using st'(2) [rule_format, of 1] by (simp add: Let_def src l2 q del: fst_map_prod snd_map_prod One_nat_def)
  ultimately show ?thesis using st'(1) by blast
qed

text \<open>Whatever consumers are connected and disconnected, the consumers of a sink port are the
  distinct ones connected and not disconnected since, in the order of connection, and
  \<open>Connect\<close> throws exactly for a consumer that is connected already.\<close>

theorem sink_connections:
  "let sk = fold conn_step calls (new_SinkPort n nm); as = fold conn_spec calls [] in
     sk_consumers sk = map Some as \<and> distinct as \<and> SinkPort_ConsumersCount sk = length as
     \<and> SinkPort_Connect (Some c) sk = (if c \<in> set as then Inl (runtime_error ''Consumer already exist'')
         else Inr (sk\<lparr>sk_consumers := sk_consumers sk @ [Some c]\<rparr>))"
proof -
  let ?sk = "fold conn_step calls (new_SinkPort n nm)"
  have "sk_consumers ?sk = map Some (fold conn_spec calls [])"
    using conn_run_refines [of "new_SinkPort n nm" "[]" calls] by (simp add: new_SinkPort_def)
  then show ?thesis
    using conn_spec_distinct [of "[]" calls] Connect_iff [of ?sk "fold conn_spec calls []" c]
    by (simp add: SinkPort_ConsumersCount_def Let_def)
qed

text \<open>Adding ports with fresh, distinct names to a source and a sink succeeds, each name then
  finds the port that was created for it, ports created under different names are different,
  and adding a name that exists throws.\<close>

theorem ports_by_name:
  assumes "source_ok src st" and "sink_ok snk st" and "distinct nms"
    and "\<forall>nm\<in>set nms. nm \<notin> fst ` set (src_port_map src) \<and> nm \<notin> fst ` set (snk_port_map snk)"
  shows "(\<exists>as src' st'. add_all (source_add Q) nms (src, st) = Inr (as, src', st') \<and> distinct as
       \<and> list_all2 (\<lambda>nm a. Source_At nm src' = Inr a) nms as
       \<and> (\<forall>nm\<in>set nms. source_add Q nm (src', st') = Inl (runtime_error ''Source port already exists'')))
   \<and> (\<exists>as snk' st'. add_all sink_add nms (snk, st) = Inr (as, snk', st') \<and> distinct as
       \<and> list_all2 (\<lambda>nm a. Sink_At nm snk' = Inr a) nms as
       \<and> (\<forall>nm\<in>set nms. sink_add nm (snk', st') = Inl (runtime_error ''Source port already exists'')))"
proof -
  have new: "\<forall>nm\<in>set nms. \<exists>e. Source_At nm (fst (src, st)) = Inl e" "\<forall>nm\<in>set nms. \<exists>e. Sink_At nm (fst (snk, st)) = Inl e"
    using assms(4) by (auto simp: Source_At_def Sink_At_def map_of_eq_None_iff split: option.splits)
  obtain as s where "add_all (source_add Q) nms (src, st) = Inr (as, s)" "distinct as"
    "list_all2 (\<lambda>nm a. Source_At nm (fst s) = Inr a) nms as"
    using source_names.adds_lookup [of "(src, st)" nms Q, OF _ assms(3) new(1)] assms(1) by auto
  moreover obtain bs r where "add_all sink_add nms (snk, st) = Inr (bs, r)" "distinct bs"
    "list_all2 (\<lambda>nm a. Sink_At nm (fst r) = Inr a) nms bs"
    using sink_names.adds_lookup [of "(snk, st)" nms, OF _ assms(3) new(2)] assms(2) by auto
  ultimately show ?thesis
    using source_names.add_known [where s = s and Q = Q] sink_names.add_known [where s = r]
    by (cases s; cases r) (fastforce simp: list_all2_conv_all_nth in_set_conv_nth)
qed

theorem ports_by_name_witness:
  "\<exists>as src' st'. add_all (source_add (fifo_ops id)) [''x'', ''y''] (\<lparr>src_notifier = Some 0, src_port_map = []\<rparr>, demo_store)
      = Inr (as, src', st') \<and> distinct as \<and> list_all2 (\<lambda>nm a. Source_At nm src' = Inr a) [''x'', ''y''] as"
proof -
  have "source_ok \<lparr>src_notifier = Some 0, src_port_map = []\<rparr> demo_store" "sink_ok \<lparr>snk_notifier = Some 0, snk_port_map = []\<rparr> demo_store"
    by (simp_all add: source_ok_def sink_ok_def)
  from ports_by_name [OF this, of "[''x'', ''y'']" "fifo_ops id"] show ?thesis by auto
qed

text \<open>A controller that subscribes a user to its ports and later unsubscribes it leaves the
  subscribers and the counter of every port as they were, when the user was not subscribed
  before; on the way the kernel of every sink port is told of both.\<close>

theorem controller_roundtrip:
  assumes "\<forall>p\<in>set c. port_valid st p \<and> port_inv (port_at st p) \<and> user \<notin> port_subscribers (port_at st p)"
    and "st2 = PortController_Unsubscribe user c (PortController_Subscribe user c st)"
  shows "(\<forall>p. port_at st2 p = port_at st p)
     \<and> (\<forall>p\<in>set c. \<not> Port_SubscribersEmpty (port_at (PortController_Subscribe user c st) p))
     \<and> (\<forall>s k. SinkPtr s \<in> set c \<and> sk_notifier (st_sinks st ! s) = Some k \<and> k < length (st_notifiers st)
          \<longrightarrow> notified_at st2 k kKERNEL_EVENT_SINK_SUBSCRIPTION \<and> notified_at st2 k kKERNEL_EVENT_SINK_UNSUBSCRIPTION)"
proof -
  let ?st1 = "PortController_Subscribe user c st"
  have v: "\<forall>p\<in>set c. port_valid st p" using assms(1) by blast
  have at1: "port_at ?st1 p = (if p \<in> set c then Port_Subscribe user (port_at st p) else port_at st p)" for p
    using controller_subscribe [OF v] by blast
  have v1: "\<forall>p\<in>set c. port_valid ?st1 p" using v controller_subscribe [OF v] by blast
  have ne: "\<not> Port_SubscribersEmpty (port_at ?st1 p)" if "p \<in> set c" for p
    using SubscribersEmpty_iff [of "port_at ?st1 p"] port_inv_ops(2) assms(1) that
    by (simp add: at1) (simp add: Port_Subscribe_def Let_def)
  have "port_at st2 p = port_at st p" for p
    using controller_unsubscribe [OF v1, of user p] unsubscribe_subscribe assms by (simp add: at1)
  moreover have "notified_at st2 k kKERNEL_EVENT_SINK_SUBSCRIPTION \<and> notified_at st2 k kKERNEL_EVENT_SINK_UNSUBSCRIPTION"
    if "SinkPtr s \<in> set c" "sk_notifier (st_sinks st ! s) = Some k" "k < length (st_notifiers st)" for s k
    using controller_notified [OF that] controller_unnotified [OF that(1), of ?st1 k user] ne [OF that(1)] v1 that
    by (simp add: assms(2) controller_frame)
  ultimately show ?thesis using ne by blast
qed

theorem controller_roundtrip_witness:
  "\<exists>st2. st2 = PortController_Unsubscribe 3 [SinkPtr 0, SourcePtr 1] (PortController_Subscribe 3 [SinkPtr 0, SourcePtr 1] demo_store)
     \<and> port_at st2 (SinkPtr 0) = port_at demo_store (SinkPtr 0) \<and> notified_at st2 0 kKERNEL_EVENT_SINK_UNSUBSCRIPTION"
proof -
  have "\<forall>p\<in>set [SinkPtr 0, SourcePtr 1]. port_valid demo_store p \<and> port_inv (port_at demo_store p) \<and> 3 \<notin> port_subscribers (port_at demo_store p)"
    by (simp add: demo_store_def new_SourcePort_def new_SinkPort_def port_inv_ops) (simp add: new_Port_def)
  moreover have "sk_notifier (st_sinks demo_store ! 0) = Some 0" "0 < length (st_notifiers demo_store)"
    by (simp_all add: demo_store_def new_SinkPort_def)
  ultimately show ?thesis
    using controller_roundtrip [of "[SinkPtr 0, SourcePtr 1]" demo_store 3, OF _ refl] by (metis list.set_intros(1))
qed

text \<open>\<open>Source::Flush\<close> returns, the queue of every port of the source is then empty, and no other
  port, no sink and no notifier has changed.\<close>

theorem source_flush_empties:
  assumes "spsc_queue Q items cap ok" and "source_ok src st"
    and "\<forall>a\<in>set (map snd (src_port_map src)). ok (sp_queue (st_sources st ! a))"
  shows "\<exists>st'. Source_Flush Q src st = Some st' \<and> st_sinks st' = st_sinks st \<and> st_notifiers st' = st_notifiers st
     \<and> (\<forall>a. if a \<in> set (map snd (src_port_map src))
          then items (sp_queue (st_sources st' ! a)) = [] \<and> SourcePort_Empty Q (st_sources st' ! a)
          else st_sources st' ! a = st_sources st ! a)"
proof -
  obtain st' where "Source_Flush Q src st = Some st'" "st_sinks st' = st_sinks st" "st_notifiers st' = st_notifiers st"
    "\<forall>b. if b \<in> set (map snd (src_port_map src)) then ok (sp_queue (st_sources st' ! b)) \<and> items (sp_queue (st_sources st' ! b)) = []
          else st_sources st' ! b = st_sources st ! b"
    using spsc_queue.flush_loop_empties [OF assms(1), of "map snd (src_port_map src)" st] assms(2,3)
    unfolding source_ok_def Source_Flush_def by metis
  then show ?thesis
    using spsc_queue.empty_items [OF assms(1)] by (auto simp: SourcePort_Empty_def split: if_splits)
qed

theorem source_flush_empties_witness:
  "\<exists>st'. Source_Flush (fifo_ops id) \<lparr>src_notifier = Some 0, src_port_map = [(''b'', 1)]\<rparr> demo_store = Some st'
     \<and> fb_queue (sp_queue (st_sources st' ! 1)) = []"
  using source_flush_empties [OF port_queue.spsc_queue_axioms [of id], of "\<lparr>src_notifier = Some 0, src_port_map = [(''b'', 1)]\<rparr>" demo_store]
  by (simp add: source_ok_def) (force simp: demo_store_def)

end
