(* ===== verification/Dataflow_Kernel.thy ===== *)
theory Dataflow_Kernel
  imports Dataflow_Ports
begin

text \<open>
  \<open>include/ar/dataflow/kernel.hpp\<close>: the life of a dataflow kernel. \<open>AsyncLoop\<close> is a
  coroutine, so it is a machine: \<open>kpc\<close> is where it stands, \<open>kernel_step\<close> one piece of it
  between two points where other threads may act, and \<open>None\<close> means that it is suspended.
  The virtual functions that a kernel brings, \<open>OnInit\<close>, \<open>OnProcess\<close> and \<open>OnDispose\<close>
  (empty by default), are the parameter \<open>H\<close>; the other virtual functions have their default
  bodies. The calls of \<open>AsyncInit\<close>, \<open>Run\<close> and \<open>AsyncTerminate\<close> are made by one client
  thread, one after the other, and each of them is one step (in the code \<open>AsyncTerminate\<close> loads
  the state, stores it and notifies, and the coroutine may act in between).
\<close>

section \<open>Definitions\<close>

datatype KernelProcessResult = kNEXT | kEND | kERROR

datatype KernelState = kREADY | kINITIALIZED | kRUNNING | kTERMINATED

text \<open>A kernel's own context type extends this record.\<close>

record KernelContext =
  kc_error_code :: int
  kc_interrupt_callback :: "(nat \<Rightarrow> int) option"
  kc_interrupt_opaque :: nat
  kc_resource :: "nat option"

definition SetErrorCode :: "int \<Rightarrow> 'z KernelContext_scheme \<Rightarrow> 'z KernelContext_scheme" where
  "SetErrorCode code c = c\<lparr>kc_error_code := code\<rparr>"

definition SetInterruptCallback :: "(nat \<Rightarrow> int) option \<Rightarrow> nat \<Rightarrow> 'z KernelContext_scheme \<Rightarrow> 'z KernelContext_scheme" where
  "SetInterruptCallback callback opaque c = c\<lparr>kc_interrupt_callback := callback, kc_interrupt_opaque := opaque\<rparr>"

definition GetErrorCode :: "'z KernelContext_scheme \<Rightarrow> int" where
  "GetErrorCode c = kc_error_code c"

definition SetResource :: "nat option \<Rightarrow> 'z KernelContext_scheme \<Rightarrow> 'z KernelContext_scheme" where
  "SetResource res c = c\<lparr>kc_resource := res\<rparr>"

definition Interrupt :: "'z KernelContext_scheme \<Rightarrow> int" where
  "Interrupt c = (case kc_interrupt_callback c of Some f \<Rightarrow> f (kc_interrupt_opaque c) | None \<Rightarrow> 0)"

text \<open>What the functions of a kernel throw: the loop handles a \<open>std::exception\<close> and nothing else.\<close>

datatype k_exception = StdException ar_error | OtherException

text \<open>What the functions of a kernel reach: its source and sink and the shared store.\<close>

record 'q kports =
  kp_source :: Source
  kp_sink :: Sink
  kp_store :: "'q df_store"

record ('q, 'z) hooks =
  OnInit :: "'z KernelContext_scheme \<times> 'q kports \<Rightarrow> k_exception + (int \<times> 'z KernelContext_scheme \<times> 'q kports)"
  OnProcess :: "'z KernelContext_scheme \<times> 'q kports \<Rightarrow> k_exception + (KernelProcessResult \<times> 'z KernelContext_scheme \<times> 'q kports)"
  OnDispose :: "'z KernelContext_scheme \<times> 'q kports \<Rightarrow> k_exception + ('z KernelContext_scheme \<times> 'q kports)"

text \<open>
  \<open>OnWaitSinkSubscription\<close> is called at the start of \<open>OnUpdate\<close> and from
  \<open>OnSinkUnsubscription\<close>: the two sites to which it returns.
\<close>

datatype wait_site = InUpdate | InUnsubscription

datatype kpc =
    K_None | K_Init | K_Yield | K_Check | K_SetRun | K_Loop | K_Update
  | K_FlushSub wait_site | K_WatchSub wait_site | K_AwaitSub wait_site df_future
  | K_WTerm wait_site cint | K_WSub wait_site cint
  | K_WatchAny | K_AwaitAny df_future
  | K_Process cint | K_Term cint | K_Sub cint | K_Unsub cint
  | K_End | K_Catch | K_Returned "k_exception + int"

record ('q, 'z) ksys =
  ks_state :: KernelState
  ks_pc :: kpc
  ks_scheduled :: bool
  ks_future :: bool
  ks_then :: bool
  ks_disposed :: nat
  ks_notifier :: nat
  ks_resource :: "nat option"
  ks_context :: "'z KernelContext_scheme"
  ks_ports :: "'q kports"

definition new_Kernel :: "nat \<Rightarrow> nat option \<Rightarrow> 'z KernelContext_scheme \<Rightarrow> 'q df_store \<Rightarrow> ('q, 'z) ksys" where
  "new_Kernel notifier res ctx st =
     \<lparr>ks_state = kREADY, ks_pc = K_None, ks_scheduled = False, ks_future = False, ks_then = False, ks_disposed = 0,
      ks_notifier = notifier, ks_resource = res, ks_context = ctx,
      ks_ports = \<lparr>kp_source = \<lparr>src_notifier = Some notifier, src_port_map = []\<rparr>,
                  kp_sink = \<lparr>snk_notifier = Some notifier, snk_port_map = []\<rparr>, kp_store = st\<rparr>\<rparr>"

definition goto :: "kpc \<Rightarrow> ('q, 'z) ksys \<Rightarrow> ('q, 'z) ksys" where
  "goto pc s = s\<lparr>ks_pc := pc\<rparr>"

definition k_dn :: "('q, 'z) ksys \<Rightarrow> DfNotifier" where
  "k_dn s = st_notifiers (kp_store (ks_ports s)) ! ks_notifier s"

definition set_dn :: "DfNotifier \<Rightarrow> ('q, 'z) ksys \<Rightarrow> ('q, 'z) ksys" where
  "set_dn n s = s\<lparr>ks_ports := (ks_ports s)\<lparr>kp_store := (kp_store (ks_ports s))
     \<lparr>st_notifiers := (st_notifiers (kp_store (ks_ports s)))[ks_notifier s := n]\<rparr>\<rparr>\<rparr>"

definition k_flush :: "('q, 'a) spsc \<Rightarrow> ('q, 'z) ksys \<Rightarrow> ('q, 'z) ksys option" where
  "k_flush Q s = map_option (\<lambda>st. s\<lparr>ks_ports := (ks_ports s)\<lparr>kp_store := st\<rparr>\<rparr>)
     (Source_Flush Q (kp_source (ks_ports s)) (kp_store (ks_ports s)))"

definition on_store :: "('q df_store \<Rightarrow> 'q df_store) \<Rightarrow> ('q, 'z) ksys \<Rightarrow> ('q, 'z) ksys" where
  "on_store f s = s\<lparr>ks_ports := (ks_ports s)\<lparr>kp_store := f (kp_store (ks_ports s))\<rparr>\<rparr>"

text \<open>The default bodies of the virtual functions.\<close>

definition OnTerminate :: "('q, 'a) spsc \<Rightarrow> ('q, 'z) ksys \<Rightarrow> (KernelProcessResult \<times> ('q, 'z) ksys) option" where
  "OnTerminate Q s =
     (let s1 = on_store (Source_Deactivate (kp_source (ks_ports s))) s in
      map_option (\<lambda>s2. (kEND, on_store (Sink_UnsubscribeAll (kp_sink (ks_ports s2))) s2)) (k_flush Q s1))"

definition OnSinkSubscription :: "('q, 'z) ksys \<Rightarrow> KernelProcessResult \<times> ('q, 'z) ksys" where
  "OnSinkSubscription s = (kNEXT, on_store (Source_Activate (kp_source (ks_ports s))) s)"

definition k_SubscribersEmpty :: "('q, 'z) ksys \<Rightarrow> bool" where
  "k_SubscribersEmpty s = Sink_SubscribersEmpty (kp_sink (ks_ports s)) (kp_store (ks_ports s))"

text \<open>Where a result of a handler leads: back to the loop when there is nothing more to do.\<close>

definition after_result :: "kpc \<Rightarrow> KernelProcessResult \<Rightarrow> kpc" where
  "after_result next res = (if res \<noteq> kNEXT then K_End else next)"

definition site_next :: "wait_site \<Rightarrow> kpc" where
  "site_next site = (case site of InUpdate \<Rightarrow> K_WatchAny | InUnsubscription \<Rightarrow> K_Loop)"

definition future_value :: "DfNotifier \<Rightarrow> df_future \<Rightarrow> cint option" where
  "future_value n f = (case f of ResolvedFuture v \<Rightarrow> Some v | FutureOf p \<Rightarrow> map_of (dn_calls n) p)"

text \<open>
  Where an exception leads that is thrown inside the \<open>try\<close>: to its handler, or out of
  \<open>AsyncLoop\<close>; the coroutine then ends with the exception (\<open>include/ar/coroutine.hpp\<close>
  catches everything), and nothing more of the loop is done.
\<close>

definition thrown :: "k_exception \<Rightarrow> kpc" where
  "thrown e = (case e of StdException x \<Rightarrow> K_Catch | OtherException \<Rightarrow> K_Returned (Inl OtherException))"

text \<open>A call of \<open>OnDispose\<close>, what follows when it returns, and where its exception leads.\<close>

definition dispose ::
  "('q, 'z) hooks \<Rightarrow> (('q, 'z) ksys \<Rightarrow> ('q, 'z) ksys) \<Rightarrow> (k_exception \<Rightarrow> kpc) \<Rightarrow> ('q, 'z) ksys \<Rightarrow> ('q, 'z) ksys" where
  "dispose H ret throw s =
     (let s1 = s\<lparr>ks_disposed := Suc (ks_disposed s)\<rparr> in
      case OnDispose H (ks_context s1, ks_ports s1) of
        Inl e \<Rightarrow> goto (throw e) s1
      | Inr (c, p) \<Rightarrow> ret (s1\<lparr>ks_context := c, ks_ports := p\<rparr>))"

fun kernel_step :: "('q, 'a) spsc \<Rightarrow> ('q, 'z) hooks \<Rightarrow> ('q, 'z) ksys \<Rightarrow> ('q, 'z) ksys option" where
  "kernel_step Q H s = (case ks_pc s of
     K_None \<Rightarrow> None
   | K_Init \<Rightarrow>
       (let s0 = s\<lparr>ks_context := SetResource (ks_resource s) (ks_context s)\<rparr> in
        case OnInit H (ks_context s0, ks_ports s0) of
          Inl e \<Rightarrow> Some (goto (thrown e) s0)
        | Inr (init_error, c, p) \<Rightarrow>
            let s1 = s0\<lparr>ks_context := c, ks_ports := p\<rparr> in
            if init_error \<noteq> 0
            then Some (dispose H (\<lambda>s. goto (K_Returned (Inr init_error)) (s\<lparr>ks_state := kTERMINATED\<rparr>)) thrown s1)
            else Some (goto K_Yield (s1\<lparr>ks_state := kINITIALIZED\<rparr>)))
   | K_Yield \<Rightarrow> if ks_scheduled s then Some (goto K_Check (s\<lparr>ks_scheduled := False\<rparr>)) else None
   | K_Check \<Rightarrow> Some (goto (if ks_state s \<noteq> kTERMINATED then K_SetRun else K_End) s)
   | K_SetRun \<Rightarrow> Some (goto K_Loop (s\<lparr>ks_state := kRUNNING\<rparr>))
   | K_Loop \<Rightarrow> Some (goto (if ks_state s \<noteq> kTERMINATED then K_Update else K_End) s)
   | K_Update \<Rightarrow> Some (goto (if k_SubscribersEmpty s then K_FlushSub InUpdate else K_WatchAny) s)
   | K_FlushSub site \<Rightarrow>
       map_option (\<lambda>s1. goto (K_WatchSub site) (on_store (Source_Deactivate (kp_source (ks_ports s1))) s1)) (k_flush Q s)
   | K_WatchSub site \<Rightarrow>
       (let (f, n) = AsyncWatch [event_value kKERNEL_EVENT_SINK_SUBSCRIPTION, event_value kKERNEL_EVENT_TERMINATE] (k_dn s) in
        Some (goto (K_AwaitSub site f) (set_dn n s)))
   | K_AwaitSub site f \<Rightarrow> map_option (\<lambda>ev. goto (K_WTerm site ev) s) (future_value (k_dn s) f)
   | K_WTerm site ev \<Rightarrow>
       if HasState ev (event_value kKERNEL_EVENT_TERMINATE)
       then map_option (\<lambda>(res, s1). goto (after_result (K_WSub site ev) res) s1) (OnTerminate Q s)
       else Some (goto (K_WSub site ev) s)
   | K_WSub site ev \<Rightarrow>
       if HasState ev (event_value kKERNEL_EVENT_SINK_SUBSCRIPTION)
       then let (res, s1) = OnSinkSubscription s in
            map_option (goto (after_result (site_next site) res)) (k_flush Q s1)
       else Some (goto (site_next site) s)
   | K_WatchAny \<Rightarrow>
       (let (f, n) = AsyncWatchAny (k_dn s) in Some (goto (K_AwaitAny f) (set_dn n s)))
   | K_AwaitAny f \<Rightarrow> map_option (\<lambda>ev. goto (K_Process ev) s) (future_value (k_dn s) f)
   | K_Process ev \<Rightarrow>
       if HasState ev (event_value kKERNEL_EVENT_READ_SOURCE)
       then (case OnProcess H (ks_context s, ks_ports s) of
               Inl e \<Rightarrow> Some (goto (thrown e) s)
             | Inr (res, c, p) \<Rightarrow> Some (goto (after_result (K_Term ev) res) (s\<lparr>ks_context := c, ks_ports := p\<rparr>)))
       else Some (goto (K_Term ev) s)
   | K_Term ev \<Rightarrow>
       if HasState ev (event_value kKERNEL_EVENT_TERMINATE)
       then map_option (\<lambda>(res, s1). goto (after_result (K_Sub ev) res) s1) (OnTerminate Q s)
       else Some (goto (K_Sub ev) s)
   | K_Sub ev \<Rightarrow>
       if HasState ev (event_value kKERNEL_EVENT_SINK_SUBSCRIPTION)
       then let (res, s1) = OnSinkSubscription s in Some (goto (after_result (K_Unsub ev) res) s1)
       else Some (goto (K_Unsub ev) s)
   | K_Unsub ev \<Rightarrow>
       if HasState ev (event_value kKERNEL_EVENT_SINK_UNSUBSCRIPTION) \<and> k_SubscribersEmpty s
       then Some (goto (K_FlushSub InUnsubscription) s)
       else Some (goto K_Loop s)
   | K_End \<Rightarrow>
       Some (dispose H (\<lambda>s. goto (K_Returned (Inr (GetErrorCode (ks_context s)))) s) thrown (s\<lparr>ks_state := kTERMINATED\<rparr>))
   | K_Catch \<Rightarrow> Some (dispose H (goto (K_Returned (Inr (- 1)))) (\<lambda>e. K_Returned (Inl e)) (s\<lparr>ks_state := kTERMINATED\<rparr>))
   | K_Returned r \<Rightarrow> None)"

text \<open>The calls of the client. \<open>made\<close> says whether the coroutine could be created.\<close>

definition AsyncInit :: "bool \<Rightarrow> 'z KernelContext_scheme \<Rightarrow> ('q, 'z) ksys \<Rightarrow> ('q, 'z) ksys" where
  "AsyncInit made ctx s =
     (if made then s\<lparr>ks_pc := K_Init, ks_scheduled := False, ks_disposed := 0, ks_context := ctx, ks_state := kREADY\<rparr> else s)"

definition is_completed :: "('q, 'z) ksys \<Rightarrow> bool" where
  "is_completed s = (case ks_pc s of K_Returned r \<Rightarrow> True | _ \<Rightarrow> False)"

definition Kernel_Run :: "bool \<Rightarrow> ('q, 'z) ksys \<Rightarrow> bool \<times> ('q, 'z) ksys" where
  "Kernel_Run terminated_callback s =
     (if ks_state s \<noteq> kINITIALIZED then (False, s)
      else if ks_pc s \<noteq> K_None \<and> \<not> is_completed s
      then (True, s\<lparr>ks_state := kRUNNING, ks_scheduled := True, ks_future := True,
                    ks_then := (ks_then s \<or> terminated_callback)\<rparr>)
      else (False, s))"

text \<open>The result is the future of the coroutine, or a resolved one.\<close>

definition AsyncTerminate :: "('q, 'z) ksys \<Rightarrow> int option \<times> ('q, 'z) ksys" where
  "AsyncTerminate s =
     (if ks_state s = kRUNNING
      then (None, set_dn (Notify (event_value kKERNEL_EVENT_TERMINATE) (k_dn s)) (s\<lparr>ks_state := kTERMINATED\<rparr>))
      else if ks_state s = kINITIALIZED
      then (None, (set_dn (Notify (event_value kKERNEL_EVENT_TERMINATE) (k_dn s)) (s\<lparr>ks_state := kTERMINATED\<rparr>))
                    \<lparr>ks_scheduled := True, ks_future := True\<rparr>)
      else (Some 0, s\<lparr>ks_state := kTERMINATED\<rparr>))"

definition delete_Kernel :: "('q, 'a) spsc \<Rightarrow> ('q, 'z) ksys \<Rightarrow> ('q, 'z) ksys option" where
  "delete_Kernel Q s = map_option (on_store (Sink_DisconnectAll (kp_sink (ks_ports s)))) (k_flush Q s)"

section \<open>Runs of a kernel among other threads\<close>

text \<open>
  Other threads, and the functions of the user, change ports and notify, but only the
  kernel itself watches its notifier; the queues of its source ports stay in order.
\<close>

definition kports_ok :: "('q \<Rightarrow> bool) \<Rightarrow> 'q kports \<Rightarrow> bool" where
  "kports_ok ok P \<longleftrightarrow> source_ok (kp_source P) (kp_store P)
     \<and> (\<forall>a\<in>set (map snd (src_port_map (kp_source P))). ok (sp_queue (st_sources (kp_store P) ! a)))"

definition others_step :: "('q \<Rightarrow> bool) \<Rightarrow> nat \<Rightarrow> 'q kports \<Rightarrow> 'q kports \<Rightarrow> bool" where
  "others_step ok k P P' \<longleftrightarrow> (kports_ok ok P \<longrightarrow> kports_ok ok P')
     \<and> (k < length (st_notifiers (kp_store P)) \<longrightarrow> k < length (st_notifiers (kp_store P'))
         \<and> (\<exists>es. st_notifiers (kp_store P') ! k = fold Notify (map event_value es) (st_notifiers (kp_store P) ! k)))"

text \<open>The kernel's coroutine, the other threads and the client's calls.\<close>

inductive kstep :: "('q, 'a) spsc \<Rightarrow> ('q, 'z) hooks \<Rightarrow> ('q \<Rightarrow> bool) \<Rightarrow> ('q, 'z) ksys \<Rightarrow> ('q, 'z) ksys \<Rightarrow> bool"
  for Q H ok where
  ks_own: "kernel_step Q H s = Some t \<Longrightarrow> kstep Q H ok s t"
| ks_others: "others_step ok (ks_notifier s) (ks_ports s) P \<Longrightarrow> kstep Q H ok s (s\<lparr>ks_ports := P\<rparr>)"
| ks_init: "ks_pc s = K_None \<or> is_completed s \<Longrightarrow> kstep Q H ok s (AsyncInit made ctx s)"
| ks_run: "kstep Q H ok s (snd (Kernel_Run cb s))"
| ks_terminate: "kstep Q H ok s (snd (AsyncTerminate s))"

text \<open>The coroutine runs \<open>n\<close> steps, the other threads as many as they like.\<close>

inductive krun :: "('q, 'a) spsc \<Rightarrow> ('q, 'z) hooks \<Rightarrow> ('q \<Rightarrow> bool) \<Rightarrow> nat \<Rightarrow> ('q, 'z) ksys \<Rightarrow> ('q, 'z) ksys \<Rightarrow> bool"
  for Q H ok where
  krun_refl: "krun Q H ok 0 s s"
| krun_own: "krun Q H ok n s t \<Longrightarrow> kernel_step Q H t = Some u \<Longrightarrow> krun Q H ok (Suc n) s u"
| krun_others: "krun Q H ok n s t \<Longrightarrow> others_step ok (ks_notifier t) (ks_ports t) P \<Longrightarrow> krun Q H ok n s (t\<lparr>ks_ports := P\<rparr>)"

abbreviation ev_sub :: cint where "ev_sub \<equiv> event_value kKERNEL_EVENT_SINK_SUBSCRIPTION"
abbreviation ev_term :: cint where "ev_term \<equiv> event_value kKERNEL_EVENT_TERMINATE"

definition has_event :: "cint \<Rightarrow> DfNotifier \<Rightarrow> bool" where
  "has_event e n \<longleftrightarrow> HasState (ucast (dn_notify_state n)) e"

text \<open>What holds of the notifier while the coroutine waits: an event it waits for has fulfilled its promise.\<close>

definition watching_any :: "nat \<Rightarrow> DfNotifier \<Rightarrow> bool" where
  "watching_any p n \<longleftrightarrow> p = dn_promise n \<and> dn_watch_any n \<and> (dn_notified n \<or> dn_notify_state n = 0)"

definition watching_sub :: "nat \<Rightarrow> DfNotifier \<Rightarrow> bool" where
  "watching_sub p n \<longleftrightarrow> p = dn_promise n \<and> HasState (ucast (dn_watch_state n)) ev_sub \<and> HasState (ucast (dn_watch_state n)) ev_term
     \<and> (dn_notified n \<or> \<not> has_event ev_sub n \<and> \<not> has_event ev_term n)"

fun await_ok :: "kpc \<Rightarrow> DfNotifier \<Rightarrow> bool" where
  "await_ok (K_AwaitAny (FutureOf p)) n = watching_any p n"
| "await_ok (K_AwaitSub site (FutureOf p)) n = watching_sub p n"
| "await_ok pc n = True"

definition state_ok :: "KernelState \<Rightarrow> kpc \<Rightarrow> bool \<Rightarrow> bool" where
  "state_ok st pc sched \<longleftrightarrow> (st = kINITIALIZED \<longrightarrow> pc = K_Yield) \<and> (st = kRUNNING \<longrightarrow> pc \<noteq> K_None \<and> pc \<noteq> K_Init)
     \<and> (pc = K_Yield \<longrightarrow> (st = kINITIALIZED \<longleftrightarrow> \<not> sched)) \<and> (pc = K_Init \<longrightarrow> \<not> sched) \<and> (case pc of K_Returned r \<Rightarrow> r = Inl OtherException \<or> st = kTERMINATED | _ \<Rightarrow> True)"

definition kinv :: "('q \<Rightarrow> bool) \<Rightarrow> ('q, 'z) ksys \<Rightarrow> bool" where
  "kinv ok s \<longleftrightarrow> ks_notifier s < length (st_notifiers (kp_store (ks_ports s))) \<and> dn_inv (k_dn s)
     \<and> kports_ok ok (ks_ports s) \<and> await_ok (ks_pc s) (k_dn s) \<and> state_ok (ks_state s) (ks_pc s) (ks_scheduled s)"

section \<open>The notifier under the kernel\<close>

lemma has_event_Notify_mono: "has_event e n \<Longrightarrow> has_event e (fold Notify es n)"
proof (induction es arbitrary: n)
  case (Cons e' es)
  then have "has_event e (Notify e' n)" by (simp add: has_event_def Notify_state HasState_more)
  then show ?case using Cons.IH by simp
qed simp

lemma Notify_event_value [simp]: "has_event (event_value e) (Notify (event_value e) n)"
  using event_bits_nonzero(2) [OF event_bits_values] by (simp add: has_event_def Notify_state)

text \<open>Another event does not set a bit that stands for one event.\<close>

lemma Notify_other_event:
  assumes "\<not> has_event (event_value e) n" "e \<in> {kKERNEL_EVENT_TERMINATE, kKERNEL_EVENT_SINK_SUBSCRIPTION}" "e' \<noteq> e"
  shows "\<not> has_event (event_value e) (Notify (event_value e') n)"
proof -
  have "HasState (ucast (x OR y)) (event_value e) \<longleftrightarrow> HasState (ucast x) (event_value e)"
    if "y AND ucast (event_value e) = 0" for x y :: u8
  proof -
    have "(ucast y :: cint) AND event_value e = ucast (y AND ucast (event_value e))"
      using event_bits_values [of e] unfolding event_bits_def by (metis unsigned_and_eq)
    then have "(ucast (x OR y) :: cint) AND event_value e = ucast x AND event_value e"
      using that unfolding ucast_u8_or bit.conj_disj_distrib2 by simp
    then show ?thesis by (simp add: HasState_def)
  qed
  moreover have "(ucast (event_value e') :: u8) AND ucast (event_value e) = 0"
    using assms(2,3) by (cases e'; cases e; simp)
  ultimately show ?thesis using assms(1) by (simp add: has_event_def Notify_state)
qed

lemma Notify_notified: "dn_notified n \<Longrightarrow> dn_notified (Notify e n)"
  by (simp add: Notify_def Let_def)

lemma Notify_sets_notified: "dn_watch_any n \<or> HasState (ucast (dn_watch_state n)) e \<Longrightarrow> dn_notified (Notify e n)"
  by (auto simp: Notify_def Let_def HasState_def)

lemma watching_any_Notify: "watching_any p n \<Longrightarrow> watching_any p (Notify e n)"
  by (simp add: watching_any_def Notify_sets_notified)

lemma watching_sub_Notify:
  assumes "watching_sub p n" shows "watching_sub p (Notify (event_value e) n)"
proof (cases "dn_notified n \<or> e \<in> {kKERNEL_EVENT_TERMINATE, kKERNEL_EVENT_SINK_SUBSCRIPTION}")
  case True
  then have "dn_notified (Notify (event_value e) n)"
    using assms Notify_notified Notify_sets_notified by (auto simp: watching_sub_def)
  then show ?thesis using assms by (simp add: watching_sub_def)
next
  case False
  then have "\<not> has_event ev_sub (Notify (event_value e) n) \<and> \<not> has_event ev_term (Notify (event_value e) n)"
    using assms Notify_other_event [of kKERNEL_EVENT_TERMINATE n e] Notify_other_event [of kKERNEL_EVENT_SINK_SUBSCRIPTION n e]
    by (auto simp: watching_sub_def simp del: event_value.simps)
  then show ?thesis using assms by (simp add: watching_sub_def)
qed

lemma await_ok_Notify: "await_ok pc n \<Longrightarrow> await_ok pc (fold Notify (map event_value es) n)"
proof (induction es arbitrary: n)
  case (Cons e es)
  have "await_ok pc (Notify (event_value e) n)"
    using Cons.prems by (cases "(pc, n)" rule: await_ok.cases) (simp_all add: watching_any_Notify watching_sub_Notify)
  then show ?case using Cons.IH by simp
qed simp

lemma dn_inv_fold: "dn_inv n \<Longrightarrow> dn_inv (fold Notify es n)"
  by (induction es arbitrary: n) (simp_all add: dn_inv_Notify)

text \<open>A call of \<open>AsyncWatch\<close> or \<open>AsyncWatchAny\<close> starts a wait and reports pending events.\<close>

lemma watch_any_starts:
  assumes "AsyncWatchAny n = (f, n')" "dn_inv n"
  shows "dn_inv n'" "await_ok (K_AwaitAny f) n'" "has_event ev_term n \<Longrightarrow> \<exists>v. f = ResolvedFuture v \<and> HasState v ev_term"
proof -
  show "dn_inv n'" using dn_inv_watch(2) [OF assms(2)] assms(1) by simp
  show "await_ok (K_AwaitAny f) n'"
    using assms(1) by (auto simp: AsyncWatchAny_def Let_def watching_any_def split: if_splits)
  assume "has_event ev_term n"
  moreover then have "dn_notify_state n \<noteq> 0"
    unfolding has_event_def by (rule HasState_nonzero [OF event_bits_values])
  ultimately show "\<exists>v. f = ResolvedFuture v \<and> HasState v ev_term"
    using assms(1) by (auto simp: AsyncWatchAny_def Let_def has_event_def simp del: event_value.simps split: if_splits)
qed

lemma watch_sub_starts:
  assumes "AsyncWatch [ev_sub, ev_term] n = (f, n')" "dn_inv n"
  shows "dn_inv n'" "await_ok (K_AwaitSub site f) n'" "has_event ev_term n \<Longrightarrow> \<exists>v. f = ResolvedFuture v \<and> HasState v ev_term"
proof -
  show "dn_inv n'" using dn_inv_watch(1) [OF assms(2)] assms(1) by (metis snd_conv)
  have n': "n' = snd (AsyncWatch [ev_sub, ev_term] n)" using assms(1) by simp
  have w: "dn_watch_state n' = 0xC" "dn_notify_state n' = 0" unfolding n' AsyncWatch_state by simp_all
  have p: "f = FutureOf p \<Longrightarrow> p = dn_promise n'" for p
    using assms(1) by (auto simp: AsyncWatch_def Let_def split: if_splits)
  show "await_ok (K_AwaitSub site f) n'"
    using p by (cases f) (simp_all add: watching_sub_def w has_event_def HasState_def)
  assume T: "has_event ev_term n"
  let ?v = "CheckNotifications (n\<lparr>dn_watch_any := False\<rparr>) ev_term (CheckNotifications (n\<lparr>dn_watch_any := False\<rparr>) ev_sub 0)"
  have "CheckNotifications (n\<lparr>dn_watch_any := False\<rparr>) ev_term x = x OR ev_term" for x
    using T by (simp add: CheckNotifications_def has_event_def HasState_def)
  moreover have "(x OR e) AND e = e" for x e :: cint by (rule bit_word_eqI) (auto simp: bit_simps)
  ultimately have "HasState ?v ev_term" by (simp add: HasState_def del: event_value.simps)
  moreover then have "?v \<noteq> 0" unfolding HasState_def by auto
  ultimately show "\<exists>v. f = ResolvedFuture v \<and> HasState v ev_term"
    using assms(1) by (auto simp: AsyncWatch_def Let_def simp del: event_value.simps split: if_splits)
qed

text \<open>A promise keeps its value.\<close>

lemma future_value_Notify:
  assumes "dn_inv n" "future_value n f = Some v" shows "future_value (fold Notify es n) f = Some v"
  using assms
proof (induction es arbitrary: n)
  case (Cons e es)
  have "future_value (Notify e n) f = Some v"
    using Cons.prems(2)
    by (auto simp: future_value_def Notify_def Let_def map_add_def split: df_future.splits option.splits if_splits)
  then show ?case using Cons.IH [OF dn_inv_Notify [OF Cons.prems(1)]] by simp
qed simp

lemma notified_fulfilled: "dn_inv n \<Longrightarrow> dn_notified n \<Longrightarrow> \<exists>v. future_value n (FutureOf (dn_promise n)) = Some v"
  by (auto simp: dn_inv_def future_value_def weak_map_of_SomeI)

section \<open>The invariant of the kernel\<close>

lemma goto_frame [simp]:
  "ks_pc (goto pc s) = pc" "ks_state (goto pc s) = ks_state s" "ks_scheduled (goto pc s) = ks_scheduled s"
  "ks_notifier (goto pc s) = ks_notifier s" "ks_ports (goto pc s) = ks_ports s" "ks_disposed (goto pc s) = ks_disposed s"
  "k_dn (goto pc s) = k_dn s"
  by (simp_all add: goto_def k_dn_def)

lemma set_dn_frame [simp]:
  "ks_pc (set_dn n s) = ks_pc s" "ks_state (set_dn n s) = ks_state s" "ks_scheduled (set_dn n s) = ks_scheduled s"
  "ks_notifier (set_dn n s) = ks_notifier s" "ks_disposed (set_dn n s) = ks_disposed s"
  "kports_ok ok (ks_ports (set_dn n s)) = kports_ok ok (ks_ports s)"
  "length (st_notifiers (kp_store (ks_ports (set_dn n s)))) = length (st_notifiers (kp_store (ks_ports s)))"
  by (simp_all add: set_dn_def kports_ok_def source_ok_def)

lemma k_dn_set_dn [simp]: "ks_notifier s < length (st_notifiers (kp_store (ks_ports s))) \<Longrightarrow> k_dn (set_dn n s) = n"
  by (simp add: k_dn_def set_dn_def)

lemma k_dn_upd [simp]:
  "k_dn (s\<lparr>ks_state := v\<rparr>) = k_dn s" "k_dn (s\<lparr>ks_scheduled := b\<rparr>) = k_dn s" "k_dn (s\<lparr>ks_context := c\<rparr>) = k_dn s"
  "k_dn (s\<lparr>ks_future := b\<rparr>) = k_dn s" "k_dn (s\<lparr>ks_then := b\<rparr>) = k_dn s" "k_dn (s\<lparr>ks_disposed := m\<rparr>) = k_dn s"
  "k_dn (s\<lparr>ks_pc := pc\<rparr>) = k_dn s" "k_dn (s\<lparr>ks_ports := P\<rparr>) = st_notifiers (kp_store P) ! ks_notifier s"
  by (simp_all add: k_dn_def)

text \<open>Two states of a kernel that differ in the contents of its ports only.\<close>

definition same_kernel :: "('q \<Rightarrow> bool) \<Rightarrow> ('q, 'z) ksys \<Rightarrow> ('q, 'z) ksys \<Rightarrow> bool" where
  "same_kernel ok s t \<longleftrightarrow> ks_pc t = ks_pc s \<and> ks_state t = ks_state s \<and> ks_scheduled t = ks_scheduled s
     \<and> ks_notifier t = ks_notifier s \<and> ks_disposed t = ks_disposed s \<and> k_dn t = k_dn s
     \<and> length (st_notifiers (kp_store (ks_ports t))) = length (st_notifiers (kp_store (ks_ports s)))
     \<and> (kports_ok ok (ks_ports s) \<longrightarrow> kports_ok ok (ks_ports t))"

lemma same_kernel_trans: "same_kernel ok s t \<Longrightarrow> same_kernel ok t u \<Longrightarrow> same_kernel ok s u"
  by (auto simp: same_kernel_def)

lemma on_store_same:
  assumes "\<And>st. st_notifiers (f st) = st_notifiers st" "\<And>st. map sp_queue (st_sources (f st)) = map sp_queue (st_sources st)"
  shows "same_kernel ok s (on_store f s)"
proof -
  have "sp_queue (st_sources (f st) ! a) = sp_queue (st_sources st ! a)" if "a < length (st_sources st)" for st a
    using that assms(2) [of st] by (metis length_map nth_map)
  moreover have "length (st_sources (f st)) = length (st_sources st)" for st
    using assms(2) [of st] by (metis length_map)
  ultimately show ?thesis
    using assms(1) by (auto simp: same_kernel_def on_store_def k_dn_def kports_ok_def source_ok_def)
qed

lemma fold_keeps: "(\<And>a s. g (f a s) = g s) \<Longrightarrow> g (fold f as s) = g s"
  by (induction as arbitrary: s) simp_all

lemma activate_queues: "map sp_queue (xs[a := SourcePort_Activate (xs ! a)]) = map sp_queue xs"
  by (cases "a < length xs") (simp_all add: map_update SourcePort_Activate_def list_update_same_conv list_update_beyond)

lemma kernel_store_ops:
  "same_kernel ok s (on_store (Source_Activate src) s)" "same_kernel ok s (on_store (Source_Deactivate src) s)"
  "same_kernel ok s (on_store (Sink_UnsubscribeAll snk) s)"
proof -
  show "same_kernel ok s (on_store (Source_Activate src) s)"
    by (rule on_store_same; unfold Source_Activate_def; rule fold_keeps; simp add: activate_queues)
  show "same_kernel ok s (on_store (Source_Deactivate src) s)"
    by (rule on_store_same) (simp_all add: Source_Deactivate_def)
  show "same_kernel ok s (on_store (Sink_UnsubscribeAll snk) s)"
    by (rule on_store_same; unfold Sink_UnsubscribeAll_def; rule fold_keeps; simp)
qed

lemma others_step_facts:
  assumes "others_step ok (ks_notifier s) (ks_ports s) P" "kinv ok s"
  shows "kports_ok ok P \<and> ks_notifier s < length (st_notifiers (kp_store P))
    \<and> (\<exists>es. st_notifiers (kp_store P) ! ks_notifier s = fold Notify (map event_value es) (k_dn s))"
  using assms by (auto simp: others_step_def kinv_def k_dn_def)

lemma others_step_refl: "others_step ok k P P"
  by (auto simp: others_step_def intro: exI [of _ "[]"])

text \<open>The functions of the user keep to the rules of the other threads.\<close>

locale kernel_hooks = spsc_queue Q items cap ok
  for Q :: "('q, 'a) spsc" and items cap ok +
  fixes H :: "('q, 'z) hooks"
  assumes init_step: "OnInit H (c, P) = Inr (r, c', P') \<Longrightarrow> others_step ok k P P'"
    and process_step: "OnProcess H (c, P) = Inr (res, c', P') \<Longrightarrow> others_step ok k P P'"
    and dispose_step: "OnDispose H (c, P) = Inr (c', P') \<Longrightarrow> others_step ok k P P'"
begin

lemma k_flush_returns:
  assumes "kports_ok ok (ks_ports s)"
  shows "\<exists>t. k_flush Q s = Some t \<and> same_kernel ok s t
     \<and> (\<forall>a\<in>set (map snd (src_port_map (kp_source (ks_ports s)))). items (sp_queue (st_sources (kp_store (ks_ports t)) ! a)) = [])"
proof -
  let ?st = "kp_store (ks_ports s)" and ?as = "map snd (src_port_map (kp_source (ks_ports s)))"
  obtain st' where st': "Source_Flush_loop Q ?as ?st = Some st'" "length (st_sources st') = length (st_sources ?st)"
    "st_notifiers st' = st_notifiers ?st"
    "\<forall>b. if b \<in> set ?as then ok (sp_queue (st_sources st' ! b)) \<and> items (sp_queue (st_sources st' ! b)) = []
          else st_sources st' ! b = st_sources ?st ! b"
    using flush_loop_empties [of ?as ?st] assms unfolding kports_ok_def source_ok_def by metis
  let ?t = "s\<lparr>ks_ports := (ks_ports s)\<lparr>kp_store := st'\<rparr>\<rparr>"
  have "k_flush Q s = Some ?t" using st'(1) by (simp add: k_flush_def Source_Flush_def)
  moreover have "same_kernel ok s ?t"
    using st'(2-4) by (auto simp: same_kernel_def k_dn_def kports_ok_def source_ok_def split: if_splits)
  ultimately show ?thesis using st'(4) by (intro exI [of _ ?t]) (auto split: if_splits)
qed

lemma OnTerminate_returns:
  assumes "kports_ok ok (ks_ports s)" shows "\<exists>t. OnTerminate Q s = Some (kEND, t) \<and> same_kernel ok s t"
proof -
  let ?s1 = "on_store (Source_Deactivate (kp_source (ks_ports s))) s"
  have 1: "same_kernel ok s ?s1" by (rule kernel_store_ops)
  then have "kports_ok ok (ks_ports ?s1)" using assms by (simp add: same_kernel_def)
  then obtain s2 where 2: "k_flush Q ?s1 = Some s2" "same_kernel ok ?s1 s2" using k_flush_returns by blast
  have "same_kernel ok s (on_store (Sink_UnsubscribeAll (kp_sink (ks_ports s2))) s2)"
    by (rule same_kernel_trans [OF same_kernel_trans [OF 1 2(2)] kernel_store_ops(3)])
  then show ?thesis using 2(1) by (simp add: OnTerminate_def Let_def)
qed

lemma OnSinkSubscription_flush:
  assumes "kports_ok ok (ks_ports s)" "OnSinkSubscription s = (res, s1)"
  shows "res = kNEXT \<and> same_kernel ok s s1 \<and> (\<exists>t. k_flush Q s1 = Some t \<and> same_kernel ok s t)"
proof -
  have s1: "res = kNEXT" "s1 = on_store (Source_Activate (kp_source (ks_ports s))) s"
    using assms(2) by (simp_all add: OnSinkSubscription_def)
  have 1: "same_kernel ok s s1" unfolding s1(2) by (rule kernel_store_ops)
  then have "kports_ok ok (ks_ports s1)" using assms(1) by (simp add: same_kernel_def)
  from k_flush_returns [OF this] 1 s1(1) show ?thesis by (blast intro: same_kernel_trans)
qed

text \<open>Every step of the coroutine keeps the invariant.\<close>

lemma hook_kinv:
  assumes "kinv ok s" "others_step ok (ks_notifier s) (ks_ports s) P" "\<And>n. await_ok pc n" "state_ok st' pc sched"
    "ks_pc t = pc" "ks_state t = st'" "ks_scheduled t = sched" "ks_notifier t = ks_notifier s" "ks_ports t = P"
  shows "kinv ok t"
proof -
  have "k_dn t = st_notifiers (kp_store P) ! ks_notifier s" using assms(8,9) by (simp add: k_dn_def)
  then show ?thesis
    using others_step_facts [OF assms(2,1)] assms dn_inv_fold by (auto simp: kinv_def)
qed

lemma same_kinv:
  assumes "kinv ok s" "same_kernel ok s u" "await_ok pc (k_dn s)" "state_ok (ks_state s) pc (ks_scheduled s)"
  shows "kinv ok (goto pc u)"
  using assms by (auto simp: kinv_def same_kernel_def)

lemma after_result_ok [simp]: "after_result pc kEND = K_End" "after_result pc kNEXT = pc" by (simp_all add: after_result_def)

lemma thrown_facts [simp]: "await_ok (thrown e) n" "thrown e \<noteq> K_Yield" "thrown e \<noteq> K_Init" "thrown e \<noteq> K_None"
  "state_ok st (thrown e) sched \<longleftrightarrow> st \<noteq> kINITIALIZED"
  by (cases e; auto simp: thrown_def state_ok_def)+

text \<open>\<open>OnDispose\<close> has returned, or its exception leads on.\<close>

lemma dispose_cases:
  assumes "t = dispose H ret throw s"
  obtains (returned) c P where "OnDispose H (ks_context s, ks_ports s) = Inr (c, P)" "\<And>k. others_step ok k (ks_ports s) P"
      "t = ret (s\<lparr>ks_disposed := Suc (ks_disposed s), ks_context := c, ks_ports := P\<rparr>)"
    | (threw) e where "OnDispose H (ks_context s, ks_ports s) = Inl e" "t = goto (throw e) (s\<lparr>ks_disposed := Suc (ks_disposed s)\<rparr>)"
  using assms dispose_step by (cases "OnDispose H (ks_context s, ks_ports s)") (auto simp: dispose_def Let_def)

lemma init_kinv:
  assumes "kinv ok s" "ks_pc s = K_Init" "kernel_step Q H s = Some t"
  shows "kinv ok t"
proof -
  let ?s0 = "s\<lparr>ks_context := SetResource (ks_resource s) (ks_context s)\<rparr>"
  have st: "ks_state s = kREADY \<or> ks_state s = kTERMINATED"
    using assms(1,2) by (cases "ks_state s") (auto simp: kinv_def state_ok_def)
  show ?thesis
  proof (cases "OnInit H (ks_context ?s0, ks_ports ?s0)")
    case (Inl e)
    then show ?thesis using assms st by (auto simp: kinv_def)
  next
    case (Inr rcp)
    obtain r c P where rcp: "rcp = (r, c, P)" by (metis prod_cases3)
    have P: "others_step ok (ks_notifier s) (ks_ports s) P" using init_step Inr rcp by fastforce
    let ?s1 = "s\<lparr>ks_context := c, ks_ports := P\<rparr>"
    show ?thesis
    proof (cases "r = 0")
      case True
      then have "t = goto K_Yield (s\<lparr>ks_context := c, ks_ports := P, ks_state := kINITIALIZED\<rparr>)"
        using assms(2,3) Inr rcp by simp
      then show ?thesis
        using assms(1,2)
        by (intro hook_kinv [OF assms(1) P, of K_Yield kINITIALIZED "ks_scheduled s"]) (simp_all add: state_ok_def kinv_def)
    next
      case False
      then have t: "t = dispose H (\<lambda>s. goto (K_Returned (Inr r)) (s\<lparr>ks_state := kTERMINATED\<rparr>)) thrown ?s1"
        using assms(2,3) Inr rcp by simp
      have k1: "kinv ok (goto K_Catch ?s1)"
        using st by (intro hook_kinv [OF assms(1) P, of K_Catch "ks_state s" "ks_scheduled s"]) (auto simp: state_ok_def)
      from t show ?thesis
      proof (cases rule: dispose_cases)
        case (returned c' P')
        then show ?thesis
          by (intro hook_kinv [OF k1, of P' "K_Returned (Inr r)" kTERMINATED "ks_scheduled s"]) (simp_all add: state_ok_def)
      next
        case (threw e)
        then show ?thesis using k1 st by (auto simp: kinv_def)
      qed
    qed
  qed
qed

lemma finish_kinv:
  assumes inv: "kinv ok s" and t: "t = dispose H ret throw (s\<lparr>ks_state := kTERMINATED\<rparr>)"
    and ret: "\<And>u. ret u = goto (K_Returned (Inr (v u))) u"
    and throw: "\<And>e n. await_ok (throw e) n" "\<And>e. state_ok kTERMINATED (throw e) (ks_scheduled s)"
  shows "kinv ok t"
  using t
proof (cases rule: dispose_cases)
  case (returned c P)
  then show ?thesis
    by (intro hook_kinv [OF inv, of P _ kTERMINATED "ks_scheduled s"]) (simp_all add: ret state_ok_def)
next
  case (threw e)
  then show ?thesis using throw [of e] inv by (auto simp: kinv_def)
qed

lemma end_kinv:
  assumes "kinv ok s" "ks_pc s = K_End \<or> ks_pc s = K_Catch" "kernel_step Q H s = Some t"
  shows "kinv ok t"
proof (cases "ks_pc s = K_End")
  case True
  show ?thesis
    by (rule finish_kinv [OF assms(1), where v = "\<lambda>u. GetErrorCode (ks_context u)"]) (use True assms(3) in auto)
next
  case False
  show ?thesis
    by (rule finish_kinv [OF assms(1), where v = "\<lambda>u. - 1"]) (use False assms(2,3) in \<open>auto simp: state_ok_def\<close>)
qed

lemma process_kinv:
  assumes "kinv ok s" "ks_pc s = K_Process ev" "kernel_step Q H s = Some t"
  shows "kinv ok t"
proof (cases "HasState ev (event_value kKERNEL_EVENT_READ_SOURCE)")
  case True
  show ?thesis
  proof (cases "OnProcess H (ks_context s, ks_ports s)")
    case (Inl e)
    then have "t = goto (thrown e) s" using assms(2,3) True by simp
    moreover have "ks_state s \<noteq> kINITIALIZED" using assms(1,2) by (auto simp: kinv_def state_ok_def)
    ultimately show ?thesis using assms(1) by (simp add: kinv_def)
  next
    case (Inr rcp)
    obtain r c P where rcp: "rcp = (r, c, P)" by (metis prod_cases3)
    have "others_step ok (ks_notifier s) (ks_ports s) P" using process_step Inr rcp by fastforce
    moreover have "t = goto (after_result (K_Term ev) r) (s\<lparr>ks_context := c, ks_ports := P\<rparr>)"
      using assms(2,3) True Inr rcp by simp
    ultimately show ?thesis
      using assms(1,2)
      by (intro hook_kinv [OF assms(1), of P "after_result (K_Term ev) r" "ks_state s" "ks_scheduled s"])
        (auto simp: after_result_def state_ok_def kinv_def)
  qed
next
  case False
  then show ?thesis using assms by (auto simp: kinv_def state_ok_def)
qed

lemma flush_sub_kinv:
  assumes inv: "kinv ok s" and pc: "ks_pc s = K_FlushSub site" and step: "kernel_step Q H s = Some t"
  shows "kinv ok t"
proof -
  have so: "state_ok (ks_state s) (ks_pc s) (ks_scheduled s)" and "kports_ok ok (ks_ports s)" using inv by (auto simp: kinv_def)
  then obtain u where u: "k_flush Q s = Some u" "same_kernel ok s u" using k_flush_returns by blast
  then have "t = goto (K_WatchSub site) (on_store (Source_Deactivate (kp_source (ks_ports u))) u)"
    using step pc by simp
  then show ?thesis
    using same_kinv [OF inv same_kernel_trans [OF u(2) kernel_store_ops(2)]] pc so by (simp add: state_ok_def)
qed

lemma watch_kinv:
  assumes inv: "kinv ok s" and pc: "ks_pc s = K_WatchAny \<or> ks_pc s = K_WatchSub site" and step: "kernel_step Q H s = Some t"
  shows "kinv ok t"
proof -
  have dn: "dn_inv (k_dn s)" using inv by (simp add: kinv_def)
  obtain f n g m where w: "AsyncWatchAny (k_dn s) = (f, n)" "AsyncWatch [ev_sub, ev_term] (k_dn s) = (g, m)" by fastforce
  show ?thesis
    using watch_any_starts(1,2) [OF w(1) dn] watch_sub_starts(1) [OF w(2) dn] watch_sub_starts(2) [OF w(2) dn, of site]
      w step pc inv
    by (auto simp: kinv_def state_ok_def simp del: event_value.simps)
qed

lemma terminate_kinv:
  assumes inv: "kinv ok s" and pc: "ks_pc s = K_Term ev \<or> ks_pc s = K_WTerm site ev" and step: "kernel_step Q H s = Some t"
  shows "kinv ok t"
proof (cases "HasState ev ev_term")
  case True
  have so: "state_ok (ks_state s) (ks_pc s) (ks_scheduled s)" and "kports_ok ok (ks_ports s)" using inv by (auto simp: kinv_def)
  then obtain u where u: "OnTerminate Q s = Some (kEND, u)" "same_kernel ok s u" using OnTerminate_returns by blast
  have "kinv ok (goto K_End u)" using same_kinv [OF inv u(2), of K_End] so pc by (auto simp: state_ok_def)
  then show ?thesis using True step pc u(1) by (auto simp del: event_value.simps)
next
  case False
  then show ?thesis using step pc inv by (auto simp: state_ok_def kinv_def simp del: event_value.simps)
qed

lemma subscription_kinv:
  assumes inv: "kinv ok s" and pc: "ks_pc s = K_Sub ev \<or> ks_pc s = K_WSub site ev" and step: "kernel_step Q H s = Some t"
  shows "kinv ok t"
proof -
  have P: "kports_ok ok (ks_ports s)" using inv by (simp add: kinv_def)
  obtain res s1 where s1: "OnSinkSubscription s = (res, s1)" by fastforce
  then obtain u where u: "res = kNEXT" "same_kernel ok s s1" "k_flush Q s1 = Some u" "same_kernel ok s u"
    using OnSinkSubscription_flush [OF P s1] by blast
  let ?next = "case ks_pc s of K_Sub ev \<Rightarrow> K_Unsub ev | _ \<Rightarrow> site_next site"
  have "await_ok ?next n" "state_ok (ks_state s) ?next (ks_scheduled s)" for n
    using inv pc by (auto simp: kinv_def site_next_def state_ok_def split: wait_site.splits)
  then have "kinv ok (goto ?next v)" if "same_kernel ok s v" for v
    using same_kinv [OF inv that, of ?next] by simp
  then show ?thesis
    using step pc s1 u by (auto simp: same_kernel_def simp del: event_value.simps split: if_splits)
qed

lemma own_kinv:
  assumes inv: "kinv ok s" and step: "kernel_step Q H s = Some t"
  shows "kinv ok t"
proof -
  note step_kinv = init_kinv end_kinv process_kinv flush_sub_kinv watch_kinv terminate_kinv subscription_kinv
  show ?thesis
    by (cases "ks_pc s"; (use step_kinv [OF inv _ step] in blast)?;
        use inv step in \<open>auto simp: kinv_def state_ok_def split: if_splits\<close>)
qed

lemma kinv_kstep: "kstep Q H ok s t \<Longrightarrow> kinv ok s \<Longrightarrow> kinv ok t"
proof (induction rule: kstep.induct)
  case (ks_own s t)
  then show ?case using own_kinv by blast
next
  case (ks_others s P)
  then show ?case
    using others_step_facts [OF ks_others(1,2)] dn_inv_fold await_ok_Notify by (auto simp: kinv_def)
next
  case (ks_init s made ctx)
  then show ?case by (auto simp: AsyncInit_def kinv_def state_ok_def)
next
  case (ks_run s cb)
  then show ?case
    by (cases "ks_state s = kINITIALIZED") (auto simp: Kernel_Run_def kinv_def state_ok_def is_completed_def)
next
  case (ks_terminate s)
  then show ?case
    using await_ok_Notify [of "ks_pc s" "k_dn s" "[kKERNEL_EVENT_TERMINATE]"]
    by (auto simp: AsyncTerminate_def kinv_def dn_inv_Notify state_ok_def simp del: event_value.simps split: kpc.splits)
qed

end
section \<open>Termination\<close>

text \<open>A kernel that is being terminated: the event is in the value it goes on with, or still with the notifier.\<close>

fun carries_term :: "kpc \<Rightarrow> DfNotifier \<Rightarrow> bool" where
  "carries_term (K_AwaitSub site f) n \<longleftrightarrow> (case future_value n f of Some v \<Rightarrow> HasState v ev_term | None \<Rightarrow> False)"
| "carries_term (K_AwaitAny f) n \<longleftrightarrow> (case future_value n f of Some v \<Rightarrow> HasState v ev_term | None \<Rightarrow> False)"
| "carries_term (K_WTerm site ev) n \<longleftrightarrow> HasState ev ev_term"
| "carries_term (K_Process ev) n \<longleftrightarrow> HasState ev ev_term"
| "carries_term (K_Term ev) n \<longleftrightarrow> HasState ev ev_term"
| "carries_term K_End n \<longleftrightarrow> True"
| "carries_term K_Catch n \<longleftrightarrow> True"
| "carries_term (K_Returned r) n \<longleftrightarrow> True"
| "carries_term pc n \<longleftrightarrow> False"

fun pc_rank :: "kpc \<Rightarrow> bool \<Rightarrow> nat" where
  "pc_rank (K_Returned r) c = 0"
| "pc_rank K_Catch c = 1"
| "pc_rank K_End c = 2"
| "pc_rank (K_Term ev) c = (if c then 3 else 11)"
| "pc_rank (K_Process ev) c = (if c then 4 else 12)"
| "pc_rank (K_AwaitAny f) c = (if c then 5 else 13)"
| "pc_rank (K_WTerm site ev) c = (if c then 3 else 10)"
| "pc_rank (K_AwaitSub site f) c = (if c then 4 else 11)"
| "pc_rank K_WatchAny c = 6"
| "pc_rank (K_WatchSub site) c = 5"
| "pc_rank (K_FlushSub site) c = 6"
| "pc_rank K_Update c = 7"
| "pc_rank K_Loop c = 8"
| "pc_rank K_SetRun c = 9"
| "pc_rank K_Check c = 10"
| "pc_rank K_Yield c = 11"
| "pc_rank (K_Unsub ev) c = 9"
| "pc_rank (K_Sub ev) c = 10"
| "pc_rank (K_WSub site ev) c = 9"
| "pc_rank pc c = 13"

definition k_rank :: "('q, 'z) ksys \<Rightarrow> nat" where
  "k_rank s = pc_rank (ks_pc s) (carries_term (ks_pc s) (k_dn s))"

definition terminating :: "('q \<Rightarrow> bool) \<Rightarrow> ('q, 'z) ksys \<Rightarrow> bool" where
  "terminating ok s \<longleftrightarrow> kinv ok s \<and> (carries_term (ks_pc s) (k_dn s) \<or> has_event ev_term (k_dn s))
     \<and> ks_pc s \<noteq> K_None \<and> ks_pc s \<noteq> K_Init \<and> (ks_pc s = K_Yield \<longrightarrow> ks_scheduled s)"

lemma k_rank_bound: "k_rank s \<le> 13"
  by (cases "ks_pc s") (simp_all add: k_rank_def)

lemma thrown_ends [simp]: "carries_term (thrown e) n" "Suc 0 < m \<Longrightarrow> pc_rank (thrown e) c < m"
  by (cases e; simp add: thrown_def)+

text \<open>An event that fulfils the promise of a wait, or is in its value already.\<close>

lemma awaited_fulfilled:
  assumes "dn_inv n" "await_ok pc n" "pc = K_AwaitAny f \<or> pc = K_AwaitSub site f" "has_event ev_term n"
  shows "\<exists>v. future_value n f = Some v"
proof (cases f)
  case (FutureOf p)
  have "dn_notify_state n \<noteq> 0"
    using assms(4) unfolding has_event_def by (rule HasState_nonzero [OF event_bits_values])
  then have "dn_notified n \<and> p = dn_promise n"
    using assms(2-4) FutureOf by (auto simp: watching_any_def watching_sub_def)
  then show ?thesis using notified_fulfilled [OF assms(1)] FutureOf by auto
qed (simp add: future_value_def)

lemma has_event_others:
  assumes "others_step ok (ks_notifier s) (ks_ports s) P" "kinv ok s" "has_event e (k_dn s)"
  shows "has_event e (st_notifiers (kp_store P) ! ks_notifier s)"
  using others_step_facts [OF assms(1,2)] assms(3) by (auto simp: has_event_Notify_mono)

text \<open>Other threads do not undo a termination and do not make it longer.\<close>

lemma carries_term_Notify:
  "dn_inv n \<Longrightarrow> carries_term pc n \<Longrightarrow> carries_term pc (fold Notify es n)"
  by (cases "(pc, n)" rule: carries_term.cases) (auto split: option.splits simp: future_value_Notify)

lemma pc_rank_carries: "pc_rank pc True \<le> pc_rank pc False"
  by (cases pc) simp_all

lemma terminating_others:
  assumes "terminating ok s" "others_step ok (ks_notifier s) (ks_ports s) P" "kinv ok (s\<lparr>ks_ports := P\<rparr>)"
  shows "terminating ok (s\<lparr>ks_ports := P\<rparr>) \<and> k_rank (s\<lparr>ks_ports := P\<rparr>) \<le> k_rank s"
proof -
  have inv: "kinv ok s" "dn_inv (k_dn s)" using assms(1) by (auto simp: terminating_def kinv_def)
  then obtain es where "st_notifiers (kp_store P) ! ks_notifier s = fold Notify (map event_value es) (k_dn s)"
    using others_step_facts [OF assms(2)] by blast
  then have "carries_term (ks_pc s) (k_dn s) \<Longrightarrow> carries_term (ks_pc s) (k_dn (s\<lparr>ks_ports := P\<rparr>))"
    using carries_term_Notify [OF inv(2)] by simp
  then show ?thesis
    using assms has_event_others [OF assms(2) inv(1)] pc_rank_carries [of "ks_pc s"]
    by (cases "carries_term (ks_pc s) (k_dn s)"; cases "carries_term (ks_pc s) (k_dn (s\<lparr>ks_ports := P\<rparr>))")
      (auto simp: terminating_def k_rank_def)
qed

definition term_advances :: "('q, 'z) ksys \<Rightarrow> ('q, 'z) ksys \<Rightarrow> bool" where
  "term_advances s t \<longleftrightarrow> (carries_term (ks_pc t) (k_dn t) \<or> has_event ev_term (k_dn t))
     \<and> k_rank t < k_rank s \<and> ks_pc t \<notin> {K_None, K_Init, K_Yield}"

context kernel_hooks
begin

lemma terminating_process:
  assumes T: "terminating ok s" and pc: "ks_pc s = K_Process ev"
  shows "\<exists>t. kernel_step Q H s = Some t \<and> (carries_term (ks_pc t) (k_dn t) \<or> has_event ev_term (k_dn t))
     \<and> (ks_pc t = K_Term ev \<or> ks_pc t = K_End \<or> (\<exists>e. ks_pc t = thrown e))"
proof (cases "HasState ev (event_value kKERNEL_EVENT_READ_SOURCE)")
  case True
  have inv: "kinv ok s" using T by (simp add: terminating_def)
  show ?thesis
  proof (cases "OnProcess H (ks_context s, ks_ports s)")
    case (Inl e)
    then show ?thesis using True pc by auto
  next
    case (Inr rcp)
    obtain r c P where rcp: "rcp = (r, c, P)" by (metis prod_cases3)
    have P: "others_step ok (ks_notifier s) (ks_ports s) P" using process_step Inr rcp by fastforce
    show ?thesis
      using True pc Inr rcp T has_event_others [OF P inv, of ev_term]
      by (auto simp: after_result_def terminating_def simp del: event_value.simps)
  qed
next
  case False
  then show ?thesis using pc T by (auto simp: terminating_def simp del: event_value.simps)
qed

lemma terminating_on_terminate:
  assumes "kinv ok s" "ks_pc s = K_Term ev \<or> ks_pc s = K_WTerm site ev" "HasState ev ev_term"
  shows "\<exists>t. kernel_step Q H s = Some t \<and> ks_pc t = K_End"
  using OnTerminate_returns [of s] assms by (auto simp: kinv_def simp del: event_value.simps)

lemma terminating_end:
  assumes "ks_pc s = K_End \<or> ks_pc s = K_Catch"
  shows "\<exists>t r. kernel_step Q H s = Some t \<and> (ks_pc t = K_Returned r \<or> ks_pc s = K_End \<and> (\<exists>e. ks_pc t = thrown e))"
  using assms by (auto simp: dispose_def Let_def split: sum.splits prod.splits)

lemma terminating_sub:
  assumes "kinv ok s" "ks_pc s = K_Sub ev \<or> ks_pc s = K_WSub site ev"
  shows "\<exists>t. kernel_step Q H s = Some t \<and> k_dn t = k_dn s
     \<and> ks_pc t = (case ks_pc s of K_Sub ev \<Rightarrow> K_Unsub ev | _ \<Rightarrow> site_next site)"
proof -
  obtain res s1 where s1: "OnSinkSubscription s = (res, s1)" by fastforce
  moreover have "kports_ok ok (ks_ports s)" using assms(1) by (simp add: kinv_def)
  ultimately obtain u where "res = kNEXT" "same_kernel ok s s1" "k_flush Q s1 = Some u" "same_kernel ok s u"
    using OnSinkSubscription_flush by blast
  then show ?thesis using s1 assms(2) by (auto simp: same_kernel_def simp del: event_value.simps)
qed

text \<open>The cases of a terminating kernel's step, by the program counter: each moves on, keeps the request to
  terminate in sight and comes closer to the end.\<close>

lemma terminating_term:
  assumes T: "terminating ok s" and pc: "ks_pc s = K_Term e \<or> ks_pc s = K_WTerm site e"
  shows "\<exists>t. kernel_step Q H s = Some t \<and> term_advances s t"
proof (cases "HasState e ev_term")
  case True
  then obtain t where "kernel_step Q H s = Some t" "ks_pc t = K_End"
    using terminating_on_terminate pc T unfolding terminating_def by blast
  then show ?thesis using pc by (auto simp: term_advances_def k_rank_def simp del: kernel_step.simps)
next
  case False
  then show ?thesis using pc T by (auto simp: term_advances_def terminating_def k_rank_def)
qed

lemma terminating_subscription:
  assumes T: "terminating ok s" and pc: "ks_pc s = K_Sub e \<or> ks_pc s = K_WSub site e"
  shows "\<exists>t. kernel_step Q H s = Some t \<and> term_advances s t"
proof -
  obtain t where "kernel_step Q H s = Some t" "k_dn t = k_dn s"
    "ks_pc t = (case ks_pc s of K_Sub ev \<Rightarrow> K_Unsub ev | _ \<Rightarrow> site_next site)"
    using terminating_sub [of s e site] T pc unfolding terminating_def by blast
  then show ?thesis using pc T
    by (auto simp: term_advances_def terminating_def k_rank_def site_next_def
        simp del: kernel_step.simps split: wait_site.splits)
qed

lemma terminating_await:
  assumes T: "terminating ok s" and pc: "ks_pc s = K_AwaitAny f \<or> ks_pc s = K_AwaitSub site f"
  shows "\<exists>t. kernel_step Q H s = Some t \<and> term_advances s t"
proof -
  obtain v where "future_value (k_dn s) f = Some v"
    using T pc awaited_fulfilled [of "k_dn s" "ks_pc s" f] by (auto simp: terminating_def kinv_def split: option.splits)
  then show ?thesis using pc T
    by (auto simp: term_advances_def terminating_def k_rank_def simp del: event_value.simps)
qed

lemma terminating_watch:
  assumes T: "terminating ok s" and pc: "ks_pc s = K_WatchAny \<or> ks_pc s = K_WatchSub site"
  shows "\<exists>t. kernel_step Q H s = Some t \<and> term_advances s t"
proof -
  have dn: "dn_inv (k_dn s)" and k: "ks_notifier s < length (st_notifiers (kp_store (ks_ports s)))"
    and ev: "has_event ev_term (k_dn s)"
    using T pc by (auto simp: terminating_def kinv_def)
  obtain f n g m where w: "AsyncWatchAny (k_dn s) = (f, n)" "AsyncWatch [ev_sub, ev_term] (k_dn s) = (g, m)" by fastforce
  obtain v u where "f = ResolvedFuture v" "HasState v ev_term" "g = ResolvedFuture u" "HasState u ev_term"
    using watch_any_starts(3) [OF w(1) dn] watch_sub_starts(3) [OF w(2) dn] ev by blast
  then show ?thesis using w k pc
    by (auto simp: term_advances_def k_rank_def future_value_def simp del: event_value.simps)
qed

lemma terminating_flush:
  assumes T: "terminating ok s" and pc: "ks_pc s = K_FlushSub site"
  shows "\<exists>t. kernel_step Q H s = Some t \<and> term_advances s t"
proof -
  obtain u where u: "k_flush Q s = Some u" "same_kernel ok s u"
    using k_flush_returns [of s] T by (auto simp: terminating_def kinv_def)
  have "k_dn (on_store (Source_Deactivate (kp_source (ks_ports u))) u) = k_dn s"
    using same_kernel_trans [OF u(2) kernel_store_ops(2)] by (simp add: same_kernel_def)
  then show ?thesis using pc u(1) T by (auto simp: term_advances_def terminating_def k_rank_def)
qed

lemma terminating_step:
  assumes T: "terminating ok s"
  shows "is_completed s \<or> (\<exists>t. kernel_step Q H s = Some t \<and> terminating ok t \<and> k_rank t < k_rank s)"
proof -
  have inv: "kinv ok s" and ev: "carries_term (ks_pc s) (k_dn s) \<or> has_event ev_term (k_dn s)"
    using T by (auto simp: terminating_def)
  have go: ?thesis if "\<exists>t. kernel_step Q H s = Some t \<and> term_advances s t"
    using that own_kinv [OF inv] by (auto simp: terminating_def term_advances_def simp del: kernel_step.simps)
  show ?thesis
  proof (cases "ks_pc s")
    case (K_Process e)
    then show ?thesis using terminating_process [OF T K_Process]
      by (intro go) (fastforce simp: term_advances_def k_rank_def simp del: kernel_step.simps)
  next
    case K_End
    then show ?thesis using terminating_end
      by (intro go) (fastforce simp: term_advances_def k_rank_def simp del: kernel_step.simps)
  next
    case K_Catch
    then show ?thesis using terminating_end
      by (intro go) (fastforce simp: term_advances_def k_rank_def simp del: kernel_step.simps)
  next
    case (K_Returned r)
    then show ?thesis by (simp add: is_completed_def)
  qed (use T ev go terminating_term [OF T] terminating_subscription [OF T] terminating_await [OF T]
        terminating_watch [OF T] terminating_flush [OF T]
       in \<open>auto simp: terminating_def term_advances_def k_rank_def simp del: event_value.simps\<close>)
qed

lemma terminating_run:
  assumes "krun Q H ok n s t" "terminating ok s"
  shows "terminating ok t \<and> k_rank t + n \<le> k_rank s"
  using assms
proof (induction rule: krun.induct)
  case (krun_own n s t u)
  have "\<not> is_completed t" using krun_own(2) by (auto simp: is_completed_def split: kpc.splits)
  then show ?case using krun_own terminating_step [of t] by auto
next
  case (krun_others n s t P)
  have "kinv ok (t\<lparr>ks_ports := P\<rparr>)"
    using kinv_kstep [OF kstep.ks_others [OF krun_others(2)]] krun_others(3,4) by (simp add: terminating_def)
  then show ?case using krun_others terminating_others [of ok t P] by auto
qed simp

lemma terminate_starts:
  fixes s :: "('q, 'z) ksys"
  assumes "kinv ok s" "ks_state s = kRUNNING \<or> ks_state s = kINITIALIZED"
  shows "terminating ok (snd (AsyncTerminate s))"
proof -
  have "kinv ok (snd (AsyncTerminate s))" using kinv_kstep [OF ks_terminate assms(1)] .
  moreover have "has_event ev_term (k_dn (snd (AsyncTerminate s)))"
    using assms by (auto simp: AsyncTerminate_def kinv_def simp del: event_value.simps)
  moreover have so: "state_ok (ks_state s) (ks_pc s) (ks_scheduled s)" using assms(1) by (simp add: kinv_def)
  then have "ks_pc s \<noteq> K_None \<and> ks_pc s \<noteq> K_Init" using assms(2) by (auto simp: state_ok_def)
  moreover have "ks_pc (snd (AsyncTerminate s)) = ks_pc s" using assms(2) by (auto simp: AsyncTerminate_def)
  moreover have "ks_scheduled (snd (AsyncTerminate s))" if "ks_pc s = K_Yield"
    using that so assms(2) by (auto simp: AsyncTerminate_def state_ok_def)
  ultimately show ?thesis by (simp add: terminating_def del: event_value.simps)
qed

end
text \<open>While the value with the event is handled, the event stays with the notifier.\<close>

context kernel_hooks
begin

lemma carried_step:
  assumes "terminating ok s" "carries_term (ks_pc s) (k_dn s)" "has_event ev_term (k_dn s)" "kernel_step Q H s = Some t"
  shows "carries_term (ks_pc t) (k_dn t) \<and> has_event ev_term (k_dn t)"
proof -
  have inv: "kinv ok s" using assms(1) by (simp add: terminating_def)
  then have P: "kports_ok ok (ks_ports s)" by (simp add: kinv_def)
  obtain u where u: "OnTerminate Q s = Some (kEND, u)" "k_dn u = k_dn s"
    using OnTerminate_returns [OF P] by (auto simp: same_kernel_def)
  have hook: "has_event ev_term (st_notifiers (kp_store p) ! ks_notifier s)"
    if "others_step ok (ks_notifier s) (ks_ports s) p" for p
    using has_event_others [OF that inv assms(3)] .
  show ?thesis
  proof (cases "ks_pc s")
    case (K_Process ev)
    then show ?thesis
      using assms(2-4) hook [OF process_step]
      by (auto simp: after_result_def simp del: event_value.simps split: if_splits sum.splits)
  next
    case K_End
    then show ?thesis
      using assms(3,4) hook [OF dispose_step]
      by (auto simp: dispose_def Let_def simp del: event_value.simps split: sum.splits prod.splits)
  next
    case K_Catch
    then show ?thesis
      using assms(3,4) hook [OF dispose_step]
      by (auto simp: dispose_def Let_def simp del: event_value.simps split: sum.splits prod.splits)
  qed (use assms u in \<open>auto simp del: event_value.simps split: option.splits\<close>)
qed

lemma carried_run:
  assumes "krun Q H ok n s t" "terminating ok s" "carries_term (ks_pc s) (k_dn s)" "has_event ev_term (k_dn s)"
  shows "carries_term (ks_pc t) (k_dn t) \<and> has_event ev_term (k_dn t)"
  using assms
proof (induction rule: krun.induct)
  case (krun_own n s t u)
  then show ?case using carried_step [of t u] terminating_run [OF krun_own(1)] by blast
next
  case (krun_others n s t P)
  have "terminating ok t" using terminating_run [OF krun_others(1)] krun_others(4) by blast
  then show ?case
    using krun_others others_step_facts [OF krun_others(2)] has_event_others [OF krun_others(2)] carries_term_Notify
    by (auto simp: terminating_def kinv_def)
qed simp

lemma Notify_awaited:
  assumes dn: "dn_inv (k_dn s)" and aw: "await_ok (ks_pc s) (k_dn s)"
    and pc: "ks_pc s = K_AwaitAny f \<or> ks_pc s = K_AwaitSub site f" and none: "future_value (k_dn s) f = None"
  shows "\<exists>v. future_value (Notify ev_term (k_dn s)) f = Some v \<and> HasState v ev_term"
proof -
  obtain p where p: "f = FutureOf p" "watching_any p (k_dn s) \<or> watching_sub p (k_dn s)"
    using pc none aw by (cases f) (auto simp: future_value_def)
  then have w: "dn_promise (k_dn s) = p" "\<not> dn_notified (k_dn s)"
    "dn_watch_any (k_dn s) \<or> HasState (ucast (dn_watch_state (k_dn s))) ev_term"
    using none notified_fulfilled [OF dn] by (auto simp: watching_any_def watching_sub_def simp del: event_value.simps)
  obtain v where "(p, v) \<in> set (dn_calls (Notify ev_term (k_dn s)))" "HasState v ev_term"
    using Notify_fulfils [OF w(2,3) event_bits_values] w(1) by blast
  then show ?thesis using dn_inv_Notify [OF dn, of ev_term] p(1) by (auto simp: dn_inv_def future_value_def)
qed

lemma terminate_waiting:
  assumes "kinv ok s" "ks_state s = kRUNNING" "kernel_step Q H s = None"
  shows "carries_term (ks_pc (snd (AsyncTerminate s))) (k_dn (snd (AsyncTerminate s)))
    \<and> has_event ev_term (k_dn (snd (AsyncTerminate s)))"
proof -
  have k: "ks_notifier s < length (st_notifiers (kp_store (ks_ports s)))" and dn: "dn_inv (k_dn s)"
    and aw: "await_ok (ks_pc s) (k_dn s)" using assms(1) by (auto simp: kinv_def)
  have n: "k_dn (snd (AsyncTerminate s)) = Notify ev_term (k_dn s)" "ks_pc (snd (AsyncTerminate s)) = ks_pc s"
    using assms(2) k by (simp_all add: AsyncTerminate_def)
  have "carries_term (ks_pc s) (Notify ev_term (k_dn s))"
  proof (cases "ks_pc s")
    case (K_AwaitSub site f)
    then show ?thesis using Notify_awaited [OF dn aw, of f site] assms(3) by (auto simp del: event_value.simps)
  next
    case (K_AwaitAny f)
    then show ?thesis using Notify_awaited [OF dn aw, of f] assms(3) by (auto simp del: event_value.simps)
  next
    case (K_Term ev)
    then show ?thesis using assms OnTerminate_returns [of s] by (auto simp: kinv_def simp del: event_value.simps split: if_splits)
  next
    case (K_WTerm site ev)
    then show ?thesis using assms OnTerminate_returns [of s] by (auto simp: kinv_def simp del: event_value.simps split: if_splits)
  next
    case (K_FlushSub site)
    then show ?thesis using assms k_flush_returns [of s] by (auto simp: kinv_def)
  next
    case (K_Sub ev)
    then show ?thesis using assms terminating_sub [of s ev] by (auto simp del: kernel_step.simps)
  next
    case (K_WSub site ev)
    then show ?thesis using assms terminating_sub [of s ev site] by (auto simp del: kernel_step.simps)
  qed (use assms in \<open>auto simp: kinv_def state_ok_def Let_def split: if_splits sum.splits prod.splits\<close>)
  then show ?thesis unfolding n by (simp del: event_value.simps)
qed

end

section \<open>Reachable states\<close>

definition kernel_start :: "('q, 'z) ksys \<Rightarrow> bool" where
  "kernel_start s \<longleftrightarrow> s = new_Kernel (ks_notifier s) (ks_resource s) (ks_context s) (kp_store (ks_ports s))
     \<and> ks_notifier s < length (st_notifiers (kp_store (ks_ports s))) \<and> k_dn s = new_DfNotifier"

lemma kinv_start:
  assumes "kernel_start s" shows "kinv ok s"
proof -
  have "ks_pc s = K_None" "ks_state s = kREADY" "src_port_map (kp_source (ks_ports s)) = []"
    using assms unfolding kernel_start_def new_Kernel_def by (metis ksys.select_convs kports.select_convs(1) Source.select_convs(2))+
  then show ?thesis using assms
    by (simp add: kernel_start_def kinv_def kports_ok_def source_ok_def dn_inv_new state_ok_def)
qed

sublocale kernel_hooks < life: step_invariant kernel_start "kstep Q H ok" "kinv ok"
  by unfold_locales (auto intro: kinv_start kinv_kstep)

context kernel_hooks
begin

lemma reachable_kinv: "kernel_start s0 \<Longrightarrow> (kstep Q H ok)\<^sup>*\<^sup>* s0 s \<Longrightarrow> kinv ok s"
  by (rule life.inv_reachable)

end

text \<open>
  How often \<open>OnDispose\<close> was called: in the handler of exceptions it may be for the second time,
  and an exception that has no handler can leave the loop before any call.
\<close>

definition lost :: "('q, 'z) ksys \<Rightarrow> bool" where
  "lost s \<longleftrightarrow> ks_pc s = K_Returned (Inl OtherException)"

definition disposed_ok :: "bool \<Rightarrow> ('q, 'z) ksys \<Rightarrow> bool" where
  "disposed_ok quiet s \<longleftrightarrow>
     (if is_completed s then ks_disposed s \<le> 2 \<and> (\<not> lost s \<longrightarrow> 1 \<le> ks_disposed s) else ks_disposed s \<le> (if ks_pc s = K_Catch then 1 else 0))
     \<and> (quiet \<longrightarrow> ks_disposed s = (if is_completed s \<and> \<not> lost s then 1 else 0))"

lemma helper_disposed:
  "k_flush Q s = Some t \<Longrightarrow> ks_disposed t = ks_disposed s" "OnTerminate Q s = Some (r, t) \<Longrightarrow> ks_disposed t = ks_disposed s"
  "OnSinkSubscription s = (r, t) \<Longrightarrow> ks_disposed t = ks_disposed s" "ks_disposed (on_store f s) = ks_disposed s"
  by (auto simp: k_flush_def OnTerminate_def OnSinkSubscription_def on_store_def Let_def)

lemmas disposed_simps = disposed_ok_def is_completed_def lost_def thrown_def dispose_def Let_def

lemma disposed_hook:
  assumes "quiet \<longrightarrow> (\<forall>c P e. OnDispose H (c, P) \<noteq> Inl e)" "kernel_step Q H s = Some t" "disposed_ok quiet s"
    and "ks_pc s = K_Init \<or> ks_pc s = K_End \<or> ks_pc s = K_Catch \<or> (\<exists>ev. ks_pc s = K_Process ev)"
  shows "disposed_ok quiet t"
  using assms(4)
proof (elim disjE)
  assume "ks_pc s = K_Init"
  then show ?thesis using assms(1-3) by (auto simp: disposed_simps split: if_splits sum.splits prod.splits k_exception.splits)
next
  assume "ks_pc s = K_End"
  then show ?thesis using assms(1-3) by (auto simp: disposed_simps split: if_splits sum.splits prod.splits k_exception.splits)
next
  assume "ks_pc s = K_Catch"
  then show ?thesis using assms(1-3) by (auto simp: disposed_simps split: if_splits sum.splits prod.splits)
next
  assume "\<exists>ev. ks_pc s = K_Process ev"
  then show ?thesis using assms(1-3)
    by (auto simp: disposed_simps after_result_def split: if_splits sum.splits prod.splits k_exception.splits)
qed

lemma disposed_step:
  assumes quiet: "quiet \<longrightarrow> (\<forall>c P e. OnDispose H (c, P) \<noteq> Inl e)"
    and "kstep Q H ok s t" "disposed_ok quiet s"
  shows "disposed_ok quiet t"
  using assms(2,3)
proof (induction rule: kstep.induct)
  case (ks_own s t)
  show ?case
    by (cases "ks_pc s"; (use disposed_hook [OF quiet ks_own] in blast)?;
        use ks_own in \<open>auto simp: disposed_ok_def is_completed_def lost_def after_result_def site_next_def helper_disposed Let_def
        simp del: event_value.simps split: if_splits sum.splits prod.splits wait_site.splits\<close>)
qed (auto simp: disposed_ok_def is_completed_def lost_def AsyncInit_def Kernel_Run_def AsyncTerminate_def Let_def)

lemma disposed_reachable:
  assumes "kernel_start s0" "(kstep Q H ok)\<^sup>*\<^sup>* s0 s" "quiet \<longrightarrow> (\<forall>c P e. OnDispose H (c, P) \<noteq> Inl e)"
  shows "disposed_ok quiet s"
proof -
  have "ks_pc s0 = K_None" "ks_disposed s0 = 0"
    using assms(1) unfolding kernel_start_def new_Kernel_def by (metis ksys.select_convs)+
  then have "disposed_ok quiet s0" by (simp add: disposed_ok_def is_completed_def)
  with assms(2) show ?thesis
    by (induction rule: rtranclp_induct) (use disposed_step [OF assms(3)] in blast)+
qed

text \<open>Functions of the user that throw nothing but \<open>std::exception\<close>: such a kernel is never lost.\<close>

definition std_hooks :: "('q, 'z) hooks \<Rightarrow> bool" where
  "std_hooks H \<longleftrightarrow> (\<forall>x. OnInit H x \<noteq> Inl OtherException \<and> OnProcess H x \<noteq> Inl OtherException \<and> OnDispose H x \<noteq> Inl OtherException)"

lemma std_hooksD:
  "std_hooks H \<Longrightarrow> OnInit H x \<noteq> Inl OtherException" "std_hooks H \<Longrightarrow> OnProcess H x \<noteq> Inl OtherException"
  "std_hooks H \<Longrightarrow> OnDispose H x \<noteq> Inl OtherException"
  unfolding std_hooks_def by blast+

lemma thrown_lost: "thrown e = K_Returned (Inl OtherException) \<longleftrightarrow> e = OtherException"
  by (cases e) (simp_all add: thrown_def)

lemma std_hooks_own:
  assumes "std_hooks H" "kernel_step Q H s = Some t" shows "\<not> lost t"
  by (cases "ks_pc s"; use assms(2) in \<open>auto simp: lost_def after_result_def site_next_def dispose_def Let_def thrown_lost std_hooksD [OF assms(1)]
        simp del: event_value.simps split: if_splits sum.splits prod.splits wait_site.splits\<close>)

lemma std_hooks_reachable:
  assumes "std_hooks H" "kernel_start s0" "(kstep Q H ok)\<^sup>*\<^sup>* s0 s" shows "\<not> lost s"
proof -
  have "ks_pc s0 = K_None" using assms(2) unfolding kernel_start_def new_Kernel_def by (metis ksys.select_convs(2))
  then have "\<not> lost s0" by (simp add: lost_def)
  with assms(3) show ?thesis
  proof (induction rule: rtranclp_induct)
    case (step t u)
    from step.hyps(2) step.IH [OF step.prems] show ?case
      by (induction rule: kstep.induct)
        (use std_hooks_own [OF assms(1)] in blast, auto simp: lost_def AsyncInit_def Kernel_Run_def AsyncTerminate_def)
  qed
qed

lemma std_hooks_run: "krun Q H ok n s t \<Longrightarrow> std_hooks H \<Longrightarrow> \<not> lost s \<Longrightarrow> \<not> lost t"
  by (induction rule: krun.induct) (blast, use std_hooks_own in blast, simp add: lost_def)

section \<open>A kernel that reads its messages\<close>

text \<open>The functions of a small kernel: a message is read from port \<open>input\<close> when there is one.\<close>

definition read_hooks :: "('q, 'a) spsc \<Rightarrow> ('q, 'z) hooks" where
  "read_hooks Q = \<lparr>
     OnInit = (\<lambda>(c, P). Inr (0, c, P)),
     OnProcess = (\<lambda>(c, P). case Source_At ''input'' (kp_source P) of
        Inl e \<Rightarrow> Inl (StdException e)
      | Inr a \<Rightarrow> Inr (kNEXT, c, P\<lparr>kp_store := snd (SourcePort_Read Q a (kp_store P))\<rparr>)),
     OnDispose = (\<lambda>(c, P). Inr (c, P))\<rparr>"

interpretation reader: kernel_hooks "fifo_ops moved" fb_queue fifo_limit "\<lambda>_. True" "read_hooks (fifo_ops moved)"
  for moved :: "'a \<Rightarrow> 'a"
proof (unfold_locales)
  fix c c' :: "'z KernelContext_scheme" and P P' :: "'a FIFOBuffer kports" and r res k
  show "OnInit (read_hooks (fifo_ops moved)) (c, P) = Inr (r, c', P') \<Longrightarrow> others_step (\<lambda>_. True) k P P'"
    "OnDispose (read_hooks (fifo_ops moved)) (c, P) = Inr (c', P') \<Longrightarrow> others_step (\<lambda>_. True) k P P'"
    by (simp_all add: read_hooks_def others_step_refl)
  have "others_step (\<lambda>_. True) k P (P\<lparr>kp_store := snd (SourcePort_Read (fifo_ops moved) a (kp_store P))\<rparr>)" for a
    by (auto simp: others_step_def kports_ok_def source_ok_def SourcePort_Read_def intro: exI [of _ "[]"]
        split: option.splits)
  then show "OnProcess (read_hooks (fifo_ops moved)) (c, P) = Inr (res, c', P') \<Longrightarrow> others_step (\<lambda>_. True) k P P'"
    by (auto simp: read_hooks_def split: sum.splits)
qed

text \<open>Steps of the coroutine alone.\<close>

fun own_steps :: "('q, 'a) spsc \<Rightarrow> ('q, 'z) hooks \<Rightarrow> nat \<Rightarrow> ('q, 'z) ksys \<Rightarrow> ('q, 'z) ksys option" where
  "own_steps Q H 0 s = Some s"
| "own_steps Q H (Suc n) s = Option.bind (own_steps Q H n s) (kernel_step Q H)"

lemma own_steps_krun: "own_steps Q H n s = Some t \<Longrightarrow> krun Q H ok n s t"
  by (induction n arbitrary: t)
    (auto intro: krun.intros simp del: kernel_step.simps simp: bind_eq_Some_conv)

lemma own_steps_kstep: "own_steps Q H n s = Some t \<Longrightarrow> (kstep Q H ok)\<^sup>*\<^sup>* s t"
  by (induction n arbitrary: t)
    (auto intro: run_then kstep.intros simp del: kernel_step.simps simp: bind_eq_Some_conv)

definition demo_context :: KernelContext where
  "demo_context = \<lparr>kc_error_code = 0, kc_interrupt_callback = None, kc_interrupt_opaque = 0, kc_resource = None\<rparr>"

definition demo_kernel :: "(nat FIFOBuffer, unit) ksys" where
  "demo_kernel = new_Kernel 0 None demo_context \<lparr>st_notifiers = [new_DfNotifier], st_sources = [], st_sinks = []\<rparr>"

abbreviation demo_steps :: "nat \<Rightarrow> (nat FIFOBuffer, unit) ksys \<Rightarrow> (nat FIFOBuffer, unit) ksys option" where
  "demo_steps \<equiv> own_steps (fifo_ops id) (read_hooks (fifo_ops id))"

lemmas demo_simps = demo_kernel_def demo_context_def new_Kernel_def AsyncInit_def read_hooks_def
  Kernel_Run_def goto_def SetResource_def is_completed_def k_SubscribersEmpty_def Sink_SubscribersEmpty_def
  k_flush_def Source_Flush_def on_store_def Source_Deactivate_def k_dn_def set_dn_def

lemma own_steps_numeral: "own_steps Q H (numeral k) s = Option.bind (own_steps Q H (pred_numeral k) s) (kernel_step Q H)"
  by (simp add: numeral_eq_Suc del: kernel_step.simps)

lemma demo_watch: "AsyncWatch [8, 4] new_DfNotifier = (FutureOf 1, new_DfNotifier\<lparr>dn_promise := 1, dn_watch_state := 12\<rparr>)"
  by (simp add: AsyncWatch_def CheckNotifications_def new_DfNotifier_def Let_def)

lemma demo_calls: "dn_calls new_DfNotifier = []"
  by (simp add: new_DfNotifier_def)

lemma demo_initialised:
  "demo_steps 1 (AsyncInit True demo_context demo_kernel) = Some (demo_kernel\<lparr>ks_pc := K_Yield, ks_state := kINITIALIZED\<rparr>)"
  by (simp add: demo_simps)

definition demo_waiting :: "(nat FIFOBuffer, unit) ksys" where
  "demo_waiting = demo_kernel\<lparr>ks_state := kRUNNING, ks_pc := K_AwaitSub InUpdate (FutureOf 1), ks_future := True,
     ks_ports := (ks_ports demo_kernel)\<lparr>kp_store := \<lparr>st_notifiers = [new_DfNotifier\<lparr>dn_promise := 1, dn_watch_state := 12\<rparr>],
       st_sources = [], st_sinks = []\<rparr>\<rparr>\<rparr>"

lemma demo_waits:
  "demo_steps 7 (snd (Kernel_Run False (demo_kernel\<lparr>ks_pc := K_Yield, ks_state := kINITIALIZED\<rparr>))) = Some demo_waiting"
  by (simp add: own_steps_numeral demo_simps demo_watch demo_waiting_def)

lemma demo_waiting_facts:
  "ks_state demo_waiting = kRUNNING" "ks_pc demo_waiting = K_AwaitSub InUpdate (FutureOf 1)"
  "kernel_step (fifo_ops id) (read_hooks (fifo_ops id)) demo_waiting = None"
  by (simp_all add: demo_simps demo_calls future_value_def demo_waiting_def)

lemma demo_restarts:
  "\<exists>t u. demo_steps 3 (snd (AsyncTerminate demo_waiting)) = Some t \<and> is_completed t
     \<and> kernel_step (fifo_ops id) (read_hooks (fifo_ops id)) (AsyncInit True demo_context t) = Some u \<and> ks_pc u = K_Yield
     \<and> ks_state u = kINITIALIZED"
proof -
  have n: "Notify 4 (new_DfNotifier\<lparr>dn_promise := Suc 0, dn_watch_state := 12\<rparr>) =
      new_DfNotifier\<lparr>dn_promise := 1, dn_watch_state := 12, dn_notify_state := 4, dn_notified := True, dn_calls := [(1, 4)]\<rparr>"
    by (simp add: Notify_def new_DfNotifier_def)
  show ?thesis
    by (simp add: own_steps_numeral demo_simps demo_waiting_def AsyncTerminate_def n future_value_def HasState_def
        OnTerminate_def Sink_UnsubscribeAll_def dispose_def Let_def)
qed

lemma demo_start: "kernel_start demo_kernel"
  by (simp add: kernel_start_def demo_kernel_def new_Kernel_def k_dn_def)

lemma demo_reaches: "(kstep (fifo_ops id) (read_hooks (fifo_ops id)) (\<lambda>_. True))\<^sup>*\<^sup>* demo_kernel demo_waiting"
proof -
  let ?S = "kstep (fifo_ops id) (read_hooks (fifo_ops id)) (\<lambda>_. True)"
  let ?y = "demo_kernel\<lparr>ks_pc := K_Yield, ks_state := kINITIALIZED\<rparr>"
  have "ks_pc demo_kernel = K_None" by (simp add: demo_kernel_def new_Kernel_def)
  then have "?S demo_kernel (AsyncInit True demo_context demo_kernel)" by (intro kstep.ks_init) simp
  then have "?S\<^sup>*\<^sup>* demo_kernel ?y"
    using own_steps_kstep [OF demo_initialised] by (rule converse_rtranclp_into_rtranclp)
  then have "?S\<^sup>*\<^sup>* demo_kernel (snd (Kernel_Run False ?y))" by (rule run_then) (rule kstep.ks_run)
  then show ?thesis using own_steps_kstep [OF demo_waits] by (rule rtranclp_trans)
qed

section \<open>Properties\<close>

text \<open>C14: a kernel that is initialised or running when \<open>AsyncTerminate\<close> is called terminates: whatever
  the other threads and the functions of the user do, its coroutine is never suspended again
  and has returned, with state \<open>kTERMINATED\<close>, after at most 13 more of its steps. (Only when a
  function of the user throws what is no \<open>std::exception\<close> may the state be another one.)\<close>

theorem kernel_terminates:
  assumes "kernel_hooks Q items cap ok H" and "kernel_start s0" and "(kstep Q H ok)\<^sup>*\<^sup>* s0 s"
    and "ks_state s = kRUNNING \<or> ks_state s = kINITIALIZED"
    and "krun Q H ok n (snd (AsyncTerminate s)) t"
  shows "n \<le> 13 \<and> (is_completed t \<and> (ks_state t = kTERMINATED \<or> ks_pc t = K_Returned (Inl OtherException) \<and> \<not> std_hooks H)
    \<or> (\<exists>u. kernel_step Q H t = Some u))"
proof -
  have "kinv ok s" using kernel_hooks.reachable_kinv [OF assms(1-3)] .
  then have T: "terminating ok (snd (AsyncTerminate s))" using kernel_hooks.terminate_starts [OF assms(1) _ assms(4)] by blast
  from kernel_hooks.terminating_run [OF assms(1,5) T]
  have t: "terminating ok t" "n \<le> 13" using k_rank_bound [of "snd (AsyncTerminate s)"] by auto
  have "is_completed t \<Longrightarrow> ks_state t = kTERMINATED \<or> ks_pc t = K_Returned (Inl OtherException)"
    using t(1) by (auto simp: terminating_def kinv_def state_ok_def is_completed_def split: kpc.splits)
  moreover have "\<not> lost t" if "std_hooks H"
    using std_hooks_run [OF assms(5) that] std_hooks_reachable [OF that assms(2) rtranclp.rtrancl_into_rtrancl [OF assms(3) ks_terminate]] by blast
  ultimately show ?thesis using kernel_hooks.terminating_step [OF assms(1) t(1)] t(2) unfolding lost_def by blast
qed

theorem kernel_terminates_witness:
  "\<exists>u. kernel_step (fifo_ops id) (read_hooks (fifo_ops id)) (snd (AsyncTerminate demo_waiting)) = Some u"
proof -
  have "ks_pc (snd (AsyncTerminate demo_waiting)) = K_AwaitSub InUpdate (FutureOf 1)"
    using demo_waiting_facts by (simp add: AsyncTerminate_def)
  then have "\<not> is_completed (snd (AsyncTerminate demo_waiting))" by (simp add: is_completed_def)
  then show ?thesis
    using kernel_terminates [OF reader.kernel_hooks_axioms demo_start demo_reaches disjI1 [OF demo_waiting_facts(1)] krun_refl]
    by blast
qed

text \<open>C19: a kernel's coroutine does not miss an event: whenever it is suspended, it has not been
  started, has been initialised and waits for \<open>Run\<close>, has returned, or is waiting for events and
  none of those it waits for was notified since it began to wait.\<close>

theorem kernel_suspended:
  assumes "kernel_hooks Q items cap ok H" and "kernel_start s0" and "(kstep Q H ok)\<^sup>*\<^sup>* s0 s"
    and "kernel_step Q H s = None"
  shows "ks_pc s = K_None \<or> ks_pc s = K_Yield \<and> ks_state s = kINITIALIZED \<or> is_completed s
     \<or> (\<exists>f. ks_pc s = K_AwaitAny f \<and> dn_notify_state (k_dn s) = 0)
     \<or> (\<exists>site f. ks_pc s = K_AwaitSub site f \<and> \<not> has_event ev_sub (k_dn s) \<and> \<not> has_event ev_term (k_dn s))"
proof -
  have inv: "kinv ok s" using kernel_hooks.reachable_kinv [OF assms(1-3)] .
  then have dn: "dn_inv (k_dn s)" and P: "kports_ok ok (ks_ports s)" and aw: "await_ok (ks_pc s) (k_dn s)"
    and so: "state_ok (ks_state s) (ks_pc s) (ks_scheduled s)" by (auto simp: kinv_def)
  have unf: "\<exists>p. f = FutureOf p \<and> (dn_promise (k_dn s) = p \<longrightarrow> \<not> dn_notified (k_dn s))" if "future_value (k_dn s) f = None" for f
    using that notified_fulfilled [OF dn] by (cases f) (auto simp: future_value_def)
  show ?thesis
  proof (cases "ks_pc s")
    case (K_AwaitAny f)
    then show ?thesis using assms(4) aw unf [of f] by (auto simp: watching_any_def)
  next
    case (K_AwaitSub site f)
    then show ?thesis using assms(4) aw unf [of f] by (auto simp: watching_sub_def simp del: event_value.simps)
  next
    case (K_Term ev)
    then show ?thesis using assms(4) kernel_hooks.OnTerminate_returns [OF assms(1) P]
      by (auto simp del: event_value.simps split: if_splits)
  next
    case (K_WTerm site ev)
    then show ?thesis using assms(4) kernel_hooks.OnTerminate_returns [OF assms(1) P]
      by (auto simp del: event_value.simps split: if_splits)
  next
    case (K_FlushSub site)
    then show ?thesis using assms(4) kernel_hooks.k_flush_returns [OF assms(1) P] by auto
  next
    case (K_Sub ev)
    then show ?thesis using assms(4) kernel_hooks.terminating_sub [OF assms(1) inv, of ev] by (auto simp del: kernel_step.simps)
  next
    case (K_WSub site ev)
    then show ?thesis using assms(4) kernel_hooks.terminating_sub [OF assms(1) inv, of ev site] by (auto simp del: kernel_step.simps)
  qed (use assms(4) so in \<open>auto simp: is_completed_def state_ok_def Let_def split: if_splits sum.splits prod.splits\<close>)
qed

theorem kernel_suspended_witness:
  "ks_pc demo_waiting = K_AwaitSub InUpdate (FutureOf 1) \<and> \<not> has_event ev_sub (k_dn demo_waiting)"
  using kernel_suspended [OF reader.kernel_hooks_axioms demo_start demo_reaches demo_waiting_facts(3)] demo_waiting_facts(2)
  by (auto simp: is_completed_def)

text \<open>The event of a termination stays with the notifier: a kernel that was terminated while it
  waited for events, and is then initialised and run again, terminates again at once although
  \<open>AsyncTerminate\<close> was not called: after \<open>Run\<close> its coroutine is not suspended any more and
  returns after at most 13 steps.\<close>

theorem kernel_restart_terminates:
  assumes "kernel_hooks Q items cap ok H" and "kernel_start s0" and "(kstep Q H ok)\<^sup>*\<^sup>* s0 s"
    and "ks_state s = kRUNNING" and "kernel_step Q H s = None"
    and "krun Q H ok n (snd (AsyncTerminate s)) t" and "is_completed t"
    and "kernel_step Q H (AsyncInit True ctx t) = Some u" and "ks_pc u = K_Yield"
    and "krun Q H ok m (snd (Kernel_Run cb u)) v"
  shows "m \<le> 13 \<and> (is_completed v \<or> (\<exists>w. kernel_step Q H v = Some w))"
proof -
  note own = kernel_hooks.own_kinv [OF assms(1)] and inv_step = kernel_hooks.kinv_kstep [OF assms(1)]
  have s: "kinv ok s" using kernel_hooks.reachable_kinv [OF assms(1-3)] .
  have T: "terminating ok (snd (AsyncTerminate s))" using kernel_hooks.terminate_starts [OF assms(1) s] assms(4) by blast
  have e: "has_event ev_term (k_dn t)"
    using kernel_hooks.carried_run [OF assms(1,6) T] kernel_hooks.terminate_waiting [OF assms(1) s assms(4,5)] by blast
  have t: "kinv ok t" using kernel_hooks.terminating_run [OF assms(1,6) T] by (simp add: terminating_def)
  have i: "kinv ok (AsyncInit True ctx t)" using inv_step [OF ks_init t] assms(7) by blast
  have "has_event ev_term (k_dn (AsyncInit True ctx t))" "ks_pc (AsyncInit True ctx t) = K_Init"
    using e by (simp_all add: AsyncInit_def)
  then have eu: "has_event ev_term (k_dn u)"
    using assms(8,9) has_event_others [OF kernel_hooks.init_step [OF assms(1)] i, of _ _ _ _ ev_term]
    by (auto simp: dispose_def Let_def simp del: event_value.simps split: sum.splits if_splits)
  have u: "kinv ok u" using own [OF i assms(8)] .
  have "ks_state u = kINITIALIZED"
    using assms(8,9) \<open>ks_pc (AsyncInit True ctx t) = K_Init\<close>
    by (auto simp: dispose_def Let_def split: sum.splits if_splits)
  then have "terminating ok (snd (Kernel_Run cb u))"
    using inv_step [OF ks_run u, of cb] eu assms(9)
    by (auto simp: terminating_def Kernel_Run_def is_completed_def simp del: event_value.simps)
  from kernel_hooks.terminating_run [OF assms(1,10) this] kernel_hooks.terminating_step [OF assms(1), of v]
  show ?thesis using k_rank_bound [of "snd (Kernel_Run cb u)"] by (auto simp del: kernel_step.simps)
qed

theorem kernel_restart_terminates_witness:
  "\<exists>t u w. demo_steps 3 (snd (AsyncTerminate demo_waiting)) = Some t \<and> is_completed t
     \<and> demo_steps 1 (AsyncInit True demo_context t) = Some u
     \<and> kernel_step (fifo_ops id) (read_hooks (fifo_ops id)) (snd (Kernel_Run False u)) = Some w"
proof -
  obtain t u where t: "demo_steps 3 (snd (AsyncTerminate demo_waiting)) = Some t" "is_completed t"
    "kernel_step (fifo_ops id) (read_hooks (fifo_ops id)) (AsyncInit True demo_context t) = Some u" "ks_pc u = K_Yield"
    "ks_state u = kINITIALIZED" using demo_restarts by blast
  have "\<not> is_completed (snd (Kernel_Run False u))" using t(4) by (simp add: Kernel_Run_def is_completed_def)
  moreover have "demo_steps 1 (AsyncInit True demo_context t) = Some u"
    using t(3) by (simp only: One_nat_def own_steps.simps Option.bind.simps)
  ultimately show ?thesis
    using kernel_restart_terminates [OF reader.kernel_hooks_axioms demo_start demo_reaches demo_waiting_facts(1,3)
        own_steps_krun [OF t(1)] t(2-4) krun_refl] t(1,2) by blast
qed

text \<open>C29: the disposal of a kernel. \<open>OnDispose\<close> is not called before the coroutine of the kernel has
  ended or is handling an exception; when the coroutine has ended it was called once or twice,
  unless the loop was left by an exception that is not a \<open>std::exception\<close>, for which the loop
  has no handler. If \<open>OnDispose\<close> itself never throws, it was called exactly once at every other
  end (a failed or throwing \<open>OnInit\<close>, a throwing \<open>OnProcess\<close>, a termination before or after
  \<open>Run\<close>) and not at all when such an exception left the loop.\<close>

theorem kernel_disposed_once:
  assumes "kernel_start s0" and "(kstep Q H ok)\<^sup>*\<^sup>* s0 s"
  shows "(if is_completed s then ks_disposed s \<le> 2 \<and> (\<not> lost s \<longrightarrow> 1 \<le> ks_disposed s)
          else ks_disposed s \<le> (if ks_pc s = K_Catch then 1 else 0))
     \<and> ((\<forall>c P e. OnDispose H (c, P) \<noteq> Inl e) \<longrightarrow> ks_disposed s = (if is_completed s \<and> \<not> lost s then 1 else 0))"
  using disposed_reachable [OF assms, where quiet = "\<forall>c P e. OnDispose H (c, P) \<noteq> Inl e"] unfolding disposed_ok_def by blast

lemma demo_ends:
  "\<exists>t. (kstep (fifo_ops id) (read_hooks (fifo_ops id)) (\<lambda>_. True))\<^sup>*\<^sup>* demo_kernel t \<and> ks_pc t = K_Returned (Inr 0)"
proof -
  let ?S = "kstep (fifo_ops id) (read_hooks (fifo_ops id)) (\<lambda>_. True)"
  have n: "Notify 4 (new_DfNotifier\<lparr>dn_promise := Suc 0, dn_watch_state := 12\<rparr>) =
      new_DfNotifier\<lparr>dn_promise := 1, dn_watch_state := 12, dn_notify_state := 4, dn_notified := True, dn_calls := [(1, 4)]\<rparr>"
    by (simp add: Notify_def new_DfNotifier_def)
  have "\<exists>t. demo_steps 3 (snd (AsyncTerminate demo_waiting)) = Some t \<and> ks_pc t = K_Returned (Inr 0)"
    by (simp add: own_steps_numeral demo_simps demo_waiting_def AsyncTerminate_def n future_value_def HasState_def
        OnTerminate_def Sink_UnsubscribeAll_def dispose_def Let_def GetErrorCode_def)
  then obtain t where t: "demo_steps 3 (snd (AsyncTerminate demo_waiting)) = Some t" "ks_pc t = K_Returned (Inr 0)" by blast
  have "?S\<^sup>*\<^sup>* demo_kernel (snd (AsyncTerminate demo_waiting))" using demo_reaches by (rule run_then) (rule kstep.ks_terminate)
  from rtranclp_trans [OF this own_steps_kstep [OF t(1)]] t(2) show ?thesis by blast
qed

theorem kernel_disposed_once_witness:
  "\<exists>t. (kstep (fifo_ops id) (read_hooks (fifo_ops id)) (\<lambda>_. True))\<^sup>*\<^sup>* demo_kernel t \<and> is_completed t \<and> ks_disposed t = 1"
proof -
  obtain t where t: "(kstep (fifo_ops id) (read_hooks (fifo_ops id)) (\<lambda>_. True))\<^sup>*\<^sup>* demo_kernel t" "ks_pc t = K_Returned (Inr 0)"
    using demo_ends by blast
  have "\<forall>c P e. OnDispose (read_hooks (fifo_ops id) :: (nat FIFOBuffer, unit) hooks) (c, P) \<noteq> Inl e" by (simp add: read_hooks_def)
  with kernel_disposed_once [OF demo_start t(1)] t show ?thesis
    by (auto simp: is_completed_def lost_def split: if_splits)
qed

text \<open>The two ends that the loop does not mean: an \<open>OnDispose\<close> that throws a \<open>std::exception\<close> is called
  again, and after another exception of \<open>OnInit\<close> it is not called at all.\<close>

lemma disposed_twice:
  assumes "ks_pc s = K_End" "\<And>x. OnDispose H x = Inl (StdException e)"
  shows "\<exists>t. own_steps Q H 2 s = Some t \<and> is_completed t \<and> ks_disposed t = ks_disposed s + 2"
  using assms by (simp add: own_steps_numeral dispose_def thrown_def is_completed_def goto_def)

lemma never_disposed:
  assumes "ks_pc s = K_Init" "\<And>x. OnInit H x = Inl OtherException"
  shows "\<exists>t. own_steps Q H 1 s = Some t \<and> is_completed t \<and> ks_disposed t = ks_disposed s \<and> ks_state t = ks_state s"
  using assms by (simp add: thrown_def is_completed_def goto_def)

end
