(* ===== verification/Channel.thy ===== *)
theory Channel
  imports AR_Prelude
begin

text \<open>
  \<open>include/ar/channel.hpp\<close>: a channel that hands every message to all its watchers, with
  the identity of an object from \<open>include/ar/object.hpp\<close> (its address). Every operation
  holds a mutex and is one step. A watcher is shared: the channel's map holds one pointer to
  it and the clients hold \<open>ch_refs\<close> more, which is what \<open>use_count\<close> sees. The promises come
  from a library: a promise is a number, \<open>w_set\<close> records the calls of \<open>set_value\<close> and
  \<open>w_broken\<close> the promises that were destroyed without one.
\<close>

section \<open>Definitions\<close>

record 'a Watcher =
  w_queue :: "'a list"
  w_promise :: nat
  w_resolved :: bool
  w_set :: "nat list"
  w_broken :: "nat list"

datatype wait_future = WaitFor nat | Ready

definition new_Watcher :: "'a Watcher" where
  "new_Watcher = \<lparr>w_queue = [], w_promise = 0, w_resolved = False, w_set = [], w_broken = []\<rparr>"

definition Watcher_Send :: "'a \<Rightarrow> 'a Watcher \<Rightarrow> 'a Watcher" where
  "Watcher_Send msg w =
     (let w1 = w\<lparr>w_queue := w_queue w @ [msg]\<rparr> in
      if \<not> w_resolved w1 then w1\<lparr>w_set := w_set w1 @ [w_promise w1], w_resolved := True\<rparr> else w1)"

definition TryReceive :: "'a Watcher \<Rightarrow> 'a option \<times> 'a Watcher" where
  "TryReceive w = (case w_queue w of [] \<Rightarrow> (None, w) | v # q \<Rightarrow> (Some v, w\<lparr>w_queue := q\<rparr>))"

text \<open>\<open>promise = {}\<close> destroys the old promise.\<close>

definition replace_promise :: "'a Watcher \<Rightarrow> 'a Watcher" where
  "replace_promise w = w\<lparr>w_broken := (if w_promise w \<in> set (w_set w) then w_broken w else w_broken w @ [w_promise w]),
     w_promise := Suc (w_promise w)\<rparr>"

definition AsyncWait :: "'a Watcher \<Rightarrow> wait_future \<times> 'a Watcher" where
  "AsyncWait w =
     (if w_queue w = []
      then let w1 = replace_promise (w\<lparr>w_resolved := False\<rparr>) in (WaitFor (w_promise w1), w1)
      else (Ready, replace_promise (w\<lparr>w_resolved := False\<rparr>)))"

text \<open>
  The map of watchers, ordered by address, with the objects and the clients' pointers. The
  address of a new object is given by the allocator.
\<close>

record 'a Channel =
  ch_watchers :: "nat list"
  ch_obj :: "nat \<Rightarrow> 'a Watcher"
  ch_refs :: "nat \<Rightarrow> nat"

definition new_Channel :: "'a Channel" where
  "new_Channel = \<lparr>ch_watchers = [], ch_obj = (\<lambda>_. new_Watcher), ch_refs = (\<lambda>_. 0)\<rparr>"

definition use_count :: "'a Channel \<Rightarrow> nat \<Rightarrow> nat" where
  "use_count ch a = (if a \<in> set (ch_watchers ch) then 1 else 0) + ch_refs ch a"

definition Watch :: "nat \<Rightarrow> 'a Channel \<Rightarrow> 'a Channel" where
  "Watch a ch = ch\<lparr>ch_obj := (ch_obj ch)(a := new_Watcher), ch_refs := (ch_refs ch)(a := 1),
     ch_watchers := insort a (ch_watchers ch)\<rparr>"

definition UnWatch :: "nat \<Rightarrow> 'a Channel \<Rightarrow> 'a Channel" where
  "UnWatch a ch = (if a \<in> set (ch_watchers ch) then ch\<lparr>ch_watchers := remove1 a (ch_watchers ch)\<rparr> else ch)"

fun send_iter :: "'a \<Rightarrow> nat list \<Rightarrow> 'a Channel \<Rightarrow> 'a Channel" where
  "send_iter msg [] ch = ch"
| "send_iter msg (a # it) ch =
     (if use_count ch a > 1
      then send_iter msg it (ch\<lparr>ch_obj := (ch_obj ch)(a := Watcher_Send msg (ch_obj ch a))\<rparr>)
      else send_iter msg it (ch\<lparr>ch_watchers := remove1 a (ch_watchers ch)\<rparr>))"

definition Channel_Send :: "'a \<Rightarrow> 'a Channel \<Rightarrow> 'a Channel" where
  "Channel_Send msg ch = send_iter msg (ch_watchers ch) ch"

section \<open>What clients do\<close>

text \<open>
  The calls of the clients and of the pointers they hold. A call through a pointer needs
  one; an object is created at an address where none lives. The log of each watcher
  collects what \<open>TryReceive\<close> returned.
\<close>

datatype 'a chan_call = CWatch nat | CUnWatch nat | CCopy nat | CRelease nat | CSend 'a | CReceive nat | CWait nat

definition chan_possible :: "'a chan_call \<Rightarrow> 'a Channel \<Rightarrow> bool" where
  "chan_possible c ch = (case c of CWatch a \<Rightarrow> use_count ch a = 0 | CSend m \<Rightarrow> True
     | CUnWatch a \<Rightarrow> ch_refs ch a > 0 | CCopy a \<Rightarrow> ch_refs ch a > 0 | CRelease a \<Rightarrow> ch_refs ch a > 0
     | CReceive a \<Rightarrow> ch_refs ch a > 0 | CWait a \<Rightarrow> ch_refs ch a > 0)"

type_synonym 'a log = "nat \<Rightarrow> 'a list"

fun chan_step :: "'a chan_call \<Rightarrow> 'a Channel \<times> 'a log \<Rightarrow> 'a Channel \<times> 'a log" where
  "chan_step (CWatch a) (ch, got) = (Watch a ch, got(a := []))"
| "chan_step (CUnWatch a) (ch, got) = (UnWatch a ch, got)"
| "chan_step (CCopy a) (ch, got) = (ch\<lparr>ch_refs := (ch_refs ch)(a := Suc (ch_refs ch a))\<rparr>, got)"
| "chan_step (CRelease a) (ch, got) = (ch\<lparr>ch_refs := (ch_refs ch)(a := ch_refs ch a - 1)\<rparr>, got)"
| "chan_step (CSend m) (ch, got) = (Channel_Send m ch, got)"
| "chan_step (CReceive a) (ch, got) =
     (let (v, w) = TryReceive (ch_obj ch a) in
      (ch\<lparr>ch_obj := (ch_obj ch)(a := w)\<rparr>, got(a := got a @ (case v of None \<Rightarrow> [] | Some m \<Rightarrow> [m]))))"
| "chan_step (CWait a) (ch, got) = (ch\<lparr>ch_obj := (ch_obj ch)(a := snd (AsyncWait (ch_obj ch a)))\<rparr>, got)"

inductive chan_run :: "'a chan_call list \<Rightarrow> 'a Channel \<times> 'a log \<Rightarrow> bool" where
  chan_none: "chan_run [] (new_Channel, \<lambda>_. [])"
| chan_more: "chan_run cs (ch, got) \<Longrightarrow> chan_possible c ch \<Longrightarrow> chan_run (cs @ [c]) (chan_step c (ch, got))"

text \<open>The same run computed.\<close>

fun chan_exec :: "'a chan_call list \<Rightarrow> 'a Channel \<times> 'a log \<Rightarrow> ('a Channel \<times> 'a log) option" where
  "chan_exec [] st = Some st"
| "chan_exec (c # cs) st = (if chan_possible c (fst st) then chan_exec cs (chan_step c st) else None)"

lemma chan_exec_run: "chan_exec cs st = Some st' \<Longrightarrow> chan_run cs0 st \<Longrightarrow> chan_run (cs0 @ cs) st'"
proof (induction cs arbitrary: cs0 st)
  case (Cons c cs)
  then show ?case using Cons.IH [of "chan_step c st" "cs0 @ [c]"] by (cases st) (auto intro: chan_more split: if_splits)
qed simp

text \<open>
  The specification: who watches, how many pointers the clients hold, and what each
  watcher was sent.
\<close>

record 'a chan_spec =
  cs_watching :: "nat set"
  cs_refs :: "nat \<Rightarrow> nat"
  cs_sent :: "'a log"

fun spec_step :: "'a chan_call \<Rightarrow> 'a chan_spec \<Rightarrow> 'a chan_spec" where
  "spec_step (CWatch a) s = s\<lparr>cs_watching := insert a (cs_watching s), cs_refs := (cs_refs s)(a := 1), cs_sent := (cs_sent s)(a := [])\<rparr>"
| "spec_step (CUnWatch a) s = s\<lparr>cs_watching := cs_watching s - {a}\<rparr>"
| "spec_step (CCopy a) s = s\<lparr>cs_refs := (cs_refs s)(a := Suc (cs_refs s a))\<rparr>"
| "spec_step (CRelease a) s = s\<lparr>cs_refs := (cs_refs s)(a := cs_refs s a - 1),
     cs_watching := (if cs_refs s a = 1 then cs_watching s - {a} else cs_watching s)\<rparr>"
| "spec_step (CSend m) s = s\<lparr>cs_sent := (\<lambda>a. if a \<in> cs_watching s then cs_sent s a @ [m] else cs_sent s a)\<rparr>"
| "spec_step (CReceive a) s = s"
| "spec_step (CWait a) s = s"

definition chan_spec :: "'a chan_call list \<Rightarrow> 'a chan_spec" where
  "chan_spec cs = fold spec_step cs \<lparr>cs_watching = {}, cs_refs = (\<lambda>_. 0), cs_sent = (\<lambda>_. [])\<rparr>"

section \<open>The channel implements its specification\<close>

definition chan_rel :: "'a Channel \<times> 'a log \<Rightarrow> 'a chan_spec \<Rightarrow> bool" where
  "chan_rel = (\<lambda>(ch, got) s. distinct (ch_watchers ch) \<and> cs_refs s = ch_refs ch
     \<and> cs_watching s = {a \<in> set (ch_watchers ch). ch_refs ch a > 0}
     \<and> (\<forall>a. ch_refs ch a > 0 \<longrightarrow> cs_sent s a = got a @ w_queue (ch_obj ch a)))"

lemma send_iter_facts:
  assumes "distinct it" "set it \<subseteq> set (ch_watchers ch)" "distinct (ch_watchers ch)"
  shows "ch_refs (send_iter msg it ch) = ch_refs ch \<and> distinct (ch_watchers (send_iter msg it ch))
    \<and> set (ch_watchers (send_iter msg it ch)) = set (ch_watchers ch) - {a \<in> set it. ch_refs ch a = 0}
    \<and> (\<forall>a. ch_obj (send_iter msg it ch) a = (if a \<in> set it \<and> ch_refs ch a > 0 then Watcher_Send msg (ch_obj ch a) else ch_obj ch a))"
  using assms
proof (induction it arbitrary: ch)
  case (Cons a it)
  have a: "a \<in> set (ch_watchers ch)" "a \<notin> set it" "distinct it" "set it \<subseteq> set (ch_watchers ch)" using Cons.prems by auto
  show ?case
  proof (cases "ch_refs ch a > 0")
    case True
    then have "use_count ch a > 1" using a by (simp add: use_count_def)
    then show ?thesis
      using Cons.IH [of "ch\<lparr>ch_obj := (ch_obj ch)(a := Watcher_Send msg (ch_obj ch a))\<rparr>"] Cons.prems True a by auto
  next
    case False
    then have u: "\<not> use_count ch a > 1" by (simp add: use_count_def)
    have "set it \<subseteq> set (remove1 a (ch_watchers ch))" using a Cons.prems(3) by (auto simp: set_remove1_eq)
    then show ?thesis
      using Cons.IH [of "ch\<lparr>ch_watchers := remove1 a (ch_watchers ch)\<rparr>"] Cons.prems(3) False a u by (auto simp: set_remove1_eq)
  qed
qed simp

lemma Watcher_Send_queue [simp]: "w_queue (Watcher_Send m w) = w_queue w @ [m]"
  by (simp add: Watcher_Send_def Let_def)

lemma AsyncWait_queue [simp]: "w_queue (snd (AsyncWait w)) = w_queue w"
  by (simp add: AsyncWait_def replace_promise_def Let_def)

lemma chan_step_refines:
  assumes "chan_rel (ch, got) s" "chan_possible c ch"
  shows "chan_rel (chan_step c (ch, got)) (spec_step c s)"
proof (cases c)
  case (CWatch a)
  then show ?thesis
    using assms by (auto simp: chan_rel_def chan_possible_def use_count_def Watch_def new_Watcher_def distinct_insort set_insort_key
        split: if_splits)
next
  case (CUnWatch a)
  then show ?thesis using assms by (auto simp: chan_rel_def UnWatch_def set_remove1_eq)
next
  case (CRelease a)
  then show ?thesis using assms by (auto simp: chan_rel_def chan_possible_def split: if_splits)
next
  case (CSend m)
  then show ?thesis
    using assms send_iter_facts [of "ch_watchers ch" ch m] by (auto simp: chan_rel_def Channel_Send_def)
next
  case (CReceive a)
  then show ?thesis
    using assms by (auto simp: chan_rel_def TryReceive_def split: list.splits)
qed (use assms in \<open>auto simp: chan_rel_def chan_possible_def\<close>)

lemma chan_run_refines: "chan_run cs st \<Longrightarrow> chan_rel st (chan_spec cs)"
proof (induction rule: chan_run.induct)
  case chan_none
  then show ?case by (simp add: chan_rel_def chan_spec_def new_Channel_def)
next
  case (chan_more cs ch got c)
  then show ?case using chan_step_refines [of ch got "chan_spec cs" c] by (simp add: chan_spec_def)
qed

section \<open>Waiting\<close>

datatype 'a watcher_call = WSend 'a | WReceive | WWait

fun watcher_step :: "'a watcher_call \<Rightarrow> 'a Watcher \<Rightarrow> 'a Watcher" where
  "watcher_step (WSend m) w = Watcher_Send m w"
| "watcher_step WReceive w = snd (TryReceive w)"
| "watcher_step WWait w = snd (AsyncWait w)"

definition w_inv :: "'a Watcher \<Rightarrow> bool" where
  "w_inv w \<longleftrightarrow> distinct (w_set w) \<and> (\<forall>p\<in>set (w_set w). p \<le> w_promise w) \<and> (w_resolved w \<longleftrightarrow> w_promise w \<in> set (w_set w))
     \<and> set (w_broken w) = {..<w_promise w} - set (w_set w)"

lemma w_inv_step: "w_inv w \<Longrightarrow> w_inv (watcher_step c w)"
proof (cases c)
  case (WSend m)
  assume "w_inv w"
  then show ?thesis using WSend by (auto simp: w_inv_def Watcher_Send_def Let_def)
next
  case WReceive
  assume "w_inv w"
  then show ?thesis using WReceive by (auto simp: w_inv_def TryReceive_def split: list.splits)
next
  case WWait
  assume "w_inv w"
  then have "w_inv (replace_promise (w\<lparr>w_resolved := False\<rparr>))"
    by (fastforce simp: w_inv_def replace_promise_def less_Suc_eq)
  then show ?thesis using WWait by (simp add: AsyncWait_def Let_def)
qed

lemma w_inv_run: "w_inv (fold watcher_step cs new_Watcher)"
proof -
  have "w_inv w \<Longrightarrow> w_inv (fold watcher_step cs w)" for w
    by (induction cs arbitrary: w) (simp_all add: w_inv_step)
  then show ?thesis by (simp add: w_inv_def new_Watcher_def)
qed

section \<open>Properties\<close>

text \<open>C15: for every sequence of calls on a channel, what a client has received through a watcher it
  holds, followed by what is still queued there, is exactly the sequence of the messages sent
  while that watcher was watching, in order; a watcher that no client holds any more gets
  nothing and is dropped from the map at the next message.\<close>

theorem channel_delivers:
  assumes "chan_run cs (ch, got)"
  shows "(ch_refs ch a > 0 \<longrightarrow> got a @ w_queue (ch_obj ch a) = cs_sent (chan_spec cs) a)
    \<and> (a \<in> cs_watching (chan_spec cs) \<longleftrightarrow> a \<in> set (ch_watchers ch) \<and> ch_refs ch a > 0)
    \<and> set (ch_watchers (Channel_Send m ch)) = cs_watching (chan_spec cs)"
  using chan_run_refines [OF assms] send_iter_facts [of "ch_watchers ch" ch m]
  by (auto simp: chan_rel_def Channel_Send_def)

theorem channel_delivers_witness:
  "\<exists>ch got. chan_run [CWatch 8, CSend (1 :: nat), CWatch 4, CSend 2, CReceive 8, CRelease 4] (ch, got)
     \<and> got 8 @ w_queue (ch_obj ch 8) = [1, 2] \<and> set (ch_watchers (Channel_Send 3 ch)) = {8}"
proof -
  let ?cs = "[CWatch 8, CSend (1 :: nat), CWatch 4, CSend 2, CReceive 8, CRelease 4]"
  have "\<exists>ch got. chan_exec ?cs (new_Channel, \<lambda>_. []) = Some (ch, got) \<and> ch_refs ch 8 > 0"
    by (simp add: chan_possible_def use_count_def Watch_def Channel_Send_def new_Channel_def TryReceive_def Watcher_Send_def
        new_Watcher_def)
  then have "\<exists>ch got. chan_run ?cs (ch, got) \<and> ch_refs ch 8 > 0"
    using chan_exec_run [OF _ chan_none] by force
  then obtain ch got where "chan_run ?cs (ch, got)" "ch_refs ch 8 > 0" by blast
  moreover have "cs_sent (chan_spec ?cs) 8 = [1, 2]" "cs_watching (chan_spec ?cs) = {8}" by (auto simp: chan_spec_def)
  ultimately show ?thesis using channel_delivers [of ?cs ch got 8 3] by auto
qed

text \<open>Whatever is called on a watcher before, a future returned by \<open>AsyncWait\<close> is ready when a
  message is queued and otherwise becomes ready by the next message sent, unless \<open>AsyncWait\<close>
  is called again before, which breaks its promise; no promise is fulfilled twice.\<close>

theorem watcher_wait:
  "let w = fold watcher_step cs new_Watcher; (f, w1) = AsyncWait w in
     (f = Ready \<longleftrightarrow> w_queue w \<noteq> [])
     \<and> (case f of Ready \<Rightarrow> True
        | WaitFor p \<Rightarrow> p \<notin> set (w_set w1) \<and> p \<in> set (w_set (Watcher_Send m w1)) \<and> distinct (w_set (Watcher_Send m w1))
            \<and> p \<in> set (w_broken (snd (AsyncWait w1))))"
proof -
  let ?w = "fold watcher_step cs new_Watcher"
  have w1: "w_inv (snd (AsyncWait ?w))" using w_inv_step [OF w_inv_run, of WWait cs] by simp
  then have w2: "w_inv (snd (AsyncWait (snd (AsyncWait ?w))))" "w_inv (Watcher_Send m (snd (AsyncWait ?w)))"
    using w_inv_step [of _ WWait] w_inv_step [of _ "WSend m"] by simp_all
  show ?thesis
  proof (cases "w_queue ?w = []")
    case True
    then show ?thesis
      using w1 w2 by (auto simp: AsyncWait_def replace_promise_def Let_def w_inv_def Watcher_Send_def)
  qed (simp add: AsyncWait_def Let_def)
qed

end
