(* ===== verification/Std_Heap.thy ===== *)
theory Std_Heap
  imports AR_Prelude "HOL-Library.Multiset"
begin

text \<open>
  \<open>std::priority_queue\<close> on a vector, as the GNU standard library implements it: the vector is a
  binary heap, \<open>push\<close> lets the new element rise from the end, \<open>pop\<close> lets the hole at the front
  sink to a leaf and the last element rise from there. The comparison of a call that takes its
  turn as number \<open>k\<close> gets the argument \<open>cs k\<close>: a comparison function may depend on more than
  the two elements, as that of the scheduler depends on the clock.

  The locale says what holds of the queue when every comparison is right up to an error: the
  front is within the sum of the errors of every other element.
\<close>

section \<open>Definitions\<close>

definition heap_parent :: "nat \<Rightarrow> nat" where
  "heap_parent i = (i - 1) div 2"

text \<open>\<open>__push_heap\<close> from the hole up to the front.\<close>

function heap_rise :: "('c \<Rightarrow> 'a \<Rightarrow> 'a \<Rightarrow> bool) \<Rightarrow> (nat \<Rightarrow> 'c) \<Rightarrow> nat \<Rightarrow> 'a list \<Rightarrow> nat \<Rightarrow> 'a \<Rightarrow> 'a list" where
  "heap_rise cmp cs k h hole v =
     (if 0 < hole \<and> cmp (cs k) (h ! heap_parent hole) v
      then heap_rise cmp cs (Suc k) (h[hole := h ! heap_parent hole]) (heap_parent hole) v
      else h[hole := v])"
  by auto
termination by (relation "measure (\<lambda>(cmp, cs, k, h, hole, v). hole)") (auto simp: heap_parent_def)

text \<open>The loop of \<open>__adjust_heap\<close>: the number of the next comparison, the vector and the hole.\<close>

function heap_sink :: "('c \<Rightarrow> 'a \<Rightarrow> 'a \<Rightarrow> bool) \<Rightarrow> (nat \<Rightarrow> 'c) \<Rightarrow> nat \<Rightarrow> 'a list \<Rightarrow> nat \<Rightarrow> nat \<times> 'a list \<times> nat" where
  "heap_sink cmp cs k h hole =
     (if hole < (length h - 1) div 2
      then let c = (if cmp (cs k) (h ! (2 * hole + 2)) (h ! (2 * hole + 1)) then 2 * hole + 1 else 2 * hole + 2)
           in heap_sink cmp cs (Suc k) (h[hole := h ! c]) c
      else if even (length h) \<and> 2 \<le> length h \<and> hole = (length h - 2) div 2
      then (k, h[hole := h ! (2 * hole + 1)], 2 * hole + 1)
      else (k, h, hole))"
  by auto
termination by (relation "measure (\<lambda>(cmp, cs, k, h, hole). length h - hole)") (auto simp: Let_def)

declare heap_rise.simps [simp del] heap_sink.simps [simp del]

definition pq_push :: "('c \<Rightarrow> 'a \<Rightarrow> 'a \<Rightarrow> bool) \<Rightarrow> (nat \<Rightarrow> 'c) \<Rightarrow> 'a \<Rightarrow> 'a list \<Rightarrow> 'a list" where
  "pq_push cmp cs v h = heap_rise cmp cs 0 (h @ [v]) (length h) v"

definition pq_pop :: "('c \<Rightarrow> 'a \<Rightarrow> 'a \<Rightarrow> bool) \<Rightarrow> (nat \<Rightarrow> 'c) \<Rightarrow> 'a list \<Rightarrow> 'a list" where
  "pq_pop cmp cs h =
     (if 1 < length h
      then let (k, h1, hole) = heap_sink cmp cs 0 (butlast h) 0 in heap_rise cmp cs k h1 hole (last h)
      else [])"

text \<open>Index \<open>i\<close> is \<open>j\<close> or above it.\<close>

inductive over :: "nat \<Rightarrow> nat \<Rightarrow> bool" where
  over_refl: "over i i"
| over_parent: "over i (heap_parent j) \<Longrightarrow> 0 < j \<Longrightarrow> over i j"

inductive_cases overE: "over i j"

section \<open>The elements stay\<close>

lemma heap_parent_less [simp]: "0 < i \<Longrightarrow> heap_parent i < i"
  by (simp add: heap_parent_def)

lemma heap_parent_neq [simp]: "0 < i \<Longrightarrow> heap_parent i \<noteq> i" "0 < i \<Longrightarrow> i \<noteq> heap_parent i"
  using heap_parent_less by (metis less_irrefl)+

lemma mset_move:
  "i < length h \<Longrightarrow> add_mset (h ! i) (mset (h[i := x])) = add_mset x (mset h)"
  by (simp add: mset_update)

lemma mset_exchange:
  assumes "add_mset a X = add_mset b Y" "add_mset c Y = add_mset a Z"
  shows "add_mset c X = add_mset b Z"
proof -
  have "add_mset a (add_mset c X) = add_mset a (add_mset b Z)"
    using assms by (metis add_mset_commute)
  then show ?thesis by simp
qed

lemma heap_rise_elements:
  "hole < length h \<Longrightarrow> add_mset (h ! hole) (mset (heap_rise cmp cs k h hole v)) = add_mset v (mset h)"
proof (induction cmp cs k h hole v rule: heap_rise.induct)
  case (1 cmp cs k h hole v)
  let ?p = "heap_parent hole" and ?h = "h[hole := h ! heap_parent hole]"
  show ?case
  proof (cases "0 < hole \<and> cmp (cs k) (h ! ?p) v")
    case True
    have p: "?p < hole" using True by simp
    then have p2: "?p < length h" using "1.prems" by simp
    have "add_mset (h ! ?p) (mset (heap_rise cmp cs (Suc k) ?h ?p v)) = add_mset v (mset ?h)"
      using "1.IH" [OF True] p p2 by simp
    moreover have "add_mset (h ! hole) (mset ?h) = add_mset (h ! ?p) (mset h)"
      using 1 by (simp add: mset_move)
    ultimately have "add_mset (h ! hole) (mset (heap_rise cmp cs (Suc k) ?h ?p v)) = add_mset v (mset h)"
      by (rule mset_exchange)
    then show ?thesis using True by (simp add: heap_rise.simps [of cmp cs k h])
  next
    case False
    then show ?thesis using "1.prems" by (subst heap_rise.simps) (auto simp: mset_move)
  qed
qed

lemma heap_rise_length [simp]: "length (heap_rise cmp cs k h hole v) = length h"
proof (induction cmp cs k h hole v rule: heap_rise.induct)
  case (1 cmp cs k h hole v)
  then show ?case by (subst heap_rise.simps) simp
qed

lemma heap_sink_elements:
  "heap_sink cmp cs k h hole = (k', h', hole') \<Longrightarrow> hole < length h \<Longrightarrow>
     length h' = length h \<and> hole' < length h \<and> add_mset (h ! hole) (mset h') = add_mset (h' ! hole') (mset h)"
proof (induction cmp cs k h hole rule: heap_sink.induct)
  case (1 cmp cs k h hole)
  define c where "c = (if cmp (cs k) (h ! (2 * hole + 2)) (h ! (2 * hole + 1)) then 2 * hole + 1 else 2 * hole + 2)"
  show ?case
  proof (cases "hole < (length h - 1) div 2")
    case True
    then have c: "c < length h" "c \<noteq> hole" by (auto simp: c_def)
    have "heap_sink cmp cs (Suc k) (h[hole := h ! c]) c = (k', h', hole')"
      using "1.prems"(1) True by (subst (asm) heap_sink.simps) (simp add: Let_def c_def)
    from "1.IH" [OF True c_def this] c
    have IH: "length h' = length h" "hole' < length h"
      "add_mset (h ! c) (mset h') = add_mset (h' ! hole') (mset (h[hole := h ! c]))" by simp_all
    have "add_mset (h ! hole) (mset h') = add_mset (h' ! hole') (mset h)"
      by (rule mset_exchange [OF IH(3) mset_move [OF "1.prems"(2)]])
    then show ?thesis using IH(1,2) by blast
  next
    case False
    show ?thesis
    proof (cases "even (length h) \<and> 2 \<le> length h \<and> hole = (length h - 2) div 2")
      case True
      then have "length h = 2 * hole + 2" by auto
      moreover have "h' = h[hole := h ! (2 * hole + 1)]" "hole' = 2 * hole + 1"
        using "1.prems" True False by (subst (asm) heap_sink.simps, simp)+
      ultimately show ?thesis using "1.prems"(2) by (simp add: mset_move)
    qed (use "1.prems" False in \<open>subst (asm) heap_sink.simps, auto\<close>)
  qed
qed

lemma pq_push_elements [simp]: "mset (pq_push cmp cs v h) = add_mset v (mset h)"
  using heap_rise_elements [of "length h" "h @ [v]" cmp cs 0 v] by (simp add: pq_push_def)

lemma pq_pop_elements: "h \<noteq> [] \<Longrightarrow> add_mset (h ! 0) (mset (pq_pop cmp cs h)) = mset h"
proof (cases "1 < length h")
  case True
  obtain k h1 hole where s: "heap_sink cmp cs 0 (butlast h) 0 = (k, h1, hole)" by (metis prod_cases3)
  have b: "0 < length (butlast h)" "butlast h ! 0 = h ! 0" using True by (auto simp: nth_butlast)
  from heap_sink_elements [OF s b(1)] b(2)
  have e: "hole < length h1" "add_mset (h ! 0) (mset h1) = add_mset (h1 ! hole) (mset (butlast h))" by auto
  have "mset h = add_mset (last h) (mset (butlast h))"
    using True by (metis append_butlast_last_id list.size(3) mset.simps(2) mset_append not_less_zero union_mset_add_mset_right add.right_neutral mset.simps(1))
  moreover have "add_mset (h ! 0) (mset (heap_rise cmp cs k h1 hole (last h))) = add_mset (last h) (mset (butlast h))"
    by (rule mset_exchange [OF heap_rise_elements [OF e(1)] e(2)])
  ultimately show ?thesis using True s by (simp add: pq_pop_def)
next
  case False
  assume "h \<noteq> []"
  with False show ?thesis by (cases h) (auto simp: pq_pop_def)
qed

section \<open>Positions\<close>

lemma over_le: "over i j \<Longrightarrow> i \<le> j"
  by (induction rule: over.induct) (auto simp: heap_parent_def)

lemma over_trans: "over j l \<Longrightarrow> over i j \<Longrightarrow> over i l"
  by (induction rule: over.induct) (auto intro: over_parent)

lemma over_0 [simp]: "over 0 j"
proof (induction j rule: less_induct)
  case (less j)
  then show ?case by (cases "j = 0") (auto intro: over.intros)
qed

text \<open>What is strictly below an index is below one of its two children.\<close>

lemma over_child: "over i j \<Longrightarrow> i \<noteq> j \<Longrightarrow> over (2 * i + 1) j \<or> over (2 * i + 2) j"
proof (induction rule: over.induct)
  case (over_parent i j)
  show ?case
  proof (cases "i = heap_parent j")
    case True
    then have "j = 2 * i + 1 \<or> j = 2 * i + 2" using over_parent by (auto simp: heap_parent_def)
    then show ?thesis by (auto intro: over_refl)
  next
    case False
    then show ?thesis using over_parent by (auto intro: over.over_parent)
  qed
qed simp

lemma heap_parent_child [simp]: "heap_parent (2 * i + 1) = i" "heap_parent (2 * i + 2) = i"
  "heap_parent (Suc (2 * i)) = i" "heap_parent (Suc (Suc (2 * i))) = i"
  by (simp_all add: heap_parent_def)

lemma over_children: "over i (2 * i + 1)" "over i (2 * i + 2)"
  by (rule over_parent; simp add: over_refl)+

lemma over_strict: "over i j \<Longrightarrow> i \<noteq> j \<Longrightarrow> over i (heap_parent j) \<and> 0 < j"
  by (auto elim: overE)

section \<open>The order up to an error\<close>

locale approximate_order =
  fixes cmp :: "'c \<Rightarrow> 'a \<Rightarrow> 'a \<Rightarrow> bool" and key :: "'a \<Rightarrow> int" and err :: "'c \<Rightarrow> int"
  assumes cmp_true: "cmp c x y \<Longrightarrow> key y \<le> key x + err c"
    and cmp_false: "\<not> cmp c x y \<Longrightarrow> key x \<le> key y + err c"
begin

text \<open>Every element is at most \<open>e\<close> later than the ones below it.\<close>

definition heap_within :: "int \<Rightarrow> 'a list \<Rightarrow> bool" where
  "heap_within e h \<longleftrightarrow> (\<forall>i j. over i j \<longrightarrow> j < length h \<longrightarrow> key (h ! i) \<le> key (h ! j) + e)"

text \<open>The same with a hole, and the element that will fill it.\<close>

definition hole_within :: "int \<Rightarrow> 'a list \<Rightarrow> nat \<Rightarrow> bool" where
  "hole_within e h hole \<longleftrightarrow>
     (\<forall>i j. over i j \<longrightarrow> j < length h \<longrightarrow> i \<noteq> hole \<longrightarrow> j \<noteq> hole \<longrightarrow> key (h ! i) \<le> key (h ! j) + e)"

definition fill_within :: "int \<Rightarrow> 'a list \<Rightarrow> nat \<Rightarrow> 'a \<Rightarrow> bool" where
  "fill_within e h hole v \<longleftrightarrow> (\<forall>j. over hole j \<longrightarrow> j < length h \<longrightarrow> j \<noteq> hole \<longrightarrow> key v \<le> key (h ! j) + e)"

definition below_within :: "int \<Rightarrow> 'a list \<Rightarrow> nat \<Rightarrow> bool" where
  "below_within e h hole \<longleftrightarrow>
     (\<forall>i j. over hole i \<longrightarrow> i \<noteq> hole \<longrightarrow> over i j \<longrightarrow> j < length h \<longrightarrow> key (h ! i) \<le> key (h ! j) + e)"

lemma heap_within_front: "heap_within e h \<Longrightarrow> u \<in> set h \<Longrightarrow> key (h ! 0) \<le> key u + e"
  by (auto simp: heap_within_def in_set_conv_nth)

lemma heap_within_mono: "heap_within d h \<Longrightarrow> d \<le> e \<Longrightarrow> heap_within e h"
  by (fastforce simp: heap_within_def)

lemma heap_rise_up:
  assumes h: "hole_within e h hole" and hole: "0 < hole" "hole < length h" and e: "0 \<le> e"
  shows "hole_within e (h[hole := h ! heap_parent hole]) (heap_parent hole)"
proof -
  let ?p = "heap_parent hole"
  have p: "over ?p hole" "?p \<noteq> hole" "?p < length h"
    using hole less_trans [OF heap_parent_less [OF hole(1)]] by (auto intro: over_parent over_refl)
  have "key (h[hole := h ! ?p] ! i) \<le> key (h[hole := h ! ?p] ! j) + e"
    if ij: "over i j" "j < length h" "i \<noteq> ?p" "j \<noteq> ?p" for i j
  proof (cases "i = j")
    case False
    have "over ?p j" if "i = hole" using ij that p(1) over_trans by blast
    moreover have "over i ?p" if "j = hole" using ij that False over_strict by blast
    ultimately show ?thesis
      using h ij p hole False over_le [of i j] unfolding hole_within_def
      by (cases "i = hole"; cases "j = hole") (auto simp: nth_list_update)
  qed (use e in simp)
  then show ?thesis by (simp add: hole_within_def)
qed

lemma heap_rise_stops:
  assumes h: "hole_within e h hole" "fill_within (e + d) h hole v" and hole: "hole < length h"
    and top: "0 < hole \<longrightarrow> key (h ! heap_parent hole) \<le> key v + d" and ed: "0 \<le> e" "0 \<le> d"
  shows "heap_within (e + d) (h[hole := v])"
proof -
  have "key (h[hole := v] ! i) \<le> key (h[hole := v] ! j) + (e + d)" if ij: "over i j" "j < length h" for i j
  proof (cases "i = j")
    case False
    have "key (h ! i) \<le> key v + (e + d)" if j: "j = hole"
    proof -
      have p: "over i (heap_parent hole)" "0 < hole" using ij False j over_strict by blast+
      have "i \<noteq> hole" using False j by simp
      then have "key (h ! i) \<le> key (h ! heap_parent hole) + e"
        using h(1) p hole heap_parent_less [OF p(2)] by (auto simp: hole_within_def)
      then show ?thesis using top p(2) by simp
    qed
    moreover have "key (h ! i) \<le> key (h ! j) + e" if "i \<noteq> hole" "j \<noteq> hole"
      using h(1) ij that by (auto simp: hole_within_def)
    moreover have "key v \<le> key (h ! j) + (e + d)" if "i = hole"
      using h(2) ij that False by (auto simp: fill_within_def)
    ultimately show ?thesis using False ij hole ed over_le [of i j]
      by (cases "i = hole"; cases "j = hole") (fastforce simp: nth_list_update)+
  qed (use ed in simp)
  then show ?thesis by (simp add: heap_within_def)
qed

lemma heap_rise_within:
  "hole_within e h hole \<Longrightarrow> fill_within (e + d) h hole v \<Longrightarrow> hole < length h \<Longrightarrow> 0 \<le> e \<Longrightarrow> 0 \<le> d
     \<Longrightarrow> \<forall>i. err (cs i) \<le> d \<Longrightarrow> heap_within (e + d) (heap_rise cmp cs k h hole v)"
proof (induction hole arbitrary: k h rule: less_induct)
  case (less hole)
  let ?p = "heap_parent hole" and ?h = "h[hole := h ! heap_parent hole]"
  have err: "err (cs k) \<le> d" using less.prems by blast
  show ?case
  proof (cases "0 < hole \<and> cmp (cs k) (h ! ?p) v")
    case True
    have v: "key v \<le> key (h ! ?p) + d" using cmp_true True err by fastforce
    have "key v \<le> key (?h ! j) + (e + d)" if "over ?p j" "j < length ?h" "j \<noteq> ?p" for j
    proof (cases "j = hole")
      case False
      moreover have "?p \<noteq> hole" using True by simp
      ultimately have "key (h ! ?p) \<le> key (h ! j) + e" using less.prems(1) that by (auto simp: hole_within_def)
      then show ?thesis using v False by simp
    qed (use v less.prems in simp)
    then have "fill_within (e + d) ?h ?p v" by (simp add: fill_within_def)
    moreover have "?p < length h" using True less.prems(3) less_trans [OF heap_parent_less] by blast
    ultimately
    have "heap_within (e + d) (heap_rise cmp cs (Suc k) ?h ?p v)"
      using less.IH [OF _ heap_rise_up [OF less.prems(1)]] True less.prems by simp
    then show ?thesis using True by (subst heap_rise.simps) simp
  next
    case False
    then have "0 < hole \<longrightarrow> key (h ! ?p) \<le> key v + d" using cmp_false err by fastforce
    from heap_rise_stops [OF less.prems(1-3) this less.prems(4,5)] False
    show ?thesis by (subst heap_rise.simps) auto
  qed
qed

lemma pq_push_within:
  assumes "heap_within e h" "\<forall>i. err (cs i) \<le> d" "0 \<le> e" "0 \<le> d"
  shows "heap_within (e + d) (pq_push cmp cs v h)"
proof -
  have "hole_within e (h @ [v]) (length h)" using assms(1) over_le
    by (fastforce simp: hole_within_def heap_within_def nth_append less_Suc_eq)
  moreover have "fill_within (e + d) (h @ [v]) (length h) v" using over_le
    by (fastforce simp: fill_within_def)
  ultimately show ?thesis using assms by (simp add: pq_push_def heap_rise_within)
qed

text \<open>The hole sinks to the child that seems the earlier one.\<close>

lemma heap_sink_down:
  assumes h: "hole_within (e + d) h hole" "below_within e h hole" and hole: "hole < length h" and ed: "0 \<le> e" "0 \<le> d"
    and c: "c = 2 * hole + 1 \<or> c = 2 * hole + 2" "c < length h"
    and least: "\<forall>b. (b = 2 * hole + 1 \<or> b = 2 * hole + 2) \<longrightarrow> b < length h \<longrightarrow> key (h ! c) \<le> key (h ! b) + d"
  shows "hole_within (e + d) (h[hole := h ! c]) c" "below_within e (h[hole := h ! c]) c"
proof -
  have hc: "over hole c" "hole \<noteq> c" using c over_children by auto
  have under: "key (h ! c) \<le> key (h ! j) + (e + d)" if j: "over hole j" "j \<noteq> hole" "j < length h" for j
  proof -
    obtain b where b: "b = 2 * hole + 1 \<or> b = 2 * hole + 2" "over b j" using over_child j by metis
    have "over hole b" "hole \<noteq> b" using b(1) over_children by auto
    moreover have "b < length h" using over_le [OF b(2)] j by simp
    ultimately have "key (h ! b) \<le> key (h ! j) + e" "key (h ! c) \<le> key (h ! b) + d"
      using h(2) b j least unfolding below_within_def by auto
    then show ?thesis by simp
  qed
  have "key (h[hole := h ! c] ! i) \<le> key (h[hole := h ! c] ! j) + (e + d)"
    if ij: "over i j" "j < length h" "i \<noteq> c" "j \<noteq> c" for i j
  proof (cases "i = j")
    case False
    have "over i c" if "j = hole" using ij that hc(1) over_trans by blast
    then show ?thesis using h(1) ij hc hole c False under [of j] over_le [of i j] unfolding hole_within_def
      by (cases "i = hole"; cases "j = hole") (auto simp: nth_list_update)
  qed (use ed in simp)
  then show "hole_within (e + d) (h[hole := h ! c]) c" by (simp add: hole_within_def)
  have "key (h[hole := h ! c] ! i) \<le> key (h[hole := h ! c] ! j) + e"
    if ij: "over c i" "i \<noteq> c" "over i j" "j < length h" for i j
  proof -
    have "hole < c" using c by auto
    then have "i \<noteq> hole" "j \<noteq> hole" using over_le [OF ij(1)] over_le [OF ij(3)] by auto
    moreover have "over hole i" using hc ij(1) over_trans by blast
    ultimately show ?thesis using h(2) ij by (auto simp: below_within_def)
  qed
  then show "below_within e (h[hole := h ! c]) c" by (simp add: below_within_def)
qed

lemma heap_sink_within:
  "hole_within (e + d) h hole \<Longrightarrow> below_within e h hole \<Longrightarrow> hole < length h \<Longrightarrow> 0 \<le> e \<Longrightarrow> 0 \<le> d
     \<Longrightarrow> \<forall>i. err (cs i) \<le> d \<Longrightarrow> heap_sink cmp cs k h hole = (k', h', hole')
     \<Longrightarrow> hole_within (e + d) h' hole' \<and> hole' < length h' \<and> length h' \<le> 2 * hole' + 1"
proof (induction "length h - hole" arbitrary: k h hole rule: less_induct)
  case less
  define c where "c = (if cmp (cs k) (h ! (2 * hole + 2)) (h ! (2 * hole + 1)) then 2 * hole + 1 else 2 * hole + 2)"
  have err: "err (cs k) \<le> d" using less.prems by blast
  consider (inner) "hole < (length h - 1) div 2"
    | (single) "\<not> hole < (length h - 1) div 2" "even (length h)" "2 \<le> length h" "hole = (length h - 2) div 2"
    | (leaf) "\<not> hole < (length h - 1) div 2" "\<not> (even (length h) \<and> 2 \<le> length h \<and> hole = (length h - 2) div 2)"
    by blast
  then show ?case
  proof cases
    case inner
    have c: "c = 2 * hole + 1 \<or> c = 2 * hole + 2" "c < length h" using inner by (auto simp: c_def)
    have "key (h ! c) \<le> key (h ! b) + d" if "b = 2 * hole + 1 \<or> b = 2 * hole + 2" for b
      using that cmp_true [of "cs k" "h ! (2 * hole + 2)" "h ! (2 * hole + 1)"]
        cmp_false [of "cs k" "h ! (2 * hole + 2)" "h ! (2 * hole + 1)"] err less.prems(5) by (auto simp: c_def)
    then have "hole_within (e + d) (h[hole := h ! c]) c" "below_within e (h[hole := h ! c]) c"
      using heap_sink_down [OF less.prems(1-5) c] by blast+
    moreover have "heap_sink cmp cs (Suc k) (h[hole := h ! c]) c = (k', h', hole')"
      using less.prems(7) inner by (subst (asm) heap_sink.simps) (simp add: Let_def c_def)
    moreover have "length (h[hole := h ! c]) - c < length h - hole" using c by auto
    ultimately show ?thesis using less.hyps [of "h[hole := h ! c]" c "Suc k"] less.prems(4-6) c(2) by simp
  next
    case single
    have r: "h' = h[hole := h ! (2 * hole + 1)]" "hole' = 2 * hole + 1"
      using less.prems(7) single by (subst (asm) heap_sink.simps, simp)+
    have len: "length h = 2 * hole + 2" using single by auto
    then have "\<forall>b. (b = 2 * hole + 1 \<or> b = 2 * hole + 2) \<longrightarrow> b < length h \<longrightarrow> key (h ! (2 * hole + 1)) \<le> key (h ! b) + d"
      using less.prems(5) by auto
    then show ?thesis using heap_sink_down(1) [OF less.prems(1-5), of "2 * hole + 1"] r len by simp
  next
    case leaf
    have r: "h' = h" "hole' = hole" using less.prems(7) leaf by (subst (asm) heap_sink.simps, simp split: if_splits)+
    have "length h \<le> 2 * hole + 1" using leaf less.prems(3) by (auto elim!: evenE oddE) 
    then show ?thesis using r less.prems by simp
  qed
qed

lemma pq_pop_within:
  assumes h: "heap_within e h" and d: "\<forall>i. err (cs i) \<le> d" "0 \<le> e" "0 \<le> d"
  shows "heap_within (e + 2 * d) (pq_pop cmp cs h)"
proof (cases "1 < length h")
  case True
  obtain k h1 hole where s: "heap_sink cmp cs 0 (butlast h) 0 = (k, h1, hole)" by (metis prod_cases3)
  have b: "heap_within e (butlast h)" using h over_le
    by (fastforce simp: heap_within_def nth_butlast)
  then have "hole_within (e + d) (butlast h) 0" "below_within e (butlast h) 0"
    using d by (fastforce simp: heap_within_def hole_within_def below_within_def)+
  from heap_sink_within [OF this _ d(2,3,1) s] True
  have r: "hole_within (e + d) h1 hole" "hole < length h1" "length h1 \<le> 2 * hole + 1" by auto
  have "fill_within (e + d + d) h1 hole (last h)"
    using r(3) over_child over_le by (fastforce simp: fill_within_def)
  from heap_rise_within [OF r(1) this r(2) _ d(3,1)] d
  have "heap_within (e + d + d) (heap_rise cmp cs k h1 hole (last h))" by simp
  then show ?thesis using True s by (simp add: pq_pop_def algebra_simps)
qed (simp add: pq_pop_def heap_within_def)

end

end
