(* ===== verification/Tasks.thy ===== *)
theory Tasks
  imports AR_Prelude Std_Heap "HOL-Library.Multiset" "HOL-Library.Signed_Division"
begin

text \<open>
  \<open>include/ar/task.hpp\<close>, \<open>include/ar/timestamp.hpp\<close>, \<open>src/scheduler.cpp\<close> and
  \<open>src/ticker.cpp\<close>: tasks with their execution state and due time, the scheduler that holds
  delayed tasks back, and the ticker. The clock is the argument \<open>now\<close>, in microseconds; a call
  that reads the clock several times takes the sequence \<open>clk\<close> of its readings, about which
  nothing is assumed (\<open>system_clock\<close> may even go back). A task is held by pointer and owned by whoever holds it, so it is passed by value; its
  function is what calling it gives, and the promise from the library is what it was
  fulfilled with.
\<close>

section \<open>Definitions\<close>

definition INVALID_OBJECT_ID :: int where
  "INVALID_OBJECT_ID = 4294967295"

text \<open>
  A duration counts a unit of \<open>num / den\<close> seconds. A conversion divides by the reduced
  quotient of the units and truncates, as the integer division of the language does.
\<close>

definition Milli :: "int \<times> int" where "Milli = (1, 1000)"
definition Micro :: "int \<times> int" where "Micro = (1, 1000000)"

definition Cast :: "int \<times> int \<Rightarrow> int \<times> int \<Rightarrow> int \<Rightarrow> int" where
  "Cast from_unit to_unit time =
     (let n = fst from_unit * snd to_unit; d = snd from_unit * fst to_unit; g = gcd n d in
      (time * (n div g)) sdiv (d div g))"

record execution_state =
  es_tag :: int
  es_work_group :: int
  es_processor :: int
  es_executor :: "nat option"

definition new_execution_state :: execution_state where
  "new_execution_state = \<lparr>es_tag = INVALID_OBJECT_ID, es_work_group = INVALID_OBJECT_ID,
     es_processor = INVALID_OBJECT_ID, es_executor = None\<rparr>"

record 'r task =
  tk_id :: nat
  tk_state :: execution_state
  tk_delay :: int
  tk_created_at :: int
  tk_fn :: "ar_error + 'r"
  tk_promise :: "(ar_error + 'r) option"

definition new_task :: "nat \<Rightarrow> (ar_error + 'r) \<Rightarrow> int \<Rightarrow> 'r task" where
  "new_task i fn now = \<lparr>tk_id = i, tk_state = new_execution_state, tk_delay = 0, tk_created_at = now, tk_fn = fn,
     tk_promise = None\<rparr>"

definition set_delay :: "int \<times> int \<Rightarrow> int \<Rightarrow> int \<Rightarrow> 'r task \<Rightarrow> 'r task" where
  "set_delay rep time now t =
     (let delay = Cast rep Micro time in t\<lparr>tk_delay := delay, tk_created_at := now + delay\<rparr>)"

definition get_delay :: "int \<Rightarrow> 'r task \<Rightarrow> int" where
  "get_delay now t = tk_created_at t - now"

definition delayed :: "'r task \<Rightarrow> bool" where
  "delayed t \<longleftrightarrow> tk_delay t > 0"

definition set_execution_state :: "execution_state \<Rightarrow> 'r task \<Rightarrow> 'r task" where
  "set_execution_state st t = t\<lparr>tk_state := st\<rparr>"

definition set_execution_state_wg :: "int \<Rightarrow> 'r task \<Rightarrow> 'r task" where
  "set_execution_state_wg wg t = t\<lparr>tk_state := (tk_state t)\<lparr>es_work_group := wg\<rparr>\<rparr>"

definition set_execution_state_tag :: "int \<Rightarrow> 'r task \<Rightarrow> 'r task" where
  "set_execution_state_tag tag t = t\<lparr>tk_state := (tk_state t)\<lparr>es_tag := tag\<rparr>\<rparr>"

text \<open>\<open>base_task::execute\<close>: the promise gets the value, or the exception that was thrown.\<close>

definition task_execute :: "execution_state \<Rightarrow> 'r task \<Rightarrow> 'r task" where
  "task_execute st t =
     (let t1 = t\<lparr>tk_state := st\<rparr> in
      case tk_fn t1 of Inr v \<Rightarrow> t1\<lparr>tk_promise := Some (Inr v)\<rparr> | Inl ex \<Rightarrow> t1\<lparr>tk_promise := Some (Inl ex)\<rparr>)"

text \<open>
  The scheduler. \<open>less_than_by_delay_ptr\<close> asks both tasks for their delay, and each
  \<open>get_delay\<close> reads the clock: \<open>now1\<close> is the reading for the left task and \<open>now2\<close> that for the
  right one. It is called when the priority queue is changed, by \<open>push\<close> and by \<open>pop\<close>; the
  comparison number \<open>k\<close> of a call takes its readings number \<open>2 * k\<close> and \<open>2 * k + 1\<close>.
  \<open>sc_called\<close> records the calls of the callback.
\<close>

type_synonym clock_reads = "nat \<Rightarrow> int"

definition less_than_by_delay :: "int \<Rightarrow> int \<Rightarrow> 'r task \<Rightarrow> 'r task \<Rightarrow> bool" where
  "less_than_by_delay now1 now2 lhs rhs \<longleftrightarrow> get_delay now1 lhs > get_delay now2 rhs"

definition delay_cmp :: "int \<times> int \<Rightarrow> 'r task \<Rightarrow> 'r task \<Rightarrow> bool" where
  "delay_cmp nows lhs rhs = less_than_by_delay (fst nows) (snd nows) lhs rhs"

definition cmp_reads :: "clock_reads \<Rightarrow> nat \<Rightarrow> int \<times> int" where
  "cmp_reads clk k = (clk (2 * k), clk (2 * k + 1))"

record 'r Scheduler =
  sc_continue :: bool
  sc_delayed_task :: "'r task list"
  sc_called :: "'r task list"

definition new_Scheduler :: "'r Scheduler" where
  "new_Scheduler = \<lparr>sc_continue = True, sc_delayed_task = [], sc_called = []\<rparr>"

definition Scheduler_Post :: "clock_reads \<Rightarrow> 'r task \<Rightarrow> 'r Scheduler \<Rightarrow> 'r Scheduler" where
  "Scheduler_Post clk t s = s\<lparr>sc_delayed_task := pq_push delay_cmp (cmp_reads clk) t (sc_delayed_task s)\<rparr>"

datatype sched_wait = NoWait | WaitMicro int | WaitForever

text \<open>
  One turn of \<open>SchedulerLoop\<close> with the mutex held, and how it waits at its end: the front of the
  queue is asked for its delay, given to the callback if it is due, and only then popped.
\<close>

definition scheduler_turn :: "clock_reads \<Rightarrow> 'r Scheduler \<Rightarrow> sched_wait \<times> 'r Scheduler" where
  "scheduler_turn clk s =
     (case sc_delayed_task s of
        [] \<Rightarrow> (WaitForever, s)
      | t # ts \<Rightarrow>
          let delay = get_delay (clk 0) t in
          if delay \<le> 0
          then (NoWait, s\<lparr>sc_called := sc_called s @ [t],
                          sc_delayed_task := pq_pop delay_cmp (cmp_reads (\<lambda>k. clk (Suc k))) (sc_delayed_task s)\<rparr>)
          else (WaitMicro delay, s))"

text \<open>
  The thread of the loop and the destructor. A wait ends when it is notified or when its time
  is over; the spurious wake-ups that a condition variable may also have are not steps.
\<close>

datatype loop_pc = LP_Test | LP_Turn | LP_Waiting bool | LP_Returned

datatype dtor_pc = DP_Alive | DP_Stopped | DP_Joining | DP_Joined

record 'r sched_sys =
  sd_sched :: "'r Scheduler"
  sd_loop :: loop_pc
  sd_dtor :: dtor_pc

definition notify_loop :: "loop_pc \<Rightarrow> loop_pc" where
  "notify_loop pc = (case pc of LP_Waiting timed \<Rightarrow> LP_Test | _ \<Rightarrow> pc)"

inductive sched_step :: "'r sched_sys \<Rightarrow> 'r sched_sys \<Rightarrow> bool" where
  loop_test: "sd_loop s = LP_Test \<Longrightarrow>
    sched_step s (s\<lparr>sd_loop := (if sc_continue (sd_sched s) then LP_Turn else LP_Returned)\<rparr>)"
| loop_turn: "sd_loop s = LP_Turn \<Longrightarrow> scheduler_turn clk (sd_sched s) = (w, s1) \<Longrightarrow>
    sched_step s (s\<lparr>sd_sched := s1,
      sd_loop := (case w of NoWait \<Rightarrow> LP_Test | WaitMicro d \<Rightarrow> LP_Waiting True | WaitForever \<Rightarrow> LP_Waiting False)\<rparr>)"
| loop_timeout: "sd_loop s = LP_Waiting True \<Longrightarrow> sched_step s (s\<lparr>sd_loop := LP_Test\<rparr>)"
| sched_post: "sd_dtor s = DP_Alive \<Longrightarrow>
    sched_step s (s\<lparr>sd_sched := Scheduler_Post clk t (sd_sched s), sd_loop := notify_loop (sd_loop s)\<rparr>)"
| dtor_stop: "sd_dtor s = DP_Alive \<Longrightarrow>
    sched_step s (s\<lparr>sd_sched := (sd_sched s)\<lparr>sc_continue := False\<rparr>, sd_dtor := DP_Stopped\<rparr>)"
| dtor_notify: "sd_dtor s = DP_Stopped \<Longrightarrow> sched_step s (s\<lparr>sd_loop := notify_loop (sd_loop s), sd_dtor := DP_Joining\<rparr>)"
| dtor_join: "sd_dtor s = DP_Joining \<Longrightarrow> sd_loop s = LP_Returned \<Longrightarrow> sched_step s (s\<lparr>sd_dtor := DP_Joined\<rparr>)"

inductive_cases sched_stepE: "sched_step s t"

definition sched_init :: "'r sched_sys" where
  "sched_init = \<lparr>sd_sched = new_Scheduler, sd_loop = LP_Test, sd_dtor = DP_Alive\<rparr>"

text \<open>
  The ticker: whether \<open>AsyncTick\<close> resolves at once and with what, or posts a task with
  what delay.
\<close>

record Ticker =
  ti_continue :: bool
  ti_delay :: int
  ti_last_tick_ts :: int

definition new_Ticker :: "int \<times> int \<Rightarrow> int \<Rightarrow> int \<Rightarrow> Ticker" where
  "new_Ticker rep rtime now = \<lparr>ti_continue = True, ti_delay = Cast rep Micro rtime, ti_last_tick_ts = now\<rparr>"

datatype tick = TickNow bool | TickAfter int

definition Ticker_Stop :: "Ticker \<Rightarrow> Ticker" where
  "Ticker_Stop t = t\<lparr>ti_continue := False\<rparr>"

definition AsyncTick :: "int \<Rightarrow> Ticker \<Rightarrow> tick \<times> Ticker" where
  "AsyncTick now t =
     (if \<not> ti_continue t then (TickNow False, t\<lparr>ti_last_tick_ts := now\<rparr>)
      else
        let curr_tick_delay = now - ti_last_tick_ts t in
        if curr_tick_delay < ti_delay t then (TickAfter (ti_delay t - curr_tick_delay), t)
        else (TickNow True, t\<lparr>ti_last_tick_ts := now\<rparr>))"

text \<open>The task of a tick that was put off.\<close>

definition ticker_task_execute :: "int \<Rightarrow> Ticker \<Rightarrow> bool \<times> Ticker" where
  "ticker_task_execute now t = (True, t\<lparr>ti_last_tick_ts := now\<rparr>)"

section \<open>Lemmas\<close>

lemma Cast_milli: "Cast Milli Micro ms = 1000 * ms"
  by (simp add: Cast_def Milli_def Micro_def Let_def)

text \<open>The comparison is right up to the difference of its two readings of the clock.\<close>

interpretation dq: approximate_order delay_cmp tk_created_at "\<lambda>nows. \<bar>fst nows - snd nows\<bar>"
  by unfold_locales (auto simp: delay_cmp_def less_than_by_delay_def get_delay_def)

text \<open>The posts and the turns of the loop, each with its readings of the clock.\<close>

datatype 'r sched_event = EPost clock_reads "'r task" | ETurn clock_reads

fun event_clock :: "'r sched_event \<Rightarrow> clock_reads" where
  "event_clock (EPost clk t) = clk"
| "event_clock (ETurn clk) = clk"

fun sched_run :: "'r sched_event list \<Rightarrow> 'r Scheduler \<Rightarrow> 'r Scheduler" where
  "sched_run [] s = s"
| "sched_run (EPost clk t # es) s = sched_run es (Scheduler_Post clk t s)"
| "sched_run (ETurn clk # es) s = sched_run es (snd (scheduler_turn clk s))"

fun posted :: "'r sched_event list \<Rightarrow> 'r task list" where
  "posted [] = []"
| "posted (EPost clk t # es) = t # posted es"
| "posted (ETurn clk # es) = posted es"

text \<open>Two consecutive readings of one call differ by at most \<open>d\<close>.\<close>

definition steady :: "int \<Rightarrow> clock_reads \<Rightarrow> bool" where
  "steady d clk \<longleftrightarrow> (\<forall>k. \<bar>clk k - clk (Suc k)\<bar> \<le> d)"

lemma Scheduler_Post_elements [simp]:
  "mset (sc_delayed_task (Scheduler_Post clk t s)) = add_mset t (mset (sc_delayed_task s))"
  "sc_called (Scheduler_Post clk t s) = sc_called s"
  by (simp_all add: Scheduler_Post_def)

lemma turn_conserves:
  "mset (sc_called (snd (scheduler_turn clk s))) + mset (sc_delayed_task (snd (scheduler_turn clk s)))
     = mset (sc_called s) + mset (sc_delayed_task s)"
proof (cases "sc_delayed_task s")
  case (Cons t ts)
  then show ?thesis
    using pq_pop_elements [of "sc_delayed_task s" delay_cmp "cmp_reads (\<lambda>k. clk (Suc k))"]
    by (auto simp: scheduler_turn_def Let_def)
qed (simp add: scheduler_turn_def)

lemma sched_run_conserves:
  "mset (sc_called (sched_run es s)) + mset (sc_delayed_task (sched_run es s))
     = mset (sc_called s) + mset (sc_delayed_task s) + mset (posted es)"
proof (induction es s rule: sched_run.induct)
  case (3 clk es s)
  then show ?case by (simp add: turn_conserves)
qed simp_all

lemma steady_cmp:
  "steady d clk \<Longrightarrow> \<bar>fst (cmp_reads clk k) - snd (cmp_reads clk k)\<bar> \<le> d"
  "steady d clk \<Longrightarrow> \<bar>fst (cmp_reads (\<lambda>k. clk (Suc k)) k) - snd (cmp_reads (\<lambda>k. clk (Suc k)) k)\<bar> \<le> d"
  by (simp_all add: steady_def cmp_reads_def)

lemma steady_nonneg: "steady d clk \<Longrightarrow> 0 \<le> d"
  unfolding steady_def by (metis abs_ge_zero order_trans)

lemma Scheduler_Post_within:
  assumes "dq.heap_within e (sc_delayed_task s)" "steady d clk" "0 \<le> e"
  shows "dq.heap_within (e + 2 * d) (sc_delayed_task (Scheduler_Post clk t s))"
proof -
  have "dq.heap_within (e + d) (sc_delayed_task (Scheduler_Post clk t s))"
    using assms steady_nonneg by (auto simp: Scheduler_Post_def steady_cmp intro!: dq.pq_push_within)
  then show ?thesis using dq.heap_within_mono steady_nonneg [OF assms(2)] by fastforce
qed

lemma scheduler_turn_within:
  assumes "dq.heap_within e (sc_delayed_task s)" "steady d clk" "0 \<le> e"
  shows "dq.heap_within (e + 2 * d) (sc_delayed_task (snd (scheduler_turn clk s)))"
proof -
  have "dq.heap_within (e + 2 * d) (pq_pop delay_cmp (cmp_reads (\<lambda>k. clk (Suc k))) (sc_delayed_task s))"
    using assms steady_nonneg by (auto simp: steady_cmp intro!: dq.pq_pop_within)
  moreover have "dq.heap_within (e + 2 * d) (sc_delayed_task s)"
    using assms dq.heap_within_mono steady_nonneg by fastforce
  ultimately show ?thesis by (cases "sc_delayed_task s") (auto simp: scheduler_turn_def Let_def)
qed

text \<open>Each post and each turn costs at most twice the difference of two readings.\<close>

lemma sched_run_within:
  "dq.heap_within e (sc_delayed_task s) \<Longrightarrow> 0 \<le> e \<Longrightarrow> 0 \<le> d \<Longrightarrow> \<forall>ev\<in>set es. steady d (event_clock ev)
     \<Longrightarrow> dq.heap_within (e + 2 * d * int (length es)) (sc_delayed_task (sched_run es s))"
proof (induction es s arbitrary: e rule: sched_run.induct)
  case (2 clk t es s)
  then show ?case using Scheduler_Post_within [of e s d clk t] by (fastforce simp: algebra_simps)
next
  case (3 clk es s)
  then show ?case using scheduler_turn_within [of e s d clk] by (fastforce simp: algebra_simps)
qed simp

section \<open>Properties\<close>

text \<open>C27: for every sequence of posts and turns of the scheduler's loop, each posted task is either
  still held back or was handed to the callback, and that once. A turn hands over a task, which
  it then no longer holds, only when the time of that task has come; it hands over the front of
  the queue, and waits only for the front. The comparison of the queue reads the clock once for
  each side: if consecutive readings within one call differ by at most \<open>d\<close> microseconds, the
  time of the front is later than that of any task held by at most \<open>2 d\<close> for each post and turn
  so far (the errors add up), so with equal readings tasks are handed over earliest first, and a
  turn does not wait while a task is due by more than that.\<close>

theorem scheduler_delivers:
  assumes "0 \<le> d" and "\<forall>ev\<in>set es. steady d (event_clock ev)"
  shows "mset (sc_called (sched_run es new_Scheduler)) + mset (sc_delayed_task (sched_run es new_Scheduler)) = mset (posted es)
   \<and> (let s = sched_run es new_Scheduler; (w, s1) = scheduler_turn clk s in
        (case w of
           NoWait \<Rightarrow> \<exists>t. sc_called s1 = sc_called s @ [t] \<and> add_mset t (mset (sc_delayed_task s1)) = mset (sc_delayed_task s)
             \<and> tk_created_at t \<le> clk 0
             \<and> (\<forall>u\<in>set (sc_delayed_task s). tk_created_at t \<le> tk_created_at u + 2 * d * int (length es))
         | WaitMicro delay \<Rightarrow> s1 = s \<and> 0 < delay
             \<and> (\<forall>u\<in>set (sc_delayed_task s). clk 0 + delay \<le> tk_created_at u + 2 * d * int (length es))
         | WaitForever \<Rightarrow> s1 = s \<and> sc_delayed_task s = []))"
proof -
  let ?s = "sched_run es new_Scheduler"
  have "mset (sc_called ?s) + mset (sc_delayed_task ?s) = mset (posted es)"
    using sched_run_conserves [of es new_Scheduler] by (simp add: new_Scheduler_def)
  moreover have "dq.heap_within (2 * d * int (length es)) (sc_delayed_task ?s)"
    using sched_run_within [of 0 new_Scheduler d es] assms by (simp add: new_Scheduler_def dq.heap_within_def)
  then have "tk_created_at (sc_delayed_task ?s ! 0) \<le> tk_created_at u + 2 * d * int (length es)"
    if "u \<in> set (sc_delayed_task ?s)" for u using that by (rule dq.heap_within_front)
  moreover have "0 \<le> d * int (length es)" using assms(1) by simp
  ultimately show ?thesis
    using pq_pop_elements [of "sc_delayed_task ?s" delay_cmp "cmp_reads (\<lambda>k. clk (Suc k))"]
    by (cases "sc_delayed_task ?s") (auto simp: scheduler_turn_def Let_def get_delay_def)
qed

text \<open>Three tasks posted while the clock moves by one microsecond between readings, and a turn.\<close>

theorem scheduler_delivers_witness:
  "let tk = (\<lambda>i due. new_task i (Inr ()) due);
       es = [EPost (\<lambda>k. int k) (tk 1 50), EPost (\<lambda>k. int k) (tk 2 90), EPost (\<lambda>k. 5) (tk 3 20), ETurn (\<lambda>k. 30 + int k)];
       s = sched_run es new_Scheduler in
     mset (sc_called s) + mset (sc_delayed_task s) = {#tk 1 50, tk 2 90, tk 3 20#}
     \<and> sc_called s = [tk 3 20] \<and> sc_delayed_task s = [tk 1 50, tk 2 90]
     \<and> (\<exists>t. sc_called (snd (scheduler_turn (\<lambda>k. 60) s)) = [tk 3 20, t] \<and> tk_created_at t \<le> 60
          \<and> tk_created_at t \<le> tk_created_at (tk 2 90) + 8)"
proof -
  let ?tk = "\<lambda>i due. new_task i (Inr ()) due :: unit task"
  define es where "es = [EPost (\<lambda>k. int k) (?tk 1 50), EPost (\<lambda>k. int k) (?tk 2 90), EPost (\<lambda>k. 5) (?tk 3 20), ETurn (\<lambda>k. 30 + int k)]"
  have s: "sched_run es new_Scheduler = new_Scheduler\<lparr>sc_called := [?tk 3 20], sc_delayed_task := [?tk 1 50, ?tk 2 90]\<rparr>"
    by (simp add: es_def new_Scheduler_def Scheduler_Post_def scheduler_turn_def pq_push_def pq_pop_def heap_rise.simps heap_sink.simps
        heap_parent_def delay_cmp_def less_than_by_delay_def cmp_reads_def get_delay_def new_task_def)
  have "\<forall>ev\<in>set es. steady 1 (event_clock ev)" by (simp add: es_def steady_def)
  from scheduler_delivers [OF _ this, of "\<lambda>k. 60"]
  show ?thesis unfolding es_def [symmetric] Let_def s by (simp add: es_def scheduler_turn_def get_delay_def new_task_def)
qed

text \<open>The order can be wrong: when the clock moves by two microseconds between the two readings of
  a comparison, the later of two tasks becomes the front, and a task can count as later than
  itself, so the comparison is not the strict weak order that \<open>std::priority_queue\<close> needs.\<close>

lemma scheduler_order_drifts:
  "sc_delayed_task (Scheduler_Post (\<lambda>k. 2 * int k) (new_task 2 f 10) (Scheduler_Post clk (new_task 1 f 9) new_Scheduler))
     = [new_task 2 f 10, new_task 1 f 9]"
  "less_than_by_delay 0 1 t t"
  by (simp_all add: new_Scheduler_def Scheduler_Post_def pq_push_def heap_rise.simps heap_parent_def delay_cmp_def
      less_than_by_delay_def cmp_reads_def get_delay_def new_task_def)

text \<open>C38: the destructor of the scheduler can wait for ever: it sets the flag and notifies without the
  mutex, so both can fall between the loop's test of the flag and its wait; the loop then waits
  for a notification that no one sends, and from that state no step is possible (short of a
  spurious wake-up).\<close>

theorem scheduler_destructor_hangs:
  "\<exists>s. sched_step\<^sup>*\<^sup>* (sched_init :: 'r sched_sys) s \<and> sd_dtor s = DP_Joining \<and> sd_loop s = LP_Waiting False
     \<and> (\<forall>t. \<not> sched_step s t)"
proof -
  let ?off = "new_Scheduler\<lparr>sc_continue := False\<rparr> :: 'r Scheduler"
  let ?a = "\<lparr>sd_sched = new_Scheduler, sd_loop = LP_Turn, sd_dtor = DP_Alive\<rparr>"
  let ?b = "\<lparr>sd_sched = ?off, sd_loop = LP_Turn, sd_dtor = DP_Stopped\<rparr>"
  let ?c = "\<lparr>sd_sched = ?off, sd_loop = LP_Turn, sd_dtor = DP_Joining\<rparr>"
  let ?d = "\<lparr>sd_sched = ?off, sd_loop = LP_Waiting False, sd_dtor = DP_Joining\<rparr>"
  have "sched_step sched_init ?a"
    using loop_test [of sched_init] by (simp add: sched_init_def new_Scheduler_def)
  moreover have "sched_step ?a ?b" using dtor_stop [of ?a] by simp
  moreover have "sched_step ?b ?c" using dtor_notify [of ?b] by (simp add: notify_loop_def)
  moreover have "sched_step ?c ?d"
    using loop_turn [of ?c "\<lambda>k. 0" WaitForever ?off] by (simp add: scheduler_turn_def new_Scheduler_def)
  ultimately have "sched_step\<^sup>*\<^sup>* sched_init ?d" by (rule run_of_4)
  moreover have "\<not> sched_step ?d t" for t by (auto elim: sched_stepE)
  ultimately show ?thesis by (intro exI [of _ ?d]) simp
qed

text \<open>Ticks are at least the ticker's delay apart: a tick that \<open>AsyncTick\<close> grants at once comes no
  earlier than the delay after the last one, and for one that comes too early a task is posted
  whose delay ends exactly when the delay since the last tick is over; after \<open>Stop\<close> every tick
  is refused.\<close>

theorem ticker_spacing:
  "case AsyncTick now t of
     (TickNow True, t1) \<Rightarrow> ti_continue t \<and> now \<ge> ti_last_tick_ts t + ti_delay t \<and> ti_last_tick_ts t1 = now
   | (TickAfter d, t1) \<Rightarrow> 0 < d \<and> now + d = ti_last_tick_ts t + ti_delay t
       \<and> tk_created_at (set_delay Micro d now tk) = ti_last_tick_ts t + ti_delay t \<and> t1 = t
   | (TickNow False, t1) \<Rightarrow> \<not> ti_continue t"
  by (auto simp: AsyncTick_def Let_def set_delay_def Cast_def Micro_def split: tick.splits bool.splits)

end
