(* ===== verification/Coroutines.thy ===== *)
theory Coroutines
  imports Tasks
begin

text \<open>
  \<open>include/ar/coroutine.hpp\<close>, with \<open>Async\<close> of a coroutine and \<open>Await\<close> inside a coroutine from
  \<open>include/ar/runtime.hpp\<close>. The function of a coroutine is a \<open>body\<close>: what it does next with
  its handler and its \<open>yield\<close>, and how it goes on from there. A context of the library is where
  the body goes on (\<open>cont\<close>); an empty one is \<open>None\<close>. The machine \<open>co_step\<close> runs the tasks that
  resume one coroutine on any number of threads, against the calls of a client and the
  threads that fulfil the awaited futures; one access to the coroutine, its mutex, its promise
  or a future per step. A client calls \<open>Async\<close> again when the future of its last call is ready,
  and resumes a coroutine that called \<open>suspend\<close>.
\<close>

section \<open>Definitions\<close>

datatype ('v, 'r) body =
    B_Return "ar_error + 'r"
  | B_Yield 'r "('v, 'r) body"
  | B_Suspend "('v, 'r) body"
  | B_Await nat "ar_error + 'v \<Rightarrow> ('v, 'r) body"
  | B_Group int "('v, 'r) body"
  | B_Tag int "('v, 'r) body"

text \<open>Where a suspended body goes on: after a \<open>yield\<close> or at its start, after \<open>suspend\<close>, or in \<open>Await\<close> at \<open>done_future.get()\<close>.\<close>

datatype ('v, 'r) cont =
    At "('v, 'r) body"
  | Paused "('v, 'r) body"
  | Getting nat "ar_error + 'v \<Rightarrow> ('v, 'r) body"

record ('v, 'r) coroutine =
  co_continuation :: "('v, 'r) cont option"
  co_end :: bool
  co_state :: execution_state

text \<open>The constructor enters the context once, up to the \<open>resume\<close> before \<open>call\<close>.\<close>

definition new_coroutine :: "('v, 'r) body \<Rightarrow> ('v, 'r) coroutine" where
  "new_coroutine f = \<lparr>co_continuation = Some (At f), co_end = False, co_state = new_execution_state\<rparr>"

definition co_is_completed :: "('v, 'r) coroutine \<Rightarrow> bool" where
  "co_is_completed c \<longleftrightarrow> co_end c \<or> co_continuation c = None"

definition handler_set_state :: "execution_state \<Rightarrow> ('v, 'r) coroutine \<Rightarrow> ('v, 'r) coroutine" where
  "handler_set_state st c = c\<lparr>co_state := st\<rparr>"

definition handler_set_wg :: "int \<Rightarrow> ('v, 'r) coroutine \<Rightarrow> ('v, 'r) coroutine" where
  "handler_set_wg wg c = c\<lparr>co_state := (co_state c)\<lparr>es_work_group := wg, es_processor := INVALID_OBJECT_ID\<rparr>\<rparr>"

definition handler_set_tag :: "int \<Rightarrow> ('v, 'r) coroutine \<Rightarrow> ('v, 'r) coroutine" where
  "handler_set_tag tag c = c\<lparr>co_state := (co_state c)\<lparr>es_tag := tag, es_processor := INVALID_OBJECT_ID\<rparr>\<rparr>"

text \<open>
  Where a thread stands that executes a \<open>coroutine_task\<close>: before \<open>set_execution_state\<close>, before
  the mutex, in the body, in \<open>Await\<close> before \<open>future.then\<close>, in \<open>Await\<close> after it was resumed, after
  the body has returned, or back in \<open>resume\<close> with the context that it stores.
\<close>

datatype ('v, 'r) act =
    A_Start execution_state
  | A_Lock
  | A_Run "('v, 'r) body"
  | A_Then nat "ar_error + 'v \<Rightarrow> ('v, 'r) body"
  | A_Get nat "ar_error + 'v \<Rightarrow> ('v, 'r) body"
  | A_End
  | A_Back "('v, 'r) cont option"
  | A_Done

text \<open>
  \<open>cs_promise\<close> counts the promises that \<open>init_promise\<close> has made; the current one is the last.
  \<open>cs_results\<close> are the promises fulfilled so far and with what, \<open>cs_waiting\<close> the futures with a
  continuation of \<open>Await\<close> attached, \<open>cs_posted\<close> the resume tasks given to \<open>Post\<close> and not yet
  executed, \<open>cs_failed\<close> that a promise was fulfilled twice.
\<close>

record ('v, 'r) co_sys =
  cs_co :: "('v, 'r) coroutine"
  cs_lock :: bool
  cs_promise :: nat
  cs_results :: "(nat \<times> (ar_error + 'r)) list"
  cs_futures :: "nat \<rightharpoonup> ar_error + 'v"
  cs_waiting :: "nat list"
  cs_posted :: "execution_state list"
  cs_acts :: "('v, 'r) act list"
  cs_failed :: bool

definition fulfilled :: "('v, 'r) co_sys \<Rightarrow> bool" where
  "fulfilled s \<longleftrightarrow> cs_promise s \<in> fst ` set (cs_results s)"

definition set_promise :: "ar_error + 'r \<Rightarrow> ('v, 'r) co_sys \<Rightarrow> ('v, 'r) co_sys" where
  "set_promise x s = (if fulfilled s then s\<lparr>cs_failed := True\<rparr> else s\<lparr>cs_results := cs_results s @ [(cs_promise s, x)]\<rparr>)"

text \<open>\<open>Post(handler->resume_task())\<close>.\<close>

definition post_resume :: "('v, 'r) co_sys \<Rightarrow> ('v, 'r) co_sys" where
  "post_resume s = s\<lparr>cs_posted := cs_posted s @ [co_state (cs_co s)]\<rparr>"

definition Async_coroutine :: "('v, 'r) co_sys \<Rightarrow> ('v, 'r) co_sys" where
  "Async_coroutine s = post_resume (s\<lparr>cs_promise := Suc (cs_promise s)\<rparr>)"

definition act_to :: "nat \<Rightarrow> ('v, 'r) act \<Rightarrow> ('v, 'r) co_sys \<Rightarrow> ('v, 'r) co_sys" where
  "act_to i a s = s\<lparr>cs_acts := (cs_acts s)[i := a]\<rparr>"

definition on_co :: "(('v, 'r) coroutine \<Rightarrow> ('v, 'r) coroutine) \<Rightarrow> ('v, 'r) co_sys \<Rightarrow> ('v, 'r) co_sys" where
  "on_co f s = s\<lparr>cs_co := f (cs_co s)\<rparr>"

text \<open>The body up to its next action.\<close>

fun body_step :: "nat \<Rightarrow> ('v, 'r) body \<Rightarrow> ('v, 'r) co_sys \<Rightarrow> ('v, 'r) co_sys" where
  "body_step i (B_Return r) s = act_to i A_End (set_promise r s)"
| "body_step i (B_Yield v b) s = act_to i (A_Back (Some (At b))) (set_promise (Inr v) s)"
| "body_step i (B_Suspend b) s = act_to i (A_Back (Some (Paused b))) s"
| "body_step i (B_Group g b) s = act_to i (A_Run b) (on_co (handler_set_wg g) s)"
| "body_step i (B_Tag g b) s = act_to i (A_Run b) (on_co (handler_set_tag g) s)"
| "body_step i (B_Await f k) s =
     (case cs_futures s f of Some v \<Rightarrow> act_to i (A_Run (k v)) s | None \<Rightarrow> act_to i (A_Then f k) s)"

definition resume_locked :: "nat \<Rightarrow> ('v, 'r) co_sys \<Rightarrow> ('v, 'r) co_sys" where
  "resume_locked i s =
     (let s = s\<lparr>cs_lock := True\<rparr> in
      if \<not> co_is_completed (cs_co s) then
        case co_continuation (cs_co s) of
          Some (Getting f k) \<Rightarrow> act_to i (A_Get f k) (on_co (co_continuation_update (\<lambda>_. None)) s)
        | Some (Paused b) \<Rightarrow> act_to i (A_Run b) (on_co (co_continuation_update (\<lambda>_. None)) s)
        | Some (At b) \<Rightarrow> act_to i (A_Run b) (on_co (co_continuation_update (\<lambda>_. None)) s)
        | None \<Rightarrow> s
      else act_to i (A_Back (co_continuation (cs_co s))) (set_promise (Inl (runtime_error ''coroutine is completed'')) s))"

text \<open>One step of the thread of activation \<open>i\<close>; \<open>None\<close> when it waits or is done.\<close>

definition act_step :: "nat \<Rightarrow> ('v, 'r) co_sys \<Rightarrow> ('v, 'r) co_sys option" where
  "act_step i s =
     (case cs_acts s ! i of
        A_Start st \<Rightarrow> Some (act_to i A_Lock (on_co (handler_set_state st) s))
      | A_Lock \<Rightarrow> if cs_lock s then None else Some (resume_locked i s)
      | A_Run b \<Rightarrow> Some (body_step i b s)
      | A_Then f k \<Rightarrow>
          Some (act_to i (A_Back (Some (Getting f k)))
            (if cs_futures s f \<noteq> None then post_resume s else s\<lparr>cs_waiting := cs_waiting s @ [f]\<rparr>))
      | A_Get f k \<Rightarrow> (case cs_futures s f of Some v \<Rightarrow> Some (act_to i (A_Run (k v)) s) | None \<Rightarrow> None)
      | A_End \<Rightarrow> Some (act_to i (A_Back None) (on_co (co_end_update (\<lambda>_. True)) s))
      | A_Back c \<Rightarrow> Some (act_to i A_Done (on_co (co_continuation_update (\<lambda>_. c)) (s\<lparr>cs_lock := False\<rparr>)))
      | A_Done \<Rightarrow> None)"

text \<open>Fulfilling a future posts a resume task for every continuation attached to it.\<close>

definition fulfil_future :: "nat \<Rightarrow> ar_error + 'v \<Rightarrow> ('v, 'r) co_sys \<Rightarrow> ('v, 'r) co_sys" where
  "fulfil_future f x s =
     s\<lparr>cs_futures := (cs_futures s)(f \<mapsto> x), cs_waiting := filter (\<lambda>g. g \<noteq> f) (cs_waiting s),
       cs_posted := cs_posted s @ map (\<lambda>_. co_state (cs_co s)) (filter (\<lambda>g. g = f) (cs_waiting s))\<rparr>"

definition co_paused :: "('v, 'r) co_sys \<Rightarrow> bool" where
  "co_paused s \<longleftrightarrow> (case co_continuation (cs_co s) of Some (Paused b) \<Rightarrow> True | _ \<Rightarrow> False)
     \<and> \<not> cs_lock s \<and> cs_posted s = [] \<and> list_all (\<lambda>a. a = A_Done) (cs_acts s)"

inductive co_step :: "('v, 'r) co_sys \<Rightarrow> ('v, 'r) co_sys \<Rightarrow> bool" where
  co_act: "i < length (cs_acts s) \<Longrightarrow> act_step i s = Some t \<Longrightarrow> co_step s t"
| co_take: "st \<in> set (cs_posted s) \<Longrightarrow>
    co_step s (s\<lparr>cs_posted := remove1 st (cs_posted s), cs_acts := cs_acts s @ [A_Start (st\<lparr>es_processor := cpu\<rparr>)]\<rparr>)"
| co_fulfil: "cs_futures s f = None \<Longrightarrow> co_step s (fulfil_future f x s)"
| co_async: "cs_promise s = 0 \<or> fulfilled s \<Longrightarrow> co_step s (Async_coroutine s)"
| co_wake: "co_paused s \<Longrightarrow> co_step s (post_resume s)"

inductive_cases co_stepE: "co_step s t"

definition co_init :: "('v, 'r) body \<Rightarrow> ('v, 'r) co_sys" where
  "co_init b = \<lparr>cs_co = new_coroutine b, cs_lock = False, cs_promise = 0, cs_results = [], cs_futures = Map.empty,
     cs_waiting = [], cs_posted = [], cs_acts = [], cs_failed = False\<rparr>"

text \<open>What the calls of \<open>Async\<close> should give: the values that the body yields, then how it ends.\<close>

primrec outputs :: "(nat \<rightharpoonup> ar_error + 'v) \<Rightarrow> ('v, 'r) body \<Rightarrow> (ar_error + 'r) list" where
  "outputs aw (B_Return r) = [r]"
| "outputs aw (B_Yield v b) = Inr v # outputs aw b"
| "outputs aw (B_Suspend b) = outputs aw b"
| "outputs aw (B_Await f k) = (case aw f of None \<Rightarrow> [] | Some v \<Rightarrow> (outputs aw \<circ> k) v)"
| "outputs aw (B_Group g b) = outputs aw b"
| "outputs aw (B_Tag g b) = outputs aw b"

definition completed_error :: "ar_error + 'r" where
  "completed_error = Inl (runtime_error ''coroutine is completed'')"

section \<open>The invariant\<close>

fun holding :: "('v, 'r) act \<Rightarrow> bool" where
  "holding (A_Start st) = False"
| "holding A_Lock = False"
| "holding A_Done = False"
| "holding a = True"

fun entering :: "('v, 'r) act \<Rightarrow> bool" where
  "entering A_End = False"
| "entering (A_Back c) = False"
| "entering A_Done = False"
| "entering a = True"

fun pos_act :: "('v, 'r) act \<Rightarrow> ('v, 'r) cont option" where
  "pos_act (A_Run b) = Some (At b)"
| "pos_act (A_Then f k) = Some (At (B_Await f k))"
| "pos_act (A_Get f k) = Some (Getting f k)"
| "pos_act (A_Back c) = c"
| "pos_act a = None"

text \<open>Where the body stands: with the thread that holds the mutex, or stored.\<close>

definition co_pos :: "('v, 'r) co_sys \<Rightarrow> ('v, 'r) cont option" where
  "co_pos s = (case filter holding (cs_acts s) of [] \<Rightarrow> co_continuation (cs_co s) | a # _ \<Rightarrow> pos_act a)"

inductive emits :: "(nat \<rightharpoonup> ar_error + 'v) \<Rightarrow> ('v, 'r) body \<Rightarrow> (ar_error + 'r) list \<Rightarrow> ('v, 'r) body \<Rightarrow> bool"
  for aw :: "nat \<rightharpoonup> ar_error + 'v" and b0 :: "('v, 'r) body" where
  emits_start: "emits aw b0 [] b0"
| emits_yield: "emits aw b0 R (B_Yield v b) \<Longrightarrow> emits aw b0 (R @ [Inr v]) b"
| emits_suspend: "emits aw b0 R (B_Suspend b) \<Longrightarrow> emits aw b0 R b"
| emits_await: "emits aw b0 R (B_Await f k) \<Longrightarrow> aw f = Some v \<Longrightarrow> emits aw b0 R (k v)"
| emits_group: "emits aw b0 R (B_Group g b) \<Longrightarrow> emits aw b0 R b"
| emits_tag: "emits aw b0 R (B_Tag g b) \<Longrightarrow> emits aw b0 R b"

lemmas emits_steps = emits_yield emits_suspend emits_await emits_group emits_tag

lemma emits_outputs: "emits aw b0 R b \<Longrightarrow> outputs aw b0 = R @ outputs aw b"
  by (induction rule: emits.induct) auto

lemma emits_more:
  assumes "emits aw b0 R b" "aw f = None"
  shows "emits (aw(f \<mapsto> x)) b0 R b"
  using assms(1)
proof (induction rule: emits.induct)
  case (emits_await R g k v)
  then have "(aw(f \<mapsto> x)) g = Some v" using assms(2) by auto
  with emits_await.IH show ?case by (rule emits.emits_await)
qed (auto intro: emits.intros)

definition emitted :: "(nat \<rightharpoonup> ar_error + 'v) \<Rightarrow> ('v, 'r) body \<Rightarrow> (ar_error + 'r) list \<Rightarrow> ('v, 'r) cont option \<Rightarrow> bool" where
  "emitted aw b0 R p =
     (case p of
        None \<Rightarrow> \<exists>Q r m. emits aw b0 Q (B_Return r) \<and> R = Q @ [r] @ replicate m completed_error
      | Some (At b) \<Rightarrow> emits aw b0 R b
      | Some (Paused b) \<Rightarrow> emits aw b0 R b
      | Some (Getting f k) \<Rightarrow> emits aw b0 R (B_Await f k))"

lemma emitted_more: "emitted aw b0 R p \<Longrightarrow> aw f = None \<Longrightarrow> emitted (aw(f \<mapsto> x)) b0 R p"
  unfolding emitted_def by (auto intro: emits_more split: option.splits cont.splits)

definition pending :: "('v, 'r) co_sys \<Rightarrow> bool" where
  "pending s \<longleftrightarrow> cs_promise s = Suc (length (cs_results s))"

text \<open>The resumptions under way: posted, attached to a future, or executing and not yet done with the body.\<close>

definition tokens :: "('v, 'r) co_sys \<Rightarrow> nat" where
  "tokens s = length (cs_posted s) + length (cs_waiting s) + length (filter entering (cs_acts s))"

definition ids_ok :: "(nat \<times> 'x) list \<Rightarrow> bool" where
  "ids_ok rs \<longleftrightarrow> map fst rs = [1..<Suc (length rs)]"

lemma ids_ok_snoc: "ids_ok rs \<Longrightarrow> ids_ok (rs @ [(Suc (length rs), x)])"
  by (simp add: ids_ok_def)

definition co_inv :: "('v, 'r) body \<Rightarrow> ('v, 'r) co_sys \<Rightarrow> bool" where
  "co_inv b0 s \<longleftrightarrow> \<not> cs_failed s \<and> ids_ok (cs_results s)
     \<and> (cs_promise s = length (cs_results s) \<or> pending s)
     \<and> length (filter holding (cs_acts s)) = (if cs_lock s then 1 else 0)
     \<and> emitted (cs_futures s) b0 (map snd (cs_results s)) (co_pos s)
     \<and> (if pending s then tokens s = 1 \<or> tokens s = 0 \<and> (\<exists>b. co_pos s = Some (Paused b)) else tokens s = 0)
     \<and> (cs_lock s \<longrightarrow> co_continuation (cs_co s) = None)
     \<and> (co_end (cs_co s) \<longleftrightarrow> co_pos s = None \<and> A_End \<notin> set (cs_acts s))
     \<and> (\<forall>f\<in>set (cs_waiting s). cs_futures s f = None \<and> (\<exists>k. co_pos s = Some (Getting f k)))
     \<and> ((\<exists>b. co_pos s = Some (Paused b)) \<longrightarrow> pending s)
     \<and> (\<forall>f k. co_pos s = Some (Getting f k) \<longrightarrow> f \<in> set (cs_waiting s) \<or> cs_futures s f \<noteq> None)
     \<and> (\<forall>st\<in>set (cs_posted s). st = co_state (cs_co s))"

lemma co_fulfilled:
  assumes "co_inv b0 s"
  shows "fulfilled s \<longleftrightarrow> \<not> pending s \<and> cs_results s \<noteq> []"
proof -
  have ids: "ids_ok (cs_results s)" and p: "cs_promise s = length (cs_results s) \<or> pending s"
    using assms by (simp_all add: co_inv_def)
  have "fst ` set (cs_results s) = {1..length (cs_results s)}"
    using arg_cong [OF ids [unfolded ids_ok_def], of set] by (auto simp del: upt_Suc)
  then show ?thesis using p by (cases "cs_results s") (auto simp: fulfilled_def pending_def)
qed

lemma pos_held: "filter holding (cs_acts s) = [a] \<Longrightarrow> co_pos s = pos_act a"
  by (simp add: co_pos_def)

lemma pos_free: "filter holding (cs_acts s) = [] \<Longrightarrow> co_pos s = co_continuation (cs_co s)"
  by (simp add: co_pos_def)

lemma end_held: "filter holding xs = ys \<Longrightarrow> A_End \<in> set xs \<longleftrightarrow> A_End \<in> set ys"
  by auto

lemma end_holds: "filter holding xs = filter holding ys \<Longrightarrow> A_End \<in> set xs \<longleftrightarrow> A_End \<in> set ys"
  using end_held [of xs] end_held [of ys] by blast

lemma co_holder:
  assumes "co_inv b0 s" "i < length (cs_acts s)" "holding (cs_acts s ! i)"
  shows "cs_lock s" "co_pos s = pos_act (cs_acts s ! i)" "co_continuation (cs_co s) = None"
    "filter holding ((cs_acts s)[i := a]) = (if holding a then [a] else [])" "A_End \<in> set (cs_acts s) \<longleftrightarrow> cs_acts s ! i = A_End"
proof -
  have "filter holding (cs_acts s) \<noteq> []" using assms(2,3) by (auto simp: filter_empty_conv)
  then show lock: "cs_lock s" using assms(1) by (auto simp: co_inv_def split: if_splits)
  then have "length (filter holding (cs_acts s)) = 1" using assms(1) by (simp add: co_inv_def)
  note only = filter_only [OF assms(2,3) this]
  show "co_pos s = pos_act (cs_acts s ! i)" by (simp add: co_pos_def only(1))
  show "co_continuation (cs_co s) = None" using lock assms(1) by (simp add: co_inv_def)
  show "filter holding ((cs_acts s)[i := a]) = (if holding a then [a] else [])" by (rule only(2))
  show "A_End \<in> set (cs_acts s) \<longleftrightarrow> cs_acts s ! i = A_End" using end_held [OF only(1)] by auto
qed

lemma co_enterer:
  assumes "co_inv b0 s" "i < length (cs_acts s)" "entering (cs_acts s ! i)"
  shows "pending s" "cs_posted s = []" "cs_waiting s = []"
    "filter entering ((cs_acts s)[i := a]) = (if entering a then [a] else [])" "\<not> fulfilled s"
proof -
  have n: "filter entering (cs_acts s) \<noteq> []" using assms(2,3) by (auto simp: filter_empty_conv)
  then have t: "0 < tokens s" by (simp add: tokens_def)
  then show p: "pending s" using assms(1) by (auto simp: co_inv_def split: if_splits)
  then have "tokens s = 1" using t assms(1) by (auto simp: co_inv_def)
  moreover have "1 \<le> length (filter entering (cs_acts s))" using n by (cases "filter entering (cs_acts s)") auto
  ultimately have one: "length (filter entering (cs_acts s)) = 1" and z: "length (cs_posted s) = 0" "length (cs_waiting s) = 0"
    unfolding tokens_def by linarith+
  then show "cs_posted s = []" "cs_waiting s = []" by simp_all
  show "filter entering ((cs_acts s)[i := a]) = (if entering a then [a] else [])" by (rule filter_only [OF assms(2,3) one])
  show "\<not> fulfilled s" using co_fulfilled [OF assms(1)] p by simp
qed

lemma co_inv_start:
  assumes inv: "co_inv b0 s" and i: "i < length (cs_acts s)" and a: "cs_acts s ! i = A_Start st"
  shows "co_inv b0 (act_to i A_Lock (on_co (handler_set_state st) s))" (is "co_inv b0 ?t")
proof -
  note e = co_enterer [OF inv i, unfolded a, simplified]
  have h: "filter holding (cs_acts ?t) = filter holding (cs_acts s)" using filter_other [OF i, of holding] a by (simp add: act_to_def on_co_def)
  have pos: "co_pos ?t = co_pos s" unfolding co_pos_def h by (simp add: act_to_def on_co_def handler_set_state_def split: list.split)
  have en: "A_End \<in> set (cs_acts ?t) \<longleftrightarrow> A_End \<in> set (cs_acts s)" by (rule end_holds [OF h])
  have tok: "tokens ?t = 1" using e by (simp add: tokens_def act_to_def on_co_def)
  show ?thesis using inv e(1-3) unfolding co_inv_def pos h en tok
    by (simp add: act_to_def on_co_def handler_set_state_def pending_def)
qed

lemma emitted_completed:
  assumes "emitted aw b0 R None"
  shows "emitted aw b0 (R @ [completed_error]) None"
proof -
  from assms obtain Q r m where q: "emits aw b0 Q (B_Return r)" "R = Q @ [r] @ replicate m completed_error"
    by (auto simp: emitted_def)
  then have "R @ [completed_error] = Q @ [r] @ replicate (Suc m) completed_error" by (simp add: replicate_append_same)
  with q(1) show ?thesis unfolding emitted_def option.case by blast
qed

lemma co_inv_lock:
  assumes inv: "co_inv b0 s" and i: "i < length (cs_acts s)" and a: "cs_acts s ! i = A_Lock" and free: "\<not> cs_lock s"
  shows "co_inv b0 (resume_locked i s)"
proof -
  note e = co_enterer [OF inv i, unfolded a, simplified]
  have none: "filter holding (cs_acts s) = []" using inv free by (simp add: co_inv_def)
  note pos = pos_free [OF none]
  have no_end: "A_End \<notin> set (cs_acts s)" using end_held [OF none] by simp
  show ?thesis
  proof (cases "co_is_completed (cs_co s)")
    case True
    with inv pos no_end have c: "co_continuation (cs_co s) = None" "co_end (cs_co s)" by (auto simp: co_inv_def co_is_completed_def)
    define t where "t = resume_locked i s"
    have t: "t = act_to i (A_Back None) (set_promise completed_error (s\<lparr>cs_lock := True\<rparr>))"
      using True c by (simp add: t_def resume_locked_def Let_def completed_error_def)
    have acts: "cs_acts t = (cs_acts s)[i := A_Back None]" using e by (simp add: t act_to_def set_promise_def fulfilled_def)
    have f: "filter holding (cs_acts t) = [A_Back None]" unfolding acts using filter_first [OF i none, of "A_Back None"] by simp
    have en: "A_End \<notin> set (cs_acts t)" using end_held [OF f] by simp
    have tok: "tokens t = 0" "\<not> pending t" "ids_ok (cs_results t)" using e inv
      by (auto simp: tokens_def t act_to_def set_promise_def fulfilled_def pending_def co_inv_def ids_ok_snoc)
    show ?thesis using inv e(1-3,5) c True emitted_completed [of "cs_futures s" b0 "map snd (cs_results s)"] tok
      unfolding t_def [symmetric] co_inv_def pos_held [OF f] f using en pos
      by (simp add: t act_to_def set_promise_def fulfilled_def pending_def)
  next
    case False
    then obtain x where c: "co_continuation (cs_co s) = Some x" "\<not> co_end (cs_co s)" by (auto simp: co_is_completed_def)
    define a1 where "a1 = (case x of Getting f k \<Rightarrow> A_Get f k | Paused b \<Rightarrow> A_Run b | At b \<Rightarrow> A_Run b)"
    define t where "t = resume_locked i s"
    have t: "t = act_to i a1 (on_co (co_continuation_update (\<lambda>_. None)) (s\<lparr>cs_lock := True\<rparr>))"
      using c False by (cases x) (auto simp: t_def resume_locked_def Let_def co_is_completed_def a1_def)
    have a1: "holding a1" "entering a1" "a1 \<noteq> A_End" "pos_act a1 \<noteq> None" by (cases x; simp add: a1_def)+
    have f: "filter holding (cs_acts t) = [a1]" using filter_first [OF i none] a1(1) by (simp add: t act_to_def on_co_def)
    have en: "A_End \<notin> set (cs_acts t)" using end_held [OF f] a1 by simp
    have tok: "tokens t = 1" using e(2,3,4) a1 by (simp add: tokens_def t act_to_def on_co_def)
    have "emitted (cs_futures s) b0 (map snd (cs_results s)) (pos_act a1)"
      using inv pos c by (cases x; auto simp: a1_def co_inv_def emitted_def)
    moreover have "cs_futures s f \<noteq> None" if "pos_act a1 = Some (Getting f k)" for f k
      using inv pos c that e(3) by (cases x) (auto simp: a1_def co_inv_def)
    ultimately show ?thesis using inv e(1-3) c tok en a1 unfolding t_def [symmetric] co_inv_def pos_held [OF f] f
      by (simp add: t act_to_def on_co_def pending_def)
  qed
qed

text \<open>
  A step of the thread that holds the mutex and runs the body: it goes on at \<open>a\<close>, with one more
  result or none, and hands its token on or drops it.
\<close>

lemma co_inv_run:
  assumes inv: "co_inv b0 s" and i: "i < length (cs_acts s)" and h: "holding (cs_acts s ! i)" and e: "entering (cs_acts s ! i)"
    and t: "cs_acts t = (cs_acts s)[i := a]" "cs_lock t = cs_lock s" "cs_promise t = cs_promise s" "cs_futures t = cs_futures s"
      "co_continuation (cs_co t) = co_continuation (cs_co s)" "co_end (cs_co t) = co_end (cs_co s)" "cs_failed t = cs_failed s"
    and a: "holding a" "pos_act a = None \<longleftrightarrow> a = A_End"
    and emit: "emitted (cs_futures s) b0 (map snd (cs_results t)) (pos_act a)"
    and out: "cs_results t = cs_results s \<and> (length (cs_posted t) + length (cs_waiting t) + (if entering a then 1 else 0) = 1
          \<or> cs_posted t = [] \<and> cs_waiting t = [] \<and> (\<exists>b. a = A_Back (Some (Paused b))))
        \<or> (\<exists>x. cs_results t = cs_results s @ [(cs_promise s, x)]) \<and> cs_posted t = [] \<and> cs_waiting t = [] \<and> \<not> entering a"
    and wait: "\<forall>f\<in>set (cs_waiting t). cs_futures s f = None \<and> (\<exists>k. pos_act a = Some (Getting f k))"
      "\<And>f k. pos_act a = Some (Getting f k) \<Longrightarrow> f \<in> set (cs_waiting t) \<or> cs_futures s f \<noteq> None"
      "\<forall>st\<in>set (cs_posted t). st = co_state (cs_co t)"
      "\<And>b. pos_act a = Some (Paused b) \<Longrightarrow> cs_results t = cs_results s"
  shows "co_inv b0 t"
proof -
  note hold = co_holder [OF inv i h] and en = co_enterer [OF inv i e]
  have f: "filter holding (cs_acts t) = [a]" using hold(4) a(1) t(1) by simp
  have pos: "co_pos t = pos_act a" by (rule pos_held [OF f])
  have fin: "A_End \<in> set (cs_acts t) \<longleftrightarrow> a = A_End" using end_held [OF f] by auto
  have ne: "\<not> co_end (cs_co s)" using inv hold(2,5) h e by (cases "cs_acts s ! i") (auto simp: co_inv_def)
  have p: "cs_promise s = Suc (length (cs_results s))" using en(1) by (simp add: pending_def)
  have ids: "ids_ok (cs_results t)" using inv out p by (auto simp: co_inv_def ids_ok_snoc)
  have tok: "tokens t = length (cs_posted t) + length (cs_waiting t) + (if entering a then 1 else 0)"
    using en(4) t(1) by (simp add: tokens_def)
  have pend: "pending t \<longleftrightarrow> cs_results t = cs_results s" "cs_promise t = length (cs_results t) \<or> pending t"
  proof -
    from out consider "cs_results t = cs_results s" | x where "cs_results t = cs_results s @ [(cs_promise s, x)]" by blast
    then show "pending t \<longleftrightarrow> cs_results t = cs_results s" "cs_promise t = length (cs_results t) \<or> pending t"
      by (cases; simp add: pending_def t(3) p)+
  qed
  have counts: "if pending t then tokens t = 1 \<or> tokens t = 0 \<and> (\<exists>b. co_pos t = Some (Paused b)) else tokens t = 0"
  proof (cases "cs_results t = cs_results s")
    case True
    with out have "length (cs_posted t) + length (cs_waiting t) + (if entering a then 1 else 0) = 1
      \<or> cs_posted t = [] \<and> cs_waiting t = [] \<and> (\<exists>b. a = A_Back (Some (Paused b)))" by auto
    then show ?thesis using True pend(1) unfolding tok pos by auto
  next
    case False
    then show ?thesis using out pend(1) unfolding tok pos by simp
  qed
  have "length (filter holding (cs_acts t)) = (if cs_lock t then 1 else 0)" using f t(2) hold(1) by simp
  moreover have "\<not> cs_failed t" using inv t(7) by (simp add: co_inv_def)
  moreover have "co_end (cs_co t) \<longleftrightarrow> co_pos t = None \<and> A_End \<notin> set (cs_acts t)" using ne fin a(2) t(6) pos by simp
  moreover have "cs_lock t \<longrightarrow> co_continuation (cs_co t) = None" using hold(3) t(5) by simp
  moreover have "\<forall>f k. co_pos t = Some (Getting f k) \<longrightarrow> f \<in> set (cs_waiting t) \<or> cs_futures t f \<noteq> None"
    using wait(2) t(4) pos by simp
  moreover have "(\<exists>b. co_pos t = Some (Paused b)) \<longrightarrow> pending t" using wait(4) pend(1) pos by auto
  ultimately show ?thesis using emit ids pend(2) counts wait(1,3) unfolding co_inv_def t(4) pos by blast
qed

lemma body_step_inv:
  assumes inv: "co_inv b0 s" and i: "i < length (cs_acts s)" and a: "cs_acts s ! i = A_Run b"
  shows "co_inv b0 (body_step i b s)"
proof -
  have h: "holding (cs_acts s ! i)" "entering (cs_acts s ! i)" by (simp_all add: a)
  note hold = co_holder [OF inv i h(1)] and en = co_enterer [OF inv i h(2)]
  have em: "emits (cs_futures s) b0 (map snd (cs_results s)) b" using inv hold(2) by (simp add: co_inv_def a emitted_def)
  note run = co_inv_run [OF inv i h]
  show ?thesis
  proof (cases b)
    case (B_Return r)
    have "emitted (cs_futures s) b0 (map snd (cs_results s) @ [r]) None"
      using em B_Return unfolding emitted_def option.case by (metis append_Nil2 replicate_0)
    then show ?thesis using en B_Return by (intro run [where a = A_End]) (auto simp: act_to_def set_promise_def)
  next
    case (B_Yield v c)
    have "emitted (cs_futures s) b0 (map snd (cs_results s) @ [Inr v]) (Some (At c))"
      using em B_Yield emits_yield by (simp add: emitted_def)
    then show ?thesis using en B_Yield by (intro run [where a = "A_Back (Some (At c))"]) (auto simp: act_to_def set_promise_def)
  next
    case (B_Suspend c)
    have "emitted (cs_futures s) b0 (map snd (cs_results s)) (Some (Paused c))"
      using em B_Suspend emits_suspend by (simp add: emitted_def)
    then show ?thesis using en B_Suspend by (intro run [where a = "A_Back (Some (Paused c))"]) (auto simp: act_to_def)
  next
    case (B_Await f k)
    show ?thesis
    proof (cases "cs_futures s f")
      case None
      then show ?thesis using em en B_Await by (intro run [where a = "A_Then f k"]) (auto simp: act_to_def emitted_def)
    next
      case (Some v)
      then have "emits (cs_futures s) b0 (map snd (cs_results s)) (k v)" using em B_Await by (simp add: emits_await)
      then show ?thesis using en B_Await Some by (intro run [where a = "A_Run (k v)"]) (auto simp: act_to_def emitted_def)
    qed
  next
    case (B_Group g c)
    have "emits (cs_futures s) b0 (map snd (cs_results s)) c" using em B_Group by (simp add: emits_group)
    then show ?thesis using en B_Group
      by (intro run [where a = "A_Run c"]) (auto simp: act_to_def on_co_def handler_set_wg_def emitted_def)
  next
    case (B_Tag g c)
    have "emits (cs_futures s) b0 (map snd (cs_results s)) c" using em B_Tag by (simp add: emits_tag)
    then show ?thesis using en B_Tag
      by (intro run [where a = "A_Run c"]) (auto simp: act_to_def on_co_def handler_set_tag_def emitted_def)
  qed
qed

text \<open>A step of the thread that is done with the body: it stores the end or the context.\<close>

lemma co_inv_leave:
  assumes inv: "co_inv b0 s" and i: "i < length (cs_acts s)" and a: "cs_acts s ! i = A_Back c"
  shows "co_inv b0 (act_to i A_Done (on_co (co_continuation_update (\<lambda>_. c)) (s\<lparr>cs_lock := False\<rparr>)))" (is "co_inv b0 ?t")
proof -
  have h: "holding (cs_acts s ! i)" by (simp add: a)
  note hold = co_holder [OF inv i h]
  have f: "filter holding (cs_acts ?t) = []" using hold(4) by (simp add: act_to_def on_co_def)
  have pos: "co_pos ?t = c" using pos_free [OF f] by (simp add: act_to_def on_co_def)
  have pos': "co_pos s = c" using hold(2) a by simp
  have fin: "A_End \<notin> set (cs_acts ?t)" "A_End \<notin> set (cs_acts s)" using end_held [OF f] hold(5) a by simp_all
  have "filter entering ((cs_acts s)[i := A_Done]) = filter entering (cs_acts s)" using filter_other [OF i] a by simp
  then have tok: "tokens ?t = tokens s" by (simp add: tokens_def act_to_def on_co_def)
  show ?thesis using inv fin unfolding co_inv_def pos pos' tok f
    by (auto simp: act_to_def on_co_def pending_def split: if_splits)
qed

lemma co_inv_end:
  assumes inv: "co_inv b0 s" and i: "i < length (cs_acts s)" and a: "cs_acts s ! i = A_End"
  shows "co_inv b0 (act_to i (A_Back None) (on_co (co_end_update (\<lambda>_. True)) s))" (is "co_inv b0 ?t")
proof -
  have h: "holding (cs_acts s ! i)" by (simp add: a)
  note hold = co_holder [OF inv i h]
  have f: "filter holding (cs_acts ?t) = [A_Back None]" using hold(4) by (simp add: act_to_def on_co_def)
  have pos: "co_pos ?t = None" "co_pos s = None" using pos_held [OF f] hold(2) a by simp_all
  have fin: "A_End \<notin> set (cs_acts ?t)" using end_held [OF f] by simp
  have "filter entering ((cs_acts s)[i := A_Back None]) = filter entering (cs_acts s)" using filter_other [OF i] a by simp
  then have tok: "tokens ?t = tokens s" by (simp add: tokens_def act_to_def on_co_def)
  show ?thesis using inv fin hold(1,3) unfolding co_inv_def pos tok f
    by (auto simp: act_to_def on_co_def pending_def split: if_splits)
qed

lemma co_inv_then:
  assumes inv: "co_inv b0 s" and i: "i < length (cs_acts s)" and a: "cs_acts s ! i = A_Then f k"
  shows "co_inv b0 (act_to i (A_Back (Some (Getting f k)))
    (if cs_futures s f \<noteq> None then post_resume s else s\<lparr>cs_waiting := cs_waiting s @ [f]\<rparr>))"
proof -
  have h: "holding (cs_acts s ! i)" "entering (cs_acts s ! i)" by (simp_all add: a)
  note hold = co_holder [OF inv i h(1)] and en = co_enterer [OF inv i h(2)]
  have em: "emitted (cs_futures s) b0 (map snd (cs_results s)) (Some (Getting f k))"
    using inv hold(2) by (simp add: co_inv_def a emitted_def)
  show ?thesis
    by (rule co_inv_run [OF inv i h, where a = "A_Back (Some (Getting f k))"]) (use en em in \<open>auto simp: act_to_def post_resume_def\<close>)
qed

lemma co_inv_get:
  assumes inv: "co_inv b0 s" and i: "i < length (cs_acts s)" and a: "cs_acts s ! i = A_Get f k" and v: "cs_futures s f = Some v"
  shows "co_inv b0 (act_to i (A_Run (k v)) s)"
proof -
  have h: "holding (cs_acts s ! i)" "entering (cs_acts s ! i)" by (simp_all add: a)
  note hold = co_holder [OF inv i h(1)] and en = co_enterer [OF inv i h(2)]
  have "emits (cs_futures s) b0 (map snd (cs_results s)) (B_Await f k)" using inv hold(2) by (simp add: co_inv_def a emitted_def)
  then have em: "emitted (cs_futures s) b0 (map snd (cs_results s)) (Some (At (k v)))"
    using v by (simp add: emitted_def emits_await)
  show ?thesis by (rule co_inv_run [OF inv i h, where a = "A_Run (k v)"]) (use en em in \<open>auto simp: act_to_def\<close>)
qed

lemma co_inv_act:
  assumes inv: "co_inv b0 s" and i: "i < length (cs_acts s)" and t: "act_step i s = Some t"
  shows "co_inv b0 t"
proof (cases "cs_acts s ! i")
  case (A_Start st)
  then show ?thesis using co_inv_start [OF inv i] t by (auto simp: act_step_def)
next
  case A_Lock
  then show ?thesis using co_inv_lock [OF inv i] t by (auto simp: act_step_def split: if_splits)
next
  case (A_Run b)
  then show ?thesis using body_step_inv [OF inv i] t by (auto simp: act_step_def)
next
  case (A_Then f k)
  then show ?thesis using co_inv_then [OF inv i] t by (auto simp: act_step_def)
next
  case (A_Get f k)
  then show ?thesis using co_inv_get [OF inv i] t by (auto simp: act_step_def split: option.splits)
next
  case A_End
  then show ?thesis using co_inv_end [OF inv i] t by (auto simp: act_step_def)
next
  case (A_Back c)
  then show ?thesis using co_inv_leave [OF inv i] t by (auto simp: act_step_def)
next
  case A_Done
  then show ?thesis using t by (simp add: act_step_def)
qed

text \<open>The other steps leave the threads and the results alone; they move or add a token.\<close>

lemma co_inv_outside:
  assumes inv: "co_inv b0 s"
    and t: "filter holding (cs_acts t) = filter holding (cs_acts s)" "cs_lock t = cs_lock s" "cs_results t = cs_results s"
      "cs_co t = cs_co s" "cs_failed t = cs_failed s"
    and fut: "emitted (cs_futures t) b0 (map snd (cs_results s)) (co_pos s)"
    and p: "cs_promise t = length (cs_results s) \<or> cs_promise t = Suc (length (cs_results s))"
    and tok: "if pending t then tokens t = 1 \<or> tokens t = 0 \<and> (\<exists>b. co_pos s = Some (Paused b)) else tokens t = 0"
    and wait: "\<forall>f\<in>set (cs_waiting t). cs_futures t f = None \<and> (\<exists>k. co_pos s = Some (Getting f k))"
      "\<And>b. co_pos s = Some (Paused b) \<Longrightarrow> pending t"
      "\<And>f k. co_pos s = Some (Getting f k) \<Longrightarrow> f \<in> set (cs_waiting t) \<or> cs_futures t f \<noteq> None"
      "\<forall>st\<in>set (cs_posted t). st = co_state (cs_co s)"
  shows "co_inv b0 t"
proof -
  have pos: "co_pos t = co_pos s" unfolding co_pos_def t ..
  have fin: "A_End \<in> set (cs_acts t) \<longleftrightarrow> A_End \<in> set (cs_acts s)" by (rule end_holds [OF t(1)])
  have "cs_promise t = length (cs_results t) \<or> pending t" using p t(3) by (simp add: pending_def)
  then show ?thesis using inv fut tok wait unfolding co_inv_def pos fin t by blast
qed

lemma co_inv_async:
  assumes inv: "co_inv b0 s" and ready: "cs_promise s = 0 \<or> fulfilled s"
  shows "co_inv b0 (Async_coroutine s)"
proof -
  have "\<not> pending s" using ready co_fulfilled [OF inv] by (auto simp: pending_def)
  then have "tokens s = 0" "cs_promise s = length (cs_results s)" using inv by (auto simp: co_inv_def)
  then have z: "cs_posted s = []" "cs_waiting s = []" "filter entering (cs_acts s) = []" "cs_promise s = length (cs_results s)"
    by (simp_all add: tokens_def)
  show ?thesis
    by (rule co_inv_outside [OF inv]) (use inv z in \<open>auto simp: co_inv_def Async_coroutine_def post_resume_def pending_def tokens_def\<close>)
qed

lemma co_inv_wake:
  assumes inv: "co_inv b0 s" and p: "co_paused s"
  shows "co_inv b0 (post_resume s)"
proof -
  have d: "list_all (\<lambda>a. a = A_Done) (cs_acts s)" "cs_posted s = []" using p by (auto simp: co_paused_def)
  then have none: "filter holding (cs_acts s) = []" "filter entering (cs_acts s) = []"
    by (auto simp: filter_empty_conv list_all_iff)
  obtain b where pos: "co_pos s = Some (Paused b)"
    using p by (auto simp: co_paused_def pos_free [OF none(1)] split: option.splits cont.splits)
  then have w: "cs_waiting s = []" "pending s" using inv by (cases "cs_waiting s"; auto simp: co_inv_def)+
  show ?thesis
    by (rule co_inv_outside [OF inv]) (use inv pos d w none in \<open>auto simp: co_inv_def post_resume_def pending_def tokens_def\<close>)
qed

lemma co_inv_take:
  assumes inv: "co_inv b0 s" and st: "st \<in> set (cs_posted s)"
  shows "co_inv b0 (s\<lparr>cs_posted := remove1 st (cs_posted s), cs_acts := cs_acts s @ [A_Start st']\<rparr>)" (is "co_inv b0 ?t")
proof -
  have "length (cs_posted s) = Suc (length (remove1 st (cs_posted s)))" using st length_pos_if_in_set [OF st] by (simp add: length_remove1)
  then have "tokens ?t = tokens s" by (simp add: tokens_def)
  then show ?thesis
    by (intro co_inv_outside [OF inv]) (use inv in \<open>auto simp: co_inv_def pending_def dest: in_set_remove1 [THEN iffD1] notin_set_remove1\<close>)
qed

lemma co_inv_fulfil:
  assumes inv: "co_inv b0 s" and f: "cs_futures s f = None"
  shows "co_inv b0 (fulfil_future f x s)"
proof -
  have "length (filter (\<lambda>g. g \<noteq> f) xs) + length (filter (\<lambda>g. g = f) xs) = length xs" for xs :: "nat list"
    using sum_length_filter_compl [of "\<lambda>g. g = f" xs] by simp
  from this [of "cs_waiting s"] have tok: "tokens (fulfil_future f x s) = tokens s" by (simp add: tokens_def fulfil_future_def)
  have pend: "pending (fulfil_future f x s) = pending s" by (simp add: pending_def fulfil_future_def)
  show ?thesis
  proof (rule co_inv_outside [OF inv])
    show "emitted (cs_futures (fulfil_future f x s)) b0 (map snd (cs_results s)) (co_pos s)"
    proof -
      have "emitted (cs_futures s) b0 (map snd (cs_results s)) (co_pos s)" using inv by (simp add: co_inv_def)
      from emitted_more [OF this f] show ?thesis by (simp add: fulfil_future_def)
    qed
  qed (use inv f tok pend in \<open>auto simp: co_inv_def pending_def fulfil_future_def\<close>)
qed

lemma co_inv_init: "co_inv b (co_init b)"
  by (simp add: co_inv_def co_init_def new_coroutine_def ids_ok_def emitted_def emits_start co_pos_def tokens_def pending_def)

lemma co_inv_step: "co_inv b0 s \<Longrightarrow> co_step s t \<Longrightarrow> co_inv b0 t"
  by (erule co_stepE) (auto intro: co_inv_act co_inv_take co_inv_fulfil co_inv_async co_inv_wake)

interpretation coroutine_run: step_invariant "\<lambda>s. s = co_init b" co_step "co_inv b" for b
  by unfold_locales (auto intro: co_inv_init co_inv_step)

section \<open>Schedules\<close>

text \<open>A concrete run: which step is next.\<close>

datatype ('v, 'r) co_op = CO_Act nat | CO_Take int | CO_Fulfil nat "ar_error + 'v" | CO_Async | CO_Wake

fun co_exec :: "('v, 'r) co_op list \<Rightarrow> ('v, 'r) co_sys \<Rightarrow> ('v, 'r) co_sys option" where
  "co_exec [] s = Some s"
| "co_exec (CO_Act i # ops) s =
     (if i < length (cs_acts s) then case act_step i s of Some t \<Rightarrow> co_exec ops t | None \<Rightarrow> None else None)"
| "co_exec (CO_Take cpu # ops) s =
     (case cs_posted s of
        [] \<Rightarrow> None
      | st # sts \<Rightarrow> co_exec ops (s\<lparr>cs_posted := sts, cs_acts := cs_acts s @ [A_Start (st\<lparr>es_processor := cpu\<rparr>)]\<rparr>))"
| "co_exec (CO_Fulfil f x # ops) s = (if cs_futures s f = None then co_exec ops (fulfil_future f x s) else None)"
| "co_exec (CO_Async # ops) s = (if cs_promise s = 0 \<or> fulfilled s then co_exec ops (Async_coroutine s) else None)"
| "co_exec (CO_Wake # ops) s = (if co_paused s then co_exec ops (post_resume s) else None)"

lemma co_exec_reaches: "co_exec ops s = Some t \<Longrightarrow> co_step\<^sup>*\<^sup>* s t"
proof (induction ops s rule: co_exec.induct)
  case (3 cpu ops s)
  then obtain st sts where p: "cs_posted s = st # sts" by (auto split: list.splits)
  from co_take [of st s cpu] p have "co_step s (s\<lparr>cs_posted := sts, cs_acts := cs_acts s @ [A_Start (st\<lparr>es_processor := cpu\<rparr>)]\<rparr>)" by simp
  with 3 p show ?case by (auto intro: converse_rtranclp_into_rtranclp)
qed (auto intro: converse_rtranclp_into_rtranclp co_step.intros split: if_splits option.splits)

section \<open>Properties\<close>

text \<open>C4: The n-th call of \<open>Async\<close> on a coroutine gets the n-th output of its function, whatever
  the interleaving of the threads that resume it with the client and with the threads that
  fulfil the futures it awaits: the values it yields, in order, then its result or the
  exception that it threw, and from then on the error that the coroutine is completed. No
  promise is fulfilled twice, at most one thread is inside the function, and at most one
  resumption is under way, so that the function is never entered twice for one \<open>Await\<close>.\<close>

theorem coroutine_outputs:
  assumes "co_step\<^sup>*\<^sup>* (co_init b) s" and "n = length (cs_results s)"
  shows "map fst (cs_results s) = [1..<Suc n] \<and> map snd (cs_results s) = take n (outputs (cs_futures s) b @ replicate n completed_error)
     \<and> \<not> cs_failed s \<and> length (filter holding (cs_acts s)) \<le> 1
     \<and> length (cs_posted s) + length (cs_waiting s) + length (filter entering (cs_acts s)) \<le> 1"
proof -
  have inv: "co_inv b s" using coroutine_run.inv_reachable assms(1) by blast
  have "map snd (cs_results s) = take n (outputs (cs_futures s) b @ replicate n completed_error)"
  proof (cases "co_pos s")
    case None
    with inv obtain Q r m where q: "emits (cs_futures s) b Q (B_Return r)" "map snd (cs_results s) = Q @ [r] @ replicate m completed_error"
      by (auto simp: co_inv_def emitted_def)
    from arg_cong [OF q(2), of length] have "n = length Q + Suc m" using assms(2) by simp
    then have "take n (Q @ [r] @ replicate n completed_error) = Q @ [r] @ replicate m (completed_error :: ar_error + 'b)"
      by (simp add: take_replicate del: replicate.simps)
    with q(2) emits_outputs [OF q(1)] show ?thesis by simp
  next
    case (Some c)
    with inv obtain c' where "emits (cs_futures s) b (map snd (cs_results s)) c'" by (cases c) (auto simp: co_inv_def emitted_def)
    from emits_outputs [OF this] show ?thesis using assms(2) by simp
  qed
  with inv assms(2) show ?thesis by (auto simp: co_inv_def ids_ok_def tokens_def split: if_splits simp del: upt_Suc)
qed

text \<open>A function that yields 5, awaits a future and returns twice its value, with the steps up to the second result.\<close>

definition small_body :: "(int, int) body" where
  "small_body = B_Yield 5 (B_Await 0 (\<lambda>v. B_Return (map_sum id (\<lambda>x. 2 * x) v)))"

definition small_prefix :: "(int, int) co_op list" where
  "small_prefix = [CO_Async, CO_Take 1, CO_Act 0, CO_Act 0, CO_Act 0, CO_Async, CO_Take 2, CO_Act 1, CO_Act 0, CO_Act 1, CO_Act 1, CO_Act 1, CO_Act 1]"

definition small_suffix :: "(int, int) co_op list" where
  "small_suffix = [CO_Fulfil 0 (Inr 4), CO_Take 2, CO_Act 2, CO_Act 2, CO_Act 2, CO_Act 2]"

lemmas small_run_simps = small_prefix_def small_suffix_def small_body_def co_init_def new_coroutine_def act_step_def Async_coroutine_def
  post_resume_def act_to_def on_co_def handler_set_state_def resume_locked_def co_is_completed_def set_promise_def fulfilled_def
  fulfil_future_def Let_def

theorem coroutine_outputs_witness:
  "\<exists>s. co_exec (small_prefix @ small_suffix) (co_init small_body) = Some s \<and> map snd (cs_results s) = [Inr 5, Inr 8]
     \<and> take 2 (outputs (cs_futures s) small_body @ replicate 2 completed_error) = [Inr 5, Inr 8]"
proof -
  obtain s where s: "co_exec (small_prefix @ small_suffix) (co_init small_body) = Some s" "map snd (cs_results s) = [Inr 5, Inr 8]"
    by (simp add: small_run_simps)
  from arg_cong [OF s(2), of length] have "2 = length (cs_results s)" by simp
  from coroutine_outputs [OF co_exec_reaches [OF s(1)] this] s show ?thesis by auto
qed

text \<open>C5: A coroutine is never lost: while the future of the last call is not ready, a resume task
  is posted, or a thread that executes one can step, or the coroutine awaits a future that is
  not ready and its continuation is attached to it, or it called \<open>suspend\<close> and waits to be
  resumed. A posted resume task carries the execution state of the handler.\<close>

theorem coroutine_not_lost:
  assumes "co_step\<^sup>*\<^sup>* (co_init b) s" and "cs_promise s \<noteq> 0" and "\<not> fulfilled s"
  shows "(cs_posted s \<noteq> [] \<or> (\<exists>i<length (cs_acts s). act_step i s \<noteq> None)
       \<or> (\<exists>f k. co_continuation (cs_co s) = Some (Getting f k) \<and> cs_waiting s = [f] \<and> cs_futures s f = None)
       \<or> co_paused s)
     \<and> (\<forall>st\<in>set (cs_posted s). st = co_state (cs_co s))"
proof -
  have inv: "co_inv b s" using coroutine_run.inv_reachable assms(1) by blast
  have pend: "pending s" using co_fulfilled [OF inv] assms(2,3) inv by (auto simp: co_inv_def pending_def)
  have "cs_posted s \<noteq> [] \<or> (\<exists>i<length (cs_acts s). act_step i s \<noteq> None)
       \<or> (\<exists>f k. co_continuation (cs_co s) = Some (Getting f k) \<and> cs_waiting s = [f] \<and> cs_futures s f = None) \<or> co_paused s"
  proof (cases "\<exists>i<length (cs_acts s). holding (cs_acts s ! i) \<or> entering (cs_acts s ! i) \<and> \<not> cs_lock s")
    case True
    then obtain i where i: "i < length (cs_acts s)" "holding (cs_acts s ! i) \<or> entering (cs_acts s ! i) \<and> \<not> cs_lock s" by blast
    have "cs_futures s f \<noteq> None" if a: "cs_acts s ! i = A_Get f k" for f k
      using co_holder(2) [OF inv i(1)] co_enterer(3) [OF inv i(1)] inv a by (auto simp: co_inv_def)
    then have "act_step i s \<noteq> None" using i by (cases "cs_acts s ! i") (auto simp: act_step_def split: if_splits)
    then show ?thesis using i(1) by blast
  next
    case False
    then have none: "filter holding (cs_acts s) = []" by (auto simp: filter_empty_conv in_set_conv_nth)
    then have free: "\<not> cs_lock s" using inv by (auto simp: co_inv_def split: if_splits)
    then have en: "filter entering (cs_acts s) = []" using False by (auto simp: filter_empty_conv in_set_conv_nth)
    note pos = pos_free [OF none]
    have d: "list_all (\<lambda>a. a = A_Done) (cs_acts s)"
    proof -
      have "a = A_Done" if "a \<in> set (cs_acts s)" for a
        using none en that by (cases a) (auto simp: filter_empty_conv)
      then show ?thesis by (simp add: list_all_iff)
    qed
    have "length (cs_posted s) + length (cs_waiting s) = 1 \<or> cs_posted s = [] \<and> (\<exists>b. co_pos s = Some (Paused b))"
      using inv pend en by (auto simp: co_inv_def tokens_def)
    then consider "cs_posted s \<noteq> []" | f where "cs_waiting s = [f]" | b where "cs_posted s = []" "co_pos s = Some (Paused b)"
      by (cases "cs_posted s"; cases "cs_waiting s") auto
    then show ?thesis
    proof cases
      case (2 f)
      then show ?thesis using inv pos by (auto simp: co_inv_def)
    next
      case (3 c)
      then show ?thesis using d free pos by (auto simp: co_paused_def)
    qed simp
  qed
  with inv show ?thesis by (simp add: co_inv_def)
qed

theorem coroutine_not_lost_witness:
  "\<exists>s. co_exec small_prefix (co_init small_body) = Some s \<and> cs_posted s = [] \<and> (\<forall>i<length (cs_acts s). act_step i s = None)
     \<and> cs_waiting s = [0] \<and> cs_futures s 0 = None \<and> \<not> fulfilled s"
proof -
  obtain s where s: "co_exec small_prefix (co_init small_body) = Some s" "cs_posted s = []" "cs_acts s = [A_Done, A_Done]" "cs_promise s = 2"
    "\<not> fulfilled s" "\<not> co_paused s" "cs_waiting s = [0]"
    by (simp add: small_run_simps co_paused_def)
  have "\<forall>i<length (cs_acts s). act_step i s = None" using s(3) by (auto simp: act_step_def less_Suc_eq)
  then show ?thesis using coroutine_not_lost [OF co_exec_reaches [OF s(1)]] s by auto
qed

end
