(* ===== verification/Io_Tasks.thy ===== *)
theory Io_Tasks
  imports AR_Prelude
begin

text \<open>
  \<open>src/io/io_task.h\<close> with its users \<open>src/io/tcp.cpp\<close> and \<open>src/io/udp.cpp\<close>. A read or write task
  turns the callbacks of the I/O library into one promise: its completion handler, its deadline
  handler and \<open>cancel\<close> may be called on different threads, one access to the flag \<open>resolved\<close> or
  to the promise per step of the machine \<open>io_step\<close>. A session operation is what it starts:
  the task it makes and the calls to the I/O library, in order (\<open>io_request\<close>); the library
  and its timers are outside the model, what their callbacks report is arbitrary. The input
  buffer of a session is the part of it that can be read, and the part reserved for the next datagram.
\<close>

section \<open>Definitions\<close>

datatype io_error = ec_none | ec_timed_out | ec_eof | ec_other int

text \<open>\<open>deadline\<close> is whether the task has a pointer to the timer.\<close>

record 'a io_promise =
  ip_deadline :: bool
  ip_resolved :: bool
  ip_promise :: "'a option"

definition new_io_promise :: "bool \<Rightarrow> 'a io_promise" where
  "new_io_promise deadline = \<lparr>ip_deadline = deadline, ip_resolved = False, ip_promise = None\<rparr>"

text \<open>What a class of tasks reports: when the deadline is over, when \<open>set_value\<close> has thrown, when it is cancelled.\<close>

record 'a io_values =
  iv_timed_out :: 'a
  iv_eof :: 'a
  iv_cancel :: 'a

definition read_task :: "(io_error \<times> nat) io_values" where
  "read_task = \<lparr>iv_timed_out = (ec_timed_out, 0), iv_eof = (ec_eof, 0), iv_cancel = (ec_timed_out, 0)\<rparr>"

definition write_task :: "io_error io_values" where
  "write_task = \<lparr>iv_timed_out = ec_timed_out, iv_eof = ec_eof, iv_cancel = ec_eof\<rparr>"

datatype 'a io_call = IC_Handler 'a | IC_Deadline int int | IC_Cancel

text \<open>
  Where a call stands: at its start, before \<open>set_value\<close> with a value (and whether an exception
  is caught), in the handler of the exception, done, or left with an exception.
\<close>

datatype 'a io_pc = IP_Start "'a io_call" | IP_Set 'a bool | IP_Catch | IP_Done | IP_Threw

record 'a io_sys =
  is_task :: "'a io_promise"
  is_calls :: "'a io_pc list"

fun call_value :: "'a io_values \<Rightarrow> 'a io_call \<Rightarrow> 'a" where
  "call_value V (IC_Handler x) = x"
| "call_value V (IC_Deadline expires_at now) = iv_timed_out V"
| "call_value V IC_Cancel = iv_cancel V"

text \<open>Whether the call gets to the flag at all: a deadline handler only when there is a timer and its time is over.\<close>

fun call_due :: "bool \<Rightarrow> 'a io_call \<Rightarrow> bool" where
  "call_due deadline (IC_Deadline expires_at now) = (deadline \<and> expires_at \<le> now)"
| "call_due deadline c = True"

fun call_step :: "'a io_values \<Rightarrow> 'a io_pc \<Rightarrow> 'a io_promise \<Rightarrow> ('a io_pc \<times> 'a io_promise) option" where
  "call_step V (IP_Start c) t =
     (if \<not> call_due (ip_deadline t) c then Some (IP_Done, t)
      else if ip_resolved t then Some (IP_Done, t\<lparr>ip_resolved := True\<rparr>)
      else Some (IP_Set (call_value V c) (c \<noteq> IC_Cancel), t\<lparr>ip_resolved := True\<rparr>))"
| "call_step V (IP_Set x caught) t =
     (case ip_promise t of
        None \<Rightarrow> Some (IP_Done, t\<lparr>ip_promise := Some x\<rparr>)
      | Some y \<Rightarrow> Some (if caught then IP_Catch else IP_Threw, t))"
| "call_step V IP_Catch t =
     (if ip_resolved t then Some (IP_Done, t\<lparr>ip_resolved := True\<rparr>) else Some (IP_Set (iv_eof V) False, t\<lparr>ip_resolved := True\<rparr>))"
| "call_step V IP_Done t = None"
| "call_step V IP_Threw t = None"

inductive io_step :: "'a io_values \<Rightarrow> 'a io_sys \<Rightarrow> 'a io_sys \<Rightarrow> bool" for V :: "'a io_values" where
  "i < length (is_calls s) \<Longrightarrow> call_step V (is_calls s ! i) (is_task s) = Some (pc, t) \<Longrightarrow>
    io_step V s \<lparr>is_task = t, is_calls = (is_calls s)[i := pc]\<rparr>"

inductive_cases io_stepE: "io_step V s t"

definition io_start :: "'a io_promise \<Rightarrow> 'a io_call list \<Rightarrow> 'a io_sys" where
  "io_start t cs = \<lparr>is_task = t, is_calls = map IP_Start cs\<rparr>"

abbreviation io_init :: "bool \<Rightarrow> 'a io_call list \<Rightarrow> 'a io_sys" where
  "io_init deadline cs \<equiv> io_start (new_io_promise deadline) cs"

text \<open>\<open>io_task\<close> has no flag: the promise alone.\<close>

definition io_task_set :: "io_error \<Rightarrow> io_error option \<Rightarrow> bool \<times> io_error option" where
  "io_task_set ec p = (case p of None \<Rightarrow> (True, Some ec) | Some e \<Rightarrow> (False, Some e))"

definition io_task_handler :: "io_error \<Rightarrow> io_error option \<Rightarrow> bool \<times> io_error option" where
  "io_task_handler ec p = io_task_set ec p"

definition io_task_cancel :: "io_error option \<Rightarrow> bool \<times> io_error option" where
  "io_task_cancel p = io_task_set ec_timed_out p"

text \<open>The sessions.\<close>

datatype io_request =
    Rq_Connect string int
  | Rq_Post_Read nat
  | Rq_Post_Write string
  | Rq_Post_Close
  | Rq_Receive nat
  | Rq_Send string
  | Rq_Close
  | Rq_Expires int
  | Rq_Wait
  | Rq_Cancel_Timer

record session =
  ts_read_timeout :: int
  ts_input :: string
  ts_prepared :: string

definition new_session :: session where
  "new_session = \<lparr>ts_read_timeout = 0, ts_input = '''', ts_prepared = ''''\<rparr>"

definition set_read_timeout :: "int \<Rightarrow> session \<Rightarrow> io_request list \<times> session" where
  "set_read_timeout seconds s = ([Rq_Expires seconds], s\<lparr>ts_read_timeout := seconds\<rparr>)"

definition read_input_stream :: "nat \<Rightarrow> session \<Rightarrow> string \<times> session" where
  "read_input_stream sz s =
     (let min_size = min (length (ts_input s)) sz in
      if min_size > 0 then (take min_size (ts_input s), s\<lparr>ts_input := drop min_size (ts_input s)\<rparr>) else ('''', s))"

definition tcp_async_connect :: "string \<Rightarrow> int \<Rightarrow> io_request list" where
  "tcp_async_connect ip_address port = [Rq_Connect ip_address port]"

definition tcp_async_read_size :: "nat \<Rightarrow> session \<Rightarrow> (io_error \<times> nat) io_promise \<times> io_request list" where
  "tcp_async_read_size sz s =
     (if ts_read_timeout s > 0
      then (new_io_promise True, [Rq_Post_Read sz, Rq_Expires (ts_read_timeout s), Rq_Wait])
      else (new_io_promise False, [Rq_Post_Read 1]))"

definition tcp_async_read :: "session \<Rightarrow> (io_error \<times> nat) io_promise \<times> io_request list" where
  "tcp_async_read s =
     (if ts_read_timeout s > 0
      then (new_io_promise True, [Rq_Post_Read 1, Rq_Expires (ts_read_timeout s), Rq_Wait])
      else (new_io_promise False, [Rq_Post_Read 1]))"

definition tcp_async_write :: "string \<Rightarrow> session \<Rightarrow> io_error io_promise \<times> io_request list" where
  "tcp_async_write buffer s =
     (if ts_read_timeout s > 0
      then (new_io_promise False, [Rq_Post_Write buffer, Rq_Expires (ts_read_timeout s), Rq_Wait])
      else (new_io_promise False, [Rq_Post_Write buffer]))"

definition tcp_close :: "io_request list" where
  "tcp_close = [Rq_Post_Close, Rq_Cancel_Timer]"

text \<open>The reader of a TCP socket appends what arrives to the input buffer and calls the handler.\<close>

definition tcp_received :: "string \<Rightarrow> session \<Rightarrow> session" where
  "tcp_received bytes s = s\<lparr>ts_input := ts_input s @ bytes\<rparr>"

definition udp_async_read :: "session \<Rightarrow> (io_error \<times> nat) io_promise \<times> io_request list" where
  "udp_async_read s =
     (if ts_read_timeout s > 0
      then (new_io_promise True, [Rq_Receive 1024, Rq_Expires (ts_read_timeout s), Rq_Wait])
      else (new_io_promise False, [Rq_Receive 1024]))"

text \<open>
  The datagram is written to the part of the buffer that \<open>prepare\<close> reserved, and the handler is called:
  nothing makes that part readable.
\<close>

definition udp_received :: "string \<Rightarrow> session \<Rightarrow> session" where
  "udp_received bytes s = s\<lparr>ts_prepared := take 1024 bytes\<rparr>"

definition udp_async_write :: "string \<Rightarrow> io_request list" where
  "udp_async_write buffer = [Rq_Send buffer]"

definition udp_close :: "io_request list" where
  "udp_close = [Rq_Close, Rq_Cancel_Timer]"

section \<open>The invariant\<close>

text \<open>The flag is set by the first call that gets to it; only that call has a value to set, until it is set.\<close>

fun setting :: "'a io_pc \<Rightarrow> bool" where
  "setting (IP_Set x caught) = True"
| "setting pc = False"

fun call_ok :: "'a io_values \<Rightarrow> bool \<Rightarrow> bool \<Rightarrow> 'a io_call \<Rightarrow> 'a io_pc \<Rightarrow> bool" where
  "call_ok V deadline resolved c (IP_Start d) = (d = c)"
| "call_ok V deadline resolved c (IP_Set x caught) = (call_due deadline c \<and> x = call_value V c)"
| "call_ok V deadline resolved c IP_Done = (call_due deadline c \<longrightarrow> resolved)"
| "call_ok V deadline resolved c pc = False"

definition io_inv :: "'a io_values \<Rightarrow> bool \<Rightarrow> 'a io_call list \<Rightarrow> 'a io_sys \<Rightarrow> bool" where
  "io_inv V deadline cs s \<longleftrightarrow> ip_deadline (is_task s) = deadline
     \<and> list_all2 (call_ok V deadline (ip_resolved (is_task s))) cs (is_calls s)
     \<and> length (filter setting (is_calls s)) = (if ip_resolved (is_task s) \<and> ip_promise (is_task s) = None then 1 else 0)
     \<and> (ip_promise (is_task s) \<noteq> None \<longrightarrow> ip_resolved (is_task s))
     \<and> (\<forall>x. ip_promise (is_task s) = Some x \<longrightarrow> (\<exists>c\<in>set cs. call_due deadline c \<and> x = call_value V c))"

lemma call_ok_resolved: "call_ok V deadline r c pc \<Longrightarrow> r \<longrightarrow> r' \<Longrightarrow> call_ok V deadline r' c pc"
  by (cases pc) auto

lemma call_ok_at:
  assumes "io_inv V deadline cs s" "i < length (is_calls s)"
  shows "i < length cs" "call_ok V deadline (ip_resolved (is_task s)) (cs ! i) (is_calls s ! i)"
  using assms by (auto simp: io_inv_def list_all2_conv_all_nth)

lemma call_ok_update:
  assumes "list_all2 (call_ok V deadline r) cs calls" "r \<longrightarrow> r'" "call_ok V deadline r' (cs ! i) pc" "i < length calls"
  shows "list_all2 (call_ok V deadline r') cs (calls[i := pc])"
proof -
  have "list_all2 (call_ok V deadline r') cs calls"
    using assms(1) by (rule list_all2_mono) (rule call_ok_resolved [OF _ assms(2)])
  then show ?thesis using assms(3,4) by (auto simp: list_all2_conv_all_nth nth_list_update)
qed

lemma setting_one:
  assumes "io_inv V deadline cs s" "i < length (is_calls s)" "setting (is_calls s ! i)"
  shows "ip_resolved (is_task s)" "ip_promise (is_task s) = None"
    "filter setting ((is_calls s)[i := pc]) = (if setting pc then [pc] else [])"
proof -
  have "filter setting (is_calls s) \<noteq> []" using assms(2,3) by (auto simp: filter_empty_conv)
  then show r: "ip_resolved (is_task s)" "ip_promise (is_task s) = None" using assms(1) by (auto simp: io_inv_def split: if_splits)
  then have "length (filter setting (is_calls s)) = 1" using assms(1) by (simp add: io_inv_def)
  from filter_only(2) [OF assms(2,3) this] show "filter setting ((is_calls s)[i := pc]) = (if setting pc then [pc] else [])" .
qed

lemma io_inv_start:
  assumes inv: "io_inv V deadline cs s" and i: "i < length (is_calls s)" and pc: "is_calls s ! i = IP_Start c"
    and t: "call_step V (IP_Start c) (is_task s) = Some (pc', t)"
  shows "io_inv V deadline cs \<lparr>is_task = t, is_calls = (is_calls s)[i := pc']\<rparr>"
proof -
  have c: "c = cs ! i" "ip_deadline (is_task s) = deadline" "list_all2 (call_ok V deadline (ip_resolved (is_task s))) cs (is_calls s)"
    using call_ok_at [OF inv i] inv pc by (auto simp: io_inv_def)
  note upd = call_ok_update [OF c(3) _ _ i]
  show ?thesis
  proof (cases "call_due deadline c \<and> \<not> ip_resolved (is_task s)")
    case True
    with t c have t': "pc' = IP_Set (call_value V c) (c \<noteq> IC_Cancel)" "t = (is_task s)\<lparr>ip_resolved := True\<rparr>"
      by (auto split: if_splits)
    have f: "filter setting (is_calls s) = []" "ip_promise (is_task s) = None" using inv True by (auto simp: io_inv_def)
    have "filter setting ((is_calls s)[i := pc']) = [pc']" using filter_first [OF i f(1)] t' by simp
    moreover have "list_all2 (call_ok V deadline True) cs ((is_calls s)[i := pc'])" using upd [of True pc'] c True t' by simp
    ultimately show ?thesis using f c t' by (simp add: io_inv_def)
  next
    case False
    with t c have t': "pc' = IP_Done" "t = is_task s" by (auto split: if_splits)
    have "filter setting ((is_calls s)[i := pc']) = filter setting (is_calls s)" using filter_other [OF i] pc t' by simp
    moreover have "list_all2 (call_ok V deadline (ip_resolved (is_task s))) cs ((is_calls s)[i := pc'])"
      using upd [of "ip_resolved (is_task s)" pc'] c False t' by auto
    ultimately show ?thesis using inv t' by (simp add: io_inv_def)
  qed
qed

lemma io_inv_set:
  assumes inv: "io_inv V deadline cs s" and i: "i < length (is_calls s)" and pc: "is_calls s ! i = IP_Set x caught"
  shows "io_inv V deadline cs \<lparr>is_task = (is_task s)\<lparr>ip_promise := Some x\<rparr>, is_calls = (is_calls s)[i := IP_Done]\<rparr>"
proof -
  note one = setting_one [OF inv i, unfolded pc, simplified]
  have c: "i < length cs" "call_due deadline (cs ! i)" "x = call_value V (cs ! i)" using call_ok_at [OF inv i] pc by auto
  then have "\<exists>d\<in>set cs. call_due deadline d \<and> x = call_value V d" by auto
  moreover have "list_all2 (call_ok V deadline True) cs ((is_calls s)[i := IP_Done])"
    by (rule call_ok_update [OF _ _ _ i, where r = "ip_resolved (is_task s)"]) (use inv in \<open>auto simp: io_inv_def\<close>)
  ultimately show ?thesis using inv one(1,2) one(3) [of IP_Done] by (auto simp: io_inv_def)
qed

lemma io_inv_step:
  assumes inv: "io_inv V deadline cs s" and step: "io_step V s t"
  shows "io_inv V deadline cs t"
  using step
proof (cases rule: io_step.cases)
  case (1 i pc t')
  show ?thesis
  proof (cases "is_calls s ! i")
    case (IP_Start c)
    then show ?thesis using io_inv_start [OF inv 1(2)] 1 by simp
  next
    case (IP_Set x caught)
    then show ?thesis using io_inv_set [OF inv 1(2)] setting_one [OF inv 1(2)] 1 by auto
  qed (use 1 call_ok_at(2) [OF inv 1(2)] in auto)
qed

lemma io_inv_init: "io_inv V deadline cs (io_init deadline cs)"
proof -
  have "filter setting (map IP_Start cs) = []" by (auto simp: filter_empty_conv)
  then show ?thesis by (auto simp: io_inv_def io_start_def new_io_promise_def list_all2_conv_all_nth)
qed

interpretation io_run: step_invariant "\<lambda>s. s = io_init deadline cs" "io_step V" "io_inv V deadline cs" for V deadline cs
  by unfold_locales (auto intro: io_inv_init io_inv_step)

text \<open>A promise keeps its value, and every step brings a call closer to its end.\<close>

fun call_left :: "'a io_pc \<Rightarrow> nat" where
  "call_left (IP_Start c) = 2"
| "call_left (IP_Set x caught) = 1"
| "call_left pc = 0"

definition calls_left :: "'a io_sys \<Rightarrow> nat" where
  "calls_left s = sum_list (map call_left (is_calls s))"

lemma promise_kept: "io_step V s t \<Longrightarrow> ip_promise (is_task s) = Some x \<Longrightarrow> ip_promise (is_task t) = Some x"
  by (erule io_step.cases, cases "ip_promise (is_task s)")
    (auto elim!: call_step.elims split: if_splits option.splits)

lemma calls_left_step:
  assumes inv: "io_inv V deadline cs s" and step: "io_step V s t"
  shows "calls_left t < calls_left s"
  using step
proof (cases rule: io_step.cases)
  case (1 i pc t')
  have "call_left pc < call_left (is_calls s ! i)"
    using 1(3) call_ok_at(2) [OF inv 1(2)] setting_one(2) [OF inv 1(2)]
    by (cases "is_calls s ! i") (auto split: if_splits)
  moreover have "call_left (is_calls s ! i) \<le> calls_left s" unfolding calls_left_def
    by (rule member_le_sum_list) (use 1(2) in auto)
  ultimately show ?thesis using 1 by (simp add: calls_left_def map_update sum_list_update)
qed

lemma io_run_short:
  assumes "(io_step V ^^ n) (io_init deadline cs) s"
  shows "n + calls_left s \<le> 2 * length cs \<and> io_inv V deadline cs s"
  using assms
proof (induction n arbitrary: s)
  case 0
  have "calls_left (io_init deadline cs) = 2 * length cs"
    by (simp add: calls_left_def io_start_def comp_def sum_list_triv)
  with 0 show ?case by (auto intro: io_inv_init)
next
  case (Suc n)
  then obtain u where u: "(io_step V ^^ n) (io_init deadline cs) u" "io_step V u s" by auto
  with Suc.IH [OF u(1)] calls_left_step io_inv_step show ?case by fastforce
qed

lemma io_stuck:
  assumes inv: "io_inv V deadline cs s" and stuck: "\<And>t. \<not> io_step V s t"
  shows "\<forall>pc\<in>set (is_calls s). pc = IP_Done"
proof
  fix pc assume "pc \<in> set (is_calls s)"
  then obtain i where i: "i < length (is_calls s)" "pc = is_calls s ! i" by (auto simp: in_set_conv_nth)
  have "call_step V pc (is_task s) = None"
    using io_step.intros [of i s V] i stuck by (cases "call_step V pc (is_task s)") auto
  moreover have "call_ok V deadline (ip_resolved (is_task s)) (cs ! i) pc" using call_ok_at(2) [OF inv i(1)] i(2) by simp
  ultimately show "pc = IP_Done" by (cases pc) (auto split: if_splits option.splits)
qed

lemma io_done_resolves:
  assumes inv: "io_inv V deadline cs s" and ended: "\<forall>pc\<in>set (is_calls s). pc = IP_Done"
    and due: "c \<in> set cs" "call_due deadline c"
  shows "ip_promise (is_task s) \<noteq> None"
proof -
  obtain i where i: "i < length cs" "cs ! i = c" using due(1) by (auto simp: in_set_conv_nth)
  have "i < length (is_calls s)" using inv i(1) by (auto simp: io_inv_def dest: list_all2_lengthD)
  moreover from this have "is_calls s ! i = IP_Done" using ended by simp
  ultimately have "ip_resolved (is_task s)" using call_ok_at(2) [OF inv] i due(2) by fastforce
  moreover have "filter setting (is_calls s) = []" using ended by (auto simp: filter_empty_conv)
  ultimately show ?thesis using inv by (auto simp: io_inv_def split: if_splits)
qed

section \<open>Properties\<close>

text \<open>C21: The promise of a read or write task is fulfilled at most once and no callback leaves with
  an exception, whatever the interleaving of the completion handler, the deadline handler and
  \<open>cancel\<close>: its value is the one of a call that was due. The run takes at most two steps per
  call, and when it is over the promise is fulfilled if any call was due.\<close>

theorem io_task_resolves_once:
  assumes "(io_step V ^^ n) (io_init deadline cs) s"
  shows "n \<le> 2 * length cs \<and> IP_Threw \<notin> set (is_calls s)
    \<and> (\<forall>x. ip_promise (is_task s) = Some x \<longrightarrow> (\<exists>c\<in>set cs. call_due deadline c \<and> x = call_value V c)
         \<and> (\<forall>t. io_step V s t \<longrightarrow> ip_promise (is_task t) = Some x))
    \<and> ((\<forall>t. \<not> io_step V s t) \<and> (\<exists>c\<in>set cs. call_due deadline c) \<longrightarrow> ip_promise (is_task s) \<noteq> None)"
proof -
  from io_run_short [OF assms] have n: "n \<le> 2 * length cs" and inv: "io_inv V deadline cs s" by simp_all
  have "IP_Threw \<notin> set (is_calls s)" using call_ok_at(2) [OF inv] by (fastforce simp: in_set_conv_nth)
  moreover have "\<exists>c\<in>set cs. call_due deadline c \<and> x = call_value V c" if "ip_promise (is_task s) = Some x" for x
    using inv that by (auto simp: io_inv_def)
  moreover have "ip_promise (is_task s) \<noteq> None" if "\<forall>t. \<not> io_step V s t" "c \<in> set cs" "call_due deadline c" for c
    by (rule io_done_resolves [OF inv _ that(2,3)]) (rule io_stuck [OF inv], use that(1) in blast)
  ultimately show ?thesis using n promise_kept [of V s] by (intro conjI allI impI) (simp_all, blast+)
qed

text \<open>A read whose completion and deadline race: the deadline handler is first.\<close>

definition race :: "(io_error \<times> nat) io_call list" where
  "race = [IC_Handler (ec_none, 7), IC_Deadline 10 11]"

lemma race_run: "(io_step read_task ^^ 2) (io_init True race)
   \<lparr>is_task = \<lparr>ip_deadline = True, ip_resolved = True, ip_promise = Some (ec_timed_out, 0)\<rparr>,
    is_calls = [IP_Start (IC_Handler (ec_none, 7)), IP_Done]\<rparr>"
proof -
  let ?s = "\<lparr>is_task = \<lparr>ip_deadline = True, ip_resolved = True, ip_promise = None\<rparr>,
    is_calls = [IP_Start (IC_Handler (ec_none, 7)), IP_Set (ec_timed_out, 0) True]\<rparr>"
  have "io_step read_task (io_init True race) ?s"
    using io_step.intros [of 1 "io_init True race" read_task] by (simp add: io_start_def race_def new_io_promise_def read_task_def)
  moreover have "io_step read_task ?s \<lparr>is_task = \<lparr>ip_deadline = True, ip_resolved = True, ip_promise = Some (ec_timed_out, 0)\<rparr>,
    is_calls = [IP_Start (IC_Handler (ec_none, 7)), IP_Done]\<rparr>"
    using io_step.intros [of 1 ?s read_task] by simp
  ultimately show ?thesis by (auto simp: numeral_2_eq_2)
qed

theorem io_task_resolves_once_witness:
  "\<exists>s. (io_step read_task ^^ 2) (io_init True race) s \<and> ip_promise (is_task s) = Some (ec_timed_out, 0)
     \<and> (\<exists>c\<in>set race. call_due True c \<and> (ec_timed_out, 0) = call_value read_task c)"
  using io_task_resolves_once [OF race_run] race_run by auto

text \<open>A read timeout ends a read and not a write. With a timeout, a read whose deadline is over
  is fulfilled with \<open>timed_out\<close> when nothing else is reported; a write starts the same timer, but its task
  does not have it: however late its deadline handlers run, its promise stays empty, as it
  does when no timeout is set.\<close>

theorem tcp_timeouts:
  assumes r: "(io_step read_task ^^ n) (io_start (fst (tcp_async_read_size sz s)) [IC_Deadline e now]) u" "\<forall>v. \<not> io_step read_task u v"
    and w: "(io_step write_task ^^ m) (io_start (fst (tcp_async_write b s)) (map (\<lambda>(e, t). IC_Deadline e t) ds)) v"
  shows "ip_promise (is_task u) = (if ts_read_timeout s > 0 \<and> e \<le> now then Some (ec_timed_out, 0) else None)
    \<and> ip_promise (is_task v) = None
    \<and> (ts_read_timeout s > 0 \<longrightarrow> {Rq_Expires (ts_read_timeout s), Rq_Wait} \<subseteq> set (snd (tcp_async_write b s)))"
proof -
  let ?d = "ts_read_timeout s > 0" and ?ds = "map (\<lambda>(e, t). IC_Deadline e t) ds"
  have inv: "io_inv read_task ?d [IC_Deadline e now] u" using io_run_short [of n read_task ?d "[IC_Deadline e now]" u] r(1)
    by (auto simp: tcp_async_read_size_def split: if_splits)
  have "ip_promise (is_task u) = (if ?d \<and> e \<le> now then Some (ec_timed_out, 0) else None)"
  proof (cases "?d \<and> e \<le> now")
    case True
    then have "ip_promise (is_task u) \<noteq> None" using io_done_resolves [OF inv io_stuck [OF inv]] r(2) by auto
    then show ?thesis using inv True by (auto simp: io_inv_def read_task_def)
  next
    case False
    then show ?thesis using inv by (cases "ip_promise (is_task u)") (auto simp: io_inv_def)
  qed
  moreover have "io_inv write_task False ?ds v" using io_run_short [of m write_task False ?ds v] w
    by (auto simp: tcp_async_write_def split: if_splits)
  then have "ip_promise (is_task v) = None" by (cases "ip_promise (is_task v)") (auto simp: io_inv_def)
  ultimately show ?thesis by (simp add: tcp_async_write_def)
qed

definition timed_session :: session where
  "timed_session = snd (set_read_timeout 5 new_session)"

lemma timed_read_run:
  "\<exists>u. (io_step read_task ^^ 2) (io_start (fst (tcp_async_read_size 4 timed_session)) [IC_Deadline 10 11]) u
     \<and> (\<forall>v. \<not> io_step read_task u v)"
proof -
  let ?s = "io_start (fst (tcp_async_read_size 4 timed_session)) [IC_Deadline 10 11]"
  let ?t = "\<lparr>is_task = \<lparr>ip_deadline = True, ip_resolved = True, ip_promise = None\<rparr>, is_calls = [IP_Set (ec_timed_out, 0) True]\<rparr>"
  let ?u = "\<lparr>is_task = \<lparr>ip_deadline = True, ip_resolved = True, ip_promise = Some (ec_timed_out, 0)\<rparr>, is_calls = [IP_Done]\<rparr>"
  have "io_step read_task ?s ?t" using io_step.intros [of 0 ?s read_task]
    by (simp add: io_start_def tcp_async_read_size_def timed_session_def set_read_timeout_def new_io_promise_def read_task_def)
  moreover have "io_step read_task ?t ?u" using io_step.intros [of 0 ?t read_task] by simp
  ultimately have "(io_step read_task ^^ 2) ?s ?u" by (auto simp: numeral_2_eq_2)
  moreover have "\<not> io_step read_task ?u v" for v by (auto elim: io_step.cases)
  ultimately show ?thesis by blast
qed

theorem tcp_timeouts_witness:
  "\<exists>u. (io_step read_task ^^ 2) (io_start (fst (tcp_async_read_size 4 timed_session)) [IC_Deadline 10 11]) u
     \<and> ip_promise (is_task u) = Some (ec_timed_out, 0)"
proof -
  obtain u where u: "(io_step read_task ^^ 2) (io_start (fst (tcp_async_read_size 4 timed_session)) [IC_Deadline 10 11]) u"
    "\<forall>v. \<not> io_step read_task u v" using timed_read_run by blast
  from tcp_timeouts [OF u, of 0 "''ping''" "[(10, 11)]"] u(1) show ?thesis
    by (auto simp: timed_session_def set_read_timeout_def)
qed

text \<open>What is done with a session between its creation and its end, given what becomes of the bytes that arrive.\<close>

datatype session_op = S_Timeout int | S_Received string | S_Input nat

primrec session_run :: "(string \<Rightarrow> session \<Rightarrow> session) \<Rightarrow> session_op list \<Rightarrow> session \<Rightarrow> string \<times> session" where
  "session_run arrive [] s = ('''', s)"
| "session_run arrive (op # ops) s =
     (let r = (case op of
        S_Timeout t \<Rightarrow> ('''', snd (set_read_timeout t s))
      | S_Received bytes \<Rightarrow> ('''', arrive bytes s)
      | S_Input sz \<Rightarrow> read_input_stream sz s);
      r' = session_run arrive ops (snd r) in (fst r @ fst r', snd r'))"

primrec received :: "session_op list \<Rightarrow> string" where
  "received [] = ''''"
| "received (op # ops) = (case op of S_Received bytes \<Rightarrow> bytes | _ \<Rightarrow> '''') @ received ops"

lemma read_input_stream_splits: "fst (read_input_stream sz s) @ ts_input (snd (read_input_stream sz s)) = ts_input s"
  by (simp add: read_input_stream_def Let_def)

lemma received_input [simp]: "ts_input (tcp_received bytes s) = ts_input s @ bytes" "ts_input (udp_received bytes s) = ts_input s"
  by (simp_all add: tcp_received_def udp_received_def)

lemma udp_run_input: "ts_input s = '''' \<Longrightarrow> fst (session_run udp_received ops s) = ''''"
  by (induction ops arbitrary: s)
    (simp_all add: set_read_timeout_def read_input_stream_def Let_def split: session_op.splits)

lemma tcp_run_input:
  "fst (session_run tcp_received ops s) @ ts_input (snd (session_run tcp_received ops s)) = ts_input s @ received ops"
proof (induction ops arbitrary: s)
  case (Cons op ops)
  show ?case
  proof (cases op)
    case (S_Input sz)
    then show ?thesis using Cons [of "snd (read_input_stream sz s)"] by (simp add: Let_def flip: read_input_stream_splits [of sz s])
  qed (simp_all add: Cons set_read_timeout_def Let_def)
qed simp

text \<open>The input stream of a TCP session hands out the bytes that arrived, in order and none twice,
  whatever the sizes asked for. A UDP session hands out nothing, whatever arrived: what is
  received is never committed to its buffer.\<close>

theorem input_streams:
  "fst (session_run tcp_received ops new_session) @ ts_input (snd (session_run tcp_received ops new_session)) = received ops
   \<and> fst (session_run udp_received ops new_session) = ''''"
  using tcp_run_input [of ops new_session] udp_run_input [of new_session ops] by (simp add: new_session_def)

end
