(* ===== verification/Http.thy ===== *)
theory Http
  imports Io_Tasks
begin

text \<open>
  \<open>src/io/http.cpp\<close> and \<open>src/io/io_http_task.h\<close>: the chain of handlers of a request, the header of a
  multipart response and the reader of its parts. The library starts one operation at a time
  and reports its completion once, with an arbitrary error code; a chain of handlers is a
  machine whose state is the operation that is pending. The parser of a part belongs to the
  library: its operations are a parameter (\<open>parser_ops\<close>). The request that is sent is the
  record \<open>http_message\<close>. Strings are searched, cut and read line by line as the standard
  library does, with a position beyond the end an error and \<open>size_t\<close> wrapping.
\<close>

section \<open>Definitions\<close>

datatype http_method = m_get | m_post | m_put | m_del | m_options

datatype verb = verb_get | verb_post | verb_put | verb_delete | verb_options

record http_request =
  hr_method :: http_method
  hr_host :: string
  hr_port :: int
  hr_body :: string
  hr_target :: string

fun get_method :: "http_method \<Rightarrow> verb" where
  "get_method m_get = verb_get"
| "get_method m_post = verb_post"
| "get_method m_put = verb_put"
| "get_method m_del = verb_delete"
| "get_method m_options = verb_options"

record http_message =
  hm_verb :: verb
  hm_target :: string
  hm_fields :: "(string \<times> string) list"
  hm_body :: string
  hm_content_length :: "nat option"

text \<open>Setting a field replaces the one of that name.\<close>

definition set_field :: "string \<Rightarrow> string \<Rightarrow> (string \<times> string) list \<Rightarrow> (string \<times> string) list" where
  "set_field field val flds = filter (\<lambda>f. fst f \<noteq> field) flds @ [(field, val)]"

definition prepare_payload :: "http_message \<Rightarrow> http_message" where
  "prepare_payload req = req\<lparr>hm_content_length := Some (length (hm_body req))\<rparr>"

record http_session =
  hs_timeout :: int
  hs_req :: http_message
  hs_res_fields :: "(string \<times> string) list"
  hs_res_body :: string
  hs_input :: string
  hs_boundary :: string

definition new_http_session :: "int \<Rightarrow> http_session" where
  "new_http_session timeout = \<lparr>hs_timeout = timeout,
     hs_req = \<lparr>hm_verb = verb_get, hm_target = '''', hm_fields = [], hm_body = '''', hm_content_length = None\<rparr>,
     hs_res_fields = [], hs_res_body = '''', hs_input = '''', hs_boundary = ''''\<rparr>"

definition set_request_field :: "string \<Rightarrow> string \<Rightarrow> http_session \<Rightarrow> http_session" where
  "set_request_field field val s = s\<lparr>hs_req := (hs_req s)\<lparr>hm_fields := set_field field val (hm_fields (hs_req s))\<rparr>\<rparr>"

definition fill_request :: "string \<Rightarrow> http_request \<Rightarrow> http_message \<Rightarrow> http_message" where
  "fill_request version request req =
     (let req = req\<lparr>hm_verb := get_method (hr_method request),
            hm_fields := set_field ''User-Agent'' version (set_field ''Host'' (hr_host request) (hm_fields req)),
            hm_target := hr_target request\<rparr> in
      if hr_method request = m_post then prepare_payload (req\<lparr>hm_body := hr_body request\<rparr>) else req)"

text \<open>The operations of the library, and the state of a chain: the one that is pending, or the value of the promise.\<close>

datatype http_op = HO_Expires int | HO_Resolve string int | HO_Connect | HO_Write http_message | HO_Read | HO_Read_Some nat | HO_Close

datatype http_state = HS_Resolving | HS_Connecting | HS_Writing | HS_Reading | HS_Done io_error

definition async_request :: "string \<Rightarrow> http_request \<Rightarrow> http_session \<Rightarrow> http_op list \<times> http_state \<times> http_session" where
  "async_request version request s =
     ([HO_Resolve (hr_host request) (hr_port request)], HS_Resolving,
      s\<lparr>hs_req := fill_request version request (hs_req s), hs_res_fields := [], hs_res_body := ''''\<rparr>)"

definition expires :: "http_session \<Rightarrow> http_op" where
  "expires s = HO_Expires (if hs_timeout s > 0 then hs_timeout s else 60)"

text \<open>The handlers of \<open>http_request_task\<close>.\<close>

fun http_request_task :: "http_session \<Rightarrow> http_state \<Rightarrow> io_error \<Rightarrow> http_op list \<times> http_state" where
  "http_request_task s HS_Resolving ec = (if ec \<noteq> ec_none then ([], HS_Done ec) else ([expires s, HO_Connect], HS_Connecting))"
| "http_request_task s HS_Connecting ec = (if ec \<noteq> ec_none then ([], HS_Done ec) else ([expires s, HO_Write (hs_req s)], HS_Writing))"
| "http_request_task s HS_Writing ec = (if ec \<noteq> ec_none then ([], HS_Done ec) else ([HO_Read], HS_Reading))"
| "http_request_task s HS_Reading ec = ([], HS_Done ec)"
| "http_request_task s (HS_Done e) ec = ([], HS_Done e)"

primrec http_chain :: "http_session \<Rightarrow> http_state \<Rightarrow> io_error list \<Rightarrow> http_op list \<times> http_state" where
  "http_chain s st [] = ([], st)"
| "http_chain s st (ec # ecs) =
     (let r = http_request_task s st ec; r' = http_chain s (snd r) ecs in (fst r @ fst r', snd r'))"

text \<open>Strings of the standard library.\<close>

datatype str_error = out_of_range

definition LF :: char where "LF = CHR 0x0A"
definition CRET :: char where "CRET = CHR 0x0D"

fun getline :: "char \<Rightarrow> string \<Rightarrow> (string \<times> string) option" where
  "getline delim [] = None"
| "getline delim (c # cs) = Some (takeWhile (\<lambda>d. d \<noteq> delim) (c # cs), drop 1 (dropWhile (\<lambda>d. d \<noteq> delim) (c # cs)))"

fun str_find :: "string \<Rightarrow> string \<Rightarrow> nat option" where
  "str_find pat [] = (if pat = [] then Some 0 else None)"
| "str_find pat (c # cs) = (if take (length pat) (c # cs) = pat then Some 0 else map_option Suc (str_find pat cs))"

definition substr :: "nat \<Rightarrow> nat \<Rightarrow> string \<Rightarrow> str_error + string" where
  "substr pos n s = (if pos > length s then Inl out_of_range else Inr (take n (drop pos s)))"

definition npos :: nat where
  "npos = 2 ^ 64 - 1"

definition minus_size_t :: "nat \<Rightarrow> nat \<Rightarrow> nat" where
  "minus_size_t a b = (a + (2 ^ 64 - b mod 2 ^ 64)) mod 2 ^ 64"

text \<open>The key and the value of a line of the header.\<close>

definition header_line :: "string \<Rightarrow> str_error + string \<times> string" where
  "header_line line =
     (let sep = (case str_find '':'' line of Some i \<Rightarrow> i | None \<Rightarrow> npos);
          key = take sep line in
      case substr ((sep + 2) mod 2 ^ 64) (minus_size_t (minus_size_t (length line) (length key)) 3) line of
        Inl e \<Rightarrow> Inl e
      | Inr val \<Rightarrow> Inr (key, val))"

definition boundary_type :: string where
  "boundary_type = ''boundary=''"

lemma getline_shorter: "getline d s = Some (l, rest) \<Longrightarrow> length rest < length s"
proof (cases s)
  case (Cons c cs)
  assume "getline d s = Some (l, rest)"
  then have "rest = drop 1 (dropWhile (\<lambda>x. x \<noteq> d) (c # cs))" using Cons by simp
  then have "length rest \<le> length (dropWhile (\<lambda>x. x \<noteq> d) (c # cs)) - 1" by simp
  moreover have "length (dropWhile (\<lambda>x. x \<noteq> d) (c # cs)) \<le> length (c # cs)" by (rule length_dropWhile_le)
  ultimately show ?thesis using Cons by simp
qed simp

text \<open>The loop over the parts of the content type.\<close>

function find_boundary :: "string \<Rightarrow> string option" where
  "find_boundary content_type =
     (case getline (CHR '';'') content_type of
        None \<Rightarrow> None
      | Some (part, rest) \<Rightarrow>
          (case str_find boundary_type part of
             Some idx \<Rightarrow> Some (drop (idx + length boundary_type) part)
           | None \<Rightarrow> find_boundary rest))"
  by pat_completeness auto
termination by (relation "measure length") (auto dest: getline_shorter)

declare find_boundary.simps [simp del]

text \<open>
  The loop over the lines of the header: what it makes of the session, and whether it ends with an
  exception. What it reads is gone from the buffer.
\<close>

function header_loop :: "http_session \<Rightarrow> str_error option \<times> http_session" where
  "header_loop s =
     (case getline LF (hs_input s) of
        None \<Rightarrow> (None, s)
      | Some (line, rest) \<Rightarrow>
          (let s' = s\<lparr>hs_input := rest\<rparr> in
           case header_line line of
             Inl e \<Rightarrow> (Some e, s')
           | Inr (key, val) \<Rightarrow>
               if str_find ''Content-Type'' key \<noteq> None
               then (None, s'\<lparr>hs_res_fields := set_field ''Content-Type'' val (hs_res_fields s'),
                       hs_boundary := (case find_boundary val of Some b \<Rightarrow> b | None \<Rightarrow> hs_boundary s')\<rparr>)
               else header_loop s'))"
  by pat_completeness auto
termination by (relation "measure (\<lambda>s. length (hs_input s))") (auto dest: getline_shorter)

declare header_loop.simps [simp del]

text \<open>The handlers of \<open>http_multipart_request_task\<close>; an exception leaves the promise as it is.\<close>

definition handle_read_header :: "io_error \<Rightarrow> string \<Rightarrow> http_session \<Rightarrow> str_error option \<times> io_error option \<times> http_session" where
  "handle_read_header ec bytes s =
     (if ec = ec_none
      then (case header_loop (s\<lparr>hs_input := hs_input s @ bytes\<rparr>) of
              (Some e, s) \<Rightarrow> (Some e, None, s)
            | (None, s) \<Rightarrow> (None, Some ec, s))
      else (None, Some ec, s))"

fun http_multipart_request_task :: "http_session \<Rightarrow> http_state \<Rightarrow> io_error \<Rightarrow> http_op list \<times> http_state" where
  "http_multipart_request_task s HS_Resolving ec = (if ec \<noteq> ec_none then ([], HS_Done ec) else ([expires s, HO_Connect], HS_Connecting))"
| "http_multipart_request_task s HS_Connecting ec = (if ec \<noteq> ec_none then ([], HS_Done ec) else ([expires s, HO_Write (hs_req s)], HS_Writing))"
| "http_multipart_request_task s HS_Writing ec = (if ec \<noteq> ec_none then ([], HS_Done ec) else ([HO_Read_Some 512], HS_Reading))"
| "http_multipart_request_task s st ec = ([], st)"

text \<open>The reader of a part.\<close>

record 'q parser_ops =
  pa_put :: "string \<Rightarrow> 'q \<Rightarrow> nat \<times> io_error \<times> 'q"
  pa_is_done :: "'q \<Rightarrow> bool"
  pa_get :: "'q \<Rightarrow> (string \<times> string) list \<times> string"

record 'q part_task =
  pt_header_done :: bool
  pt_parser :: 'q

definition protocol_error :: io_error where
  "protocol_error = ec_other 71"

definition async_read_part :: "http_session \<Rightarrow> io_error option \<times> http_op list" where
  "async_read_part s = (if hs_boundary s = '''' then (Some protocol_error, []) else (None, [expires s, HO_Read_Some 1024]))"

text \<open>An array literal is handed to the library with its final null character.\<close>

definition status_line :: string where
  "status_line = ''HTTP/1.1 200 OK'' @ [CRET, LF, CHR 0x00]"

function find_part :: "'q parser_ops \<Rightarrow> string \<Rightarrow> string \<Rightarrow> 'q part_task \<Rightarrow> string \<times> 'q part_task" where
  "find_part ops boundary input t =
     (case getline LF input of
        None \<Rightarrow> (input, t)
      | Some (line, rest) \<Rightarrow>
          if str_find (''--'' @ boundary) line \<noteq> None
          then (if rest \<noteq> [] \<and> hd rest = CRET then (case getline LF rest of Some (l, r) \<Rightarrow> r | None \<Rightarrow> rest) else rest,
                \<lparr>pt_header_done = True, pt_parser = snd (snd (pa_put ops status_line (pt_parser t)))\<rparr>)
          else find_part ops boundary rest t)"
  by pat_completeness auto
termination by (relation "measure (\<lambda>(ops, b, input, t). length input)") (auto dest: getline_shorter)

declare find_part.simps [simp del]

definition handle_read_part ::
  "'q parser_ops \<Rightarrow> io_error \<Rightarrow> string \<Rightarrow> http_session \<times> 'q part_task \<Rightarrow> io_error option \<times> http_op list \<times> http_session \<times> 'q part_task" where
  "handle_read_part ops ec bytes st =
     (let s = fst st; t = snd st in
      if ec \<noteq> ec_none then (Some ec, [], s, t)
      else
        let input = hs_input s @ bytes;
            found = (if pt_header_done t then (input, t) else find_part ops (hs_boundary s) input t);
            s = s\<lparr>hs_input := fst found\<rparr>; t = snd found in
        if pt_header_done t
        then (case pa_put ops (hs_input s) (pt_parser t) of
                (consumed, parser_ec, parser) \<Rightarrow>
                  let s = s\<lparr>hs_input := drop consumed (hs_input s)\<rparr>; t = t\<lparr>pt_parser := parser\<rparr> in
                  if parser_ec \<noteq> ec_none then (Some parser_ec, [], s, t)
                  else if pa_is_done ops parser
                  then (Some ec, [], s\<lparr>hs_res_fields := fst (pa_get ops parser), hs_res_body := snd (pa_get ops parser)\<rparr>, t)
                  else (None, [HO_Read_Some 1024], s, t))
        else (None, [HO_Read_Some 1024], s, t))"

text \<open>What arrives, until the promise is set.\<close>

primrec read_part ::
  "'q parser_ops \<Rightarrow> (io_error \<times> string) list \<Rightarrow> http_session \<times> 'q part_task \<Rightarrow> io_error option \<times> http_session \<times> 'q part_task" where
  "read_part ops [] st = (None, st)"
| "read_part ops (r # rs) st =
     (case handle_read_part ops (fst r) (snd r) st of
        (Some ec, ops', st) \<Rightarrow> (Some ec, st)
      | (None, ops', st) \<Rightarrow> read_part ops rs st)"

definition http_close :: "http_op list" where
  "http_close = [HO_Close]"

section \<open>The chain of a request\<close>

lemma http_chain_done [simp]: "http_chain s (HS_Done e) ecs = ([], HS_Done e)"
  by (induction ecs) simp_all

text \<open>The first error, or none.\<close>

definition first_error :: "io_error list \<Rightarrow> io_error" where
  "first_error ecs = (case dropWhile (\<lambda>e. e = ec_none) ecs of [] \<Rightarrow> ec_none | e # es \<Rightarrow> e)"

lemma first_error_Cons: "first_error (e # es) = (if e = ec_none then first_error es else e)"
  by (simp add: first_error_def)

lemma first_error_Nil: "first_error [] = ec_none"
  by (simp add: first_error_def)

text \<open>A request ends, with the first error there is. Of the completions the library reports, each for
  the operation that is pending, at most four are needed to set the promise, and its value is
  the first error among them, or no error. An operation is started only when the one before has
  succeeded, and the connection and the transfer have a deadline of the given number of
  seconds, or of 60.\<close>

theorem http_request_result:
  "http_chain s HS_Resolving ecs =
     (concat (take (length (takeWhile (\<lambda>e. e = ec_none) (take 4 ecs)))
        [[expires s, HO_Connect], [expires s, HO_Write (hs_req s)], [HO_Read], []]),
      if length ecs < 4 \<and> first_error ecs = ec_none then [HS_Resolving, HS_Connecting, HS_Writing, HS_Reading] ! length ecs
      else HS_Done (first_error (take 4 ecs)))
   \<and> expires s = HO_Expires (if hs_timeout s > 0 then hs_timeout s else 60)"
proof -
  consider "ecs = []" | a where "ecs = [a]" | a b where "ecs = [a, b]" | a b c where "ecs = [a, b, c]"
    | a b c d es where "ecs = a # b # c # d # es"
    by (metis neq_Nil_conv)
  then show ?thesis by cases (simp_all add: Let_def first_error_Cons first_error_Nil expires_def)
qed

text \<open>The requests made on one session, one after the other.\<close>

definition after_requests :: "string \<Rightarrow> http_request list \<Rightarrow> http_session \<Rightarrow> http_session" where
  "after_requests version rs s = fold (\<lambda>r s. snd (snd (async_request version r s))) rs s"

text \<open>The body that is sent is the one of the last POST on the session, with its length: a PUT does
  not send its own, and a request after a POST sends the body of the POST again.\<close>

theorem request_body_sent:
  "hm_body (hs_req (after_requests version rs (new_http_session timeout)))
     = (case filter (\<lambda>r. hr_method r = m_post) (rev rs) of [] \<Rightarrow> '''' | r # _ \<Rightarrow> hr_body r)
   \<and> hm_content_length (hs_req (after_requests version rs (new_http_session timeout)))
     = (case filter (\<lambda>r. hr_method r = m_post) (rev rs) of [] \<Rightarrow> None | r # _ \<Rightarrow> Some (length (hr_body r)))
   \<and> (rs \<noteq> [] \<longrightarrow> hm_verb (hs_req (after_requests version rs (new_http_session timeout))) = get_method (hr_method (last rs))
        \<and> hm_target (hs_req (after_requests version rs (new_http_session timeout))) = hr_target (last rs))"
proof (induction rs rule: rev_induct)
  case (snoc r rs)
  then show ?case
    by (simp add: after_requests_def async_request_def fill_request_def prepare_payload_def Let_def)
qed (simp add: after_requests_def new_http_session_def)

theorem request_body_sent_witness:
  "let r = \<lparr>hr_method = m_put, hr_host = ''h'', hr_port = 80, hr_body = ''data'', hr_target = ''/''\<rparr> in
   hm_body (hs_req (after_requests ''v'' [r] (new_http_session 0))) = '''' \<and> hm_verb (hs_req (after_requests ''v'' [r] (new_http_session 0))) = verb_put
   \<and> hm_body (hs_req (after_requests ''v'' [r\<lparr>hr_method := m_post\<rparr>, r\<lparr>hr_method := m_get\<rparr>] (new_http_session 0))) = ''data''"
  unfolding Let_def by (simp add: request_body_sent)

section \<open>The header of a multipart response\<close>

lemma str_find_char: "c \<notin> set k \<Longrightarrow> str_find [c] (k @ c # r) = Some (length k)"
  by (induction k) auto

lemma str_find_char_None: "c \<notin> set k \<Longrightarrow> str_find [c] k = None"
  by (induction k) auto

lemma str_find_char_None_iff: "str_find [c] k = None \<longleftrightarrow> c \<notin> set k"
  by (induction k) auto

lemma str_find_prefix: "str_find p (p @ s) = Some 0"
  by (cases "p @ s") (simp, metis append_eq_conv_conj str_find.simps(2))

lemma str_find_short: "length s < length p \<Longrightarrow> str_find p s = None"
proof (induction s)
  case (Cons c s)
  moreover from this have "take (length p) (c # s) \<noteq> p" by (metis length_take min.strict_order_iff less_le_not_le min.cobounded1)
  ultimately show ?case by simp
qed auto

lemma getline_line:
  assumes "d \<notin> set l" shows "getline d (l @ d # r) = Some (l, r)"
proof -
  have "takeWhile (\<lambda>x. x \<noteq> d) (l @ d # r) = l" "dropWhile (\<lambda>x. x \<noteq> d) (l @ d # r) = d # r"
    using assms by (induction l) auto
  then show ?thesis by (cases "l @ d # r") auto
qed

lemma getline_last: "d \<notin> set l \<Longrightarrow> l \<noteq> [] \<Longrightarrow> getline d l = Some (l, [])"
proof -
  assume "d \<notin> set l" "l \<noteq> []"
  then have "takeWhile (\<lambda>x. x \<noteq> d) l = l" "dropWhile (\<lambda>x. x \<noteq> d) l = []" by (induction l) auto
  with \<open>l \<noteq> []\<close> show ?thesis by (cases l) auto
qed

lemma minus_size_t: "b \<le> a \<Longrightarrow> a < 2 ^ 64 \<Longrightarrow> minus_size_t a b = a - b"
proof -
  assume le: "b \<le> a" "a < 2 ^ 64"
  then have "a + (2 ^ 64 - b mod 2 ^ 64) = (a - b) + 2 ^ 64" by simp
  then show ?thesis unfolding minus_size_t_def using le by (simp only: mod_add_self2) simp
qed

lemma header_line_value:
  assumes "CHR '':'' \<notin> set k" "length k + length v + 3 < 2 ^ 64"
  shows "header_line (k @ '': '' @ v @ [CRET]) = Inr (k, v)"
proof -
  let ?l = "k @ '': '' @ v @ [CRET]"
  have f: "str_find '':'' ?l = Some (length k)" using str_find_char [OF assms(1)] by simp
  have "minus_size_t (length ?l) (length k) = length v + 3" using assms(2) by (simp add: minus_size_t)
  moreover have "minus_size_t (length v + 3) 3 = length v" using assms(2) by (subst minus_size_t) simp_all
  ultimately show ?thesis using f assms(2) by (simp add: header_line_def substr_def)
qed

lemma header_line_plain:
  assumes "CHR '':'' \<notin> set l" "l \<noteq> []" "length l < 2 ^ 64 - 1"
  shows "\<exists>v. header_line l = Inr (l, v)"
proof -
  have "take npos l = l" using assms(3) by (simp add: npos_def)
  moreover have "(npos + 2) mod 2 ^ 64 = 1" by (simp add: npos_def)
  ultimately show ?thesis using str_find_char_None [OF assms(1)] assms(2)
    by (simp add: header_line_def substr_def Let_def Suc_leI flip: not_le)
qed

text \<open>The lines that end with an exception.\<close>

lemma header_line_throws:
  assumes "length l < 2 ^ 64 - 2"
  shows "header_line l = Inl out_of_range \<longleftrightarrow> l = [] \<or> (\<exists>k. CHR '':'' \<notin> set k \<and> l = k @ '':'')"
proof (cases "CHR '':'' \<in> set l")
  case True
  then obtain k r where l: "l = k @ CHR '':'' # r" "CHR '':'' \<notin> set k" by (meson split_list_first)
  then have f: "str_find '':'' l = Some (length k)" using str_find_char by metis
  have "(length k + 2) mod 2 ^ 64 = length k + 2" using assms l(1) by simp
  then have "header_line l = Inl out_of_range \<longleftrightarrow> r = []" using f l
    by (auto simp: header_line_def substr_def Let_def)
  moreover have "(\<exists>k'. CHR '':'' \<notin> set k' \<and> l = k' @ '':'') \<longleftrightarrow> r = []"
  proof
    assume "\<exists>k'. CHR '':'' \<notin> set k' \<and> l = k' @ '':''"
    then obtain k' where k': "CHR '':'' \<notin> set k'" "l = k' @ '':''" by blast
    then have "str_find '':'' l = Some (length k')" using str_find_char [of _ k' "[]"] by simp
    with f k'(2) l(1) show "r = []" by simp
  qed (use l in auto)
  ultimately show ?thesis using l(1) by simp
next
  case False
  then show ?thesis using header_line_plain [of l] assms by (cases "l = []") (auto simp: header_line_def substr_def Let_def npos_def)
qed

text \<open>Lines that are not the content type are read and dropped.\<close>

lemma header_loop_skip:
  assumes "LF \<notin> set l" "hs_input s = l @ LF # rest" "header_line l = Inr (k, v)" "str_find ''Content-Type'' k = None"
  shows "header_loop s = header_loop (s\<lparr>hs_input := rest\<rparr>)"
  by (subst header_loop.simps) (simp add: assms getline_line)

lemma header_loop_found:
  assumes "LF \<notin> set l" "hs_input s = l @ LF # rest" "header_line l = Inr (k, v)" "str_find ''Content-Type'' k \<noteq> None"
  shows "header_loop s = (None, s\<lparr>hs_input := rest, hs_res_fields := set_field ''Content-Type'' v (hs_res_fields s),
           hs_boundary := (case find_boundary v of Some b \<Rightarrow> b | None \<Rightarrow> hs_boundary s)\<rparr>)"
  using assms by (subst header_loop.simps) (auto simp: getline_line Let_def split: option.splits)

text \<open>A field of the header, as it is sent.\<close>

definition header_field :: "string \<times> string \<Rightarrow> string" where
  "header_field kv = fst kv @ '': '' @ snd kv @ [CRET, LF]"

definition field_ok :: "string \<times> string \<Rightarrow> bool" where
  "field_ok kv \<longleftrightarrow> CHR '':'' \<notin> set (fst kv) \<and> LF \<notin> set (fst kv) \<and> LF \<notin> set (snd kv) \<and> str_find ''Content-Type'' (fst kv) = None"

lemma header_loop_fields:
  "\<forall>kv\<in>set hs. field_ok kv \<and> length (fst kv) + length (snd kv) + 3 < 2 ^ 64 \<Longrightarrow>
    header_loop (s\<lparr>hs_input := concat (map header_field hs) @ rest\<rparr>) = header_loop (s\<lparr>hs_input := rest\<rparr>)"
proof (induction hs)
  case (Cons kv hs)
  let ?s = "s\<lparr>hs_input := concat (map header_field (kv # hs)) @ rest\<rparr>"
  let ?l = "fst kv @ '': '' @ snd kv @ [CRET]"
  have l: "hs_input ?s = ?l @ LF # concat (map header_field hs) @ rest" by (simp add: header_field_def)
  have "LF \<notin> set ?l" using Cons.prems by (auto simp: field_ok_def LF_def CRET_def)
  moreover have "header_line ?l = Inr (fst kv, snd kv)" by (rule header_line_value) (use Cons.prems in \<open>auto simp: field_ok_def\<close>)
  moreover have "str_find ''Content-Type'' (fst kv) = None" using Cons.prems by (simp add: field_ok_def)
  ultimately have "header_loop ?s = header_loop (?s\<lparr>hs_input := concat (map header_field hs) @ rest\<rparr>)"
    by (rule header_loop_skip [OF _ l])
  with Cons show ?case by simp
qed simp

lemma find_boundary_param:
  assumes "CHR '';'' \<notin> set t" "t \<noteq> []" "str_find boundary_type t = None" "CHR '';'' \<notin> set b"
  shows "find_boundary (t @ ''; boundary='' @ b) = Some b"
proof -
  have "getline (CHR '';'') (t @ ''; boundary='' @ b) = Some (t, '' boundary='' @ b)" using getline_line [OF assms(1)] by simp
  moreover have "getline (CHR '';'') ('' boundary='' @ b) = Some ('' boundary='' @ b, [])" using assms(4) by (intro getline_last) auto
  moreover have "str_find boundary_type ('' boundary='' @ b) = Some 1"
    using str_find_prefix [of boundary_type b] by (simp add: boundary_type_def)
  ultimately show ?thesis using assms(3)
    by (subst find_boundary.simps, simp, subst find_boundary.simps) (simp add: boundary_type_def)
qed

text \<open>C31: The header of a multipart response is understood when its first read has it up to the content
  type: of a status line, any fields and a content type with a parameter \<open>boundary\<close>, the
  session keeps the content type and the boundary as they were sent, the promise is set, and
  what follows is still there to be read.\<close>

theorem multipart_header:
  assumes status: "status \<noteq> []" "CHR '':'' \<notin> set status" "LF \<notin> set status" "str_find ''Content-Type'' status = None"
    and fields: "\<forall>kv\<in>set hs. field_ok kv"
    and t: "CHR '';'' \<notin> set t" "t \<noteq> []" "LF \<notin> set t" "str_find boundary_type t = None" and b: "CHR '';'' \<notin> set b" "LF \<notin> set b"
    and bytes: "bytes = status @ [LF] @ concat (map header_field hs) @ header_field (''Content-Type'', t @ ''; boundary='' @ b) @ rest"
      "length bytes \<le> 512"
  shows "handle_read_header ec_none bytes (s\<lparr>hs_input := ''''\<rparr>) =
     (None, Some ec_none, s\<lparr>hs_input := rest, hs_boundary := b,
        hs_res_fields := set_field ''Content-Type'' (t @ ''; boundary='' @ b) (hs_res_fields s)\<rparr>)"
proof -
  let ?v = "t @ ''; boundary='' @ b"
  have len: "length (fst kv) + length (snd kv) + 3 < 2 ^ 64" if "kv \<in> set hs" for kv
  proof -
    have "length (header_field kv) \<le> length (concat (map header_field hs))"
      using that by (auto simp: length_concat comp_def intro: member_le_sum_list)
    then show ?thesis using bytes by (simp add: header_field_def)
  qed
  have "length status < 2 ^ 64 - 1" using bytes by simp
  then obtain w where w: "header_line status = Inr (status, w)" using header_line_plain [OF status(2,1)] by blast
  have "header_loop (s\<lparr>hs_input := bytes\<rparr>) = header_loop (s\<lparr>hs_input := concat (map header_field hs) @ header_field (''Content-Type'', ?v) @ rest\<rparr>)"
    using header_loop_skip [OF status(3) _ w status(4), of "s\<lparr>hs_input := bytes\<rparr>"] bytes(1) by simp
  also have "\<dots> = header_loop (s\<lparr>hs_input := header_field (''Content-Type'', ?v) @ rest\<rparr>)"
    using header_loop_fields fields len by blast
  also have "\<dots> = (None, s\<lparr>hs_input := rest, hs_res_fields := set_field ''Content-Type'' ?v (hs_res_fields s), hs_boundary := b\<rparr>)"
  proof -
    let ?l = "''Content-Type'' @ '': '' @ ?v @ [CRET]"
    have l: "LF \<notin> set ?l" using t(3) b(2) by (auto simp: LF_def CRET_def)
    have "header_line ?l = Inr (''Content-Type'', ?v)" using bytes by (intro header_line_value) (auto simp: header_field_def)
    from header_loop_found [OF l _ this, of "s\<lparr>hs_input := header_field (''Content-Type'', ?v) @ rest\<rparr>" rest]
    show ?thesis using find_boundary_param [OF t(1,2,4) b(1)] by (simp add: header_field_def)
  qed
  finally show ?thesis by (simp add: handle_read_header_def)
qed

theorem multipart_header_witness:
  "\<exists>rest. handle_read_header ec_none
     (''HTTP/1.1 200 OK'' @ [CRET, LF] @ header_field (''Server'', ''x'') @ header_field (''Content-Type'', ''multipart/mixed; boundary=abc'') @ ''--abc'')
     (new_http_session 0) = (None, Some ec_none, (new_http_session 0)\<lparr>hs_input := rest, hs_boundary := ''abc'',
       hs_res_fields := [(''Content-Type'', ''multipart/mixed; boundary=abc'')]\<rparr>)"
  using multipart_header [of "''HTTP/1.1 200 OK'' @ [CRET]" "[(''Server'', ''x'')]" "''multipart/mixed''" "''abc''" _ "''--abc''" "new_http_session 0", OF _ _ _ _ _ _ _ _ _ _ _ refl]
  by (simp add: header_field_def field_ok_def LF_def CRET_def boundary_type_def new_http_session_def set_field_def)

text \<open>
  The lines of a header, as they are read: a line that makes the handler throw, one that is read and
  dropped, and a line that comes after lines of the second kind only. The last line need not be
  terminated: it is what a read has of it.
\<close>

definition name_of :: "string \<Rightarrow> string" where
  "name_of l = takeWhile (\<lambda>c. c \<noteq> CHR '':'') l"

definition throwing_line :: "string \<Rightarrow> bool" where
  "throwing_line l \<longleftrightarrow> l = [] \<or> l = name_of l @ '':''"

definition dropped_line :: "string \<Rightarrow> bool" where
  "dropped_line l \<longleftrightarrow> LF \<notin> set l \<and> \<not> throwing_line l \<and> str_find ''Content-Type'' (name_of l) = None"

definition line_after :: "string list \<Rightarrow> string \<Rightarrow> string \<Rightarrow> string \<Rightarrow> bool" where
  "line_after ls l rest input \<longleftrightarrow> list_all dropped_line ls \<and> LF \<notin> set l
     \<and> (input = concat (map (\<lambda>l. l @ [LF]) ls) @ l @ LF # rest
        \<or> input = concat (map (\<lambda>l. l @ [LF]) ls) @ l \<and> l \<noteq> [] \<and> rest = [])"

lemma name_of_split: "CHR '':'' \<notin> set k \<Longrightarrow> name_of (k @ CHR '':'' # r) = k"
  unfolding name_of_def by (induction k) auto

lemma throwing_line_iff: "throwing_line l \<longleftrightarrow> l = [] \<or> (\<exists>k. CHR '':'' \<notin> set k \<and> l = k @ '':'')"
proof -
  have "CHR '':'' \<notin> set (name_of l)" by (auto simp: name_of_def dest: set_takeWhileD)
  then show ?thesis unfolding throwing_line_def using name_of_split [of _ "[]"] by metis
qed

lemma header_line_cases:
  assumes "length l < 2 ^ 64 - 2"
  shows "throwing_line l \<Longrightarrow> header_line l = Inl out_of_range"
    and "\<not> throwing_line l \<Longrightarrow> \<exists>v. header_line l = Inr (name_of l, v)"
proof -
  show "throwing_line l \<Longrightarrow> header_line l = Inl out_of_range"
    using header_line_throws [OF assms] by (simp add: throwing_line_iff)
next
  assume "\<not> throwing_line l"
  then have no: "header_line l \<noteq> Inl out_of_range" using header_line_throws [OF assms] by (simp add: throwing_line_iff)
  show "\<exists>v. header_line l = Inr (name_of l, v)"
  proof (cases "CHR '':'' \<in> set l")
    case True
    then obtain k r where l: "l = k @ CHR '':'' # r" "CHR '':'' \<notin> set k" by (meson split_list_first)
    then have "str_find '':'' l = Some (length k)" using str_find_char by metis
    moreover obtain k' v where v: "header_line l = Inr (k', v)" using no by (cases "header_line l" rule: sum.exhaust; cases "projl (header_line l)"; force)
    ultimately have "k' = k" using l(1) by (auto simp: header_line_def Let_def split: sum.splits)
    then show ?thesis using v name_of_split [OF l(2)] l(1) by simp
  next
    case False
    then have "name_of l = l" by (auto simp: name_of_def takeWhile_eq_all_conv)
    moreover have "l \<noteq> []" using \<open>\<not> throwing_line l\<close> by (simp add: throwing_line_def)
    ultimately show ?thesis using header_line_plain [OF False] assms by simp
  qed
qed

lemma getline_parts:
  assumes "getline d s = Some (l, rest)"
  shows "d \<notin> set l \<and> (s = l @ d # rest \<or> s = l \<and> l \<noteq> [] \<and> rest = [])"
proof -
  let ?P = "\<lambda>x. x \<noteq> d"
  have s: "s \<noteq> []" "l = takeWhile ?P s" "rest = drop 1 (dropWhile ?P s)" using assms by (cases s; simp)+
  have "d \<notin> set l" unfolding s(2) by (auto dest: set_takeWhileD)
  moreover have "s = l @ dropWhile ?P s" unfolding s(2) by simp
  moreover have "dropWhile ?P s = [] \<or> dropWhile ?P s = d # rest"
    unfolding s(3) using hd_dropWhile [of ?P s] by (cases "dropWhile ?P s") auto
  ultimately show ?thesis using s(1,3) by (metis append.right_neutral drop_Nil)
qed

lemma getline_first:
  "line_after [] l rest input \<Longrightarrow> getline LF input = Some (l, rest)"
  by (auto simp: line_after_def getline_line getline_last)

text \<open>The loop throws at the first such line that it comes to, and at no other.\<close>

lemma header_loop_throws:
  assumes "line_after ls l rest (hs_input s)" "throwing_line l" "length (hs_input s) < 2 ^ 64 - 2"
  shows "header_loop s = (Some out_of_range, s\<lparr>hs_input := rest\<rparr>)"
  using assms
proof (induction ls arbitrary: s)
  case Nil
  then have "length l < 2 ^ 64 - 2" by (auto simp: line_after_def)
  with Nil show ?case using header_line_cases(1)
    by (subst header_loop.simps) (simp add: getline_first)
next
  case (Cons x ls)
  obtain i where i: "hs_input s = x @ LF # i" "line_after ls l rest i" using Cons.prems(1) by (auto simp: line_after_def)
  have x: "LF \<notin> set x" "\<not> throwing_line x" "str_find ''Content-Type'' (name_of x) = None"
    using Cons.prems(1) by (auto simp: line_after_def dropped_line_def)
  have "length x < 2 ^ 64 - 2" using i(1) Cons.prems(3) by simp
  then obtain v where "header_line x = Inr (name_of x, v)" using header_line_cases(2) x(2) by blast
  from header_loop_skip [OF x(1) i(1) this x(3)] have "header_loop s = header_loop (s\<lparr>hs_input := i\<rparr>)" .
  moreover have "length i < 2 ^ 64 - 2" using i(1) Cons.prems(3) by simp
  ultimately show ?case using Cons.IH [of "s\<lparr>hs_input := i\<rparr>"] Cons.prems(2) i(2) by simp
qed

lemma header_loop_threw:
  "fst (header_loop s) \<noteq> None \<Longrightarrow> length (hs_input s) < 2 ^ 64 - 2 \<Longrightarrow>
    \<exists>ls l rest. line_after ls l rest (hs_input s) \<and> throwing_line l"
proof (induction s rule: header_loop.induct)
  case (1 s)
  obtain l rest where g: "getline LF (hs_input s) = Some (l, rest)"
    using 1(2) by (cases "getline LF (hs_input s)") (auto simp: header_loop.simps [of s])
  have p: "LF \<notin> set l" "hs_input s = l @ LF # rest \<or> hs_input s = l \<and> l \<noteq> [] \<and> rest = []" using getline_parts [OF g] by auto
  have len: "length l < 2 ^ 64 - 2" "length rest < 2 ^ 64 - 2" using p(2) 1(3) by auto
  show ?case
  proof (cases "throwing_line l")
    case True
    then show ?thesis using p by (intro exI [of _ "[]"] exI [of _ l] exI [of _ rest]) (auto simp: line_after_def)
  next
    case False
    then obtain v where v: "header_line l = Inr (name_of l, v)" using header_line_cases(2) [OF len(1)] by blast
    have "str_find ''Content-Type'' (name_of l) = None" and t: "fst (header_loop (s\<lparr>hs_input := rest\<rparr>)) \<noteq> None"
      using 1(2) g v by (auto simp: header_loop.simps [of s] Let_def split: if_splits)
    with p(1) False have d: "dropped_line l" by (simp add: dropped_line_def)
    have "rest \<noteq> []" using t by (auto simp: header_loop.simps [of "s\<lparr>hs_input := rest\<rparr>"])
    obtain ls l' rest' where "line_after ls l' rest' rest" "throwing_line l'"
      using 1(1) [OF g refl refl v refl] t len(2) \<open>str_find _ _ = None\<close> by auto
    then have "line_after (l # ls) l' rest' (hs_input s)" using p d \<open>rest \<noteq> []\<close> by (auto simp: line_after_def)
    with \<open>throwing_line l'\<close> show ?thesis by blast
  qed
qed

text \<open>C32: A read of the header ends with an exception exactly if, among the lines that come before the
  one with the content type, there is one that is empty or that ends right after its first colon, the
  last one counted as far as it was read: a read that stops after a colon is enough. The handler then
  leaves the promise as it is, and in the buffer what comes after that line. In every other case, also
  with such lines after the content type, it sets the promise. Buffer and bytes read have less than
  \<open>2 ^ 64 - 2\<close> characters together.\<close>

theorem header_exception:
  assumes "length (hs_input s @ bytes) < 2 ^ 64 - 2"
  shows "(\<forall>ls l rest. line_after ls l rest (hs_input s @ bytes) \<and> throwing_line l \<longrightarrow>
      handle_read_header ec_none bytes s = (Some out_of_range, None, s\<lparr>hs_input := rest\<rparr>))
    \<and> ((\<nexists>ls l rest. line_after ls l rest (hs_input s @ bytes) \<and> throwing_line l) \<longrightarrow>
      (\<exists>s'. handle_read_header ec_none bytes s = (None, Some ec_none, s')))"
proof -
  let ?s = "s\<lparr>hs_input := hs_input s @ bytes\<rparr>"
  have "handle_read_header ec_none bytes s = (Some out_of_range, None, s\<lparr>hs_input := rest\<rparr>)"
    if "line_after ls l rest (hs_input s @ bytes) \<and> throwing_line l" for ls l rest
    using header_loop_throws [of ls l rest ?s] that assms by (simp add: handle_read_header_def)
  moreover have "\<exists>s'. handle_read_header ec_none bytes s = (None, Some ec_none, s')"
    if "\<nexists>ls l rest. line_after ls l rest (hs_input s @ bytes) \<and> throwing_line l"
  proof -
    have "fst (header_loop ?s) = None" using header_loop_threw [of ?s] that assms by fastforce
    then show ?thesis by (cases "header_loop ?s") (simp add: handle_read_header_def)
  qed
  ultimately show ?thesis by blast
qed

theorem header_exception_witness:
  "handle_read_header ec_none (''er: x'' @ [CRET, LF] @ ''Date:'' @ [LF] @ ''y'')
      ((new_http_session 0)\<lparr>hs_input := ''HTTP/1.1 200 OK'' @ [CRET, LF] @ ''Serv''\<rparr>)
     = (Some out_of_range, None, (new_http_session 0)\<lparr>hs_input := ''y''\<rparr>)"
proof -
  let ?s = "(new_http_session 0)\<lparr>hs_input := ''HTTP/1.1 200 OK'' @ [CRET, LF] @ ''Serv''\<rparr>"
  let ?b = "''er: x'' @ [CRET, LF] @ ''Date:'' @ [LF] @ ''y''"
  have "line_after [''HTTP/1.1 200 OK'' @ [CRET], ''Server: x'' @ [CRET]] ''Date:'' ''y'' (hs_input ?s @ ?b)"
    by (simp add: line_after_def dropped_line_def throwing_line_def name_of_def LF_def CRET_def)
  moreover have "throwing_line ''Date:''" by (simp add: throwing_line_def name_of_def)
  moreover have "length (hs_input ?s @ ?b) < 2 ^ 64 - 2" by simp
  ultimately have "handle_read_header ec_none ?b ?s = (Some out_of_range, None, ?s\<lparr>hs_input := ''y''\<rparr>)"
    using header_exception [of ?s ?b] by blast
  then show ?thesis by simp
qed

section \<open>Parts\<close>

lemma find_part_hit:
  assumes "LF \<notin> set b"
  shows "find_part ops b (''--'' @ b @ [CRET, LF]) t = ([], \<lparr>pt_header_done = True, pt_parser = snd (snd (pa_put ops status_line (pt_parser t)))\<rparr>)"
proof -
  have "getline LF (''--'' @ b @ [CRET, LF]) = Some (''--'' @ b @ [CRET], [])"
    using getline_line [of LF "''--'' @ b @ [CRET]" "[]"] assms by (simp add: LF_def CRET_def)
  moreover have "str_find (''--'' @ b) (''--'' @ b @ [CRET]) = Some 0" using str_find_prefix [of "''--'' @ b" "[CRET]"] by simp
  ultimately show ?thesis by (subst find_part.simps) simp
qed

lemma find_part_miss:
  assumes "LF \<notin> set l" "length l < length b + 2"
  shows "l \<noteq> [] \<Longrightarrow> find_part ops b l t = ([], t)" "find_part ops b (l @ [LF]) t = ([], t)"
proof -
  have n: "find_part ops b [] t = ([], t)" by (subst find_part.simps) simp
  have "str_find (''--'' @ b) l = None" using assms(2) by (intro str_find_short) simp
  with n show "l \<noteq> [] \<Longrightarrow> find_part ops b l t = ([], t)" "find_part ops b (l @ [LF]) t = ([], t)"
    using getline_last [OF assms(1)] getline_line [OF assms(1), of "[]"] by (subst find_part.simps; simp)+
qed

text \<open>The delimiter of a part is found when it arrives in one read and lost when it is cut in two: the
  same bytes, the delimiter line, start a part in the first case, and in the second the
  reader is where it was, with the bytes gone.\<close>

theorem part_delimiter_split:
  assumes b: "LF \<notin> set b" "b \<noteq> []" and s: "hs_boundary s = b" "hs_input s = ''''"
  shows "pt_header_done (snd (snd (read_part ops [(ec_none, ''--'' @ b @ [CRET, LF])] (s, \<lparr>pt_header_done = False, pt_parser = q\<rparr>))))
    \<and> read_part ops [(ec_none, ''--''), (ec_none, b @ [CRET, LF])] (s, \<lparr>pt_header_done = False, pt_parser = q\<rparr>)
       = (None, s, \<lparr>pt_header_done = False, pt_parser = q\<rparr>)"
proof -
  let ?t = "\<lparr>pt_header_done = False, pt_parser = q\<rparr>"
  have skip: "handle_read_part ops ec_none bytes (s, ?t) = (None, [HO_Read_Some 1024], s, ?t)"
    if "find_part ops b bytes ?t = ([], ?t)" for bytes
  proof -
    have "s\<lparr>hs_input := []\<rparr> = s" using s(2) by (cases s) simp
    then show ?thesis using that s by (simp add: handle_read_part_def Let_def)
  qed
  have "find_part ops b ''--'' ?t = ([], ?t)"
    by (rule find_part_miss(1)) (use b(2) in \<open>auto simp: LF_def\<close>)
  moreover have "find_part ops b ((b @ [CRET]) @ [LF]) ?t = ([], ?t)"
    by (rule find_part_miss(2)) (use b(1) in \<open>auto simp: LF_def CRET_def\<close>)
  ultimately have "read_part ops [(ec_none, ''--''), (ec_none, b @ [CRET, LF])] (s, ?t) = (None, s, ?t)" using skip by simp
  moreover have "pt_header_done (snd (snd (snd (handle_read_part ops ec_none (''--'' @ b @ [CRET, LF]) (s, ?t)))))"
    using find_part_hit [OF b(1), of ops ?t] s by (auto simp: handle_read_part_def Let_def split: prod.splits)
  then have "pt_header_done (snd (snd (read_part ops [(ec_none, ''--'' @ b @ [CRET, LF])] (s, ?t))))"
    by (auto split: prod.splits option.splits)
  ultimately show ?thesis by blast
qed

theorem part_delimiter_split_witness:
  "let s = (new_http_session 0)\<lparr>hs_boundary := ''abc''\<rparr>; t = \<lparr>pt_header_done = False, pt_parser = ''''\<rparr>;
       ops = \<lparr>pa_put = (\<lambda>b q. (length b, ec_none, q @ b)), pa_is_done = (\<lambda>q. False), pa_get = (\<lambda>q. ([], q))\<rparr> in
   pt_header_done (snd (snd (read_part ops [(ec_none, ''--abc'' @ [CRET, LF])] (s, t))))
   \<and> \<not> pt_header_done (snd (snd (read_part ops [(ec_none, ''--''), (ec_none, ''abc'' @ [CRET, LF])] (s, t))))"
  using part_delimiter_split [of "''abc''" "(new_http_session 0)\<lparr>hs_boundary := ''abc''\<rparr>"
      "\<lparr>pa_put = (\<lambda>b q. (length b, ec_none, q @ b)), pa_is_done = (\<lambda>q. False), pa_get = (\<lambda>q. ([], q))\<rparr>" "''''"]
  unfolding Let_def by (simp add: LF_def new_http_session_def del: read_part.simps)

end
