(* ===== verification/Io_Sessions.thy ===== *)
theory Io_Sessions
  imports Http
begin

text \<open>
  Whole requests and peers: \<open>async_request_multipart\<close> of \<open>src/io/http.cpp\<close> with all its completions
  (\<open>src/io/io_http_task.h\<close>) on a session that is used again, the endpoint of a UDP session (\<open>src/io/udp.cpp\<close>), and a
  thread of the I/O executor (\<open>src/io/io_executor.cpp\<close>). The resolver is a parameter: it yields
  endpoints, at least one, or throws. A datagram that arrives tells its sender.
\<close>

section \<open>Definitions\<close>

definition async_request_multipart :: "string \<Rightarrow> http_request \<Rightarrow> http_session \<Rightarrow> http_op list \<times> http_state \<times> http_session" where
  "async_request_multipart version request s =
     ([HO_Resolve (hr_host request) (hr_port request)], HS_Resolving,
      s\<lparr>hs_req := fill_request version request (hs_req s), hs_res_fields := [], hs_res_body := ''''\<rparr>)"

text \<open>A completion of the operation that is pending, with the bytes it read; an exception of a handler leaves the promise as it is.\<close>

record multipart_run =
  mr_started :: "http_op list"
  mr_state :: http_state
  mr_thrown :: "str_error option"
  mr_session :: http_session

definition multipart_completion :: "io_error \<times> string \<Rightarrow> multipart_run \<Rightarrow> multipart_run" where
  "multipart_completion c r =
     (if mr_thrown r \<noteq> None then r
      else if mr_state r = HS_Reading
      then (case handle_read_header (fst c) (snd c) (mr_session r) of
              (e, p, s) \<Rightarrow> r\<lparr>mr_state := (case p of None \<Rightarrow> HS_Reading | Some v \<Rightarrow> HS_Done v), mr_thrown := e, mr_session := s\<rparr>)
      else (case http_multipart_request_task (mr_session r) (mr_state r) (fst c) of
              (ops, st) \<Rightarrow> r\<lparr>mr_started := mr_started r @ ops, mr_state := st\<rparr>))"

definition multipart_start :: "string \<Rightarrow> http_request \<Rightarrow> http_session \<Rightarrow> multipart_run" where
  "multipart_start version request s =
     (case async_request_multipart version request s of
        (ops, st, s) \<Rightarrow> \<lparr>mr_started = ops, mr_state = st, mr_thrown = None, mr_session = s\<rparr>)"

definition multipart_request :: "string \<Rightarrow> http_request \<Rightarrow> (io_error \<times> string) list \<Rightarrow> http_session \<Rightarrow> multipart_run" where
  "multipart_request version request cs s = fold multipart_completion cs (multipart_start version request s)"

text \<open>The UDP session: \<open>async_connect\<close> only resolves, and \<open>async_receive_from\<close> stores the sender in the same member.\<close>

record 'e udp_session =
  us_session :: session
  us_sender_endpoint :: 'e

definition udp_async_connect ::
  "(string \<Rightarrow> string \<Rightarrow> 'x + 'e list) \<Rightarrow> string \<Rightarrow> string \<Rightarrow> 'e udp_session \<Rightarrow> ('x + io_error) \<times> 'e udp_session" where
  "udp_async_connect resolve ip_address port s =
     (case resolve ip_address port of
        Inl x \<Rightarrow> (Inl x, s)
      | Inr itr \<Rightarrow> (Inr ec_none, s\<lparr>us_sender_endpoint := hd itr\<rparr>))"

definition udp_set_read_timeout :: "int \<Rightarrow> 'e udp_session \<Rightarrow> 'e udp_session" where
  "udp_set_read_timeout seconds s = s\<lparr>us_session := snd (set_read_timeout seconds (us_session s))\<rparr>"

definition udp_read_input_stream :: "nat \<Rightarrow> 'e udp_session \<Rightarrow> string \<times> 'e udp_session" where
  "udp_read_input_stream sz s =
     (let (bytes, t) = read_input_stream sz (us_session s) in (bytes, s\<lparr>us_session := t\<rparr>))"

definition udp_receive_from :: "'e \<Rightarrow> string \<Rightarrow> 'e udp_session \<Rightarrow> 'e udp_session" where
  "udp_receive_from sender bytes s = s\<lparr>us_session := udp_received bytes (us_session s), us_sender_endpoint := sender\<rparr>"

definition udp_send_to :: "string \<Rightarrow> 'e udp_session \<Rightarrow> 'e \<times> string" where
  "udp_send_to buffer s = (us_sender_endpoint s, buffer)"

datatype 'e udp_op = U_Connect string string | U_Received 'e string | U_Send string | U_Timeout int | U_Input nat

primrec udp_run :: "(string \<Rightarrow> string \<Rightarrow> 'x + 'e list) \<Rightarrow> 'e udp_op list \<Rightarrow> 'e udp_session \<Rightarrow> ('e \<times> string) list \<times> 'e udp_session" where
  "udp_run resolve [] s = ([], s)"
| "udp_run resolve (op # ops) s =
     (let (out, s1) = (case op of
          U_Connect ip port \<Rightarrow> ([], snd (udp_async_connect resolve ip port s))
        | U_Received sender bytes \<Rightarrow> ([], udp_receive_from sender bytes s)
        | U_Send buffer \<Rightarrow> ([udp_send_to buffer s], s)
        | U_Timeout t \<Rightarrow> ([], udp_set_read_timeout t s)
        | U_Input n \<Rightarrow> ([], snd (udp_read_input_stream n s)));
      rest = udp_run resolve ops s1 in (out @ fst rest, snd rest))"

text \<open>A thread of the I/O executor runs the handlers the service calls; the exception of a handler leaves \<open>run\<close> and the
  thread, which ends the program.\<close>

primrec io_thread :: "('s \<Rightarrow> 'x option \<times> 's) list \<Rightarrow> 's \<Rightarrow> 'x option \<times> 's" where
  "io_thread [] s = (None, s)"
| "io_thread (h # hs) s = (case h s of (Some x, s) \<Rightarrow> (Some x, s) | (None, s) \<Rightarrow> io_thread hs s)"

definition completion_handler :: "io_error \<times> string \<Rightarrow> multipart_run \<Rightarrow> str_error option \<times> multipart_run" where
  "completion_handler c r = (let r = multipart_completion c r in (mr_thrown r, r))"

section \<open>A request and its completions\<close>

lemma multipart_resolved:
  "multipart_request version request [(ec_none, x), (ec_none, y), (ec_none, z), (ec, bytes)] s =
     (let s1 = s\<lparr>hs_req := fill_request version request (hs_req s), hs_res_fields := [], hs_res_body := ''''\<rparr> in
      case handle_read_header ec bytes s1 of (e, p, s2) \<Rightarrow>
        \<lparr>mr_started = [HO_Resolve (hr_host request) (hr_port request), expires s, HO_Connect, expires s,
           HO_Write (fill_request version request (hs_req s)), HO_Read_Some 512],
         mr_state = (case p of None \<Rightarrow> HS_Reading | Some v \<Rightarrow> HS_Done v), mr_thrown = e, mr_session = s2\<rparr>)"
  by (simp add: multipart_request_def multipart_start_def async_request_multipart_def multipart_completion_def Let_def expires_def
      split: prod.splits)

lemma header_end: "header_loop (s\<lparr>hs_input := [CRET, LF]\<rparr>) = (None, s\<lparr>hs_input := ''''\<rparr>)"
proof -
  have "header_line [CRET] = Inr ([CRET], '''')" by (simp add: header_line_def substr_def CRET_def npos_def Let_def)
  moreover have "str_find ''Content-Type'' [CRET] = None" by (simp add: CRET_def)
  ultimately have "header_loop (s\<lparr>hs_input := [CRET, LF]\<rparr>) = header_loop (s\<lparr>hs_input := ''''\<rparr>)"
    using header_loop_skip [of "[CRET]" "s\<lparr>hs_input := [CRET, LF]\<rparr>" "''''"] by (simp add: CRET_def LF_def)
  then show ?thesis by (simp add: header_loop.simps [of "s\<lparr>hs_input := ''''\<rparr>"])
qed

text \<open>C33: A multipart session keeps the boundary of the response before. When every operation succeeds and the
  response has a status line and fields but no content type, the request succeeds, whatever it was; on a new session
  reading a part then ends with a protocol error, on a session that has a boundary
  from an earlier response it starts to look for that boundary in the new response.\<close>

theorem multipart_boundary_kept:
  assumes status: "status \<noteq> []" "CHR '':'' \<notin> set status" "LF \<notin> set status" "str_find ''Content-Type'' status = None"
    and fields: "\<forall>kv\<in>set hs. field_ok kv"
    and bytes: "bytes = status @ [LF] @ concat (map header_field hs) @ [CRET, LF]" "length bytes \<le> 512"
    and r: "r = multipart_request version request [(ec_none, x), (ec_none, y), (ec_none, z), (ec_none, bytes)] (s\<lparr>hs_input := ''''\<rparr>)"
  shows "mr_state r = HS_Done ec_none \<and> hs_boundary (mr_session r) = hs_boundary s
    \<and> async_read_part (mr_session r) = (if hs_boundary s = '''' then (Some protocol_error, []) else (None, [expires s, HO_Read_Some 1024]))"
proof -
  let ?s = "s\<lparr>hs_input := '''', hs_req := fill_request version request (hs_req s), hs_res_fields := [], hs_res_body := ''''\<rparr>"
  have len: "length (fst kv) + length (snd kv) + 3 < 2 ^ 64" if "kv \<in> set hs" for kv
  proof -
    have "length (header_field kv) \<le> length (concat (map header_field hs))"
      using that by (auto simp: length_concat comp_def intro: member_le_sum_list)
    then show ?thesis using bytes by (simp add: header_field_def)
  qed
  have "length status < 2 ^ 64 - 1" using bytes by simp
  then obtain w where w: "header_line status = Inr (status, w)" using header_line_plain [OF status(2,1)] by blast
  have "header_loop (?s\<lparr>hs_input := bytes\<rparr>) = header_loop (?s\<lparr>hs_input := concat (map header_field hs) @ [CRET, LF]\<rparr>)"
    using header_loop_skip [OF status(3) _ w status(4), of "?s\<lparr>hs_input := bytes\<rparr>"] bytes(1) by simp
  also have "\<dots> = (None, ?s)" using header_loop_fields [where hs = hs and s = ?s and rest = "[CRET, LF]"] fields len by (simp add: header_end)
  finally have "header_loop (?s\<lparr>hs_input := bytes\<rparr>) = (None, ?s)" .
  then have "handle_read_header ec_none bytes ?s = (None, Some ec_none, ?s)"
    by (simp add: handle_read_header_def)
  then show ?thesis unfolding r multipart_resolved by (simp add: async_read_part_def expires_def)
qed

theorem multipart_boundary_kept_witness:
  "\<exists>r. r = multipart_request ''v'' \<lparr>hr_method = m_get, hr_host = ''h'', hr_port = 80, hr_body = '''', hr_target = ''/''\<rparr>
       [(ec_none, ''''), (ec_none, ''''), (ec_none, ''''), (ec_none, ''HTTP/1.1 404 Not Found'' @ [CRET] @ [LF] @ [] @ [CRET, LF])]
       ((new_http_session 0)\<lparr>hs_boundary := ''abc'', hs_input := ''''\<rparr>)
     \<and> mr_state r = HS_Done ec_none \<and> async_read_part (mr_session r) = (None, [HO_Expires 60, HO_Read_Some 1024])"
  using multipart_boundary_kept [of "''HTTP/1.1 404 Not Found'' @ [CRET]" "[]" "''HTTP/1.1 404 Not Found'' @ [CRET] @ [LF] @ [] @ [CRET, LF]" _ "''v''"
      "\<lparr>hr_method = m_get, hr_host = ''h'', hr_port = 80, hr_body = '''', hr_target = ''/''\<rparr>" "''''" "''''" "''''" "(new_http_session 0)\<lparr>hs_boundary := ''abc''\<rparr>"]
  by (simp add: LF_def CRET_def new_http_session_def expires_def)

text \<open>A header line that throws ends the thread of the executor, and none of the handlers after it runs.\<close>

lemma bad_header_ends_thread:
  assumes "LF \<notin> set l" "header_line l = Inl e" "mr_state r = HS_Reading" "mr_thrown r = None" "hs_input (mr_session r) = ''''"
  shows "\<exists>r'. io_thread (completion_handler (ec_none, l @ LF # rest) # hs) r = (Some e, r') \<and> mr_state r' = HS_Reading"
proof -
  have "header_loop ((mr_session r)\<lparr>hs_input := l @ LF # rest\<rparr>) = (Some e, (mr_session r)\<lparr>hs_input := rest\<rparr>)"
    using assms(1,2) by (subst header_loop.simps) (simp add: getline_line Let_def)
  then show ?thesis using assms(3-5) by (simp add: completion_handler_def multipart_completion_def handle_read_header_def Let_def)
qed

section \<open>The peer of a UDP session\<close>

text \<open>Whom the datagrams go to.\<close>

primrec udp_peers :: "(string \<Rightarrow> string \<Rightarrow> 'x + 'e list) \<Rightarrow> 'e udp_op list \<Rightarrow> 'e \<Rightarrow> ('e \<times> string) list" where
  "udp_peers resolve [] peer = []"
| "udp_peers resolve (op # ops) peer =
     (case op of
        U_Connect ip port \<Rightarrow> udp_peers resolve ops (case resolve ip port of Inl x \<Rightarrow> peer | Inr itr \<Rightarrow> hd itr)
      | U_Received sender bytes \<Rightarrow> udp_peers resolve ops sender
      | U_Send buffer \<Rightarrow> (peer, buffer) # udp_peers resolve ops peer
      | _ \<Rightarrow> udp_peers resolve ops peer)"

lemma udp_run_peers: "fst (udp_run resolve ops s) = udp_peers resolve ops (us_sender_endpoint s)"
  by (induction ops arbitrary: s)
    (auto simp: udp_async_connect_def udp_receive_from_def udp_send_to_def udp_set_read_timeout_def udp_read_input_stream_def Let_def
      split: udp_op.splits prod.splits sum.splits)

text \<open>A UDP session answers whoever wrote last. After \<open>async_connect\<close> everything is sent to the peer it resolved,
  until a datagram arrives: from then on everything is sent to its sender, whether that is the peer or not.\<close>

theorem udp_redirected:
  assumes "resolve ip port = Inr (peer # more_peers)"
  shows "fst (udp_run resolve ([U_Connect ip port] @ map U_Send before @ [U_Received sender bytes] @ map U_Send after) s)
    = map (Pair peer) before @ map (Pair sender) after"
proof -
  have sends: "udp_peers resolve (map U_Send bs @ ops) p = map (Pair p) bs @ udp_peers resolve ops p" for bs ops p by (induction bs) auto
  from sends [of after "[]"] show ?thesis using assms unfolding udp_run_peers by (simp add: sends)
qed

theorem udp_redirected_witness:
  "fst (udp_run (\<lambda>ip port. Inr [(ip, port)] :: unit + (string \<times> string) list)
      ([U_Connect ''camera'' ''554''] @ map U_Send [''a''] @ [U_Received (''stranger'', ''9'') ''x''] @ map U_Send [''b'']) s)
    = [((''camera'', ''554''), ''a''), ((''stranger'', ''9''), ''b'')]"
  using udp_redirected [of "\<lambda>ip port. Inr [(ip, port)] :: unit + (string \<times> string) list" "''camera''" "''554''" "(''camera'', ''554'')" "[]" "[''a'']" "(''stranger'', ''9'')" "''x''" "[''b'']" s]
  by simp

end
