(* ===== verification/Http_Digest.thy ===== *)
theory Http_Digest
  imports AR_Prelude "HOL-Library.Sublist"
begin

text \<open>
  \<open>src/io/http_digest_authenticator.cpp\<close>: the answer to a digest challenge. The hash \<open>md5\<close>, as lower-case
  hexadecimal, and the search for \<open>key=([^,]+)\<close> belong to a library and are parameters, the
  search a function that yields the group it captures; \<open>search_first\<close> says what its
  documentation promises: the leftmost match, the group as long as possible. Reading a range of
  negative length is an error.
\<close>

section \<open>Definitions\<close>

datatype digest_error = undefined_range

record authenticator =
  m_authenticate :: string
  m_username :: string
  m_password :: string
  m_uri :: string
  m_method :: string
  m_realm :: string
  m_nonce :: string
  m_cnonce :: string
  m_nonceCount :: string
  m_ha1 :: string
  m_ha2 :: string
  m_response :: string
  m_authorization :: string

definition http_digest_authenticator :: "string \<Rightarrow> string \<Rightarrow> string \<Rightarrow> string \<Rightarrow> string \<Rightarrow> authenticator" where
  "http_digest_authenticator www_authenticate username password uri meth =
     \<lparr>m_authenticate = www_authenticate, m_username = username, m_password = password, m_uri = uri, m_method = meth,
      m_realm = '''', m_nonce = '''', m_cnonce = '''', m_nonceCount = '''', m_ha1 = '''', m_ha2 = '''', m_response = '''',
      m_authorization = ''''\<rparr>"

definition calculateHA1 :: "(string \<Rightarrow> string) \<Rightarrow> string \<Rightarrow> string \<Rightarrow> string \<Rightarrow> string" where
  "calculateHA1 md5 username realm password = md5 (username @ '':'' @ realm @ '':'' @ password)"

definition calculateHA2 :: "(string \<Rightarrow> string) \<Rightarrow> string \<Rightarrow> string \<Rightarrow> string" where
  "calculateHA2 md5 meth uri = md5 (meth @ '':'' @ uri)"

definition quote :: char where
  "quote = CHR 0x22"

definition find_section :: "(string \<Rightarrow> string \<Rightarrow> string option) \<Rightarrow> string \<Rightarrow> string \<Rightarrow> digest_error + string option" where
  "find_section search key auth =
     (case search key auth of
        None \<Rightarrow> Inr None
      | Some [] \<Rightarrow> Inl undefined_range
      | Some g \<Rightarrow>
          (let start = (if hd g = quote then 1 else 0);
               sz = int (length g) - int start;
               sz = (if last g = quote then sz - 1 else sz) in
           if sz < 0 then Inl undefined_range else Inr (Some (take (nat sz) (drop start g)))))"

definition calculate_response :: "(string \<Rightarrow> string) \<Rightarrow> authenticator \<Rightarrow> string" where
  "calculate_response md5 a = md5 (m_ha1 a @ '':'' @ m_nonce a @ '':'' @ m_nonceCount a @ '':'' @ m_cnonce a @ '':auth:'' @ m_ha2 a)"

definition quoted :: "string \<Rightarrow> string" where
  "quoted s = [quote] @ s @ [quote]"

text \<open>The client nonce is assigned the truth value of a search, as a character.\<close>

definition generate_authorization ::
  "(string \<Rightarrow> string) \<Rightarrow> (string \<Rightarrow> string \<Rightarrow> string option) \<Rightarrow> authenticator \<Rightarrow> digest_error + bool \<times> authenticator" where
  "generate_authorization md5 search a =
     (case find_section search ''nonce'' (m_authenticate a) of
        Inl e \<Rightarrow> Inl e
      | Inr None \<Rightarrow> Inr (False, a)
      | Inr (Some nonce) \<Rightarrow>
          (let a = a\<lparr>m_nonce := nonce\<rparr> in
           case find_section search ''realm'' (m_authenticate a) of
             Inl e \<Rightarrow> Inl e
           | Inr None \<Rightarrow> Inr (False, a)
           | Inr (Some realm) \<Rightarrow>
               (let a = a\<lparr>m_realm := realm, m_cnonce := [CHR 0x01], m_nonceCount := ''1''\<rparr>;
                    a = a\<lparr>m_ha1 := calculateHA1 md5 (m_username a) (m_realm a) (m_password a),
                          m_ha2 := calculateHA2 md5 (m_method a) (m_uri a)\<rparr>;
                    a = a\<lparr>m_response := calculate_response md5 a\<rparr> in
                Inr (True, a\<lparr>m_authorization :=
                  ''Digest username='' @ quoted (m_username a) @ '', realm='' @ quoted (m_realm a) @ '', nonce='' @ quoted (m_nonce a)
                  @ '', uri='' @ quoted (m_uri a) @ '', qop=auth, nc='' @ m_nonceCount a @ '', cnonce='' @ quoted (m_cnonce a)
                  @ '', response='' @ quoted (m_response a)\<rparr>))))"

text \<open>The nonce of the given length and digits, drawn at random; nothing calls it.\<close>

definition generate_nonce :: "nat list \<Rightarrow> string" where
  "generate_nonce draws = map (\<lambda>d. ''0123456789abcdef'' ! d) draws"

section \<open>The search\<close>

fun section_match :: "string \<Rightarrow> string \<Rightarrow> string option" where
  "section_match key [] = None"
| "section_match key (c # cs) =
     (let r = drop (length key + 1) (c # cs) in
      if take (length key + 1) (c # cs) = key @ ''='' \<and> r \<noteq> [] \<and> hd r \<noteq> CHR '',''
      then Some (takeWhile (\<lambda>d. d \<noteq> CHR '','') r) else section_match key cs)"

definition search_first :: "(string \<Rightarrow> string \<Rightarrow> string option) \<Rightarrow> bool" where
  "search_first search \<longleftrightarrow> (\<forall>key text. search key text = section_match key text)"

lemma match_before_equals:
  assumes "take (length key + 1) (w @ CHR ''='' # rest) = key @ ''=''" "CHR ''='' \<notin> set w" "CHR ''='' \<notin> set key"
  shows "key = w"
proof -
  have "w @ CHR ''='' # rest = (key @ ''='') @ drop (length key + 1) (w @ CHR ''='' # rest)"
    using append_take_drop_id [of "length key + 1" "w @ CHR ''='' # rest", unfolded assms(1)] by (rule sym)
  then have "takeWhile (\<lambda>c. c \<noteq> CHR ''='') (w @ CHR ''='' # rest) = takeWhile (\<lambda>c. c \<noteq> CHR ''='') ((key @ ''='') @ drop (length key + 1) (w @ CHR ''='' # rest))"
    by (rule arg_cong)
  moreover have "takeWhile (\<lambda>c. c \<noteq> CHR ''='') (v @ CHR ''='' # r) = v" if "CHR ''='' \<notin> set v" for v r
    using that by (induction v) auto
  ultimately show ?thesis using assms(2,3) by simp
qed

lemma section_match_hit:
  assumes "CHR ''='' \<notin> set u" "CHR ''='' \<notin> set key" "rest \<noteq> []" "hd rest \<noteq> CHR '',''"
  shows "section_match key (u @ key @ CHR ''='' # rest) = Some (takeWhile (\<lambda>d. d \<noteq> CHR '','') rest)"
  using assms(1)
proof (induction u)
  case Nil
  have "take (length key + 1) (key @ CHR ''='' # rest) = key @ ''=''" "drop (length key + 1) (key @ CHR ''='' # rest) = rest" by simp_all
  moreover obtain c cs where "key @ CHR ''='' # rest = c # cs" by (cases key) auto
  ultimately show ?case using assms(3,4) by (simp only: append_Nil section_match.simps Let_def simp_thms if_True)
next
  case (Cons c u)
  have "take (length key + 1) (c # u @ key @ CHR ''='' # rest) \<noteq> key @ ''=''"
    using match_before_equals [of key "c # u @ key" rest] Cons.prems assms(2) by auto
  then show ?case using Cons by (simp del: take_Suc_Cons add: Let_def)
qed

lemma section_match_skip:
  assumes "CHR ''='' \<notin> set w" "CHR ''='' \<notin> set key" "\<not> suffix key w"
  shows "section_match key (w @ CHR ''='' # rest) = section_match key rest"
  using assms(1,3)
proof (induction w)
  case Nil
  then show ?case using match_before_equals [of key "[]" rest] assms(2) by (auto simp: Let_def)
next
  case (Cons c w)
  then have "take (length key + 1) (c # w @ CHR ''='' # rest) \<noteq> key @ ''=''"
    using match_before_equals [of key "c # w" rest] assms(2) by auto
  moreover have "\<not> suffix key w" using Cons.prems(2) by (auto simp: suffix_def)
  ultimately show ?case using Cons by (simp del: take_Suc_Cons add: Let_def)
qed

text \<open>A quoted group loses its quotes.\<close>

lemma find_section_quoted: "search key auth = Some (quoted s) \<Longrightarrow> find_section search key auth = Inr (Some s)"
  by (simp add: find_section_def quoted_def)

lemma takeWhile_comma: "CHR '','' \<notin> set s \<Longrightarrow> takeWhile (\<lambda>d. d \<noteq> CHR '','') (quoted s @ t) = quoted s @ takeWhile (\<lambda>d. d \<noteq> CHR '','') t"
  unfolding quoted_def quote_def by (subst takeWhile_append2) auto

section \<open>Properties\<close>

text \<open>The challenge of a server.\<close>

definition challenge :: "string \<Rightarrow> string \<Rightarrow> string" where
  "challenge realm nonce = ''Digest realm='' @ quoted realm @ '', nonce='' @ quoted nonce"

text \<open>The answer to a challenge has the realm and the nonce of the challenge, whatever they are,
  provided the realm has no equals sign or comma and the nonce no comma. The client nonce is
  not random: it is the character 1, so that the answer to a challenge is always the same, and
  the response is the hash over it.\<close>

theorem digest_answer:
  assumes search: "search_first search"
    and realm: "CHR ''='' \<notin> set realm" "CHR '','' \<notin> set realm" and nonce: "CHR '','' \<notin> set nonce"
  shows "\<exists>a. generate_authorization md5 search (http_digest_authenticator (challenge realm nonce) user password uri meth) = Inr (True, a)
    \<and> m_realm a = realm \<and> m_nonce a = nonce \<and> m_cnonce a = [CHR 0x01]
    \<and> m_response a = md5 (md5 (user @ '':'' @ realm @ '':'' @ password) @ '':'' @ nonce @ '':1:'' @ [CHR 0x01] @ '':auth:'' @ md5 (meth @ '':'' @ uri))"
proof -
  have r: "section_match ''realm'' (challenge realm nonce) = Some (quoted realm)"
    using section_match_hit [of "''Digest ''" "''realm''" "quoted realm @ '', nonce='' @ quoted nonce"] takeWhile_comma [OF realm(2)]
    by (simp add: challenge_def) (simp add: quoted_def quote_def)
  have "section_match ''nonce'' (challenge realm nonce) = section_match ''nonce'' (quoted realm @ '', nonce='' @ quoted nonce)"
    using section_match_skip [of "''Digest realm''" "''nonce''"] by (simp add: challenge_def suffix_def)
  also have "\<dots> = Some (quoted nonce)"
    using section_match_hit [of "quoted realm @ '', ''" "''nonce''" "quoted nonce"] realm(1) takeWhile_comma [OF nonce, of "[]"]
    by (simp add: quoted_def quote_def)
  finally have n: "section_match ''nonce'' (challenge realm nonce) = Some (quoted nonce)" .
  from search n r have "find_section search ''nonce'' (challenge realm nonce) = Inr (Some nonce)"
    "find_section search ''realm'' (challenge realm nonce) = Inr (Some realm)"
    by (simp_all add: search_first_def find_section_quoted)
  then show ?thesis
    by (simp add: generate_authorization_def http_digest_authenticator_def Let_def calculate_response_def calculateHA1_def calculateHA2_def)
qed

theorem digest_answer_witness:
  "\<exists>a. generate_authorization id section_match (http_digest_authenticator (challenge ''r'' ''n1'') ''u'' ''p'' ''/'' ''GET'') = Inr (True, a)
     \<and> m_nonce a = ''n1'' \<and> m_response a = ''u:r:p:n1:1:'' @ [CHR 0x01] @ '':auth:GET:/''"
  using digest_answer [of section_match "''r''" "''n1''" id "''u''" "''p''" "''/''" "''GET''"] by (auto simp: search_first_def)

text \<open>A challenge in which the value of the nonce is a single quote makes the code read a range of
  negative length. Without a nonce, or with one and without a realm, there is no answer and
  the authorization stays empty.\<close>

theorem digest_errors:
  assumes search: "search_first search" and tail: "rest = [] \<or> hd rest = CHR '',''"
  shows "generate_authorization md5 search (http_digest_authenticator (''Digest nonce='' @ [quote] @ rest) user password uri meth) = Inl undefined_range
    \<and> (find_section search ''nonce'' auth = Inr None \<or> (\<exists>n. find_section search ''nonce'' auth = Inr (Some n)) \<and> find_section search ''realm'' auth = Inr None
      \<longrightarrow> (\<exists>a. generate_authorization md5 search (http_digest_authenticator auth user password uri meth) = Inr (False, a) \<and> m_authorization a = ''''))"
proof -
  have "takeWhile (\<lambda>d. d \<noteq> CHR '','') ([quote] @ rest) = [quote]" using tail by (cases rest) (auto simp: quote_def)
  then have "search ''nonce'' (''Digest nonce='' @ [quote] @ rest) = Some [quote]"
    using section_match_hit [of "''Digest ''" "''nonce''" "[quote] @ rest"] search by (simp add: search_first_def quote_def)
  then have "find_section search ''nonce'' (''Digest nonce='' @ [quote] @ rest) = Inl undefined_range"
    by (simp add: find_section_def)
  then show ?thesis by (auto simp: generate_authorization_def http_digest_authenticator_def Let_def)
qed

theorem digest_errors_witness:
  "generate_authorization id section_match (http_digest_authenticator (''Digest nonce='' @ [quote] @ '', realm=x'') ''u'' ''p'' ''/'' ''GET'') = Inl undefined_range
   \<and> (\<exists>a. generate_authorization id section_match (http_digest_authenticator ''Basic'' ''u'' ''p'' ''/'' ''GET'') = Inr (False, a) \<and> m_authorization a = '''')"
proof -
  have "find_section section_match ''nonce'' ''Basic'' = Inr None" by (simp add: find_section_def)
  then show ?thesis
    using digest_errors [of section_match "'', realm=x''" id "''u''" "''p''" "''/''" "''GET''" "''Basic''"] by (simp add: search_first_def)
qed

end
