(* ===== verification/Logging.thy ===== *)
theory Logging
  imports AR_Prelude
begin

text \<open>
  \<open>src/logger.cpp\<close> and \<open>include/ar/logger.hpp\<close>: the settings of a logger and the line it hands to
  its callback. A level and a mode are the numbers of the enumerators, since a caller can cast any
  small number and the setters check for that. A callback is a value of an arbitrary type \<open>'c\<close>, its
  user data of a type \<open>'u\<close>; what a write hands to it is the result of the write. The local time
  and the printed thread id of the caller are arguments of a write. The loggers of a program
  are a list, \<open>s_logger\<close> first. The constructor leaves \<open>_mode\<close> as it finds it.
\<close>

section \<open>Definitions\<close>

definition Silent :: nat where "Silent = 0"
definition Error :: nat where "Error = 1"
definition Warning :: nat where "Warning = 2"
definition Info :: nat where "Info = 3"
definition Verbose :: nat where "Verbose = 4"
definition Debug :: nat where "Debug = 5"

definition Production :: nat where "Production = 0"
definition E2E :: nat where "E2E = 1"

lemmas level_defs = Silent_def Error_def Warning_def Info_def Verbose_def Debug_def Production_def E2E_def

datatype log_error = invalid_logging_level | invalid_mode_level | assertion_failed

record ('c, 'u) logger =
  lg_callback :: "'c option"
  lg_user_data :: "'u option"
  lg_mode :: nat
  lg_level :: nat
  lg_domain :: string
  lg_thread_id :: bool
  lg_timestamp :: bool
  lg_prefix :: bool

definition Logger :: "nat \<Rightarrow> ('c, 'u) logger" where
  "Logger mode = \<lparr>lg_callback = None, lg_user_data = None, lg_mode = mode, lg_level = Verbose, lg_domain = '''',
     lg_thread_id = False, lg_timestamp = True, lg_prefix = True\<rparr>"

definition DuplicateLogger :: "('c, 'u) logger \<Rightarrow> ('c, 'u) logger \<Rightarrow> ('c, 'u) logger \<Rightarrow> ('c, 'u) logger" where
  "DuplicateLogger s_logger other l = \<lparr>lg_callback = lg_callback s_logger, lg_user_data = lg_user_data other, lg_mode = lg_mode l,
     lg_level = lg_level other, lg_domain = lg_domain other, lg_thread_id = lg_thread_id other,
     lg_timestamp = lg_timestamp other, lg_prefix = lg_prefix other\<rparr>"

definition SetLogLevel :: "nat \<Rightarrow> ('c, 'u) logger \<Rightarrow> log_error option \<times> ('c, 'u) logger" where
  "SetLogLevel level l = (if level > Debug then (Some invalid_logging_level, l) else (None, l\<lparr>lg_level := level\<rparr>))"

definition SetModeLevel :: "nat \<Rightarrow> ('c, 'u) logger \<Rightarrow> log_error option \<times> ('c, 'u) logger" where
  "SetModeLevel mode l = (if mode > E2E then (Some invalid_mode_level, l) else (None, l\<lparr>lg_mode := mode\<rparr>))"

definition SetDomain :: "string \<Rightarrow> ('c, 'u) logger \<Rightarrow> ('c, 'u) logger" where
  "SetDomain domain l = l\<lparr>lg_domain := domain\<rparr>"

definition Set_callback :: "'c option \<Rightarrow> 'u option \<Rightarrow> ('c, 'u) logger \<Rightarrow> ('c, 'u) logger" where
  "Set_callback callback user_data l = l\<lparr>lg_user_data := user_data, lg_callback := callback\<rparr>"

text \<open>The callback is set before the level is checked.\<close>

definition Set_level :: "'c option \<Rightarrow> 'u option \<Rightarrow> nat \<Rightarrow> ('c, 'u) logger \<Rightarrow> log_error option \<times> ('c, 'u) logger" where
  "Set_level callback user_data level l = SetLogLevel level (Set_callback callback user_data l)"

definition SetEnableThreadId :: "bool \<Rightarrow> ('c, 'u) logger \<Rightarrow> ('c, 'u) logger" where
  "SetEnableThreadId enabled l = l\<lparr>lg_thread_id := enabled\<rparr>"

definition SetEnableTimestamp :: "bool \<Rightarrow> ('c, 'u) logger \<Rightarrow> ('c, 'u) logger" where
  "SetEnableTimestamp enabled l = l\<lparr>lg_timestamp := enabled\<rparr>"

definition SetEnablePrefix :: "bool \<Rightarrow> ('c, 'u) logger \<Rightarrow> ('c, 'u) logger" where
  "SetEnablePrefix enabled l = l\<lparr>lg_prefix := enabled\<rparr>"

definition SetStd :: "'c \<Rightarrow> ('c, 'u) logger \<Rightarrow> ('c, 'u) logger" where
  "SetStd StdWrite l = l\<lparr>lg_callback := Some StdWrite\<rparr>"

text \<open>The broken-down local time, printed with \<open>%b %d %T\<close> in the classic locale.\<close>

record tm =
  tm_mon :: nat
  tm_mday :: nat
  tm_hour :: nat
  tm_min :: nat
  tm_sec :: nat

definition tm_ok :: "tm \<Rightarrow> bool" where
  "tm_ok t \<longleftrightarrow> tm_mon t < 12 \<and> tm_mday t \<in> {1..31} \<and> tm_hour t < 24 \<and> tm_min t < 60 \<and> tm_sec t \<le> 60"

definition two_digits :: "nat \<Rightarrow> string" where
  "two_digits n = [char_of (48 + n div 10), char_of (48 + n mod 10)]"

definition months :: "string list" where
  "months = [''Jan'', ''Feb'', ''Mar'', ''Apr'', ''May'', ''Jun'', ''Jul'', ''Aug'', ''Sep'', ''Oct'', ''Nov'', ''Dec'']"

definition put_time :: "tm \<Rightarrow> string" where
  "put_time t = months ! tm_mon t @ '' '' @ two_digits (tm_mday t) @ '' '' @ two_digits (tm_hour t) @ '':''
     @ two_digits (tm_min t) @ '':'' @ two_digits (tm_sec t)"

definition NL :: char where "NL = CHR 0x0A"
definition CR :: char where "CR = CHR 0x0D"
definition NUL :: char where "NUL = CHR 0x00"

text \<open>Erase-remove of each symbol in turn.\<close>

definition RemoveEscapeSymbols :: "string \<Rightarrow> string" where
  "RemoveEscapeSymbols str = fold (\<lambda>symbol s. filter (\<lambda>c. c \<noteq> symbol) s) [NL, CR] str"

definition GetLogPrefix :: "nat \<Rightarrow> log_error + string" where
  "GetLogPrefix level =
     (if level = Error then Inr ''E'' else if level = Warning then Inr ''W'' else if level = Info then Inr ''I''
      else if level = Verbose then Inr ''V'' else if level = Debug then Inr ''D'' else if level = Silent then Inr ''S''
      else Inl assertion_failed)"

definition GetModePrefix :: string where
  "GetModePrefix = (if (1::nat) = E2E then ''E2E'' else ''  '')"

text \<open>A callback reads a C string: it ends at the first null character.\<close>

definition c_str :: "string \<Rightarrow> string" where
  "c_str s = takeWhile (\<lambda>c. c \<noteq> NUL) s"

definition bracketed :: "string \<Rightarrow> string" where
  "bracketed s = ''['' @ s @ ''] ''"

definition log_head :: "tm option \<Rightarrow> string \<Rightarrow> string \<Rightarrow> string \<Rightarrow> ('c, 'u) logger \<Rightarrow> string" where
  "log_head now tid tag domain l =
     (if lg_prefix l then bracketed tag else '''')
     @ (if domain \<noteq> '''' then bracketed domain else '''')
     @ (if lg_timestamp l then (case now of Some t \<Rightarrow> bracketed (put_time t) | None \<Rightarrow> '''') else '''')
     @ (if lg_thread_id l then bracketed tid else '''')"

definition Write_line :: "tm option \<Rightarrow> string \<Rightarrow> string \<Rightarrow> string \<Rightarrow> string \<Rightarrow> ('c, 'u) logger \<Rightarrow> ('c \<times> string \<times> 'u option) option" where
  "Write_line now tid tag domain message l =
     (case lg_callback l of
        None \<Rightarrow> None
      | Some callback \<Rightarrow>
          Some (callback, c_str (log_head now tid tag domain l @ RemoveEscapeSymbols message @ [NL]), lg_user_data l))"

definition WriteMode :: "tm option \<Rightarrow> string \<Rightarrow> nat \<Rightarrow> string \<Rightarrow> string \<Rightarrow> ('c, 'u) logger \<Rightarrow> ('c \<times> string \<times> 'u option) option" where
  "WriteMode now tid mode domain message l =
     (if lg_mode l \<noteq> E2E \<or> mode \<noteq> E2E then None
      else Write_line now tid GetModePrefix (if domain = '''' then lg_domain l else domain) message l)"

definition WriteLog ::
  "tm option \<Rightarrow> string \<Rightarrow> nat \<Rightarrow> string \<Rightarrow> string \<Rightarrow> ('c, 'u) logger \<Rightarrow> log_error + ('c \<times> string \<times> 'u option) option" where
  "WriteLog now tid level domain message l =
     (if lg_level l < level then Inr None
      else case GetLogPrefix level of
        Inl e \<Rightarrow> Inl e
      | Inr tag \<Rightarrow> Inr (Write_line now tid tag (if domain = '''' then lg_domain l else domain) message l))"

text \<open>A scope object writes a line when it is made and one when it is destroyed.\<close>

definition FunScope :: "tm option \<Rightarrow> string \<Rightarrow> string \<Rightarrow> ('c, 'u) logger \<Rightarrow> log_error + ('c \<times> string \<times> 'u option) option" where
  "FunScope now tid ctx s_logger = WriteLog now tid Verbose '''' (ctx @ '' started...'') s_logger"

definition FunScope_end :: "tm option \<Rightarrow> string \<Rightarrow> string \<Rightarrow> ('c, 'u) logger \<Rightarrow> log_error + ('c \<times> string \<times> 'u option) option" where
  "FunScope_end now tid ctx s_logger = WriteLog now tid Verbose '''' (ctx @ '' finished.'') s_logger"

text \<open>A program with its loggers: the calls it makes on them, each on one of them.\<close>

datatype ('c, 'u) log_setting =
    LC_Duplicate nat
  | LC_SetLogLevel nat
  | LC_SetModeLevel nat
  | LC_SetDomain string
  | LC_Set "'c option" "'u option"
  | LC_Set_level "'c option" "'u option" nat
  | LC_ThreadId bool
  | LC_Timestamp bool
  | LC_Prefix bool
  | LC_Std 'c

fun log_call :: "('c, 'u) logger list \<Rightarrow> ('c, 'u) log_setting \<Rightarrow> ('c, 'u) logger \<Rightarrow> log_error option \<times> ('c, 'u) logger" where
  "log_call ls (LC_Duplicate j) l = (None, if j < length ls then DuplicateLogger (ls ! 0) (ls ! j) l else l)"
| "log_call ls (LC_SetLogLevel level) l = SetLogLevel level l"
| "log_call ls (LC_SetModeLevel mode) l = SetModeLevel mode l"
| "log_call ls (LC_SetDomain domain) l = (None, SetDomain domain l)"
| "log_call ls (LC_Set callback user_data) l = (None, Set_callback callback user_data l)"
| "log_call ls (LC_Set_level callback user_data level) l = Set_level callback user_data level l"
| "log_call ls (LC_ThreadId enabled) l = (None, SetEnableThreadId enabled l)"
| "log_call ls (LC_Timestamp enabled) l = (None, SetEnableTimestamp enabled l)"
| "log_call ls (LC_Prefix enabled) l = (None, SetEnablePrefix enabled l)"
| "log_call ls (LC_Std StdWrite) l = (None, SetStd StdWrite l)"

definition log_step :: "nat \<times> ('c, 'u) log_setting \<Rightarrow> ('c, 'u) logger list \<Rightarrow> ('c, 'u) logger list" where
  "log_step ic ls = (if fst ic < length ls then ls[fst ic := snd (log_call ls (snd ic) (ls ! fst ic))] else ls)"

definition log_run :: "(nat \<times> ('c, 'u) log_setting) list \<Rightarrow> ('c, 'u) logger list \<Rightarrow> ('c, 'u) logger list" where
  "log_run ics ls = fold log_step ics ls"

lemmas setting_defs = DuplicateLogger_def SetLogLevel_def SetModeLevel_def SetDomain_def Set_callback_def Set_level_def
  SetEnableThreadId_def SetEnableTimestamp_def SetEnablePrefix_def SetStd_def

section \<open>Lemmas\<close>

lemma log_call_level:
  assumes "lg_level l \<le> Debug" "\<forall>k\<in>set ls. lg_level k \<le> Debug"
  shows "lg_level (snd (log_call ls c l)) \<le> Debug"
  using assms by (cases c) (auto simp: setting_defs)

lemma log_run_levels: "\<forall>k\<in>set ls. lg_level k \<le> Debug \<Longrightarrow> \<forall>k\<in>set (log_run ics ls). lg_level k \<le> Debug"
proof (induction ics arbitrary: ls)
  case (Cons ic ics)
  have "\<forall>k\<in>set (log_step ic ls). lg_level k \<le> Debug"
    using Cons.prems log_call_level [of "ls ! fst ic" ls "snd ic"]
    by (auto simp: log_step_def dest!: set_update_subset_insert [THEN subsetD])
  from Cons.IH [OF this] show ?case by (simp add: log_run_def)
qed (simp add: log_run_def)

lemma GetLogPrefix_ok: "level \<le> Debug \<Longrightarrow> \<exists>tag. GetLogPrefix level = Inr [tag] \<and> tag \<noteq> NL \<and> tag \<noteq> NUL"
  by (auto simp: GetLogPrefix_def level_defs NL_def NUL_def)

lemma RemoveEscapeSymbols_eq: "RemoveEscapeSymbols s = filter (\<lambda>c. c \<noteq> NL \<and> c \<noteq> CR) s"
  by (simp add: RemoveEscapeSymbols_def conj_commute)

lemma RemoveEscapeSymbols_idem: "RemoveEscapeSymbols (RemoveEscapeSymbols s) = RemoveEscapeSymbols s"
  by (simp add: RemoveEscapeSymbols_eq)

lemma c_str_id: "NUL \<notin> set s \<Longrightarrow> c_str s = s"
  unfolding c_str_def by (rule takeWhile_eq_all_conv [THEN iffD2]) blast

text \<open>A printed time has no line break.\<close>

lemma char_of_48: "n < 10 \<Longrightarrow> char_of (48 + n :: nat) \<noteq> NL \<and> char_of (48 + n :: nat) \<noteq> NUL"
  by (simp add: NL_def NUL_def char_of_eq_iff take_bit_eq_mod)

lemma two_digits_plain: "n < 100 \<Longrightarrow> NL \<notin> set (two_digits n) \<and> NUL \<notin> set (two_digits n)"
  using char_of_48 [of "n div 10"] char_of_48 [of "n mod 10"] by (auto simp: two_digits_def less_mult_imp_div_less)

lemma months_plain: "list_all (\<lambda>m. NL \<notin> set m \<and> NUL \<notin> set m \<and> length m = 3) months"
  by (simp add: months_def NL_def NUL_def)

lemma put_time_plain:
  assumes "tm_ok t"
  shows "NL \<notin> set (put_time t)" "NUL \<notin> set (put_time t)" "length (put_time t) = 15"
proof -
  have "length months = 12" by (simp add: months_def)
  then have m: "NL \<notin> set (months ! tm_mon t) \<and> NUL \<notin> set (months ! tm_mon t) \<and> length (months ! tm_mon t) = 3"
    using months_plain assms by (auto simp: list_all_length tm_ok_def)
  have d: "tm_mday t < 100" "tm_hour t < 100" "tm_min t < 100" "tm_sec t < 100" using assms by (auto simp: tm_ok_def)
  show "NL \<notin> set (put_time t)" "NUL \<notin> set (put_time t)" using m d [THEN two_digits_plain] by (auto simp: put_time_def NL_def NUL_def)
  show "length (put_time t) = 15" using m by (simp add: put_time_def two_digits_def)
qed

definition plain :: "string \<Rightarrow> bool" where
  "plain s \<longleftrightarrow> NL \<notin> set s \<and> NUL \<notin> set s"

lemma bracketed_plain: "plain s \<Longrightarrow> plain (bracketed s)"
  by (auto simp: plain_def bracketed_def NL_def NUL_def)

lemma plain_append [simp]: "plain (s @ t) \<longleftrightarrow> plain s \<and> plain t"
  by (auto simp: plain_def)

lemma plain_Nil [simp]: "plain []"
  by (simp add: plain_def)

lemma log_head_plain:
  assumes "plain tag" "plain domain" "plain tid" "\<And>t. now = Some t \<Longrightarrow> tm_ok t"
  shows "plain (log_head now tid tag domain l)"
proof -
  have "plain (bracketed (put_time t))" if "now = Some t" for t
    using put_time_plain [OF assms(4) [OF that]] by (intro bracketed_plain) (simp add: plain_def)
  then show ?thesis using assms(1-3) by (auto simp: log_head_def bracketed_plain split: option.splits)
qed

section \<open>Properties\<close>

text \<open>C39: Whatever calls a program makes on its loggers, every logger has one of the six levels, so
  the assertion of \<open>GetLogPrefix\<close> is never reached, whatever level a caller passes: a line is
  written or left out. A setter that throws leaves level and mode as they were.\<close>

theorem logger_levels_valid:
  assumes "log_run ics (map Logger modes) = ls" and "l \<in> set ls"
  shows "lg_level l \<le> Debug \<and> (\<exists>r. WriteLog now tid level domain message l = Inr r)
    \<and> (\<forall>e c l'. log_call ls c l = (Some e, l') \<longrightarrow> lg_level l' = lg_level l \<and> lg_mode l' = lg_mode l)"
proof -
  have "\<forall>k\<in>set (map Logger modes). lg_level k \<le> Debug" by (auto simp: Logger_def level_defs)
  from log_run_levels [OF this, of ics] assms have l: "lg_level l \<le> Debug" by auto
  have "\<exists>r. WriteLog now tid level domain message l = Inr r"
  proof (cases "level \<le> Debug")
    case True
    from GetLogPrefix_ok [OF this] show ?thesis by (auto simp: WriteLog_def)
  qed (use l in \<open>simp add: WriteLog_def\<close>)
  moreover have "lg_level l' = lg_level l \<and> lg_mode l' = lg_mode l" if "log_call ls c l = (Some e, l')" for e c l'
    using that by (cases c) (auto simp: setting_defs split: if_splits)
  ultimately show ?thesis using l by blast
qed

theorem logger_levels_valid_witness:
  "list_all (\<lambda>l. lg_level l \<le> Debug)
     (log_run [(0, LC_Set_level (Some True) (Some ()) 7), (1, LC_Duplicate 0), (1, LC_SetLogLevel Debug)] (map Logger [3, 0]))"
  unfolding list_all_iff using logger_levels_valid [OF refl] by blast

text \<open>A message is handed to the callback exactly when a callback is set and the level is not
  above the one configured. It is then one line: the header, the message without its line
  breaks, and a line break at the end and nowhere else, provided the domain has no line break
  and no null character and the message no null character.\<close>

theorem log_line:
  assumes level: "level \<le> Debug" and now: "\<And>t. now = Some t \<Longrightarrow> tm_ok t"
    and plain: "plain tid" "plain domain" "plain (lg_domain l)" "NUL \<notin> set message"
  shows "case WriteLog now tid level domain message l of
      Inl e \<Rightarrow> False
    | Inr None \<Rightarrow> lg_callback l = None \<or> lg_level l < level
    | Inr (Some (callback, line, user)) \<Rightarrow> lg_callback l = Some callback \<and> user = lg_user_data l \<and> level \<le> lg_level l
        \<and> (\<exists>head. line = head @ filter (\<lambda>c. c \<noteq> NL \<and> c \<noteq> CR) message @ [NL] \<and> NL \<notin> set (butlast line))"
proof -
  obtain tag where tag: "GetLogPrefix level = Inr [tag]" "plain [tag]"
    using GetLogPrefix_ok [OF level] by (auto simp: plain_def)
  let ?head = "log_head now tid [tag] (if domain = '''' then lg_domain l else domain) l"
  let ?line = "?head @ RemoveEscapeSymbols message @ [NL]"
  have head: "plain ?head" by (rule log_head_plain) (use tag plain now in auto)
  have "NUL \<notin> set ?line" using head plain(4) by (auto simp: plain_def RemoveEscapeSymbols_eq NL_def NUL_def)
  then have "c_str ?line = ?line" by (rule c_str_id)
  moreover have "NL \<notin> set (butlast ?line)" using head by (auto simp: plain_def RemoveEscapeSymbols_eq butlast_append)
  ultimately show ?thesis using tag
    by (auto simp: WriteLog_def Write_line_def RemoveEscapeSymbols_eq split: option.splits)
qed

theorem log_line_witness:
  "WriteLog (Some \<lparr>tm_mon = 1, tm_mday = 3, tm_hour = 4, tm_min = 5, tm_sec = 6\<rparr>) ''9'' Error '''' (''a'' @ [NL] @ ''b'')
     (snd (Set_level (Some True) (Some ()) Error (SetDomain ''net'' (Logger 0))))
   = Inr (Some (True, ''[E] [net] [Feb 03 04:05:06] ab'' @ [NL], Some ()))"
  using log_line [of Error "Some \<lparr>tm_mon = 1, tm_mday = 3, tm_hour = 4, tm_min = 5, tm_sec = 6\<rparr>" "''9''" "''''"
      "snd (Set_level (Some True) (Some ()) Error (SetDomain ''net'' (Logger 0)))" "''a'' @ [NL] @ ''b''"]
  by (simp add: WriteLog_def Write_line_def GetLogPrefix_def Set_level_def Set_callback_def SetLogLevel_def SetDomain_def Logger_def
      level_defs RemoveEscapeSymbols_eq log_head_def bracketed_def put_time_def months_def two_digits_def c_str_def NL_def CR_def NUL_def
      char_of_def bit_0)

text \<open>Taking over the settings of another logger does not take over its callback: the copy writes
  to the callback of \<open>s_logger\<close>, with the other's user data, and keeps its own mode.\<close>

lemma duplicate_takes_global_callback:
  "WriteLog now tid level domain message (DuplicateLogger s_logger other l)
     = WriteLog now tid level domain message (other\<lparr>lg_callback := lg_callback s_logger\<rparr>)
   \<and> WriteMode now tid mode domain message (DuplicateLogger s_logger other l)
     = WriteMode now tid mode domain message (other\<lparr>lg_callback := lg_callback s_logger, lg_mode := lg_mode l\<rparr>)"
  by (cases other) (auto simp: WriteLog_def WriteMode_def Write_line_def DuplicateLogger_def log_head_def split: sum.splits option.splits)

end
