(* ===== verification/Profiling.thy ===== *)
theory Profiling
  imports Work_Steal_Queue
begin

text \<open>
  \<open>src/profiler.cpp\<close> and \<open>include/ar/profiler.hpp\<close>: events are added to a work-stealing queue and
  a periodic update takes them out and applies them to the profile, under its lock. The
  reading of the clock at an event is an argument. The server that publishes the profile, its
  encoding and the ticker's coroutine are not modelled, nor are simultaneous additions: the
  queue has one owner, and the model adds one event at a time.
\<close>

section \<open>Definitions\<close>

datatype EventType = WORK_TIME_STEP | NEW_COROUTINE | DELETE_COROUTINE | NEW_THREAD | DELETE_THREAD | REG_ASYNC_FUNCTION

record WorkStep =
  st_thread :: nat
  st_begin :: int
  st_end :: int

record Work =
  wk_id :: nat
  wk_name :: string
  wk_work_time :: "WorkStep list"
  wk_begin_at :: int
  wk_updated_at :: int

record profile =
  pf_app_info :: string
  pf_system_info :: string
  pf_profiling_interval :: int
  pf_coroutines_count :: int
  pf_created_at :: int
  pf_work_ground :: "nat \<rightharpoonup> Work"
  pf_threads :: "nat list"

record Event =
  ev_id :: nat
  ev_type :: EventType
  ev_thread :: nat
  ev_begin_ts :: int
  ev_end_ts :: int

record Profiler =
  pr_state :: profile
  pr_events :: "Event WorkStealQueue"

definition no_event :: Event where
  "no_event = \<lparr>ev_id = 0, ev_type = WORK_TIME_STEP, ev_thread = 0, ev_begin_ts = 0, ev_end_ts = 0\<rparr>"

definition NO_TS :: int where
  "NO_TS = -1"

text \<open>The state: five minutes in microseconds.\<close>

definition new_Profiler :: "string \<Rightarrow> ar_error + Profiler" where
  "new_Profiler cpu_info =
     (case new_WorkStealQueue no_event 2048 of
        Inl e \<Rightarrow> Inl e
      | Inr events \<Rightarrow> Inr \<lparr>pr_state = \<lparr>pf_app_info = '''', pf_system_info = ''CPU: '' @ cpu_info, pf_profiling_interval = 300000000,
          pf_coroutines_count = 0, pf_created_at = 0, pf_work_ground = Map.empty, pf_threads = []\<rparr>, pr_events = events\<rparr>)"

definition SetAppInfo :: "string list \<Rightarrow> Profiler \<Rightarrow> Profiler" where
  "SetAppInfo argv p = p\<lparr>pr_state := (pr_state p)\<lparr>pf_app_info := concat (map (\<lambda>a. a @ '' '') argv)\<rparr>\<rparr>"

definition SetProfilingInterval :: "int \<Rightarrow> Profiler \<Rightarrow> Profiler" where
  "SetProfilingInterval micros p = p\<lparr>pr_state := (pr_state p)\<lparr>pf_profiling_interval := micros\<rparr>\<rparr>"

definition Profiler_Start :: "int \<Rightarrow> Profiler \<Rightarrow> Profiler" where
  "Profiler_Start now p = p\<lparr>pr_state := (pr_state p)\<lparr>pf_created_at := now\<rparr>\<rparr>"

text \<open>Insertion into the map leaves a function that is registered as it is.\<close>

definition RegAsyncFunction :: "int \<Rightarrow> nat \<Rightarrow> string \<Rightarrow> Profiler \<Rightarrow> Profiler" where
  "RegAsyncFunction now i name p =
     (if pf_work_ground (pr_state p) i \<noteq> None then p
      else p\<lparr>pr_state := (pr_state p)\<lparr>pf_work_ground := (pf_work_ground (pr_state p))(i \<mapsto>
        \<lparr>wk_id = i, wk_name = name, wk_work_time = [], wk_begin_at = now, wk_updated_at = -1\<rparr>)\<rparr>\<rparr>)"

definition AddEvent_span :: "nat \<Rightarrow> nat \<Rightarrow> EventType \<Rightarrow> int \<Rightarrow> int \<Rightarrow> Profiler \<Rightarrow> Profiler" where
  "AddEvent_span thread i type begin_ts end_ts p =
     p\<lparr>pr_events := wsq_push no_event \<lparr>ev_id = i, ev_type = type, ev_thread = thread, ev_begin_ts = begin_ts, ev_end_ts = end_ts\<rparr> (pr_events p)\<rparr>"

definition AddEvent :: "int \<Rightarrow> nat \<Rightarrow> nat \<Rightarrow> EventType \<Rightarrow> Profiler \<Rightarrow> Profiler" where
  "AddEvent now thread i type p = AddEvent_span thread i type now NO_TS p"

definition WorkTimeEstimator_end :: "int \<Rightarrow> nat \<Rightarrow> nat \<Rightarrow> int \<Rightarrow> Profiler \<Rightarrow> Profiler" where
  "WorkTimeEstimator_end now thread work_id begin_ts p =
     (if work_id > 0 then AddEvent_span thread work_id WORK_TIME_STEP begin_ts now p else p)"

text \<open>The loop that drops the oldest steps.\<close>

fun trim :: "int \<Rightarrow> int \<Rightarrow> int \<Rightarrow> WorkStep list \<Rightarrow> int \<times> WorkStep list" where
  "trim interval updated_at begin_at [] = (begin_at, [])"
| "trim interval updated_at begin_at (s # ss) =
     (if updated_at - begin_at > interval
      then trim interval updated_at (case ss of [] \<Rightarrow> begin_at | t # _ \<Rightarrow> st_begin t) ss
      else (begin_at, s # ss))"

definition work_step :: "int \<Rightarrow> int \<Rightarrow> Event \<Rightarrow> Work \<Rightarrow> Work" where
  "work_step now interval e w =
     (let steps = wk_work_time w @ [\<lparr>st_thread = ev_thread e, st_begin = ev_begin_ts e, st_end = ev_end_ts e\<rparr>];
          begin_at = (if wk_begin_at w \<le> -1 then ev_begin_ts e else wk_begin_at w);
          (begin_at, steps) = (if now > 0 \<and> begin_at > 0 then trim interval now begin_at steps else (begin_at, steps)) in
      w\<lparr>wk_work_time := steps, wk_begin_at := begin_at, wk_updated_at := now\<rparr>)"

definition apply_event :: "int \<times> Event \<Rightarrow> profile \<Rightarrow> profile" where
  "apply_event ne st =
     (let (now, e) = ne in
      case ev_type e of
        WORK_TIME_STEP \<Rightarrow>
          (case pf_work_ground st (ev_id e) of
             None \<Rightarrow> st
           | Some w \<Rightarrow> st\<lparr>pf_work_ground := (pf_work_ground st)(ev_id e \<mapsto> work_step now (pf_profiling_interval st) e w)\<rparr>)
      | NEW_COROUTINE \<Rightarrow> st\<lparr>pf_coroutines_count := pf_coroutines_count st + 1\<rparr>
      | DELETE_COROUTINE \<Rightarrow> st\<lparr>pf_coroutines_count := (if pf_coroutines_count st - 1 < 0 then 0 else pf_coroutines_count st - 1)\<rparr>
      | NEW_THREAD \<Rightarrow> st\<lparr>pf_threads := pf_threads st @ [ev_thread e]\<rparr>
      | DELETE_THREAD \<Rightarrow> st\<lparr>pf_threads := removeAll (ev_thread e) (pf_threads st)\<rparr>
      | REG_ASYNC_FUNCTION \<Rightarrow> st)"

primrec take_events :: "nat \<Rightarrow> Event WorkStealQueue \<Rightarrow> Event list \<times> Event WorkStealQueue" where
  "take_events 0 q = ([], q)"
| "take_events (Suc n) q =
     (case wsq_steal q of
        (Some e, q) \<Rightarrow> (case take_events n q of (es, q) \<Rightarrow> (e # es, q))
      | (None, q) \<Rightarrow> take_events n q)"

definition Profiler_Update :: "(nat \<Rightarrow> int) \<Rightarrow> Profiler \<Rightarrow> Profiler" where
  "Profiler_Update clock p =
     (let (new_events, q) = take_events (wsq_size (pr_events p)) (pr_events p);
          new_events = rev new_events in
      \<lparr>pr_state = fold apply_event (zip (map clock [0..<length new_events]) new_events) (pr_state p), pr_events = q\<rparr>)"

definition GetCurrentState :: "Profiler \<Rightarrow> profile" where
  "GetCurrentState p = pr_state p"

section \<open>Events\<close>

lemma take_events_items:
  "wsq_inv q \<Longrightarrow> \<exists>q'. take_events n q = (take n (wsq_items q), q') \<and> wsq_inv q' \<and> wsq_items q' = drop n (wsq_items q)"
proof (induction n arbitrary: q)
  case (Suc n)
  obtain r q1 where s: "wsq_steal q = (r, q1)" by fastforce
  show ?case
  proof (cases "wsq_items q")
    case Nil
    then show ?thesis using wsq_steal_facts [OF Suc.prems] s Suc.IH [of q1] by auto
  next
    case (Cons e es)
    then show ?thesis using wsq_steal_facts [OF Suc.prems] s Suc.IH [of q1] by auto
  qed
qed simp

definition add_events :: "Event list \<Rightarrow> Profiler \<Rightarrow> Profiler" where
  "add_events es p = fold (\<lambda>e. AddEvent_span (ev_thread e) (ev_id e) (ev_type e) (ev_begin_ts e) (ev_end_ts e)) es p"

lemma add_events_items:
  "wsq_inv (pr_events p) \<Longrightarrow> wsq_inv (pr_events (add_events es p)) \<and> wsq_items (pr_events (add_events es p)) = wsq_items (pr_events p) @ es
     \<and> pr_state (add_events es p) = pr_state p"
proof (induction es arbitrary: p)
  case (Cons e es)
  let ?p = "AddEvent_span (ev_thread e) (ev_id e) (ev_type e) (ev_begin_ts e) (ev_end_ts e) p"
  have "wsq_inv (pr_events ?p)" "wsq_items (pr_events ?p) = wsq_items (pr_events p) @ [e]" "pr_state ?p = pr_state p"
    using wsq_push_facts [OF Cons.prems] by (simp_all add: AddEvent_span_def)
  with Cons.IH [of ?p] show ?case by (simp add: add_events_def)
qed (simp add: add_events_def)

lemma wsq_size_items: "wsq_size q = length (wsq_items q)"
  by (simp add: wsq_size_def wsq_items_def Let_def)

lemma apply_event_count: "0 \<le> pf_coroutines_count st \<Longrightarrow> 0 \<le> pf_coroutines_count (apply_event ne st)"
  by (auto simp: apply_event_def split: prod.splits EventType.splits option.splits)

lemma apply_events_count: "0 \<le> pf_coroutines_count st \<Longrightarrow> 0 \<le> pf_coroutines_count (fold apply_event nes st)"
  by (induction nes arbitrary: st) (simp_all add: apply_event_count)

section \<open>Properties\<close>

text \<open>An update applies every event added since the last one, once, but the latest first, and the number
  of coroutines is never negative. A coroutine or a thread that is created and
  deleted between two updates is counted for ever: its deletion is applied before its creation.\<close>

theorem profiler_update:
  assumes new: "new_Profiler cpu = Inr p"
  shows "pr_state (Profiler_Update clock (add_events es p))
      = fold apply_event (zip (map clock [0..<length es]) (rev es)) (pr_state p)
    \<and> wsq_items (pr_events (Profiler_Update clock (add_events es p))) = []
    \<and> 0 \<le> pf_coroutines_count (pr_state (Profiler_Update clock (add_events es p)))
    \<and> (map ev_type es = [NEW_COROUTINE, DELETE_COROUTINE] \<longrightarrow>
        pf_coroutines_count (pr_state (Profiler_Update clock (add_events es p))) = 1)
    \<and> (map ev_type es = [NEW_THREAD, DELETE_THREAD] \<longrightarrow>
        pf_threads (pr_state (Profiler_Update clock (add_events es p))) = [ev_thread (hd es)])"
proof -
  obtain q where q: "new_WorkStealQueue no_event 2048 = Inr q" "pr_events p = q" "pf_coroutines_count (pr_state p) = 0"
    "pf_threads (pr_state p) = []"
    using new by (auto simp: new_Profiler_def split: sum.splits)
  from new_WorkStealQueue_inv [OF q(1)] q(2) have "wsq_inv (pr_events p)" "wsq_items (pr_events p) = []" by auto
  with add_events_items [of p es] have e: "wsq_inv (pr_events (add_events es p))" "wsq_items (pr_events (add_events es p)) = es"
    "pr_state (add_events es p) = pr_state p" by simp_all
  obtain q' where q': "take_events (length es) (pr_events (add_events es p)) = (es, q')" "wsq_items q' = []"
    using take_events_items [OF e(1), of "length es"] e(2) by auto
  then have u: "Profiler_Update clock (add_events es p)
      = \<lparr>pr_state = fold apply_event (zip (map clock [0..<length es]) (rev es)) (pr_state p), pr_events = q'\<rparr>"
    using e by (simp add: Profiler_Update_def wsq_size_items)
  have two: "\<exists>a b. es = [a, b] \<and> ev_type a = t \<and> ev_type b = u" if "map ev_type es = [t, u]" for t u
    using that by (auto simp: map_eq_Cons_conv)
  have "pf_coroutines_count (pr_state (Profiler_Update clock (add_events es p))) = 1"
    if "map ev_type es = [NEW_COROUTINE, DELETE_COROUTINE]"
  proof -
    from two [OF that] obtain a b where ab: "es = [a, b]" "ev_type a = NEW_COROUTINE" "ev_type b = DELETE_COROUTINE" by blast
    then show ?thesis unfolding u using q(3) by (simp add: apply_event_def)
  qed
  moreover have "pf_threads (pr_state (Profiler_Update clock (add_events es p))) = [ev_thread (hd es)]"
    if "map ev_type es = [NEW_THREAD, DELETE_THREAD]"
  proof -
    from two [OF that] obtain a b where ab: "es = [a, b]" "ev_type a = NEW_THREAD" "ev_type b = DELETE_THREAD" by blast
    then show ?thesis unfolding u using q(4) by (simp add: apply_event_def)
  qed
  ultimately show ?thesis using u q(3) q'(2) apply_events_count [of "pr_state p"] by simp
qed

theorem profiler_update_witness:
  "\<exists>p. new_Profiler ''x'' = Inr p \<and> pf_coroutines_count (pr_state (Profiler_Update (\<lambda>_. 5)
     (add_events [no_event\<lparr>ev_type := NEW_COROUTINE\<rparr>, no_event\<lparr>ev_type := DELETE_COROUTINE\<rparr>] p))) = 1"
proof -
  obtain p where p: "new_Profiler ''x'' = Inr p" by (auto simp: new_Profiler_def new_WorkStealQueue_def)
  from profiler_update [OF p, of "\<lambda>_. 5" "[no_event\<lparr>ev_type := NEW_COROUTINE\<rparr>, no_event\<lparr>ev_type := DELETE_COROUTINE\<rparr>]"] p
  show ?thesis by auto
qed

text \<open>A function without steps whose time began longer ago than the interval loses every step at once.\<close>

lemma work_step_lost:
  assumes "wk_work_time w = []" "0 < wk_begin_at w" "interval < now - wk_begin_at w" "0 < now"
  shows "wk_work_time (work_step now interval e w) = [] \<and> wk_begin_at (work_step now interval e w) = wk_begin_at w"
  using assms by (simp add: work_step_def)

lemma apply_events_lost:
  "pf_work_ground st i = Some w \<Longrightarrow> wk_work_time w = [] \<Longrightarrow> 0 < wk_begin_at w \<Longrightarrow>
   \<forall>(now, e)\<in>set nes. 0 < now \<and> pf_profiling_interval st < now - wk_begin_at w \<Longrightarrow>
   \<exists>w'. pf_work_ground (fold apply_event nes st) i = Some w' \<and> wk_work_time w' = []"
proof (induction nes arbitrary: st w)
  case (Cons ne nes)
  obtain now e where ne: "ne = (now, e)" by fastforce
  have "\<exists>w'. pf_work_ground (apply_event ne st) i = Some w' \<and> wk_work_time w' = [] \<and> wk_begin_at w' = wk_begin_at w"
    using work_step_lost [OF Cons.prems(2,3), of "pf_profiling_interval st" now e] Cons.prems(1,2,4) ne
    by (auto simp: apply_event_def split: EventType.splits option.splits)
  moreover have "pf_profiling_interval (apply_event ne st) = pf_profiling_interval st"
    by (auto simp: apply_event_def split: prod.splits EventType.splits option.splits)
  ultimately show ?case using Cons.IH [of "apply_event ne st"] Cons.prems(3,4) by fastforce
qed simp

text \<open>A function whose first step is recorded later than the profiling interval after its
  registration is never profiled: the step is dropped, the beginning stays at the registration, and
  every later step is dropped as well.\<close>

theorem profiler_late_function:
  assumes reg: "RegAsyncFunction t0 i name p = p'" "pf_work_ground (pr_state p) i = None" "0 < t0" "0 \<le> pf_profiling_interval (pr_state p)"
    and late: "\<forall>(now, e)\<in>set nes. pf_profiling_interval (pr_state p) < now - t0"
  shows "\<exists>w. pf_work_ground (fold apply_event nes (pr_state p')) i = Some w \<and> wk_work_time w = []"
proof -
  let ?w = "\<lparr>wk_id = i, wk_name = name, wk_work_time = [], wk_begin_at = t0, wk_updated_at = -1\<rparr>"
  have "pr_state p' = (pr_state p)\<lparr>pf_work_ground := (pf_work_ground (pr_state p))(i \<mapsto> ?w)\<rparr>"
    using reg(1,2) by (auto simp: RegAsyncFunction_def)
  then show ?thesis using apply_events_lost [of "pr_state p'" i ?w nes] late reg(3,4) by fastforce
qed

theorem profiler_late_function_witness:
  "\<exists>p w. new_Profiler ''x'' = Inr p \<and> pf_work_ground (apply_event (300000007, no_event\<lparr>ev_id := 3, ev_begin_ts := 300000006\<rparr>)
      (pr_state (RegAsyncFunction 6 3 ''f'' p))) 3 = Some w \<and> wk_work_time w = []"
proof -
  obtain p where p: "new_Profiler ''x'' = Inr p" by (auto simp: new_Profiler_def new_WorkStealQueue_def)
  then have "pf_work_ground (pr_state p) 3 = None" "pf_profiling_interval (pr_state p) = 300000000"
    by (auto simp: new_Profiler_def new_WorkStealQueue_def)
  with p profiler_late_function [OF refl, of p 3 6 "[(300000007, no_event\<lparr>ev_id := 3, ev_begin_ts := 300000006\<rparr>)]" "''f''"]
  show ?thesis by auto
qed

text \<open>Trimming keeps the latest steps.\<close>

lemma trim_suffix: "trim interval u b ss = (b', ss') \<Longrightarrow> \<exists>pre. ss = pre @ ss'"
proof (induction interval u b ss rule: trim.induct)
  case (2 interval u b s ss)
  then show ?case by (cases "interval < u - b") (auto intro: exI [of _ "s # _"] simp: Cons_eq_append_conv)
qed simp

end
