(* ===== verification/Task_Queue.thy ===== *)
theory Task_Queue
  imports Work_Steal_Queue
begin

text \<open>
  \<open>include/ar/task_queue.hpp\<close>: the work-stealing queue of task pointers with one lane
  per priority, the queue of the executor's workers. A pointer is an \<open>option\<close> where
  \<open>None\<close> is \<open>nullptr\<close>. The four arrays \<open>_top\<close>, \<open>_bottom\<close>, \<open>_array\<close> and
  \<open>_garbage\<close>, indexed by priority, are lists of length \<open>TF_MAX_PRIORITY\<close>. The calls
  are those of one thread at a time; theory \<open>Chase_Lev\<close> has the interleavings of the same
  algorithm.
\<close>

section \<open>Definitions\<close>

datatype TaskPriority = TP_HIGH | TP_NORMAL | TP_LOW | TP_MAX

fun priority_value :: "TaskPriority \<Rightarrow> nat" where
  "priority_value TP_HIGH = 0"
| "priority_value TP_NORMAL = 1"
| "priority_value TP_LOW = 2"
| "priority_value TP_MAX = 3"

record 'a tq_Array =
  tqa_C :: int
  tqa_M :: int
  tqa_S :: "'a option list"

definition new_tq_Array :: "'a option \<Rightarrow> int \<Rightarrow> 'a tq_Array" where
  "new_tq_Array ini c = \<lparr>tqa_C = c, tqa_M = c - 1, tqa_S = replicate (nat c) ini\<rparr>"

definition tqa_push :: "'a tq_Array \<Rightarrow> int \<Rightarrow> 'a option \<Rightarrow> 'a tq_Array" where
  "tqa_push a i v = a\<lparr>tqa_S := (tqa_S a)[nat (i AND tqa_M a) := v]\<rparr>"

definition tqa_pop :: "'a tq_Array \<Rightarrow> int \<Rightarrow> 'a option" where
  "tqa_pop a i = tqa_S a ! nat (i AND tqa_M a)"

definition tqa_resize :: "'a option \<Rightarrow> 'a tq_Array \<Rightarrow> int \<Rightarrow> int \<Rightarrow> 'a tq_Array" where
  "tqa_resize ini a b t =
     fold (\<lambda>i ptr. tqa_push ptr i (tqa_pop a i)) [t..b - 1] (new_tq_Array ini (2 * tqa_C a))"

record 'a TaskQueue =
  tq_top :: "int list"
  tq_bottom :: "int list"
  tq_array :: "'a tq_Array list"
  tq_garbage :: "'a tq_Array list list"

definition new_TaskQueue :: "'a option \<Rightarrow> nat \<Rightarrow> int \<Rightarrow> ar_error + 'a TaskQueue" where
  "new_TaskQueue ini TF_MAX_PRIORITY c =
     (if \<not> (c \<noteq> 0 \<and> c AND (c - 1) = 0) then Inl assertion_failed
      else Inr \<lparr>tq_top = replicate TF_MAX_PRIORITY 0, tq_bottom = replicate TF_MAX_PRIORITY 0,
                tq_array = replicate TF_MAX_PRIORITY (new_tq_Array ini c),
                tq_garbage = replicate TF_MAX_PRIORITY []\<rparr>)"

abbreviation tq_lanes :: "'a TaskQueue \<Rightarrow> nat" where
  "tq_lanes q \<equiv> length (tq_top q)"

definition tq_empty_at :: "'a TaskQueue \<Rightarrow> nat \<Rightarrow> bool" where
  "tq_empty_at q p = (let b = tq_bottom q ! p; t = tq_top q ! p in b \<le> t)"

definition tq_empty :: "'a TaskQueue \<Rightarrow> bool" where
  "tq_empty q = list_all (tq_empty_at q) [0..<tq_lanes q]"

definition tq_size_at :: "'a TaskQueue \<Rightarrow> nat \<Rightarrow> nat" where
  "tq_size_at q p =
     (let b = tq_bottom q ! p; t = tq_top q ! p in nat (if b \<ge> t then b - t else 0))"

definition tq_size :: "'a TaskQueue \<Rightarrow> nat" where
  "tq_size q = fold (\<lambda>i s. if i \<noteq> 0 then tq_size_at q i + s else tq_size_at q i) [0..<tq_lanes q] 0"

definition tq_capacity_at :: "'a TaskQueue \<Rightarrow> nat \<Rightarrow> int" where
  "tq_capacity_at q p = tqa_C (tq_array q ! p)"

definition tq_capacity :: "'a TaskQueue \<Rightarrow> int" where
  "tq_capacity q =
     fold (\<lambda>i s. if i \<noteq> 0 then tq_capacity_at q i + s else tq_capacity_at q i) [0..<tq_lanes q] 0"

definition resize_array :: "'a option \<Rightarrow> 'a TaskQueue \<Rightarrow> nat \<Rightarrow> int \<Rightarrow> int \<Rightarrow> 'a TaskQueue" where
  "resize_array ini q p b t =
     (let a = tq_array q ! p; tmp = tqa_resize ini a b t in
      q\<lparr>tq_garbage := (tq_garbage q)[p := tq_garbage q ! p @ [a]],
        tq_array := (tq_array q)[p := tmp]\<rparr>)"

definition tq_push :: "'a option \<Rightarrow> 'a option \<Rightarrow> nat \<Rightarrow> 'a TaskQueue \<Rightarrow> 'a TaskQueue" where
  "tq_push ini x p q =
     (let b = tq_bottom q ! p; t = tq_top q ! p; a = tq_array q ! p;
          q1 = (if tqa_C a - 1 < b - t then resize_array ini q p b t else q) in
      q1\<lparr>tq_array := (tq_array q1)[p := tqa_push (tq_array q1 ! p) b x],
         tq_bottom := (tq_bottom q1)[p := b + 1]\<rparr>)"

definition tq_pop_at :: "nat \<Rightarrow> 'a TaskQueue \<Rightarrow> 'a option \<times> 'a TaskQueue" where
  "tq_pop_at p q =
     (let b = tq_bottom q ! p - 1; a = tq_array q ! p;
          q1 = q\<lparr>tq_bottom := (tq_bottom q)[p := b]\<rparr>; t = tq_top q1 ! p in
      if t \<le> b then
        let item = tqa_pop a b in
        if t = b then
          if tq_top q1 ! p = t
          then (item, q1\<lparr>tq_top := (tq_top q1)[p := t + 1], tq_bottom := (tq_bottom q1)[p := b + 1]\<rparr>)
          else (None, q1\<lparr>tq_bottom := (tq_bottom q1)[p := b + 1]\<rparr>)
        else (item, q1)
      else (None, q1\<lparr>tq_bottom := (tq_bottom q1)[p := b + 1]\<rparr>))"

definition tq_steal_at :: "nat \<Rightarrow> 'a TaskQueue \<Rightarrow> 'a option \<times> 'a TaskQueue" where
  "tq_steal_at p q =
     (let t = tq_top q ! p; b = tq_bottom q ! p in
      if t < b then
        let item = tqa_pop (tq_array q ! p) t in
        if tq_top q ! p = t then (item, q\<lparr>tq_top := (tq_top q)[p := t + 1]\<rparr>) else (None, q)
      else (None, q))"

text \<open>The loops of \<open>pop()\<close> and \<open>steal()\<close> over the priorities from \<open>i\<close> on.\<close>

fun first_lane ::
  "(nat \<Rightarrow> 'a TaskQueue \<Rightarrow> 'a option \<times> 'a TaskQueue) \<Rightarrow> nat list \<Rightarrow> 'a TaskQueue
    \<Rightarrow> 'a option \<times> 'a TaskQueue" where
  "first_lane f [] q = (None, q)"
| "first_lane f (i # is) q =
     (case f i q of (Some t, q1) \<Rightarrow> (Some t, q1) | (None, q1) \<Rightarrow> first_lane f is q1)"

definition tq_pop :: "'a TaskQueue \<Rightarrow> 'a option \<times> 'a TaskQueue" where
  "tq_pop q = first_lane tq_pop_at [0..<tq_lanes q] q"

definition tq_steal :: "'a TaskQueue \<Rightarrow> 'a option \<times> 'a TaskQueue" where
  "tq_steal q = first_lane tq_steal_at [0..<tq_lanes q] q"

section \<open>The lanes are deques\<close>

definition tqa_wf :: "'a tq_Array \<Rightarrow> bool" where
  "tqa_wf a \<longleftrightarrow>
     (\<exists>k. tqa_C a = 2 ^ k) \<and> tqa_M a = tqa_C a - 1 \<and> length (tqa_S a) = nat (tqa_C a)"

interpretation tqa: ring_array "new_tq_Array ini" tqa_C tqa_push tqa_pop tqa_wf for ini
proof unfold_locales
  fix a :: "'a tq_Array" and i j :: int and v :: "'a option"
  assume "tqa_wf a"
  then obtain k where k: "tqa_C a = 2 ^ k" "tqa_M a = 2 ^ k - 1" "length (tqa_S a) = 2 ^ k"
    by (auto simp: tqa_wf_def nat_power_eq)
  have "nat (i mod 2 ^ k) < 2 ^ k" by (simp add: nat_less_iff)
  moreover have "nat (i mod 2 ^ k) = nat (j mod 2 ^ k) \<longleftrightarrow> i mod 2 ^ k = j mod 2 ^ k"
    by (simp add: nat_eq_iff)
  ultimately show "tqa_pop (tqa_push a i v) j
      = (if i mod tqa_C a = j mod tqa_C a then v else tqa_pop a j)"
    by (simp add: tqa_pop_def tqa_push_def k and_mask_mod)
qed (auto simp: tqa_wf_def new_tq_Array_def tqa_push_def)

lemma tqa_resize_facts:
  assumes "tqa_wf a" "b - t \<le> tqa_C a"
  shows "tqa_wf (tqa_resize ini a b t)" and "tqa_C (tqa_resize ini a b t) = 2 * tqa_C a"
    and "t \<le> j \<Longrightarrow> j < b \<Longrightarrow> tqa_pop (tqa_resize ini a b t) j = tqa_pop a j"
proof -
  obtain k where k: "tqa_C a = 2 ^ k" using assms by (auto simp: tqa_wf_def)
  have wf: "tqa_wf (new_tq_Array ini (2 * tqa_C a))"
    using tqa.wf_new [of ini "Suc k"] k by simp
  show "tqa_wf (tqa_resize ini a b t)"
    unfolding tqa_resize_def by (rule tqa.wf_copy [OF wf])
  show "tqa_C (tqa_resize ini a b t) = 2 * tqa_C a"
    unfolding tqa_resize_def tqa.cap_copy tqa.cap_new ..
  show "t \<le> j \<Longrightarrow> j < b \<Longrightarrow> tqa_pop (tqa_resize ini a b t) j = tqa_pop a j"
    unfolding tqa_resize_def using assms(2) k
    by (intro tqa.ld_copy [OF wf]) (auto simp: tqa.cap_new)
qed

text \<open>
  One lane as a triple of its top, its bottom and its array, the pointers in it, and the
  invariant: the pointers in it are not null.
\<close>

definition lane_ok :: "int \<Rightarrow> int \<Rightarrow> 'a tq_Array \<Rightarrow> bool" where
  "lane_ok t b a \<longleftrightarrow> tqa_wf a \<and> 0 \<le> t \<and> t \<le> b \<and> b - t \<le> tqa_C a
     \<and> (\<forall>i\<in>{t..<b}. tqa_pop a i \<noteq> None)"

definition lane_items :: "int \<Rightarrow> int \<Rightarrow> 'a tq_Array \<Rightarrow> 'a list" where
  "lane_items t b a = map (\<lambda>i. the (tqa_pop a i)) [t..b - 1]"

definition tq_inv :: "'a TaskQueue \<Rightarrow> bool" where
  "tq_inv q \<longleftrightarrow>
     length (tq_bottom q) = tq_lanes q \<and> length (tq_array q) = tq_lanes q
     \<and> length (tq_garbage q) = tq_lanes q
     \<and> (\<forall>p<tq_lanes q. lane_ok (tq_top q ! p) (tq_bottom q ! p) (tq_array q ! p))"

definition tq_items :: "nat \<Rightarrow> 'a TaskQueue \<Rightarrow> 'a list" where
  "tq_items p q = lane_items (tq_top q ! p) (tq_bottom q ! p) (tq_array q ! p)"

lemma lane_push:
  assumes "lane_ok t b a" "b - t < tqa_C a"
  shows "lane_ok t (b + 1) (tqa_push a b (Some x))"
    and "lane_items t (b + 1) (tqa_push a b (Some x)) = lane_items t b a @ [x]"
proof -
  have wf: "tqa_wf a" and tb: "t \<le> b" using assms by (auto simp: lane_ok_def)
  have other: "tqa_pop (tqa_push a b (Some x)) i = tqa_pop a i" if "t \<le> i" "i < b" for i
    using tqa.ld_st_other [OF wf assms(2) that] .
  have self: "tqa_pop (tqa_push a b (Some x)) b = Some x" using wf by (simp add: tqa.ld_st)
  show "lane_ok t (b + 1) (tqa_push a b (Some x))"
  proof -
    have "tqa_pop (tqa_push a b (Some x)) i \<noteq> None" if "t \<le> i" "i < b + 1" for i
      using that other [of i] self assms(1) by (cases "i = b") (auto simp: lane_ok_def)
    then show ?thesis
      using assms by (auto simp: lane_ok_def tqa.wf_st tqa.cap_st)
  qed
  have "map (\<lambda>i. the (tqa_pop (tqa_push a b (Some x)) i)) [t..b - 1] = lane_items t b a"
    using other by (auto simp: lane_items_def)
  then show "lane_items t (b + 1) (tqa_push a b (Some x)) = lane_items t b a @ [x]"
    using tb upto_rec2 [of t b] self by (simp add: lane_items_def)
qed

lemma lane_resize:
  assumes "lane_ok t b a"
  shows "lane_ok t b (tqa_resize ini a b t)" and "lane_items t b (tqa_resize ini a b t) = lane_items t b a"
    and "b - t < tqa_C (tqa_resize ini a b t)"
proof -
  have wf: "tqa_wf a" and fit: "b - t \<le> tqa_C a" and "0 < tqa_C a"
    using assms tqa.cap_pos by (auto simp: lane_ok_def)
  note r = tqa_resize_facts [OF wf fit, where ini = ini]
  show "b - t < tqa_C (tqa_resize ini a b t)" using r(2) fit \<open>0 < tqa_C a\<close> by simp
  show "lane_ok t b (tqa_resize ini a b t)" "lane_items t b (tqa_resize ini a b t) = lane_items t b a"
    using assms r by (auto simp: lane_ok_def lane_items_def)
qed

lemma lane_pop:
  assumes "lane_ok t b a" "t < b"
  shows "\<exists>x. tqa_pop a (b - 1) = Some x \<and> lane_items t b a = lane_items t (b - 1) a @ [x]"
    and "lane_ok t (b - 1) a"
proof -
  obtain x where "tqa_pop a (b - 1) = Some x" using assms by (fastforce simp: lane_ok_def)
  then show "\<exists>x. tqa_pop a (b - 1) = Some x \<and> lane_items t b a = lane_items t (b - 1) a @ [x]"
    using assms upto_rec2 [of t "b - 1"] by (simp add: lane_items_def)
  show "lane_ok t (b - 1) a" using assms by (auto simp: lane_ok_def)
qed

lemma lane_steal:
  assumes "lane_ok t b a" "t < b"
  shows "\<exists>x. tqa_pop a t = Some x \<and> lane_items t b a = x # lane_items (t + 1) b a"
    and "lane_ok (t + 1) b a"
proof -
  obtain x where "tqa_pop a t = Some x" using assms by (fastforce simp: lane_ok_def)
  then show "\<exists>x. tqa_pop a t = Some x \<and> lane_items t b a = x # lane_items (t + 1) b a"
    using assms upto_rec1 [of t "b - 1"] by (simp add: lane_items_def)
  show "lane_ok (t + 1) b a" using assms by (auto simp: lane_ok_def)
qed

lemma lane_items_empty [simp]: "b \<le> t \<Longrightarrow> lane_items t b a = []"
  by (simp add: lane_items_def)

text \<open>Replacing one lane of a queue.\<close>

definition tq_put ::
  "nat \<Rightarrow> int \<Rightarrow> int \<Rightarrow> 'a tq_Array \<Rightarrow> 'a tq_Array list \<Rightarrow> 'a TaskQueue \<Rightarrow> 'a TaskQueue" where
  "tq_put p t b a g q = \<lparr>tq_top = (tq_top q)[p := t], tq_bottom = (tq_bottom q)[p := b],
     tq_array = (tq_array q)[p := a], tq_garbage = (tq_garbage q)[p := g]\<rparr>"

lemma tq_put_same: "tq_put p (tq_top q ! p) (tq_bottom q ! p) (tq_array q ! p) (tq_garbage q ! p) q = q"
  by (simp add: tq_put_def)

lemma tq_put_facts:
  assumes "tq_inv q" "p < tq_lanes q"
  shows "lane_ok t b a \<Longrightarrow> tq_inv (tq_put p t b a g q)"
    and "tq_items p' (tq_put p t b a g q) = (if p' = p then lane_items t b a else tq_items p' q)"
    and "tq_lanes (tq_put p t b a g q) = tq_lanes q"
  using assms by (auto simp: tq_inv_def tq_put_def tq_items_def nth_list_update)

lemma tq_inv_lane:
  "tq_inv q \<Longrightarrow> p < tq_lanes q \<Longrightarrow> lane_ok (tq_top q ! p) (tq_bottom q ! p) (tq_array q ! p)
     \<and> p < length (tq_bottom q) \<and> p < length (tq_array q) \<and> p < length (tq_garbage q)"
  by (auto simp: tq_inv_def)

lemma tq_push_put:
  assumes "tq_inv q" "p < tq_lanes q"
  shows "\<exists>a g. tq_push ini (Some x) p q = tq_put p (tq_top q ! p) (tq_bottom q ! p + 1) a g q
     \<and> lane_ok (tq_top q ! p) (tq_bottom q ! p + 1) a
     \<and> lane_items (tq_top q ! p) (tq_bottom q ! p + 1) a = tq_items p q @ [x]"
proof -
  let ?t = "tq_top q ! p" and ?b = "tq_bottom q ! p" and ?a = "tq_array q ! p"
  note l = tq_inv_lane [OF assms]
  then have ok: "lane_ok ?t ?b ?a" by blast
  show ?thesis
  proof (cases "tqa_C ?a - 1 < ?b - ?t")
    case True
    note r = lane_resize [OF ok, where ini = ini]
    show ?thesis using True l lane_push [OF r(1,3), of x] r(2)
      by (intro exI [of _ "tqa_push (tqa_resize ini ?a ?b ?t) ?b (Some x)"] exI [of _ "tq_garbage q ! p @ [?a]"])
        (auto simp: tq_push_def resize_array_def tq_put_def Let_def tq_items_def)
  next
    case False
    then have "?b - ?t < tqa_C ?a" by simp
    from lane_push [OF ok this, of x] show ?thesis using False l
      by (intro exI [of _ "tqa_push ?a ?b (Some x)"] exI [of _ "tq_garbage q ! p"])
        (auto simp: tq_push_def tq_put_def Let_def tq_items_def)
  qed
qed

lemma tq_pop_put:
  assumes "tq_inv q" "p < tq_lanes q"
  shows "tq_items p q = [] \<Longrightarrow> tq_pop_at p q = (None, q)"
    and "tq_items p q \<noteq> [] \<Longrightarrow> \<exists>t b. tq_pop_at p q
       = (Some (last (tq_items p q)), tq_put p t b (tq_array q ! p) (tq_garbage q ! p) q)
     \<and> lane_ok t b (tq_array q ! p) \<and> lane_items t b (tq_array q ! p) = butlast (tq_items p q)"
proof -
  let ?t = "tq_top q ! p" and ?b = "tq_bottom q ! p" and ?a = "tq_array q ! p"
  note l = tq_inv_lane [OF assms]
  then have ok: "lane_ok ?t ?b ?a" by blast
  then have e: "tq_items p q = [] \<longleftrightarrow> ?b \<le> ?t" by (auto simp: tq_items_def lane_items_def)
  show "tq_items p q = [] \<Longrightarrow> tq_pop_at p q = (None, q)"
    using e ok l by (simp add: tq_pop_at_def Let_def)
  assume "tq_items p q \<noteq> []"
  then have lt: "?t < ?b" using e by simp
  obtain x where x: "tqa_pop ?a (?b - 1) = Some x" "lane_items ?t ?b ?a = lane_items ?t (?b - 1) ?a @ [x]"
    using lane_pop(1) [OF ok lt] by blast
  show "\<exists>t b. tq_pop_at p q
       = (Some (last (tq_items p q)), tq_put p t b (tq_array q ! p) (tq_garbage q ! p) q)
     \<and> lane_ok t b (tq_array q ! p) \<and> lane_items t b (tq_array q ! p) = butlast (tq_items p q)"
  proof (cases "?t = ?b - 1")
    case True
    then have "lane_ok ?b ?b ?a" using ok by (auto simp: lane_ok_def)
    then show ?thesis using True x l
      by (intro exI [of _ "?t + 1"] exI [of _ ?b]) (simp add: tq_pop_at_def Let_def tq_items_def tq_put_def)
  next
    case False
    then show ?thesis using x l lane_pop(2) [OF ok lt] lt
      by (intro exI [of _ "?t"] exI [of _ "?b - 1"]) (simp add: tq_pop_at_def Let_def tq_items_def tq_put_def)
  qed
qed

lemma tq_steal_put:
  assumes "tq_inv q" "p < tq_lanes q"
  shows "tq_items p q = [] \<Longrightarrow> tq_steal_at p q = (None, q)"
    and "tq_items p q \<noteq> [] \<Longrightarrow> \<exists>t b. tq_steal_at p q
       = (Some (hd (tq_items p q)), tq_put p t b (tq_array q ! p) (tq_garbage q ! p) q)
     \<and> lane_ok t b (tq_array q ! p) \<and> lane_items t b (tq_array q ! p) = tl (tq_items p q)"
proof -
  let ?t = "tq_top q ! p" and ?b = "tq_bottom q ! p" and ?a = "tq_array q ! p"
  note l = tq_inv_lane [OF assms]
  then have ok: "lane_ok ?t ?b ?a" by blast
  then have e: "tq_items p q = [] \<longleftrightarrow> ?b \<le> ?t" by (auto simp: tq_items_def lane_items_def)
  show "tq_items p q = [] \<Longrightarrow> tq_steal_at p q = (None, q)"
    using e by (simp add: tq_steal_at_def Let_def)
  assume "tq_items p q \<noteq> []"
  then have lt: "?t < ?b" using e by simp
  obtain x where "tqa_pop ?a ?t = Some x" "lane_items ?t ?b ?a = x # lane_items (?t + 1) ?b ?a"
    using lane_steal(1) [OF ok lt] by blast
  then show "\<exists>t b. tq_steal_at p q
       = (Some (hd (tq_items p q)), tq_put p t b (tq_array q ! p) (tq_garbage q ! p) q)
     \<and> lane_ok t b (tq_array q ! p) \<and> lane_items t b (tq_array q ! p) = tl (tq_items p q)"
    using l lt lane_steal(2) [OF ok lt]
    by (intro exI [of _ "?t + 1"] exI [of _ ?b]) (simp add: tq_steal_at_def Let_def tq_items_def tq_put_def)
qed

interpretation lane: work_deque "\<lambda>q. tq_inv q \<and> p < tq_lanes q" "tq_items p"
  "\<lambda>x. tq_push ini (Some x) p" "tq_pop_at p" "tq_steal_at p" "\<lambda>_. True" for p ini
proof unfold_locales
  fix q :: "'a TaskQueue" and x :: 'a
  assume q: "tq_inv q \<and> p < tq_lanes q"
  then have inv: "tq_inv q" and p: "p < tq_lanes q" by auto
  note put = tq_put_facts [OF inv p]
  from tq_push_put [OF inv p, of ini x]
  show "tq_inv (tq_push ini (Some x) p q) \<and> p < tq_lanes (tq_push ini (Some x) p q)"
    and "tq_items p (tq_push ini (Some x) p q) = list_push x (tq_items p q)"
    using put p by (auto simp: list_push_def)
  show "tq_inv (snd (tq_pop_at p q)) \<and> p < tq_lanes (snd (tq_pop_at p q))"
    and "map_prod id (tq_items p) (tq_pop_at p q) = list_pop (tq_items p q)"
    using tq_pop_put [OF inv p] put p inv by (cases "tq_items p q = []"; auto)+
  show "tq_inv (snd (tq_steal_at p q)) \<and> p < tq_lanes (snd (tq_steal_at p q))"
    and "map_prod id (tq_items p) (tq_steal_at p q) = list_steal (tq_items p q)"
    using tq_steal_put [OF inv p] put p inv by (cases "tq_items p q"; auto)+
qed

section \<open>Priorities\<close>

text \<open>The first lane with an item, the lowest value being the highest priority.\<close>

definition tq_front :: "'a TaskQueue \<Rightarrow> nat option" where
  "tq_front q = List.find (\<lambda>p. tq_items p q \<noteq> []) [0..<tq_lanes q]"

lemma first_lane_find:
  assumes "\<And>p. p \<in> set is \<Longrightarrow> tq_items p q = [] \<Longrightarrow> f p q = (None, q)"
    and "\<And>p. p \<in> set is \<Longrightarrow> tq_items p q \<noteq> [] \<Longrightarrow> \<exists>x q'. f p q = (Some x, q')"
  shows "first_lane f is q =
     (case List.find (\<lambda>p. tq_items p q \<noteq> []) is of None \<Rightarrow> (None, q) | Some p \<Rightarrow> f p q)"
  using assms
proof (induction "is")
  case (Cons i "is")
  show ?case
  proof (cases "tq_items i q = []")
    case True
    then show ?thesis using Cons by simp
  next
    case False
    then obtain x q' where "f i q = (Some x, q')" using Cons.prems(2) [of i] by auto
    then show ?thesis using False by simp
  qed
qed simp

lemma tq_pop_front:
  assumes "tq_inv q"
  shows "tq_pop q = (case tq_front q of None \<Rightarrow> (None, q) | Some p \<Rightarrow> tq_pop_at p q)"
  unfolding tq_pop_def tq_front_def using tq_pop_put [OF assms] by (intro first_lane_find) force+

lemma tq_steal_front:
  assumes "tq_inv q"
  shows "tq_steal q = (case tq_front q of None \<Rightarrow> (None, q) | Some p \<Rightarrow> tq_steal_at p q)"
  unfolding tq_steal_def tq_front_def using tq_steal_put [OF assms] by (intro first_lane_find) force+

lemma tq_front_Some:
  "tq_front q = Some p \<Longrightarrow> p < tq_lanes q \<and> tq_items p q \<noteq> [] \<and> (\<forall>p'<p. tq_items p' q = [])"
proof -
  assume "tq_front q = Some p"
  then obtain i where "i < tq_lanes q" "tq_items ([0..<tq_lanes q] ! i) q \<noteq> []"
    "p = [0..<tq_lanes q] ! i" "\<forall>j<i. tq_items ([0..<tq_lanes q] ! j) q = []"
    by (auto simp: tq_front_def find_Some_iff)
  then show ?thesis by auto
qed

lemma tq_front_None: "tq_front q = None \<longleftrightarrow> (\<forall>p<tq_lanes q. tq_items p q = [])"
  by (auto simp: tq_front_def find_None_iff)

lemma tq_size_at_items:
  "tq_inv q \<Longrightarrow> p < tq_lanes q \<Longrightarrow> tq_size_at q p = length (tq_items p q)"
  using tq_inv_lane [of q p] by (auto simp: tq_size_at_def Let_def tq_items_def lane_items_def lane_ok_def)

lemma fold_lanes_sum:
  "fold (\<lambda>i s. if i \<noteq> 0 then f i + s else f i) [0..<n] 0 = (\<Sum>i<n. f i :: 'n :: comm_monoid_add)"
  by (induction n) (auto simp: add.commute)

lemma tq_size_items: "tq_inv q \<Longrightarrow> tq_size q = (\<Sum>p<tq_lanes q. length (tq_items p q))"
  unfolding tq_size_def fold_lanes_sum by (simp add: tq_size_at_items)

lemma tq_items_empty: "tq_items p q = [] \<longleftrightarrow> tq_empty_at q p"
  by (auto simp: tq_empty_at_def tq_items_def lane_items_def Let_def)

lemma tq_empty_items: "tq_empty q \<longleftrightarrow> tq_front q = None"
  by (auto simp: tq_front_None tq_items_empty tq_empty_def list_all_iff)

lemma new_TaskQueue_inv:
  assumes "new_TaskQueue ini n c = Inr q"
  shows "tq_inv q \<and> tq_lanes q = n \<and> (\<forall>p<n. tq_items p q = [])"
proof -
  have "\<exists>k. c = 2 ^ k"
    using assms pow2_assertion [of c] by (auto simp: new_TaskQueue_def split: if_splits)
  then have "tqa_wf (new_tq_Array ini c)" "0 < c" using tqa.wf_new [of ini] by auto
  then show ?thesis
    using assms by (auto simp: new_TaskQueue_def tq_inv_def lane_ok_def tq_items_def tqa.cap_new split: if_splits)
qed

section \<open>Properties\<close>

text \<open>\<open>pop()\<close> and \<open>steal()\<close> of the prioritised queue answer \<open>nullptr\<close>, and leave
  the queue as it is, exactly when it is empty; otherwise they serve the lane of the highest
  priority that has a task, \<open>pop\<close> with its youngest and \<open>steal\<close> with its oldest task,
  and leave every other lane alone.\<close>

theorem tq_priority_order:
  assumes "tq_inv q"
  shows "case tq_front q of
      None \<Rightarrow> tq_empty q \<and> tq_pop q = (None, q) \<and> tq_steal q = (None, q)
    | Some p \<Rightarrow> \<not> tq_empty q \<and> (\<forall>p'<p. tq_items p' q = []) \<and> tq_items p q \<noteq> []
        \<and> (\<exists>q'. tq_pop q = (Some (last (tq_items p q)), q') \<and> tq_inv q'
             \<and> (\<forall>p'. tq_items p' q' = (if p' = p then butlast (tq_items p q) else tq_items p' q)))
        \<and> (\<exists>q'. tq_steal q = (Some (hd (tq_items p q)), q') \<and> tq_inv q'
             \<and> (\<forall>p'. tq_items p' q' = (if p' = p then tl (tq_items p q) else tq_items p' q)))"
proof (cases "tq_front q")
  case None
  then show ?thesis using assms by (simp add: tq_pop_front tq_steal_front tq_empty_items)
next
  case (Some p)
  note f = tq_front_Some [OF Some]
  then have p: "p < tq_lanes q" and ne: "tq_items p q \<noteq> []" by auto
  note put = tq_put_facts [OF assms p]
  show ?thesis
    using f put tq_pop_put(2) [OF assms p ne] tq_steal_put(2) [OF assms p ne] assms
    by (auto simp: Some tq_pop_front tq_steal_front tq_empty_items)
qed

theorem tq_priority_order_witness:
  "\<exists>q. new_TaskQueue None 3 1 = Inr q \<and> tq_front (tq_push None (Some (7 :: nat)) 1 q) = Some 1
     \<and> (\<exists>q'. tq_pop (tq_push None (Some 7) 1 q) = (Some 7, q') \<and> tq_inv q')"
proof -
  obtain q :: "nat TaskQueue" where q: "new_TaskQueue None 3 1 = Inr q" by (simp add: new_TaskQueue_def)
  note n = new_TaskQueue_inv [OF q]
  let ?q = "tq_push None (Some 7) 1 q"
  obtain a g where a: "?q = tq_put 1 (tq_top q ! 1) (tq_bottom q ! 1 + 1) a g q"
    "lane_ok (tq_top q ! 1) (tq_bottom q ! 1 + 1) a"
    "lane_items (tq_top q ! 1) (tq_bottom q ! 1 + 1) a = tq_items 1 q @ [7]"
    using tq_push_put [of q 1 None 7] n by auto
  have put: "tq_inv ?q" "tq_items p ?q = (if p = 1 then [7] else tq_items p q)" "tq_lanes ?q = 3" for p
    using tq_put_facts [of q 1] n a by auto
  then have fr: "tq_front ?q = Some 1" using n by (simp add: tq_front_def upt_rec)
  have "\<exists>q'. tq_pop ?q = (Some 7, q') \<and> tq_inv q'"
    using tq_priority_order [OF put(1)] unfolding fr put(2) option.case by auto
  with q fr show ?thesis by blast
qed

text \<open>Every sequence of pushes of non-null tasks, pops and steals on one lane of a queue is
  answered like a list deque, whatever the other lanes hold, and the queue stays well-formed.\<close>

theorem tq_lane_refines_deque:
  assumes "new_TaskQueue None n c = Inr q" and "p < n"
    and "run_deque (\<lambda>x. tq_push None (Some x) p) (tq_pop_at p) (tq_steal_at p) ops q = (rs, q')"
  shows "tq_inv q' \<and> run_deque list_push list_pop list_steal ops [] = (rs, tq_items p q')"
  using lane.run_refines [OF _ _ assms(3)] new_TaskQueue_inv [OF assms(1)] assms(2)
  by (simp add: list_all_iff)

theorem tq_lane_refines_deque_witness:
  "\<exists>q rs q'. new_TaskQueue None 1 1 = Inr q
     \<and> run_deque (\<lambda>x. tq_push None (Some x) 0) (tq_pop_at 0) (tq_steal_at 0)
         [DPush (1 :: nat), DPush 2, DSteal] q = (rs, q')
     \<and> tq_inv q' \<and> rs = [Some 1] \<and> tq_items 0 q' = [2]"
proof -
  obtain q :: "nat TaskQueue" where q: "new_TaskQueue None 1 1 = Inr q" by (simp add: new_TaskQueue_def)
  obtain rs q' where r: "run_deque (\<lambda>x. tq_push None (Some x) 0) (tq_pop_at 0) (tq_steal_at 0)
      [DPush (1 :: nat), DPush 2, DSteal] q = (rs, q')" by (rule prod.exhaust)
  from tq_lane_refines_deque [OF q _ r] have "tq_inv q'" "rs = [Some 1]" "tq_items 0 q' = [2]"
    by (auto simp: list_push_def)
  with q r show ?thesis by blast
qed

end
