(* ===== verification/Traits.thy ===== *)
theory Traits
  imports AR_Prelude
begin

text \<open>
  The templates of \<open>include/ar/traits.hpp\<close> that compute: the position of a type in a variant, a variant
  without duplicates, the tests of type packs, the types of iterators and indices, the visit of a tuple, the
  unrolled loop and the wrapper that moves when it is copied. A C++ type is a value of the model, a pack of types a list; what does
  not compile is \<open>None\<close>. A functor called for its effect is a function on a state.
\<close>

section \<open>Definitions\<close>

text \<open>\<open>get_index\<close>: the specialisation for equal types is preferred; the empty primary template has no \<open>value\<close>.\<close>

fun get_index_impl :: "nat \<Rightarrow> 't \<Rightarrow> 't list \<Rightarrow> nat option" where
  "get_index_impl I T [] = None"
| "get_index_impl I T (U # Ts) = (if T = U then Some I else get_index_impl (I + 1) T Ts)"

definition get_index :: "'t \<Rightarrow> 't list \<Rightarrow> nat option" where
  "get_index T Ts = get_index_impl 0 T Ts"

text \<open>\<open>filter_duplicates\<close> and \<open>unique_variant\<close>.\<close>

fun filter_duplicates :: "'t list \<Rightarrow> 't list \<Rightarrow> 't list" where
  "filter_duplicates Ts [] = Ts"
| "filter_duplicates Ts (U # Us) = (if list_ex (\<lambda>T. U = T) Ts then filter_duplicates Ts Us else filter_duplicates (Ts @ [U]) Us)"

definition unique_variant :: "'t list \<Rightarrow> 't list" where
  "unique_variant Ts = filter_duplicates [] Ts"

text \<open>\<open>all_true\<close> compares the pack with \<open>true\<close> at its end and with \<open>true\<close> at its beginning.\<close>

definition all_true :: "bool list \<Rightarrow> bool" where
  "all_true bs \<longleftrightarrow> bs @ [True] = True # bs"

definition all_same :: "'t \<Rightarrow> 't list \<Rightarrow> bool" where
  "all_same T Ts \<longleftrightarrow> all_true (map (\<lambda>U. T = U) Ts)"

text \<open>References, constants and reference wrappers over the types that are neither.\<close>

datatype 'b cpp_type = Base 'b | Lref "'b cpp_type" | Const "'b cpp_type" | Wrapper "'b cpp_type"

fun unwrap_reference :: "'b cpp_type \<Rightarrow> 'b cpp_type" where
  "unwrap_reference (Wrapper U) = Lref U"
| "unwrap_reference T = T"

fun remove_cv :: "'b cpp_type \<Rightarrow> 'b cpp_type" where
  "remove_cv (Const T) = T"
| "remove_cv T = T"

fun decay :: "'b cpp_type \<Rightarrow> 'b cpp_type" where
  "decay (Lref T) = remove_cv T"
| "decay T = remove_cv T"

definition unwrap_ref_decay :: "'b cpp_type \<Rightarrow> 'b cpp_type" where
  "unwrap_ref_decay T = unwrap_reference (decay T)"

definition stateful_iterator :: "'b cpp_type \<Rightarrow> 'b cpp_type \<Rightarrow> 'b cpp_type option" where
  "stateful_iterator B E =
     (let TB = decay (unwrap_ref_decay B); TE = decay (unwrap_ref_decay E) in
      if TB = TE then Some TB else None)"

definition stateful_index :: "('b cpp_type \<Rightarrow> bool) \<Rightarrow> 'b cpp_type \<Rightarrow> 'b cpp_type \<Rightarrow> 'b cpp_type \<Rightarrow> 'b cpp_type option" where
  "stateful_index is_integral B E S =
     (let TB = decay (unwrap_ref_decay B); TE = decay (unwrap_ref_decay E); TS = decay (unwrap_ref_decay S) in
      if \<not> is_integral TB then None
      else if \<not> is_integral TE then None
      else if \<not> is_integral TS then None
      else if TB = TE \<and> TE = TS then Some TB else None)"

text \<open>\<open>visit_tuple\<close>, with \<open>N\<close> the template parameter; a tuple has at least one element, or \<open>std::get\<close> does not compile.\<close>

function visit_tuple :: "nat \<Rightarrow> ('x \<Rightarrow> 's \<Rightarrow> 's) \<Rightarrow> 'x list \<Rightarrow> nat \<Rightarrow> 's \<Rightarrow> 's option" where
  "visit_tuple N func tup idx s =
     (if length tup \<le> N then None
      else if N = idx then Some (func (tup ! N) s)
      else if N + 1 < length tup then visit_tuple (N + 1) func tup idx s
      else Some s)"
  by auto
termination by (relation "measure (\<lambda>(N, _, tup, _, _). length tup - N)") auto

text \<open>The loop: without progress the instantiation does not end.\<close>

function Unroll :: "int \<Rightarrow> int \<Rightarrow> int \<Rightarrow> (int \<Rightarrow> 's \<Rightarrow> 's) \<Rightarrow> 's \<Rightarrow> 's option" where
  "Unroll beg lim step f s =
     (if beg < lim then if step \<le> 0 then None else Unroll (beg + step) lim step f (f beg s) else Some s)"
  by auto
termination by (relation "measure (\<lambda>(beg, lim, _, _, _). nat (lim - beg))") auto

definition unroll :: "int \<Rightarrow> int \<Rightarrow> int \<Rightarrow> (int \<Rightarrow> 's \<Rightarrow> 's) \<Rightarrow> 's \<Rightarrow> 's option" where
  "unroll beg lim step f s = Unroll beg lim step f s"

declare visit_tuple.simps [simp del] Unroll.simps [simp del]

text \<open>Copying a \<open>MoC\<close> moves its object out of the source.\<close>

definition make_moc :: "'x \<Rightarrow> 'x option" where
  "make_moc m = Some m"

definition MoC_copy :: "'x option \<Rightarrow> 'x option \<times> 'x option" where
  "MoC_copy other = (other, None)"

section \<open>Packs of types\<close>

lemma get_index_impl_eq: "get_index_impl I T Ts = (if T \<in> set Ts then Some (I + length (takeWhile (\<lambda>U. U \<noteq> T) Ts)) else None)"
  by (induction Ts arbitrary: I) auto

lemma get_index_first:
  "get_index T Ts = Some i \<longleftrightarrow> i < length Ts \<and> Ts ! i = T \<and> (\<forall>j<i. Ts ! j \<noteq> T)"
proof
  assume i: "get_index T Ts = Some i"
  then have "T \<in> set Ts" by (auto simp: get_index_def get_index_impl_eq split: if_splits)
  then obtain ys zs where Ts: "Ts = ys @ T # zs" "T \<notin> set ys" using split_list_first by fastforce
  then have "takeWhile (\<lambda>U. U \<noteq> T) Ts = ys" by (auto simp: takeWhile_append)
  then have "i = length ys" using i Ts(1) by (simp add: get_index_def get_index_impl_eq)
  then show "i < length Ts \<and> Ts ! i = T \<and> (\<forall>j<i. Ts ! j \<noteq> T)" using Ts by (auto simp: nth_append in_set_conv_nth)
next
  assume i: "i < length Ts \<and> Ts ! i = T \<and> (\<forall>j<i. Ts ! j \<noteq> T)"
  then have "takeWhile (\<lambda>U. U \<noteq> T) Ts = take i Ts" by (intro takeWhile_eq_take_P_nth) auto
  then show "get_index T Ts = Some i" using i by (auto simp: get_index_def get_index_impl_eq)
qed

lemma remdups_snoc: "remdups (xs @ [u]) = filter (\<lambda>x. x \<noteq> u) (remdups xs) @ [u]"
  by (induction xs) auto

lemma filter_duplicates_eq: "filter_duplicates Ts Us = Ts @ filter (\<lambda>U. U \<notin> set Ts) (rev (remdups (rev Us)))"
proof (induction Us arbitrary: Ts)
  case (Cons U Us)
  then show ?case by (auto simp: remdups_snoc rev_filter list_ex_iff intro!: filter_cong)
qed simp

lemma all_true_iff: "all_true bs \<longleftrightarrow> list_all (\<lambda>b. b) bs"
  by (induction bs) (auto simp: all_true_def)

section \<open>Loops\<close>

lemma visit_tuple_at:
  "N < length tup \<Longrightarrow> visit_tuple N func tup idx s = Some (if N \<le> idx \<and> idx < length tup then func (tup ! idx) s else s)"
proof (induction N func tup idx s rule: visit_tuple.induct)
  case (1 N func tup idx s)
  then show ?case by (subst visit_tuple.simps) auto
qed

text \<open>The values the index takes.\<close>

definition unroll_indices :: "int \<Rightarrow> int \<Rightarrow> int \<Rightarrow> int list" where
  "unroll_indices beg lim step = map (\<lambda>k. beg + int k * step) [0..<nat ((lim - beg + step - 1) div step)]"

lemma unroll_indices_Cons:
  assumes "beg < lim" "0 < step"
  shows "unroll_indices beg lim step = beg # unroll_indices (beg + step) lim step"
proof -
  let ?n = "\<lambda>beg. nat ((lim - beg + step - 1) div step)"
  have "(lim - beg + step - 1) div step = (lim - (beg + step) + step - 1) div step + 1"
    using assms(2) div_add_self2 [of step "lim - (beg + step) + step - 1"] by (simp add: algebra_simps)
  moreover have "0 \<le> (lim - (beg + step) + step - 1) div step" using assms by (simp add: pos_imp_zdiv_nonneg_iff)
  ultimately have "?n beg = Suc (?n (beg + step))" by linarith
  then show ?thesis unfolding unroll_indices_def
    by (simp add: upt_conv_Cons map_Suc_upt [symmetric] del: upt_Suc) (simp add: algebra_simps)
qed

lemma unroll_loop:
  "0 < step \<Longrightarrow> unroll beg lim step f s = Some (fold f (unroll_indices beg lim step) s)"
  unfolding unroll_def
proof (induction beg lim step f s rule: Unroll.induct)
  case (1 beg lim step f s)
  show ?case
  proof (cases "beg < lim")
    case True
    with 1 show ?thesis by (subst Unroll.simps) (simp add: unroll_indices_Cons)
  next
    case False
    with 1(2) have "(lim - beg + step - 1) div step \<le> 0"
      using zdiv_mono1 [of "lim - beg + step - 1" "step - 1" step] by (simp add: div_pos_pos_trivial)
    then show ?thesis using False by (subst Unroll.simps) (simp add: unroll_indices_def)
  qed
qed

lemma unroll_indices_1: "unroll_indices beg lim 1 = [beg..lim - 1]"
proof (induction "nat (lim - beg)" arbitrary: beg)
  case (Suc n)
  then show ?case using unroll_indices_Cons [of beg lim 1] upto_rec1 [of beg "lim - 1"] Suc.hyps(1) [of "beg + 1"] by auto
qed (simp add: unroll_indices_def)

end
