(* ===== verification/Task_Queue_Runs.thy ===== *)
theory Task_Queue_Runs
  imports Task_Queue Traits
begin

text \<open>
  The task queue of \<open>include/ar/task_queue.hpp\<close> as a whole. Its loops over the priorities are unrolled by
  templates: the constructor, \<open>size\<close>, \<open>capacity\<close> and the destructor written with \<open>unroll\<close>, and that they
  are the loops \<open>Task_Queue\<close> has. The arrays by their addresses, which the constructor and every growth allocate and the
  destructor deletes. The whole queue against a reference, one list per priority.
\<close>

section \<open>Definitions\<close>

text \<open>The constructor, from members with any content; \<open>s\<close> in \<open>size\<close> and \<open>capacity\<close> is not initialised.\<close>

definition construct_lane :: "'a option \<Rightarrow> int \<Rightarrow> int \<Rightarrow> 'a TaskQueue \<Rightarrow> 'a TaskQueue" where
  "construct_lane ini c p q =
     \<lparr>tq_top = (tq_top q)[nat p := 0], tq_bottom = (tq_bottom q)[nat p := 0],
      tq_array = (tq_array q)[nat p := new_tq_Array ini c], tq_garbage = (tq_garbage q)[nat p := []]\<rparr>"

definition TaskQueue_construct :: "'a option \<Rightarrow> nat \<Rightarrow> int \<Rightarrow> 'a TaskQueue \<Rightarrow> ar_error + 'a TaskQueue option" where
  "TaskQueue_construct ini TF_MAX_PRIORITY c q =
     (if \<not> (c \<noteq> 0 \<and> c AND (c - 1) = 0) then Inl assertion_failed
      else Inr (unroll 0 (int TF_MAX_PRIORITY) 1 (construct_lane ini c) q))"

definition size_unrolled :: "'a TaskQueue \<Rightarrow> nat \<Rightarrow> nat option" where
  "size_unrolled q s =
     unroll 0 (int (tq_lanes q)) 1 (\<lambda>i s. if i \<noteq> 0 then tq_size_at q (nat i) + s else tq_size_at q (nat i)) s"

definition capacity_unrolled :: "'a TaskQueue \<Rightarrow> int \<Rightarrow> int option" where
  "capacity_unrolled q s =
     unroll 0 (int (tq_lanes q)) 1 (\<lambda>i s. if i \<noteq> 0 then tq_capacity_at q (nat i) + s else tq_capacity_at q (nat i)) s"

text \<open>Addresses: \<open>tm_live\<close> are the arrays that are allocated. Deleting any other is undefined.\<close>

record tq_memory =
  tm_array :: "nat list"
  tm_garbage :: "nat list list"
  tm_live :: "nat list"
  tm_next :: nat

definition tm_construct_lane :: "int \<Rightarrow> tq_memory \<Rightarrow> tq_memory" where
  "tm_construct_lane p m =
     m\<lparr>tm_array := (tm_array m)[nat p := tm_next m], tm_garbage := (tm_garbage m)[nat p := []],
       tm_live := tm_next m # tm_live m, tm_next := tm_next m + 1\<rparr>"

definition tm_construct :: "nat \<Rightarrow> tq_memory option" where
  "tm_construct n =
     unroll 0 (int n) 1 tm_construct_lane \<lparr>tm_array = replicate n 0, tm_garbage = replicate n [], tm_live = [], tm_next = 1\<rparr>"

definition tm_resize_array :: "nat \<Rightarrow> tq_memory \<Rightarrow> tq_memory" where
  "tm_resize_array p m =
     m\<lparr>tm_garbage := (tm_garbage m)[p := tm_garbage m ! p @ [tm_array m ! p]], tm_array := (tm_array m)[p := tm_next m],
       tm_live := tm_next m # tm_live m, tm_next := tm_next m + 1\<rparr>"

definition tm_delete :: "nat \<Rightarrow> nat list option \<Rightarrow> nat list option" where
  "tm_delete a live = Option.bind live (\<lambda>l. if a \<in> set l then Some (remove1 a l) else None)"

definition TaskQueue_destruct :: "tq_memory \<Rightarrow> nat list option option" where
  "TaskQueue_destruct m =
     unroll 0 (int (length (tm_array m))) 1
       (\<lambda>p live. tm_delete (tm_array m ! nat p) (fold tm_delete (tm_garbage m ! nat p) live)) (Some (tm_live m))"

text \<open>The calls of a client.\<close>

datatype 'a tq_op = TQ_Push nat 'a | TQ_Pop | TQ_Steal | TQ_PopAt nat | TQ_StealAt nat | TQ_Empty | TQ_Size

datatype 'a tq_answer = TA_Void | TA_Item "'a option" | TA_Bool bool | TA_Nat nat

fun tq_call :: "'a tq_op \<Rightarrow> 'a TaskQueue \<Rightarrow> 'a tq_answer \<times> 'a TaskQueue" where
  "tq_call (TQ_Push p x) q = (TA_Void, tq_push None (Some x) p q)"
| "tq_call TQ_Pop q = map_prod TA_Item id (tq_pop q)"
| "tq_call TQ_Steal q = map_prod TA_Item id (tq_steal q)"
| "tq_call (TQ_PopAt p) q = map_prod TA_Item id (tq_pop_at p q)"
| "tq_call (TQ_StealAt p) q = map_prod TA_Item id (tq_steal_at p q)"
| "tq_call TQ_Empty q = (TA_Bool (tq_empty q), q)"
| "tq_call TQ_Size q = (TA_Nat (tq_size q), q)"

text \<open>The address of an array changes when a push finds it full.\<close>

definition tq_grows :: "'a tq_op \<Rightarrow> 'a TaskQueue \<Rightarrow> bool" where
  "tq_grows call q = (case call of TQ_Push p x \<Rightarrow> tqa_C (tq_array q ! p) - 1 < tq_bottom q ! p - tq_top q ! p | _ \<Rightarrow> False)"

fun tm_call :: "'a tq_op \<Rightarrow> 'a TaskQueue \<Rightarrow> tq_memory \<Rightarrow> tq_memory" where
  "tm_call (TQ_Push p x) q m = (if tq_grows (TQ_Push p x) q then tm_resize_array p m else m)"
| "tm_call _ q m = m"

primrec tq_calls :: "'a tq_op list \<Rightarrow> 'a TaskQueue \<times> tq_memory \<Rightarrow> 'a tq_answer list \<times> 'a TaskQueue \<times> tq_memory" where
  "tq_calls [] s = ([], s)"
| "tq_calls (c # cs) s =
     (let (q, m) = s; (r, q') = tq_call c q; (rs, s') = tq_calls cs (q', tm_call c q m) in (r # rs, s'))"

text \<open>The reference: a list per priority.\<close>

definition serve_at :: "('a list \<Rightarrow> 'a option \<times> 'a list) \<Rightarrow> nat \<Rightarrow> 'a list list \<Rightarrow> 'a tq_answer \<times> 'a list list" where
  "serve_at f p ls = (let (x, l) = f (ls ! p) in (TA_Item x, ls[p := l]))"

definition serve :: "('a list \<Rightarrow> 'a option \<times> 'a list) \<Rightarrow> 'a list list \<Rightarrow> 'a tq_answer \<times> 'a list list" where
  "serve f ls = (case List.find (\<lambda>p. ls ! p \<noteq> []) [0..<length ls] of None \<Rightarrow> (TA_Item None, ls) | Some p \<Rightarrow> serve_at f p ls)"

fun ref_call :: "'a tq_op \<Rightarrow> 'a list list \<Rightarrow> 'a tq_answer \<times> 'a list list" where
  "ref_call (TQ_Push p x) ls = (TA_Void, ls[p := ls ! p @ [x]])"
| "ref_call TQ_Pop ls = serve list_pop ls"
| "ref_call TQ_Steal ls = serve list_steal ls"
| "ref_call (TQ_PopAt p) ls = serve_at list_pop p ls"
| "ref_call (TQ_StealAt p) ls = serve_at list_steal p ls"
| "ref_call TQ_Empty ls = (TA_Bool (concat ls = []), ls)"
| "ref_call TQ_Size ls = (TA_Nat (length (concat ls)), ls)"

primrec ref_calls :: "'a tq_op list \<Rightarrow> 'a list list \<Rightarrow> 'a tq_answer list \<times> 'a list list" where
  "ref_calls [] ls = ([], ls)"
| "ref_calls (c # cs) ls = (let (r, ls') = ref_call c ls; (rs, ls'') = ref_calls cs ls' in (r # rs, ls''))"

fun call_lane :: "nat \<Rightarrow> 'a tq_op \<Rightarrow> bool" where
  "call_lane n (TQ_Push p x) \<longleftrightarrow> p < n"
| "call_lane n (TQ_PopAt p) \<longleftrightarrow> p < n"
| "call_lane n (TQ_StealAt p) \<longleftrightarrow> p < n"
| "call_lane n _ \<longleftrightarrow> True"

section \<open>Unrolled loops\<close>

lemma unroll_lanes: "unroll 0 (int n) 1 f s = Some (fold (\<lambda>i. f (int i)) [0..<n] s)"
proof -
  have "[0..int n - 1] = map int [0..<n]" by (induction n) (simp_all add: upto_rec2)
  then show ?thesis by (simp add: unroll_loop unroll_indices_1 fold_map comp_def)
qed

lemma fold_update: "n \<le> length xs \<Longrightarrow> fold (\<lambda>i xs. xs[i := f i]) [0..<n] xs = map f [0..<n] @ drop n xs"
proof (induction n)
  case (Suc n)
  then have "fold (\<lambda>i xs. xs[i := f i]) [0..<Suc n] xs = (map f [0..<n] @ drop n xs)[n := f n]" by simp
  then show ?case using Suc.prems by (simp add: list_update_append Cons_nth_drop_Suc [symmetric])
qed simp

lemma fold_construct_lane:
  "fold (\<lambda>i. construct_lane ini c (int i)) is q =
     \<lparr>tq_top = fold (\<lambda>i xs. xs[i := 0]) is (tq_top q), tq_bottom = fold (\<lambda>i xs. xs[i := 0]) is (tq_bottom q),
      tq_array = fold (\<lambda>i xs. xs[i := new_tq_Array ini c]) is (tq_array q), tq_garbage = fold (\<lambda>i xs. xs[i := []]) is (tq_garbage q)\<rparr>"
  by (induction "is" arbitrary: q) (simp_all add: construct_lane_def)

lemma fold_lanes_start: "0 < n \<Longrightarrow> fold (\<lambda>i s. if i \<noteq> 0 then f i + s else f i) [0..<n] s = fold (\<lambda>i s. if i \<noteq> 0 then f i + s else f i) [0..<n] 0"
  by (simp add: upt_conv_Cons)

text \<open>The unrolled constructor makes the new queue whatever the memory held, and the uninitialised \<open>s\<close> of \<open>size\<close> and
  \<open>capacity\<close> is overwritten by the first priority: it is read only by a queue without priorities.\<close>

lemma unrolled_loops:
  "\<And>q. length (tq_top q) = n \<Longrightarrow> length (tq_bottom q) = n \<Longrightarrow> length (tq_array q) = n \<Longrightarrow> length (tq_garbage q) = n \<Longrightarrow>
     TaskQueue_construct ini n c q = (case new_TaskQueue ini n c of Inl e \<Rightarrow> Inl e | Inr q \<Rightarrow> Inr (Some q))"
  "size_unrolled q s = Some (if tq_lanes q = 0 then s else tq_size q)"
  "capacity_unrolled q i = Some (if tq_lanes q = 0 then i else tq_capacity q)"
proof -
  fix q :: "'a TaskQueue"
  assume "length (tq_top q) = n" "length (tq_bottom q) = n" "length (tq_array q) = n" "length (tq_garbage q) = n"
  then show "TaskQueue_construct ini n c q = (case new_TaskQueue ini n c of Inl e \<Rightarrow> Inl e | Inr q \<Rightarrow> Inr (Some q))"
    by (simp add: TaskQueue_construct_def unroll_lanes fold_construct_lane fold_update new_TaskQueue_def map_replicate_const)
next
  show "size_unrolled q s = Some (if tq_lanes q = 0 then s else tq_size q)"
    using fold_lanes_start [of "tq_lanes q" "tq_size_at q" s] by (simp add: size_unrolled_def unroll_lanes tq_size_def cong: if_cong)
  show "capacity_unrolled q i = Some (if tq_lanes q = 0 then i else tq_capacity q)"
    using fold_lanes_start [of "tq_lanes q" "tq_capacity_at q" i] by (simp add: capacity_unrolled_def unroll_lanes tq_capacity_def cong: if_cong)
qed

section \<open>The queue refines one list per priority\<close>

definition tq_abs :: "'a TaskQueue \<Rightarrow> 'a list list" where
  "tq_abs q = map (\<lambda>p. tq_items p q) [0..<tq_lanes q]"

lemma tq_abs_put:
  assumes "tq_inv q" "p < tq_lanes q"
  shows "tq_abs (tq_put p t b a g q) = (tq_abs q)[p := lane_items t b a]"
  using tq_put_facts(2,3) [OF assms] by (intro nth_equalityI) (auto simp: tq_abs_def nth_list_update)

lemma tq_abs_facts [simp]: "length (tq_abs q) = tq_lanes q" "p < tq_lanes q \<Longrightarrow> tq_abs q ! p = tq_items p q"
  by (simp_all add: tq_abs_def)

lemma tq_front_abs: "List.find (\<lambda>p. tq_abs q ! p \<noteq> []) [0..<tq_lanes q] = tq_front q"
  unfolding tq_front_def by (intro find_cong) auto

text \<open>What a refined call keeps.\<close>

definition call_refines :: "'a tq_answer \<times> 'a TaskQueue \<Rightarrow> 'a tq_answer \<times> 'a list list \<Rightarrow> 'a TaskQueue \<Rightarrow> bool" where
  "call_refines x y q \<longleftrightarrow> tq_inv (snd x) \<and> tq_lanes (snd x) = tq_lanes q \<and> y = (fst x, tq_abs (snd x))"

lemma refines_same: "tq_inv q \<Longrightarrow> call_refines (r, q) (r, tq_abs q) q"
  by (simp add: call_refines_def)

lemma pop_at_refines:
  assumes "tq_inv q" "p < tq_lanes q"
  shows "call_refines (map_prod TA_Item id (tq_pop_at p q)) (serve_at list_pop p (tq_abs q)) q"
proof (cases "tq_items p q = []")
  case True
  then have "(tq_abs q)[p := []] = tq_abs q" using assms(2) by (simp add: list_update_same_conv)
  then show ?thesis using True assms tq_pop_put(1) [OF assms] by (simp add: call_refines_def serve_at_def list_pop_def)
next
  case False
  then show ?thesis using tq_pop_put(2) [OF assms False] tq_put_facts [OF assms] assms tq_abs_put [OF assms]
    by (auto simp: call_refines_def serve_at_def list_pop_def)
qed

lemma steal_at_refines:
  assumes "tq_inv q" "p < tq_lanes q"
  shows "call_refines (map_prod TA_Item id (tq_steal_at p q)) (serve_at list_steal p (tq_abs q)) q"
proof (cases "tq_items p q")
  case Nil
  then have "(tq_abs q)[p := []] = tq_abs q" using assms(2) by (simp add: list_update_same_conv)
  then show ?thesis using Nil assms tq_steal_put(1) [OF assms] by (simp add: call_refines_def serve_at_def list_steal_def)
next
  case (Cons x xs)
  then show ?thesis using tq_steal_put(2) [OF assms] tq_put_facts [OF assms] assms tq_abs_put [OF assms]
    by (auto simp: call_refines_def serve_at_def list_steal_def)
qed

lemma tq_size_abs: "tq_inv q \<Longrightarrow> tq_size q = length (concat (tq_abs q))"
  by (simp add: tq_size_items length_concat tq_abs_def comp_def sum_list_sum_nth atLeast0LessThan)

lemma tq_empty_abs: "tq_empty q \<longleftrightarrow> concat (tq_abs q) = []"
  by (auto simp: tq_empty_items tq_front_None tq_abs_def)

lemma call_refines_ref:
  assumes inv: "tq_inv q" and ok: "call_lane (tq_lanes q) call"
  shows "call_refines (tq_call call q) (ref_call call (tq_abs q)) q"
proof (cases call)
  case (TQ_Push p x)
  then have "p < tq_lanes q" using ok by simp
  with TQ_Push tq_push_put [OF inv this, of None x] tq_put_facts [OF inv this] tq_abs_put [OF inv this] show ?thesis
    by (auto simp: call_refines_def)
next
  case TQ_Pop
  show ?thesis
  proof (cases "tq_front q")
    case (Some p)
    then show ?thesis using TQ_Pop pop_at_refines [OF inv, of p] tq_front_Some [OF Some] inv
      by (simp add: serve_def tq_front_abs tq_pop_front)
  qed (use TQ_Pop inv in \<open>simp add: serve_def tq_front_abs tq_pop_front refines_same\<close>)
next
  case TQ_Steal
  show ?thesis
  proof (cases "tq_front q")
    case (Some p)
    then show ?thesis using TQ_Steal steal_at_refines [OF inv, of p] tq_front_Some [OF Some] inv
      by (simp add: serve_def tq_front_abs tq_steal_front)
  qed (use TQ_Steal inv in \<open>simp add: serve_def tq_front_abs tq_steal_front refines_same\<close>)
qed (use inv ok in \<open>auto simp: pop_at_refines steal_at_refines tq_size_abs tq_empty_abs refines_same\<close>)

lemma calls_refine:
  "tq_inv q \<Longrightarrow> list_all (call_lane (tq_lanes q)) cs \<Longrightarrow> tq_calls cs (q, m) = (rs, q', m') \<Longrightarrow>
     tq_inv q' \<and> tq_lanes q' = tq_lanes q \<and> ref_calls cs (tq_abs q) = (rs, tq_abs q')"
proof (induction cs arbitrary: q m rs)
  case (Cons c cs)
  obtain r q1 where c: "tq_call c q = (r, q1)" by fastforce
  then have 1: "tq_inv q1" "tq_lanes q1 = tq_lanes q" "ref_call c (tq_abs q) = (r, tq_abs q1)"
    using call_refines_ref [of q c] Cons.prems by (auto simp: call_refines_def)
  obtain rs' where "tq_calls cs (q1, tm_call c q m) = (rs', q', m')" "rs = r # rs'"
    using Cons.prems(3) c by (auto split: prod.splits)
  then show ?case using Cons.IH [of q1] 1 Cons.prems(2) by simp
qed simp

section \<open>The arrays\<close>

definition tm_all :: "tq_memory \<Rightarrow> nat list" where
  "tm_all m = tm_array m @ concat (tm_garbage m)"

definition tm_inv :: "tq_memory \<Rightarrow> bool" where
  "tm_inv m \<longleftrightarrow> mset (tm_all m) = mset (tm_live m) \<and> distinct (tm_live m) \<and> (\<forall>a\<in>set (tm_live m). a < tm_next m)
     \<and> length (tm_garbage m) = length (tm_array m)"

lemma mset_concat_update: "p < length xss \<Longrightarrow> mset (concat (xss[p := xss ! p @ ys])) = mset (concat xss) + mset ys"
  by (induction xss arbitrary: p) (auto simp: nth_Cons split: nat.splits)

lemma mset_update_new: "p < length xs \<Longrightarrow> mset (xs[p := x]) + {#xs ! p#} = mset xs + {#x#}"
  by (simp add: mset_update)

lemma tm_inv_resize:
  assumes "tm_inv m" "p < length (tm_array m)"
  shows "tm_inv (tm_resize_array p m)"
proof -
  have g: "mset (concat ((tm_garbage m)[p := tm_garbage m ! p @ [tm_array m ! p]])) = mset (concat (tm_garbage m)) + {#tm_array m ! p#}"
    using assms mset_concat_update [of p "tm_garbage m" "[tm_array m ! p]"] by (simp add: tm_inv_def)
  have "mset (tm_all (tm_resize_array p m)) = (mset ((tm_array m)[p := tm_next m]) + {#tm_array m ! p#}) + mset (concat (tm_garbage m))"
    using g by (simp add: tm_all_def tm_resize_array_def)
  also have "\<dots> = mset (tm_all m) + {#tm_next m#}" unfolding mset_update_new [OF assms(2)] by (simp add: tm_all_def)
  finally have "mset (tm_all (tm_resize_array p m)) = mset (tm_all m) + {#tm_next m#}" .
  then show ?thesis using assms by (auto simp: tm_inv_def tm_resize_array_def)
qed

text \<open>Deleting distinct live arrays, one after the other.\<close>

lemma fold_tm_delete:
  "distinct xs \<Longrightarrow> distinct live \<Longrightarrow> set xs \<subseteq> set live \<Longrightarrow> fold tm_delete xs (Some live) = Some (filter (\<lambda>a. a \<notin> set xs) live)"
proof (induction xs arbitrary: live)
  case (Cons x xs)
  have "set xs \<subseteq> set (remove1 x live)" using Cons.prems by auto
  then have "fold tm_delete xs (Some (remove1 x live)) = Some (filter (\<lambda>a. a \<notin> set xs) (remove1 x live))"
    using Cons by simp
  moreover have "tm_delete x (Some live) = Some (remove1 x live)" using Cons.prems by (simp add: tm_delete_def)
  moreover have "filter (\<lambda>a. a \<notin> set xs) (remove1 x live) = filter (\<lambda>a. a \<notin> set (x # xs)) live"
    using Cons.prems by (auto simp: distinct_remove1_removeAll removeAll_filter_not_eq intro!: filter_cong)
  ultimately show ?case by simp
qed simp

definition deleted :: "tq_memory \<Rightarrow> nat list" where
  "deleted m = concat (map (\<lambda>p. tm_garbage m ! p @ [tm_array m ! p]) [0..<length (tm_array m)])"

lemma deleted_all: "length (tm_garbage m) = length (tm_array m) \<Longrightarrow> mset (deleted m) = mset (tm_all m)"
proof -
  assume len: "length (tm_garbage m) = length (tm_array m)"
  have "mset (concat (map (\<lambda>p. xs ! p @ [ys ! p]) [0..<n])) = mset (concat (map ((!) xs) [0..<n])) + mset (map ((!) ys) [0..<n])"
    for xs and ys :: "nat list" and n by (induction n) auto
  from this [of "tm_garbage m" "tm_array m" "length (tm_array m)"] show ?thesis
    using map_nth [of "tm_garbage m"] map_nth [of "tm_array m"] len by (simp add: deleted_def tm_all_def)
qed

lemma fold_fold: "fold (\<lambda>p s. f (y p) (fold f (xs p) s)) ps s = fold f (concat (map (\<lambda>p. xs p @ [y p]) ps)) s"
  by (induction ps arbitrary: s) auto

lemma destruct_live:
  assumes "tm_inv m"
  shows "TaskQueue_destruct m = Some (Some [])"
proof -
  have d: "mset (deleted m) = mset (tm_live m)" using assms deleted_all [of m] by (simp add: tm_inv_def)
  then have "distinct (deleted m)" "set (deleted m) = set (tm_live m)"
    using assms mset_eq_imp_distinct_iff [OF d] mset_eq_setD [OF d] by (auto simp: tm_inv_def)
  moreover have "TaskQueue_destruct m = Some (fold tm_delete (deleted m) (Some (tm_live m)))"
    unfolding TaskQueue_destruct_def unroll_lanes deleted_def fold_fold [symmetric] by simp
  ultimately show ?thesis using assms fold_tm_delete [of "deleted m" "tm_live m"] by (simp add: tm_inv_def)
qed

lemma fold_tm_construct:
  "n \<le> length (tm_array m) \<Longrightarrow> n \<le> length (tm_garbage m) \<Longrightarrow> fold (\<lambda>i. tm_construct_lane (int i)) [0..<n] m =
     \<lparr>tm_array = map (\<lambda>i. tm_next m + i) [0..<n] @ drop n (tm_array m), tm_garbage = replicate n [] @ drop n (tm_garbage m),
      tm_live = rev (map (\<lambda>i. tm_next m + i) [0..<n]) @ tm_live m, tm_next = tm_next m + n\<rparr>"
proof (induction n)
  case (Suc n)
  then show ?case
    by (simp add: tm_construct_lane_def list_update_append Cons_nth_drop_Suc [symmetric] replicate_app_Cons_same)
qed simp

lemma tm_construct_inv: "\<exists>m. tm_construct n = Some m \<and> tm_inv m \<and> length (tm_array m) = n \<and> tm_garbage m = replicate n []"
proof -
  have "concat (replicate n []) = []" by simp
  then show ?thesis
    unfolding tm_construct_def unroll_lanes by (auto simp: fold_tm_construct tm_inv_def tm_all_def distinct_map)
qed

lemma tm_resize_lanes [simp]: "length (tm_array (tm_resize_array p m)) = length (tm_array m)"
  by (simp add: tm_resize_array_def)

lemma tm_call_inv: "tm_inv m \<Longrightarrow> call_lane (length (tm_array m)) c \<Longrightarrow> tm_inv (tm_call c q m) \<and> length (tm_array (tm_call c q m)) = length (tm_array m)"
  by (cases c) (auto simp: tm_inv_resize)

lemma calls_memory:
  "tm_inv m \<Longrightarrow> list_all (call_lane (length (tm_array m))) cs \<Longrightarrow> tq_calls cs (q, m) = (rs, q', m') \<Longrightarrow> tm_inv m'"
proof (induction cs arbitrary: q m rs)
  case (Cons c cs)
  obtain r q1 where c: "tq_call c q = (r, q1)" by fastforce
  obtain rs' where "tq_calls cs (q1, tm_call c q m) = (rs', q', m')" using Cons.prems(3) c by (auto split: prod.splits)
  then show ?case using Cons.IH tm_call_inv [of m c q] Cons.prems(1,2) by auto
qed simp

section \<open>Properties\<close>

text \<open>C11: The prioritised queue as a whole is one list per priority. Whatever a client pushes, pops and steals, with a
  priority or without one, and asks, every answer is that of the reference, and the queue then holds what the reference
  holds; its destructor, unrolled over the priorities, deletes every array the constructor and the growths
  allocated, each once.\<close>

theorem task_queue_refines:
  assumes new: "new_TaskQueue None n c = Inr q" "tm_construct n = Some m" and ok: "list_all (call_lane n) cs"
    and run: "tq_calls cs (q, m) = (rs, q', m')"
  shows "ref_calls cs (replicate n []) = (rs, tq_abs q') \<and> tq_inv q' \<and> TaskQueue_destruct m' = Some (Some [])"
proof -
  have q: "tq_inv q" "tq_lanes q = n" "\<forall>p<n. tq_items p q = []" using new_TaskQueue_inv [OF new(1)] by auto
  then have "tq_abs q = replicate n []" by (intro nth_equalityI) (auto simp: tq_abs_def)
  moreover have "tm_inv m" "length (tm_array m) = n" using tm_construct_inv [of n] new(2) by auto
  ultimately show ?thesis using calls_refine [OF q(1) _ run] calls_memory [OF _ _ run] destruct_live [of m'] q(2) ok by auto
qed

theorem task_queue_refines_witness:
  "\<exists>(q :: nat TaskQueue) m rs q' m'. new_TaskQueue None 3 1 = Inr q \<and> tm_construct 3 = Some m
     \<and> tq_calls [TQ_Push 2 20, TQ_Push 0 1, TQ_Push 0 2, TQ_Push 0 3, TQ_Steal, TQ_Pop, TQ_PopAt 2, TQ_Size] (q, m) = (rs, q', m')
     \<and> rs = [TA_Void, TA_Void, TA_Void, TA_Void, TA_Item (Some 1), TA_Item (Some 3), TA_Item (Some 20), TA_Nat 1]
     \<and> TaskQueue_destruct m' = Some (Some [])"
proof -
  let ?cs = "[TQ_Push 2 20, TQ_Push 0 1, TQ_Push 0 2, TQ_Push 0 3, TQ_Steal, TQ_Pop, TQ_PopAt 2, TQ_Size] :: nat tq_op list"
  obtain q :: "nat TaskQueue" where q: "new_TaskQueue None 3 1 = Inr q" by (simp add: new_TaskQueue_def)
  obtain m where m: "tm_construct 3 = Some m" using tm_construct_inv by blast
  obtain rs q' m' where r: "tq_calls ?cs (q, m) = (rs, q', m')" using prod_cases3 by blast
  have "list_all (call_lane 3) ?cs" by simp
  from task_queue_refines [OF q m this r] have ref: "ref_calls ?cs (replicate 3 []) = (rs, tq_abs q')"
    and d: "TaskQueue_destruct m' = Some (Some [])" by blast+
  have "fst (ref_calls ?cs (replicate 3 []))
      = [TA_Void, TA_Void, TA_Void, TA_Void, TA_Item (Some 1), TA_Item (Some 3), TA_Item (Some 20), TA_Nat 1]"
    by (simp add: serve_def serve_at_def list_pop_def list_steal_def numeral_3_eq_3 upt_rec)
  then show ?thesis using q m r d ref by auto
qed

end
