(* ===== verification/Float_Single.thy ===== *)
theory Float_Single
  imports AR_Prelude "HOL-Library.Log_Nat"
begin

text \<open>
  Single-precision floats as the sources use them: conversion of a positive integer and division of two
  such values, to the nearest number with a significand of 24 bits, ties to even. The numbers
  converted are below \<open>2 ^ 64\<close>, so neither overflow nor the subnormal range is reached. A
  float is the rational number it stands for.
\<close>

section \<open>Definitions\<close>

definition round_half_even :: "rat \<Rightarrow> int" where
  "round_half_even x =
     (let f = \<lfloor>x\<rfloor>; d = x - of_int f in
      if d < 1/2 then f else if d > 1/2 then f + 1 else if even f then f else f + 1)"

text \<open>The binary exponent of a positive number.\<close>

definition exponent :: "rat \<Rightarrow> int" where
  "exponent q = (if 1 \<le> q then int (floorlog 2 (nat \<lfloor>q\<rfloor>)) - 1 else - int (floorlog 2 (nat \<lceil>1 / q\<rceil> - 1)))"

definition ulp :: "rat \<Rightarrow> rat" where
  "ulp q = 2 powi (exponent q - 23)"

definition fl :: "rat \<Rightarrow> rat" where
  "fl q = (if q = 0 then 0 else of_int (round_half_even (q / ulp q)) * ulp q)"

definition fl_div :: "nat \<Rightarrow> nat \<Rightarrow> rat" where
  "fl_div a b = fl (fl (of_nat a) / fl (of_nat b))"

section \<open>Rounding\<close>

lemma round_mono_int:
  assumes "of_int n \<le> x" shows "n \<le> round_half_even x"
proof -
  have "n \<le> \<lfloor>x\<rfloor>" using assms by (simp add: le_floor_iff)
  then show ?thesis by (auto simp: round_half_even_def Let_def)
qed

lemma round_le_int:
  assumes "x \<le> of_int n" shows "round_half_even x \<le> n"
proof (cases "x = of_int n")
  case False
  with assms have "\<lfloor>x\<rfloor> < n" by (simp add: floor_less_iff)
  then show ?thesis by (auto simp: round_half_even_def Let_def)
qed (simp add: round_half_even_def)

lemma round_int [simp]: "round_half_even (of_int n) = n"
  by (simp add: round_half_even_def)

lemma round_up:
  assumes "of_int n + 1/2 < x" shows "n + 1 \<le> round_half_even x"
proof (cases "\<lfloor>x\<rfloor> = n")
  case True
  with assms show ?thesis by (auto simp: round_half_even_def Let_def)
next
  case False
  with assms have "n < \<lfloor>x\<rfloor>" by (simp add: le_floor_iff less_le)
  then show ?thesis by (auto simp: round_half_even_def Let_def)
qed

lemma round_down:
  assumes "x < of_int n - 1/2" shows "round_half_even x \<le> n - 1"
proof -
  have "\<lfloor>x\<rfloor> < n" unfolding floor_less_iff using assms by linarith
  then have f: "\<lfloor>x\<rfloor> \<le> n - 1" by simp
  show ?thesis
  proof (cases "\<lfloor>x\<rfloor> = n - 1")
    case True
    with assms show ?thesis by (auto simp: round_half_even_def Let_def)
  qed (use f in \<open>auto simp: round_half_even_def Let_def\<close>)
qed

section \<open>The unit in the last place\<close>

lemma ulp_pos [simp]: "0 < ulp q" "ulp q \<noteq> 0"
  by (simp_all add: ulp_def)

lemma floorlog_two: "0 < n \<Longrightarrow> 2 ^ (floorlog 2 n - 1) \<le> n" "n < 2 ^ floorlog 2 n" for n :: nat
  using floorlog_bounds [of n 2] by (cases "n = 0"; simp)+

lemma exponent_le: 
  assumes "0 < q" shows "2 powi exponent q \<le> q"
proof (cases "1 \<le> q")
  case True
  let ?n = "nat \<lfloor>q\<rfloor>"
  have n: "0 < ?n" "of_nat ?n \<le> q" using True by (auto simp: le_floor_iff)
  then have "floorlog 2 ?n > 0" by (simp add: floorlog_def)
  then have "(2::rat) powi exponent q = 2 ^ (floorlog 2 ?n - 1)" using True
    by (simp add: exponent_def power_int_def nat_diff_distrib)
  also have "\<dots> \<le> of_nat ?n" using floorlog_two(1) [OF n(1)] by (metis of_nat_le_iff of_nat_numeral of_nat_power)
  finally show ?thesis using n(2) by linarith
next
  case False
  let ?n = "nat \<lceil>1 / q\<rceil> - 1"
  have "1 / q > 1" using False assms by simp
  then have c: "1 / q \<le> of_nat (?n + 1)" by (simp add: of_nat_diff nat_le_iff) linarith
  also have "\<dots> \<le> 2 ^ floorlog 2 ?n" using floorlog_two(2) [of ?n]
    by (metis Suc_eq_plus1 Suc_leI of_nat_le_iff of_nat_numeral of_nat_power)
  finally have "1 / 2 ^ floorlog 2 ?n \<le> q" using assms by (simp add: field_simps)
  then show ?thesis using False by (simp add: exponent_def power_int_minus divide_simps)
qed

lemma ulp_le: "0 < q \<Longrightarrow> ulp q \<le> q / 2 ^ 23"
  using exponent_le [of q] by (simp add: ulp_def power_int_diff)

lemma ulp_divides:
  assumes "0 < q" "q < 2 ^ 24"
  shows "\<exists>m::int. 1 / ulp q = of_int m"
proof -
  have "2 powi exponent q < (2::rat) powi 24" using exponent_le [OF assms(1)] assms(2) by simp
  then have "\<not> 24 \<le> exponent q" using power_int_increasing [of 24 "exponent q" "2::rat"] by fastforce
  then have "1 / ulp q = 2 ^ nat (23 - exponent q)"
    by (simp add: ulp_def power_int_def nat_diff_distrib divide_simps power_int_minus)
  then show ?thesis by (metis of_int_numeral of_int_power)
qed

section \<open>Where a float is exact\<close>

lemma fl_multiple: "q / ulp q = of_int n \<Longrightarrow> fl q = q"
  unfolding fl_def using ulp_pos(2) [of q] by (metis nonzero_eq_divide_eq round_int)

lemma fl_of_nat [simp]:
  assumes "n \<le> 2 ^ 24" shows "fl (of_nat n) = of_nat n"
proof (cases "n = 0 \<or> n = 2 ^ 24")
  case True
  have "exponent (2 ^ 24) = 24" by (simp add: exponent_def compute_floorlog)
  then have "fl (2 ^ 24) = 2 ^ 24" by (intro fl_multiple [of _ "2 ^ 23"]) (simp add: ulp_def)
  moreover have "fl 0 = 0" by (simp add: fl_def)
  ultimately show ?thesis using True by (auto simp: of_nat_power)
next
  case False
  with assms have "of_nat n < (2::rat) ^ 24" using of_nat_less_iff [of n "2 ^ 24", where 'a = rat] by simp
  with False obtain m where "1 / ulp (of_nat n) = of_int m" using ulp_divides [of "of_nat n"] by auto
  then have "of_nat n / ulp (of_nat n) = of_int (int n * m)" by (metis of_int_mult of_int_of_nat_eq times_divide_eq_right mult.right_neutral)
  then show ?thesis by (rule fl_multiple)
qed

text \<open>From \<open>2 ^ 24\<close> on the integers are rounded: up to half a unit above a power of two is lost.\<close>

lemma exponent_of_nat:
  assumes "2 ^ m \<le> n" "n < 2 ^ Suc m" shows "exponent (of_nat n) = int m"
proof -
  have "floorlog 2 n = Suc m"
    using floorlog_leI [OF assms(2)] floorlog_ge_SucI [OF assms(1)] by simp
  moreover have "0 < n" using assms(1) by (rule less_le_trans [rotated]) simp
  ultimately show ?thesis by (simp add: exponent_def)
qed

lemma fl_power_plus:
  assumes "24 \<le> m" "e \<le> 2 ^ (m - 24)" shows "fl (of_nat (2 ^ m + e)) = 2 ^ m"
proof -
  let ?q = "of_nat (2 ^ m + e) :: rat" and ?u = "2 ^ (m - 23) :: rat"
  have "e < 2 ^ m" using assms by (meson le_less_trans power_strict_increasing_iff diff_less one_less_numeral_iff
      semiring_norm(76) zero_less_numeral less_le_trans)
  then have u: "ulp ?q = ?u" using assms(1) exponent_of_nat [of m "2 ^ m + e"]
    by (simp add: ulp_def power_int_def nat_diff_distrib)
  have two: "(2 :: rat) ^ m = 2 ^ 23 * ?u" using assms(1) power_add [of "2 :: rat" 23 "m - 23"] by simp
  have "?u = 2 * 2 ^ (m - 24)" using assms(1) by (simp flip: power_Suc add: Suc_diff_le)
  moreover have "(of_nat e :: rat) \<le> 2 ^ (m - 24)" using assms(2) by (metis of_nat_le_iff of_nat_numeral of_nat_power)
  ultimately have half: "of_nat e / ?u \<le> 1 / 2" by (simp add: divide_simps)
  define d where "d = of_nat e / ?u"
  have d: "0 \<le> d" "d \<le> 1 / 2" using half by (simp_all only: d_def) simp
  have "?q / ?u = 2 ^ 23 + d" using two by (simp add: d_def field_simps)
  moreover have "\<lfloor>2 ^ 23 + d\<rfloor> = 2 ^ 23" using d by (intro floor_unique) simp_all
  ultimately have "round_half_even (?q / ?u) = 2 ^ 23" using d by (simp add: round_half_even_def Let_def)
  moreover have "?q \<noteq> 0" unfolding of_nat_eq_0_iff by simp
  ultimately have "fl ?q = of_int (2 ^ 23) * ?u" using u by (simp only: fl_def if_False)
  then show ?thesis using two by simp
qed

lemma fl_power: "fl (2 ^ m) = 2 ^ m"
proof (cases "m \<le> 24")
  case True
  then have "(2 :: nat) ^ m \<le> 2 ^ 24" by (rule power_increasing) simp
  from fl_of_nat [OF this] show ?thesis by simp
next
  case False
  then show ?thesis using fl_power_plus [of m 0] by simp
qed

lemma fl_div_power:
  assumes "24 \<le> m" "e \<le> 2 ^ (m - 24)" "k \<le> m"
  shows "fl_div (2 ^ m + e) (2 ^ k) = 2 ^ (m - k)"
  using assms(3) fl_power_plus [OF assms(1,2)] fl_power [of k] fl_power [of "m - k"]
  by (simp add: fl_div_def power_diff)

text \<open>
  A quotient of integers below \<open>2 ^ 24\<close> that is not an integer stays strictly between the same
  two integers: it is more than half a unit away from both.
\<close>

lemma fl_between:
  assumes q: "0 < q" "q < 2 ^ 24" and k: "of_int k < q" "q < of_int (k + 1)"
    and low: "of_int k + ulp q / 2 < q" and high: "q < of_int (k + 1) - ulp q / 2"
  shows "of_int k < fl q \<and> fl q < of_int (k + 1)"
proof -
  obtain m where m: "1 / ulp q = of_int m" using ulp_divides [OF q] by blast
  have u: "ulp q * of_int m = 1" unfolding m [symmetric] by simp
  have "of_int (k * m) + 1/2 < q / ulp q" using low u by (simp add: field_simps) (metis mult.assoc mult.commute mult_1)
  from round_up [OF this] have "of_int (k * m) < (of_int (round_half_even (q / ulp q)) :: rat)" by linarith
  then have "of_int (k * m) * ulp q < fl q" using q by (simp add: fl_def)
  moreover have "q / ulp q < of_int ((k + 1) * m) - 1/2" using high u
    by (simp add: field_simps) (metis distrib_left mult.assoc mult.commute mult_1)
  from round_down [OF this] have "(of_int (round_half_even (q / ulp q)) :: rat) < of_int ((k + 1) * m)" by linarith
  then have "fl q < of_int ((k + 1) * m) * ulp q" using q by (simp add: fl_def)
  moreover have "of_int (j * m) * ulp q = of_int j" for j using u by (simp add: mult.assoc mult.commute [of "of_int m"])
  ultimately show ?thesis by (simp only:)
qed

lemma fl_div_between:
  assumes a: "a < 2 ^ 24" and b: "0 < b" "b \<le> 2 ^ 24"
  shows "if b dvd a then fl_div a b = of_nat (a div b)
    else of_nat (a div b) < fl_div a b \<and> fl_div a b < of_nat (a div b + 1)"
proof -
  have eq: "fl_div a b = fl (of_nat a / of_nat b)" using a b by (simp add: fl_div_def)
  show ?thesis
  proof (cases "b dvd a")
    case True
    then obtain c where c: "a = b * c" by blast
    then have "c \<le> 2 ^ 24" using a b by (metis dual_order.trans less_imp_le mult_le_mono1 nat_mult_1 Suc_leI One_nat_def)
    then show ?thesis using eq c b True by simp
  next
    case False
    let ?k = "a div b" and ?q = "of_nat a / of_nat b :: rat"
    have r: "a mod b \<noteq> 0" "a mod b < b" using False b by (auto simp: dvd_eq_mod_eq_0)
    have "of_nat a = (of_nat ?k * of_nat b + of_nat (a mod b) :: rat)" by (metis div_mult_mod_eq of_nat_add of_nat_mult)
    then have q: "?q = of_nat ?k + of_nat (a mod b) / of_nat b" using b by (simp add: field_simps)
    have 1: "1 / of_nat b \<le> (of_nat (a mod b) / of_nat b :: rat)" using r b by (simp add: divide_right_mono Suc_leI)
    have "of_nat (a mod b) + 1 \<le> (of_nat b :: rat)" using r(2) by (metis Suc_eq_plus1 Suc_leI of_nat_1 of_nat_add of_nat_mono)
    then have 2: "of_nat (a mod b) / of_nat b \<le> (1 - 1 / of_nat b :: rat)" using b by (simp add: field_simps)
    have a24: "(of_nat a :: rat) < 2 ^ 24" using a by (metis of_nat_less_iff of_nat_numeral of_nat_power)
    have "0 < a" using r by (auto intro: gr0I)
    then have pos: "0 < ?q" using b by simp
    have "?q < 2 ^ 24" using a24 b by (simp add: field_simps)
    moreover have "ulp ?q / 2 < 1 / of_nat b"
    proof -
      have "ulp ?q \<le> of_nat a / of_nat b / 2 ^ 23" using ulp_le [OF pos] .
      also have "\<dots> < 2 ^ 24 / of_nat b / 2 ^ 23" using a24 b by (simp add: field_simps)
      finally show ?thesis by simp
    qed
    moreover have "0 < (1 / of_nat b :: rat)" using b by simp
    then have "of_nat ?k < ?q" "?q < of_nat ?k + 1" "of_nat ?k + 1 / of_nat b \<le> ?q" "?q \<le> of_nat ?k + 1 - 1 / of_nat b"
      unfolding q using 1 2 by linarith+
    ultimately show ?thesis unfolding eq using fl_between [OF pos, of "int ?k"] False by (simp add: add.commute)
  qed
qed

lemma fl_div_floor: "a < 2 ^ 24 \<Longrightarrow> 0 < b \<Longrightarrow> b \<le> 2 ^ 24 \<Longrightarrow> \<lfloor>fl_div a b\<rfloor> = int (a div b)"
  using fl_div_between [of a b] by (auto split: if_splits intro!: floor_unique)

lemma fl_div_ceiling:
  assumes "a < 2 ^ 24" "0 < b" "b \<le> 2 ^ 24"
  shows "\<lceil>fl_div a b\<rceil> = int ((a + b - 1) div b)"
proof (cases "b dvd a")
  case True
  then obtain c where c: "a = b * c" by blast
  have "(b * c + b - 1) div b = c" using assms(2) by (intro div_nat_eqI) (auto simp: algebra_simps)
  then show ?thesis using fl_div_between [OF assms] True c assms(2) by simp
next
  case False
  have "(a + b - 1) div b = a div b + 1"
  proof (rule div_nat_eqI)
    have r: "a mod b \<noteq> 0" "a mod b < b" using False assms(2) by (auto simp: dvd_eq_mod_eq_0)
    have a: "a = b * (a div b) + a mod b" by simp
    show "b * (a div b + 1) \<le> a + b - 1" using a r by (simp only: distrib_left)
    show "a + b - 1 < b * Suc (a div b + 1)" using a r by (simp only: distrib_left mult_Suc_right)
  qed
  then show ?thesis using fl_div_between [OF assms] False by (intro ceiling_unique) auto
qed

end
