(* ===== verification/Resource_Pool.thy ===== *)
theory Resource_Pool
  imports Float_Single
begin

text \<open>
  \<open>src/resource_pool.cpp\<close>, \<open>include/ar/allocators.hpp\<close>, \<open>flat_buffer.hpp\<close> and \<open>pooled_stack.hpp\<close>.
  The pool of chunks is \<open>boost::pool\<close>, outside the sources: its operations are the record
  \<open>pool_ops\<close>, a parameter, and what its documentation promises of them is \<open>pool_laws\<close>, with
  \<open>used\<close> the runs of chunks it has handed out. The count of chunks is computed in single
  precision, as in the code (\<open>Float_Single\<close>). An address is a natural number, \<open>size_t\<close> wraps at
  \<open>2 ^ 64\<close>, and every operation of a pool is under its lock. In the manager, \<open>new\<close> yields an
  address that no live pool has, and \<open>delete\<close> of an address that is not live is an error.
\<close>

section \<open>Definitions\<close>

datatype pool_error = bad_alloc | pool_undefined

text \<open>The conversion to \<open>int\<close> of a value that does not fit is undefined, as is a division by zero.\<close>

definition get_chunks_count :: "nat \<Rightarrow> nat \<Rightarrow> nat option" where
  "get_chunks_count sz chunk_size =
     (if chunk_size = 0 then None
      else let c = \<lceil>fl_div sz chunk_size\<rceil> in if c < 2 ^ 31 then Some (nat c) else None)"

record 'p pool_ops =
  po_new :: "nat \<Rightarrow> nat \<Rightarrow> nat \<Rightarrow> 'p"
  po_ordered_malloc :: "nat \<Rightarrow> 'p \<Rightarrow> nat option \<times> 'p"
  po_ordered_free :: "nat \<Rightarrow> nat \<Rightarrow> 'p \<Rightarrow> 'p"
  po_free :: "nat \<Rightarrow> 'p \<Rightarrow> 'p"

record 'p resource_pool =
  rp_chunk_size :: nat
  rp_pool :: 'p

definition new_resource_pool :: "'p pool_ops \<Rightarrow> nat \<Rightarrow> nat \<Rightarrow> nat \<Rightarrow> 'p resource_pool" where
  "new_resource_pool ops chunk_sz nnext_size nmax_size =
     \<lparr>rp_chunk_size = chunk_sz, rp_pool = po_new ops chunk_sz nnext_size nmax_size\<rparr>"

definition pool_allocate :: "'p pool_ops \<Rightarrow> nat \<Rightarrow> 'p resource_pool \<Rightarrow> (pool_error + nat) \<times> 'p resource_pool" where
  "pool_allocate ops sz r =
     (case get_chunks_count sz (rp_chunk_size r) of
        None \<Rightarrow> (Inl pool_undefined, r)
      | Some n \<Rightarrow>
          (case po_ordered_malloc ops n (rp_pool r) of
             (None, p) \<Rightarrow> (Inl bad_alloc, r\<lparr>rp_pool := p\<rparr>)
           | (Some ptr, p) \<Rightarrow> (Inr ptr, r\<lparr>rp_pool := p\<rparr>)))"

definition pool_deallocate :: "'p pool_ops \<Rightarrow> nat \<Rightarrow> nat \<Rightarrow> 'p resource_pool \<Rightarrow> 'p resource_pool option" where
  "pool_deallocate ops ptr sz r =
     (case get_chunks_count sz (rp_chunk_size r) of
        None \<Rightarrow> None
      | Some n \<Rightarrow> Some (r\<lparr>rp_pool := po_ordered_free ops ptr n (rp_pool r)\<rparr>))"

definition deallocate_one :: "'p pool_ops \<Rightarrow> nat \<Rightarrow> 'p resource_pool \<Rightarrow> 'p resource_pool" where
  "deallocate_one ops ptr r = r\<lparr>rp_pool := po_free ops ptr (rp_pool r)\<rparr>"

text \<open>The manager and the pools that are alive.\<close>

record manager =
  mg_pools :: "nat list"
  mg_default :: "nat option"
  mg_live :: "nat list"

definition delete_pool :: "nat \<Rightarrow> manager \<Rightarrow> manager option" where
  "delete_pool pool m = (if pool \<in> set (mg_live m) then Some (m\<lparr>mg_live := remove1 pool (mg_live m)\<rparr>) else None)"

definition create_default_resource :: "nat \<Rightarrow> manager \<Rightarrow> manager" where
  "create_default_resource pool m =
     m\<lparr>mg_default := Some pool, mg_pools := mg_pools m @ [pool], mg_live := mg_live m @ [pool]\<rparr>"

definition new_manager :: "nat \<Rightarrow> manager" where
  "new_manager pool = create_default_resource pool \<lparr>mg_pools = [], mg_default = None, mg_live = []\<rparr>"

definition create_resource :: "nat \<Rightarrow> manager \<Rightarrow> nat \<times> manager" where
  "create_resource pool m = (pool, m\<lparr>mg_pools := mg_pools m @ [pool], mg_live := mg_live m @ [pool]\<rparr>)"

definition delete_resource :: "nat \<Rightarrow> manager \<Rightarrow> manager option" where
  "delete_resource pool m =
     (if pool \<in> set (mg_pools m)
      then (case delete_pool pool m of None \<Rightarrow> None | Some m \<Rightarrow> Some (m\<lparr>mg_pools := remove1 pool (mg_pools m)\<rparr>))
      else Some m)"

primrec delete_pools :: "nat list \<Rightarrow> manager \<Rightarrow> manager option" where
  "delete_pools [] m = Some m"
| "delete_pools (pool # pools) m = (case delete_pool pool m of None \<Rightarrow> None | Some m \<Rightarrow> delete_pools pools m)"

definition manager_end :: "manager \<Rightarrow> manager option" where
  "manager_end m = delete_pools (mg_pools m) m"

text \<open>What a program does with the manager: \<open>new\<close> has an address that is not live.\<close>

datatype manager_call = M_Create nat | M_Delete nat

definition manager_step :: "manager_call \<Rightarrow> manager \<Rightarrow> manager option" where
  "manager_step c m =
     (case c of
        M_Create pool \<Rightarrow> Some (if pool \<in> set (mg_live m) then m else snd (create_resource pool m))
      | M_Delete pool \<Rightarrow> delete_resource pool m)"

primrec manager_run :: "manager_call list \<Rightarrow> manager \<Rightarrow> manager option" where
  "manager_run [] m = Some m"
| "manager_run (c # cs) m = (case manager_step c m of None \<Rightarrow> None | Some m \<Rightarrow> manager_run cs m)"

text \<open>Allocators: \<open>sz_T\<close> is the size of the element type.\<close>

definition size_t :: "nat \<Rightarrow> nat" where
  "size_t n = n mod 2 ^ 64"

definition Allocator_allocate :: "'p pool_ops \<Rightarrow> nat \<Rightarrow> nat \<Rightarrow> 'p resource_pool \<Rightarrow> (pool_error + nat) \<times> 'p resource_pool" where
  "Allocator_allocate ops sz_T n r = pool_allocate ops (size_t (n * sz_T)) r"

definition Allocator_deallocate :: "'p pool_ops \<Rightarrow> nat \<Rightarrow> nat \<Rightarrow> nat \<Rightarrow> 'p resource_pool \<Rightarrow> 'p resource_pool option" where
  "Allocator_deallocate ops sz_T ptr n r = pool_deallocate ops ptr (size_t (n * sz_T)) r"

definition construct_at :: "'p pool_ops \<Rightarrow> nat \<Rightarrow> 'p resource_pool \<Rightarrow> (pool_error + nat) \<times> 'p resource_pool" where
  "construct_at ops sz_T r = Allocator_allocate ops sz_T 1 r"

definition destroy_at :: "'p pool_ops \<Rightarrow> nat \<Rightarrow> nat \<Rightarrow> 'p resource_pool \<Rightarrow> 'p resource_pool option" where
  "destroy_at ops sz_T ptr r = Allocator_deallocate ops sz_T ptr 1 r"

definition max_size :: "nat \<Rightarrow> nat" where
  "max_size sz_T = (2 ^ 64 - 1) div sz_T"

record flat_buffer =
  fb_begin :: "nat option"
  fb_size :: nat

definition new_flat_buffer ::
  "'p pool_ops \<Rightarrow> nat \<Rightarrow> nat \<Rightarrow> 'p resource_pool \<Rightarrow> (pool_error + flat_buffer) \<times> 'p resource_pool" where
  "new_flat_buffer ops sz_T sz r =
     (case Allocator_allocate ops sz_T (size_t (sz * sz_T)) r of
        (Inl e, r) \<Rightarrow> (Inl e, r)
      | (Inr ptr, r) \<Rightarrow> (Inr \<lparr>fb_begin = Some ptr, fb_size = sz\<rparr>, r))"

definition flat_buffer_free :: "'p pool_ops \<Rightarrow> nat \<Rightarrow> flat_buffer \<Rightarrow> 'p resource_pool \<Rightarrow> (flat_buffer \<times> 'p resource_pool) option" where
  "flat_buffer_free ops sz_T b r =
     (if fb_size b = 0 then Some (b, r)
      else case fb_begin b of
        None \<Rightarrow> None
      | Some ptr \<Rightarrow>
          (case Allocator_deallocate ops sz_T ptr (size_t (fb_size b * sz_T)) r of
             None \<Rightarrow> None
           | Some r \<Rightarrow> Some (b\<lparr>fb_size := 0\<rparr>, r)))"

record stack_context =
  sctx_size :: nat
  sctx_sp :: nat

definition stack_allocate :: "'p pool_ops \<Rightarrow> nat \<Rightarrow> 'p resource_pool \<Rightarrow> (pool_error + stack_context) \<times> 'p resource_pool" where
  "stack_allocate ops sz r =
     (case pool_allocate ops sz r of
        (Inl e, r) \<Rightarrow> (Inl e, r)
      | (Inr vp, r) \<Rightarrow> (Inr \<lparr>sctx_size = sz, sctx_sp = vp + sz\<rparr>, r))"

definition stack_deallocate :: "'p pool_ops \<Rightarrow> nat \<Rightarrow> stack_context \<Rightarrow> 'p resource_pool \<Rightarrow> 'p resource_pool option" where
  "stack_deallocate ops sz sctx r = pool_deallocate ops (sctx_sp sctx - sctx_size sctx) sz r"

text \<open>A client of a pool: it asks for sizes, and gives back what it has, by its place in the list of what it has.\<close>

datatype pool_call = P_Allocate nat | P_Deallocate nat

fun pool_step :: "'p pool_ops \<Rightarrow> pool_call \<Rightarrow> 'p resource_pool \<times> (nat \<times> nat) list \<Rightarrow> ('p resource_pool \<times> (nat \<times> nat) list) option" where
  "pool_step ops (P_Allocate sz) (r, has) =
     (case pool_allocate ops sz r of
        (Inl bad_alloc, r) \<Rightarrow> Some (r, has)
      | (Inl pool_undefined, r) \<Rightarrow> None
      | (Inr ptr, r) \<Rightarrow> Some (r, (ptr, sz) # has))"
| "pool_step ops (P_Deallocate i) (r, has) =
     (if i < length has
      then (case pool_deallocate ops (fst (has ! i)) (snd (has ! i)) r of
              None \<Rightarrow> None | Some r \<Rightarrow> Some (r, remove1 (has ! i) has))
      else Some (r, has))"

primrec pool_run :: "'p pool_ops \<Rightarrow> pool_call list \<Rightarrow> 'p resource_pool \<times> (nat \<times> nat) list \<Rightarrow> ('p resource_pool \<times> (nat \<times> nat) list) option" where
  "pool_run ops [] s = Some s"
| "pool_run ops (c # cs) s = (case pool_step ops c s of None \<Rightarrow> None | Some s \<Rightarrow> pool_run ops cs s)"

section \<open>What the library promises\<close>

text \<open>
  \<open>ordered_malloc (n)\<close> yields \<open>n\<close> contiguous chunks that no one uses, or null; \<open>ordered_free\<close> takes
  back a run that was handed out.
\<close>

definition pool_laws :: "'p pool_ops \<Rightarrow> ('p \<Rightarrow> (nat \<times> nat) set) \<Rightarrow> nat \<Rightarrow> bool" where
  "pool_laws ops used chunk_size \<longleftrightarrow>
     (\<forall>nnext nmax. used (po_new ops chunk_size nnext nmax) = {})
     \<and> (\<forall>n p a p'. 0 < n \<longrightarrow> po_ordered_malloc ops n p = (Some a, p') \<longrightarrow>
          used p' = insert (a, n) (used p)
          \<and> (\<forall>b m. (b, m) \<in> used p \<longrightarrow> a + n * chunk_size \<le> b \<or> b + m * chunk_size \<le> a))
     \<and> (\<forall>n p p'. po_ordered_malloc ops n p = (None, p') \<longrightarrow> used p' = used p)
     \<and> (\<forall>n p a. (a, n) \<in> used p \<longrightarrow> used (po_ordered_free ops a n p) = used p - {(a, n)})"

lemma pool_laws_malloc:
  assumes "pool_laws ops used c" "po_ordered_malloc ops n p = (Some a, p')" "0 < n"
  shows "used p' = insert (a, n) (used p)" "(b, m) \<in> used p \<Longrightarrow> a + n * c \<le> b \<or> b + m * c \<le> a"
  using assms unfolding pool_laws_def by simp_all

lemma pool_laws_free:
  "pool_laws ops used c \<Longrightarrow> (a, n) \<in> used p \<Longrightarrow> used (po_ordered_free ops a n p) = used p - {(a, n)}"
  unfolding pool_laws_def by simp

section \<open>Chunks\<close>

definition chunks :: "nat \<Rightarrow> nat \<Rightarrow> nat" where
  "chunks c sz = (sz + c - 1) div c"

lemma get_chunks_count_exact:
  assumes "sz < 2 ^ 24" "0 < c" "c \<le> 2 ^ 24"
  shows "get_chunks_count sz c = Some (chunks c sz)"
proof -
  have "chunks c sz \<le> sz + c - 1" by (simp add: chunks_def)
  then have "int (chunks c sz) < 2 ^ 31" using assms by simp
  then show ?thesis using assms by (simp add: get_chunks_count_def fl_div_ceiling chunks_def)
qed

lemma chunks_cover: "0 < c \<Longrightarrow> sz \<le> chunks c sz * c"
  unfolding chunks_def using div_mult_mod_eq [of "sz + c - 1" c] mod_less_divisor [of c "sz + c - 1"] by linarith

lemma chunks_pos: "0 < c \<Longrightarrow> 0 < sz \<Longrightarrow> 0 < chunks c sz"
  by (simp add: chunks_def div_greater_zero_iff)

text \<open>Above \<open>2 ^ 24\<close> the size itself is rounded, and the count may be too small.\<close>

lemma get_chunks_count_short:
  assumes "24 \<le> m" "e \<le> 2 ^ (m - 24)" "k \<le> m" "m < k + 31"
  shows "get_chunks_count (2 ^ m + e) (2 ^ k) = Some (2 ^ (m - k))"
proof -
  have "\<lceil>fl_div (2 ^ m + e) (2 ^ k)\<rceil> = 2 ^ (m - k)" unfolding fl_div_power [OF assms(1-3)]
    using ceiling_of_int [of "2 ^ (m - k)", where 'a = rat] by simp
  moreover have "(2 :: int) ^ (m - k) < 2 ^ 31" using assms(3,4) by (intro power_strict_increasing) auto
  ultimately show ?thesis by (simp add: get_chunks_count_def nat_power_eq)
qed

section \<open>A pool and its client\<close>

definition apart :: "nat \<Rightarrow> nat \<times> nat \<Rightarrow> nat \<times> nat \<Rightarrow> bool" where
  "apart c x y \<longleftrightarrow> fst x + chunks c (snd x) * c \<le> fst y \<or> fst y + chunks c (snd y) * c \<le> fst x"

definition pool_inv :: "('p \<Rightarrow> (nat \<times> nat) set) \<Rightarrow> nat \<Rightarrow> 'p resource_pool \<times> (nat \<times> nat) list \<Rightarrow> bool" where
  "pool_inv used c s \<longleftrightarrow> rp_chunk_size (fst s) = c
     \<and> used (rp_pool (fst s)) = (\<lambda>x. (fst x, chunks c (snd x))) ` set (snd s)
     \<and> distinct (snd s) \<and> (\<forall>x\<in>set (snd s). 0 < snd x \<and> snd x < 2 ^ 24)
     \<and> (\<forall>x\<in>set (snd s). \<forall>y\<in>set (snd s). x \<noteq> y \<longrightarrow> apart c x y)"

lemma apart_sym: "apart c x y \<longleftrightarrow> apart c y x"
  by (auto simp: apart_def)

lemma apart_blocks:
  assumes "apart c x y" "0 < c" "0 < snd x" "0 < snd y"
  shows "fst x \<noteq> fst y" "{fst x..<fst x + snd x} \<inter> {fst y..<fst y + snd y} = {}"
  using assms chunks_cover [of c "snd x"] chunks_cover [of c "snd y"] by (auto simp: apart_def)

lemma pool_inv_allocate:
  assumes laws: "pool_laws ops used c" and c: "0 < c" "c \<le> 2 ^ 24" and inv: "pool_inv used c (r, has)"
    and sz: "0 < sz" "sz < 2 ^ 24"
  shows "\<exists>r' has'. pool_step ops (P_Allocate sz) (r, has) = Some (r', has') \<and> pool_inv used c (r', has')"
proof -
  have n: "get_chunks_count sz (rp_chunk_size r) = Some (chunks c sz)"
    using get_chunks_count_exact [OF sz(2) c] inv by (simp add: pool_inv_def)
  have pos: "0 < chunks c sz" by (rule chunks_pos) (use c sz in auto)
  obtain p a where p: "po_ordered_malloc ops (chunks c sz) (rp_pool r) = (a, p)" by fastforce
  show ?thesis
  proof (cases a)
    case None
    then have "used p = used (rp_pool r)" using laws p by (auto simp: pool_laws_def)
    then show ?thesis using None n p inv by (simp add: pool_allocate_def pool_inv_def)
  next
    case (Some a)
    note u = pool_laws_malloc(1) [OF laws p [unfolded Some] pos] and free = pool_laws_malloc(2) [OF laws p [unfolded Some] pos]
    have ap: "apart c (a, sz) y" if "y \<in> set has" for y
      using free [of "fst y" "chunks c (snd y)"] that inv by (auto simp: apart_def pool_inv_def)
    have "(a, sz) \<notin> set has" using ap [of "(a, sz)"] c pos by (auto simp: apart_def)
    then have "pool_inv used c (r\<lparr>rp_pool := p\<rparr>, (a, sz) # has)"
      using inv u ap ap [unfolded apart_sym [of c "(a, sz)"]] sz by (auto simp: pool_inv_def)
    then show ?thesis using Some n p by (simp add: pool_allocate_def)
  qed
qed

lemma pool_inv_deallocate:
  assumes laws: "pool_laws ops used c" and c: "0 < c" "c \<le> 2 ^ 24" and inv: "pool_inv used c (r, has)"
  shows "\<exists>r' has'. pool_step ops (P_Deallocate i) (r, has) = Some (r', has') \<and> pool_inv used c (r', has')"
proof (cases "i < length has")
  case True
  let ?x = "has ! i" and ?run = "\<lambda>x. (fst x, chunks c (snd x))"
  have x: "?x \<in> set has" "0 < snd ?x" "snd ?x < 2 ^ 24" using True inv by (auto simp: pool_inv_def)
  have n: "get_chunks_count (snd ?x) (rp_chunk_size r) = Some (chunks c (snd ?x))"
    using get_chunks_count_exact [OF x(3) c] inv by (simp add: pool_inv_def)
  have "?run ?x \<in> used (rp_pool r)" using x inv by (auto simp: pool_inv_def)
  then have u: "used (po_ordered_free ops (fst ?x) (chunks c (snd ?x)) (rp_pool r)) = used (rp_pool r) - {?run ?x}"
    by (rule pool_laws_free [OF laws])
  have other: "?run y \<noteq> ?run ?x" if "y \<in> set has" "y \<noteq> ?x" for y
    using apart_blocks(1) [of c y ?x] that x inv c(1) by (auto simp: pool_inv_def)
  have "set (remove1 ?x has) = set has - {?x}" using inv by (simp add: pool_inv_def)
  then have "?run ` set (remove1 ?x has) = used (rp_pool r) - {?run ?x}" using other inv by (auto simp: pool_inv_def)
  then have "pool_inv used c (r\<lparr>rp_pool := po_ordered_free ops (fst ?x) (chunks c (snd ?x)) (rp_pool r)\<rparr>, remove1 ?x has)"
    using inv u by (auto simp: pool_inv_def)
  then show ?thesis using n True by (simp add: pool_deallocate_def)
qed (use inv in simp)

lemma pool_inv_run:
  assumes laws: "pool_laws ops used c" and c: "0 < c" "c \<le> 2 ^ 24"
  shows "pool_inv used c s \<Longrightarrow> \<forall>sz. P_Allocate sz \<in> set cs \<longrightarrow> 0 < sz \<and> sz < 2 ^ 24 \<Longrightarrow>
    \<exists>s'. pool_run ops cs s = Some s' \<and> pool_inv used c s'"
proof (induction cs arbitrary: s)
  case (Cons call cs)
  obtain r has where s: "s = (r, has)" by fastforce
  have "\<exists>r' has'. pool_step ops call s = Some (r', has') \<and> pool_inv used c (r', has')"
  proof (cases call)
    case (P_Allocate sz)
    then show ?thesis using pool_inv_allocate [OF laws c, of r has sz] Cons.prems s by simp
  next
    case (P_Deallocate i)
    then show ?thesis using pool_inv_deallocate [OF laws c, of r has i] Cons.prems s by simp
  qed
  with Cons.IH Cons.prems show ?case by fastforce
qed simp

text \<open>A pool that never reuses what lies below a run still in use: it shows that the promises can be kept.\<close>

definition above :: "nat \<Rightarrow> (nat \<times> nat) list \<Rightarrow> nat" where
  "above c us = foldr (\<lambda>u m. max (fst u + snd u * c) m) us 4096"

definition bump :: "nat \<Rightarrow> (nat \<times> nat) list pool_ops" where
  "bump c = \<lparr>po_new = (\<lambda>_ _ _. []), po_ordered_malloc = (\<lambda>n us. (Some (above c us), (above c us, n) # us)),
     po_ordered_free = (\<lambda>a n us. removeAll (a, n) us), po_free = (\<lambda>a us. filter (\<lambda>u. fst u \<noteq> a) us)\<rparr>"

lemma above_ge: "(b, m) \<in> set us \<Longrightarrow> b + m * c \<le> above c us"
  by (induction us) (auto simp: above_def max_def)

lemma bump_laws: "pool_laws (bump c) set c"
  unfolding pool_laws_def by (auto simp: bump_def dest: above_ge)

section \<open>Properties\<close>

text \<open>C22: Given what \<open>boost::pool\<close> promises, a resource pool with chunks of at most \<open>2 ^ 24\<close> bytes
  serves any sequence of requests for less than \<open>2 ^ 24\<close> bytes: no conversion is undefined,
  and what a client has is never shared, each block with all the bytes asked for. Giving a
  block back returns exactly the run of chunks that was taken for it.\<close>

theorem pool_blocks_apart:
  assumes laws: "pool_laws ops used c" and c: "0 < c" "c \<le> 2 ^ 24"
    and small: "\<forall>sz. P_Allocate sz \<in> set cs \<longrightarrow> 0 < sz \<and> sz < 2 ^ 24"
  shows "\<exists>r has. pool_run ops cs (new_resource_pool ops c nnext nmax, []) = Some (r, has)
    \<and> distinct (map fst has)
    \<and> (\<forall>i<length has. \<forall>j<length has. i \<noteq> j \<longrightarrow>
        {fst (has ! i)..<fst (has ! i) + snd (has ! i)} \<inter> {fst (has ! j)..<fst (has ! j) + snd (has ! j)} = {})
    \<and> used (rp_pool r) = (\<lambda>(a, sz). (a, (sz + c - 1) div c)) ` set has"
proof -
  have "pool_inv used c (new_resource_pool ops c nnext nmax, [])"
    using laws by (simp add: pool_inv_def pool_laws_def new_resource_pool_def)
  from pool_inv_run [OF laws c this small] obtain r has
    where run: "pool_run ops cs (new_resource_pool ops c nnext nmax, []) = Some (r, has)" and inv: "pool_inv used c (r, has)"
    by auto
  have ap: "apart c (has ! i) (has ! j)" "0 < snd (has ! i)" "0 < snd (has ! j)"
    if "i < length has" "j < length has" "i \<noteq> j" for i j
    using inv that by (auto simp: pool_inv_def nth_eq_iff_index_eq)
  have "distinct (map fst has)" using apart_blocks(1) [OF ap(1) c(1) ap(2,3)] by (simp add: distinct_conv_nth)
  moreover have "used (rp_pool r) = (\<lambda>(a, sz). (a, (sz + c - 1) div c)) ` set has"
    using inv by (simp add: pool_inv_def chunks_def case_prod_beta)
  ultimately show ?thesis using run apart_blocks(2) [OF ap(1) c(1) ap(2,3)] by blast
qed

theorem pool_blocks_apart_witness:
  "\<exists>r has. pool_run (bump 128) [P_Allocate 200, P_Allocate 5, P_Deallocate 1, P_Allocate 7] (new_resource_pool (bump 128) 128 1024 0, []) = Some (r, has)
     \<and> distinct (map fst has)"
  using pool_blocks_apart [OF bump_laws, of 128 "[P_Allocate 200, P_Allocate 5, P_Deallocate 1, P_Allocate 7]" 1024 0] by auto

text \<open>C40: A block may be shorter than the request. Whatever pool the library provides, as long as it keeps
  its promises: the run of chunks it hands out for less than \<open>2 ^ 24\<close> bytes has all the bytes asked
  for; but with chunks of \<open>2 ^ k\<close> bytes, a request for \<open>2 ^ m + e\<close> bytes, \<open>24 \<le> m\<close>, \<open>e\<close> positive and at
  most \<open>2 ^ (m - 24)\<close>, gets a run of \<open>2 ^ m\<close> bytes, because the size is rounded to single precision
  before the division: the last \<open>e\<close> bytes of what the client may use belong to no chunk of the run.\<close>

theorem large_block_short:
  assumes laws: "pool_laws ops used (rp_chunk_size r)" and got: "pool_allocate ops sz r = (Inr ptr, r')" and pos: "0 < sz"
  shows "(sz < 2 ^ 24 \<and> 0 < rp_chunk_size r \<and> rp_chunk_size r \<le> 2 ^ 24 \<longrightarrow>
      (\<exists>n. used (rp_pool r') = insert (ptr, n) (used (rp_pool r)) \<and> sz \<le> n * rp_chunk_size r))
    \<and> (\<forall>m k e. sz = 2 ^ m + e \<and> rp_chunk_size r = 2 ^ k \<and> 24 \<le> m \<and> k \<le> m \<and> m < k + 31 \<and> 0 < e \<and> e \<le> 2 ^ (m - 24) \<longrightarrow>
      (\<exists>n. used (rp_pool r') = insert (ptr, n) (used (rp_pool r)) \<and> n * rp_chunk_size r + e = sz))"
proof -
  have run: "used (rp_pool r') = insert (ptr, n) (used (rp_pool r))" if "get_chunks_count sz (rp_chunk_size r) = Some n" "0 < n" for n
    using got that pool_laws_malloc(1) [OF laws] by (auto simp: pool_allocate_def split: prod.splits option.splits)
  have "\<exists>n. used (rp_pool r') = insert (ptr, n) (used (rp_pool r)) \<and> sz \<le> n * rp_chunk_size r"
    if "sz < 2 ^ 24" "0 < rp_chunk_size r" "rp_chunk_size r \<le> 2 ^ 24"
    using run [OF get_chunks_count_exact [OF that]] chunks_pos [OF that(2) pos] chunks_cover [OF that(2)] by blast
  moreover have "\<exists>n. used (rp_pool r') = insert (ptr, n) (used (rp_pool r)) \<and> n * rp_chunk_size r + e = sz"
    if "sz = 2 ^ m + e" "rp_chunk_size r = 2 ^ k" "24 \<le> m" "k \<le> m" "m < k + 31" "e \<le> 2 ^ (m - 24)" for m k e
  proof -
    have "get_chunks_count sz (rp_chunk_size r) = Some (2 ^ (m - k))"
      using get_chunks_count_short [OF that(3,6,4,5)] that(1,2) by simp
    from run [OF this] show ?thesis using that(1,2,4) by (intro exI [of _ "2 ^ (m - k)"]) (simp flip: power_add)
  qed
  ultimately show ?thesis by blast
qed

theorem large_block_short_witness:
  "\<exists>ptr r' n. pool_allocate (bump 128) (2 ^ 30 + 64) (new_resource_pool (bump 128) 128 1024 0) = (Inr ptr, r')
     \<and> set (rp_pool r') = {(ptr, n)} \<and> n * 128 + 64 = 2 ^ 30 + 64"
proof -
  let ?r = "new_resource_pool (bump 128) 128 1024 0" and ?sz = "2 ^ 30 + 64 :: nat"
  have r: "rp_chunk_size ?r = 128" "set (rp_pool ?r) = {}" by (simp_all add: new_resource_pool_def bump_def)
  obtain n where "get_chunks_count ?sz 128 = Some n" using get_chunks_count_short [of 30 64 7] by simp
  then obtain ptr r' where got: "pool_allocate (bump 128) ?sz ?r = (Inr ptr, r')"
    by (simp add: pool_allocate_def new_resource_pool_def bump_def)
  have "pool_laws (bump 128) set (rp_chunk_size ?r)" using bump_laws [of 128] r(1) by simp
  from conjunct2 [OF large_block_short [OF this got]]
  have "\<exists>n. set (rp_pool r') = insert (ptr, n) (set (rp_pool ?r)) \<and> n * rp_chunk_size ?r + 64 = ?sz"
    by (elim meta_impE allE [of _ 30] allE [of _ 7] allE [of _ 64]) (simp_all add: r(1))
  with got r show ?thesis by fastforce
qed

section \<open>The manager\<close>

definition manager_inv :: "manager \<Rightarrow> bool" where
  "manager_inv m \<longleftrightarrow> distinct (mg_pools m) \<and> distinct (mg_live m) \<and> set (mg_pools m) = set (mg_live m)"

lemma manager_inv_new: "manager_inv (new_manager d)"
  by (simp add: manager_inv_def new_manager_def create_default_resource_def)

lemma manager_inv_step: "manager_inv m \<Longrightarrow> \<exists>m'. manager_step c m = Some m' \<and> manager_inv m' \<and> mg_default m' = mg_default m
    \<and> (c \<noteq> M_Delete d \<longrightarrow> d \<in> set (mg_live m) \<longrightarrow> d \<in> set (mg_live m'))"
  by (cases c) (auto simp: manager_step_def manager_inv_def create_resource_def delete_resource_def delete_pool_def)

lemma manager_inv_run:
  "manager_inv m \<Longrightarrow> \<exists>m'. manager_run cs m = Some m' \<and> manager_inv m' \<and> mg_default m' = mg_default m
    \<and> (M_Delete d \<notin> set cs \<longrightarrow> d \<in> set (mg_live m) \<longrightarrow> d \<in> set (mg_live m'))"
proof (induction cs arbitrary: m)
  case (Cons c cs)
  from manager_inv_step [OF Cons.prems, of c d] obtain m1 where m1: "manager_step c m = Some m1" "manager_inv m1"
    "mg_default m1 = mg_default m" "c \<noteq> M_Delete d \<longrightarrow> d \<in> set (mg_live m) \<longrightarrow> d \<in> set (mg_live m1)" by blast
  from Cons.IH [OF m1(2)] m1 show ?case by auto
qed simp

lemma delete_pools_all: "distinct pools \<Longrightarrow> distinct (mg_live m) \<Longrightarrow> set pools \<subseteq> set (mg_live m) \<Longrightarrow>
    \<exists>m'. delete_pools pools m = Some m' \<and> set (mg_live m') = set (mg_live m) - set pools"
proof (induction pools arbitrary: m)
  case (Cons pool pools)
  let ?m = "m\<lparr>mg_live := remove1 pool (mg_live m)\<rparr>"
  have "delete_pool pool m = Some ?m" using Cons.prems by (simp add: delete_pool_def)
  moreover have "\<exists>m'. delete_pools pools ?m = Some m' \<and> set (mg_live m') = set (mg_live ?m) - set pools"
    by (rule Cons.IH) (use Cons.prems in auto)
  ultimately show ?case using Cons.prems(2) by auto
qed simp

text \<open>Every pool is deleted exactly once. Whatever pools a program creates and deletes, a pool
  twice or one that is not there included, no deletion is of a pool that is not alive, and
  the end of the manager deletes all that are left. The default pool lives until then unless the
  program itself deletes it.\<close>

theorem pools_deleted_once:
  "\<exists>m m'. manager_run cs (new_manager d) = Some m \<and> manager_end m = Some m' \<and> mg_live m' = []
     \<and> mg_default m = Some d \<and> (M_Delete d \<in> set cs \<or> d \<in> set (mg_live m))"
proof -
  have d: "mg_default (new_manager d) = Some d" "d \<in> set (mg_live (new_manager d))"
    by (simp_all add: new_manager_def create_default_resource_def)
  obtain m where m: "manager_run cs (new_manager d) = Some m" "manager_inv m" "mg_default m = Some d"
    "M_Delete d \<in> set cs \<or> d \<in> set (mg_live m)" using manager_inv_run [OF manager_inv_new, of cs d d] d by auto
  moreover obtain m' where "manager_end m = Some m'" "mg_live m' = []"
    using delete_pools_all [of "mg_pools m" m] m(2) by (auto simp: manager_end_def manager_inv_def)
  ultimately show ?thesis by blast
qed

section \<open>Buffers and stacks\<close>

text \<open>What is taken and given back with the same size leaves the pool as it was.\<close>

lemma allocate_deallocate:
  assumes laws: "pool_laws ops used (rp_chunk_size r)" and c: "0 < rp_chunk_size r" "rp_chunk_size r \<le> 2 ^ 24"
    and sz: "0 < sz" "sz < 2 ^ 24" and a: "pool_allocate ops sz r = (Inr ptr, r')"
  shows "used (rp_pool r') = insert (ptr, chunks (rp_chunk_size r) sz) (used (rp_pool r)) \<and> rp_chunk_size r' = rp_chunk_size r
    \<and> (\<exists>r''. pool_deallocate ops ptr sz r' = Some r'' \<and> used (rp_pool r'') = used (rp_pool r))"
proof -
  let ?c = "rp_chunk_size r" and ?n = "chunks (rp_chunk_size r) sz"
  note n = get_chunks_count_exact [OF sz(2) c]
  have pos: "0 < ?n" by (rule chunks_pos) (use c sz in auto)
  obtain p where p: "po_ordered_malloc ops ?n (rp_pool r) = (Some ptr, p)" "r' = r\<lparr>rp_pool := p\<rparr>"
    using a n by (auto simp: pool_allocate_def split: prod.splits option.splits)
  note u = pool_laws_malloc [OF laws p(1) pos]
  have new: "(ptr, ?n) \<notin> used (rp_pool r)" using u(2) [of ptr ?n] pos c(1) by auto
  then have "used (po_ordered_free ops ptr ?n p) = used (rp_pool r)" using pool_laws_free [OF laws, of ptr ?n p] u(1) by auto
  then show ?thesis using p u(1) n by (simp add: pool_deallocate_def)
qed

text \<open>A flat buffer gives back the chunks it took, once: freeing it again, as its destructor does,
  changes nothing. It takes room for \<open>size * sizeof (T) * sizeof (T)\<close> bytes, the size of an
  element more often than its elements need.\<close>

theorem flat_buffer_life:
  assumes laws: "pool_laws ops used (rp_chunk_size r)" and c: "0 < rp_chunk_size r" "rp_chunk_size r \<le> 2 ^ 24"
    and sz: "0 < sz" "0 < sz_T" "sz * sz_T * sz_T < 2 ^ 24" and b: "new_flat_buffer ops sz_T sz r = (Inr b, r')"
  shows "\<exists>ptr r''. fb_begin b = Some ptr \<and> fb_size b = sz
    \<and> used (rp_pool r') = insert (ptr, chunks (rp_chunk_size r) (sz * sz_T * sz_T)) (used (rp_pool r))
    \<and> flat_buffer_free ops sz_T b r' = Some (b\<lparr>fb_size := 0\<rparr>, r'') \<and> used (rp_pool r'') = used (rp_pool r)
    \<and> flat_buffer_free ops sz_T (b\<lparr>fb_size := 0\<rparr>) r'' = Some (b\<lparr>fb_size := 0\<rparr>, r'')"
proof -
  have "sz * sz_T \<le> sz * sz_T * sz_T" using sz(2) by simp
  from le_less_trans [OF this sz(3)] have "sz * sz_T < 2 ^ 64" by simp
  then have w: "size_t (sz * sz_T) = sz * sz_T" "size_t (sz * sz_T * sz_T) = sz * sz_T * sz_T"
    using sz(3) by (simp_all add: size_t_def)
  obtain ptr where a: "pool_allocate ops (sz * sz_T * sz_T) r = (Inr ptr, r')" "b = \<lparr>fb_begin = Some ptr, fb_size = sz\<rparr>"
    using b w by (auto simp: new_flat_buffer_def Allocator_allocate_def split: prod.splits sum.splits)
  have "0 < sz * sz_T * sz_T" using sz(1,2) by simp
  from allocate_deallocate [OF laws c this sz(3) a(1)] show ?thesis
    using a(2) w sz(1) by (auto simp: flat_buffer_free_def Allocator_deallocate_def)
qed

theorem flat_buffer_life_witness:
  "\<exists>b r ptr. new_flat_buffer (bump 128) 8 100 (new_resource_pool (bump 128) 128 1024 0) = (Inr b, r) \<and> fb_begin b = Some ptr
     \<and> set (rp_pool r) = {(ptr, 50)}"
proof -
  let ?r = "new_resource_pool (bump 128) 128 1024 0"
  have "get_chunks_count 6400 128 = Some 50" using get_chunks_count_exact [of 6400 128] by (simp add: chunks_def)
  then obtain b r where b: "new_flat_buffer (bump 128) 8 100 ?r = (Inr b, r)"
    by (simp add: new_flat_buffer_def Allocator_allocate_def size_t_def pool_allocate_def new_resource_pool_def bump_def)
  have r: "rp_chunk_size ?r = 128" "set (rp_pool ?r) = {}" by (simp_all add: new_resource_pool_def bump_def)
  have "pool_laws (bump 128) set (rp_chunk_size ?r)" using bump_laws r by simp
  from flat_buffer_life [OF this _ _ _ _ _ b] r b show ?thesis by (auto simp: chunks_def)
qed

text \<open>The stack of a coroutine is given back where it was taken.\<close>

lemma stack_life:
  assumes "pool_laws ops used (rp_chunk_size r)" "0 < rp_chunk_size r" "rp_chunk_size r \<le> 2 ^ 24"
    and "0 < sz" "sz < 2 ^ 24" and s: "stack_allocate ops sz r = (Inr sctx, r')"
  shows "\<exists>r''. stack_deallocate ops sz sctx r' = Some r'' \<and> used (rp_pool r'') = used (rp_pool r)"
proof -
  obtain vp where "pool_allocate ops sz r = (Inr vp, r')" "sctx = \<lparr>sctx_size = sz, sctx_sp = vp + sz\<rparr>"
    using s by (auto simp: stack_allocate_def split: prod.splits sum.splits)
  with allocate_deallocate [OF assms(1-5)] show ?thesis by (auto simp: stack_deallocate_def)
qed

end
