(* ===== verification/Pool_Pointers.thy ===== *)
theory Pool_Pointers
  imports Resource_Pool "HOL-Library.Multiset"
begin

text \<open>
  The owning pointers of \<open>include/ar/allocators.hpp\<close>. A heap has the pools by their addresses, the objects that live in their blocks, and the trace of the constructors and destructors
  that ran. The constructor of the element type is a value of the model: it yields an object or throws.
  A shared pointer comes from \<open>std::allocate_shared\<close>: one block for the object and its counter, of a
  size \<open>sz_B\<close> the library chooses, which it gives back when the constructor throws; a unique pointer is the
  code's own. An allocator without a pool, or with a pool that is gone, is an error.
\<close>

section \<open>Definitions\<close>

datatype 'e ptr_error = PE_pool pool_error | PE_thrown 'e

record ('p, 'v) pool_heap =
  ph_pools :: "nat \<rightharpoonup> 'p resource_pool"
  ph_objects :: "nat \<times> nat \<rightharpoonup> 'v"
  ph_constructed :: "'v list"
  ph_destroyed :: "'v list"

definition set_pool :: "nat \<Rightarrow> 'p resource_pool \<Rightarrow> ('p, 'v) pool_heap \<Rightarrow> ('p, 'v) pool_heap" where
  "set_pool a r h = h\<lparr>ph_pools := (ph_pools h)(a \<mapsto> r)\<rparr>"

definition heap_allocate :: "'p pool_ops \<Rightarrow> nat \<Rightarrow> nat option \<Rightarrow> ('p, 'v) pool_heap \<Rightarrow> (pool_error + nat \<times> nat) \<times> ('p, 'v) pool_heap" where
  "heap_allocate ops sz_T alloc h =
     (case Option.bind alloc (\<lambda>a. map_option (Pair a) (ph_pools h a)) of
        None \<Rightarrow> (Inl pool_undefined, h)
      | Some (a, r) \<Rightarrow>
          (case Allocator_allocate ops sz_T 1 r of
             (Inl e, r) \<Rightarrow> (Inl e, set_pool a r h)
           | (Inr ptr, r) \<Rightarrow> (Inr (a, ptr), set_pool a r h)))"

definition heap_deallocate :: "'p pool_ops \<Rightarrow> nat \<Rightarrow> nat \<times> nat \<Rightarrow> ('p, 'v) pool_heap \<Rightarrow> ('p, 'v) pool_heap option" where
  "heap_deallocate ops sz_T x h =
     (case ph_pools h (fst x) of
        None \<Rightarrow> None
      | Some r \<Rightarrow> map_option (\<lambda>r. set_pool (fst x) r h) (Allocator_deallocate ops sz_T (snd x) 1 r))"

text \<open>Placement new and the call of the destructor.\<close>

definition construct :: "nat \<times> nat \<Rightarrow> 'v \<Rightarrow> ('p, 'v) pool_heap \<Rightarrow> ('p, 'v) pool_heap" where
  "construct x v h = h\<lparr>ph_objects := (ph_objects h)(x \<mapsto> v), ph_constructed := ph_constructed h @ [v]\<rparr>"

definition destroy :: "nat \<times> nat \<Rightarrow> ('p, 'v) pool_heap \<Rightarrow> ('p, 'v) pool_heap option" where
  "destroy x h =
     (case ph_objects h x of
        None \<Rightarrow> None
      | Some v \<Rightarrow> Some (h\<lparr>ph_objects := (ph_objects h)(x := None), ph_destroyed := ph_destroyed h @ [v]\<rparr>))"

text \<open>An owner is a unique pointer, or all the copies of a shared one.\<close>

record owner =
  ow_at :: "nat \<times> nat"
  ow_size :: nat
  ow_copies :: nat
  ow_shared :: bool

definition make_unique_ptr ::
  "'p pool_ops \<Rightarrow> nat \<Rightarrow> 'e + 'v \<Rightarrow> nat option \<Rightarrow> ('p, 'v) pool_heap \<Rightarrow> ('e ptr_error + owner) \<times> ('p, 'v) pool_heap" where
  "make_unique_ptr ops sz_T ctor alloc h =
     (case heap_allocate ops sz_T alloc h of
        (Inl e, h) \<Rightarrow> (Inl (PE_pool e), h)
      | (Inr x, h) \<Rightarrow>
          (case ctor of
             Inl e \<Rightarrow> (Inl (PE_thrown e), h)
           | Inr v \<Rightarrow> (Inr \<lparr>ow_at = x, ow_size = sz_T, ow_copies = 1, ow_shared = False\<rparr>, construct x v h)))"

definition make_shared_ptr ::
  "'p pool_ops \<Rightarrow> nat \<Rightarrow> 'e + 'v \<Rightarrow> nat option \<Rightarrow> ('p, 'v) pool_heap \<Rightarrow> (('e ptr_error + owner) \<times> ('p, 'v) pool_heap) option" where
  "make_shared_ptr ops sz_B ctor alloc h =
     (case heap_allocate ops sz_B alloc h of
        (Inl e, h) \<Rightarrow> Some (Inl (PE_pool e), h)
      | (Inr x, h) \<Rightarrow>
          (case ctor of
             Inl e \<Rightarrow> map_option (Pair (Inl (PE_thrown e))) (heap_deallocate ops sz_B x h)
           | Inr v \<Rightarrow> Some (Inr \<lparr>ow_at = x, ow_size = sz_B, ow_copies = 1, ow_shared = True\<rparr>, construct x v h)))"

text \<open>The deleter of \<open>make_unique_ptr\<close>; the last copy of a shared pointer does the same.\<close>

definition owner_deleter :: "'p pool_ops \<Rightarrow> owner \<Rightarrow> ('p, 'v) pool_heap \<Rightarrow> ('p, 'v) pool_heap option" where
  "owner_deleter ops w h = Option.bind (destroy (ow_at w) h) (heap_deallocate ops (ow_size w) (ow_at w))"

text \<open>A client: it makes pointers, copies shared ones and lets pointers go, in any order.\<close>

datatype ('e, 'v) ptr_call = Make_Unique "nat option" nat "'e + 'v" | Make_Shared "nat option" nat "'e + 'v" | Copy nat | Drop nat

fun ptr_step ::
  "'p pool_ops \<Rightarrow> ('e, 'v) ptr_call \<Rightarrow> ('p, 'v) pool_heap \<times> owner list \<Rightarrow> (('p, 'v) pool_heap \<times> owner list) option" where
  "ptr_step ops (Make_Unique alloc sz ctor) (h, ws) =
     (case make_unique_ptr ops sz ctor alloc h of
        (Inl (PE_thrown e), h) \<Rightarrow> Some (h, ws) | (Inl (PE_pool bad_alloc), h) \<Rightarrow> Some (h, ws) | (Inl (PE_pool pool_undefined), h) \<Rightarrow> None
      | (Inr w, h) \<Rightarrow> Some (h, w # ws))"
| "ptr_step ops (Make_Shared alloc sz ctor) (h, ws) =
     (case make_shared_ptr ops sz ctor alloc h of
        None \<Rightarrow> None
      | Some (Inl (PE_thrown e), h) \<Rightarrow> Some (h, ws) | Some (Inl (PE_pool bad_alloc), h) \<Rightarrow> Some (h, ws) | Some (Inl (PE_pool pool_undefined), h) \<Rightarrow> None
      | Some (Inr w, h) \<Rightarrow> Some (h, w # ws))"
| "ptr_step ops (Copy i) (h, ws) =
     Some (h, if i < length ws \<and> ow_shared (ws ! i) then ws[i := (ws ! i)\<lparr>ow_copies := ow_copies (ws ! i) + 1\<rparr>] else ws)"
| "ptr_step ops (Drop i) (h, ws) =
     (if i < length ws
      then if 1 < ow_copies (ws ! i) then Some (h, ws[i := (ws ! i)\<lparr>ow_copies := ow_copies (ws ! i) - 1\<rparr>])
           else map_option (\<lambda>h. (h, take i ws @ drop (Suc i) ws)) (owner_deleter ops (ws ! i) h)
      else Some (h, ws))"

primrec ptr_run ::
  "'p pool_ops \<Rightarrow> ('e, 'v) ptr_call list \<Rightarrow> ('p, 'v) pool_heap \<times> owner list \<Rightarrow> (('p, 'v) pool_heap \<times> owner list) option" where
  "ptr_run ops [] s = Some s"
| "ptr_run ops (c # cs) s = Option.bind (ptr_step ops c s) (ptr_run ops cs)"

section \<open>Blocks in use\<close>

lemma pool_inv_mset: "pool_inv used c (r, xs) \<Longrightarrow> mset xs = mset ys \<Longrightarrow> pool_inv used c (r, ys)"
  using mset_eq_imp_distinct_iff [of xs ys] mset_eq_setD [of xs ys] by (simp add: pool_inv_def)

lemma pool_allocate_inv:
  assumes "pool_laws ops used c" "0 < c" "c \<le> 2 ^ 24" "pool_inv used c (r, has)" "0 < sz" "sz < 2 ^ 24"
  obtains r' where "pool_allocate ops sz r = (Inl bad_alloc, r')" "pool_inv used c (r', has)"
  | ptr r' where "pool_allocate ops sz r = (Inr ptr, r')" "pool_inv used c (r', (ptr, sz) # has)"
  using pool_inv_allocate [OF assms] by (auto split: prod.splits sum.splits pool_error.splits)

lemma pool_deallocate_inv:
  assumes "pool_laws ops used c" "0 < c" "c \<le> 2 ^ 24" "pool_inv used c (r, (ptr, sz) # has)"
  obtains r' where "pool_deallocate ops ptr sz r = Some r'" "pool_inv used c (r', has)"
  using pool_inv_deallocate [OF assms, of 0] by (auto split: option.splits)

definition pools_promise :: "'p pool_ops \<Rightarrow> ('p \<Rightarrow> (nat \<times> nat) set) \<Rightarrow> (nat \<Rightarrow> nat) \<Rightarrow> nat set \<Rightarrow> bool" where
  "pools_promise ops used c D \<longleftrightarrow> (\<forall>a\<in>D. pool_laws ops used (c a) \<and> 0 < c a \<and> c a \<le> 2 ^ 24)"

definition blocks :: "nat \<Rightarrow> owner list \<Rightarrow> (nat \<times> nat) list" where
  "blocks a ws = map (\<lambda>w. (snd (ow_at w), ow_size w)) (filter (\<lambda>w. fst (ow_at w) = a) ws)"

text \<open>\<open>loose\<close> are the blocks that were handed out and that no owner holds.\<close>

definition pools_inv ::
  "('p \<Rightarrow> (nat \<times> nat) set) \<Rightarrow> (nat \<Rightarrow> nat) \<Rightarrow> (nat \<Rightarrow> (nat \<times> nat) list) \<Rightarrow> (nat \<rightharpoonup> 'p resource_pool) \<Rightarrow> owner list \<Rightarrow> bool" where
  "pools_inv used c loose P ws \<longleftrightarrow> (\<forall>a r. P a = Some r \<longrightarrow> pool_inv used (c a) (r, loose a @ blocks a ws))"

definition objects_inv :: "('p, 'v) pool_heap \<Rightarrow> (nat \<times> nat) list \<Rightarrow> bool" where
  "objects_inv h xs \<longleftrightarrow> dom (ph_objects h) = set xs \<and> distinct xs
     \<and> mset (ph_constructed h) = mset (ph_destroyed h) + image_mset (\<lambda>x. the (ph_objects h x)) (mset xs)"

definition heap_inv ::
  "('p \<Rightarrow> (nat \<times> nat) set) \<Rightarrow> (nat \<Rightarrow> nat) \<Rightarrow> nat set \<Rightarrow> (nat \<Rightarrow> (nat \<times> nat) list) \<Rightarrow> ('p, 'v) pool_heap \<Rightarrow> owner list \<Rightarrow> bool" where
  "heap_inv used c D loose h ws \<longleftrightarrow> dom (ph_pools h) = D \<and> pools_inv used c loose (ph_pools h) ws
     \<and> objects_inv h (map ow_at ws) \<and> (\<forall>w\<in>set ws. fst (ow_at w) \<in> D \<and> 0 < ow_copies w)"

lemma heap_inv_pool:
  assumes "heap_inv used c D loose h ws" "a \<in> D"
  shows "\<exists>r. ph_pools h a = Some r \<and> pool_inv used (c a) (r, loose a @ blocks a ws)"
  using assms by (auto simp: heap_inv_def pools_inv_def)

lemma objects_inv_pool [simp]: "objects_inv (set_pool a r h) xs \<longleftrightarrow> objects_inv h xs"
  by (simp add: objects_inv_def set_pool_def)

lemma objects_inv_construct: "objects_inv h xs \<Longrightarrow> x \<notin> set xs \<Longrightarrow> objects_inv (construct x v h) (x # xs)"
  by (auto simp: objects_inv_def construct_def intro!: image_mset_cong)

lemma objects_inv_destroy:
  assumes "objects_inv h (xs @ x # ys)"
  shows "\<exists>h'. destroy x h = Some h' \<and> objects_inv h' (xs @ ys) \<and> ph_pools h' = ph_pools h"
proof -
  have "x \<in> dom (ph_objects h)" using assms by (simp add: objects_inv_def)
  then obtain v where v: "ph_objects h x = Some v" by blast
  have "x \<notin> set xs" "x \<notin> set ys" using assms by (auto simp: objects_inv_def)
  then have "image_mset (\<lambda>y. the (((ph_objects h)(x := None)) y)) (mset zs) = image_mset (\<lambda>y. the (ph_objects h y)) (mset zs)"
    if "zs = xs \<or> zs = ys" for zs using that by (intro image_mset_cong) auto
  then show ?thesis using assms v by (auto simp: objects_inv_def destroy_def)
qed

lemma heap_inv_set_pool:
  assumes "heap_inv used c D loose h ws" "a \<in> D" "pool_inv used (c a) (r, l @ blocks a ws)"
  shows "heap_inv used c D (loose(a := l)) (set_pool a r h) ws"
  using assms by (auto simp: heap_inv_def pools_inv_def set_pool_def objects_inv_def)

lemma heap_allocate_inv:
  assumes prom: "pools_promise ops used c D" and inv: "heap_inv used c D loose h ws" and a: "a \<in> D" and sz: "0 < sz" "sz < 2 ^ 24"
  shows "(\<exists>h'. heap_allocate ops sz (Some a) h = (Inl bad_alloc, h') \<and> heap_inv used c D loose h' ws)
    \<or> (\<exists>ptr h'. heap_allocate ops sz (Some a) h = (Inr (a, ptr), h') \<and> heap_inv used c D (loose(a := (ptr, sz) # loose a)) h' ws)"
proof -
  have c: "pool_laws ops used (c a)" "0 < c a" "c a \<le> 2 ^ 24" using prom a by (auto simp: pools_promise_def)
  obtain r where r: "ph_pools h a = Some r" and p: "pool_inv used (c a) (r, loose a @ blocks a ws)" using heap_inv_pool [OF inv a] by blast
  note defs = heap_allocate_def Allocator_allocate_def size_t_def
  from pool_allocate_inv [OF c p sz] show ?thesis
  proof cases
    case (1 r')
    with r sz heap_inv_set_pool [OF inv a, of r' "loose a"] show ?thesis by (simp add: defs)
  next
    case (2 ptr r')
    with r sz heap_inv_set_pool [OF inv a, of r' "(ptr, sz) # loose a"] show ?thesis by (simp add: defs)
  qed
qed

lemma heap_deallocate_inv:
  assumes prom: "pools_promise ops used c D" and inv: "heap_inv used c D (loose(a := (ptr, sz) # loose a)) h ws" and a: "a \<in> D"
  shows "\<exists>h'. heap_deallocate ops sz (a, ptr) h = Some h' \<and> heap_inv used c D loose h' ws"
proof -
  have c: "pool_laws ops used (c a)" "0 < c a" "c a \<le> 2 ^ 24" using prom a by (auto simp: pools_promise_def)
  obtain r where r: "ph_pools h a = Some r" and p: "pool_inv used (c a) (r, (ptr, sz) # loose a @ blocks a ws)"
    using heap_inv_pool [OF inv a] by auto
  then have sz: "sz < 2 ^ 24" by (simp add: pool_inv_def)
  from pool_deallocate_inv [OF c p] obtain r' where "pool_deallocate ops ptr sz r = Some r'" "pool_inv used (c a) (r', loose a @ blocks a ws)" .
  with r sz heap_inv_set_pool [OF inv a, of r' "loose a"] show ?thesis
    by (simp add: heap_deallocate_def Allocator_deallocate_def size_t_def)
qed

text \<open>Constructing an object gives a loose block to its owner; destroying it takes the owner away.\<close>

lemma blocks_Cons [simp]: "blocks a (w # ws) = (if fst (ow_at w) = a then [(snd (ow_at w), ow_size w)] else []) @ blocks a ws"
  by (simp add: blocks_def)

lemma blocks_append [simp]: "blocks a (xs @ ys) = blocks a xs @ blocks a ys"
  by (simp add: blocks_def)

lemma in_blocks: "w \<in> set ws \<Longrightarrow> (snd (ow_at w), ow_size w) \<in> set (blocks (fst (ow_at w)) ws)"
  by (auto simp: blocks_def)

lemma pool_inv_new_block:
  assumes inv: "pool_inv used c (r, (ptr, sz) # has)" and c: "0 < c" and has: "(ptr', sz') \<in> set has"
  shows "ptr' \<noteq> ptr"
proof -
  have "(ptr', sz') \<noteq> (ptr, sz)" "0 < sz" "0 < sz'" using inv has by (auto simp: pool_inv_def)
  moreover from this have "apart c (ptr', sz') (ptr, sz)" using inv has unfolding pool_inv_def by simp
  ultimately show ?thesis using apart_blocks(1) [of c "(ptr', sz')" "(ptr, sz)"] c by simp
qed

lemma construct_inv:
  assumes prom: "pools_promise ops used c D" and inv: "heap_inv used c D (loose(a := (ptr, sz) # loose a)) h ws" and a: "a \<in> D"
    and w: "ow_at w = (a, ptr)" "ow_size w = sz" "0 < ow_copies w"
  shows "heap_inv used c D loose (construct (a, ptr) v h) (w # ws)"
proof -
  obtain r where r: "pool_inv used (c a) (r, (ptr, sz) # loose a @ blocks a ws)" using heap_inv_pool [OF inv a] by auto
  have "0 < c a" using prom a by (simp add: pools_promise_def)
  note other = pool_inv_new_block [OF r this]
  have "(a, ptr) \<notin> set (map ow_at ws)"
  proof
    assume "(a, ptr) \<in> set (map ow_at ws)"
    then obtain x where "x \<in> set ws" "ow_at x = (a, ptr)" by auto
    then show False using other [of ptr "ow_size x"] in_blocks [of x ws] by simp
  qed
  then have obj: "objects_inv (construct (a, ptr) v h) (map ow_at (w # ws))"
    using inv w(1) by (simp add: heap_inv_def objects_inv_construct)
  have "pool_inv used (c b) (r, loose b @ blocks b (w # ws))" if "ph_pools h b = Some r" for b r
  proof -
    have "pool_inv used (c b) (r, (loose(a := (ptr, sz) # loose a)) b @ blocks b ws)" using inv that by (simp add: heap_inv_def pools_inv_def)
    then show ?thesis by (rule pool_inv_mset) (use w in simp)
  qed
  then show ?thesis using inv w a obj by (simp add: heap_inv_def pools_inv_def construct_def)
qed

lemma destroy_inv:
  assumes inv: "heap_inv used c D loose h (us @ w # vs)"
  shows "\<exists>h'. destroy (ow_at w) h = Some h'
    \<and> heap_inv used c D (loose(fst (ow_at w) := (snd (ow_at w), ow_size w) # loose (fst (ow_at w)))) h' (us @ vs)"
proof -
  let ?l = "loose(fst (ow_at w) := (snd (ow_at w), ow_size w) # loose (fst (ow_at w)))"
  have "objects_inv h (map ow_at us @ ow_at w # map ow_at vs)" using inv by (simp add: heap_inv_def)
  from objects_inv_destroy [OF this] obtain h' where h': "destroy (ow_at w) h = Some h'"
    "objects_inv h' (map ow_at (us @ vs))" "ph_pools h' = ph_pools h" by auto
  have "pool_inv used (c b) (r, ?l b @ blocks b (us @ vs))" if "ph_pools h b = Some r" for b r
  proof -
    have "pool_inv used (c b) (r, loose b @ blocks b (us @ w # vs))" using inv that by (simp add: heap_inv_def pools_inv_def)
    then show ?thesis by (rule pool_inv_mset) simp
  qed
  then have "heap_inv used c D ?l h' (us @ vs)" using inv h'(2,3) by (simp add: heap_inv_def pools_inv_def)
  then show ?thesis using h'(1) by blast
qed

lemma owner_deleter_inv:
  assumes prom: "pools_promise ops used c D" and inv: "heap_inv used c D loose h (us @ w # vs)"
  shows "\<exists>h'. owner_deleter ops w h = Some h' \<and> heap_inv used c D loose h' (us @ vs)"
proof -
  have a: "fst (ow_at w) \<in> D" using inv by (auto simp: heap_inv_def)
  from destroy_inv [OF inv] obtain h1 where "destroy (ow_at w) h = Some h1"
    "heap_inv used c D (loose(fst (ow_at w) := (snd (ow_at w), ow_size w) # loose (fst (ow_at w)))) h1 (us @ vs)" by blast
  with heap_deallocate_inv [OF prom this(2) a] show ?thesis by (simp add: owner_deleter_def)
qed

lemma heap_inv_copies:
  assumes inv: "heap_inv used c D loose h (us @ w # vs)" and k: "0 < k"
  shows "heap_inv used c D loose h (us @ w\<lparr>ow_copies := k\<rparr> # vs)"
proof -
  have "blocks a (us @ w\<lparr>ow_copies := k\<rparr> # vs) = blocks a (us @ w # vs)" for a by simp
  then show ?thesis using inv k unfolding heap_inv_def pools_inv_def by simp
qed

lemma make_unique_inv:
  assumes prom: "pools_promise ops used c D" and inv: "heap_inv used c D loose h ws" and a: "a \<in> D" and sz: "0 < sz" "sz < 2 ^ 24"
  shows "\<exists>h' ws' l. ptr_step ops (Make_Unique (Some a) sz ctor) (h, ws) = Some (h', ws') \<and> heap_inv used c D (loose(a := l @ loose a)) h' ws'
    \<and> (\<forall>v. ctor = Inr v \<longrightarrow> l = [])"
  using heap_allocate_inv [OF prom inv a sz]
proof (elim disjE exE conjE)
  fix h' assume "heap_allocate ops sz (Some a) h = (Inl bad_alloc, h')" "heap_inv used c D loose h' ws"
  then show ?thesis by (auto simp: make_unique_ptr_def intro!: exI [of _ "[]"])
next
  fix ptr h' assume h': "heap_allocate ops sz (Some a) h = (Inr (a, ptr), h')" "heap_inv used c D (loose(a := (ptr, sz) # loose a)) h' ws"
  show ?thesis
  proof (cases ctor)
    case (Inl e)
    with h' show ?thesis by (auto simp: make_unique_ptr_def intro!: exI [of _ "[(ptr, sz)]"])
  next
    case (Inr v)
    with h'(1) construct_inv [OF prom h'(2) a, of _ v] show ?thesis by (auto simp: make_unique_ptr_def intro!: exI [of _ "[]"])
  qed
qed

lemma make_shared_inv:
  assumes prom: "pools_promise ops used c D" and inv: "heap_inv used c D loose h ws" and a: "a \<in> D" and sz: "0 < sz" "sz < 2 ^ 24"
  shows "\<exists>h' ws'. ptr_step ops (Make_Shared (Some a) sz ctor) (h, ws) = Some (h', ws') \<and> heap_inv used c D loose h' ws'"
  using heap_allocate_inv [OF prom inv a sz]
proof (elim disjE exE conjE)
  fix h' assume "heap_allocate ops sz (Some a) h = (Inl bad_alloc, h')" "heap_inv used c D loose h' ws"
  then show ?thesis by (auto simp: make_shared_ptr_def)
next
  fix ptr h' assume h': "heap_allocate ops sz (Some a) h = (Inr (a, ptr), h')" "heap_inv used c D (loose(a := (ptr, sz) # loose a)) h' ws"
  show ?thesis
  proof (cases ctor)
    case (Inl e)
    with h' heap_deallocate_inv [OF prom h'(2) a] show ?thesis by (auto simp: make_shared_ptr_def)
  next
    case (Inr v)
    with h'(1) construct_inv [OF prom h'(2) a, of _ v] show ?thesis by (auto simp: make_shared_ptr_def)
  qed
qed

section \<open>Clients\<close>

fun call_ok :: "nat set \<Rightarrow> ('e, 'v) ptr_call \<Rightarrow> bool" where
  "call_ok D (Make_Unique alloc sz ctor) \<longleftrightarrow> alloc \<in> Some ` D \<and> 0 < sz \<and> sz < 2 ^ 24"
| "call_ok D (Make_Shared alloc sz ctor) \<longleftrightarrow> alloc \<in> Some ` D \<and> 0 < sz \<and> sz < 2 ^ 24"
| "call_ok D _ \<longleftrightarrow> True"

fun unique_throws :: "('e, 'v) ptr_call \<Rightarrow> bool" where
  "unique_throws (Make_Unique alloc sz ctor) \<longleftrightarrow> isl ctor"
| "unique_throws _ \<longleftrightarrow> False"

lemma ptr_step_inv:
  assumes prom: "pools_promise ops used c D" and inv: "heap_inv used c D loose h ws" and ok: "call_ok D call"
  shows "\<exists>h' ws' loose'. ptr_step ops call (h, ws) = Some (h', ws') \<and> heap_inv used c D loose' h' ws'
    \<and> (unique_throws call \<or> loose' = loose)"
proof (cases call)
  case (Make_Unique alloc sz ctor)
  then obtain a where "alloc = Some a" "a \<in> D" "0 < sz" "sz < 2 ^ 24" using ok by auto
  with Make_Unique make_unique_inv [OF prom inv, of a sz ctor] show ?thesis by (cases ctor) (fastforce simp del: ptr_step.simps)+
next
  case (Make_Shared alloc sz ctor)
  then obtain a where "alloc = Some a" "a \<in> D" "0 < sz" "sz < 2 ^ 24" using ok by auto
  with Make_Shared make_shared_inv [OF prom inv, of a sz ctor] show ?thesis by (fastforce simp del: ptr_step.simps)
next
  case (Copy i)
  show ?thesis
  proof (cases "i < length ws")
    case True
    note split = id_take_nth_drop [OF True] and upd = upd_conv_take_nth_drop [OF True]
    have inv': "heap_inv used c D loose h (take i ws @ ws ! i # drop (Suc i) ws)" using inv split by simp
    show ?thesis using Copy inv heap_inv_copies [OF inv'] by (auto simp: upd)
  qed (use Copy inv in auto)
next
  case (Drop i)
  show ?thesis
  proof (cases "i < length ws")
    case True
    note split = id_take_nth_drop [OF True] and upd = upd_conv_take_nth_drop [OF True]
    have inv': "heap_inv used c D loose h (take i ws @ ws ! i # drop (Suc i) ws)" using inv split by simp
    show ?thesis using True Drop owner_deleter_inv [OF prom inv'] heap_inv_copies [OF inv'] by (auto simp: upd)
  qed (use Drop inv in auto)
qed

lemma ptr_run_inv:
  assumes prom: "pools_promise ops used c D"
  shows "heap_inv used c D loose (fst s) (snd s) \<Longrightarrow> list_all (call_ok D) cs \<Longrightarrow>
    \<exists>h' ws' loose'. ptr_run ops cs s = Some (h', ws') \<and> heap_inv used c D loose' h' ws'
      \<and> (list_ex unique_throws cs \<or> loose' = loose)"
proof (induction cs arbitrary: s loose)
  case (Cons call cs)
  obtain h ws where s: "s = (h, ws)" by fastforce
  from ptr_step_inv [OF prom, of loose h ws call] Cons.prems s obtain h1 ws1 loose1
    where 1: "ptr_step ops call s = Some (h1, ws1)" "heap_inv used c D loose1 h1 ws1" "unique_throws call \<or> loose1 = loose" by auto
  from Cons.IH [of loose1 "(h1, ws1)"] 1 Cons.prems show ?case by fastforce
qed auto

definition new_heap :: "(nat \<rightharpoonup> 'p resource_pool) \<Rightarrow> ('p, 'v) pool_heap" where
  "new_heap P = \<lparr>ph_pools = P, ph_objects = Map.empty, ph_constructed = [], ph_destroyed = []\<rparr>"

definition pools_new :: "('p \<Rightarrow> (nat \<times> nat) set) \<Rightarrow> (nat \<Rightarrow> nat) \<Rightarrow> (nat \<rightharpoonup> 'p resource_pool) \<Rightarrow> bool" where
  "pools_new used c P \<longleftrightarrow> (\<forall>a r. P a = Some r \<longrightarrow> rp_chunk_size r = c a \<and> used (rp_pool r) = {})"

lemma new_heap_inv: "pools_new used c P \<Longrightarrow> heap_inv used c (dom P) (\<lambda>_. []) (new_heap P) []"
  by (auto simp: heap_inv_def pools_inv_def objects_inv_def pools_new_def new_heap_def pool_inv_def blocks_def)

lemma pool_inv_blocks_apart:
  assumes "pool_inv used c (r, xs)" "0 < c" "i < length xs" "j < length xs" "i \<noteq> j"
  shows "{fst (xs ! i)..<fst (xs ! i) + snd (xs ! i)} \<inter> {fst (xs ! j)..<fst (xs ! j) + snd (xs ! j)} = {}"
proof -
  have "xs ! i \<noteq> xs ! j" "xs ! i \<in> set xs" "xs ! j \<in> set xs" using assms by (auto simp: pool_inv_def nth_eq_iff_index_eq)
  then show ?thesis using assms apart_blocks(2) [of c "xs ! i" "xs ! j"] by (simp add: pool_inv_def)
qed

text \<open>C23: Pointers into pools are sound. Whatever unique and shared pointers a client makes, to
  objects of less than \<open>2 ^ 24\<close> bytes, from whichever pools, copies and lets go, with constructors that may throw and pools that may be exhausted,
  nothing undefined happens; what a pointer holds is an object that is still there, two pointers into
  one pool hold memory that does not overlap, and every object was constructed once and destroyed once,
  or is held by a pointer. When all pointers are gone and no constructor of a unique pointer threw,
  every pool is as empty as it was.\<close>

theorem pool_pointers_sound:
  assumes "pools_promise ops used c (dom P)" "pools_new used c P" "list_all (call_ok (dom P)) cs"
  shows "\<exists>h ws. ptr_run ops cs (new_heap P, []) = Some (h, ws)
    \<and> dom (ph_objects h) = ow_at ` set ws \<and> distinct (map ow_at ws)
    \<and> mset (ph_constructed h) = mset (ph_destroyed h) + {#the (ph_objects h x). x \<in># mset (map ow_at ws)#}
    \<and> (\<forall>a i j. i < length (blocks a ws) \<longrightarrow> j < length (blocks a ws) \<longrightarrow> i \<noteq> j \<longrightarrow>
         {fst (blocks a ws ! i)..<fst (blocks a ws ! i) + snd (blocks a ws ! i)}
           \<inter> {fst (blocks a ws ! j)..<fst (blocks a ws ! j) + snd (blocks a ws ! j)} = {})
    \<and> (ws = [] \<longrightarrow> \<not> list_ex unique_throws cs \<longrightarrow> dom (ph_pools h) = dom P \<and> pools_new used c (ph_pools h))"
proof -
  from ptr_run_inv [OF assms(1), of "\<lambda>_. []" "(new_heap P, [])" cs] new_heap_inv [OF assms(2)] assms(3)
  obtain h ws loose where run: "ptr_run ops cs (new_heap P, []) = Some (h, ws)" "heap_inv used c (dom P) loose h ws"
    "list_ex unique_throws cs \<or> loose = (\<lambda>_. [])" by auto
  then have obj: "objects_inv h (map ow_at ws)" and pools: "dom (ph_pools h) = dom P" "pools_inv used c loose (ph_pools h) ws"
    and own: "\<forall>w\<in>set ws. fst (ow_at w) \<in> dom P" by (auto simp: heap_inv_def)
  have disj: "{fst (blocks a ws ! i)..<fst (blocks a ws ! i) + snd (blocks a ws ! i)}
      \<inter> {fst (blocks a ws ! j)..<fst (blocks a ws ! j) + snd (blocks a ws ! j)} = {}"
    if ij: "i < length (blocks a ws)" "j < length (blocks a ws)" "i \<noteq> j" for a i j
  proof -
    have "a \<in> dom P" using ij(1) own by (cases "filter (\<lambda>w. fst (ow_at w) = a) ws") (auto simp: blocks_def filter_eq_Cons_iff)
    then obtain r where r: "pool_inv used (c a) (r, loose a @ blocks a ws)" "0 < c a"
      using heap_inv_pool [OF run(2)] assms(1) by (auto simp: pools_promise_def)
    show ?thesis
      using pool_inv_blocks_apart [OF r, of "length (loose a) + i" "length (loose a) + j"] ij by (simp add: nth_append)
  qed
  have "pools_new used c (ph_pools h)" if "ws = []" "\<not> list_ex unique_throws cs"
    using that run(3) pools(2) by (auto simp: pools_new_def pools_inv_def pool_inv_def blocks_def)
  then show ?thesis using run(1) obj pools(1) disj unfolding objects_inv_def by (intro exI [of _ h] exI [of _ ws]) simp
qed

definition two_pools :: "nat \<rightharpoonup> (nat \<times> nat) list resource_pool" where
  "two_pools = [7 \<mapsto> new_resource_pool (bump 128) 128 1024 0, 9 \<mapsto> new_resource_pool (bump 128) 128 32 0]"

theorem pool_pointers_sound_witness:
  "\<exists>h ws. ptr_run (bump 128) [Make_Unique (Some 7) 200 (Inr ''a''), Make_Shared (Some 9) 64 (Inr ''b''), Copy 0,
       Make_Shared (Some 9) 64 (Inl (0::nat)), Drop 0, Drop 1, Drop 0] (new_heap two_pools, []) = Some (h, ws)
     \<and> mset (ph_constructed h) = mset (ph_destroyed h) + {#the (ph_objects h x). x \<in># mset (map ow_at ws)#}"
proof -
  have "pools_promise (bump 128) set (\<lambda>_. 128) (dom two_pools)" using bump_laws [of 128] by (simp add: pools_promise_def)
  moreover have "pools_new set (\<lambda>_. 128) two_pools" by (simp add: pools_new_def two_pools_def new_resource_pool_def bump_def)
  moreover have "list_all (call_ok (dom two_pools)) [Make_Unique (Some 7) 200 (Inr ''a''), Make_Shared (Some 9) 64 (Inr ''b''), Copy 0,
       Make_Shared (Some 9) 64 (Inl (0::nat)), Drop 0, Drop 1, Drop 0]" by (simp add: two_pools_def)
  ultimately show ?thesis using pool_pointers_sound by blast
qed

text \<open>A constructor that throws costs a unique pointer its block. \<open>make_unique_ptr\<close> then ends with the
  exception, no pointer and no object, and the pool has one run of chunks less for ever, where
  \<open>make_shared_ptr\<close> ends the same way and gives the run back.\<close>

theorem unique_constructor_leaks:
  assumes "pools_promise ops used c (dom P)" "pools_new used c P" "P a = Some r" "0 < sz" "sz < 2 ^ 24"
    and "pool_allocate ops sz r = (Inr ptr, r')"
  shows "\<exists>h h'. make_unique_ptr ops sz (Inl e) (Some a) (new_heap P :: ('p, 'v) pool_heap) = (Inl (PE_thrown e), h)
    \<and> ph_objects h = Map.empty \<and> used (rp_pool (the (ph_pools h a))) = {(ptr, chunks (c a) sz)}
    \<and> make_shared_ptr ops sz (Inl e) (Some a) (new_heap P :: ('p, 'v) pool_heap) = Some (Inl (PE_thrown e), h')
    \<and> ph_objects h' = Map.empty \<and> used (rp_pool (the (ph_pools h' a))) = {}"
proof -
  have r: "rp_chunk_size r = c a" "used (rp_pool r) = {}" using assms(2,3) by (auto simp: pools_new_def)
  have "pool_laws ops used (rp_chunk_size r)" "0 < rp_chunk_size r" "rp_chunk_size r \<le> 2 ^ 24"
    using assms(1,3) r by (auto simp: pools_promise_def)
  from allocate_deallocate [OF this assms(4-6)] r obtain r''
    where "used (rp_pool r') = {(ptr, chunks (c a) sz)}" "pool_deallocate ops ptr sz r' = Some r''" "used (rp_pool r'') = {}" by auto
  moreover have "size_t sz = sz" using assms(5) by (simp add: size_t_def)
  ultimately show ?thesis using assms(3,6)
    by (simp add: make_unique_ptr_def make_shared_ptr_def heap_allocate_def heap_deallocate_def Allocator_allocate_def
        Allocator_deallocate_def new_heap_def set_pool_def)
qed

theorem unique_constructor_leaks_witness:
  "\<exists>(h :: ((nat \<times> nat) list, nat) pool_heap) ptr. make_unique_ptr (bump 128) 200 (Inl ''full'') (Some 7) (new_heap two_pools) = (Inl (PE_thrown ''full''), h)
     \<and> set (rp_pool (the (ph_pools h 7))) = {(ptr, 2)}"
proof -
  have "pools_promise (bump 128) set (\<lambda>_. 128) (dom two_pools)" using bump_laws [of 128] by (simp add: pools_promise_def)
  moreover have "pools_new set (\<lambda>_. 128) two_pools" by (simp add: pools_new_def two_pools_def new_resource_pool_def bump_def)
  moreover have "two_pools 7 = Some (new_resource_pool (bump 128) 128 1024 0)" by (simp add: two_pools_def)
  moreover have "get_chunks_count 200 128 = Some 2" using get_chunks_count_exact [of 200 128] by (simp add: chunks_def)
  then have "\<exists>ptr r'. pool_allocate (bump 128) 200 (new_resource_pool (bump 128) 128 1024 0) = (Inr ptr, r')"
    by (simp add: pool_allocate_def new_resource_pool_def bump_def)
  ultimately obtain h :: "((nat \<times> nat) list, nat) pool_heap" and ptr
    where "make_unique_ptr (bump 128) 200 (Inl ''full'') (Some 7) (new_heap two_pools) = (Inl (PE_thrown ''full''), h)"
      "set (rp_pool (the (ph_pools h 7))) = {(ptr, chunks 128 200)}"
    using unique_constructor_leaks [of "bump 128" set "\<lambda>_. 128" two_pools 7 _ 200] by fastforce
  moreover have "chunks 128 200 = 2" by (simp add: chunks_def)
  ultimately show ?thesis by auto
qed

end
