(* ===== verification/Coroutine_Memory.thy ===== *)
theory Coroutine_Memory
  imports Pool_Pointers
begin

text \<open>
  The memory of coroutines made in a resource pool (\<open>make_coroutine\<close> of \<open>include/ar/coroutine.hpp\<close>), the counter of coroutines
  (\<open>src/coroutine.cpp\<close>) and who keeps a coroutine alive. The object and its reference count are one block of the pool, of
  \<open>sz_B\<close> bytes, the stack of its context another, of \<open>sz_S\<close> bytes. As the context library documents, the stack is given back when
  the function of the context returns, or when the context is destroyed before. \<open>call\<close> passes a shared pointer to
  the coroutine by value to \<open>invoke\<close>: while the body is entered and has not returned, this pointer lies on
  the stack of the coroutine itself.
\<close>

section \<open>Definitions\<close>

datatype body_life = Fresh | Inside | Finished

record coro =
  cm_stack :: "stack_context option"
  cm_body :: body_life
  cm_uses :: nat

text \<open>The pointers that clients and tasks hold, and the counter of the runtime when there is one.\<close>

record 'p coro_sys =
  cy_heap :: "('p, unit) pool_heap"
  cy_coros :: "nat \<times> nat \<rightharpoonup> coro"
  cy_held :: "(nat \<times> nat) list"
  cy_counter :: "int option"

definition handler_create :: "'p coro_sys \<Rightarrow> 'p coro_sys" where
  "handler_create s = s\<lparr>cy_counter := map_option (\<lambda>n. n + 1) (cy_counter s)\<rparr>"

definition handler_destroy :: "'p coro_sys \<Rightarrow> 'p coro_sys" where
  "handler_destroy s = s\<lparr>cy_counter := map_option (\<lambda>n. n - 1) (cy_counter s)\<rparr>"

definition context_stack :: "'p pool_ops \<Rightarrow> nat \<Rightarrow> nat \<Rightarrow> ('p, 'v) pool_heap \<Rightarrow> (pool_error + stack_context) \<times> ('p, 'v) pool_heap" where
  "context_stack ops sz_S a h =
     (case ph_pools h a of
        None \<Rightarrow> (Inl pool_undefined, h)
      | Some r \<Rightarrow> (let (res, r') = stack_allocate ops sz_S r in (res, set_pool a r' h)))"

definition context_end :: "'p pool_ops \<Rightarrow> nat \<Rightarrow> nat \<Rightarrow> stack_context \<Rightarrow> ('p, 'v) pool_heap \<Rightarrow> ('p, 'v) pool_heap option" where
  "context_end ops sz_S a sctx h =
     (case ph_pools h a of
        None \<Rightarrow> None
      | Some r \<Rightarrow> map_option (\<lambda>r. set_pool a r h) (stack_deallocate ops sz_S sctx r))"

text \<open>The constructor allocates the stack; when that throws, the handler is destroyed and the block given back.\<close>

definition make_coroutine :: "'p pool_ops \<Rightarrow> nat \<Rightarrow> nat \<Rightarrow> nat \<Rightarrow> 'p coro_sys \<Rightarrow> ((pool_error + nat \<times> nat) \<times> 'p coro_sys) option" where
  "make_coroutine ops sz_B sz_S a s =
     (case heap_allocate ops sz_B (Some a) (cy_heap s) of
        (Inl e, h) \<Rightarrow> Some (Inl e, s\<lparr>cy_heap := h\<rparr>)
      | (Inr x, h) \<Rightarrow>
          (let s1 = handler_create (s\<lparr>cy_heap := h\<rparr>) in
           case context_stack ops sz_S a h of
             (Inl e, h) \<Rightarrow>
               map_option (\<lambda>h. (Inl e, (handler_destroy s1)\<lparr>cy_heap := h\<rparr>)) (heap_deallocate ops sz_B x h)
           | (Inr sctx, h) \<Rightarrow>
               Some (Inr x, s1\<lparr>cy_heap := construct x () h,
                 cy_coros := (cy_coros s)(x \<mapsto> \<lparr>cm_stack = Some sctx, cm_body = Fresh, cm_uses = 1\<rparr>), cy_held := x # cy_held s\<rparr>)))"

text \<open>The destructor: the context, if it is still there, the handler and the block.\<close>

definition delete_coroutine :: "'p pool_ops \<Rightarrow> nat \<Rightarrow> nat \<Rightarrow> nat \<times> nat \<Rightarrow> coro \<Rightarrow> 'p coro_sys \<Rightarrow> 'p coro_sys option" where
  "delete_coroutine ops sz_B sz_S x k s =
     (case destroy x (cy_heap s) of
        None \<Rightarrow> None
      | Some h \<Rightarrow>
          (case (case cm_stack k of None \<Rightarrow> Some h | Some sctx \<Rightarrow> context_end ops sz_S (fst x) sctx h) of
             None \<Rightarrow> None
           | Some h \<Rightarrow>
               map_option (\<lambda>h. (handler_destroy s)\<lparr>cy_heap := h, cy_coros := (cy_coros s)(x := None)\<rparr>) (heap_deallocate ops sz_B x h)))"

text \<open>Copying and dropping a shared pointer.\<close>

definition copy_pointer :: "nat \<times> nat \<Rightarrow> coro \<Rightarrow> 'p coro_sys \<Rightarrow> 'p coro_sys" where
  "copy_pointer x k s = s\<lparr>cy_coros := (cy_coros s)(x \<mapsto> k\<lparr>cm_uses := cm_uses k + 1\<rparr>), cy_held := x # cy_held s\<rparr>"

definition drop_pointer :: "'p pool_ops \<Rightarrow> nat \<Rightarrow> nat \<Rightarrow> nat \<times> nat \<Rightarrow> coro \<Rightarrow> 'p coro_sys \<Rightarrow> 'p coro_sys option" where
  "drop_pointer ops sz_B sz_S x k s =
     (let s1 = s\<lparr>cy_held := remove1 x (cy_held s)\<rparr> in
      if cm_uses k \<le> 1 then delete_coroutine ops sz_B sz_S x k s1
      else Some (s1\<lparr>cy_coros := (cy_coros s)(x \<mapsto> k\<lparr>cm_uses := cm_uses k - 1\<rparr>)\<rparr>))"

text \<open>The first resume enters the body with a pointer of its own, which goes when the body returns; then the context ends.\<close>

definition enter_body :: "nat \<times> nat \<Rightarrow> coro \<Rightarrow> 'p coro_sys \<Rightarrow> 'p coro_sys" where
  "enter_body x k s = s\<lparr>cy_coros := (cy_coros s)(x \<mapsto> k\<lparr>cm_body := Inside, cm_uses := cm_uses k + 1\<rparr>)\<rparr>"

definition leave_body :: "'p pool_ops \<Rightarrow> nat \<Rightarrow> nat \<times> nat \<Rightarrow> coro \<Rightarrow> 'p coro_sys \<Rightarrow> 'p coro_sys option" where
  "leave_body ops sz_S x k s =
     (case cm_stack k of
        None \<Rightarrow> None
      | Some sctx \<Rightarrow>
          map_option (\<lambda>h. s\<lparr>cy_heap := h, cy_coros := (cy_coros s)(x \<mapsto> \<lparr>cm_stack = None, cm_body = Finished, cm_uses = cm_uses k - 1\<rparr>)\<rparr>)
            (context_end ops sz_S (fst x) sctx (cy_heap s)))"

text \<open>A client, or a task: it can use a coroutine only through a pointer it holds.\<close>

datatype coro_op = CM_Make nat | CM_Copy "nat \<times> nat" | CM_Drop "nat \<times> nat" | CM_Enter "nat \<times> nat" | CM_Leave "nat \<times> nat"

fun coro_op_step :: "'p pool_ops \<Rightarrow> nat \<Rightarrow> nat \<Rightarrow> coro_op \<Rightarrow> 'p coro_sys \<Rightarrow> 'p coro_sys option" where
  "coro_op_step ops sz_B sz_S (CM_Make a) s =
     (case make_coroutine ops sz_B sz_S a s of
        None \<Rightarrow> None | Some (Inl pool_undefined, s) \<Rightarrow> None | Some (_, s) \<Rightarrow> Some s)"
| "coro_op_step ops sz_B sz_S (CM_Copy x) s =
     (if x \<in> set (cy_held s) then map_option (\<lambda>k. copy_pointer x k s) (cy_coros s x) else Some s)"
| "coro_op_step ops sz_B sz_S (CM_Drop x) s =
     (if x \<in> set (cy_held s) then Option.bind (cy_coros s x) (\<lambda>k. drop_pointer ops sz_B sz_S x k s) else Some s)"
| "coro_op_step ops sz_B sz_S (CM_Enter x) s =
     (if x \<in> set (cy_held s) then map_option (\<lambda>k. if cm_body k = Fresh then enter_body x k s else s) (cy_coros s x) else Some s)"
| "coro_op_step ops sz_B sz_S (CM_Leave x) s =
     (if x \<in> set (cy_held s)
      then Option.bind (cy_coros s x) (\<lambda>k. if cm_body k = Inside then leave_body ops sz_S x k s else Some s)
      else Some s)"

primrec coro_run :: "'p pool_ops \<Rightarrow> nat \<Rightarrow> nat \<Rightarrow> coro_op list \<Rightarrow> 'p coro_sys \<Rightarrow> 'p coro_sys option" where
  "coro_run ops sz_B sz_S [] s = Some s"
| "coro_run ops sz_B sz_S (c # cs) s = Option.bind (coro_op_step ops sz_B sz_S c s) (coro_run ops sz_B sz_S cs)"

section \<open>Blocks of coroutines\<close>

definition coro_owner :: "nat \<Rightarrow> nat \<times> nat \<Rightarrow> owner" where
  "coro_owner sz x = \<lparr>ow_at = x, ow_size = sz, ow_copies = 1, ow_shared = True\<rparr>"

lemma coro_owner_simps [simp]: "ow_at (coro_owner sz x) = x" "ow_size (coro_owner sz x) = sz" "ow_copies (coro_owner sz x) = 1"
  by (simp_all add: coro_owner_def)

lemma coro_owner_map [simp]: "map (ow_at \<circ> coro_owner sz) xs = xs" "(\<lambda>x. ow_at (coro_owner sz x)) ` A = A"
  by (simp_all add: comp_def)

definition stacks :: "nat \<Rightarrow> (nat \<times> nat \<rightharpoonup> coro) \<Rightarrow> (nat \<times> nat) list \<Rightarrow> nat \<Rightarrow> (nat \<times> nat) list" where
  "stacks sz K xs a = map (\<lambda>x. (sctx_sp (the (cm_stack (the (K x)))) - sz, sz)) (filter (\<lambda>x. fst x = a \<and> cm_stack (the (K x)) \<noteq> None) xs)"

lemma stacks_Cons: "stacks sz K (x # xs) a =
  (if fst x = a then case cm_stack (the (K x)) of None \<Rightarrow> [] | Some sctx \<Rightarrow> [(sctx_sp sctx - sz, sz)] else []) @ stacks sz K xs a"
  by (auto simp: stacks_def split: option.splits)

lemma stacks_append: "stacks sz K (xs @ ys) a = stacks sz K xs a @ stacks sz K ys a"
  by (simp add: stacks_def)

lemma stacks_cong: "(\<And>x. x \<in> set xs \<Longrightarrow> cm_stack (the (K x)) = cm_stack (the (K' x))) \<Longrightarrow> stacks sz K xs a = stacks sz K' xs a"
  unfolding stacks_def by (intro map_cong filter_cong) auto

lemma heap_inv_loose:
  "heap_inv used c D loose h ws \<Longrightarrow> (\<And>a. mset (loose a) = mset (loose' a)) \<Longrightarrow> heap_inv used c D loose' h ws"
proof -
  assume inv: "heap_inv used c D loose h ws" and eq: "\<And>a. mset (loose a) = mset (loose' a)"
  have "pool_inv used (c a) (r, loose' a @ blocks a ws)" if "ph_pools h a = Some r" for a r
  proof -
    have "pool_inv used (c a) (r, loose a @ blocks a ws)" using inv that by (simp add: heap_inv_def pools_inv_def)
    then show ?thesis by (rule pool_inv_mset) (simp add: eq)
  qed
  then show ?thesis using inv by (simp add: heap_inv_def pools_inv_def)
qed

lemma context_stack_eq:
  "sz < 2 ^ 64 \<Longrightarrow> context_stack ops sz a h =
     (case heap_allocate ops sz (Some a) h of (Inl e, h) \<Rightarrow> (Inl e, h) | (Inr x, h) \<Rightarrow> (Inr \<lparr>sctx_size = sz, sctx_sp = snd x + sz\<rparr>, h))"
  by (auto simp: context_stack_def heap_allocate_def stack_allocate_def Allocator_allocate_def size_t_def split: option.splits prod.splits sum.splits)

lemma context_end_eq:
  "sz < 2 ^ 64 \<Longrightarrow> sctx_size sctx = sz \<Longrightarrow> context_end ops sz a sctx h = heap_deallocate ops sz (a, sctx_sp sctx - sz) h"
  by (simp add: context_end_def heap_deallocate_def stack_deallocate_def Allocator_deallocate_def size_t_def split: option.splits)

definition coro_ok :: "nat \<Rightarrow> (nat \<times> nat) list \<Rightarrow> nat \<times> nat \<Rightarrow> coro \<Rightarrow> bool" where
  "coro_ok sz_S held x k \<longleftrightarrow> cm_uses k = count_list held x + (if cm_body k = Inside then 1 else 0) \<and> 0 < cm_uses k
     \<and> (cm_stack k = None \<longleftrightarrow> cm_body k = Finished) \<and> (\<forall>sctx. cm_stack k = Some sctx \<longrightarrow> sctx_size sctx = sz_S)"

definition coros_ok :: "nat \<Rightarrow> (nat \<times> nat) list \<Rightarrow> (nat \<times> nat \<rightharpoonup> coro) \<Rightarrow> bool" where
  "coros_ok sz_S held K \<longleftrightarrow> (\<forall>x k. K x = Some k \<longrightarrow> coro_ok sz_S held x k)"

lemma coros_okD: "coros_ok sz_S held K \<Longrightarrow> K x = Some k \<Longrightarrow> coro_ok sz_S held x k"
  unfolding coros_ok_def by blast

lemma coros_okI: "(\<And>x k. K x = Some k \<Longrightarrow> coro_ok sz_S held x k) \<Longrightarrow> coros_ok sz_S held K"
  unfolding coros_ok_def by blast

lemma coro_ok_count: "coro_ok sz_S held x k \<Longrightarrow> count_list held' x = count_list held x \<Longrightarrow> coro_ok sz_S held' x k"
  unfolding coro_ok_def by metis

lemma coros_ok_update:
  assumes ok: "coros_ok sz_S held K" and k: "coro_ok sz_S held' x k" and eq: "\<And>y. y \<noteq> x \<Longrightarrow> count_list held' y = count_list held y"
  shows "coros_ok sz_S held' (K(x \<mapsto> k))"
proof (rule coros_okI)
  fix y l assume "(K(x \<mapsto> k)) y = Some l"
  then show "coro_ok sz_S held' y l"
    using k coro_ok_count [OF coros_okD [OF ok, of y l] eq] by (cases "y = x") simp_all
qed

lemma coros_ok_remove:
  assumes ok: "coros_ok sz_S held K" and eq: "\<And>y. y \<noteq> x \<Longrightarrow> count_list held' y = count_list held y"
  shows "coros_ok sz_S held' (K(x := None))"
proof (rule coros_okI)
  fix y l assume "(K(x := None)) y = Some l"
  then show "coro_ok sz_S held' y l"
    using coro_ok_count [OF coros_okD [OF ok, of y l] eq] by (cases "y = x") simp_all
qed

lemma count_list_remove1: "count_list (remove1 x xs) y = count_list xs y - (if y = x then 1 else 0)"
  by (induction xs) (auto simp: count_list_0_iff)

definition coro_at ::
  "('p \<Rightarrow> (nat \<times> nat) set) \<Rightarrow> (nat \<Rightarrow> nat) \<Rightarrow> nat set \<Rightarrow> nat \<Rightarrow> nat \<Rightarrow> 'p coro_sys \<Rightarrow> (nat \<times> nat) list \<Rightarrow> bool" where
  "coro_at used c D sz_B sz_S s xs \<longleftrightarrow> heap_inv used c D (stacks sz_S (cy_coros s) xs) (cy_heap s) (map (coro_owner sz_B) xs)
     \<and> dom (cy_coros s) = set xs \<and> set (cy_held s) \<subseteq> set xs
     \<and> coros_ok sz_S (cy_held s) (cy_coros s) \<and> (\<forall>n. cy_counter s = Some n \<longrightarrow> n = int (length xs))"

lemma coro_at_distinct: "coro_at used c D sz_B sz_S s xs \<Longrightarrow> distinct xs"
  by (simp add: coro_at_def heap_inv_def objects_inv_def)

lemma coro_at_pool: "coro_at used c D sz_B sz_S s xs \<Longrightarrow> x \<in> set xs \<Longrightarrow> fst x \<in> D"
  by (auto simp: coro_at_def heap_inv_def)

lemma stacks_split:
  "K x = Some k \<Longrightarrow> cm_stack k = Some sctx \<Longrightarrow>
     mset (stacks sz K (us @ x # vs) a) = mset (((stacks sz K (us @ vs))(fst x := (sctx_sp sctx - sz, sz) # stacks sz K (us @ vs) (fst x))) a)"
  by (simp add: stacks_append stacks_Cons)

lemma stacks_none: "K x = Some k \<Longrightarrow> cm_stack k = None \<Longrightarrow> stacks sz K (us @ x # vs) a = stacks sz K (us @ vs) a"
  by (simp add: stacks_append stacks_Cons)

text \<open>A coroutine whose block and stack were just handed out.\<close>

lemma coro_constructed_at:
  fixes s :: "'p coro_sys"
  assumes prom: "pools_promise ops used c D" and at: "coro_at used c D sz_B sz_S s xs" and a: "a \<in> D"
    and inv: "heap_inv used c D (((stacks sz_S (cy_coros s) xs)(a := (ptr, sz_B) # stacks sz_S (cy_coros s) xs a))
      (a := (vp, sz_S) # ((stacks sz_S (cy_coros s) xs)(a := (ptr, sz_B) # stacks sz_S (cy_coros s) xs a)) a)) h (map (coro_owner sz_B) xs)"
  defines "k \<equiv> \<lparr>cm_stack = Some \<lparr>sctx_size = sz_S, sctx_sp = vp + sz_S\<rparr>, cm_body = Fresh, cm_uses = 1\<rparr>"
  shows "(a, ptr) \<notin> set xs"
    and "coro_at used c D sz_B sz_S ((handler_create s)\<lparr>cy_heap := construct (a, ptr) () h,
      cy_coros := (cy_coros s)((a, ptr) \<mapsto> k), cy_held := (a, ptr) # cy_held s\<rparr>) ((a, ptr) # xs)"
proof -
  let ?L = "stacks sz_S (cy_coros s) xs" and ?x = "(a, ptr)"
  let ?M = "?L(a := (vp, sz_S) # ?L a)"
  have "heap_inv used c D (?M(a := (ptr, sz_B) # ?M a)) h (map (coro_owner sz_B) xs)" by (rule heap_inv_loose [OF inv]) simp
  from construct_inv [OF prom this a, of "coro_owner sz_B ?x" "()"]
  have c: "heap_inv used c D ?M (construct ?x () h) (map (coro_owner sz_B) (?x # xs))" by simp
  then show new: "?x \<notin> set xs" by (simp add: heap_inv_def objects_inv_def)
  then have "stacks sz_S ((cy_coros s)(?x \<mapsto> k)) xs b = ?L b" for b by (intro stacks_cong) auto
  then have "stacks sz_S ((cy_coros s)(?x \<mapsto> k)) (?x # xs) = ?M" by (auto simp: stacks_Cons k_def)
  moreover have "count_list (cy_held s) ?x = 0" using at new by (auto simp: coro_at_def count_list_0_iff)
  moreover from this have "coros_ok sz_S (?x # cy_held s) ((cy_coros s)(?x \<mapsto> k))"
    using at by (intro coros_ok_update [of _ "cy_held s"]) (auto simp: coro_at_def coro_ok_def k_def)
  ultimately show "coro_at used c D sz_B sz_S ((handler_create s)\<lparr>cy_heap := construct ?x () h,
      cy_coros := (cy_coros s)(?x \<mapsto> k), cy_held := ?x # cy_held s\<rparr>) (?x # xs)"
    using at c by (auto simp: coro_at_def handler_create_def)
qed

lemma make_coroutine_at:
  assumes prom: "pools_promise ops used c D" and at: "coro_at used c D sz_B sz_S s xs" and a: "a \<in> D"
    and sz: "0 < sz_B" "sz_B < 2 ^ 24" "0 < sz_S" "sz_S < 2 ^ 24"
  shows "\<exists>s' xs'. coro_op_step ops sz_B sz_S (CM_Make a) s = Some s' \<and> coro_at used c D sz_B sz_S s' xs'
    \<and> (\<forall>y\<in>set xs. cy_coros s' y = cy_coros s y \<and> (y \<in> set (cy_held s') \<longrightarrow> y \<in> set (cy_held s)))"
proof -
  let ?L = "stacks sz_S (cy_coros s) xs" and ?ws = "map (coro_owner sz_B) xs"
  have inv: "heap_inv used c D ?L (cy_heap s) ?ws" using at by (simp add: coro_at_def)
  have S: "sz_S < 2 ^ 64" using sz(4) by simp
  from heap_allocate_inv [OF prom inv a sz(1,2)] show ?thesis
  proof (elim disjE exE conjE)
    fix h assume h: "heap_allocate ops sz_B (Some a) (cy_heap s) = (Inl bad_alloc, h)" "heap_inv used c D ?L h ?ws"
    then have "coro_at used c D sz_B sz_S (s\<lparr>cy_heap := h\<rparr>) xs" using at by (simp add: coro_at_def)
    then show ?thesis using h(1) by (auto simp: make_coroutine_def intro!: exI [of _ xs])
  next
    fix ptr h assume h: "heap_allocate ops sz_B (Some a) (cy_heap s) = (Inr (a, ptr), h)" "heap_inv used c D (?L(a := (ptr, sz_B) # ?L a)) h ?ws"
    from heap_allocate_inv [OF prom h(2) a sz(3,4)] show ?thesis
    proof (elim disjE exE conjE)
      fix h1 assume h1: "heap_allocate ops sz_S (Some a) h = (Inl bad_alloc, h1)" "heap_inv used c D (?L(a := (ptr, sz_B) # ?L a)) h1 ?ws"
      obtain h2 where h2: "heap_deallocate ops sz_B (a, ptr) h1 = Some h2" "heap_inv used c D ?L h2 ?ws"
        using heap_deallocate_inv [OF prom h1(2) a] by blast
      have "handler_destroy (handler_create s') = s'" for s' :: "'a coro_sys"
        by (cases "cy_counter s'") (simp_all add: handler_create_def handler_destroy_def)
      moreover have "coro_at used c D sz_B sz_S (s\<lparr>cy_heap := h2\<rparr>) xs" using at h2(2) by (simp add: coro_at_def)
      ultimately show ?thesis using h(1) h1(1) h2(1) S by (auto simp: make_coroutine_def context_stack_eq intro!: exI [of _ xs])
    next
      fix vp h1
      let ?M = "?L(a := (vp, sz_S) # ?L a)" and ?x = "(a, ptr)" and ?sctx = "\<lparr>sctx_size = sz_S, sctx_sp = vp + sz_S\<rparr>"
      let ?k = "\<lparr>cm_stack = Some ?sctx, cm_body = Fresh, cm_uses = 1\<rparr>"
      let ?s = "(handler_create s)\<lparr>cy_heap := construct ?x () h1, cy_coros := (cy_coros s)(?x \<mapsto> ?k), cy_held := ?x # cy_held s\<rparr>"
      assume h1: "heap_allocate ops sz_S (Some a) h = (Inr (a, vp), h1)"
        "heap_inv used c D ((?L(a := (ptr, sz_B) # ?L a))(a := (vp, sz_S) # (?L(a := (ptr, sz_B) # ?L a)) a)) h1 ?ws"
      from coro_constructed_at [OF prom at a h1(2)] have new: "?x \<notin> set xs" "coro_at used c D sz_B sz_S ?s (?x # xs)" by simp_all
      show ?thesis using h(1) h1(1) S new by (auto simp: make_coroutine_def context_stack_eq handler_create_def intro!: exI [of _ "?x # xs"])
    qed
  qed
qed

text \<open>Giving back the stack of \<open>x\<close>.\<close>

lemma stack_returned:
  assumes prom: "pools_promise ops used c D" and a: "fst x \<in> D" and S: "sz_S < 2 ^ 24" and sctx: "sctx_size sctx = sz_S"
    and inv: "heap_inv used c D loose h ws"
    and eq: "\<And>b. mset (loose b) = mset ((loose'(fst x := (sctx_sp sctx - sz_S, sz_S) # loose' (fst x))) b)"
  shows "\<exists>h'. context_end ops sz_S (fst x) sctx h = Some h' \<and> heap_inv used c D loose' h' ws"
proof -
  have "heap_inv used c D (loose'(fst x := (sctx_sp sctx - sz_S, sz_S) # loose' (fst x))) h ws" by (rule heap_inv_loose [OF inv eq])
  from heap_deallocate_inv [OF prom this a] show ?thesis using S sctx by (simp add: context_end_eq)
qed

lemma delete_coroutine_at:
  assumes prom: "pools_promise ops used c D" and S: "sz_S < 2 ^ 24"
    and inv: "heap_inv used c D (stacks sz_S (cy_coros s) (us @ x # vs)) (cy_heap s) (map (coro_owner sz_B) (us @ x # vs))"
    and k: "cy_coros s x = Some k" "\<And>sctx. cm_stack k = Some sctx \<Longrightarrow> sctx_size sctx = sz_S"
  shows "\<exists>h. delete_coroutine ops sz_B sz_S x k s = Some ((handler_destroy s)\<lparr>cy_heap := h, cy_coros := (cy_coros s)(x := None)\<rparr>)
    \<and> heap_inv used c D (stacks sz_S ((cy_coros s)(x := None)) (us @ vs)) h (map (coro_owner sz_B) (us @ vs))"
proof -
  let ?L = "stacks sz_S (cy_coros s) (us @ vs)" and ?N = "stacks sz_S (cy_coros s) (us @ x # vs)" and ?ws = "map (coro_owner sz_B) (us @ vs)"
  have a: "fst x \<in> D" and new: "x \<notin> set us \<union> set vs" using inv by (auto simp: heap_inv_def objects_inv_def)
  have L: "stacks sz_S ((cy_coros s)(x := None)) (us @ vs) = ?L" using new by (intro ext stacks_cong) auto
  let ?P = "?L(fst x := (snd x, sz_B) # ?L (fst x))"
  obtain h1 where h1: "destroy x (cy_heap s) = Some h1" "heap_inv used c D (?N(fst x := (snd x, sz_B) # ?N (fst x))) h1 ?ws"
    using destroy_inv [of used c D ?N "cy_heap s" "map (coro_owner sz_B) us" "coro_owner sz_B x" "map (coro_owner sz_B) vs"] inv by auto
  have "\<exists>h2. (case cm_stack k of None \<Rightarrow> Some h1 | Some sctx \<Rightarrow> context_end ops sz_S (fst x) sctx h1) = Some h2 \<and> heap_inv used c D ?P h2 ?ws"
  proof (cases "cm_stack k")
    case None
    have "heap_inv used c D ?P h1 ?ws" by (rule heap_inv_loose [OF h1(2)]) (simp add: stacks_none [of "cy_coros s", OF k(1) None])
    then show ?thesis using None by simp
  next
    case (Some sctx)
    have "mset ((?N(fst x := (snd x, sz_B) # ?N (fst x))) b) = mset ((?P(fst x := (sctx_sp sctx - sz_S, sz_S) # ?P (fst x))) b)" for b
      using stacks_split [of "cy_coros s", OF k(1) Some, of sz_S us vs b] by (cases "b = fst x") simp_all
    from stack_returned [OF prom a S k(2) [OF Some] h1(2) this] Some show ?thesis by simp
  qed
  then obtain h2 where h2: "(case cm_stack k of None \<Rightarrow> Some h1 | Some sctx \<Rightarrow> context_end ops sz_S (fst x) sctx h1) = Some h2"
    "heap_inv used c D ?P h2 ?ws" by blast
  obtain h3 where "heap_deallocate ops sz_B (fst x, snd x) h2 = Some h3" "heap_inv used c D ?L h3 ?ws"
    using heap_deallocate_inv [OF prom h2(2) a] by blast
  then show ?thesis using h1(1) h2(1) L by (auto simp: delete_coroutine_def)
qed

lemma drop_pointer_at:
  assumes prom: "pools_promise ops used c D" and S: "sz_S < 2 ^ 24" and at: "coro_at used c D sz_B sz_S s xs"
    and x: "x \<in> set (cy_held s)" and k: "cy_coros s x = Some k"
  shows "\<exists>s' xs'. drop_pointer ops sz_B sz_S x k s = Some s' \<and> coro_at used c D sz_B sz_S s' xs'"
proof -
  let ?s = "s\<lparr>cy_held := remove1 x (cy_held s)\<rparr>"
  have all: "coros_ok sz_S (cy_held s) (cy_coros s)" using at by (simp add: coro_at_def)
  note ok = coros_okD [OF all k]
  have held: "0 < count_list (cy_held s) x" using x by (simp add: count_list_0_iff neq0_conv [symmetric] del: neq0_conv)
  have x': "x \<in> set xs" using at x by (auto simp: coro_at_def)
  have other: "count_list (remove1 x (cy_held s)) y = count_list (cy_held s) y" if "y \<noteq> x" for y using that by (simp add: count_list_remove1)
  show ?thesis
  proof (cases "cm_uses k \<le> 1")
    case True
    then have one: "count_list (cy_held s) x = 1" using ok held by (auto simp: coro_ok_def)
    obtain us vs where xs: "xs = us @ x # vs" using x' by (auto dest: split_list)
    then have new: "x \<notin> set us \<union> set vs" using coro_at_distinct [OF at] by simp
    obtain h where h: "delete_coroutine ops sz_B sz_S x k ?s = Some ((handler_destroy ?s)\<lparr>cy_heap := h, cy_coros := (cy_coros s)(x := None)\<rparr>)"
      "heap_inv used c D (stacks sz_S ((cy_coros s)(x := None)) (us @ vs)) h (map (coro_owner sz_B) (us @ vs))"
      using delete_coroutine_at [OF prom S, of ?s us x vs sz_B k] at xs k ok by (auto simp: coro_at_def coro_ok_def)
    have "x \<notin> set (remove1 x (cy_held s))" using one by (simp add: count_list_0_iff [symmetric] count_list_remove1)
    then have "set (remove1 x (cy_held s)) \<subseteq> set us \<union> set vs" using at xs set_remove1_subset [of x "cy_held s"] by (auto simp: coro_at_def)
    moreover have "dom ((cy_coros s)(x := None)) = set us \<union> set vs" using at xs new by (auto simp: coro_at_def)
    ultimately have "coro_at used c D sz_B sz_S ((handler_destroy ?s)\<lparr>cy_heap := h, cy_coros := (cy_coros s)(x := None)\<rparr>) (us @ vs)"
      using h(2) at xs coros_ok_remove [OF all other] by (auto simp: coro_at_def handler_destroy_def)
    then show ?thesis using h(1) True by (auto simp: drop_pointer_def)
  next
    case False
    let ?k = "k\<lparr>cm_uses := cm_uses k - 1\<rparr>"
    have "coro_ok sz_S (remove1 x (cy_held s)) x ?k" using ok False held by (auto simp: coro_ok_def count_list_remove1)
    then have "coros_ok sz_S (remove1 x (cy_held s)) ((cy_coros s)(x \<mapsto> ?k))" using coros_ok_update [OF all _ other] by simp
    moreover have "stacks sz_S ((cy_coros s)(x \<mapsto> ?k)) xs = stacks sz_S (cy_coros s) xs" using k by (intro ext stacks_cong) auto
    ultimately have "coro_at used c D sz_B sz_S (?s\<lparr>cy_coros := (cy_coros s)(x \<mapsto> ?k)\<rparr>) xs"
      using at x' set_remove1_subset [of x "cy_held s"] by (auto simp: coro_at_def)
    then show ?thesis using False by (auto simp: drop_pointer_def)
  qed
qed

text \<open>A coroutine that stays where it is and keeps its stack.\<close>

lemma coro_at_update:
  assumes at: "coro_at used c D sz_B sz_S s xs" and x: "x \<in> set xs" "cy_coros s x = Some k" and k: "cm_stack k' = cm_stack k"
    and held: "set held \<subseteq> set xs" "\<And>y. y \<noteq> x \<Longrightarrow> count_list held y = count_list (cy_held s) y" and ok: "coro_ok sz_S held x k'"
  shows "coro_at used c D sz_B sz_S (s\<lparr>cy_coros := (cy_coros s)(x \<mapsto> k'), cy_held := held\<rparr>) xs"
proof -
  have "stacks sz_S ((cy_coros s)(x \<mapsto> k')) xs = stacks sz_S (cy_coros s) xs" using x(2) k by (intro ext stacks_cong) auto
  moreover have "coros_ok sz_S held ((cy_coros s)(x \<mapsto> k'))" using at by (intro coros_ok_update [OF _ ok held(2)]) (simp_all add: coro_at_def)
  ultimately show ?thesis using at x held(1) by (auto simp: coro_at_def)
qed

lemma leave_body_at:
  assumes prom: "pools_promise ops used c D" and S: "sz_S < 2 ^ 24" and at: "coro_at used c D sz_B sz_S s xs"
    and x: "x \<in> set (cy_held s)" and k: "cy_coros s x = Some k" "cm_body k = Inside"
  shows "\<exists>s'. leave_body ops sz_S x k s = Some s' \<and> coro_at used c D sz_B sz_S s' xs"
proof -
  have all: "coros_ok sz_S (cy_held s) (cy_coros s)" using at by (simp add: coro_at_def)
  note ok = coros_okD [OF all k(1)]
  then obtain sctx where sctx: "cm_stack k = Some sctx" "sctx_size sctx = sz_S" using k(2) by (auto simp: coro_ok_def)
  have x': "x \<in> set xs" using at x by (auto simp: coro_at_def)
  then obtain us vs where xs: "xs = us @ x # vs" by (auto dest: split_list)
  then have new: "x \<notin> set us \<union> set vs" using coro_at_distinct [OF at] by simp
  let ?k = "\<lparr>cm_stack = None, cm_body = Finished, cm_uses = cm_uses k - 1\<rparr>" and ?K = "(cy_coros s)(x \<mapsto> \<lparr>cm_stack = None, cm_body = Finished, cm_uses = cm_uses k - 1\<rparr>)"
  have "stacks sz_S ?K (us @ x # vs) b = stacks sz_S (cy_coros s) (us @ vs) b" for b
    using stacks_none [of ?K x ?k sz_S us vs b] new by (auto intro!: stacks_cong)
  then have L: "stacks sz_S ?K xs = stacks sz_S (cy_coros s) (us @ vs)" using xs by auto
  have "heap_inv used c D (stacks sz_S (cy_coros s) xs) (cy_heap s) (map (coro_owner sz_B) xs)" using at by (simp add: coro_at_def)
  from stack_returned [OF prom coro_at_pool [OF at x'] S sctx(2) this, of "stacks sz_S ?K xs"]
    stacks_split [of "cy_coros s", OF k(1) sctx(1), of sz_S us vs] L xs
  obtain h where h: "context_end ops sz_S (fst x) sctx (cy_heap s) = Some h" "heap_inv used c D (stacks sz_S ?K xs) h (map (coro_owner sz_B) xs)"
    by metis
  have "0 < count_list (cy_held s) x" using x by (simp add: count_list_0_iff neq0_conv [symmetric] del: neq0_conv)
  then have "coro_ok sz_S (cy_held s) x ?k" using ok k(2) by (simp add: coro_ok_def)
  then have "coros_ok sz_S (cy_held s) ?K" by (rule coros_ok_update [OF all]) simp
  then have "coro_at used c D sz_B sz_S (s\<lparr>cy_heap := h, cy_coros := ?K\<rparr>) xs" using at h(2) x' by (auto simp: coro_at_def)
  then show ?thesis using h(1) sctx(1) by (simp add: leave_body_def)
qed

fun coro_op_ok :: "nat set \<Rightarrow> coro_op \<Rightarrow> bool" where
  "coro_op_ok D (CM_Make a) \<longleftrightarrow> a \<in> D"
| "coro_op_ok D _ \<longleftrightarrow> True"

lemma coro_op_at:
  assumes prom: "pools_promise ops used c D" and at: "coro_at used c D sz_B sz_S s xs" and ok: "coro_op_ok D call"
    and sz: "0 < sz_B" "sz_B < 2 ^ 24" "0 < sz_S" "sz_S < 2 ^ 24"
  shows "\<exists>s' xs'. coro_op_step ops sz_B sz_S call s = Some s' \<and> coro_at used c D sz_B sz_S s' xs'"
proof -
  have all: "coros_ok sz_S (cy_held s) (cy_coros s)" and dom: "dom (cy_coros s) = set xs" and held: "set (cy_held s) \<subseteq> set xs"
    using at by (simp_all add: coro_at_def)
  have has: "\<exists>k. cy_coros s x = Some k \<and> x \<in> set xs \<and> coro_ok sz_S (cy_held s) x k" if "x \<in> set (cy_held s)" for x
    using that dom held coros_okD [OF all, of x] by blast
  show ?thesis
  proof (cases call)
    case (CM_Make a)
    then show ?thesis using make_coroutine_at [OF prom at _ sz, of a] ok by (auto simp del: coro_op_step.simps)
  next
    case (CM_Copy x)
    show ?thesis
    proof (cases "x \<in> set (cy_held s)")
      case True
      then obtain k where k: "cy_coros s x = Some k" "x \<in> set xs" "coro_ok sz_S (cy_held s) x k" using has by blast
      have "coro_ok sz_S (x # cy_held s) x (k\<lparr>cm_uses := cm_uses k + 1\<rparr>)" using k(3) by (simp add: coro_ok_def)
      then have "coro_at used c D sz_B sz_S (copy_pointer x k s) xs"
        using coro_at_update [OF at k(2,1), of "k\<lparr>cm_uses := cm_uses k + 1\<rparr>" "x # cy_held s"] held k(2) by (simp add: copy_pointer_def)
      then show ?thesis using True k(1) CM_Copy by auto
    qed (use at CM_Copy in auto)
  next
    case (CM_Drop x)
    show ?thesis
    proof (cases "x \<in> set (cy_held s)")
      case True
      then obtain k where k: "cy_coros s x = Some k" using has by blast
      then show ?thesis using drop_pointer_at [OF prom sz(4) at True k] True CM_Drop by simp
    qed (use at CM_Drop in auto)
  next
    case (CM_Enter x)
    show ?thesis
    proof (cases "x \<in> set (cy_held s)")
      case True
      then obtain k where k: "cy_coros s x = Some k" "x \<in> set xs" "coro_ok sz_S (cy_held s) x k" using has by blast
      have "coro_at used c D sz_B sz_S (enter_body x k s) xs" if "cm_body k = Fresh"
        using coro_at_update [OF at k(2,1), of "k\<lparr>cm_body := Inside, cm_uses := cm_uses k + 1\<rparr>" "cy_held s"] held k(3) that
        by (simp add: enter_body_def coro_ok_def)
      then show ?thesis using True k(1) CM_Enter at by auto
    qed (use at CM_Enter in auto)
  next
    case (CM_Leave x)
    show ?thesis
    proof (cases "x \<in> set (cy_held s)")
      case True
      then obtain k where k: "cy_coros s x = Some k" using has by blast
      then show ?thesis using leave_body_at [OF prom sz(4) at True k] True CM_Leave at by auto
    qed (use at CM_Leave in auto)
  qed
qed

lemma coro_run_at:
  assumes prom: "pools_promise ops used c D" and sz: "0 < sz_B" "sz_B < 2 ^ 24" "0 < sz_S" "sz_S < 2 ^ 24"
  shows "coro_at used c D sz_B sz_S s xs \<Longrightarrow> list_all (coro_op_ok D) cs \<Longrightarrow>
    \<exists>s' xs'. coro_run ops sz_B sz_S cs s = Some s' \<and> coro_at used c D sz_B sz_S s' xs'"
proof (induction cs arbitrary: s xs)
  case (Cons call cs)
  from coro_op_at [OF prom Cons.prems(1) _ sz, of call] Cons.prems(2) obtain s1 xs1
    where "coro_op_step ops sz_B sz_S call s = Some s1" "coro_at used c D sz_B sz_S s1 xs1" by auto
  with Cons.IH Cons.prems(2) show ?case by simp
qed auto

definition new_coro_sys :: "(nat \<rightharpoonup> 'p resource_pool) \<Rightarrow> 'p coro_sys" where
  "new_coro_sys P = \<lparr>cy_heap = new_heap P, cy_coros = Map.empty, cy_held = [], cy_counter = Some 0\<rparr>"

lemma new_coro_at: "pools_new used c P \<Longrightarrow> coro_at used c (dom P) sz_B sz_S (new_coro_sys P) []"
  using new_heap_inv [of used c P] heap_inv_loose [of used c "dom P" "\<lambda>_. []" "new_heap P" "[]" "stacks sz_S Map.empty []"]
  by (simp add: coro_at_def new_coro_sys_def coros_ok_def stacks_def)

section \<open>Properties\<close>

text \<open>C24: Coroutines made in pools give their memory back, with one exception. Whatever coroutines are made, entered and
  left, and however their pointers are copied and dropped, nothing undefined happens, a pointer that is held points to
  a coroutine that lives, and the runtime's counter is the number of coroutines that live. When no pointer is held, the coroutines that
  still live are those that were entered and have not returned: each keeps itself alive by the pointer on
  its own stack. Without such a coroutine every pool is as empty as at the beginning.\<close>

theorem coroutine_memory:
  assumes "pools_promise ops used c (dom P)" "pools_new used c P" "list_all (coro_op_ok (dom P)) cs"
    and "0 < sz_B" "sz_B < 2 ^ 24" "0 < sz_S" "sz_S < 2 ^ 24"
  shows "\<exists>s. coro_run ops sz_B sz_S cs (new_coro_sys P) = Some s \<and> set (cy_held s) \<subseteq> dom (cy_coros s)
    \<and> (\<forall>n. cy_counter s = Some n \<longrightarrow> n = int (card (dom (cy_coros s))))
    \<and> (cy_held s = [] \<longrightarrow> (\<forall>x k. cy_coros s x = Some k \<longrightarrow> cm_body k = Inside \<and> cm_uses k = 1)
         \<and> (cy_coros s = Map.empty \<longrightarrow> dom (ph_pools (cy_heap s)) = dom P \<and> pools_new used c (ph_pools (cy_heap s))))"
proof -
  from coro_run_at [OF assms(1,4-7) new_coro_at [OF assms(2)] assms(3)] obtain s xs
    where s: "coro_run ops sz_B sz_S cs (new_coro_sys P) = Some s" and at: "coro_at used c (dom P) sz_B sz_S s xs" by blast
  have "card (dom (cy_coros s)) = length xs" using at distinct_card [OF coro_at_distinct [OF at]] by (simp add: coro_at_def)
  moreover have "cm_body k = Inside \<and> cm_uses k = 1" if "cy_held s = []" "cy_coros s x = Some k" for x k
  proof -
    have "coro_ok sz_S [] x k" using at that coros_okD by (fastforce simp: coro_at_def)
    then show ?thesis by (auto simp: coro_ok_def split: if_splits)
  qed
  moreover have "dom (ph_pools (cy_heap s)) = dom P \<and> pools_new used c (ph_pools (cy_heap s))" if "cy_coros s = Map.empty"
  proof -
    have "xs = []" using at that by (auto simp: coro_at_def)
    then show ?thesis using at by (auto simp: coro_at_def heap_inv_def pools_inv_def pools_new_def stacks_def blocks_def pool_inv_def)
  qed
  ultimately show ?thesis using s at by (auto simp: coro_at_def)
qed

theorem coroutine_memory_witness:
  "\<exists>s. coro_run (bump 128) 200 65536 [CM_Make 7, CM_Make 9, CM_Enter (7, 4096), CM_Leave (7, 4096), CM_Drop (7, 4096)] (new_coro_sys two_pools) = Some s
     \<and> set (cy_held s) \<subseteq> dom (cy_coros s)"
proof -
  have "pools_promise (bump 128) set (\<lambda>_. 128) (dom two_pools)" using bump_laws [of 128] by (simp add: pools_promise_def)
  moreover have "pools_new set (\<lambda>_. 128) two_pools" by (simp add: pools_new_def two_pools_def new_resource_pool_def bump_def)
  moreover have "list_all (coro_op_ok (dom two_pools)) [CM_Make 7, CM_Make 9, CM_Enter (7, 4096), CM_Leave (7, 4096), CM_Drop (7, 4096)]"
    by (simp add: two_pools_def)
  ultimately show ?thesis using coroutine_memory [of "bump 128" set "\<lambda>_. 128" two_pools _ 200 65536] by fastforce
qed

text \<open>Such a coroutine is lost for good: no call of anyone reaches it.\<close>

lemma coro_step_lost:
  assumes prom: "pools_promise ops used c D" and at: "coro_at used c D sz_B sz_S s xs" and ok: "coro_op_ok D call"
    and sz: "0 < sz_B" "sz_B < 2 ^ 24" "0 < sz_S" "sz_S < 2 ^ 24" and step: "coro_op_step ops sz_B sz_S call s = Some s'"
    and x: "cy_coros s x = Some k" "x \<notin> set (cy_held s)"
  shows "cy_coros s' x = Some k \<and> x \<notin> set (cy_held s')"
proof (cases call)
  case (CM_Make a)
  have "x \<in> set xs" using at x(1) by (auto simp: coro_at_def)
  then show ?thesis using make_coroutine_at [OF prom at _ sz, of a] ok step x CM_Make by (auto simp del: coro_op_step.simps)
qed (use step x set_remove1_subset [of _ "cy_held s"] in
  \<open>fastforce simp: copy_pointer_def drop_pointer_def delete_coroutine_def handler_destroy_def enter_body_def leave_body_def Let_def
    split: if_splits option.splits Option.bind_splits\<close>)+

lemma suspended_coroutine_lost:
  assumes prom: "pools_promise ops used c D" and sz: "0 < sz_B" "sz_B < 2 ^ 24" "0 < sz_S" "sz_S < 2 ^ 24"
  shows "coro_at used c D sz_B sz_S s xs \<Longrightarrow> list_all (coro_op_ok D) cs \<Longrightarrow> cy_coros s x = Some k \<Longrightarrow> x \<notin> set (cy_held s) \<Longrightarrow>
    coro_run ops sz_B sz_S cs s = Some s' \<Longrightarrow> cy_coros s' x = Some k"
proof (induction cs arbitrary: s xs)
  case (Cons call cs)
  from coro_op_at [OF prom Cons.prems(1) _ sz, of call] Cons.prems(2) obtain s1 xs1
    where 1: "coro_op_step ops sz_B sz_S call s = Some s1" "coro_at used c D sz_B sz_S s1 xs1" by auto
  then show ?case using coro_step_lost [OF prom Cons.prems(1) _ sz 1(1) Cons.prems(3,4)] Cons by simp
qed simp

end
