(* ===== verification/Work_Notifier.thy ===== *)
theory Work_Notifier
  imports AR_Prelude
begin

text \<open>
  \<open>src/work_notifier.h\<close> (\<open>include/ar/notifier.hpp\<close> has the same algorithm without
  \<open>notify_waiter\<close>): the event count on which the workers of an executor sleep. A 64-bit
  word packs the top of a stack of sleeping waiters, the number of waiters between
  \<open>prepare_wait\<close> and their decision, and a 32-bit epoch that wraps around. A waiter is
  its index in \<open>_waiters\<close>; a null \<open>next\<close> is \<open>None\<close>. The loops around
  \<open>compare_exchange_weak\<close> are modelled by their last iteration, the one whose exchange
  succeeds: \<open>commit_iter\<close>, \<open>cancel_iter\<close> and \<open>notify\<close> read the word and exchange it
  in one step (the theory \<open>Notifier\<close> takes the accesses one by one and refines this). The \<open>_unpark\<close> that follows a successful exchange of \<open>notify\<close> belongs
  to that step; the variant with a mutex and a condition variable is the one modelled. Of \<open>_unpark\<close>, the test of the
  old state against \<open>kWaiting\<close> decides only whether the condition variable is notified: here a parked worker may look at
  its state at any time (\<open>park_iter\<close>), as after a spurious wake-up, and stays where it is unless it was signalled.
\<close>

section \<open>Definitions\<close>

definition kStackMask :: u64 where "kStackMask = push_bit 16 1 - 1"
definition kWaiterMask :: u64 where "kWaiterMask = push_bit 16 (push_bit 16 1 - 1)"
definition kWaiterInc :: u64 where "kWaiterInc = push_bit 16 1"
definition kEpochMask :: u64 where "kEpochMask = push_bit 32 (push_bit 32 1 - 1)"
definition kEpochInc :: u64 where "kEpochInc = push_bit 32 1"

datatype waiter_state = kNotSignaled | kWaiting | kSignaled

record Waiter =
  w_next :: "nat option"
  w_epoch :: u64
  w_state :: waiter_state

record WorkNotifier =
  wn_state :: u64
  wn_waiters :: "Waiter list"

definition new_WorkNotifier :: "nat \<Rightarrow> ar_error + WorkNotifier" where
  "new_WorkNotifier N =
     (if N < 2 ^ 16 - 1 then
        Inr \<lparr>wn_state = kStackMask OR (kEpochMask - kEpochInc * word_of_nat N * 2),
             wn_waiters = replicate N \<lparr>w_next = None, w_epoch = 0, w_state = kNotSignaled\<rparr>\<rparr>
      else Inl assertion_failed)"

text \<open>The destructor's assertion.\<close>

definition delete_WorkNotifier :: "WorkNotifier \<Rightarrow> ar_error + unit" where
  "delete_WorkNotifier n =
     (if wn_state n AND (kStackMask OR kWaiterMask) = kStackMask then Inr () else Inl assertion_failed)"

definition prepare_wait :: "nat \<Rightarrow> WorkNotifier \<Rightarrow> WorkNotifier" where
  "prepare_wait i n =
     n\<lparr>wn_waiters := (wn_waiters n)[i := (wn_waiters n ! i)\<lparr>w_epoch := wn_state n\<rparr>],
       wn_state := wn_state n + kWaiterInc\<rparr>"

definition wait_epoch :: "Waiter \<Rightarrow> u64" where
  "wait_epoch w = (w_epoch w AND kEpochMask) + push_bit 32 (drop_bit 16 (w_epoch w AND kWaiterMask))"

datatype wait_result = WR_yield | WR_notified | WR_done | WR_assert

definition commit_begin :: "nat \<Rightarrow> WorkNotifier \<Rightarrow> WorkNotifier" where
  "commit_begin i n =
     n\<lparr>wn_waiters := (wn_waiters n)[i := (wn_waiters n ! i)\<lparr>w_state := kNotSignaled\<rparr>]\<rparr>"

definition commit_iter :: "nat \<Rightarrow> WorkNotifier \<Rightarrow> wait_result \<times> WorkNotifier" where
  "commit_iter i n =
     (let w = wn_waiters n ! i; epoch = wait_epoch w; state = wn_state n in
      if sint ((state AND kEpochMask) - epoch) < 0 then (WR_yield, n)
      else if 0 < sint ((state AND kEpochMask) - epoch) then (WR_notified, n)
      else if state AND kWaiterMask = 0 then (WR_assert, n)
      else
        let newstate = ((state - kWaiterInc + kEpochInc) AND NOT kStackMask) OR word_of_nat i;
            next = (if state AND kStackMask = kStackMask then None
                    else Some (unat (state AND kStackMask))) in
        (WR_done, n\<lparr>wn_waiters := (wn_waiters n)[i := w\<lparr>w_next := next\<rparr>], wn_state := newstate\<rparr>))"

definition cancel_iter :: "nat \<Rightarrow> WorkNotifier \<Rightarrow> wait_result \<times> WorkNotifier" where
  "cancel_iter i n =
     (let epoch = wait_epoch (wn_waiters n ! i); state = wn_state n in
      if sint ((state AND kEpochMask) - epoch) < 0 then (WR_yield, n)
      else if 0 < sint ((state AND kEpochMask) - epoch) then (WR_notified, n)
      else if state AND kWaiterMask = 0 then (WR_assert, n)
      else (WR_done, n\<lparr>wn_state := state - kWaiterInc + kEpochInc\<rparr>))"

text \<open>One turn of the loop of \<open>_park\<close>: whether the waiter leaves it.\<close>

definition park_iter :: "nat \<Rightarrow> WorkNotifier \<Rightarrow> bool \<times> WorkNotifier" where
  "park_iter i n =
     (if w_state (wn_waiters n ! i) \<noteq> kSignaled
      then (False, n\<lparr>wn_waiters := (wn_waiters n)[i := (wn_waiters n ! i)\<lparr>w_state := kWaiting\<rparr>]\<rparr>)
      else (True, n))"

text \<open>\<open>_unpark\<close> follows the \<open>next\<close> pointers; on a cyclic list it would not return.\<close>

partial_function (option) unpark :: "nat option \<Rightarrow> Waiter list \<Rightarrow> Waiter list option" where
  "unpark w ws = (case w of None \<Rightarrow> Some ws
     | Some i \<Rightarrow> unpark (w_next (ws ! i)) (ws[i := (ws ! i)\<lparr>w_state := kSignaled\<rparr>]))"

definition notify :: "bool \<Rightarrow> WorkNotifier \<Rightarrow> (nat option \<times> WorkNotifier) option" where
  "notify all n =
     (let state = wn_state n in
      if state AND kStackMask = kStackMask \<and> state AND kWaiterMask = 0 then Some (None, n)
      else
        let waiters = drop_bit 16 (state AND kWaiterMask);
            newstate =
              (if all then (state AND kEpochMask) + kEpochInc * waiters + kStackMask
               else if waiters \<noteq> 0 then state + kEpochInc - kWaiterInc
               else
                 let w = wn_waiters n ! unat (state AND kStackMask);
                     next = (case w_next w of None \<Rightarrow> kStackMask | Some j \<Rightarrow> word_of_nat j) in
                 (state AND kEpochMask) + next);
            n1 = n\<lparr>wn_state := newstate\<rparr> in
        if \<not> all \<and> waiters \<noteq> 0 then Some (None, n1)
        else if state AND kStackMask = kStackMask then Some (None, n1)
        else
          let i = unat (state AND kStackMask);
              ws = (if all then wn_waiters n1
                    else (wn_waiters n1)[i := (wn_waiters n1 ! i)\<lparr>w_next := None\<rparr>]) in
          map_option (\<lambda>ws'. (Some i, n1\<lparr>wn_waiters := ws'\<rparr>)) (unpark (Some i) ws))"

primrec notify_times :: "nat \<Rightarrow> WorkNotifier \<Rightarrow> WorkNotifier option" where
  "notify_times 0 n = Some n"
| "notify_times (Suc k) n = Option.bind (notify False n) (\<lambda>(_, n1). notify_times k n1)"

definition notify_n :: "nat \<Rightarrow> WorkNotifier \<Rightarrow> WorkNotifier option" where
  "notify_n k n =
     (if k \<ge> length (wn_waiters n) then map_option snd (notify True n) else notify_times k n)"

primrec notify_until :: "nat \<Rightarrow> nat \<Rightarrow> WorkNotifier \<Rightarrow> (bool \<times> WorkNotifier) option" where
  "notify_until 0 w n = Some (False, n)"
| "notify_until (Suc k) w n = Option.bind (notify True n)
     (\<lambda>(r, n1). if r = Some w then Some (True, n1) else notify_until k w n1)"

definition notify_waiter :: "nat \<Rightarrow> WorkNotifier \<Rightarrow> WorkNotifier option" where
  "notify_waiter w n = Option.bind (notify_until (length (wn_waiters n)) w n)
     (\<lambda>(found, n1). if found then Some n1 else map_option snd (notify False n1))"

section \<open>The packed word\<close>

text \<open>
  The word for the epoch \<open>E\<close>, \<open>p\<close> preparing waiters and the stack field \<open>s\<close>. The
  epoch is a number without bound here; its field is what is left of it in 32 bits.
\<close>

definition wn_word :: "nat \<Rightarrow> nat \<Rightarrow> nat \<Rightarrow> u64" where
  "wn_word E p s = word_of_nat (E * 2 ^ 32 + p * 2 ^ 16 + s)"

lemma k_values [bitfield_simps]:
  "kStackMask = mask 16" "kWaiterMask = push_bit 16 (mask 16)" "kWaiterInc = word_of_nat (2 ^ 16)"
  "kEpochMask = NOT (mask 32)" "kEpochInc = word_of_nat (2 ^ 32)"
  by (simp_all add: kStackMask_def kWaiterMask_def kWaiterInc_def kEpochMask_def kEpochInc_def
      mask_eq_exp_minus_1)

lemma word_and_not_mask: "x AND NOT (mask k) = x - take_bit k (x :: 'l :: len word)"
proof -
  have "take_bit k x + (x AND NOT (mask k)) = take_bit k x OR (x AND NOT (mask k))"
    by (rule disjunctive_add) (simp add: bit_simps)
  also have "\<dots> = x" by (rule bit_word_eqI) (auto simp: bit_simps)
  finally show ?thesis by (simp add: algebra_simps)
qed

lemma take_bit_word_of_nat:
  "k \<le> 64 \<Longrightarrow> take_bit k (word_of_nat m :: u64) = word_of_nat (m mod 2 ^ k)"
  by (rule bit_word_eqI) (auto simp: bit_simps take_bit_eq_mod [symmetric])

lemma wn_word_fields [bitfield_simps]:
  assumes "p < 2 ^ 16" "s < 2 ^ 16"
  shows "wn_word E p s AND kStackMask = word_of_nat s"
    and "wn_word E p s AND kWaiterMask = word_of_nat (p * 2 ^ 16)"
    and "wn_word E p s AND kEpochMask = word_of_nat (E * 2 ^ 32)"
    and "wn_word E p s AND NOT kStackMask = wn_word E p 0"
proof -
  have s: "(E * 2 ^ 32 + p * 2 ^ 16 + s) mod 2 ^ 16 = s"
  proof -
    have "E * 2 ^ 32 + p * 2 ^ 16 + s = (E * 2 ^ 16 + p) * 2 ^ 16 + s" by (simp add: algebra_simps)
    then show ?thesis using assms(2) by (simp only: mod_mult_self3 mod_less)
  qed
  have ps: "(E * 2 ^ 32 + p * 2 ^ 16 + s) mod 2 ^ 32 = p * 2 ^ 16 + s"
    using assms by (simp add: add.assoc mod_less)
  have t16: "take_bit 16 (wn_word E p s) = word_of_nat s"
    unfolding wn_word_def by (subst take_bit_word_of_nat, simp, simp only: s)
  have t32: "take_bit 32 (wn_word E p s) = word_of_nat (p * 2 ^ 16 + s)"
    unfolding wn_word_def by (subst take_bit_word_of_nat, simp, simp only: ps)
  show "wn_word E p s AND kStackMask = word_of_nat s"
    using t16 by (simp add: k_values flip: take_bit_eq_mask)
  show "wn_word E p s AND kEpochMask = word_of_nat (E * 2 ^ 32)"
    by (simp add: k_values word_and_not_mask t32) (simp add: wn_word_def)
  show e: "wn_word E p s AND NOT kStackMask = wn_word E p 0"
    by (simp add: k_values word_and_not_mask t16) (simp add: wn_word_def)
  have "wn_word E p s AND kWaiterMask = take_bit 32 (wn_word E p s) AND NOT (mask 16)"
    by (rule bit_word_eqI) (auto simp: k_values bit_simps)
  also have "\<dots> = word_of_nat (p * 2 ^ 16 + s) - take_bit 16 (word_of_nat (p * 2 ^ 16 + s))"
    by (simp only: t32 word_and_not_mask)
  also have "\<dots> = word_of_nat (p * 2 ^ 16)"
    using assms(2) by (subst take_bit_word_of_nat) simp_all
  finally show "wn_word E p s AND kWaiterMask = word_of_nat (p * 2 ^ 16)" .
qed


lemma u64_of_nat_inj: "m < 2 ^ 64 \<Longrightarrow> k < 2 ^ 64 \<Longrightarrow> word_of_nat m = (word_of_nat k :: u64) \<longleftrightarrow> m = k"
  by (simp add: word_of_nat_eq_iff take_bit_eq_mod)

lemma wn_field_tests [bitfield_simps]:
  assumes "k < 2 ^ 16"
  shows "word_of_nat k = kStackMask \<longleftrightarrow> k = 65535" and "word_of_nat (k * 2 ^ 16) = (0 :: u64) \<longleftrightarrow> k = 0"
    and "drop_bit 16 (word_of_nat (k * 2 ^ 16) :: u64) = word_of_nat k"
    and "unat (word_of_nat k :: u64) = k" and "word_of_nat k = (0 :: u64) \<longleftrightarrow> k = 0"
proof -
  have m: "kStackMask = word_of_nat 65535" by (simp add: k_values mask_eq_exp_minus_1)
  show "word_of_nat k = kStackMask \<longleftrightarrow> k = 65535"
    unfolding m using assms by (intro u64_of_nat_inj) simp_all
  show "word_of_nat (k * 2 ^ 16) = (0 :: u64) \<longleftrightarrow> k = 0"
    using u64_of_nat_inj [of "k * 2 ^ 16" 0] assms by simp
  show "word_of_nat k = (0 :: u64) \<longleftrightarrow> k = 0"
    using u64_of_nat_inj [of k 0] assms by simp
  show u: "unat (word_of_nat k :: u64) = k" using assms by (simp add: unat_of_nat)
  have "drop_bit 16 (push_bit 16 (word_of_nat k)) = (word_of_nat k :: u64)"
  proof (rule bit_word_eqI)
    fix j assume "j < LENGTH(64)"
    have "bit (word_of_nat k :: u64) j \<Longrightarrow> j < 16"
    proof (rule ccontr)
      assume b: "bit (word_of_nat k :: u64) j" and "\<not> j < 16"
      then have "take_bit 16 k = k" using assms by (simp add: take_bit_eq_mod)
      then have "bit (take_bit 16 k) j" using b by (simp add: bit_of_nat_iff bit_unsigned_iff)
      with \<open>\<not> j < 16\<close> show False by (simp add: bit_simps)
    qed
    then show "bit (drop_bit 16 (push_bit 16 (word_of_nat k)) :: u64) j = bit (word_of_nat k :: u64) j"
      using \<open>j < LENGTH(64)\<close> by (auto simp: bit_simps)
  qed
  then show "drop_bit 16 (word_of_nat (k * 2 ^ 16) :: u64) = word_of_nat k"
    by (simp add: push_bit_eq_mult mult.commute)
qed

lemma wn_word_steps [bitfield_simps]:
  "wn_word E p s + kWaiterInc = wn_word E (Suc p) s"
  "wn_word E (Suc p) s - kWaiterInc + kEpochInc = wn_word (Suc E) p s"
  "wn_word E (Suc p) s + kEpochInc - kWaiterInc = wn_word (Suc E) p s"
  "word_of_nat (E * 2 ^ 32) + kEpochInc * word_of_nat p + kStackMask = wn_word (E + p) 0 65535"
  "word_of_nat (E * 2 ^ 32) + kStackMask = wn_word E 0 65535"
  "word_of_nat (E * 2 ^ 32) + word_of_nat j = wn_word E 0 j"
  by (simp_all add: wn_word_def k_values mask_eq_exp_minus_1 algebra_simps)

lemma wn_word_or:
  assumes "i < 2 ^ 16"
  shows "wn_word E p 0 OR word_of_nat i = wn_word E p i"
proof -
  have "take_bit 16 (wn_word E p 0) = 0" unfolding wn_word_def
    by (subst take_bit_word_of_nat, simp) (simp add: mod_eq_0_iff_dvd dvd_add dvd_mult le_imp_power_dvd [of 16 32])
  then have lo: "\<not> bit (wn_word E p 0) j" if "j < 16" for j
    using that by (metis bit_take_bit_iff bit_0_eq bot_apply bot_bool_def)
  have "take_bit 16 (word_of_nat i :: u64) = word_of_nat i"
    using assms by (subst take_bit_word_of_nat) simp_all
  then have hi: "\<not> bit (word_of_nat i :: u64) j" if "\<not> j < 16" for j
    using that by (metis bit_take_bit_iff)
  have "wn_word E p 0 OR word_of_nat i = wn_word E p 0 + word_of_nat i"
    by (rule disjunctive_add [symmetric]) (use lo hi in blast)
  then show ?thesis by (simp add: wn_word_def)
qed

lemma wait_epoch_word:
  assumes "w_epoch w = wn_word E p s" "p < 2 ^ 16" "s < 2 ^ 16"
  shows "wait_epoch w = word_of_nat ((E + p) * 2 ^ 32)"
proof -
  have "wait_epoch w = word_of_nat (E * 2 ^ 32) + push_bit 32 (word_of_nat p)"
    using assms by (simp only: wait_epoch_def wn_word_fields wn_field_tests)
  then show ?thesis by (simp add: push_bit_eq_mult algebra_simps)
qed

text \<open>
  The signed difference of two epochs tells their order, across the wrap-around of the
  32-bit field, as long as they are less than \<open>2 ^ 31\<close> apart.
\<close>

lemma epoch_diff:
  assumes "E < t + 2 ^ 31" "t < E + 2 ^ 31"
  shows "sint (word_of_nat (E * 2 ^ 32) - word_of_nat (t * 2 ^ 32) :: u64) = (int E - int t) * 2 ^ 32"
proof -
  let ?k = "(int E - int t) * 2 ^ 32"
  have "word_of_nat (E * 2 ^ 32) - word_of_nat (t * 2 ^ 32) = (word_of_int ?k :: u64)"
    by (simp add: algebra_simps)
  moreover have "signed_take_bit 63 ?k = ?k"
  proof (rule signed_take_bit_int_eq_self)
    have "- (2 ^ 31) < int E - int t" "int E - int t < 2 ^ 31" using assms by simp_all
    then show "- (2 ^ 63) \<le> ?k" "?k < 2 ^ 63" by simp_all
  qed
  ultimately show ?thesis by (simp only: signed_of_int) simp
qed

lemma new_WorkNotifier_word:
  assumes "N < 2 ^ 16 - 1"
  shows "kStackMask OR (kEpochMask - kEpochInc * word_of_nat N * 2) = wn_word (2 ^ 32 - 1 - 2 * N) 0 65535"
proof -
  have "kEpochMask = - word_of_nat (2 ^ 32)"
    by (simp add: k_values mask_eq_exp_minus_1 not_eq_complement)
  moreover have "(- word_of_nat (2 ^ 32) :: u64) = word_of_nat ((2 ^ 32 - 1) * 2 ^ 32)"
    by simp
  ultimately have "kEpochMask - kEpochInc * word_of_nat N * 2
      = word_of_nat ((2 ^ 32 - 1) * 2 ^ 32) - word_of_nat (2 * N * 2 ^ 32)"
    by (simp add: k_values algebra_simps)
  also have "\<dots> = (word_of_nat ((2 ^ 32 - 1) * 2 ^ 32 - 2 * N * 2 ^ 32) :: u64)"
    using assms by (intro of_nat_diff [symmetric]) simp
  also have "\<dots> = wn_word (2 ^ 32 - 1 - 2 * N) 0 0" by (simp add: wn_word_def diff_mult_distrib)
  finally show ?thesis
    using wn_word_or [of 65535 "2 ^ 32 - 1 - 2 * N" 0] by (simp add: k_values mask_eq_exp_minus_1 or.commute)
qed


section \<open>The stack of sleeping waiters\<close>

definition list_head :: "'a list \<Rightarrow> 'a option" where
  "list_head xs = (case xs of [] \<Rightarrow> None | x # _ \<Rightarrow> Some x)"

lemma list_head_simps [simp]: "list_head [] = None" "list_head (x # xs) = Some x"
  by (simp_all add: list_head_def)

text \<open>The \<open>next\<close> pointers link the waiters of the list in this order.\<close>

fun linked :: "Waiter list \<Rightarrow> nat list \<Rightarrow> bool" where
  "linked ws [] = True"
| "linked ws (x # xs) = (w_next (ws ! x) = list_head xs \<and> linked ws xs)"

definition stack_field :: "nat list \<Rightarrow> nat" where
  "stack_field stk = (case stk of [] \<Rightarrow> 65535 | x # _ \<Rightarrow> x)"

text \<open>
  The notifier represents the event count with epoch \<open>E\<close>, \<open>p\<close> waiters that have not
  decided, and the sleeping waiters \<open>stk\<close>.
\<close>

definition wn_rep :: "WorkNotifier \<Rightarrow> nat \<Rightarrow> nat \<Rightarrow> nat list \<Rightarrow> bool" where
  "wn_rep n E p stk \<longleftrightarrow>
     wn_state n = wn_word E p (stack_field stk) \<and> p < 2 ^ 16 \<and> length (wn_waiters n) < 65535
     \<and> linked (wn_waiters n) stk \<and> distinct stk \<and> set stk \<subseteq> {..<length (wn_waiters n)}"

definition signal :: "nat \<Rightarrow> Waiter list \<Rightarrow> Waiter list" where
  "signal i ws = ws[i := (ws ! i)\<lparr>w_state := kSignaled\<rparr>]"

lemma linked_cong:
  "(\<And>i. i \<in> set stk \<Longrightarrow> w_next (ws' ! i) = w_next (ws ! i)) \<Longrightarrow> linked ws' stk = linked ws stk"
  by (induction stk) auto

lemma linked_update: "i \<notin> set stk \<Longrightarrow> linked (ws[i := w]) stk = linked ws stk"
  by (rule linked_cong) (metis nth_list_update_neq)

lemma w_next_signal [simp]: "w_next (signal i ws ! j) = w_next (ws ! j)"
  by (cases "i < length ws") (auto simp: signal_def nth_list_update list_update_beyond)

lemma linked_signal [simp]: "linked (signal i ws) stk = linked ws stk"
  by (rule linked_cong) simp

lemma unpark_linked: "linked ws stk \<Longrightarrow> unpark (list_head stk) ws = Some (fold signal stk ws)"
proof (induction stk arbitrary: ws)
  case Nil
  then show ?case by (simp add: unpark.simps)
next
  case (Cons x xs)
  then show ?case using Cons.IH [of "signal x ws"] by (subst unpark.simps) (simp flip: signal_def)
qed

lemma length_signal [simp]: "length (signal i ws) = length ws"
  by (simp add: signal_def)

lemma length_signals [simp]: "length (fold signal xs ws) = length ws"
  by (induction xs arbitrary: ws) simp_all

lemma nth_signals:
  "i < length ws \<Longrightarrow> fold signal xs ws ! i =
     (if i \<in> set xs then (ws ! i)\<lparr>w_state := kSignaled\<rparr> else ws ! i)"
proof (induction xs arbitrary: ws)
  case (Cons x xs)
  have "signal x ws ! i = (if i = x then (ws ! i)\<lparr>w_state := kSignaled\<rparr> else ws ! i)"
    using Cons.prems by (auto simp: signal_def nth_list_update)
  with Cons show ?case by auto
qed simp

lemma wn_rep_field:
  assumes "wn_rep n E p stk"
  shows "stack_field stk < 2 ^ 16" "stack_field stk = 65535 \<longleftrightarrow> stk = []" "p < 2 ^ 16"
  using assms by (auto simp: wn_rep_def stack_field_def split: list.splits)

lemmas wn_word_simps = wn_word_fields wn_field_tests wn_word_steps wn_word_or

lemma prepare_wait_rep:
  assumes "wn_rep n E p stk" "i < length (wn_waiters n)" "Suc p < 2 ^ 16"
  shows "wn_rep (prepare_wait i n) E (Suc p) stk"
    and "wn_waiters (prepare_wait i n) = (wn_waiters n)[i := (wn_waiters n ! i)\<lparr>w_epoch := wn_state n\<rparr>]"
proof -
  have "linked ((wn_waiters n)[i := (wn_waiters n ! i)\<lparr>w_epoch := wn_state n\<rparr>]) stk = linked (wn_waiters n) stk"
    using assms(2) by (intro linked_cong) (simp add: nth_list_update)
  then show "wn_rep (prepare_wait i n) E (Suc p) stk"
    using assms by (simp add: wn_rep_def prepare_wait_def wn_word_steps)
qed (simp add: prepare_wait_def)

text \<open>The branches of a waiter's decision, by the order of its ticket \<open>t\<close> and the epoch.\<close>

lemma wait_branch:
  assumes "wn_rep n E p stk" and "wait_epoch (wn_waiters n ! i) = word_of_nat (t * 2 ^ 32)"
    and "E < t + 2 ^ 31" "t < E + 2 ^ 31"
  shows "sint ((wn_state n AND kEpochMask) - wait_epoch (wn_waiters n ! i)) < 0 \<longleftrightarrow> E < t"
    and "0 < sint ((wn_state n AND kEpochMask) - wait_epoch (wn_waiters n ! i)) \<longleftrightarrow> t < E"
    and "wn_state n AND kWaiterMask = 0 \<longleftrightarrow> p = 0"
proof -
  note f = wn_rep_field [OF assms(1)]
  have st: "wn_state n = wn_word E p (stack_field stk)" using assms(1) by (simp add: wn_rep_def)
  have "sint ((wn_state n AND kEpochMask) - wait_epoch (wn_waiters n ! i)) = (int E - int t) * 2 ^ 32"
    unfolding st assms(2) wn_word_fields(3) [OF f(3,1)] by (rule epoch_diff [OF assms(3,4)])
  then show "sint ((wn_state n AND kEpochMask) - wait_epoch (wn_waiters n ! i)) < 0 \<longleftrightarrow> E < t"
    "0 < sint ((wn_state n AND kEpochMask) - wait_epoch (wn_waiters n ! i)) \<longleftrightarrow> t < E"
    by (auto simp: mult_less_0_iff zero_less_mult_iff)
  show "wn_state n AND kWaiterMask = 0 \<longleftrightarrow> p = 0"
    unfolding st wn_word_fields(2) [OF f(3,1)] by (rule wn_field_tests(2) [OF f(3)])
qed

lemma commit_iter_rep:
  assumes "wn_rep n E p stk" and "wait_epoch (wn_waiters n ! i) = word_of_nat (t * 2 ^ 32)"
    and "E < t + 2 ^ 31" "t < E + 2 ^ 31"
  shows "E < t \<Longrightarrow> commit_iter i n = (WR_yield, n)"
    and "t < E \<Longrightarrow> commit_iter i n = (WR_notified, n)"
    and "E = t \<Longrightarrow> p = Suc p' \<Longrightarrow> i < length (wn_waiters n) \<Longrightarrow> i \<notin> set stk \<Longrightarrow>
      \<exists>n'. commit_iter i n = (WR_done, n') \<and> wn_rep n' (Suc E) p' (i # stk)
        \<and> wn_waiters n' = (wn_waiters n)[i := (wn_waiters n ! i)\<lparr>w_next := list_head stk\<rparr>]"
proof -
  note b = wait_branch [OF assms]
  note f = wn_rep_field [OF assms(1)]
  show "E < t \<Longrightarrow> commit_iter i n = (WR_yield, n)" "t < E \<Longrightarrow> commit_iter i n = (WR_notified, n)"
    using b by (simp_all add: commit_iter_def Let_def)
  assume p: "E = t" "p = Suc p'" "i < length (wn_waiters n)" "i \<notin> set stk"
  have st: "wn_state n = wn_word E (Suc p') (stack_field stk)" and i: "i < 2 ^ 16" and p': "p' < 2 ^ 16"
    using assms(1) p by (auto simp: wn_rep_def)
  have s: "wn_state n AND kStackMask = word_of_nat (stack_field stk)"
    unfolding st using f p by (intro wn_word_fields(1)) auto
  have "((wn_state n - kWaiterInc + kEpochInc) AND NOT kStackMask) OR word_of_nat i = wn_word (Suc E) p' i"
    unfolding st wn_word_steps(2) wn_word_fields(4) [OF p' f(1)] by (rule wn_word_or [OF i])
  moreover have "(if wn_state n AND kStackMask = kStackMask then None
      else Some (unat (wn_state n AND kStackMask))) = list_head stk"
    unfolding s wn_field_tests(1) [OF f(1)] wn_field_tests(4) [OF f(1)] f(2)
    by (cases stk) (simp_all add: stack_field_def)
  ultimately have c: "commit_iter i n = (WR_done, n\<lparr>wn_waiters :=
      (wn_waiters n)[i := (wn_waiters n ! i)\<lparr>w_next := list_head stk\<rparr>], wn_state := wn_word (Suc E) p' i\<rparr>)"
    using b p by (simp add: commit_iter_def Let_def)
  have "wn_rep (snd (commit_iter i n)) (Suc E) p' (i # stk)"
    using assms(1) p p' unfolding c by (auto simp: wn_rep_def linked_update stack_field_def)
  then show "\<exists>n'. commit_iter i n = (WR_done, n') \<and> wn_rep n' (Suc E) p' (i # stk)
        \<and> wn_waiters n' = (wn_waiters n)[i := (wn_waiters n ! i)\<lparr>w_next := list_head stk\<rparr>]"
    using c by simp
qed

lemma cancel_iter_rep:
  assumes "wn_rep n E p stk" and "wait_epoch (wn_waiters n ! i) = word_of_nat (t * 2 ^ 32)"
    and "E < t + 2 ^ 31" "t < E + 2 ^ 31"
  shows "E < t \<Longrightarrow> cancel_iter i n = (WR_yield, n)"
    and "t < E \<Longrightarrow> cancel_iter i n = (WR_notified, n)"
    and "E = t \<Longrightarrow> p = Suc p' \<Longrightarrow>
      \<exists>n'. cancel_iter i n = (WR_done, n') \<and> wn_rep n' (Suc E) p' stk \<and> wn_waiters n' = wn_waiters n"
  using wait_branch [OF assms] assms(1)
  by (auto simp: cancel_iter_def Let_def wn_rep_def wn_word_steps)

lemma notify_all_rep:
  assumes "wn_rep n E p stk"
  shows "\<exists>n'. notify True n = Some (list_head stk, n') \<and> wn_rep n' (E + p) 0 []
     \<and> wn_waiters n' = fold signal stk (wn_waiters n)"
proof -
  note f = wn_rep_field [OF assms]
  have st: "wn_state n = wn_word E p (stack_field stk)" using assms by (simp add: wn_rep_def)
  have e: "wn_state n AND kStackMask = kStackMask \<longleftrightarrow> stk = []" "unat (wn_state n AND kStackMask) = stack_field stk"
    "wn_state n AND kWaiterMask = 0 \<longleftrightarrow> p = 0" "drop_bit 16 (wn_state n AND kWaiterMask) = word_of_nat p"
    "wn_state n AND kEpochMask = word_of_nat (E * 2 ^ 32)"
    unfolding st wn_word_fields [OF f(3,1)] wn_field_tests [OF f(1)] wn_field_tests [OF f(3)] f(2) by (rule refl)+
  have u: "unpark (list_head stk) (wn_waiters n) = Some (fold signal stk (wn_waiters n))"
    using assms by (intro unpark_linked) (simp add: wn_rep_def)
  have "notify True n = Some (list_head stk,
      n\<lparr>wn_state := wn_word (E + p) 0 65535, wn_waiters := fold signal stk (wn_waiters n)\<rparr>)"
  proof (cases stk)
    case Nil
    then show ?thesis
      using st unfolding notify_def Let_def e wn_word_steps(4) by (cases "p = 0") (auto simp: stack_field_def)
  next
    case (Cons x xs)
    then show ?thesis
      using u unfolding notify_def Let_def e wn_word_steps(4) by (simp add: stack_field_def)
  qed
  then show ?thesis using assms by (simp add: wn_rep_def stack_field_def)
qed

lemma notify_one_rep:
  assumes "wn_rep n E p stk"
  shows "p = Suc p' \<Longrightarrow> \<exists>n'. notify False n = Some (None, n') \<and> wn_rep n' (Suc E) p' stk
      \<and> wn_waiters n' = wn_waiters n"
    and "p = 0 \<Longrightarrow> stk = [] \<Longrightarrow> notify False n = Some (None, n)"
    and "p = 0 \<Longrightarrow> stk = x # xs \<Longrightarrow> \<exists>n'. notify False n = Some (Some x, n') \<and> wn_rep n' E 0 xs
      \<and> wn_waiters n' = (wn_waiters n)[x := (wn_waiters n ! x)\<lparr>w_next := None, w_state := kSignaled\<rparr>]"
proof -
  note f = wn_rep_field [OF assms]
  have st: "wn_state n = wn_word E p (stack_field stk)" using assms by (simp add: wn_rep_def)
  have e: "wn_state n AND kStackMask = kStackMask \<longleftrightarrow> stk = []" "unat (wn_state n AND kStackMask) = stack_field stk"
    "wn_state n AND kWaiterMask = 0 \<longleftrightarrow> p = 0" "drop_bit 16 (wn_state n AND kWaiterMask) = word_of_nat p"
    "wn_state n AND kEpochMask = word_of_nat (E * 2 ^ 32)" "word_of_nat p = (0 :: u64) \<longleftrightarrow> p = 0"
    unfolding st wn_word_fields [OF f(3,1)] wn_field_tests [OF f(1)] wn_field_tests [OF f(3)] f(2) by (rule refl)+
  show "\<exists>n'. notify False n = Some (None, n') \<and> wn_rep n' (Suc E) p' stk \<and> wn_waiters n' = wn_waiters n"
    if "p = Suc p'"
    using assms unfolding notify_def Let_def e unfolding st that wn_word_steps(3) by (simp add: wn_rep_def)
  show "notify False n = Some (None, n)" if "p = 0" "stk = []"
    using that by (simp add: notify_def Let_def e)
  assume z: "p = 0" and stk: "stk = x # xs"
  let ?w = "(wn_waiters n ! x)\<lparr>w_next := None\<rparr>"
  have x: "x < length (wn_waiters n)" "x \<notin> set xs" "w_next (wn_waiters n ! x) = list_head xs"
    "linked (wn_waiters n) xs" "set xs \<subseteq> {..<length (wn_waiters n)}"
    using assms stk by (auto simp: wn_rep_def)
  have u: "unpark (Some x) ((wn_waiters n)[x := ?w])
      = Some ((wn_waiters n)[x := (wn_waiters n ! x)\<lparr>w_next := None, w_state := kSignaled\<rparr>])"
    using x(1) by (subst unpark.simps) (simp add: unpark.simps)
  have nx: "word_of_nat (E * 2 ^ 32) + (case w_next (wn_waiters n ! x) of None \<Rightarrow> kStackMask | Some j \<Rightarrow> word_of_nat j)
      = wn_word E 0 (stack_field xs)"
    unfolding x(3) by (cases xs) (simp_all only: list_head_simps option.case wn_word_steps stack_field_def list.case)
  have "notify False n = Some (Some x, n\<lparr>wn_state := wn_word E 0 (stack_field xs), wn_waiters :=
      (wn_waiters n)[x := (wn_waiters n ! x)\<lparr>w_next := None, w_state := kSignaled\<rparr>]\<rparr>)"
    using u nx unfolding notify_def Let_def e unfolding stk z stack_field_def [of "x # xs"] by simp
  then show "\<exists>n'. notify False n = Some (Some x, n') \<and> wn_rep n' E 0 xs
      \<and> wn_waiters n' = (wn_waiters n)[x := (wn_waiters n ! x)\<lparr>w_next := None, w_state := kSignaled\<rparr>]"
    using assms x stk by (auto simp: wn_rep_def linked_update)
qed

end
