(* ===== verification/Worker_Sleep.thy ===== *)
theory Worker_Sleep
  imports Work_Notifier
begin

text \<open>
  The workers of an executor slot on one notifier (\<open>src/work_notifier.h\<close>, used by the
  worker loop of \<open>src/executor_slot.cpp\<close>): each worker prepares, re-checks its queues,
  then cancels or commits, and a committed worker parks until it is signalled; any thread
  may notify at any time. A step is one atomic access to the packed word with the branch
  it selects. \<open>sys_E\<close> and \<open>sys_ticket\<close> are bookkeeping that the code does not have:
  the number of waits decided so far, counted without wrap-around, and the ticket that
  \<open>prepare_wait\<close> gives a worker.
\<close>

section \<open>Definitions\<close>

datatype wn_pc = WIdle | WPrepared | WCommitting | WParked

record wn_sys =
  sys_n :: WorkNotifier
  sys_pc :: "wn_pc list"
  sys_E :: nat
  sys_ticket :: "nat \<Rightarrow> nat"

definition prewait :: "WorkNotifier \<Rightarrow> nat" where
  "prewait n = unat (drop_bit 16 (wn_state n AND kWaiterMask))"

definition sys_init :: "nat \<Rightarrow> ar_error + wn_sys" where
  "sys_init N = (case new_WorkNotifier N of Inl e \<Rightarrow> Inl e
     | Inr n \<Rightarrow> Inr \<lparr>sys_n = n, sys_pc = replicate N WIdle, sys_E = 2 ^ 32 - 1 - 2 * N,
                    sys_ticket = (\<lambda>_. 0)\<rparr>)"

fun after_commit :: "wait_result \<Rightarrow> wn_pc" where
  "after_commit WR_done = WParked"
| "after_commit WR_notified = WIdle"
| "after_commit r = WCommitting"

fun after_cancel :: "wait_result \<Rightarrow> wn_pc" where
  "after_cancel WR_done = WIdle"
| "after_cancel WR_notified = WIdle"
| "after_cancel r = WPrepared"

fun decided :: "wait_result \<Rightarrow> nat" where
  "decided WR_done = 1"
| "decided r = 0"

inductive wn_step :: "wn_sys \<Rightarrow> wn_sys \<Rightarrow> bool" where
  ws_prepare: "i < length (sys_pc s) \<Longrightarrow> sys_pc s ! i = WIdle \<Longrightarrow>
    wn_step s (s\<lparr>sys_n := prepare_wait i (sys_n s), sys_pc := (sys_pc s)[i := WPrepared],
      sys_ticket := (sys_ticket s)(i := sys_E s + prewait (sys_n s))\<rparr>)"
| ws_commit: "i < length (sys_pc s) \<Longrightarrow> sys_pc s ! i = WPrepared \<Longrightarrow>
    wn_step s (s\<lparr>sys_n := commit_begin i (sys_n s), sys_pc := (sys_pc s)[i := WCommitting]\<rparr>)"
| ws_commit_iter: "i < length (sys_pc s) \<Longrightarrow> sys_pc s ! i = WCommitting \<Longrightarrow>
    commit_iter i (sys_n s) = (r, n') \<Longrightarrow>
    wn_step s (s\<lparr>sys_n := n', sys_pc := (sys_pc s)[i := after_commit r],
      sys_E := sys_E s + decided r\<rparr>)"
| ws_cancel_iter: "i < length (sys_pc s) \<Longrightarrow> sys_pc s ! i = WPrepared \<Longrightarrow>
    cancel_iter i (sys_n s) = (r, n') \<Longrightarrow>
    wn_step s (s\<lparr>sys_n := n', sys_pc := (sys_pc s)[i := after_cancel r],
      sys_E := sys_E s + decided r\<rparr>)"
| ws_notify: "notify all (sys_n s) = Some (r, n') \<Longrightarrow>
    wn_step s (s\<lparr>sys_n := n',
      sys_E := sys_E s + (if all then prewait (sys_n s) else min 1 (prewait (sys_n s)))\<rparr>)"
| ws_park: "i < length (sys_pc s) \<Longrightarrow> sys_pc s ! i = WParked \<Longrightarrow> park_iter i (sys_n s) = (out, n') \<Longrightarrow>
    wn_step s (s\<lparr>sys_n := n', sys_pc := (sys_pc s)[i := if out then WIdle else WParked]\<rparr>)"

lemmas wn_step_rules [step_intros] = wn_step.intros

text \<open>
  No worker that has not decided is overtaken by \<open>2 ^ 31\<close> decisions of others: beyond
  that the difference of 32-bit epochs says nothing about their order.
\<close>

definition undecided :: "wn_pc \<Rightarrow> bool" where
  "undecided c \<longleftrightarrow> c = WPrepared \<or> c = WCommitting"

definition wn_timely :: "wn_sys \<Rightarrow> bool" where
  "wn_timely s \<longleftrightarrow>
     (\<forall>i<length (sys_pc s). undecided (sys_pc s ! i) \<longrightarrow> sys_E s < sys_ticket s i + 2 ^ 31)"

definition timely_step :: "wn_sys \<Rightarrow> wn_sys \<Rightarrow> bool" where
  "timely_step s t \<longleftrightarrow> wn_step s t \<and> wn_timely t"

section \<open>The invariant\<close>

definition pending :: "wn_pc list \<Rightarrow> nat \<Rightarrow> (nat \<Rightarrow> nat) \<Rightarrow> nat set" where
  "pending pcs E tk = {i. i < length pcs \<and> undecided (pcs ! i) \<and> E \<le> tk i}"

definition wn_core :: "WorkNotifier \<Rightarrow> wn_pc list \<Rightarrow> nat \<Rightarrow> (nat \<Rightarrow> nat) \<Rightarrow> nat \<Rightarrow> nat list \<Rightarrow> bool" where
  "wn_core n pcs E tk p stk \<longleftrightarrow>
     wn_rep n E p stk \<and> length (wn_waiters n) = length pcs
     \<and> (\<forall>i<length pcs. i \<in> set stk \<longleftrightarrow> pcs ! i = WParked \<and> w_state (wn_waiters n ! i) \<noteq> kSignaled)
     \<and> bij_betw tk (pending pcs E tk) {E..<E + p}
     \<and> (\<forall>i<length pcs. undecided (pcs ! i) \<longrightarrow>
          wait_epoch (wn_waiters n ! i) = word_of_nat (tk i * 2 ^ 32) \<and> tk i < E + p)
     \<and> (\<forall>i<length pcs. pcs ! i = WCommitting \<longrightarrow> w_state (wn_waiters n ! i) \<noteq> kSignaled)"

definition sys_inv :: "wn_sys \<Rightarrow> bool" where
  "sys_inv s \<longleftrightarrow> wn_timely s
     \<and> (\<exists>p stk. wn_core (sys_n s) (sys_pc s) (sys_E s) (sys_ticket s) p stk)"

lemma pending_advance:
  assumes "bij_betw tk (pending pcs E tk) {E..<E + p}"
    and "\<And>i. i < length pcs \<Longrightarrow> undecided (pcs' ! i) \<and> E + k \<le> tk i \<longleftrightarrow> undecided (pcs ! i) \<and> E + k \<le> tk i"
    and "length pcs' = length pcs" "k \<le> p"
  shows "bij_betw tk (pending pcs' (E + k) tk) {E + k..<E + k + (p - k)}"
proof -
  have "pending pcs' (E + k) tk = {i \<in> pending pcs E tk. E + k \<le> tk i}"
    using assms(2,3) by (auto simp: pending_def)
  moreover have "tk ` {i \<in> pending pcs E tk. E + k \<le> tk i} = {E + k..<E + p}"
  proof -
    have im: "tk ` pending pcs E tk = {E..<E + p}" using assms(1) by (simp add: bij_betw_def)
    have "x \<in> tk ` {i \<in> pending pcs E tk. E + k \<le> tk i}" if "x \<in> {E + k..<E + p}" for x
    proof -
      from that have "x \<in> tk ` pending pcs E tk" unfolding im by simp
      then show ?thesis using that by auto
    qed
    moreover have "tk ` {i \<in> pending pcs E tk. E + k \<le> tk i} \<subseteq> {E + k..<E + p}" using im by auto
    ultimately show ?thesis by blast
  qed
  moreover have "inj_on tk {i \<in> pending pcs E tk. E + k \<le> tk i}"
    using assms(1) by (auto simp: bij_betw_def inj_on_def)
  ultimately show ?thesis using assms(4) by (simp add: bij_betw_def)
qed

lemma pending_same:
  assumes "\<And>i. i < length pcs \<Longrightarrow> E \<le> tk i \<Longrightarrow> undecided (pcs' ! i) = undecided (pcs ! i)"
    and "length pcs' = length pcs"
  shows "pending pcs' E tk = pending pcs E tk"
  using assms by (auto simp: pending_def)

lemma prewait_rep:
  assumes "wn_rep n E p stk"
  shows "prewait n = p"
proof -
  note f = wn_rep_field [OF assms]
  have "wn_state n = wn_word E p (stack_field stk)" using assms by (simp add: wn_rep_def)
  then show ?thesis
    unfolding prewait_def by (simp only: wn_word_fields(2) [OF f(3,1)] wn_field_tests(3,4) [OF f(3)])
qed

text \<open>There are fewer undecided waits than waiters as long as one worker is not waiting.\<close>

lemma prewait_bound:
  assumes "wn_core n pcs E tk p stk" "i < length pcs" "pcs ! i = WIdle"
  shows "Suc p < 2 ^ 16"
proof -
  have "p = card (pending pcs E tk)"
    using assms(1) bij_betw_same_card by (fastforce simp: wn_core_def)
  also have "\<dots> \<le> card ({..<length pcs} - {i})"
    using assms(2,3) by (intro card_mono) (auto simp: pending_def undecided_def)
  also have "\<dots> < length pcs" using assms(2) by simp
  finally show ?thesis using assms(1) by (simp add: wn_core_def wn_rep_def)
qed

lemma undecided_simps [simp]:
  "\<not> undecided WIdle" "undecided WPrepared" "undecided WCommitting" "\<not> undecided WParked"
  by (simp_all add: undecided_def)


section \<open>Every step keeps it\<close>

lemma core_prepare:
  assumes c: "wn_core n pcs E tk p stk" and i: "i < length pcs" "pcs ! i = WIdle"
  shows "wn_core (prepare_wait i n) (pcs[i := WPrepared]) E (tk(i := E + p)) (Suc p) stk"
proof -
  have rep: "wn_rep n E p stk" and len: "length (wn_waiters n) = length pcs" using c by (auto simp: wn_core_def)
  note pr = prepare_wait_rep [OF rep i(1) [folded len] prewait_bound [OF c i]]
  have we: "wait_epoch ((wn_waiters n ! i)\<lparr>w_epoch := wn_state n\<rparr>) = word_of_nat ((E + p) * 2 ^ 32)"
    using rep wn_rep_field [OF rep] by (intro wait_epoch_word [of _ E p "stack_field stk"]) (simp_all add: wn_rep_def)
  have pend: "pending (pcs[i := WPrepared]) E (tk(i := E + p)) = insert i (pending pcs E tk)"
    "i \<notin> pending pcs E tk"
    using i by (auto simp: pending_def nth_list_update)
  have "bij_betw (tk(i := E + p)) (pending pcs E tk) {E..<E + p}"
    using c pend(2) by (subst bij_betw_cong [of _ _ tk]) (auto simp: wn_core_def)
  then have "bij_betw (tk(i := E + p)) (pending (pcs[i := WPrepared]) E (tk(i := E + p))) {E..<E + Suc p}"
    using notIn_Un_bij_betw [of i "pending pcs E tk" "tk(i := E + p)" "{E..<E + p}"] pend
    by (simp add: atLeastLessThanSuc Un_commute)
  moreover have "i \<notin> set stk" using c i by (simp add: wn_core_def)
  ultimately show ?thesis
    using c i pr we len unfolding wn_core_def pr(2)
    by (auto simp: nth_list_update)
qed

lemma core_begin:
  assumes c: "wn_core n pcs E tk p stk" and i: "i < length pcs" "pcs ! i = WPrepared"
  shows "wn_core (commit_begin i n) (pcs[i := WCommitting]) E tk p stk"
proof -
  let ?ws = "(wn_waiters n)[i := (wn_waiters n ! i)\<lparr>w_state := kNotSignaled\<rparr>]"
  have nx: "w_next (?ws ! j) = w_next (wn_waiters n ! j)" for j
    using c i by (cases "j = i") (auto simp: wn_core_def)
  have "pending (pcs[i := WCommitting]) E tk = pending pcs E tk"
    using i by (intro pending_same) (auto simp: nth_list_update)
  moreover have "wait_epoch (?ws ! j) = wait_epoch (wn_waiters n ! j)" for j
    using c i by (cases "j = i") (auto simp: wn_core_def wait_epoch_def)
  moreover have "linked ?ws stk = linked (wn_waiters n) stk" by (rule linked_cong) (rule nx)
  moreover have "i \<notin> set stk" using c i by (simp add: wn_core_def)
  ultimately show ?thesis
    using c i by (auto simp: wn_core_def wn_rep_def commit_begin_def nth_list_update)
qed

text \<open>The ticket of an undecided worker against the epoch selects the branch of its decision.\<close>

lemma ticket_facts:
  assumes "wn_core n pcs E tk p stk" "i < length pcs" "undecided (pcs ! i)"
  shows "wait_epoch (wn_waiters n ! i) = word_of_nat (tk i * 2 ^ 32)" "tk i < E + 2 ^ 31"
    and "tk i = E \<Longrightarrow> \<exists>p'. p = Suc p'"
proof -
  have "p < 2 ^ 16" and t: "tk i < E + p" using assms by (auto simp: wn_core_def wn_rep_def)
  then show "tk i < E + 2 ^ 31" by simp
  show "wait_epoch (wn_waiters n ! i) = word_of_nat (tk i * 2 ^ 32)" using assms by (simp add: wn_core_def)
  show "\<exists>p'. p = Suc p'" if "tk i = E" using t that by (cases p) auto
qed

definition expected :: "nat \<Rightarrow> nat \<Rightarrow> wait_result" where
  "expected E t = (if E < t then WR_yield else if t < E then WR_notified else WR_done)"

text \<open>The pending set and the tickets after one decision by the holder of ticket \<open>E\<close>.\<close>

lemma decide_pending:
  assumes c: "wn_core n pcs E tk (Suc p') stk" and i: "i < length pcs" "tk i = E" "\<not> undecided c"
  shows "bij_betw tk (pending (pcs[i := c]) (Suc E) tk) {Suc E..<Suc E + p'}"
proof -
  have "bij_betw tk (pending pcs E tk) {E..<E + Suc p'}" using c by (simp add: wn_core_def)
  from pending_advance [OF this, of "pcs[i := c]" 1] show ?thesis
    using i by (auto simp: nth_list_update)
qed

lemma core_overtaken:
  assumes c: "wn_core n pcs E tk p stk" and i: "i < length pcs" "undecided (pcs ! i)" and t: "tk i < E"
  shows "wn_core n (pcs[i := WIdle]) E tk p stk"
proof -
  have "pending (pcs[i := WIdle]) E tk = pending pcs E tk"
    using t i by (intro pending_same) (auto simp: nth_list_update)
  then show ?thesis using c i by (auto simp: wn_core_def nth_list_update)
qed

lemma core_commit:
  assumes c: "wn_core n pcs E tk p stk" and i: "i < length pcs" "pcs ! i = WCommitting"
    and timely: "E < tk i + 2 ^ 31"
  shows "\<exists>n' p' stk'. commit_iter i n = (expected E (tk i), n')
     \<and> wn_core n' (pcs[i := after_commit (expected E (tk i))]) (E + decided (expected E (tk i))) tk p' stk'"
proof -
  have rep: "wn_rep n E p stk" and len: "length (wn_waiters n) = length pcs" using c by (auto simp: wn_core_def)
  have u: "undecided (pcs ! i)" using i by simp
  note t = ticket_facts [OF c i(1) u]
  note r = commit_iter_rep [OF rep t(1) timely t(2)]
  consider "E < tk i" | "tk i < E" | "tk i = E" by linarith
  then show ?thesis
  proof cases
    case 1
    with r(1) c i show ?thesis by (intro exI [of _ n] exI [of _ p] exI [of _ stk]) (simp add: expected_def list_update_same_conv [THEN iffD2])
  next
    case 2
    then have "wn_core n (pcs[i := WIdle]) E tk p stk" using core_overtaken [OF c i(1) u] by blast
    with 2 r(2) show ?thesis by (intro exI [of _ n] exI [of _ p] exI [of _ stk]) (simp add: expected_def)
  next
    case 3
    then obtain p' where p': "p = Suc p'" using t(3) by blast
    have notin: "i \<notin> set stk" using c i by (simp add: wn_core_def)
    obtain n' where n': "commit_iter i n = (WR_done, n')" "wn_rep n' (Suc E) p' (i # stk)"
      "wn_waiters n' = (wn_waiters n)[i := (wn_waiters n ! i)\<lparr>w_next := list_head stk\<rparr>]"
      using r(3) [OF 3 [symmetric] p'] i len notin by auto
    have "wait_epoch (wn_waiters n' ! j) = wait_epoch (wn_waiters n ! j)"
      "w_state (wn_waiters n' ! j) = w_state (wn_waiters n ! j)" for j
      unfolding n'(3) by (cases "j = i"; use i len in \<open>simp add: wait_epoch_def\<close>)+
    then have "wn_core n' (pcs[i := WParked]) (Suc E) tk p' (i # stk)"
      using c i n' len decide_pending [OF c [unfolded p'] i(1) 3, of WParked] p'
      by (auto simp: wn_core_def nth_list_update)
    with 3 n' show ?thesis by (auto simp: expected_def)
  qed
qed

lemma core_cancel:
  assumes c: "wn_core n pcs E tk p stk" and i: "i < length pcs" "pcs ! i = WPrepared"
    and timely: "E < tk i + 2 ^ 31"
  shows "\<exists>n' p' stk'. cancel_iter i n = (expected E (tk i), n')
     \<and> wn_core n' (pcs[i := after_cancel (expected E (tk i))]) (E + decided (expected E (tk i))) tk p' stk'"
proof -
  have rep: "wn_rep n E p stk" and len: "length (wn_waiters n) = length pcs" using c by (auto simp: wn_core_def)
  have u: "undecided (pcs ! i)" using i by simp
  note t = ticket_facts [OF c i(1) u]
  note r = cancel_iter_rep [OF rep t(1) timely t(2)]
  consider "E < tk i" | "tk i < E" | "tk i = E" by linarith
  then show ?thesis
  proof cases
    case 1
    with r(1) c i show ?thesis by (intro exI [of _ n] exI [of _ p] exI [of _ stk]) (simp add: expected_def list_update_same_conv [THEN iffD2])
  next
    case 2
    then have "wn_core n (pcs[i := WIdle]) E tk p stk" using core_overtaken [OF c i(1) u] by blast
    with 2 r(2) show ?thesis by (intro exI [of _ n] exI [of _ p] exI [of _ stk]) (simp add: expected_def)
  next
    case 3
    then obtain p' where p': "p = Suc p'" using t(3) by blast
    obtain n' where n': "cancel_iter i n = (WR_done, n')" "wn_rep n' (Suc E) p' stk" "wn_waiters n' = wn_waiters n"
      using r(3) [OF 3 [symmetric] p'] by auto
    then have "wn_core n' (pcs[i := WIdle]) (Suc E) tk p' stk"
      using c i len decide_pending [OF c [unfolded p'] i(1) 3, of WIdle] p'
      by (auto simp: wn_core_def nth_list_update)
    with 3 n' show ?thesis by (auto simp: expected_def)
  qed
qed

lemma core_notify_all:
  assumes c: "wn_core n pcs E tk p stk"
  shows "\<exists>n'. notify True n = Some (list_head stk, n') \<and> wn_core n' pcs (E + p) tk 0 []"
proof -
  have rep: "wn_rep n E p stk" and len: "length (wn_waiters n) = length pcs" using c by (auto simp: wn_core_def)
  obtain n' where n': "notify True n = Some (list_head stk, n')" "wn_rep n' (E + p) 0 []"
    "wn_waiters n' = fold signal stk (wn_waiters n)"
    using notify_all_rep [OF rep] by blast
  have w: "wait_epoch (wn_waiters n' ! j) = wait_epoch (wn_waiters n ! j)"
    "w_state (wn_waiters n' ! j) = (if j \<in> set stk then kSignaled else w_state (wn_waiters n ! j))"
    if "j < length pcs" for j
    using that len unfolding n'(3) by (simp_all add: nth_signals wait_epoch_def)
  have "bij_betw tk (pending pcs (E + p) tk) {E + p..<E + p + (p - p)}"
    using c by (intro pending_advance) (auto simp: wn_core_def)
  then have "wn_core n' pcs (E + p) tk 0 []"
    using c n' w len by (auto simp: wn_core_def)
  with n' show ?thesis by blast
qed

lemma core_notify_one:
  assumes c: "wn_core n pcs E tk p stk"
  shows "\<exists>r n' p' stk'. notify False n = Some (r, n') \<and> wn_core n' pcs (E + min 1 p) tk p' stk'
     \<and> p' = p - 1 \<and> stk' = (if p = 0 then tl stk else stk) \<and> r = (if p = 0 then list_head stk else None)"
proof (cases p)
  case (Suc p')
  have rep: "wn_rep n E p stk" and len: "length (wn_waiters n) = length pcs" using c by (auto simp: wn_core_def)
  obtain n' where n': "notify False n = Some (None, n')" "wn_rep n' (Suc E) p' stk" "wn_waiters n' = wn_waiters n"
    using notify_one_rep(1) [OF rep Suc] by blast
  have "bij_betw tk (pending pcs (E + 1) tk) {E + 1..<E + 1 + (p - 1)}"
    using c Suc by (intro pending_advance) (auto simp: wn_core_def)
  then have "wn_core n' pcs (E + 1) tk p' stk"
    using c n' len Suc by (auto simp: wn_core_def)
  with n' Suc show ?thesis by auto
next
  case 0
  have rep: "wn_rep n E p stk" and len: "length (wn_waiters n) = length pcs" using c by (auto simp: wn_core_def)
  show ?thesis
  proof (cases stk)
    case Nil
    with notify_one_rep(2) [OF rep 0] c 0 show ?thesis by auto
  next
    case (Cons x xs)
    obtain n' where n': "notify False n = Some (Some x, n')" "wn_rep n' E 0 xs"
      "wn_waiters n' = (wn_waiters n)[x := (wn_waiters n ! x)\<lparr>w_next := None, w_state := kSignaled\<rparr>]"
      using notify_one_rep(3) [OF rep 0 Cons] by blast
    have "x < length pcs" "x \<notin> set xs" using rep len Cons by (auto simp: wn_rep_def)
    moreover have "\<not> undecided (pcs ! x)" "pcs ! x = WParked" using c Cons calculation by (auto simp: wn_core_def undecided_def)
    ultimately have "wn_core n' pcs E tk 0 xs"
      using c n' len 0 Cons by (auto simp: wn_core_def nth_list_update wait_epoch_def)
    with n' 0 Cons show ?thesis by auto
  qed
qed

lemma core_park:
  assumes c: "wn_core n pcs E tk p stk" and i: "i < length pcs" "pcs ! i = WParked"
    and k: "park_iter i n = (out, n')"
  shows "wn_core n' (pcs[i := if out then WIdle else WParked]) E tk p stk"
proof (cases "w_state (wn_waiters n ! i) = kSignaled")
  case True
  then have "pending (pcs[i := WIdle]) E tk = pending pcs E tk"
    using i by (intro pending_same) (auto simp: nth_list_update)
  with True k c i show ?thesis by (auto simp: park_iter_def wn_core_def nth_list_update)
next
  case False
  let ?ws = "(wn_waiters n)[i := (wn_waiters n ! i)\<lparr>w_state := kWaiting\<rparr>]"
  have nx: "w_next (?ws ! j) = w_next (wn_waiters n ! j)" and we: "wait_epoch (?ws ! j) = wait_epoch (wn_waiters n ! j)"
    and st: "w_state (?ws ! j) = kSignaled \<longleftrightarrow> w_state (wn_waiters n ! j) = kSignaled" for j
    using c i False by (cases "j = i"; auto simp: wn_core_def wait_epoch_def)+
  have "linked ?ws stk = linked (wn_waiters n) stk" by (rule linked_cong) (rule nx)
  moreover have "pcs[i := WParked] = pcs" using i by (simp add: list_update_same_conv)
  moreover have "n' = n\<lparr>wn_waiters := ?ws\<rparr>" "\<not> out" using k False by (auto simp: park_iter_def)
  ultimately show ?thesis
    using c unfolding wn_core_def wn_rep_def by (auto simp: we st)
qed


lemma sys_inv_step:
  assumes "sys_inv s" "timely_step s s'"
  shows "sys_inv s'"
proof -
  obtain p stk where c: "wn_core (sys_n s) (sys_pc s) (sys_E s) (sys_ticket s) p stk" and t: "wn_timely s"
    using assms(1) by (auto simp: sys_inv_def)
  have pw: "prewait (sys_n s) = p" using c prewait_rep by (auto simp: wn_core_def)
  have step: "wn_step s s'" and t': "wn_timely s'" using assms(2) by (auto simp: timely_step_def)
  from step have "\<exists>p stk. wn_core (sys_n s') (sys_pc s') (sys_E s') (sys_ticket s') p stk"
  proof cases
    case (ws_prepare i)
    then show ?thesis using core_prepare [OF c] pw by auto
  next
    case (ws_commit i)
    then show ?thesis using core_begin [OF c] by auto
  next
    case (ws_commit_iter i r n')
    then have "sys_E s < sys_ticket s i + 2 ^ 31" using t by (auto simp: wn_timely_def)
    then show ?thesis using core_commit [OF c ws_commit_iter(2,3)] ws_commit_iter by auto
  next
    case (ws_cancel_iter i r n')
    then have "sys_E s < sys_ticket s i + 2 ^ 31" using t by (auto simp: wn_timely_def)
    then show ?thesis using core_cancel [OF c ws_cancel_iter(2,3)] ws_cancel_iter by auto
  next
    case (ws_notify all r n')
    then show ?thesis
      using core_notify_all [OF c] core_notify_one [OF c] pw by (cases all) auto
  next
    case (ws_park i out n')
    with core_park [OF c ws_park(2-4)] show ?thesis by (intro exI [of _ p] exI [of _ stk]) simp
  qed
  with t' show ?thesis by (simp add: sys_inv_def)
qed

lemma sys_inv_init:
  assumes "sys_init N = Inr s"
  shows "sys_inv s"
proof -
  have N: "N < 2 ^ 16 - 1" using assms by (auto simp: sys_init_def new_WorkNotifier_def split: if_splits)
  let ?w = "\<lparr>w_next = None, w_epoch = 0, w_state = kNotSignaled\<rparr>"
  have s: "s = \<lparr>sys_n = \<lparr>wn_state = wn_word (2 ^ 32 - 1 - 2 * N) 0 65535, wn_waiters = replicate N ?w\<rparr>,
      sys_pc = replicate N WIdle, sys_E = 2 ^ 32 - 1 - 2 * N, sys_ticket = (\<lambda>_. 0)\<rparr>"
    using assms N new_WorkNotifier_word [OF N] by (simp add: sys_init_def new_WorkNotifier_def)
  have "wn_core (sys_n s) (sys_pc s) (sys_E s) (sys_ticket s) 0 []"
    using N unfolding s by (auto simp: wn_core_def wn_rep_def stack_field_def pending_def bij_betw_def)
  then show ?thesis unfolding sys_inv_def by (auto simp: wn_timely_def s)
qed

interpretation sleep: step_invariant "\<lambda>s. sys_init N = Inr s" timely_step sys_inv for N
  by unfold_locales (auto intro: sys_inv_init sys_inv_step)

section \<open>Notifying one given waiter\<close>

lemma notify_nobody: "wn_rep n E 0 [] \<Longrightarrow> notify all n = Some (None, n)"
proof -
  assume rep: "wn_rep n E 0 []"
  then have "wn_state n = wn_word E 0 65535" by (simp add: wn_rep_def stack_field_def)
  then have "wn_state n AND kStackMask = kStackMask" "wn_state n AND kWaiterMask = 0"
    using wn_word_fields(1,2) [of 0 65535 E] wn_field_tests(1) [of 65535] by simp_all
  then show ?thesis by (simp add: notify_def)
qed

lemma notify_until_nobody: "wn_rep n E 0 [] \<Longrightarrow> notify_until k w n = Some (False, n)"
  by (induction k) (simp_all add: notify_nobody)

lemma notify_waiter_rep:
  assumes "wn_rep n E p stk" "wn_waiters n \<noteq> []"
  shows "\<exists>n'. notify_waiter w n = Some n' \<and> wn_rep n' (E + p) 0 []
     \<and> wn_waiters n' = fold signal stk (wn_waiters n)"
proof -
  obtain n' where n': "notify True n = Some (list_head stk, n')" "wn_rep n' (E + p) 0 []"
    "wn_waiters n' = fold signal stk (wn_waiters n)"
    using notify_all_rep [OF assms(1)] by blast
  obtain k where "length (wn_waiters n) = Suc k" using assms(2) by (cases "wn_waiters n") auto
  with n' have "notify_waiter w n = Some n'"
    by (simp add: notify_waiter_def notify_until_nobody [OF n'(2)] notify_nobody [OF n'(2)])
  with n' show ?thesis by blast
qed

section \<open>Properties\<close>

text \<open>A sleeping worker has a ticket below the epoch: its decision moved the epoch past it.\<close>

definition parked_inv :: "wn_sys \<Rightarrow> bool" where
  "parked_inv s \<longleftrightarrow> sys_inv s \<and> (\<forall>i<length (sys_pc s). sys_pc s ! i = WParked \<longrightarrow> sys_ticket s i < sys_E s)"

lemma parked_inv_step:
  assumes "parked_inv s" "timely_step s s'"
  shows "parked_inv s'"
proof -
  have inv: "sys_inv s" and pk: "\<And>i. i < length (sys_pc s) \<Longrightarrow> sys_pc s ! i = WParked \<Longrightarrow> sys_ticket s i < sys_E s"
    using assms(1) by (auto simp: parked_inv_def)
  obtain p stk where c: "wn_core (sys_n s) (sys_pc s) (sys_E s) (sys_ticket s) p stk" and t: "wn_timely s"
    using inv by (auto simp: sys_inv_def)
  have "wn_step s s'" using assms(2) by (simp add: timely_step_def)
  then have "sys_ticket s' i < sys_E s'" if "i < length (sys_pc s')" "sys_pc s' ! i = WParked" for i
  proof cases
    case (ws_commit_iter j r n')
    then have "sys_E s < sys_ticket s j + 2 ^ 31" using t by (auto simp: wn_timely_def)
    from core_commit [OF c ws_commit_iter(2,3) this] ws_commit_iter(4) have r: "r = expected (sys_E s) (sys_ticket s j)" by auto
    show ?thesis
    proof (cases "i = j")
      case True
      then show ?thesis using ws_commit_iter that r by (auto simp: expected_def split: if_splits)
    next
      case False
      then show ?thesis using ws_commit_iter that pk [of i] by simp
    qed
  next
    case (ws_cancel_iter j r n')
    then show ?thesis using that pk [of i] by (cases "i = j"; cases r) (auto simp: nth_list_update)
  next
    case (ws_notify all r n')
    then show ?thesis using that pk [of i] by simp
  next
    case (ws_park j out n')
    then show ?thesis using that pk [of i] by (cases "i = j") (auto split: if_splits)
  qed (use that pk [of i] in \<open>auto simp: nth_list_update split: if_splits\<close>)
  then show ?thesis using sys_inv_step [OF inv assms(2)] by (simp add: parked_inv_def)
qed

interpretation parked: step_invariant "\<lambda>s. sys_init N = Inr s" timely_step parked_inv for N
proof
  show "parked_inv s" if "sys_init N = Inr s" for s
    using that sys_inv_init [OF that] by (auto simp: parked_inv_def sys_init_def split: sum.splits)
qed (rule parked_inv_step)

text \<open>
  What holds of the waits that were begun before a \<open>notify(true)\<close> in \<open>t\<close>, in every later state
  \<open>u\<close>; \<open>E\<close> is the epoch that the notification left.
\<close>

definition woken :: "wn_sys \<Rightarrow> nat \<Rightarrow> wn_sys \<Rightarrow> bool" where
  "woken t E u \<longleftrightarrow> sys_inv u \<and> E \<le> sys_E u \<and> length (sys_pc u) = length (sys_pc t)
     \<and> (\<forall>i<length (sys_pc t). sys_pc t ! i \<noteq> WIdle \<longrightarrow> sys_ticket t i < E \<and>
          (E \<le> sys_ticket u i \<or> sys_pc u ! i = WIdle
           \<or> sys_pc u ! i = WParked \<and> sys_pc t ! i = WParked \<and> w_state (wn_waiters (sys_n u) ! i) = kSignaled
           \<or> undecided (sys_pc u ! i) \<and> undecided (sys_pc t ! i) \<and> sys_ticket u i = sys_ticket t i))"

text \<open>The operations of one worker leave the signals of the others alone, and no signal is taken back.\<close>

lemma signals_kept:
  assumes "wn_core (sys_n s) (sys_pc s) (sys_E s) (sys_ticket s) p stk" and "wn_step s s'"
    and i: "i < length (sys_pc s)" "sys_pc s ! i = WParked" "w_state (wn_waiters (sys_n s) ! i) = kSignaled"
  shows "w_state (wn_waiters (sys_n s') ! i) = kSignaled"
proof -
  have len: "length (wn_waiters (sys_n s)) = length (sys_pc s)" using assms(1) by (simp add: wn_core_def)
  from assms(2) show ?thesis
  proof cases
    case (ws_notify all r n')
    have "\<exists>E' p' stk'. wn_core n' (sys_pc s) E' (sys_ticket s) p' stk' \<and> set stk' \<subseteq> set stk"
    proof (cases all)
      case True
      with core_notify_all [OF assms(1)] ws_notify(2)
      have "wn_core n' (sys_pc s) (sys_E s + p) (sys_ticket s) 0 []" by auto
      then show ?thesis by (intro exI [of _ "sys_E s + p"] exI [of _ 0] exI [of _ "[]"]) simp
    next
      case False
      with core_notify_one [OF assms(1)] ws_notify(2)
      have "wn_core n' (sys_pc s) (sys_E s + min 1 p) (sys_ticket s) (p - 1) (if p = 0 then tl stk else stk)" by auto
      moreover have "set (if p = 0 then tl stk else stk) \<subseteq> set stk" by (cases stk) auto
      ultimately show ?thesis by blast
    qed
    then obtain E' p' stk' where "wn_core n' (sys_pc s) E' (sys_ticket s) p' stk'" "set stk' \<subseteq> set stk" by blast
    then show ?thesis using i assms(1) ws_notify by (auto simp: wn_core_def)
  next
    case (ws_prepare j)
    then show ?thesis using i len by (cases "i = j") (auto simp: prepare_wait_def)
  next
    case (ws_commit j)
    then show ?thesis using i len by (cases "i = j") (auto simp: commit_begin_def)
  next
    case (ws_commit_iter j r n')
    then show ?thesis using i len by (cases "i = j") (auto simp: commit_iter_def Let_def split: if_splits)
  next
    case (ws_cancel_iter j r n')
    then show ?thesis using i by (auto simp: cancel_iter_def Let_def split: if_splits)
  next
    case (ws_park j out n')
    then show ?thesis using i len by (cases "i = j") (auto simp: park_iter_def split: if_splits)
  qed
qed

lemma woken_step:
  assumes w: "woken t E u" and step: "timely_step u u'"
  shows "woken t E u'"
proof -
  obtain p stk where c: "wn_core (sys_n u) (sys_pc u) (sys_E u) (sys_ticket u) p stk" and tm: "wn_timely u"
    using w by (auto simp: woken_def sys_inv_def)
  have E: "E \<le> sys_E u" and len: "length (sys_pc u) = length (sys_pc t)" using w by (auto simp: woken_def)
  have wn: "wn_step u u'" using step by (simp add: timely_step_def)
  then have mono: "sys_E u \<le> sys_E u'" "length (sys_pc u') = length (sys_pc u)" by (cases; simp)+
  have "E \<le> sys_ticket u' i \<or> sys_pc u' ! i = WIdle
       \<or> sys_pc u' ! i = WParked \<and> sys_pc t ! i = WParked \<and> w_state (wn_waiters (sys_n u') ! i) = kSignaled
       \<or> undecided (sys_pc u' ! i) \<and> undecided (sys_pc t ! i) \<and> sys_ticket u' i = sys_ticket t i"
    if i: "i < length (sys_pc t)" "sys_pc t ! i \<noteq> WIdle" for i
  proof -
    have iu: "i < length (sys_pc u)" using i len by simp
    have tick: "sys_ticket t i < E" using w i by (auto simp: woken_def)
    consider (new) "E \<le> sys_ticket u i" | (idle) "sys_pc u ! i = WIdle"
      | (parked) "sys_pc u ! i = WParked" "sys_pc t ! i = WParked" "w_state (wn_waiters (sys_n u) ! i) = kSignaled"
      | (und) "undecided (sys_pc u ! i)" "undecided (sys_pc t ! i)" "sys_ticket u i = sys_ticket t i"
      using w i by (auto simp: woken_def)
    then show ?thesis
    proof cases
      case new
      from wn E show ?thesis by cases (use new in auto)
    next
      case idle
      from wn E show ?thesis by cases (use idle iu in \<open>auto simp: nth_list_update\<close>)
    next
      case parked
      note sig = signals_kept [OF c wn iu parked(1,3)]
      from wn show ?thesis
      proof cases
        case (ws_park j out n')
        then show ?thesis using parked iu sig by (cases "i = j") (auto simp: park_iter_def)
      qed (use parked iu sig in \<open>auto simp: nth_list_update\<close>)
    next
      case und
      have past: "expected (sys_E u) (sys_ticket u i) = WR_notified" using und(3) tick E by (simp add: expected_def)
      have lt: "sys_E u < sys_ticket u i + 2 ^ 31" using tm iu und(1) by (simp add: wn_timely_def)
      from wn show ?thesis
      proof cases
        case (ws_commit_iter j r n')
        then show ?thesis using und iu core_commit [OF c iu _ lt] past by (cases "i = j") auto
      next
        case (ws_cancel_iter j r n')
        then show ?thesis using und iu core_cancel [OF c iu _ lt] past by (cases "i = j") auto
      next
        case (ws_prepare j)
        then show ?thesis using und iu by (cases "i = j") auto
      next
        case (ws_commit j)
        then show ?thesis using und iu by (cases "i = j") auto
      next
        case (ws_park j out n')
        then show ?thesis using und iu by (cases "i = j") auto
      qed (use und in auto)
    qed
  qed
  moreover have "sys_inv u'" using w step sys_inv_step by (auto simp: woken_def)
  ultimately show ?thesis using w E len mono by (auto simp: woken_def)
qed

lemma woken_run: "timely_step\<^sup>*\<^sup>* u u' \<Longrightarrow> woken t E u \<Longrightarrow> woken t E u'"
  by (induction rule: rtranclp_induct) (auto intro: woken_step)

lemma woken_state:
  assumes w: "woken t E u" and i: "i < length (sys_pc t)" "sys_pc t ! i \<noteq> WIdle" "sys_ticket u i = sys_ticket t i"
  shows "sys_pc u ! i = WIdle \<or> sys_pc u ! i = WParked \<and> park_iter i (sys_n u) = (True, sys_n u)
     \<or> undecided (sys_pc u ! i) \<and> commit_iter i (sys_n u) = (WR_notified, sys_n u) \<and> cancel_iter i (sys_n u) = (WR_notified, sys_n u)"
proof -
  obtain p stk where c: "wn_core (sys_n u) (sys_pc u) (sys_E u) (sys_ticket u) p stk" and tm: "wn_timely u"
    using w by (auto simp: woken_def sys_inv_def)
  have len: "i < length (sys_pc u)" and E: "E \<le> sys_E u" and tick: "sys_ticket t i < E" using w i by (auto simp: woken_def)
  have "commit_iter i (sys_n u) = (WR_notified, sys_n u) \<and> cancel_iter i (sys_n u) = (WR_notified, sys_n u)" if und: "undecided (sys_pc u ! i)"
  proof -
    have lt: "sys_E u < sys_ticket u i + 2 ^ 31" "sys_ticket u i < sys_E u"
      using tm len und tick i(3) E by (auto simp: wn_timely_def)
    have r: "wn_rep (sys_n u) (sys_E u) p stk" using c by (simp add: wn_core_def)
    note tf = ticket_facts [OF c len und]
    show ?thesis using commit_iter_rep(2) [OF r tf(1) lt(1) tf(2) lt(2)] cancel_iter_rep(2) [OF r tf(1) lt(1) tf(2) lt(2)] by simp
  qed
  moreover have "park_iter i (sys_n u) = (True, sys_n u)" if "w_state (wn_waiters (sys_n u) ! i) = kSignaled"
    using that by (simp add: park_iter_def)
  ultimately show ?thesis using w i tick by (fastforce simp: woken_def)
qed

lemma notify_woken:
  assumes inv: "parked_inv t" and c: "wn_core (sys_n t) (sys_pc t) (sys_E t) (sys_ticket t) p stk"
    and c': "wn_core n' (sys_pc t) (sys_E t + p) (sys_ticket t) 0 []"
    and step: "timely_step t (t\<lparr>sys_n := n', sys_E := sys_E t + p\<rparr>)"
  shows "woken t (sys_E t + p) (t\<lparr>sys_n := n', sys_E := sys_E t + p\<rparr>)"
proof -
  have "sys_ticket t i < sys_E t + p \<and> (w_state (wn_waiters n' ! i) = kSignaled \<or> undecided (sys_pc t ! i))"
    if "i < length (sys_pc t)" "sys_pc t ! i \<noteq> WIdle" for i
    using that c c' inv by (cases "sys_pc t ! i") (fastforce simp: wn_core_def parked_inv_def)+
  moreover have "sys_inv (t\<lparr>sys_n := n', sys_E := sys_E t + p\<rparr>)" using inv step sys_inv_step by (auto simp: parked_inv_def)
  moreover have "pc = WIdle \<or> pc = WParked \<or> undecided pc" for pc by (cases pc) auto
  ultimately show ?thesis unfolding woken_def by fastforce
qed

text \<open>C6: \<open>notify(true)\<close> in any reachable state returns, leaves no sleeper behind and no wait undecided:
  every sleeping worker is signalled. After it, and for as long as no undecided wait is overtaken
  by \<open>2 ^ 31\<close> decisions of others (beyond that the 32-bit epochs say nothing), no worker sleeps on
  a wait begun before it: in every later state a worker that was asleep or undecided then, and
  has not prepared another wait since, is out of its wait, or has its signal and leaves the
  loop of \<open>_park\<close> at its next turn, or has still to decide, and then both \<open>commit_wait\<close> and
  \<open>cancel_wait\<close> find it notified. No wake-up is lost.\<close>

theorem notify_all_wakes:
  assumes "sys_init N = Inr s" and "timely_step\<^sup>*\<^sup>* s t"
  shows "\<exists>r n'. notify True (sys_n t) = Some (r, n') \<and> prewait n' = 0 \<and> wn_state n' AND kStackMask = kStackMask
     \<and> (\<forall>i<length (sys_pc t). sys_pc t ! i = WParked \<longrightarrow> w_state (wn_waiters n' ! i) = kSignaled)
     \<and> (\<forall>t' u. t' = t\<lparr>sys_n := n', sys_E := sys_E t + prewait (sys_n t)\<rparr> \<and> timely_step t t' \<and> timely_step\<^sup>*\<^sup>* t' u \<longrightarrow>
          (\<forall>i<length (sys_pc t). sys_pc t ! i \<noteq> WIdle \<and> sys_ticket u i = sys_ticket t i \<longrightarrow>
             sys_pc u ! i = WIdle
             \<or> sys_pc u ! i = WParked \<and> park_iter i (sys_n u) = (True, sys_n u)
             \<or> undecided (sys_pc u ! i) \<and> commit_iter i (sys_n u) = (WR_notified, sys_n u)
                 \<and> cancel_iter i (sys_n u) = (WR_notified, sys_n u)))"
proof -
  have inv: "parked_inv t" using parked.inv_reachable [OF assms] .
  then obtain p stk where c: "wn_core (sys_n t) (sys_pc t) (sys_E t) (sys_ticket t) p stk"
    by (auto simp: parked_inv_def sys_inv_def)
  obtain n' where n': "notify True (sys_n t) = Some (list_head stk, n')"
    and c': "wn_core n' (sys_pc t) (sys_E t + p) (sys_ticket t) 0 []"
    using core_notify_all [OF c] by blast
  have rep: "wn_rep n' (sys_E t + p) 0 []" using c' by (simp add: wn_core_def)
  have pw: "prewait (sys_n t) = p" using c prewait_rep by (auto simp: wn_core_def)
  have st: "wn_state n' AND kStackMask = kStackMask"
    using rep wn_word_fields(1) [of 0 65535 "sys_E t + p"] wn_field_tests(1) [of 65535]
    by (simp add: wn_rep_def stack_field_def)
  have sig: "\<forall>i<length (sys_pc t). sys_pc t ! i = WParked \<longrightarrow> w_state (wn_waiters n' ! i) = kSignaled"
    using c' by (simp add: wn_core_def)
  have "woken t (sys_E t + p) u" if "timely_step t (t\<lparr>sys_n := n', sys_E := sys_E t + p\<rparr>)"
    "timely_step\<^sup>*\<^sup>* (t\<lparr>sys_n := n', sys_E := sys_E t + p\<rparr>) u" for u
    using woken_run [OF that(2) notify_woken [OF inv c c' that(1)]] .
  then have later: "\<forall>t' u. t' = t\<lparr>sys_n := n', sys_E := sys_E t + prewait (sys_n t)\<rparr> \<and> timely_step t t' \<and> timely_step\<^sup>*\<^sup>* t' u \<longrightarrow>
      (\<forall>i<length (sys_pc t). sys_pc t ! i \<noteq> WIdle \<and> sys_ticket u i = sys_ticket t i \<longrightarrow>
         sys_pc u ! i = WIdle \<or> sys_pc u ! i = WParked \<and> park_iter i (sys_n u) = (True, sys_n u)
         \<or> undecided (sys_pc u ! i) \<and> commit_iter i (sys_n u) = (WR_notified, sys_n u) \<and> cancel_iter i (sys_n u) = (WR_notified, sys_n u))"
    using woken_state unfolding pw by blast
  show ?thesis by (intro exI [of _ "list_head stk"] exI [of _ n'] conjI n' prewait_rep [OF rep] st sig later)
qed

text \<open>A run of two workers to a state with one asleep and one prepared.\<close>

lemma asleep_and_prepared:
  "\<exists>s t. sys_init 2 = Inr s \<and> timely_step\<^sup>*\<^sup>* s t \<and> sys_pc t = [WParked, WPrepared] \<and> sys_ticket t 1 = sys_E t + prewait (sys_n t) - 1
     \<and> prewait (sys_n t) < 2 ^ 16"
proof -
  obtain s where s: "sys_init 2 = Inr s" by (simp add: sys_init_def new_WorkNotifier_def)
  have r2: "replicate 2 x = [x, x]" for x :: 'x by (simp add: numeral_2_eq_2)
  have s0: "sys_pc s = [WIdle, WIdle]" "sys_E s = 4294967291" "sys_n s = \<lparr>wn_state = wn_word 4294967291 0 65535,
      wn_waiters = replicate 2 \<lparr>w_next = None, w_epoch = 0, w_state = kNotSignaled\<rparr>\<rparr>"
    using s new_WorkNotifier_word [of 2] r2 by (auto simp: sys_init_def new_WorkNotifier_def)
  have inv: "sys_inv s" using s by (rule sys_inv_init)
  define a where "a = s\<lparr>sys_n := prepare_wait 0 (sys_n s), sys_pc := [WPrepared, WIdle], sys_ticket := (sys_ticket s)(0 := 4294967291)\<rparr>"
  have "prewait (sys_n s) = 0" using s0 prewait_rep [of "sys_n s" 4294967291 0 "[]"] by (simp add: wn_rep_def stack_field_def)
  then have 1: "timely_step s a" using wn_step.ws_prepare [of 0 s] s0
    by (simp add: timely_step_def a_def wn_timely_def nth_Cons split: nat.splits)
  define b where "b = a\<lparr>sys_n := commit_begin 0 (sys_n a), sys_pc := [WCommitting, WIdle]\<rparr>"
  have 2: "timely_step a b" using wn_step.ws_commit [of 0 a] s0
    by (simp add: timely_step_def a_def b_def wn_timely_def nth_Cons split: nat.splits)
  have "sys_inv b" using inv 1 2 sys_inv_step by blast
  then obtain p stk where cb: "wn_core (sys_n b) [WCommitting, WIdle] 4294967291 (sys_ticket b) p stk" and tb: "sys_ticket b 0 = 4294967291"
    using s0 by (auto simp: sys_inv_def a_def b_def)
  obtain n2 where n2: "commit_iter 0 (sys_n b) = (WR_done, n2)"
    using core_commit [OF cb, of 0] tb by (auto simp: expected_def)
  define c where "c = b\<lparr>sys_n := n2, sys_pc := [WParked, WIdle], sys_E := 4294967292\<rparr>"
  have 3: "timely_step b c" using wn_step.ws_commit_iter [of 0 b WR_done n2] n2 s0
    by (simp add: timely_step_def a_def b_def c_def wn_timely_def nth_Cons split: nat.splits)
  define t where "t = c\<lparr>sys_n := prepare_wait 1 (sys_n c), sys_pc := [WParked, WPrepared], sys_ticket := (sys_ticket c)(1 := sys_E c + prewait (sys_n c))\<rparr>"
  have 4: "timely_step c t" using wn_step.ws_prepare [of 1 c]
    by (simp add: timely_step_def c_def t_def wn_timely_def nth_Cons split: nat.splits)
  have run: "timely_step\<^sup>*\<^sup>* s t" using 1 2 3 4 by (rule run_of_4)
  obtain p2 stk2 where ct: "wn_core (sys_n c) (sys_pc c) (sys_E c) (sys_ticket c) p2 stk2"
    using sys_inv_step [OF \<open>sys_inv b\<close> 3] unfolding sys_inv_def by blast
  then have p2: "prewait (sys_n c) = p2" using prewait_rep unfolding wn_core_def by blast
  have "wn_core (sys_n t) (sys_pc t) (sys_E t) (sys_ticket t) (Suc p2) stk2"
    using core_prepare [OF ct, of 1] p2 by (simp add: t_def c_def)
  then have rep: "wn_rep (sys_n t) (sys_E t) (Suc p2) stk2" unfolding wn_core_def by blast
  have "prewait (sys_n t) = Suc (prewait (sys_n c))" "prewait (sys_n t) < 2 ^ 16"
    unfolding prewait_rep [OF rep] p2 by (rule refl, rule wn_rep_field(3) [OF rep])
  then show ?thesis using s run by (intro exI [of _ s] exI [of _ t]) (simp add: t_def)
qed

theorem notify_all_wakes_witness:
  "\<exists>s t r n'. sys_init 2 = Inr s \<and> timely_step\<^sup>*\<^sup>* s t \<and> sys_pc t = [WParked, WPrepared]
     \<and> notify True (sys_n t) = Some (r, n') \<and> w_state (wn_waiters n' ! 0) = kSignaled
     \<and> commit_iter 1 n' = (WR_notified, n') \<and> park_iter 0 n' = (True, n')"
proof -
  obtain s t where s: "sys_init 2 = Inr s" and run: "timely_step\<^sup>*\<^sup>* s t" and pc: "sys_pc t = [WParked, WPrepared]"
    and tk: "sys_ticket t 1 = sys_E t + prewait (sys_n t) - 1" "prewait (sys_n t) < 2 ^ 16"
    using asleep_and_prepared by blast
  let ?t = "\<lambda>n'. t\<lparr>sys_n := n', sys_E := sys_E t + prewait (sys_n t)\<rparr>"
  from notify_all_wakes [OF s run] obtain r n' where n': "notify True (sys_n t) = Some (r, n')"
    and sig: "\<forall>i<length (sys_pc t). sys_pc t ! i = WParked \<longrightarrow> w_state (wn_waiters n' ! i) = kSignaled"
    and later: "\<forall>t' u. t' = ?t n' \<and> timely_step t t' \<and> timely_step\<^sup>*\<^sup>* t' u \<longrightarrow>
          (\<forall>i<length (sys_pc t). sys_pc t ! i \<noteq> WIdle \<and> sys_ticket u i = sys_ticket t i \<longrightarrow>
             sys_pc u ! i = WIdle \<or> sys_pc u ! i = WParked \<and> park_iter i (sys_n u) = (True, sys_n u)
             \<or> undecided (sys_pc u ! i) \<and> commit_iter i (sys_n u) = (WR_notified, sys_n u) \<and> cancel_iter i (sys_n u) = (WR_notified, sys_n u))"
    by (elim exE conjE) (rule that)
  have "timely_step t (?t n')"
    using wn_step.ws_notify [OF n'] tk pc by (simp add: timely_step_def wn_timely_def nth_Cons split: nat.splits)
  from later [rule_format, OF conjI [OF refl conjI [OF this rtranclp.rtrancl_refl]]]
  have "commit_iter 1 n' = (WR_notified, n')" "park_iter 0 n' = (True, n')" using pc by fastforce+
  moreover have "w_state (wn_waiters n' ! 0) = kSignaled" using sig pc by simp
  ultimately show ?thesis using s run n' pc by blast
qed

text \<open>\<open>notify(false)\<close> in any reachable state returns and releases exactly one waiter when
  there is one: if some wait is undecided, the epoch moves on by one, so that the oldest
  undecided ticket becomes "already notified" and the sleepers are left alone; otherwise the
  worker that fell asleep last is signalled, and no other; with no waiter at all the word and
  the waiters are unchanged.\<close>

theorem notify_one_releases:
  assumes "sys_init N = Inr s" and "timely_step\<^sup>*\<^sup>* s t"
  shows "\<exists>r n' stk. notify False (sys_n t) = Some (r, n')
     \<and> set stk = {i. i < length (sys_pc t) \<and> sys_pc t ! i = WParked \<and> w_state (wn_waiters (sys_n t) ! i) \<noteq> kSignaled}
     \<and> (if 0 < prewait (sys_n t) then
          r = None \<and> wn_waiters n' = wn_waiters (sys_n t) \<and> prewait n' = prewait (sys_n t) - 1
        else if stk = [] then r = None \<and> n' = sys_n t
        else r = Some (hd stk) \<and> prewait n' = 0
          \<and> (\<forall>i<length (sys_pc t). w_state (wn_waiters n' ! i) =
               (if i = hd stk then kSignaled else w_state (wn_waiters (sys_n t) ! i))))"
proof -
  have "sys_inv t" using sleep.inv_reachable [OF assms] .
  then obtain p stk where c: "wn_core (sys_n t) (sys_pc t) (sys_E t) (sys_ticket t) p stk"
    by (auto simp: sys_inv_def)
  then have rep: "wn_rep (sys_n t) (sys_E t) p stk" and len: "length (wn_waiters (sys_n t)) = length (sys_pc t)"
    by (auto simp: wn_core_def)
  note pw = prewait_rep [OF rep]
  have stk: "set stk = {i. i < length (sys_pc t) \<and> sys_pc t ! i = WParked
      \<and> w_state (wn_waiters (sys_n t) ! i) \<noteq> kSignaled}"
    using c rep len by (auto simp: wn_core_def wn_rep_def)
  consider p' where "p = Suc p'" | "p = 0" "stk = []" | x xs where "p = 0" "stk = x # xs"
    by (cases p; cases stk) auto
  then show ?thesis
  proof cases
    case 1
    then obtain n' where "notify False (sys_n t) = Some (None, n')" "wn_rep n' (Suc (sys_E t)) p' stk"
      "wn_waiters n' = wn_waiters (sys_n t)" using notify_one_rep(1) [OF rep] by blast
    then show ?thesis using stk pw 1 prewait_rep by (intro exI [of _ None] exI [of _ n'] exI [of _ stk]) auto
  next
    case 2
    then have "notify False (sys_n t) = Some (None, sys_n t)" using notify_one_rep(2) [OF rep] by blast
    then show ?thesis using stk pw 2 by (intro exI [of _ None] exI [of _ "sys_n t"] exI [of _ stk]) auto
  next
    case 3
    then obtain n' where "notify False (sys_n t) = Some (Some x, n')" "wn_rep n' (sys_E t) 0 xs"
      "wn_waiters n' = (wn_waiters (sys_n t))[x := (wn_waiters (sys_n t) ! x)\<lparr>w_next := None, w_state := kSignaled\<rparr>]"
      using notify_one_rep(3) [OF rep] by blast
    then show ?thesis using stk pw 3 len prewait_rep
      by (intro exI [of _ "Some x"] exI [of _ n'] exI [of _ stk]) (auto simp: nth_list_update)
  qed
qed

theorem notify_one_releases_witness:
  "\<exists>s r n'. sys_init 1 = Inr s \<and> notify False (sys_n s) = Some (r, n')"
proof -
  obtain s where s: "sys_init 1 = Inr s" by (simp add: sys_init_def new_WorkNotifier_def)
  from notify_one_releases [OF s rtranclp.rtrancl_refl] s show ?thesis by blast
qed

text \<open>C20: in every reachable state the assertions inside \<open>commit_wait\<close> and \<open>cancel_wait\<close> hold,
  and the yielding loops cannot block one another: whenever a wait is undecided and not yet
  notified, some worker holds the ticket that equals the epoch, and its next decision goes
  through.\<close>

theorem waits_make_progress:
  assumes "sys_init N = Inr s" and "timely_step\<^sup>*\<^sup>* s t"
    and "i < length (sys_pc t)" and "undecided (sys_pc t ! i)"
  shows "fst (commit_iter i (sys_n t)) \<noteq> WR_assert \<and> fst (cancel_iter i (sys_n t)) \<noteq> WR_assert
     \<and> (fst (commit_iter i (sys_n t)) = WR_yield \<longrightarrow>
          (\<exists>j<length (sys_pc t). undecided (sys_pc t ! j)
             \<and> fst (commit_iter j (sys_n t)) = WR_done \<and> fst (cancel_iter j (sys_n t)) = WR_done))"
proof -
  have "sys_inv t" using sleep.inv_reachable [OF assms(1,2)] .
  then obtain p stk where c: "wn_core (sys_n t) (sys_pc t) (sys_E t) (sys_ticket t) p stk" and tm: "wn_timely t"
    by (auto simp: sys_inv_def)
  then have rep: "wn_rep (sys_n t) (sys_E t) p stk" and len: "length (wn_waiters (sys_n t)) = length (sys_pc t)"
    and bij: "bij_betw (sys_ticket t) (pending (sys_pc t) (sys_E t) (sys_ticket t)) {sys_E t..<sys_E t + p}"
    by (auto simp: wn_core_def)
  have branch: "fst (commit_iter j (sys_n t)) = expected (sys_E t) (sys_ticket t j)
      \<and> fst (cancel_iter j (sys_n t)) = expected (sys_E t) (sys_ticket t j)"
    if j: "j < length (sys_pc t)" "undecided (sys_pc t ! j)" for j
  proof -
    have lt: "sys_E t < sys_ticket t j + 2 ^ 31" using tm j by (simp add: wn_timely_def)
    note tf = ticket_facts [OF c j]
    have "j \<notin> set stk" using c j by (auto simp: wn_core_def)
    then show ?thesis
      using commit_iter_rep [OF rep tf(1) lt tf(2)] cancel_iter_rep [OF rep tf(1) lt tf(2)] tf(3) j(1) len
      by (cases "sys_E t < sys_ticket t j"; cases "sys_ticket t j < sys_E t") (auto simp: expected_def)
  qed
  have "\<exists>j<length (sys_pc t). undecided (sys_pc t ! j) \<and> sys_ticket t j = sys_E t" if "sys_E t < sys_ticket t i"
  proof -
    have "sys_ticket t i < sys_E t + p" using c assms(3,4) by (simp add: wn_core_def)
    with that have "sys_E t \<in> sys_ticket t ` pending (sys_pc t) (sys_E t) (sys_ticket t)"
      using bij by (simp add: bij_betw_def)
    then show ?thesis by (auto simp: pending_def)
  qed
  then show ?thesis using branch branch [OF assms(3,4)] by (fastforce simp: expected_def split: if_splits)
qed

theorem waits_make_progress_witness:
  "\<exists>s t. sys_init 1 = Inr s \<and> timely_step\<^sup>*\<^sup>* s t \<and> undecided (sys_pc t ! 0)
     \<and> fst (commit_iter 0 (sys_n t)) \<noteq> WR_assert"
proof -
  obtain s where s: "sys_init 1 = Inr s" by (simp add: sys_init_def new_WorkNotifier_def)
  have pc: "sys_pc s = [WIdle]" using s by (auto simp: sys_init_def new_WorkNotifier_def)
  let ?t = "s\<lparr>sys_n := prepare_wait 0 (sys_n s), sys_pc := (sys_pc s)[0 := WPrepared],
      sys_ticket := (sys_ticket s)(0 := sys_E s + prewait (sys_n s))\<rparr>"
  have "wn_step s ?t" by (rule wn_step.ws_prepare) (simp_all add: pc)
  then have "timely_step s ?t" by (simp add: timely_step_def wn_timely_def pc)
  then have t: "timely_step\<^sup>*\<^sup>* s ?t" by blast
  have "fst (commit_iter 0 (sys_n ?t)) \<noteq> WR_assert"
    using waits_make_progress [OF s t, of 0] by (simp add: pc)
  moreover have "undecided (sys_pc ?t ! 0)" by (simp add: pc)
  ultimately show ?thesis using s t by blast
qed

text \<open>When no worker is preparing, committing or asleep, the destructor's assertion holds.\<close>

theorem notifier_quiescent:
  assumes "sys_init N = Inr s" and "timely_step\<^sup>*\<^sup>* s t"
    and "\<forall>i<length (sys_pc t). sys_pc t ! i = WIdle"
  shows "delete_WorkNotifier (sys_n t) = Inr ()"
proof -
  have "sys_inv t" using sleep.inv_reachable [OF assms(1,2)] .
  then obtain p stk where c: "wn_core (sys_n t) (sys_pc t) (sys_E t) (sys_ticket t) p stk"
    by (auto simp: sys_inv_def)
  have "i \<notin> set stk" for i
    using c assms(3) by (cases "i < length (sys_pc t)") (auto simp: wn_core_def wn_rep_def)
  then have "stk = []" by (cases stk) auto
  moreover have "pending (sys_pc t) (sys_E t) (sys_ticket t) = {}" using assms(3) by (auto simp: pending_def)
  then have "p = 0" using c bij_betw_same_card [of "sys_ticket t" "{}" "{sys_E t..<sys_E t + p}"]
    by (simp add: wn_core_def)
  ultimately have "wn_state (sys_n t) = wn_word (sys_E t) 0 65535"
    using c by (simp add: wn_core_def wn_rep_def stack_field_def)
  then have "wn_state (sys_n t) AND kStackMask = kStackMask" "wn_state (sys_n t) AND kWaiterMask = 0"
    using wn_word_fields(1,2) [of 0 65535 "sys_E t"] wn_field_tests(1) [of 65535] by simp_all
  then show ?thesis by (simp add: delete_WorkNotifier_def bit.conj_disj_distrib)
qed

theorem notifier_quiescent_witness:
  "\<exists>s. sys_init 3 = Inr s \<and> delete_WorkNotifier (sys_n s) = Inr ()"
proof -
  obtain s where s: "sys_init 3 = Inr s" by (simp add: sys_init_def new_WorkNotifier_def)
  have "\<forall>i<length (sys_pc s). sys_pc s ! i = WIdle" using s by (auto simp: sys_init_def new_WorkNotifier_def)
  from notifier_quiescent [OF s rtranclp.rtrancl_refl this] s show ?thesis by blast
qed

text \<open>\<open>notify_waiter(w)\<close> in any reachable state returns, and wakes every sleeping worker,
  not only \<open>w\<close>: it starts with \<open>notify(true)\<close>.\<close>

theorem notify_waiter_wakes_all:
  assumes "sys_init N = Inr s" and "timely_step\<^sup>*\<^sup>* s t" and "sys_pc t \<noteq> []"
  shows "\<exists>n'. notify_waiter w (sys_n t) = Some n' \<and> prewait n' = 0
     \<and> (\<forall>i<length (sys_pc t). sys_pc t ! i = WParked \<longrightarrow> w_state (wn_waiters n' ! i) = kSignaled)"
proof -
  have "sys_inv t" using sleep.inv_reachable [OF assms(1,2)] .
  then obtain p stk where c: "wn_core (sys_n t) (sys_pc t) (sys_E t) (sys_ticket t) p stk"
    by (auto simp: sys_inv_def)
  then have rep: "wn_rep (sys_n t) (sys_E t) p stk" and len: "length (wn_waiters (sys_n t)) = length (sys_pc t)"
    by (auto simp: wn_core_def)
  then obtain n' where n': "notify_waiter w (sys_n t) = Some n'" "wn_rep n' (sys_E t + p) 0 []"
    "wn_waiters n' = fold signal stk (wn_waiters (sys_n t))"
    using notify_waiter_rep [OF rep] assms(3) by force
  have "w_state (wn_waiters n' ! i) = kSignaled" if "i < length (sys_pc t)" "sys_pc t ! i = WParked" for i
    using that c len unfolding n'(3) by (auto simp: nth_signals wn_core_def)
  with n' prewait_rep [OF n'(2)] show ?thesis by blast
qed

theorem notify_waiter_wakes_all_witness:
  "\<exists>s n'. sys_init 2 = Inr s \<and> notify_waiter 1 (sys_n s) = Some n' \<and> prewait n' = 0"
proof -
  obtain s where s: "sys_init 2 = Inr s" by (simp add: sys_init_def new_WorkNotifier_def)
  have "sys_pc s \<noteq> []" using s by (auto simp: sys_init_def new_WorkNotifier_def)
  from notify_waiter_wakes_all [OF s rtranclp.rtrancl_refl this] s show ?thesis by blast
qed

end
