(* ===== verification/Notifier.thy ===== *)
theory Notifier
  imports Worker_Sleep "HOL-Library.Sublist"
begin

text \<open>
  \<open>include/ar/notifier.hpp\<close>, one access to shared memory at a time: the load of the packed word, the tests, the store
  of \<open>next\<close> and the \<open>compare_exchange_weak\<close> that may fail are steps of their own, and so are the accesses of
  \<open>_park\<close> and \<open>_unpark\<close>, here in the variant with atomic waiting (\<open>__cpp_lib_atomic_wait\<close>). The loops of
  \<open>src/work_notifier.h\<close> are the same, and \<open>Worker_Sleep\<close> takes one turn of each as one step. Any
  number of threads notify while the waiters wait. \<open>f_E\<close>, \<open>f_ticket\<close> and \<open>f_seen\<close> are bookkeeping: the decisions so
  far, the tickets, and the decisions there were when a notifier last read the word.
\<close>

section \<open>Definitions\<close>

datatype waiter_pc = F_Idle | F_Prepared | F_Load | F_Test u64 | F_Cas u64
  | F_Cancel_Load | F_Cancel_Test u64 | F_Cancel_Cas u64 | F_Park | F_Wait | F_Abort

datatype notify_pc = N_Idle | N_Load bool | N_Test bool u64 | N_Cas bool u64 u64
  | N_Clear nat | N_Unpark "nat option" | N_Signal nat "nat option"

definition wait_test :: "Waiter \<Rightarrow> u64 \<Rightarrow> wait_result" where
  "wait_test w state =
     (if sint ((state AND kEpochMask) - wait_epoch w) < 0 then WR_yield
      else if 0 < sint ((state AND kEpochMask) - wait_epoch w) then WR_notified
      else if state AND kWaiterMask = 0 then WR_assert else WR_done)"

definition next_of :: "u64 \<Rightarrow> nat option" where
  "next_of state = (if state AND kStackMask = kStackMask then None else Some (unat (state AND kStackMask)))"

definition set_waiter :: "nat \<Rightarrow> (Waiter \<Rightarrow> Waiter) \<Rightarrow> WorkNotifier \<Rightarrow> WorkNotifier" where
  "set_waiter i f n = n\<lparr>wn_waiters := (wn_waiters n)[i := f (wn_waiters n ! i)]\<rparr>"

text \<open>An access of \<open>commit_wait\<close> with \<open>_park\<close>, and of \<open>cancel_wait\<close>; \<open>fails\<close> says that an exchange fails for no reason.
  The number is the number of waits the access decides.\<close>

fun commit_wait_step :: "bool \<Rightarrow> nat \<Rightarrow> waiter_pc \<Rightarrow> WorkNotifier \<Rightarrow> (waiter_pc \<times> WorkNotifier \<times> nat) option" where
  "commit_wait_step fails i F_Prepared n = Some (F_Load, commit_begin i n, 0)"
| "commit_wait_step fails i F_Load n = Some (F_Test (wn_state n), n, 0)"
| "commit_wait_step fails i (F_Test state) n =
     (case wait_test (wn_waiters n ! i) state of
        WR_yield \<Rightarrow> Some (F_Load, n, 0)
      | WR_notified \<Rightarrow> Some (F_Idle, n, 0)
      | WR_assert \<Rightarrow> Some (F_Abort, n, 0)
      | WR_done \<Rightarrow> Some (F_Cas state, set_waiter i (w_next_update (\<lambda>_. next_of state)) n, 0))"
| "commit_wait_step fails i (F_Cas state) n =
     (if wn_state n = state \<and> \<not> fails
      then Some (F_Park, n\<lparr>wn_state := ((state - kWaiterInc + kEpochInc) AND NOT kStackMask) OR word_of_nat i\<rparr>, 1)
      else Some (F_Test (wn_state n), n, 0))"
| "commit_wait_step fails i F_Park n =
     (if w_state (wn_waiters n ! i) = kNotSignaled
      then Some (F_Wait, set_waiter i (w_state_update (\<lambda>_. kWaiting)) n, 0) else Some (F_Idle, n, 0))"
| "commit_wait_step fails i F_Wait n = (if w_state (wn_waiters n ! i) = kWaiting then None else Some (F_Idle, n, 0))"
| "commit_wait_step fails i pc n = None"

fun cancel_wait_step :: "bool \<Rightarrow> nat \<Rightarrow> waiter_pc \<Rightarrow> WorkNotifier \<Rightarrow> (waiter_pc \<times> WorkNotifier \<times> nat) option" where
  "cancel_wait_step fails i F_Prepared n = Some (F_Cancel_Load, n, 0)"
| "cancel_wait_step fails i F_Cancel_Load n = Some (F_Cancel_Test (wn_state n), n, 0)"
| "cancel_wait_step fails i (F_Cancel_Test state) n =
     (case wait_test (wn_waiters n ! i) state of
        WR_yield \<Rightarrow> Some (F_Cancel_Load, n, 0)
      | WR_notified \<Rightarrow> Some (F_Idle, n, 0)
      | WR_assert \<Rightarrow> Some (F_Abort, n, 0)
      | WR_done \<Rightarrow> Some (F_Cancel_Cas state, n, 0))"
| "cancel_wait_step fails i (F_Cancel_Cas state) n =
     (if wn_state n = state \<and> \<not> fails then Some (F_Idle, n\<lparr>wn_state := state - kWaiterInc + kEpochInc\<rparr>, 1)
      else Some (F_Cancel_Test (wn_state n), n, 0))"
| "cancel_wait_step fails i pc n = None"

text \<open>The word \<open>notify\<close> wants to store; when it pops a waiter it reads that waiter's \<open>next\<close>.\<close>

definition prewaiters :: "u64 \<Rightarrow> u64" where
  "prewaiters state = drop_bit 16 (state AND kWaiterMask)"

definition notify_word :: "bool \<Rightarrow> u64 \<Rightarrow> Waiter list \<Rightarrow> u64" where
  "notify_word all state ws =
     (if all then (state AND kEpochMask) + kEpochInc * prewaiters state + kStackMask
      else if prewaiters state \<noteq> 0 then state + kEpochInc - kWaiterInc
      else (state AND kEpochMask)
        + (case w_next (ws ! unat (state AND kStackMask)) of None \<Rightarrow> kStackMask | Some j \<Rightarrow> word_of_nat j))"

fun notify_step :: "bool \<Rightarrow> notify_pc \<Rightarrow> WorkNotifier \<Rightarrow> notify_pc \<times> WorkNotifier \<times> nat" where
  "notify_step b N_Idle n = (N_Load b, n, 0)"
| "notify_step b (N_Load all) n = (N_Test all (wn_state n), n, 0)"
| "notify_step b (N_Test all state) n =
     (if state AND kStackMask = kStackMask \<and> state AND kWaiterMask = 0 then (N_Idle, n, 0)
      else (N_Cas all state (notify_word all state (wn_waiters n)), n, 0))"
| "notify_step b (N_Cas all state newstate) n =
     (if wn_state n = state \<and> \<not> b
      then (if \<not> all \<and> prewaiters state \<noteq> 0 then N_Idle
            else if state AND kStackMask = kStackMask then N_Idle
            else if all then N_Unpark (Some (unat (state AND kStackMask)))
            else N_Clear (unat (state AND kStackMask)),
            n\<lparr>wn_state := newstate\<rparr>,
            if all then unat (prewaiters state) else min 1 (unat (prewaiters state)))
      else (N_Test all (wn_state n), n, 0))"
| "notify_step b (N_Clear i) n = (N_Unpark (Some i), set_waiter i (w_next_update (\<lambda>_. None)) n, 0)"
| "notify_step b (N_Unpark None) n = (N_Idle, n, 0)"
| "notify_step b (N_Unpark (Some i)) n = (N_Signal i (w_next (wn_waiters n ! i)), n, 0)"
| "notify_step b (N_Signal i nx) n = (N_Unpark nx, set_waiter i (w_state_update (\<lambda>_. kSignaled)) n, 0)"

record fine_sys =
  f_n :: WorkNotifier
  f_pc :: "waiter_pc list"
  f_np :: "notify_pc list"
  f_E :: nat
  f_ticket :: "nat \<Rightarrow> nat"
  f_seen :: "nat \<Rightarrow> nat"

definition fine_init :: "nat \<Rightarrow> nat \<Rightarrow> ar_error + fine_sys" where
  "fine_init N M = (case new_WorkNotifier N of Inl e \<Rightarrow> Inl e
     | Inr n \<Rightarrow> Inr \<lparr>f_n = n, f_pc = replicate N F_Idle, f_np = replicate M N_Idle, f_E = 2 ^ 32 - 1 - 2 * N,
                    f_ticket = (\<lambda>_. 0), f_seen = (\<lambda>_. 0)\<rparr>)"

fun has_read :: "notify_pc \<Rightarrow> bool" where
  "has_read (N_Test all state) = True"
| "has_read q = False"

inductive fine_step :: "fine_sys \<Rightarrow> fine_sys \<Rightarrow> bool" where
  fs_prepare: "i < length (f_pc s) \<Longrightarrow> f_pc s ! i = F_Idle \<Longrightarrow>
    fine_step s (s\<lparr>f_n := prepare_wait i (f_n s), f_pc := (f_pc s)[i := F_Prepared],
      f_ticket := (f_ticket s)(i := f_E s + prewait (f_n s))\<rparr>)"
| fs_commit: "i < length (f_pc s) \<Longrightarrow> commit_wait_step fails i (f_pc s ! i) (f_n s) = Some (pc', n', d) \<Longrightarrow>
    fine_step s (s\<lparr>f_n := n', f_pc := (f_pc s)[i := pc'], f_E := f_E s + d\<rparr>)"
| fs_cancel: "i < length (f_pc s) \<Longrightarrow> cancel_wait_step fails i (f_pc s ! i) (f_n s) = Some (pc', n', d) \<Longrightarrow>
    fine_step s (s\<lparr>f_n := n', f_pc := (f_pc s)[i := pc'], f_E := f_E s + d\<rparr>)"
| fs_notify: "j < length (f_np s) \<Longrightarrow> notify_step b (f_np s ! j) (f_n s) = (q', n', d) \<Longrightarrow>
    fine_step s (s\<lparr>f_n := n', f_np := (f_np s)[j := q'], f_E := f_E s + d,
      f_seen := if has_read q' then (f_seen s)(j := f_E s) else f_seen s\<rparr>)"

text \<open>Where a waiter is in terms of \<open>Worker_Sleep\<close>: a waiter that has read that it is notified has decided.\<close>

fun coarse_pc :: "Waiter \<Rightarrow> waiter_pc \<Rightarrow> wn_pc" where
  "coarse_pc w F_Idle = WIdle"
| "coarse_pc w F_Prepared = WPrepared"
| "coarse_pc w F_Load = WCommitting"
| "coarse_pc w (F_Test state) = (if wait_test w state = WR_notified then WIdle else WCommitting)"
| "coarse_pc w (F_Cas state) = WCommitting"
| "coarse_pc w F_Cancel_Load = WPrepared"
| "coarse_pc w (F_Cancel_Test state) = (if wait_test w state = WR_notified then WIdle else WPrepared)"
| "coarse_pc w (F_Cancel_Cas state) = WPrepared"
| "coarse_pc w F_Park = WParked"
| "coarse_pc w F_Wait = WParked"
| "coarse_pc w F_Abort = WIdle"

fun reading :: "notify_pc \<Rightarrow> bool" where
  "reading (N_Test all state) = True"
| "reading (N_Cas all state newstate) = True"
| "reading q = False"

text \<open>No waiter is overtaken by \<open>2 ^ 31\<close> decisions, and no turn of a notifier's loop by \<open>2 ^ 32\<close>.\<close>

definition fine_timely :: "fine_sys \<Rightarrow> bool" where
  "fine_timely s \<longleftrightarrow>
     (\<forall>i<length (f_pc s). undecided (coarse_pc (wn_waiters (f_n s) ! i) (f_pc s ! i)) \<longrightarrow> f_E s < f_ticket s i + 2 ^ 31)
     \<and> (\<forall>j<length (f_np s). reading (f_np s ! j) \<longrightarrow> f_E s < f_seen s j + 2 ^ 32)"

definition fine_timely_step :: "fine_sys \<Rightarrow> fine_sys \<Rightarrow> bool" where
  "fine_timely_step s t \<longleftrightarrow> fine_step s t \<and> fine_timely t"

section \<open>The simulation relation\<close>

text \<open>What holds of a waiter by where it is.\<close>

fun waiter_ok :: "Waiter \<Rightarrow> waiter_pc \<Rightarrow> bool" where
  "waiter_ok w F_Load = (w_state w = kNotSignaled)"
| "waiter_ok w (F_Test state) = (w_state w = kNotSignaled \<and> wait_test w state \<noteq> WR_assert)"
| "waiter_ok w (F_Cas state) = (w_state w = kNotSignaled \<and> wait_test w state = WR_done \<and> w_next w = next_of state)"
| "waiter_ok w (F_Cancel_Test state) = (wait_test w state \<noteq> WR_assert)"
| "waiter_ok w (F_Cancel_Cas state) = (wait_test w state = WR_done)"
| "waiter_ok w F_Park = (w_state w \<noteq> kWaiting)"
| "waiter_ok w F_Wait = (w_state w \<noteq> kNotSignaled)"
| "waiter_ok w F_Abort = False"
| "waiter_ok w pc = True"

text \<open>What a notifier read, when \<open>E0\<close> waits were decided: if none was decided since, waiters have at most been popped.\<close>

definition seen_ok :: "Waiter list \<Rightarrow> nat \<Rightarrow> nat list \<Rightarrow> nat \<Rightarrow> u64 \<Rightarrow> nat list \<Rightarrow> nat \<Rightarrow> bool" where
  "seen_ok ws E stk E0 state stk0 p0 \<longleftrightarrow> E0 \<le> E \<and> p0 < 2 ^ 16 \<and> distinct stk0 \<and> set stk0 \<subseteq> {..<length ws} \<and> length ws < 65535
     \<and> state = wn_word E0 p0 (stack_field stk0) \<and> (E = E0 \<longrightarrow> suffix stk stk0)"

text \<open>What holds of a notifier by where it is; \<open>xs\<close> are the waiters it has popped and not yet signalled.\<close>

fun notifier_ok :: "Waiter list \<Rightarrow> nat \<Rightarrow> nat list \<Rightarrow> nat \<Rightarrow> nat list \<Rightarrow> notify_pc \<Rightarrow> bool" where
  "notifier_ok ws E stk E0 xs N_Idle = (xs = [])"
| "notifier_ok ws E stk E0 xs (N_Load all) = (xs = [])"
| "notifier_ok ws E stk E0 xs (N_Test all state) = (xs = [] \<and> (\<exists>stk0 p0. seen_ok ws E stk E0 state stk0 p0))"
| "notifier_ok ws E stk E0 xs (N_Cas all state newstate) = (xs = [] \<and> (\<exists>stk0 p0. seen_ok ws E stk E0 state stk0 p0
     \<and> (stk0 \<noteq> [] \<or> p0 \<noteq> 0) \<and> (E = E0 \<and> stk = stk0 \<longrightarrow> newstate = notify_word all state ws)))"
| "notifier_ok ws E stk E0 xs (N_Clear i) = (xs = [i])"
| "notifier_ok ws E stk E0 xs (N_Unpark w) = (linked ws xs \<and> w = list_head xs)"
| "notifier_ok ws E stk E0 xs (N_Signal i nx) = (\<exists>rest. xs = i # rest \<and> nx = list_head rest \<and> linked ws rest)"

definition in_flight :: "(nat \<Rightarrow> nat list) \<Rightarrow> nat set" where
  "in_flight fl = (\<Union>j. set (fl j))"

definition fine_sim :: "fine_sys \<Rightarrow> wn_sys \<Rightarrow> nat \<Rightarrow> nat list \<Rightarrow> (nat \<Rightarrow> nat list) \<Rightarrow> bool" where
  "fine_sim s a p stk fl \<longleftrightarrow>
     wn_core (sys_n a) (sys_pc a) (sys_E a) (sys_ticket a) p stk
     \<and> wn_state (sys_n a) = wn_state (f_n s) \<and> sys_E a = f_E s \<and> sys_ticket a = f_ticket s
     \<and> length (wn_waiters (f_n s)) = length (f_pc s) \<and> length (sys_pc a) = length (f_pc s)
     \<and> (\<forall>i<length (f_pc s). sys_pc a ! i = coarse_pc (wn_waiters (f_n s) ! i) (f_pc s ! i)
          \<and> w_epoch (wn_waiters (sys_n a) ! i) = w_epoch (wn_waiters (f_n s) ! i)
          \<and> w_state (wn_waiters (sys_n a) ! i) = (if i \<in> in_flight fl then kSignaled else w_state (wn_waiters (f_n s) ! i))
          \<and> waiter_ok (wn_waiters (f_n s) ! i) (f_pc s ! i))
     \<and> (\<forall>i\<in>set stk. w_next (wn_waiters (sys_n a) ! i) = w_next (wn_waiters (f_n s) ! i))
     \<and> (\<forall>i\<in>in_flight fl. i < length (f_pc s) \<and> f_pc s ! i \<in> {F_Park, F_Wait} \<and> w_state (wn_waiters (f_n s) ! i) \<noteq> kSignaled)
     \<and> (\<forall>j. distinct (fl j)) \<and> (\<forall>j k. j \<noteq> k \<longrightarrow> set (fl j) \<inter> set (fl k) = {})
     \<and> (\<forall>j<length (f_np s). notifier_ok (wn_waiters (f_n s)) (f_E s) stk (f_seen s j) (fl j) (f_np s ! j))
     \<and> (\<forall>j\<ge>length (f_np s). fl j = [])"


lemma fine_simI:
  assumes "wn_core (sys_n a) (sys_pc a) (sys_E a) (sys_ticket a) p stk"
    "wn_state (sys_n a) = wn_state (f_n s)" "sys_E a = f_E s" "sys_ticket a = f_ticket s"
    "length (wn_waiters (f_n s)) = length (f_pc s)" "length (sys_pc a) = length (f_pc s)"
    "\<And>i. i < length (f_pc s) \<Longrightarrow> sys_pc a ! i = coarse_pc (wn_waiters (f_n s) ! i) (f_pc s ! i)
          \<and> w_epoch (wn_waiters (sys_n a) ! i) = w_epoch (wn_waiters (f_n s) ! i)
          \<and> w_state (wn_waiters (sys_n a) ! i) = (if i \<in> in_flight fl then kSignaled else w_state (wn_waiters (f_n s) ! i))
          \<and> waiter_ok (wn_waiters (f_n s) ! i) (f_pc s ! i)"
    "\<And>i. i \<in> set stk \<Longrightarrow> w_next (wn_waiters (sys_n a) ! i) = w_next (wn_waiters (f_n s) ! i)"
    "\<And>i. i \<in> in_flight fl \<Longrightarrow> i < length (f_pc s) \<and> f_pc s ! i \<in> {F_Park, F_Wait} \<and> w_state (wn_waiters (f_n s) ! i) \<noteq> kSignaled"
    "\<And>j. distinct (fl j)" "\<And>j k. j \<noteq> k \<Longrightarrow> set (fl j) \<inter> set (fl k) = {}"
    "\<And>j. j < length (f_np s) \<Longrightarrow> notifier_ok (wn_waiters (f_n s)) (f_E s) stk (f_seen s j) (fl j) (f_np s ! j)"
    "\<And>j. length (f_np s) \<le> j \<Longrightarrow> fl j = []"
  shows "fine_sim s a p stk fl"
  using assms unfolding fine_sim_def by (intro conjI ballI allI impI) blast+

lemma fine_simD:
  assumes "fine_sim s a p stk fl"
  shows "wn_core (sys_n a) (sys_pc a) (sys_E a) (sys_ticket a) p stk"
    "wn_state (sys_n a) = wn_state (f_n s)" "sys_E a = f_E s" "sys_ticket a = f_ticket s"
    "length (wn_waiters (f_n s)) = length (f_pc s)" "length (sys_pc a) = length (f_pc s)"
    "\<And>i. i < length (f_pc s) \<Longrightarrow> sys_pc a ! i = coarse_pc (wn_waiters (f_n s) ! i) (f_pc s ! i)"
    "\<And>i. i < length (f_pc s) \<Longrightarrow> w_epoch (wn_waiters (sys_n a) ! i) = w_epoch (wn_waiters (f_n s) ! i)"
    "\<And>i. i < length (f_pc s) \<Longrightarrow> w_state (wn_waiters (sys_n a) ! i) = (if i \<in> in_flight fl then kSignaled else w_state (wn_waiters (f_n s) ! i))"
    "\<And>i. i < length (f_pc s) \<Longrightarrow> waiter_ok (wn_waiters (f_n s) ! i) (f_pc s ! i)"
    "\<And>i. i \<in> set stk \<Longrightarrow> w_next (wn_waiters (sys_n a) ! i) = w_next (wn_waiters (f_n s) ! i)"
    "\<And>i. i \<in> in_flight fl \<Longrightarrow> i < length (f_pc s) \<and> f_pc s ! i \<in> {F_Park, F_Wait} \<and> w_state (wn_waiters (f_n s) ! i) \<noteq> kSignaled"
    "\<And>j. distinct (fl j)" "\<And>j k. j \<noteq> k \<Longrightarrow> set (fl j) \<inter> set (fl k) = {}"
    "\<And>j. j < length (f_np s) \<Longrightarrow> notifier_ok (wn_waiters (f_n s)) (f_E s) stk (f_seen s j) (fl j) (f_np s ! j)"
    "\<And>j. length (f_np s) \<le> j \<Longrightarrow> fl j = []"
  using assms unfolding fine_sim_def by blast+

lemma linked_nexts: "linked ws xs \<Longrightarrow> (\<And>k. k \<in> set xs \<Longrightarrow> w_next (ws' ! k) = w_next (ws ! k)) \<Longrightarrow> linked ws' xs"
  using linked_cong by blast

lemma seen_top:
  assumes "seen_ok ws E stk E0 state stk0 p0"
  shows "unat (state AND kStackMask) = stack_field stk0" "state AND kStackMask = kStackMask \<longleftrightarrow> stk0 = []"
    "state AND kWaiterMask = 0 \<longleftrightarrow> p0 = 0" "prewaiters state = word_of_nat p0" "unat (prewaiters state) = p0"
proof -
  have st: "state = wn_word E0 p0 (stack_field stk0)" and p: "p0 < 2 ^ 16" and f: "stack_field stk0 < 2 ^ 16"
    and e: "stack_field stk0 = 65535 \<longleftrightarrow> stk0 = []"
    using assms by (auto simp: seen_ok_def stack_field_def split: list.splits)
  show "unat (state AND kStackMask) = stack_field stk0" "state AND kStackMask = kStackMask \<longleftrightarrow> stk0 = []"
    "state AND kWaiterMask = 0 \<longleftrightarrow> p0 = 0" "prewaiters state = word_of_nat p0"
    unfolding prewaiters_def st wn_word_fields [OF p f] wn_field_tests [OF f] wn_field_tests [OF p] e by (rule refl)+
  show "unat (prewaiters state) = p0" unfolding prewaiters_def st wn_word_fields [OF p f] wn_field_tests [OF p] by (rule refl)
qed

lemma notify_word_cong:
  assumes "seen_ok ws E stk E0 state stk0 p0" "stk0 \<noteq> [] \<or> p0 \<noteq> 0" "\<And>k. k \<in> set stk0 \<Longrightarrow> w_next (ws' ! k) = w_next (ws ! k)"
  shows "notify_word all state ws' = notify_word all state ws"
proof (cases stk0)
  case Nil
  then have "p0 \<noteq> 0" using assms(2) by simp
  then have "prewaiters state \<noteq> 0" using seen_top(5) [OF assms(1)] by auto
  then show ?thesis by (simp add: notify_word_def)
next
  case (Cons x xs)
  then have "w_next (ws' ! unat (state AND kStackMask)) = w_next (ws ! unat (state AND kStackMask))"
    using assms(3) unfolding seen_top(1) [OF assms(1)] by (simp add: stack_field_def)
  then show ?thesis by (simp add: notify_word_def)
qed

text \<open>The other threads: the decisions only grow, without a new one waiters are only popped, and nobody writes to the
  waiters that a notifier has popped.\<close>

lemma notifier_ok_frame:
  assumes ok: "notifier_ok ws E stk E0 xs q" and E: "E \<le> E'" and len: "length ws' = length ws"
    and stk: "E = E' \<Longrightarrow> suffix stk' stk" "\<And>k. E = E' \<Longrightarrow> k \<in> set stk' \<Longrightarrow> w_next (ws' ! k) = w_next (ws ! k)"
    and xs: "\<And>k. k \<in> set xs \<Longrightarrow> w_next (ws' ! k) = w_next (ws ! k)"
  shows "notifier_ok ws' E' stk' E0 xs q"
proof -
  have seen: "seen_ok ws' E' stk' E0 state stk0 p0" if "seen_ok ws E stk E0 state stk0 p0" for state stk0 p0
    using that E len stk(1) by (auto simp: seen_ok_def intro: suffix_order.trans)
  show ?thesis
  proof (cases q)
    case (N_Cas all state newstate)
    then obtain stk0 p0 where s: "seen_ok ws E stk E0 state stk0 p0" "stk0 \<noteq> [] \<or> p0 \<noteq> 0"
      and new: "E = E0 \<Longrightarrow> stk = stk0 \<Longrightarrow> newstate = notify_word all state ws" and xs: "xs = []" using ok by auto
    have "newstate = notify_word all state ws'" if eq: "E' = E0" "stk' = stk0"
    proof -
      have e: "E = E0" using s(1) E eq by (simp add: seen_ok_def)
      then have "suffix stk' stk" "suffix stk stk0" using s(1) stk(1) eq by (auto simp: seen_ok_def)
      then have "stk = stk0" using eq suffix_order.antisym by blast
      with new e notify_word_cong [OF s, of ws'] stk(2) eq show ?thesis by simp
    qed
    with N_Cas xs seen [OF s(1)] s(2) show ?thesis by auto
  next
    case (N_Signal i nx)
    with ok xs linked_nexts [of ws _ ws'] show ?thesis by fastforce
  next
    case (N_Test all state)
    then obtain stk0 p0 where "seen_ok ws E stk E0 state stk0 p0" "xs = []" using ok by auto
    then show ?thesis using N_Test seen by auto blast
  qed (use ok xs linked_nexts [of ws xs ws'] in auto)
qed

text \<open>A step of waiter \<open>i\<close>, with what it does to the coarse state.\<close>

lemma fine_sim_waiter:
  assumes sim: "fine_sim s a p stk fl" and i: "i < length (f_pc s)"
    and core: "wn_core na' ((sys_pc a)[i := coarse_pc w' pc']) E' tk' p' stk'"
    and na: "wn_waiters na' = (wn_waiters (sys_n a))[i := v']" "w_epoch v' = w_epoch w'"
    and stk: "\<And>k. k \<in> set stk' \<Longrightarrow> k \<noteq> i \<Longrightarrow> k \<in> set stk" "i \<in> set stk' \<Longrightarrow> w_next v' = w_next w'"
    and out: "i \<notin> in_flight fl \<Longrightarrow> w_state v' = w_state w'"
    and inf: "i \<in> in_flight fl \<Longrightarrow> w_state v' = kSignaled \<and> w_state w' \<noteq> kSignaled \<and> pc' \<in> {F_Park, F_Wait}
      \<and> w_next w' = w_next (wn_waiters (f_n s) ! i)"
    and ok: "waiter_ok w' pc'"
    and E: "f_E s \<le> E'" "f_E s = E' \<Longrightarrow> suffix stk' stk \<and> (i \<in> set stk' \<longrightarrow> w_next w' = w_next (wn_waiters (f_n s) ! i))"
    and s': "f_n s' = \<lparr>wn_state = wn_state na', wn_waiters = (wn_waiters (f_n s))[i := w']\<rparr>"
      "f_pc s' = (f_pc s)[i := pc']" "f_np s' = f_np s" "f_E s' = E'" "f_ticket s' = tk'" "f_seen s' = f_seen s"
  shows "fine_sim s' (a\<lparr>sys_n := na', sys_pc := (sys_pc a)[i := coarse_pc w' pc'], sys_E := E', sys_ticket := tk'\<rparr>) p' stk' fl"
proof -
  let ?ws = "wn_waiters (f_n s)" and ?aw = "wn_waiters (sys_n a)"
  have len: "length ?ws = length (f_pc s)" "length (sys_pc a) = length (f_pc s)" "length ?aw = length (f_pc s)"
    using sim by (auto simp: fine_sim_def wn_core_def)
  have each: "(sys_pc a)[i := coarse_pc w' pc'] ! k = coarse_pc ((?ws[i := w']) ! k) ((f_pc s)[i := pc'] ! k)
      \<and> w_epoch ((?aw[i := v']) ! k) = w_epoch ((?ws[i := w']) ! k)
      \<and> w_state ((?aw[i := v']) ! k) = (if k \<in> in_flight fl then kSignaled else w_state ((?ws[i := w']) ! k))
      \<and> waiter_ok ((?ws[i := w']) ! k) ((f_pc s)[i := pc'] ! k)" if "k < length (f_pc s)" for k
    using that sim i len na(2) out inf ok by (cases "k = i") (auto simp: fine_sim_def)
  have nexts: "w_next ((?aw[i := v']) ! k) = w_next ((?ws[i := w']) ! k)" if "k \<in> set stk'" for k
    using that sim i len stk by (cases "k = i") (auto simp: fine_sim_def)
  have fl: "k < length (f_pc s) \<and> (f_pc s)[i := pc'] ! k \<in> {F_Park, F_Wait} \<and> w_state ((?ws[i := w']) ! k) \<noteq> kSignaled"
    if "k \<in> in_flight fl" for k
    using that sim i len inf by (cases "k = i") (auto simp: fine_sim_def)
  have notif: "notifier_ok (?ws[i := w']) E' stk' (f_seen s j) (fl j) (f_np s ! j)" if j: "j < length (f_np s)" for j
  proof (rule notifier_ok_frame [where stk = stk])
    show "notifier_ok ?ws (f_E s) stk (f_seen s j) (fl j) (f_np s ! j)" using sim j by (simp add: fine_sim_def)
    show "w_next ((?ws[i := w']) ! k) = w_next (?ws ! k)" if "f_E s = E'" "k \<in> set stk'" for k
      using that E(2) i len by (cases "k = i") auto
    show "w_next ((?ws[i := w']) ! k) = w_next (?ws ! k)" if "k \<in> set (fl j)" for k
      using that inf i len by (cases "k = i") (auto simp: in_flight_def)
  qed (use E in auto)
  show ?thesis
  proof (rule fine_simI)
  qed (use core each nexts fl notif len fine_simD(13,14,16) [OF sim] in \<open>simp_all add: s' na\<close>)
qed

section \<open>The steps of a waiter\<close>

lemma wait_test_cong: "w_epoch w = w_epoch v \<Longrightarrow> wait_test w state = wait_test v state"
  by (simp add: wait_test_def wait_epoch_def)

lemma iter_test:
  "commit_iter i n = (case wait_test (wn_waiters n ! i) (wn_state n) of
      WR_done \<Rightarrow> (WR_done, (set_waiter i (w_next_update (\<lambda>_. next_of (wn_state n))) n)
         \<lparr>wn_state := ((wn_state n - kWaiterInc + kEpochInc) AND NOT kStackMask) OR word_of_nat i\<rparr>)
    | r \<Rightarrow> (r, n))"
  "cancel_iter i n = (case wait_test (wn_waiters n ! i) (wn_state n) of
      WR_done \<Rightarrow> (WR_done, n\<lparr>wn_state := wn_state n - kWaiterInc + kEpochInc\<rparr>)
    | r \<Rightarrow> (r, n))"
  by (simp_all add: commit_iter_def cancel_iter_def wait_test_def set_waiter_def next_of_def Let_def)

lemma wait_test_expected:
  assumes c: "wn_core n pcs E tk p stk" and i: "i < length pcs" "undecided (pcs ! i)" and t: "E < tk i + 2 ^ 31"
  shows "wait_test (wn_waiters n ! i) (wn_state n) = expected E (tk i)"
proof -
  have rep: "wn_rep n E p stk" using c by (simp add: wn_core_def)
  note f = ticket_facts [OF c i]
  show ?thesis using wait_branch [OF rep f(1) t f(2)] f(3) by (auto simp: wait_test_def expected_def)
qed

text \<open>The coarse waiter as the fine one sees it.\<close>

lemma coarse_waiter:
  assumes "fine_sim s a p stk fl" "i < length (f_pc s)" "f_pc s ! i \<notin> {F_Park, F_Wait}"
  shows "i \<notin> in_flight fl" "i \<notin> set stk"
proof -
  show "i \<notin> in_flight fl" using fine_simD(12) [OF assms(1), of i] assms(3) by blast
  have "sys_pc a ! i \<noteq> WParked" using fine_simD(7) [OF assms(1,2)] assms(3) by (cases "f_pc s ! i") auto
  then show "i \<notin> set stk" using fine_simD(1,6) [OF assms(1)] assms(2) by (simp add: wn_core_def)
qed

abbreviation waiter_at :: "fine_sys \<Rightarrow> nat \<Rightarrow> Waiter" where
  "waiter_at s i \<equiv> wn_waiters (f_n s) ! i"

text \<open>Steps that the coarse system does not see.\<close>

lemma fine_sim_silent:
  assumes sim: "fine_sim s a p stk fl" and i: "i < length (f_pc s)"
    and w: "w_epoch w' = w_epoch (waiter_at s i)" "coarse_pc w' pc' = coarse_pc (waiter_at s i) (f_pc s ! i)" "waiter_ok w' pc'"
    and st: "i \<notin> in_flight fl \<Longrightarrow> w_state w' = w_state (waiter_at s i)"
    and inf: "i \<in> in_flight fl \<Longrightarrow> w_state w' \<noteq> kSignaled \<and> pc' \<in> {F_Park, F_Wait}"
    and nx: "i \<in> set stk \<or> i \<in> in_flight fl \<Longrightarrow> w_next w' = w_next (waiter_at s i)"
    and s': "f_n s' = set_waiter i (\<lambda>_. w') (f_n s)" "f_pc s' = (f_pc s)[i := pc']" "f_np s' = f_np s" "f_E s' = f_E s"
      "f_ticket s' = f_ticket s" "f_seen s' = f_seen s"
  shows "fine_sim s' a p stk fl"
proof -
  note d = fine_simD [OF sim]
  have same: "(sys_pc a)[i := coarse_pc w' pc'] = sys_pc a" "(wn_waiters (sys_n a))[i := wn_waiters (sys_n a) ! i] = wn_waiters (sys_n a)"
    using w(2) d(7) [OF i] i d(6) by (simp_all add: list_update_same_conv)
  have "fine_sim s' (a\<lparr>sys_n := sys_n a, sys_pc := (sys_pc a)[i := coarse_pc w' pc'], sys_E := f_E s, sys_ticket := f_ticket s\<rparr>) p stk fl"
  proof (rule fine_sim_waiter [OF sim i, where v' = "wn_waiters (sys_n a) ! i" and w' = w'])
    show "wn_core (sys_n a) ((sys_pc a)[i := coarse_pc w' pc']) (f_E s) (f_ticket s) p stk" using d(1,3,4) same by simp
    show "f_n s' = \<lparr>wn_state = wn_state (sys_n a), wn_waiters = (wn_waiters (f_n s))[i := w']\<rparr>" using s'(1) d(2) by (simp add: set_waiter_def)
    show "w_state (wn_waiters (sys_n a) ! i) = w_state w'" if "i \<notin> in_flight fl" using that st d(9) [OF i] by simp
    show "w_state (wn_waiters (sys_n a) ! i) = kSignaled \<and> w_state w' \<noteq> kSignaled \<and> pc' \<in> {F_Park, F_Wait}
      \<and> w_next w' = w_next (waiter_at s i)" if "i \<in> in_flight fl" using that inf nx d(9) [OF i] by simp
    show "w_next (wn_waiters (sys_n a) ! i) = w_next w'" if "i \<in> set stk" using that nx d(11) by simp
  qed (use same w s' d(8) [OF i] nx in auto)
  moreover have "a\<lparr>sys_n := sys_n a, sys_pc := sys_pc a, sys_E := f_E s, sys_ticket := f_ticket s\<rparr> = a"
    using d(3,4) by simp
  ultimately show ?thesis using same(1) by simp
qed

definition followed :: "fine_sys \<Rightarrow> wn_sys \<Rightarrow> bool" where
  "followed s' a \<longleftrightarrow> (\<exists>a' p stk fl. (a' = a \<or> wn_step a a') \<and> fine_sim s' a' p stk fl)"

lemma followed_same: "fine_sim s' a p stk fl \<Longrightarrow> followed s' a"
  unfolding followed_def by blast

lemma followed_step: "wn_step a a' \<Longrightarrow> fine_sim s' a' p stk fl \<Longrightarrow> followed s' a"
  unfolding followed_def by blast

lemma follow_prepare:
  assumes sim: "fine_sim s a p stk fl" and i: "i < length (f_pc s)" "f_pc s ! i = F_Idle"
    and s': "s' = s\<lparr>f_n := prepare_wait i (f_n s), f_pc := (f_pc s)[i := F_Prepared], f_ticket := (f_ticket s)(i := f_E s + prewait (f_n s))\<rparr>"
  shows "followed s' a"
proof -
  note d = fine_simD [OF sim]
  have pc: "sys_pc a ! i = WIdle" using d(7) [OF i(1)] i(2) by simp
  have i': "i < length (sys_pc a)" using i d(6) by simp
  have out: "i \<notin> in_flight fl" "i \<notin> set stk" using coarse_waiter [OF sim i(1)] i(2) by auto
  have "prewait (sys_n a) = p" using d(1) prewait_rep by (auto simp: wn_core_def)
  then have pw: "prewait (sys_n a) = p" "prewait (f_n s) = p" using d(2) by (simp_all add: prewait_def)
  let ?a = "a\<lparr>sys_n := prepare_wait i (sys_n a), sys_pc := (sys_pc a)[i := WPrepared], sys_ticket := (sys_ticket a)(i := sys_E a + prewait (sys_n a))\<rparr>"
  have step: "wn_step a ?a" by (rule ws_prepare [OF i' pc])
  have "fine_sim s' (a\<lparr>sys_n := prepare_wait i (sys_n a), sys_pc := (sys_pc a)[i := coarse_pc ((waiter_at s i)\<lparr>w_epoch := wn_state (f_n s)\<rparr>) F_Prepared],
      sys_E := sys_E a, sys_ticket := (sys_ticket a)(i := sys_E a + prewait (sys_n a))\<rparr>) (Suc p) stk fl"
    by (rule fine_sim_waiter [OF sim i(1), where v' = "(wn_waiters (sys_n a) ! i)\<lparr>w_epoch := wn_state (sys_n a)\<rparr>"])
      (use core_prepare [OF d(1) i' pc] out pw d(2-4) d(9) [OF i(1)] in \<open>simp_all add: s' prepare_wait_def\<close>)
  then have "fine_sim s' ?a (Suc p) stk fl" by simp
  with step show ?thesis by (rule followed_step)
qed

lemma follow_begin:
  assumes sim: "fine_sim s a p stk fl" and i: "i < length (f_pc s)" "f_pc s ! i = F_Prepared"
    and s': "s' = s\<lparr>f_n := commit_begin i (f_n s), f_pc := (f_pc s)[i := F_Load]\<rparr>"
  shows "followed s' a"
proof -
  note d = fine_simD [OF sim]
  have pc: "sys_pc a ! i = WPrepared" using d(7) [OF i(1)] i(2) by simp
  have i': "i < length (sys_pc a)" using i d(6) by simp
  have out: "i \<notin> in_flight fl" "i \<notin> set stk" using coarse_waiter [OF sim i(1)] i(2) by auto
  let ?a = "a\<lparr>sys_n := commit_begin i (sys_n a), sys_pc := (sys_pc a)[i := WCommitting]\<rparr>"
  have step: "wn_step a ?a" by (rule ws_commit [OF i' pc])
  have "fine_sim s' (a\<lparr>sys_n := commit_begin i (sys_n a), sys_pc := (sys_pc a)[i := coarse_pc ((waiter_at s i)\<lparr>w_state := kNotSignaled\<rparr>) F_Load],
      sys_E := sys_E a, sys_ticket := sys_ticket a\<rparr>) p stk fl"
    by (rule fine_sim_waiter [OF sim i(1), where v' = "(wn_waiters (sys_n a) ! i)\<lparr>w_state := kNotSignaled\<rparr>"])
      (use core_begin [OF d(1) i' pc] out d(2-4) d(8) [OF i(1)] in \<open>simp_all add: s' commit_begin_def\<close>)
  then have "fine_sim s' ?a p stk fl" by simp
  with step show ?thesis by (rule followed_step)
qed

text \<open>A load of the word, the first one or the one of a failed exchange: the waiter that learns it is notified has decided.\<close>

lemma undecided_timely:
  assumes "fine_sim s a p stk fl" "fine_timely s" "i < length (f_pc s)" "undecided (sys_pc a ! i)"
  shows "sys_E a < sys_ticket a i + 2 ^ 31"
  using assms fine_simD(3,4,7) [OF assms(1)] by (simp add: fine_timely_def)

lemma follow_load:
  assumes sim: "fine_sim s a p stk fl" and tm: "fine_timely s" and i: "i < length (f_pc s)"
    and pc: "f_pc s ! i = F_Load \<or> f_pc s ! i = F_Cas state \<and> pc' = F_Test (wn_state (f_n s))
      \<or> f_pc s ! i = F_Cancel_Load \<or> f_pc s ! i = F_Cancel_Cas state"
    and pc': "pc' = (if f_pc s ! i \<in> {F_Load, F_Cas state} then F_Test (wn_state (f_n s)) else F_Cancel_Test (wn_state (f_n s)))"
    and s': "s' = s\<lparr>f_pc := (f_pc s)[i := pc']\<rparr>"
  shows "followed s' a"
proof -
  note d = fine_simD [OF sim]
  have u: "undecided (sys_pc a ! i)" using d(7) [OF i] pc by auto
  have i': "i < length (sys_pc a)" using i d(6) by simp
  have out: "i \<notin> in_flight fl" "i \<notin> set stk" using coarse_waiter [OF sim i] pc by auto
  have test: "wait_test (waiter_at s i) (wn_state (f_n s)) = expected (sys_E a) (sys_ticket a i)"
    using wait_test_expected [OF d(1) i' u undecided_timely [OF sim tm i u]] wait_test_cong [OF d(8) [OF i]] d(2) by simp
  have ok: "waiter_ok (waiter_at s i) pc'" using d(10) [OF i] pc pc' test by (auto simp: expected_def)
  have n: "f_n s = set_waiter i (\<lambda>_. waiter_at s i) (f_n s)" by (simp add: set_waiter_def)
  show ?thesis
  proof (cases "sys_ticket a i < sys_E a")
    case True
    then have r: "expected (sys_E a) (sys_ticket a i) = WR_notified" by (simp add: expected_def)
    then have c: "coarse_pc (waiter_at s i) pc' = WIdle" using test pc' by simp
    let ?a = "a\<lparr>sys_n := sys_n a, sys_pc := (sys_pc a)[i := WIdle], sys_E := sys_E a + 0\<rparr>"
    have "wait_test (wn_waiters (sys_n a) ! i) (wn_state (sys_n a)) = WR_notified"
      using test r wait_test_cong [OF d(8) [OF i]] d(2) by simp
    then have it: "commit_iter i (sys_n a) = (WR_notified, sys_n a)" "cancel_iter i (sys_n a) = (WR_notified, sys_n a)"
      by (simp_all add: iter_test)
    have step: "wn_step a ?a"
      using ws_commit_iter [OF i' _ it(1)] ws_cancel_iter [OF i' _ it(2)] d(7) [OF i] pc by auto
    have "fine_sim s' (a\<lparr>sys_n := sys_n a, sys_pc := (sys_pc a)[i := coarse_pc (waiter_at s i) pc'], sys_E := sys_E a, sys_ticket := sys_ticket a\<rparr>) p stk fl"
      by (rule fine_sim_waiter [OF sim i, where v' = "wn_waiters (sys_n a) ! i"])
        (use core_overtaken [OF d(1) i' u True] out d(2-4) d(8,9) [OF i] ok c in \<open>simp_all add: s'\<close>)
    then have "fine_sim s' ?a p stk fl" using c by simp
    with step show ?thesis by (rule followed_step)
  next
    case False
    then have "coarse_pc (waiter_at s i) pc' = coarse_pc (waiter_at s i) (f_pc s ! i)"
      using test pc pc' by (auto simp: expected_def)
    then have "fine_sim s' a p stk fl" using ok out n by (intro fine_sim_silent [OF sim i, where w' = "waiter_at s i"]) (simp_all add: s')
    then show ?thesis by (rule followed_same)
  qed
qed

text \<open>The branches on what was read are the waiter's own business.\<close>

lemma follow_test:
  assumes sim: "fine_sim s a p stk fl" and i: "i < length (f_pc s)"
    and step: "f_pc s ! i = F_Test state \<and> commit_wait_step fails i (F_Test state) (f_n s) = Some (pc', n', d)
      \<or> f_pc s ! i = F_Cancel_Test state \<and> cancel_wait_step fails i (F_Cancel_Test state) (f_n s) = Some (pc', n', d)
      \<or> f_pc s ! i = F_Prepared \<and> cancel_wait_step fails i F_Prepared (f_n s) = Some (pc', n', d)"
    and s': "s' = s\<lparr>f_n := n', f_pc := (f_pc s)[i := pc'], f_E := f_E s + d\<rparr>"
  shows "followed s' a"
proof -
  note d = fine_simD [OF sim]
  have out: "i \<notin> in_flight fl" "i \<notin> set stk" using coarse_waiter [OF sim i] step by auto
  let ?w = "if pc' = F_Cas state then (waiter_at s i)\<lparr>w_next := next_of state\<rparr> else waiter_at s i"
  have w: "wait_test ?w state = wait_test (waiter_at s i) state" by (rule wait_test_cong) simp
  have "coarse_pc ?w pc' = coarse_pc (waiter_at s i) (f_pc s ! i) \<and> waiter_ok ?w pc' \<and> d = 0
      \<and> n' = set_waiter i (\<lambda>_. ?w) (f_n s)"
    using step d(10) [OF i] w by (auto simp: set_waiter_def split: wait_result.splits)
  then have "fine_sim s' a p stk fl" using out by (intro fine_sim_silent [OF sim i, where w' = ?w]) (simp_all add: s')
  then show ?thesis by (rule followed_same)
qed

text \<open>An exchange that succeeds found the word it was computed from, and decides.\<close>

lemma decided_stack:
  assumes "wn_core n pcs E tk p stk" "wn_core n' (pcs[i := c]) E' tk' p' stk'" "i < length pcs"
    and "\<And>k. w_state (wn_waiters n' ! k) = w_state (wn_waiters n ! k)"
  shows "k \<in> set stk' \<Longrightarrow> k \<noteq> i \<Longrightarrow> k \<in> set stk" "c \<noteq> WParked \<Longrightarrow> i \<notin> set stk'"
proof -
  have k: "k < length pcs" if "k \<in> set stk'" for k using that assms(2) by (auto simp: wn_core_def wn_rep_def)
  show "k \<in> set stk" if "k \<in> set stk'" "k \<noteq> i"
    using assms that k [OF that(1)] by (simp add: wn_core_def)
  show "i \<notin> set stk'" if "c \<noteq> WParked" using assms(2,3) that by (simp add: wn_core_def)
qed

lemma follow_commit_cas:
  assumes sim: "fine_sim s a p stk fl" and tm: "fine_timely s" and i: "i < length (f_pc s)"
    and pc: "f_pc s ! i = F_Cas (wn_state (f_n s))"
    and s': "s' = s\<lparr>f_n := (f_n s)\<lparr>wn_state := ((wn_state (f_n s) - kWaiterInc + kEpochInc) AND NOT kStackMask) OR word_of_nat i\<rparr>,
      f_pc := (f_pc s)[i := F_Park], f_E := f_E s + 1\<rparr>"
  shows "followed s' a"
proof -
  note d = fine_simD [OF sim]
  have pca: "sys_pc a ! i = WCommitting" using d(7) [OF i] pc by simp
  have i': "i < length (sys_pc a)" using i d(6) by simp
  have out: "i \<notin> in_flight fl" "i \<notin> set stk" using coarse_waiter [OF sim i] pc by auto
  have test: "wait_test (wn_waiters (sys_n a) ! i) (wn_state (sys_n a)) = WR_done" "w_next (waiter_at s i) = next_of (wn_state (sys_n a))"
    "w_state (waiter_at s i) = kNotSignaled"
    using d(10) [OF i] pc wait_test_cong [OF d(8) [OF i]] d(2) by simp_all
  let ?na = "(set_waiter i (w_next_update (\<lambda>_. next_of (wn_state (sys_n a)))) (sys_n a))
    \<lparr>wn_state := ((wn_state (sys_n a) - kWaiterInc + kEpochInc) AND NOT kStackMask) OR word_of_nat i\<rparr>"
  have it: "commit_iter i (sys_n a) = (WR_done, ?na)" using test by (simp add: iter_test)
  have step: "wn_step a (a\<lparr>sys_n := ?na, sys_pc := (sys_pc a)[i := after_commit WR_done], sys_E := sys_E a + decided WR_done\<rparr>)"
    by (rule ws_commit_iter [OF i' pca it])
  obtain p' stk' where c: "wn_core ?na ((sys_pc a)[i := WParked]) (Suc (sys_E a)) (sys_ticket a) p' stk'"
    using core_commit [OF d(1) i' pca undecided_timely [OF sim tm i]] it pca by (auto simp: expected_def split: if_splits)
  have st: "w_state (wn_waiters ?na ! k) = w_state (wn_waiters (sys_n a) ! k)" for k
    using i' d(1) by (cases "k = i") (auto simp: set_waiter_def wn_core_def)
  note stk = decided_stack [OF d(1) c i' st]
  have "fine_sim s' (a\<lparr>sys_n := ?na, sys_pc := (sys_pc a)[i := coarse_pc (waiter_at s i) F_Park], sys_E := Suc (sys_E a), sys_ticket := sys_ticket a\<rparr>) p' stk' fl"
    by (rule fine_sim_waiter [OF sim i, where v' = "(wn_waiters (sys_n a) ! i)\<lparr>w_next := next_of (wn_state (sys_n a))\<rparr>"])
      (use c stk out test d(2-4) d(8,9) [OF i] in \<open>simp_all add: s' set_waiter_def\<close>)
  then show ?thesis using step by (intro followed_step [OF step]) simp
qed

lemma follow_cancel_cas:
  assumes sim: "fine_sim s a p stk fl" and tm: "fine_timely s" and i: "i < length (f_pc s)"
    and pc: "f_pc s ! i = F_Cancel_Cas (wn_state (f_n s))"
    and s': "s' = s\<lparr>f_n := (f_n s)\<lparr>wn_state := wn_state (f_n s) - kWaiterInc + kEpochInc\<rparr>,
      f_pc := (f_pc s)[i := F_Idle], f_E := f_E s + 1\<rparr>"
  shows "followed s' a"
proof -
  note d = fine_simD [OF sim]
  have pca: "sys_pc a ! i = WPrepared" using d(7) [OF i] pc by simp
  have i': "i < length (sys_pc a)" using i d(6) by simp
  have out: "i \<notin> in_flight fl" "i \<notin> set stk" using coarse_waiter [OF sim i] pc by auto
  have "wait_test (wn_waiters (sys_n a) ! i) (wn_state (sys_n a)) = WR_done"
    using d(10) [OF i] pc wait_test_cong [OF d(8) [OF i]] d(2) by simp
  then have it: "cancel_iter i (sys_n a) = (WR_done, (sys_n a)\<lparr>wn_state := wn_state (sys_n a) - kWaiterInc + kEpochInc\<rparr>)" (is "_ = (_, ?na)")
    by (simp add: iter_test)
  have step: "wn_step a (a\<lparr>sys_n := ?na, sys_pc := (sys_pc a)[i := after_cancel WR_done], sys_E := sys_E a + decided WR_done\<rparr>)"
    by (rule ws_cancel_iter [OF i' pca it])
  obtain p' stk' where c: "wn_core ?na ((sys_pc a)[i := WIdle]) (Suc (sys_E a)) (sys_ticket a) p' stk'"
    using core_cancel [OF d(1) i' pca undecided_timely [OF sim tm i]] it pca by (auto simp: expected_def split: if_splits)
  note stk = decided_stack [OF d(1) c i']
  have "fine_sim s' (a\<lparr>sys_n := ?na, sys_pc := (sys_pc a)[i := coarse_pc (waiter_at s i) F_Idle], sys_E := Suc (sys_E a), sys_ticket := sys_ticket a\<rparr>) p' stk' fl"
    by (rule fine_sim_waiter [OF sim i, where v' = "wn_waiters (sys_n a) ! i"])
      (use c stk out d(2-4) d(8,9) [OF i] in \<open>simp_all add: s'\<close>)
  then show ?thesis using step by (intro followed_step [OF step]) simp
qed

lemma follow_park:
  assumes sim: "fine_sim s a p stk fl" and i: "i < length (f_pc s)" and pc: "f_pc s ! i \<in> {F_Park, F_Wait}"
    and step: "commit_wait_step fails i (f_pc s ! i) (f_n s) = Some (pc', n', d)"
    and s': "s' = s\<lparr>f_n := n', f_pc := (f_pc s)[i := pc'], f_E := f_E s + d\<rparr>"
  shows "followed s' a"
proof -
  note d = fine_simD [OF sim]
  have pca: "sys_pc a ! i = WParked" using d(7) [OF i] pc by auto
  have i': "i < length (sys_pc a)" using i d(6) by simp
  show ?thesis
  proof (cases "w_state (waiter_at s i) = kSignaled")
    case True
    then have out: "i \<notin> in_flight fl" using d(12) by blast
    then have sg: "w_state (wn_waiters (sys_n a) ! i) = kSignaled" using d(9) [OF i] True by simp
    have "i \<notin> set stk" using d(1) i' sg by (simp add: wn_core_def)
    moreover have park: "park_iter i (sys_n a) = (True, sys_n a)" using sg by (simp add: park_iter_def)
    moreover have "pc' = F_Idle" "n' = f_n s" "d = 0" using step pc True by (auto split: if_splits)
    ultimately have "fine_sim s' (a\<lparr>sys_n := sys_n a, sys_pc := (sys_pc a)[i := coarse_pc (waiter_at s i) F_Idle], sys_E := sys_E a, sys_ticket := sys_ticket a\<rparr>) p stk fl"
      by (intro fine_sim_waiter [OF sim i, where v' = "wn_waiters (sys_n a) ! i"])
        (use core_park [OF d(1) i' pca park] out d(2-4) d(8) [OF i] sg True in \<open>simp_all add: s'\<close>)
    then show ?thesis by (intro followed_step [OF ws_park [OF i' pca park]]) simp
  next
    case False
    let ?w = "(waiter_at s i)\<lparr>w_state := kWaiting\<rparr>"
    have e: "pc' = F_Wait" "n' = set_waiter i (\<lambda>_. ?w) (f_n s)" "d = 0" "w_state (waiter_at s i) = kNotSignaled"
      using step pc False d(10) [OF i] by (auto simp: set_waiter_def split: if_splits) (metis waiter_state.exhaust)+
    show ?thesis
    proof (cases "i \<in> in_flight fl")
      case True
      then have "fine_sim s' a p stk fl"
        using e pc by (intro fine_sim_silent [OF sim i, where w' = ?w and pc' = F_Wait]) (auto simp: s')
      then show ?thesis by (rule followed_same)
    next
      case out: False
      let ?na = "(sys_n a)\<lparr>wn_waiters := (wn_waiters (sys_n a))[i := (wn_waiters (sys_n a) ! i)\<lparr>w_state := kWaiting\<rparr>]\<rparr>"
      have park: "park_iter i (sys_n a) = (False, ?na)" using d(9) [OF i] out e(4) by (simp add: park_iter_def)
      have "fine_sim s' (a\<lparr>sys_n := ?na, sys_pc := (sys_pc a)[i := coarse_pc ?w F_Wait], sys_E := sys_E a, sys_ticket := sys_ticket a\<rparr>) p stk fl"
        by (rule fine_sim_waiter [OF sim i, where v' = "(wn_waiters (sys_n a) ! i)\<lparr>w_state := kWaiting\<rparr>"])
          (use core_park [OF d(1) i' pca park] out d(2-4) d(8) [OF i] d(11) e in \<open>simp_all add: s' set_waiter_def\<close>)
      then show ?thesis by (intro followed_step [OF ws_park [OF i' pca park]]) simp
    qed
  qed
qed

lemma follow_waiter:
  assumes sim: "fine_sim s a p stk fl" and tm: "fine_timely s" and i: "i < length (f_pc s)"
    and step: "commit_wait_step fails i (f_pc s ! i) (f_n s) = Some (pc', n', d) \<or> cancel_wait_step fails i (f_pc s ! i) (f_n s) = Some (pc', n', d)"
  shows "followed (s\<lparr>f_n := n', f_pc := (f_pc s)[i := pc'], f_E := f_E s + d\<rparr>) a" (is "followed ?s a")
proof -
  have refl: "s\<lparr>f_n := f_n s, f_pc := q, f_E := f_E s\<rparr> = s\<lparr>f_pc := q\<rparr>" for q by simp
  note load = follow_load [OF sim tm i]
  show ?thesis
  proof (cases "f_pc s ! i")
    case F_Prepared
    with step show ?thesis using follow_begin [OF sim i, of ?s] follow_test [OF sim i, of _ fails pc' n' d ?s] by auto
  next
    case (F_Test state)
    with step show ?thesis using follow_test [OF sim i, of state fails pc' n' d ?s] by auto
  next
    case (F_Cancel_Test state)
    with step show ?thesis using follow_test [OF sim i, of state fails pc' n' d ?s] by auto
  next
    case (F_Cas state)
    with step show ?thesis
      using follow_commit_cas [OF sim tm i, of ?s] load [of state pc' ?s] by (auto simp: refl split: if_splits)
  next
    case (F_Cancel_Cas state)
    with step show ?thesis
      using follow_cancel_cas [OF sim tm i, of ?s] load [of state pc' ?s] by (auto simp: refl split: if_splits)
  next
    case F_Park
    with step show ?thesis using follow_park [OF sim i, of fails pc' n' d ?s] by auto
  next
    case F_Wait
    with step show ?thesis using follow_park [OF sim i, of fails pc' n' d ?s] by auto
  qed (use step load [of 0 pc' ?s] in \<open>auto simp: refl\<close>)
qed

end
