(* ===== verification/Notifier_Wake.thy ===== *)
theory Notifier_Wake
  imports Notifier
begin

text \<open>
  The notifiers of \<open>include/ar/notifier.hpp\<close>, access by access (\<open>Notifier\<close>), and the refinement of \<open>Worker_Sleep\<close>: an
  exchange of \<open>notify\<close> that succeeds found the very stack it had read, though the word is all it compares.
\<close>

section \<open>The steps of a notifier\<close>

lemma coarse_pc_cong: "w_epoch w = w_epoch v \<Longrightarrow> coarse_pc w pc = coarse_pc v pc"
  using wait_test_cong [of w v] by (cases pc) simp_all

lemma in_flight_upd: "k \<in> in_flight (fl(j := xs)) \<longleftrightarrow> k \<in> set xs \<or> (\<exists>l. l \<noteq> j \<and> k \<in> set (fl l))"
  by (auto simp: in_flight_def)

lemma stack_waiter:
  assumes sim: "fine_sim s a p stk fl" and k: "k \<in> set stk"
  shows "k < length (f_pc s)" "f_pc s ! k \<in> {F_Park, F_Wait}" "w_state (waiter_at s k) \<noteq> kSignaled" "k \<notin> in_flight fl"
proof -
  note d = fine_simD [OF sim]
  have "k < length (sys_pc a)" using k d(1) by (auto simp: wn_core_def wn_rep_def)
  then have pc: "sys_pc a ! k = WParked" "w_state (wn_waiters (sys_n a) ! k) \<noteq> kSignaled" using k d(1) by (auto simp: wn_core_def)
  show l: "k < length (f_pc s)" using \<open>k < length (sys_pc a)\<close> d(6) by simp
  show "k \<notin> in_flight fl" "w_state (waiter_at s k) \<noteq> kSignaled" using d(9) [OF l] pc(2) by (auto split: if_splits)
  show "f_pc s ! k \<in> {F_Park, F_Wait}" using d(7) [OF l] pc(1) by (cases "f_pc s ! k") (auto split: if_splits)
qed

text \<open>A step of notifier \<open>j\<close>: it writes at most to the waiters it has popped, and then has popped \<open>xs'\<close>.\<close>

lemma fine_sim_notifier:
  assumes sim: "fine_sim s a p stk fl" and j: "j < length (f_np s)"
    and core: "wn_core na' (sys_pc a) E' (sys_ticket a) p' stk'"
    and len: "length ws' = length (wn_waiters (f_n s))"
    and each: "\<And>k. k < length (f_pc s) \<Longrightarrow> w_epoch (wn_waiters na' ! k) = w_epoch (ws' ! k) \<and> w_epoch (ws' ! k) = w_epoch (waiter_at s k)
      \<and> w_state (wn_waiters na' ! k) = (if k \<in> in_flight (fl(j := xs')) then kSignaled else w_state (ws' ! k)) \<and> waiter_ok (ws' ! k) (f_pc s ! k)"
    and stk: "\<And>k. k \<in> set stk' \<Longrightarrow> w_next (wn_waiters na' ! k) = w_next (waiter_at s k)" "set stk' \<subseteq> set stk"
    and others: "\<And>k. k \<notin> set (fl j) \<Longrightarrow> ws' ! k = waiter_at s k"
    and xs: "\<And>k. k \<in> set xs' \<Longrightarrow> k < length (f_pc s) \<and> f_pc s ! k \<in> {F_Park, F_Wait} \<and> w_state (ws' ! k) \<noteq> kSignaled"
      "distinct xs'" "\<And>l. l \<noteq> j \<Longrightarrow> set xs' \<inter> set (fl l) = {}"
    and E: "f_E s \<le> E'" "f_E s = E' \<Longrightarrow> suffix stk' stk"
    and own: "notifier_ok ws' E' stk' (f_seen s' j) xs' q'"
    and s': "f_n s' = \<lparr>wn_state = wn_state na', wn_waiters = ws'\<rparr>" "f_pc s' = f_pc s" "f_np s' = (f_np s)[j := q']"
      "f_E s' = E'" "f_ticket s' = f_ticket s" "\<And>l. l \<noteq> j \<Longrightarrow> f_seen s' l = f_seen s l"
  shows "fine_sim s' (a\<lparr>sys_n := na', sys_E := E'\<rparr>) p' stk' (fl(j := xs'))"
proof -
  note d = fine_simD [OF sim]
  have apart: "k \<notin> set (fl j)" if "k \<in> set (fl l)" "l \<noteq> j" for k l using that d(14) [of l j] by blast
  have fly: "k \<notin> set stk" if "k \<in> set (fl j)" for k using that stack_waiter [OF sim, of k] by (auto simp: in_flight_def)
  have kept: "ws' ! k = waiter_at s k" if "k \<in> set stk'" for k using that stk(2) others fly by blast
  show ?thesis
  proof (rule fine_simI)
    show "wn_core (sys_n (a\<lparr>sys_n := na', sys_E := E'\<rparr>)) (sys_pc (a\<lparr>sys_n := na', sys_E := E'\<rparr>)) (sys_E (a\<lparr>sys_n := na', sys_E := E'\<rparr>))
        (sys_ticket (a\<lparr>sys_n := na', sys_E := E'\<rparr>)) p' stk'" using core by simp
    show "sys_pc (a\<lparr>sys_n := na', sys_E := E'\<rparr>) ! k = coarse_pc (waiter_at s' k) (f_pc s' ! k)
        \<and> w_epoch (wn_waiters (sys_n (a\<lparr>sys_n := na', sys_E := E'\<rparr>)) ! k) = w_epoch (waiter_at s' k)
        \<and> w_state (wn_waiters (sys_n (a\<lparr>sys_n := na', sys_E := E'\<rparr>)) ! k) = (if k \<in> in_flight (fl(j := xs')) then kSignaled else w_state (waiter_at s' k))
        \<and> waiter_ok (waiter_at s' k) (f_pc s' ! k)" if "k < length (f_pc s')" for k
      using that each [of k] d(7) [of k] coarse_pc_cong [of "ws' ! k" "waiter_at s k"] by (simp add: s')
    show "w_next (wn_waiters (sys_n (a\<lparr>sys_n := na', sys_E := E'\<rparr>)) ! k) = w_next (waiter_at s' k)" if "k \<in> set stk'" for k
      using stk(1) [OF that] kept [OF that] by (simp add: s')
    show "k < length (f_pc s') \<and> f_pc s' ! k \<in> {F_Park, F_Wait} \<and> w_state (waiter_at s' k) \<noteq> kSignaled" if k: "k \<in> in_flight (fl(j := xs'))" for k
    proof (cases "k \<in> set xs'")
      case True
      with xs(1) show ?thesis by (simp add: s')
    next
      case False
      then obtain l where l: "l \<noteq> j" "k \<in> set (fl l)" using k unfolding in_flight_upd by blast
      then have "k \<in> in_flight fl" by (auto simp: in_flight_def)
      then show ?thesis using d(12) others [OF apart [OF l(2,1)]] by (simp add: s')
    qed
    show "distinct ((fl(j := xs')) l)" for l using xs(2) d(13) by simp
    show "set ((fl(j := xs')) l) \<inter> set ((fl(j := xs')) m) = {}" if "l \<noteq> m" for l m
      using that xs(3) d(14) by (auto simp: fun_upd_def)
    show "notifier_ok (wn_waiters (f_n s')) (f_E s') stk' (f_seen s' l) ((fl(j := xs')) l) (f_np s' ! l)" if "l < length (f_np s')" for l
    proof (cases "l = j")
      case True
      with own j show ?thesis by (simp add: s')
    next
      case False
      have "notifier_ok ws' E' stk' (f_seen s l) (fl l) (f_np s ! l)"
        by (rule notifier_ok_frame [OF d(15) E(1) len E(2)])
          (use that False apart others kept in \<open>auto simp: s'\<close>)
      with False show ?thesis by (simp add: s')
    qed
  qed (use d(2-6,16) j len in \<open>simp_all add: s'\<close>)
qed

text \<open>Steps that the coarse system does not see.\<close>

lemma follow_notifier_silent:
  assumes sim: "fine_sim s a p stk fl" and j: "j < length (f_np s)"
    and len: "length ws' = length (wn_waiters (f_n s))"
    and others: "\<And>k. k \<notin> set (fl j) \<Longrightarrow> ws' ! k = waiter_at s k"
    and mine: "\<And>k. k \<in> set (fl j) \<Longrightarrow> w_epoch (ws' ! k) = w_epoch (waiter_at s k) \<and> waiter_ok (ws' ! k) (f_pc s ! k)
      \<and> (w_state (ws' ! k) = kSignaled \<longleftrightarrow> k \<notin> set xs')"
    and xs: "set xs' \<subseteq> set (fl j)" "distinct xs'"
    and own: "notifier_ok ws' (f_E s) stk (if has_read q' then f_E s else f_seen s j) xs' q'"
    and s': "s' = s\<lparr>f_n := (f_n s)\<lparr>wn_waiters := ws'\<rparr>, f_np := (f_np s)[j := q'], f_E := f_E s + 0,
      f_seen := if has_read q' then (f_seen s)(j := f_E s) else f_seen s\<rparr>"
  shows "followed s' a"
proof -
  note d = fine_simD [OF sim]
  have "fine_sim s' (a\<lparr>sys_n := sys_n a, sys_E := f_E s\<rparr>) p stk (fl(j := xs'))"
  proof (rule fine_sim_notifier [OF sim j, where ws' = ws' and q' = q' and xs' = xs'])
    show "w_epoch (wn_waiters (sys_n a) ! k) = w_epoch (ws' ! k) \<and> w_epoch (ws' ! k) = w_epoch (waiter_at s k)
      \<and> w_state (wn_waiters (sys_n a) ! k) = (if k \<in> in_flight (fl(j := xs')) then kSignaled else w_state (ws' ! k)) \<and> waiter_ok (ws' ! k) (f_pc s ! k)"
      if k: "k < length (f_pc s)" for k
    proof (cases "k \<in> set (fl j)")
      case True
      then have "k \<in> in_flight fl" by (auto simp: in_flight_def)
      moreover have "k \<in> in_flight (fl(j := xs')) \<longleftrightarrow> k \<in> set xs'" using True d(14) unfolding in_flight_upd by blast
      ultimately show ?thesis using mine [OF True] d(8,9) [OF k] by auto
    next
      case False
      then have "k \<in> in_flight (fl(j := xs')) \<longleftrightarrow> k \<in> in_flight fl" using xs(1) unfolding in_flight_upd by (auto simp: in_flight_def)
      then show ?thesis using others [OF False] d(8-10) [OF k] by simp
    qed
    show "k < length (f_pc s) \<and> f_pc s ! k \<in> {F_Park, F_Wait} \<and> w_state (ws' ! k) \<noteq> kSignaled" if "k \<in> set xs'" for k
      using that xs(1) mine [of k] d(12) [of k] by (auto simp: in_flight_def)
    show "set xs' \<inter> set (fl l) = {}" if "l \<noteq> j" for l using that xs(1) d(14) [of l j] by blast
    show "notifier_ok ws' (f_E s) stk (f_seen s' j) xs' q'" using own by (cases "has_read q'") (simp_all add: s')
  qed (use d len others xs in \<open>simp_all add: s'\<close>)
  moreover have "a\<lparr>sys_n := sys_n a, sys_E := f_E s\<rparr> = a" using d(3) by simp
  ultimately show ?thesis using followed_same by metis
qed

lemma seen_now:
  assumes "fine_sim s a p stk fl"
  shows "seen_ok (wn_waiters (f_n s)) (f_E s) stk (f_E s) (wn_state (f_n s)) stk p"
  using fine_simD(1-6) [OF assms] by (auto simp: seen_ok_def wn_core_def wn_rep_def)

lemma follow_read:
  assumes sim: "fine_sim s a p stk fl" and j: "j < length (f_np s)" and fl: "fl j = []" and d: "d = 0"
    and q': "q' = N_Test all (wn_state (f_n s))"
    and s': "s' = s\<lparr>f_n := f_n s, f_np := (f_np s)[j := q'], f_E := f_E s + d, f_seen := if has_read q' then (f_seen s)(j := f_E s) else f_seen s\<rparr>"
  shows "followed s' a"
  by (rule follow_notifier_silent [OF sim j, where ws' = "wn_waiters (f_n s)" and xs' = "[]" and q' = q'])
    (use fl seen_now [OF sim] q' d in \<open>auto simp: s'\<close>)

text \<open>The word cannot come back within \<open>2 ^ 32\<close> decisions, so an exchange of \<open>notify\<close> that succeeds found the stack it
  had read.\<close>

lemma wn_word_inj:
  assumes "wn_word E p x = wn_word E0 p0 x0" "p < 2 ^ 16" "p0 < 2 ^ 16" "x < 2 ^ 16" "x0 < 2 ^ 16" "E0 \<le> E" "E < E0 + 2 ^ 32"
  shows "E = E0" "p = p0" "x = x0"
proof -
  note f = wn_word_fields [OF assms(2,4), of E] wn_word_fields [OF assms(3,5), of E0]
  have "word_of_nat (E * 2 ^ 32) = (word_of_nat (E0 * 2 ^ 32) :: u64)" using f(3,7) assms(1) by simp
  then have "(E * 2 ^ 32) mod 2 ^ 64 = (E0 * 2 ^ 32) mod (2 :: nat) ^ 64"
    by (simp only: word_of_nat_eq_iff take_bit_eq_mod len_num0 len_bit0 len_num1 len_bit1) simp
  then have "2 ^ 64 dvd E * 2 ^ 32 - E0 * 2 ^ 32"
    using assms(6) mod_eq_dvd_iff_nat [of "E0 * 2 ^ 32" "E * 2 ^ 32" "2 ^ 64"] by simp
  then have "(2 :: nat) ^ 32 dvd E - E0" by (simp flip: diff_mult_distrib)
  then show "E = E0" using assms(6,7) by (auto dest: dvd_imp_le)
  show "p = p0" using f(2,6) assms(1) wn_field_tests(3,4) [OF assms(2)] wn_field_tests(3,4) [OF assms(3)] by metis
  show "x = x0" using f(1,5) assms(1) wn_field_tests(4) [OF assms(4)] wn_field_tests(4) [OF assms(5)] by metis
qed

lemma suffix_same_top:
  assumes "suffix xs ys" "distinct ys" "stack_field xs = stack_field ys" "set ys \<subseteq> {..<65535}"
  shows "xs = ys"
proof -
  obtain zs where ys: "ys = zs @ xs" using assms(1) by (auto simp: suffix_def)
  show ?thesis using assms(2-4) unfolding ys by (cases zs; cases xs) (auto simp: stack_field_def)
qed

lemma no_aba:
  assumes sim: "fine_sim s a p stk fl" and tm: "f_E s < E0 + 2 ^ 32"
    and seen: "seen_ok (wn_waiters (f_n s)) (f_E s) stk E0 (wn_state (f_n s)) stk0 p0"
  shows "f_E s = E0" "p0 = p" "stk0 = stk"
proof -
  have n: "seen_ok (wn_waiters (f_n s)) (f_E s) stk (f_E s) (wn_state (f_n s)) stk p" by (rule seen_now [OF sim])
  have f: "stack_field stk < 2 ^ 16" "stack_field stk0 < 2 ^ 16"
    using n seen by (auto simp: seen_ok_def stack_field_def split: list.splits)
  have eq: "wn_word (f_E s) p (stack_field stk) = wn_word E0 p0 (stack_field stk0)" "p < 2 ^ 16" "p0 < 2 ^ 16" "E0 \<le> f_E s"
    using n seen by (auto simp: seen_ok_def)
  note inj = wn_word_inj [OF eq(1-3) f eq(4) tm]
  show "f_E s = E0" "p0 = p" using inj by simp_all
  show "stk0 = stk" using seen inj by (intro suffix_same_top [symmetric]) (auto simp: seen_ok_def)
qed

lemma notify_state:
  "notify all n = Some (r, n') \<Longrightarrow> \<not> (wn_state n AND kStackMask = kStackMask \<and> wn_state n AND kWaiterMask = 0) \<Longrightarrow>
    wn_state n' = notify_word all (wn_state n) (wn_waiters n)"
  unfolding notify_def notify_word_def prewaiters_def Let_def by (auto split: if_splits)

lemma in_flight_pop:
  assumes "fl j = []"
  shows "in_flight (fl(j := xs)) = set xs \<union> in_flight fl"
proof -
  have "k \<in> in_flight fl \<longleftrightarrow> (\<exists>l. l \<noteq> j \<and> k \<in> set (fl l))" for k using assms in_flight_upd [of k fl j "[]"] by (metis empty_iff empty_set fun_upd_triv)
  then show ?thesis by (auto simp: in_flight_upd)
qed

text \<open>A successful exchange of \<open>notify(all)\<close> is the coarse \<open>notify\<close>; the waiters it popped are signalled later.\<close>

lemma follow_notify_all:
  assumes sim: "fine_sim s a p stk fl" and j: "j < length (f_np s)" and fl: "fl j = []"
    and new: "\<not> (stk = [] \<and> p = 0)" "newstate = notify_word True (wn_state (f_n s)) (wn_waiters (f_n s))"
    and s': "s' = s\<lparr>f_n := (f_n s)\<lparr>wn_state := newstate\<rparr>, f_np := (f_np s)[j := q'], f_E := f_E s + p\<rparr>"
    and q': "q' = (if stk = [] then N_Idle else N_Unpark (list_head stk))"
  shows "followed s' a"
proof -
  note d = fine_simD [OF sim]
  have rep: "wn_rep (sys_n a) (sys_E a) p stk" using d(1) by (simp add: wn_core_def)
  obtain n' where n': "notify True (sys_n a) = Some (list_head stk, n')" "wn_waiters n' = fold signal stk (wn_waiters (sys_n a))"
    and c: "wn_core n' (sys_pc a) (sys_E a + p) (sys_ticket a) 0 []"
    using notify_all_rep [OF rep] core_notify_all [OF d(1)] by auto
  have la: "length (wn_waiters (sys_n a)) = length (f_pc s)" using d(1,6) by (simp add: wn_core_def)
  have word: "wn_state n' = newstate"
    using notify_state [OF n'(1)] seen_top(2,3) [OF seen_now [OF sim]] new d(2) by (auto simp: notify_word_def)
  have out: "in_flight (fl(j := stk)) = set stk \<union> in_flight fl" using fl by (rule in_flight_pop)
  have "fine_sim s' (a\<lparr>sys_n := n', sys_E := sys_E a + p\<rparr>) 0 [] (fl(j := stk))"
  proof (rule fine_sim_notifier [OF sim j c, where ws' = "wn_waiters (f_n s)" and q' = q'])
    show "w_epoch (wn_waiters n' ! k) = w_epoch (waiter_at s k) \<and> w_epoch (waiter_at s k) = w_epoch (waiter_at s k)
      \<and> w_state (wn_waiters n' ! k) = (if k \<in> in_flight (fl(j := stk)) then kSignaled else w_state (waiter_at s k)) \<and> waiter_ok (waiter_at s k) (f_pc s ! k)"
      if "k < length (f_pc s)" for k
      using that d(8-10) la unfolding n'(2) out by (simp add: nth_signals)
    show "distinct stk" using rep by (simp add: wn_rep_def)
    show "set stk \<inter> set (fl l) = {}" for l using stack_waiter(4) [OF sim] by (auto simp: in_flight_def)
    have "linked (wn_waiters (f_n s)) stk"
      using rep d(11) linked_nexts [of "wn_waiters (sys_n a)" stk "wn_waiters (f_n s)"] by (auto simp: wn_rep_def)
    then show "notifier_ok (wn_waiters (f_n s)) (sys_E a + p) [] (f_seen s' j) stk q'" by (simp add: q')
  qed (use stack_waiter [OF sim] word fl d(3) in \<open>simp_all add: s'\<close>)
  moreover have "wn_step a (a\<lparr>sys_n := n', sys_E := sys_E a + (if True then prewait (sys_n a) else min 1 (prewait (sys_n a)))\<rparr>)"
    by (rule ws_notify [OF n'(1)])
  ultimately show ?thesis using prewait_rep [OF rep] by (intro followed_step) simp_all
qed

lemma follow_notify_one:
  assumes sim: "fine_sim s a p stk fl" and j: "j < length (f_np s)" and fl: "fl j = []"
    and new: "\<not> (stk = [] \<and> p = 0)" "newstate = notify_word False (wn_state (f_n s)) (wn_waiters (f_n s))"
    and s': "s' = s\<lparr>f_n := (f_n s)\<lparr>wn_state := newstate\<rparr>, f_np := (f_np s)[j := q'], f_E := f_E s + min 1 p\<rparr>"
    and q': "q' = (if p \<noteq> 0 then N_Idle else N_Clear (hd stk))"
  shows "followed s' a"
proof -
  note d = fine_simD [OF sim]
  have rep: "wn_rep (sys_n a) (sys_E a) p stk" using d(1) by (simp add: wn_core_def)
  have la: "length (wn_waiters (sys_n a)) = length (f_pc s)" using d(1,6) by (simp add: wn_core_def)
  define popped where "popped = (if p = 0 then [hd stk] else [])"
  define stk' where "stk' = (if p = 0 then tl stk else stk)"
  obtain r n' where n': "notify False (sys_n a) = Some (r, n')" and c: "wn_core n' (sys_pc a) (sys_E a + min 1 p) (sys_ticket a) (p - 1) stk'"
    using core_notify_one [OF d(1)] by (auto simp: stk'_def)
  have ws: "wn_waiters n' = (if p = 0 then (wn_waiters (sys_n a))[hd stk := (wn_waiters (sys_n a) ! hd stk)\<lparr>w_next := None, w_state := kSignaled\<rparr>]
      else wn_waiters (sys_n a))"
  proof (cases p)
    case 0
    then obtain x xs where "stk = x # xs" using new(1) by (cases stk) auto
    with notify_one_rep(3) [OF rep 0 this] n' 0 show ?thesis by auto
  next
    case (Suc p')
    with notify_one_rep(1) [OF rep Suc] n' show ?thesis by auto
  qed
  have "distinct stk" using rep by (simp add: wn_rep_def)
  then have stk: "distinct stk" "set stk' \<subseteq> set stk" "suffix stk' stk" "set popped \<subseteq> set stk" "p = 0 \<Longrightarrow> hd stk \<notin> set stk'"
    using new(1) by (cases stk; auto simp: stk'_def popped_def suffix_tl suffix_ConsI)+
  have "notify_word False (wn_state (sys_n a)) (wn_waiters (sys_n a)) = newstate"
    using notify_word_cong [OF seen_now [OF sim], of "wn_waiters (sys_n a)"] d(2,11) new by simp
  then have word: "wn_state n' = newstate"
    using notify_state [OF n'] seen_top(2,3) [OF seen_now [OF sim]] new(1) d(2) by simp
  have out: "in_flight (fl(j := popped)) = set popped \<union> in_flight fl" using fl by (rule in_flight_pop)
  have "fine_sim s' (a\<lparr>sys_n := n', sys_E := sys_E a + min 1 p\<rparr>) (p - 1) stk' (fl(j := popped))"
  proof (rule fine_sim_notifier [OF sim j c, where ws' = "wn_waiters (f_n s)" and q' = q'])
    show "w_epoch (wn_waiters n' ! k) = w_epoch (waiter_at s k) \<and> w_epoch (waiter_at s k) = w_epoch (waiter_at s k)
      \<and> w_state (wn_waiters n' ! k) = (if k \<in> in_flight (fl(j := popped)) then kSignaled else w_state (waiter_at s k)) \<and> waiter_ok (waiter_at s k) (f_pc s ! k)"
      if "k < length (f_pc s)" for k
      using that d(8-10) [OF that] la unfolding ws out by (cases "k = hd stk") (auto simp: popped_def)
    show "set popped \<inter> set (fl l) = {}" for l using stk(4) stack_waiter(4) [OF sim] by (auto simp: in_flight_def)
    show "w_next (wn_waiters n' ! k) = w_next (waiter_at s k)" if "k \<in> set stk'" for k
      using that stk(2,5) d(11) [of k] unfolding ws by (cases "k = hd stk") auto
    show "k < length (f_pc s) \<and> f_pc s ! k \<in> {F_Park, F_Wait} \<and> w_state (waiter_at s k) \<noteq> kSignaled" if "k \<in> set popped" for k
      using that stk(4) stack_waiter [OF sim] by blast
  qed (use word fl d(3) stk in \<open>auto simp: s' q' popped_def\<close>)
  moreover have "wn_step a (a\<lparr>sys_n := n', sys_E := sys_E a + (if False then prewait (sys_n a) else min 1 (prewait (sys_n a)))\<rparr>)"
    by (rule ws_notify [OF n'])
  ultimately show ?thesis using prewait_rep [OF rep] by (intro followed_step) simp_all
qed

lemma follow_notify_cas:
  assumes sim: "fine_sim s a p stk fl" and tm: "fine_timely s" and j: "j < length (f_np s)" and N_Cas: "f_np s ! j = N_Cas all state newstate"
    and step: "notify_step b (N_Cas all state newstate) (f_n s) = (q', n', d)"
  shows "followed (s\<lparr>f_n := n', f_np := (f_np s)[j := q'], f_E := f_E s + d, f_seen := if has_read q' then (f_seen s)(j := f_E s) else f_seen s\<rparr>) a"
    (is "followed ?s a")
proof -
  let ?ws = "wn_waiters (f_n s)"
  have ok: "notifier_ok ?ws (f_E s) stk (f_seen s j) (fl j) (f_np s ! j)" by (rule fine_simD(15) [OF sim j])
  from N_Cas obtain stk0 p0 where s: "seen_ok ?ws (f_E s) stk (f_seen s j) state stk0 p0" "fl j = []" "stk0 \<noteq> [] \<or> p0 \<noteq> 0"
    "f_E s = f_seen s j \<Longrightarrow> stk = stk0 \<Longrightarrow> newstate = notify_word all state ?ws" using ok by auto
  show ?thesis
  proof (cases "wn_state (f_n s) = state \<and> \<not> b")
    case True
    have "f_E s < f_seen s j + 2 ^ 32" using tm j N_Cas by (simp add: fine_timely_def)
    note aba = no_aba [OF sim this s(1) [folded conjunct1 [OF True]]]
    note top = seen_top [OF s(1), unfolded aba(2,3)]
    have new: "\<not> (stk = [] \<and> p = 0)" "newstate = notify_word all (wn_state (f_n s)) ?ws" "n' = (f_n s)\<lparr>wn_state := newstate\<rparr>"
      using s(3,4) aba True step N_Cas by auto
    show ?thesis
    proof (cases all)
      case all: True
      have "q' = (if stk = [] then N_Idle else N_Unpark (list_head stk)) \<and> d = p"
        using step N_Cas True all top by (cases stk) (auto simp: stack_field_def)
      then show ?thesis using new all by (intro follow_notify_all [OF sim j s(2) new(1)]) auto
    next
      case one: False
      have "q' = (if p \<noteq> 0 then N_Idle else N_Clear (hd stk)) \<and> d = min 1 p"
        using step N_Cas True one top new(1) by (cases stk; cases "p = 0") (auto simp: stack_field_def)
      then show ?thesis using new one by (intro follow_notify_one [OF sim j s(2) new(1)]) auto
    qed
  next
    case False
    then show ?thesis using step N_Cas s(2) by (intro follow_read [OF sim j]) auto
  qed
qed

lemma follow_notify:
  assumes sim: "fine_sim s a p stk fl" and tm: "fine_timely s" and j: "j < length (f_np s)"
    and step: "notify_step b (f_np s ! j) (f_n s) = (q', n', d)"
  shows "followed (s\<lparr>f_n := n', f_np := (f_np s)[j := q'], f_E := f_E s + d, f_seen := if has_read q' then (f_seen s)(j := f_E s) else f_seen s\<rparr>) a"
    (is "followed ?s a")
proof -
  let ?ws = "wn_waiters (f_n s)"
  have ok: "notifier_ok ?ws (f_E s) stk (f_seen s j) (fl j) (f_np s ! j)" by (rule fine_simD(15) [OF sim j])
  note silent = follow_notifier_silent [OF sim j, where s' = ?s and q' = q']
  have mine: "waiter_ok (waiter_at s k) (f_pc s ! k)" "w_state (waiter_at s k) \<noteq> kSignaled" "f_pc s ! k \<in> {F_Park, F_Wait}" "k < length ?ws"
    if "k \<in> set (fl j)" for k
    using that fine_simD(5,10,12) [OF sim] by (auto simp: in_flight_def)
  have dist: "distinct (fl j)" by (rule fine_simD(13) [OF sim])
  show ?thesis
  proof (cases "f_np s ! j")
    case N_Idle
    then show ?thesis using step ok by (intro silent [of ?ws "[]"]) auto
  next
    case (N_Load all)
    then show ?thesis using step ok by (intro follow_read [OF sim j]) auto
  next
    case (N_Test all state)
    then obtain stk0 p0 where s: "seen_ok ?ws (f_E s) stk (f_seen s j) state stk0 p0" "fl j = []" using ok by auto
    have "notifier_ok ?ws (f_E s) stk (f_seen s j) [] q' \<and> n' = f_n s \<and> d = 0 \<and> \<not> has_read q'"
      using step N_Test s seen_top(2,3) [OF s(1)] by (auto split: if_splits intro!: exI [of _ stk0] exI [of _ p0])
    then show ?thesis using s(2) by (intro silent [of ?ws "[]"]) auto
  next
    case (N_Cas all state newstate)
    then show ?thesis using follow_notify_cas [OF sim tm j N_Cas] step by simp
  next
    case (N_Clear i)
    then show ?thesis using step ok mine dist
      by (intro silent [of "?ws[i := (?ws ! i)\<lparr>w_next := None\<rparr>]" "fl j"]) (auto simp: set_waiter_def nth_list_update)
  next
    case (N_Unpark w)
    then obtain xs where xs: "fl j = xs" "linked ?ws xs" "w = list_head xs" using ok by simp
    show ?thesis
      using step N_Unpark xs mine dist by (intro silent [of ?ws xs]) (cases xs; auto)+
  next
    case (N_Signal i nx)
    then obtain rest where r: "fl j = i # rest" "nx = list_head rest" "linked ?ws rest" using ok by auto
    let ?ws' = "?ws[i := (?ws ! i)\<lparr>w_state := kSignaled\<rparr>]"
    have "linked ?ws' rest" using r dist linked_update [of i rest] by simp
    moreover have "waiter_ok ((?ws ! i)\<lparr>w_state := kSignaled\<rparr>) (f_pc s ! i)" using mine(3) [of i] r(1) by auto
    ultimately show ?thesis
      using step N_Signal r mine dist by (intro silent [of ?ws' rest]) (auto simp: set_waiter_def nth_list_update)
  qed
qed

section \<open>The refinement\<close>

lemma fine_sim_step:
  assumes sim: "fine_sim s a p stk fl" and tm: "fine_timely s" and step: "fine_step s s'"
  shows "followed s' a"
  using step
proof cases
  case (fs_prepare i)
  then show ?thesis using follow_prepare [OF sim] by blast
next
  case (fs_commit i fails pc' n' d)
  then show ?thesis using follow_waiter [OF sim tm fs_commit(2)] by blast
next
  case (fs_cancel i fails pc' n' d)
  then show ?thesis using follow_waiter [OF sim tm fs_cancel(2)] by blast
next
  case (fs_notify j b q' n' d)
  then show ?thesis using follow_notify [OF sim tm fs_notify(2)] by blast
qed

lemma fine_sim_timely: "fine_sim s a p stk fl \<Longrightarrow> fine_timely s \<Longrightarrow> wn_timely a"
  using fine_simD(3,4,6,7) by (auto simp: wn_timely_def fine_timely_def)

lemma fine_init_sim:
  assumes "fine_init N M = Inr s"
  shows "\<exists>a. sys_init N = Inr a \<and> fine_timely s \<and> (\<exists>p stk fl. fine_sim s a p stk fl)"
proof -
  obtain n where n: "new_WorkNotifier N = Inr n"
    and s: "s = \<lparr>f_n = n, f_pc = replicate N F_Idle, f_np = replicate M N_Idle, f_E = 2 ^ 32 - 1 - 2 * N, f_ticket = (\<lambda>_. 0), f_seen = (\<lambda>_. 0)\<rparr>"
    using assms by (auto simp: fine_init_def split: sum.splits)
  have len: "length (wn_waiters n) = N" using n by (auto simp: new_WorkNotifier_def split: if_splits)
  define a where "a = \<lparr>sys_n = n, sys_pc = replicate N WIdle, sys_E = 2 ^ 32 - 1 - 2 * N, sys_ticket = (\<lambda>_. 0)\<rparr>"
  have a: "sys_init N = Inr a" using n by (simp add: sys_init_def a_def)
  obtain p stk where c: "wn_core (sys_n a) (sys_pc a) (sys_E a) (sys_ticket a) p stk" using sys_inv_init [OF a] by (auto simp: sys_inv_def)
  have "fine_sim s a p stk (\<lambda>_. [])" by (rule fine_simI) (use c len in \<open>simp_all add: s a_def in_flight_def\<close>)
  then show ?thesis using a by (auto simp: s fine_timely_def)
qed

definition fine_related :: "fine_sys \<Rightarrow> wn_sys \<Rightarrow> bool" where
  "fine_related s a \<longleftrightarrow> fine_timely s \<and> (\<exists>p stk fl. fine_sim s a p stk fl)"

lemma fine_related_step:
  assumes "fine_related s a" "fine_timely_step s t"
  shows "\<exists>b. (b = a \<or> timely_step a b) \<and> fine_related t b"
proof -
  have t: "fine_step s t" "fine_timely t" using assms(2) by (auto simp: fine_timely_step_def)
  obtain p stk fl where s: "fine_sim s a p stk fl" "fine_timely s" using assms(1) by (auto simp: fine_related_def)
  from fine_sim_step [OF s t(1)] obtain b p' stk' fl' where b: "b = a \<or> wn_step a b" "fine_sim t b p' stk' fl'"
    unfolding followed_def by blast
  have "fine_related t b" unfolding fine_related_def using t(2) b(2) by blast
  then show ?thesis using b(1) fine_sim_timely [OF b(2) t(2)] unfolding timely_step_def by blast
qed

lemma fine_related_start: "fine_init N M = Inr s \<Longrightarrow> \<exists>a. sys_init N = Inr a \<and> fine_related s a"
  unfolding fine_related_def using fine_init_sim by blast

interpretation fine: step_simulation "\<lambda>s. fine_init N M = Inr s" fine_timely_step "\<lambda>a. sys_init N = Inr a" timely_step fine_related for N M
  by unfold_locales (rule fine_related_start, assumption, rule fine_related_step)

fun waking :: "notify_pc \<Rightarrow> bool" where
  "waking (N_Clear i) = True"
| "waking (N_Unpark w) = True"
| "waking (N_Signal i nx) = True"
| "waking q = False"

text \<open>C7: The event count is right at the level of single accesses to memory, with exchanges that fail and any number of
  notifiers: every state it reaches refines a state of the system whose loops are one step each, with the same
  word and each waiter where it is there, so what holds of that system holds of it; no assertion fails; and a waiter that
  sleeps is on the stack that starts at the word, unless a notifier has popped waiters and is still signalling
  them. In particular the list of sleepers does not suffer from a word that comes back
  (ABA), as long as no turn of a notifier's loop takes \<open>2 ^ 32\<close> decisions.\<close>

theorem notifier_refines:
  assumes "fine_init N M = Inr s" and "fine_timely_step\<^sup>*\<^sup>* s t"
  shows "\<exists>a0 a stk. sys_init N = Inr a0 \<and> timely_step\<^sup>*\<^sup>* a0 a \<and> wn_state (sys_n a) = wn_state (f_n t)
    \<and> sys_pc a = map2 coarse_pc (wn_waiters (f_n t)) (f_pc t) \<and> F_Abort \<notin> set (f_pc t)
    \<and> linked (wn_waiters (f_n t)) stk \<and> unat (wn_state (f_n t) AND kStackMask) = stack_field stk
    \<and> (\<forall>i<length (f_pc t). f_pc t ! i = F_Wait \<and> w_state (wn_waiters (f_n t) ! i) = kWaiting
        \<longrightarrow> i \<in> set stk \<or> (\<exists>q\<in>set (f_np t). waking q))"
proof -
  obtain a0 a p stk fl where a: "sys_init N = Inr a0" "timely_step\<^sup>*\<^sup>* a0 a" and sim: "fine_sim t a p stk fl"
    using fine.sim_reachable [OF assms] by (auto simp: fine_related_def)
  note d = fine_simD [OF sim]
  have "sys_pc a = map2 coarse_pc (wn_waiters (f_n t)) (f_pc t)" using d(5-7) by (intro nth_equalityI) simp_all
  moreover have "F_Abort \<notin> set (f_pc t)" using d(10) by (metis in_set_conv_nth waiter_ok.simps(8))
  moreover have "linked (wn_waiters (f_n t)) stk"
    using d(1,11) linked_nexts [of "wn_waiters (sys_n a)" stk "wn_waiters (f_n t)"] by (auto simp: wn_core_def wn_rep_def)
  moreover have "i \<in> set stk \<or> (\<exists>q\<in>set (f_np t). waking q)"
    if i: "i < length (f_pc t)" "f_pc t ! i = F_Wait" "w_state (waiter_at t i) = kWaiting" for i
  proof (cases "i \<in> in_flight fl")
    case True
    then obtain j where j: "i \<in> set (fl j)" by (auto simp: in_flight_def)
    then have l: "j < length (f_np t)" using d(16) [of j] by (cases "j < length (f_np t)") auto
    then have "waking (f_np t ! j)" using d(15) [OF l] j by (cases "f_np t ! j") auto
    with l show ?thesis by auto
  next
    case False
    then show ?thesis using d(1,6) d(7) [OF i(1)] d(9) [OF i(1)] i by (simp add: wn_core_def)
  qed
  ultimately show ?thesis using a d(2) seen_top(1) [OF seen_now [OF sim]] by blast
qed

theorem notifier_refines_witness:
  "\<exists>s t a0 a stk. fine_init 2 1 = Inr s \<and> fine_timely_step\<^sup>*\<^sup>* s t \<and> f_pc t = [F_Prepared, F_Idle] \<and> has_read (f_np t ! 0) \<and> sys_init 2 = Inr a0
     \<and> timely_step\<^sup>*\<^sup>* a0 a \<and> sys_pc a = [WPrepared, WIdle] \<and> unat (wn_state (f_n t) AND kStackMask) = stack_field stk"
proof -
  obtain s where s: "fine_init 2 1 = Inr s" by (simp add: fine_init_def new_WorkNotifier_def)
  have "f_pc s = replicate 2 F_Idle" "f_np s = [N_Idle]" "length (wn_waiters (f_n s)) = 2"
    using s by (auto simp: fine_init_def new_WorkNotifier_def)
  moreover have "replicate 2 F_Idle = [F_Idle, F_Idle]" by (simp add: numeral_2_eq_2)
  ultimately have pc: "f_pc s = [F_Idle, F_Idle]" "f_np s = [N_Idle]" "length (wn_waiters (f_n s)) = 2" by simp_all
  define t where "t = s\<lparr>f_n := prepare_wait 0 (f_n s), f_pc := [F_Prepared, F_Idle], f_ticket := (f_ticket s)(0 := f_E s + prewait (f_n s))\<rparr>"
  define u where "u = t\<lparr>f_n := f_n t, f_np := [N_Load True]\<rparr>"
  define v where "v = u\<lparr>f_n := f_n u, f_np := [N_Test True (wn_state (f_n u))], f_seen := (f_seen u)(0 := f_E u)\<rparr>"
  have tu: "f_pc t = [F_Prepared, F_Idle]" "f_np t = [N_Idle]" "f_E t < f_ticket t 0 + 2 ^ 31" "f_pc u = [F_Prepared, F_Idle]" "f_np u = [N_Load True]"
    "f_E u < f_ticket u 0 + 2 ^ 31" "f_E v < f_ticket v 0 + 2 ^ 31" "f_pc v = [F_Prepared, F_Idle]" "f_np v = [N_Test True (wn_state (f_n u))]" "length (wn_waiters (f_n v)) = 2"
    using pc by (simp_all add: t_def u_def v_def prepare_wait_def)
  have "fine_timely_step s t"
    using fs_prepare [of 0 s] pc tu by (simp add: fine_timely_step_def fine_timely_def less_Suc_eq t_def)
  moreover have "fine_timely_step t u"
    using fs_notify [of 0 t True "N_Load True" "f_n t" 0] tu by (simp add: fine_timely_step_def fine_timely_def less_Suc_eq u_def)
  moreover have "fine_timely_step u v"
    using fs_notify [of 0 u True "N_Test True (wn_state (f_n u))" "f_n u" 0] tu by (simp add: fine_timely_step_def fine_timely_def less_Suc_eq v_def)
  ultimately have r: "fine_timely_step\<^sup>*\<^sup>* s v" by (meson converse_rtranclp_into_rtranclp rtranclp.rtrancl_refl)
  obtain w1 w2 where "wn_waiters (f_n v) = [w1, w2]" using tu(10) by (auto simp: numeral_2_eq_2 length_Suc_conv)
  then have m: "map2 coarse_pc (wn_waiters (f_n v)) (f_pc v) = [WPrepared, WIdle]" using tu(8) by simp
  have h: "has_read (f_np v ! 0)" using tu(9) by simp
  from notifier_refines [OF s r] obtain a0 a stk where "sys_init 2 = Inr a0" "timely_step\<^sup>*\<^sup>* a0 a"
    "sys_pc a = map2 coarse_pc (wn_waiters (f_n v)) (f_pc v)" "unat (wn_state (f_n v) AND kStackMask) = stack_field stk" by blast
  then have "fine_init 2 1 = Inr s \<and> fine_timely_step\<^sup>*\<^sup>* s v \<and> f_pc v = [F_Prepared, F_Idle] \<and> has_read (f_np v ! 0) \<and> sys_init 2 = Inr a0
     \<and> timely_step\<^sup>*\<^sup>* a0 a \<and> sys_pc a = [WPrepared, WIdle] \<and> unat (wn_state (f_n v) AND kStackMask) = stack_field stk"
    using s r tu(8) m h by simp
  then show ?thesis by blast
qed

end
