(* ===== verification/Task_Futures.thy ===== *)
theory Task_Futures
  imports Tasks "HOL-Library.Multiset"
begin

text \<open>
  The future of a task (\<open>include/ar/task.hpp\<close>, \<open>include/ar/runtime.hpp\<close>): clients make a task, post it, take its future
  and wait for it, while workers execute the tasks and delete them (\<open>src/executor_slot.cpp\<close>). A callable returns, throws an
  exception of the standard library, or throws something else. The promise is \<open>boost::promise\<close>: it takes one value and hands
  out one future, and its state outlives the task. Client \<open>i\<close> makes task \<open>i\<close>.
\<close>

section \<open>Definitions\<close>

datatype 'v outcome = Returns 'v | Throws_std string | Throws_other

text \<open>\<open>set_exception(ex)\<close> copies its argument by its static type \<open>std::exception\<close>.\<close>

datatype 'v stored = Stored_value 'v | Std_exception | Broken_promise

record 'v promise =
  pr_value :: "'v stored option"
  pr_retrieved :: bool

definition new_promise :: "'v promise" where
  "new_promise = \<lparr>pr_value = None, pr_retrieved = False\<rparr>"

definition promise_set :: "'v stored \<Rightarrow> 'v promise \<Rightarrow> 'v promise option" where
  "promise_set v p = (if pr_value p = None then Some (p\<lparr>pr_value := Some v\<rparr>) else None)"

definition promise_get_future :: "'v promise \<Rightarrow> 'v promise option" where
  "promise_get_future p = (if pr_retrieved p then None else Some (p\<lparr>pr_retrieved := True\<rparr>))"

text \<open>\<open>execute\<close>: whether an exception leaves it, and the promise. The handler of \<open>std::exception\<close> also handles what
  \<open>set_value\<close> throws, and what it throws itself leaves.\<close>

definition base_task_execute :: "'v outcome \<Rightarrow> 'v promise \<Rightarrow> bool \<times> 'v promise" where
  "base_task_execute fn p =
     (let handler = (case promise_set Std_exception p of Some p' \<Rightarrow> (False, p') | None \<Rightarrow> (True, p)) in
      case fn of
        Returns v \<Rightarrow> (case promise_set (Stored_value v) p of Some p' \<Rightarrow> (False, p') | None \<Rightarrow> handler)
      | Throws_std what \<Rightarrow> handler
      | Throws_other \<Rightarrow> (True, p))"

definition dummy_task_execute :: "unit promise \<Rightarrow> bool \<times> unit promise" where
  "dummy_task_execute p =
     (case promise_set (Stored_value ()) p of
        Some p' \<Rightarrow> (False, p')
      | None \<Rightarrow> (case promise_set Std_exception p of Some p' \<Rightarrow> (False, p') | None \<Rightarrow> (True, p)))"

definition make_resolved_future :: "'v \<Rightarrow> 'v promise option" where
  "make_resolved_future v = Option.bind (promise_set (Stored_value v) new_promise) promise_get_future"

definition delete_promise :: "'v promise \<Rightarrow> 'v promise" where
  "delete_promise p = (if pr_value p = None then p\<lparr>pr_value := Some Broken_promise\<rparr> else p)"

text \<open>Clients post and then take the future (\<open>Async\<close>, \<open>AsyncDelayed\<close>, \<open>AsyncSleep\<close>, \<open>AsyncTask\<close>), or take it first (\<open>Async\<close> of a coroutine).\<close>

datatype 'v client_pc = CL_Make | CL_Made | CL_Posted | CL_Holding | CL_Future | CL_Answer "'v stored" | CL_Undefined

record 'v client =
  cl_fn :: "'v outcome"
  cl_future_first :: bool
  cl_pc :: "'v client_pc"

datatype runner_pc = WK_Idle | WK_Invoke nat | WK_Delete nat

record 'v tf_sys =
  tf_clients :: "'v client list"
  tf_alive :: "nat set"
  tf_promise :: "nat \<Rightarrow> 'v promise"
  tf_queue :: "nat list"
  tf_workers :: "runner_pc list"
  tf_terminated :: bool

definition client_to :: "nat \<Rightarrow> 'v client_pc \<Rightarrow> 'v tf_sys \<Rightarrow> 'v tf_sys" where
  "client_to i pc s = s\<lparr>tf_clients := (tf_clients s)[i := (tf_clients s ! i)\<lparr>cl_pc := pc\<rparr>]\<rparr>"

definition take_future :: "nat \<Rightarrow> 'v client_pc \<Rightarrow> 'v tf_sys \<Rightarrow> 'v tf_sys" where
  "take_future i pc s =
     (if i \<notin> tf_alive s then client_to i CL_Undefined s
      else case promise_get_future (tf_promise s i) of
             None \<Rightarrow> client_to i CL_Undefined s
           | Some p \<Rightarrow> (client_to i pc s)\<lparr>tf_promise := (tf_promise s)(i := p)\<rparr>)"

definition client_step :: "nat \<Rightarrow> 'v tf_sys \<Rightarrow> 'v tf_sys option" where
  "client_step i s =
     (let c = tf_clients s ! i in
      case cl_pc c of
        CL_Make \<Rightarrow> Some ((client_to i CL_Made s)\<lparr>tf_alive := insert i (tf_alive s), tf_promise := (tf_promise s)(i := new_promise)\<rparr>)
      | CL_Made \<Rightarrow>
          if cl_future_first c then Some (take_future i CL_Holding s)
          else Some ((client_to i CL_Posted s)\<lparr>tf_queue := tf_queue s @ [i]\<rparr>)
      | CL_Posted \<Rightarrow> Some (take_future i CL_Future s)
      | CL_Holding \<Rightarrow> Some ((client_to i CL_Future s)\<lparr>tf_queue := tf_queue s @ [i]\<rparr>)
      | CL_Future \<Rightarrow> map_option (\<lambda>v. client_to i (CL_Answer v) s) (pr_value (tf_promise s i))
      | _ \<Rightarrow> None)"

text \<open>A worker takes any posted task; an exception that leaves \<open>execute\<close> leaves the thread and ends the program.\<close>

definition runner_step :: "nat \<Rightarrow> nat \<Rightarrow> 'v tf_sys \<Rightarrow> 'v tf_sys option" where
  "runner_step w i s =
     (case tf_workers s ! w of
        WK_Idle \<Rightarrow>
          if i \<in> set (tf_queue s) then Some (s\<lparr>tf_queue := remove1 i (tf_queue s), tf_workers := (tf_workers s)[w := WK_Invoke i]\<rparr>) else None
      | WK_Invoke j \<Rightarrow>
          (case base_task_execute (cl_fn (tf_clients s ! j)) (tf_promise s j) of
             (True, p) \<Rightarrow> Some (s\<lparr>tf_terminated := True\<rparr>)
           | (False, p) \<Rightarrow> Some (s\<lparr>tf_promise := (tf_promise s)(j := p), tf_workers := (tf_workers s)[w := WK_Delete j]\<rparr>))
      | WK_Delete j \<Rightarrow>
          Some (s\<lparr>tf_alive := tf_alive s - {j}, tf_promise := (tf_promise s)(j := delete_promise (tf_promise s j)),
            tf_workers := (tf_workers s)[w := WK_Idle]\<rparr>))"

inductive tf_step :: "'v tf_sys \<Rightarrow> 'v tf_sys \<Rightarrow> bool" where
  tf_client: "\<not> tf_terminated s \<Longrightarrow> i < length (tf_clients s) \<Longrightarrow> client_step i s = Some t \<Longrightarrow> tf_step s t"
| tf_worker: "\<not> tf_terminated s \<Longrightarrow> w < length (tf_workers s) \<Longrightarrow> runner_step w i s = Some t \<Longrightarrow> tf_step s t"

definition tf_init :: "('v outcome \<times> bool) list \<Rightarrow> nat \<Rightarrow> 'v tf_sys" where
  "tf_init calls n = \<lparr>tf_clients = map (\<lambda>(fn, first). \<lparr>cl_fn = fn, cl_future_first = first, cl_pc = CL_Make\<rparr>) calls,
     tf_alive = {}, tf_promise = (\<lambda>_. new_promise), tf_queue = [], tf_workers = replicate n WK_Idle, tf_terminated = False\<rparr>"

text \<open>What a callable should leave in the future.\<close>

fun answer_of :: "'v outcome \<Rightarrow> 'v stored" where
  "answer_of (Returns v) = Stored_value v"
| "answer_of fn = Std_exception"

section \<open>The invariant\<close>

lemma base_task_execute_new:
  "pr_value p = None \<Longrightarrow> base_task_execute fn p = (if fn = Throws_other then (True, p) else (False, p\<lparr>pr_value := Some (answer_of fn)\<rparr>))"
  by (cases fn) (simp_all add: base_task_execute_def promise_set_def)

fun worker_task :: "runner_pc \<Rightarrow> nat list" where
  "worker_task WK_Idle = []"
| "worker_task (WK_Invoke i) = [i]"
| "worker_task (WK_Delete i) = [i]"

definition places :: "'v tf_sys \<Rightarrow> nat list" where
  "places s = tf_queue s @ concat (map worker_task (tf_workers s))"

lemma count_workers_update:
  "w < length ws \<Longrightarrow> count_list (concat (map worker_task (ws[w := q]))) i + count_list (worker_task (ws ! w)) i
     = count_list (concat (map worker_task ws)) i + count_list (worker_task q) i"
  by (induction ws arbitrary: w) (auto split: nat.splits)

lemma count_remove1: "x \<in> set xs \<Longrightarrow> count_list (remove1 x xs) i + (if i = x then 1 else 0) = count_list xs i"
  by (induction xs) auto

lemma count_worker: "w < length ws \<Longrightarrow> count_list (worker_task (ws ! w)) i \<le> count_list (concat (map worker_task ws)) i"
  by (induction ws arbitrary: w) (auto split: nat.splits simp: nth_Cons trans_le_add2)

lemma count_workers_two:
  "v < length ws \<Longrightarrow> w < length ws \<Longrightarrow> v \<noteq> w \<Longrightarrow>
    count_list (worker_task (ws ! v)) i + count_list (worker_task (ws ! w)) i \<le> count_list (concat (map worker_task ws)) i"
  using count_workers_update [of v ws WK_Idle i] count_worker [of w "ws[v := WK_Idle]" i] by simp

text \<open>A task that was posted is in one place, or has been deleted with its answer given.\<close>

definition posted_ok :: "'v outcome \<Rightarrow> nat \<Rightarrow> bool \<Rightarrow> bool \<Rightarrow> 'v stored option \<Rightarrow> bool" where
  "posted_ok fn n alive deleting v \<longleftrightarrow>
     n = 1 \<and> alive \<and> v = (if deleting then Some (answer_of fn) else None) \<or> n = 0 \<and> \<not> alive \<and> \<not> deleting \<and> v = Some (answer_of fn)"

fun promise_ok :: "'v client \<Rightarrow> nat \<Rightarrow> bool \<Rightarrow> bool \<Rightarrow> 'v promise \<Rightarrow> bool" where
  "promise_ok c n alive deleting p =
     (case cl_pc c of
        CL_Make \<Rightarrow> n = 0 \<and> \<not> alive
      | CL_Made \<Rightarrow> n = 0 \<and> alive \<and> p = new_promise
      | CL_Holding \<Rightarrow> n = 0 \<and> alive \<and> cl_future_first c \<and> pr_value p = None
      | CL_Posted \<Rightarrow> posted_ok (cl_fn c) n alive deleting (pr_value p) \<and> \<not> cl_future_first c \<and> \<not> pr_retrieved p
      | CL_Future \<Rightarrow> posted_ok (cl_fn c) n alive deleting (pr_value p)
      | CL_Answer v \<Rightarrow> posted_ok (cl_fn c) n alive deleting (pr_value p) \<and> v = answer_of (cl_fn c)
      | CL_Undefined \<Rightarrow> posted_ok (cl_fn c) n alive deleting (pr_value p) \<and> \<not> cl_future_first c)"

definition tf_inv :: "'v tf_sys \<Rightarrow> bool" where
  "tf_inv s \<longleftrightarrow> (\<forall>i. i \<in> set (places s) \<longrightarrow> i < length (tf_clients s))
     \<and> (\<forall>i<length (tf_clients s). promise_ok (tf_clients s ! i) (count_list (places s) i) (i \<in> tf_alive s) (WK_Delete i \<in> set (tf_workers s)) (tf_promise s i))"

lemma worker_placed:
  assumes "q \<in> set (tf_workers s)" "i \<in> set (worker_task q)"
  shows "i \<in> set (places s)" "0 < count_list (places s) i"
proof -
  show "i \<in> set (places s)" using assms by (auto simp: places_def)
  then show "0 < count_list (places s) i" using count_list_0_iff [of "places s" i] by auto
qed

lemmas deleting_placed = worker_placed(2) [of "WK_Delete i" _ i, simplified] for i

lemma tf_invD:
  assumes "tf_inv s"
  shows "i \<in> set (places s) \<Longrightarrow> i < length (tf_clients s)"
    "i < length (tf_clients s) \<Longrightarrow> promise_ok (tf_clients s ! i) (count_list (places s) i) (i \<in> tf_alive s) (WK_Delete i \<in> set (tf_workers s)) (tf_promise s i)"
  using assms by (auto simp: tf_inv_def)

lemma promise_ok_count: "promise_ok c n alive deleting p \<Longrightarrow> n \<le> 1"
  by (auto simp: posted_ok_def split: client_pc.splits)

text \<open>A step of client \<open>i\<close> changes only its own call.\<close>

lemma tf_inv_client:
  assumes inv: "tf_inv s" and i: "i < length (tf_clients s)" and w: "tf_workers t = tf_workers s"
    and q: "tf_queue t = tf_queue s \<or> tf_queue t = tf_queue s @ [i]"
    and others: "\<And>k. k \<noteq> i \<Longrightarrow> tf_clients t ! k = tf_clients s ! k \<and> tf_promise t k = tf_promise s k \<and> (k \<in> tf_alive t \<longleftrightarrow> k \<in> tf_alive s)"
    and len: "length (tf_clients t) = length (tf_clients s)"
    and own: "promise_ok (tf_clients t ! i) (count_list (places t) i) (i \<in> tf_alive t) (WK_Delete i \<in> set (tf_workers t)) (tf_promise t i)"
  shows "tf_inv t"
proof -
  have "k < length (tf_clients t)" if "k \<in> set (places t)" for k
    using that tf_invD(1) [OF inv, of k] q w len i by (auto simp: places_def)
  moreover have "promise_ok (tf_clients t ! k) (count_list (places t) k) (k \<in> tf_alive t) (WK_Delete k \<in> set (tf_workers t)) (tf_promise t k)"
    if k: "k < length (tf_clients t)" for k
  proof (cases "k = i")
    case False
    then have "count_list (places t) k = count_list (places s) k" using q w by (auto simp: places_def)
    then show ?thesis using tf_invD(2) [OF inv, of k] k others [OF False] w len by simp
  qed (use own in simp)
  ultimately show ?thesis by (auto simp: tf_inv_def)
qed

lemma client_step_inv:
  assumes inv: "tf_inv s" and i: "i < length (tf_clients s)" and step: "client_step i s = Some t"
  shows "tf_inv t"
proof -
  note own = tf_invD(2) [OF inv i]
  have nd: "count_list (places s) i = 0 \<Longrightarrow> WK_Delete i \<notin> set (tf_workers s)" using deleting_placed [of i s] by auto
  note keep = tf_inv_client [OF inv i]
  show ?thesis
  proof (cases "cl_pc (tf_clients s ! i)")
    case CL_Make
    then have "t = (client_to i CL_Made s)\<lparr>tf_alive := insert i (tf_alive s), tf_promise := (tf_promise s)(i := new_promise)\<rparr>"
      using step by (simp add: client_step_def)
    then show ?thesis using own CL_Make i by (intro keep) (simp_all add: client_to_def places_def)
  next
    case CL_Made
    show ?thesis
    proof (cases "cl_future_first (tf_clients s ! i)")
      case True
      then have "t = (client_to i CL_Holding s)\<lparr>tf_promise := (tf_promise s)(i := new_promise\<lparr>pr_retrieved := True\<rparr>)\<rparr>"
        using step CL_Made own by (simp add: client_step_def take_future_def promise_get_future_def new_promise_def)
      then show ?thesis using own CL_Made True i by (intro keep) (simp_all add: client_to_def places_def new_promise_def)
    next
      case False
      then have "t = (client_to i CL_Posted s)\<lparr>tf_queue := tf_queue s @ [i]\<rparr>" using step CL_Made by (simp add: client_step_def)
      then show ?thesis using own CL_Made False i nd
        by (intro keep) (simp_all add: client_to_def places_def new_promise_def posted_ok_def)
    qed
  next
    case CL_Posted
    then have "t = (if i \<in> tf_alive s then (client_to i CL_Future s)\<lparr>tf_promise := (tf_promise s)(i := (tf_promise s i)\<lparr>pr_retrieved := True\<rparr>)\<rparr>
        else client_to i CL_Undefined s)"
      using step own by (auto simp: client_step_def take_future_def promise_get_future_def)
    then show ?thesis using own CL_Posted i by (cases "i \<in> tf_alive s"; intro keep) (simp_all add: client_to_def places_def)
  next
    case CL_Holding
    then have "t = (client_to i CL_Future s)\<lparr>tf_queue := tf_queue s @ [i]\<rparr>" using step by (simp add: client_step_def)
    then show ?thesis using own CL_Holding i nd by (intro keep) (simp_all add: client_to_def places_def posted_ok_def)
  next
    case CL_Future
    then obtain v where v: "pr_value (tf_promise s i) = Some v" "t = client_to i (CL_Answer v) s" using step by (auto simp: client_step_def)
    then have "v = answer_of (cl_fn (tf_clients s ! i))" using own CL_Future by (auto simp: posted_ok_def split: if_splits)
    then show ?thesis using own CL_Future i v by (intro keep) (simp_all add: client_to_def places_def)
  qed (use step in \<open>simp_all add: client_step_def\<close>)
qed

lemma runner_step_inv:
  assumes inv: "tf_inv s" and w: "w < length (tf_workers s)" and step: "runner_step w i s = Some t"
  shows "tf_inv t"
proof (cases "tf_workers s ! w")
  case WK_Idle
  then have t: "i \<in> set (tf_queue s)" "t = s\<lparr>tf_queue := remove1 i (tf_queue s), tf_workers := (tf_workers s)[w := WK_Invoke i]\<rparr>"
    using step by (auto simp: runner_step_def split: if_splits)
  have cnt: "count_list (places t) k = count_list (places s) k" for k
    using count_workers_update [OF w, of "WK_Invoke i" k] count_remove1 [OF t(1), of k] WK_Idle by (auto simp: places_def t(2))
  then have "set (places t) = set (places s)" by (metis count_list_0_iff subset_antisym subsetI)
  moreover have "WK_Delete k \<in> set (tf_workers t) \<longleftrightarrow> WK_Delete k \<in> set (tf_workers s)" for k
    using w WK_Idle by (auto simp: t(2) in_set_conv_nth nth_list_update) (metis runner_pc.distinct(3))+
  ultimately show ?thesis using inv cnt by (simp add: tf_inv_def t(2))
next
  case (WK_Invoke j)
  have "WK_Invoke j \<in> set (tf_workers s)" using w WK_Invoke by (metis nth_mem)
  note pj = worker_placed [OF this, of j, simplified]
  have j: "j < length (tf_clients s)" "0 < count_list (places s) j" using tf_invD(1) [OF inv pj(1)] pj(2) by simp_all
  have nd: "WK_Delete j \<notin> set (tf_workers s)"
  proof
    assume "WK_Delete j \<in> set (tf_workers s)"
    then obtain v where v: "v < length (tf_workers s)" "tf_workers s ! v = WK_Delete j" by (auto simp: in_set_conv_nth)
    moreover have "v \<noteq> w" using v(2) WK_Invoke by auto
    ultimately have "2 \<le> count_list (places s) j" using count_workers_two [OF v(1) w, of j] WK_Invoke by (simp add: places_def)
    then show False using promise_ok_count [OF tf_invD(2) [OF inv j(1)]] by simp
  qed
  have "pr_value (tf_promise s j) = None" using tf_invD(2) [OF inv j(1)] j(2) nd by (auto simp: posted_ok_def split: client_pc.splits)
  note ex = base_task_execute_new [OF this, of "cl_fn (tf_clients s ! j)"]
  show ?thesis
  proof (cases "cl_fn (tf_clients s ! j) = Throws_other")
    case True
    then have "t = s\<lparr>tf_terminated := True\<rparr>" using step WK_Invoke ex by (simp add: runner_step_def)
    then show ?thesis using inv by (simp add: tf_inv_def places_def)
  next
    case False
    then have t: "t = s\<lparr>tf_promise := (tf_promise s)(j := (tf_promise s j)\<lparr>pr_value := Some (answer_of (cl_fn (tf_clients s ! j)))\<rparr>),
        tf_workers := (tf_workers s)[w := WK_Delete j]\<rparr>" using step WK_Invoke ex by (simp add: runner_step_def)
    have cnt: "count_list (places t) k = count_list (places s) k" for k
      using count_workers_update [OF w, of "WK_Delete j" k] WK_Invoke by (simp add: places_def t)
    then have pl: "set (places t) = set (places s)" by (metis count_list_0_iff subset_antisym subsetI)
    have del: "WK_Delete k \<in> set (tf_workers t) \<longleftrightarrow> k = j \<or> WK_Delete k \<in> set (tf_workers s)" for k
      using w WK_Invoke by (auto simp: t in_set_conv_nth nth_list_update) (metis runner_pc.distinct(5))+
    have "promise_ok (tf_clients t ! k) (count_list (places t) k) (k \<in> tf_alive t) (WK_Delete k \<in> set (tf_workers t)) (tf_promise t k)"
      if k: "k < length (tf_clients t)" for k
      using tf_invD(2) [OF inv, of k] k j(2) nd unfolding cnt del
      by (auto simp: t posted_ok_def split: client_pc.splits)
    then show ?thesis using inv pl by (simp add: tf_inv_def t)
  qed
next
  case (WK_Delete j)
  then have t: "t = s\<lparr>tf_alive := tf_alive s - {j}, tf_promise := (tf_promise s)(j := delete_promise (tf_promise s j)), tf_workers := (tf_workers s)[w := WK_Idle]\<rparr>"
    using step by (simp add: runner_step_def)
  have dj: "WK_Delete j \<in> set (tf_workers s)" using w WK_Delete by (metis nth_mem)
  have j: "j < length (tf_clients s)" using tf_invD(1) [OF inv] deleting_placed [OF dj] count_list_0_iff [of "places s" j] by auto
  have one: "count_list (places s) j = 1" using deleting_placed [OF dj] promise_ok_count [OF tf_invD(2) [OF inv j]] by simp
  have cnt: "count_list (places t) k = (if k = j then 0 else count_list (places s) k)" for k
    using count_workers_update [OF w, of WK_Idle k] WK_Delete one by (auto simp: places_def t)
  have pl: "set (places t) \<subseteq> set (places s)" using cnt by (metis count_list_0_iff subsetI)
  have nd: "WK_Delete j \<notin> set (tf_workers t)" using deleting_placed [of j t] cnt [of j] by auto
  have del: "WK_Delete k \<in> set (tf_workers t) \<longleftrightarrow> k \<noteq> j \<and> WK_Delete k \<in> set (tf_workers s)" for k
  proof (cases "k = j")
    case False
    then show ?thesis using w WK_Delete by (auto simp: t in_set_conv_nth nth_list_update) (metis runner_pc.inject(2))+
  qed (use nd in simp)
  have "promise_ok (tf_clients t ! k) (count_list (places t) k) (k \<in> tf_alive t) (WK_Delete k \<in> set (tf_workers t)) (tf_promise t k)"
    if k: "k < length (tf_clients t)" for k
    using tf_invD(2) [OF inv, of k] k one dj unfolding cnt del
    by (auto simp: t posted_ok_def delete_promise_def split: client_pc.splits)
  then show ?thesis using inv pl by (auto simp: tf_inv_def t)
qed

lemma tf_inv_step: "tf_inv s \<Longrightarrow> tf_step s t \<Longrightarrow> tf_inv t"
  by (erule tf_step.cases) (auto intro: client_step_inv runner_step_inv)

lemma tf_inv_init: "tf_inv (tf_init calls n)"
proof -
  have "places (tf_init calls n) = []" by (induction n) (simp_all add: places_def tf_init_def)
  then show ?thesis by (simp add: tf_inv_def tf_init_def case_prod_unfold)
qed

interpretation futures: step_invariant "\<lambda>s. s = tf_init calls n" tf_step tf_inv for calls n
  by unfold_locales (auto intro: tf_inv_init tf_inv_step)

section \<open>Progress\<close>

text \<open>Every step brings the system nearer to its end.\<close>

fun client_rest :: "'v client_pc \<Rightarrow> nat" where
  "client_rest CL_Make = 8"
| "client_rest CL_Made = 7"
| "client_rest CL_Posted = 2"
| "client_rest CL_Holding = 6"
| "client_rest CL_Future = 1"
| "client_rest pc = 0"

fun worker_rest :: "runner_pc \<Rightarrow> nat" where
  "worker_rest WK_Idle = 0"
| "worker_rest (WK_Invoke i) = 2"
| "worker_rest (WK_Delete i) = 1"

definition tf_rest :: "'v tf_sys \<Rightarrow> nat" where
  "tf_rest s = (\<Sum>c\<leftarrow>tf_clients s. client_rest (cl_pc c)) + 3 * length (tf_queue s) + (\<Sum>q\<leftarrow>tf_workers s. worker_rest q)
     + (if tf_terminated s then 0 else 1)"

lemma sum_list_map_update:
  "i < length xs \<Longrightarrow> (\<Sum>x\<leftarrow>xs[i := y]. f x) + f (xs ! i) = (\<Sum>x\<leftarrow>xs. f x) + (f y :: nat)"
  by (induction xs arbitrary: i) (auto split: nat.splits)

lemma tf_rest_update [simp]:
  "tf_rest (s\<lparr>tf_alive := a\<rparr>) = tf_rest s" "tf_rest (s\<lparr>tf_promise := p\<rparr>) = tf_rest s"
  by (simp_all add: tf_rest_def)

lemma tf_rest_post [simp]: "tf_rest ((client_to i pc s)\<lparr>tf_queue := tf_queue s @ [k]\<rparr>) = tf_rest (client_to i pc s) + 3"
  by (simp add: tf_rest_def client_to_def)

lemma client_to_rest:
  "i < length (tf_clients s) \<Longrightarrow> tf_rest (client_to i pc s) + client_rest (cl_pc (tf_clients s ! i)) = tf_rest s + client_rest pc"
  using sum_list_map_update [of i "tf_clients s" "\<lambda>c. client_rest (cl_pc c)" "(tf_clients s ! i)\<lparr>cl_pc := pc\<rparr>"]
  by (simp add: tf_rest_def client_to_def)

lemma tf_step_rest: "tf_step s t \<Longrightarrow> tf_rest t < tf_rest s"
proof (induction rule: tf_step.induct)
  case (tf_client s i t)
  note rest = client_to_rest [OF tf_client(2)]
  have fut: "tf_rest (take_future i pc s) + client_rest (cl_pc (tf_clients s ! i)) \<le> tf_rest s + client_rest pc" for pc
    using rest [of pc] rest [of CL_Undefined] by (auto simp: take_future_def split: option.splits)
  show ?case
  proof (cases "cl_pc (tf_clients s ! i)")
    case CL_Made
    then show ?thesis using tf_client(3) fut [of CL_Holding] rest [of CL_Posted] by (auto simp: client_step_def split: if_splits)
  next
    case CL_Posted
    then show ?thesis using tf_client(3) fut [of CL_Future] by (auto simp: client_step_def)
  next
    case CL_Future
    then obtain v where "t = client_to i (CL_Answer v) s" using tf_client(3) by (auto simp: client_step_def)
    then show ?thesis using CL_Future rest [of "CL_Answer v"] by simp
  qed (use tf_client(3) rest [of CL_Made] rest [of CL_Future] in \<open>auto simp: client_step_def\<close>)
next
  case (tf_worker s w i t)
  note sum = sum_list_map_update [OF tf_worker(2), of worker_rest]
  show ?case
  proof (cases "tf_workers s ! w")
    case WK_Idle
    then have t: "i \<in> set (tf_queue s)" "t = s\<lparr>tf_queue := remove1 i (tf_queue s), tf_workers := (tf_workers s)[w := WK_Invoke i]\<rparr>"
      using tf_worker(3) by (auto simp: runner_step_def split: if_splits)
    then have "0 < length (tf_queue s)" "length (remove1 i (tf_queue s)) = length (tf_queue s) - 1"
      by (auto simp: length_remove1)
    then obtain m where "length (tf_queue s) = Suc m" "length (remove1 i (tf_queue s)) = m" by (cases "length (tf_queue s)") auto
    then show ?thesis using sum [of "WK_Invoke i"] WK_Idle by (simp add: tf_rest_def t(2))
  next
    case (WK_Invoke j)
    then show ?thesis
      using tf_worker(1,3) sum [of "WK_Delete j"] by (auto simp: runner_step_def tf_rest_def split: prod.splits bool.splits)
  next
    case (WK_Delete j)
    then show ?thesis using tf_worker(3) sum [of WK_Idle] by (auto simp: runner_step_def tf_rest_def)
  qed
qed

text \<open>With a worker at all, a system that cannot go on has answered every client, unless it was ended.\<close>

definition answered :: "'v client \<Rightarrow> bool" where
  "answered c \<longleftrightarrow> cl_pc c = CL_Answer (answer_of (cl_fn c)) \<or> cl_pc c = CL_Undefined \<and> \<not> cl_future_first c"

lemma worker_goes_on:
  assumes "w < length (tf_workers s)" "tf_workers s ! w \<noteq> WK_Idle \<or> tf_queue s \<noteq> []" "\<not> tf_terminated s"
  shows "\<exists>t. tf_step s t"
proof -
  have "\<exists>i t. runner_step w i s = Some t"
  proof (cases "tf_workers s ! w")
    case WK_Idle
    then obtain i where "i \<in> set (tf_queue s)" using assms(2) by (cases "tf_queue s") auto
    then show ?thesis using WK_Idle by (auto simp: runner_step_def)
  qed (auto simp: runner_step_def split: prod.splits bool.splits)
  then show ?thesis using tf_worker [OF assms(3,1)] by blast
qed

lemma stuck_answered:
  assumes inv: "tf_inv s" and w: "tf_workers s \<noteq> []" and nt: "\<not> tf_terminated s" and stuck: "\<nexists>t. tf_step s t" and i: "i < length (tf_clients s)"
  shows "answered (tf_clients s ! i)"
proof -
  have "places s = []"
  proof -
    have "tf_workers s ! v = WK_Idle \<and> tf_queue s = []" if "v < length (tf_workers s)" for v
      using worker_goes_on [OF that _ nt] stuck by blast
    then have "\<forall>q\<in>set (tf_workers s). worker_task q = []" "tf_queue s = []" using w by (auto simp: in_set_conv_nth)
    then show ?thesis by (simp add: places_def)
  qed
  moreover have "client_step i s = None" using tf_client [OF nt i] stuck by (cases "client_step i s") auto
  ultimately show ?thesis
    using tf_invD(2) [OF inv i] by (auto simp: client_step_def posted_ok_def answered_def split: client_pc.splits if_splits)
qed

lemma step_calls:
  "tf_step s t \<Longrightarrow> map (\<lambda>c. (cl_fn c, cl_future_first c)) (tf_clients t) = map (\<lambda>c. (cl_fn c, cl_future_first c)) (tf_clients s)
    \<and> length (tf_workers t) = length (tf_workers s)"
proof (induction rule: tf_step.induct)
  case (tf_client s i t)
  have to: "map (\<lambda>c. (cl_fn c, cl_future_first c)) (tf_clients (client_to i pc s)) = map (\<lambda>c. (cl_fn c, cl_future_first c)) (tf_clients s)
      \<and> tf_workers (client_to i pc s) = tf_workers s" for pc
    using tf_client(2) by (auto simp: client_to_def map_update list_update_same_conv)
  then have "map (\<lambda>c. (cl_fn c, cl_future_first c)) (tf_clients (take_future i pc s)) = map (\<lambda>c. (cl_fn c, cl_future_first c)) (tf_clients s)
      \<and> tf_workers (take_future i pc s) = tf_workers s" for pc
    by (auto simp: take_future_def split: option.splits)
  with to tf_client(3) show ?case by (auto simp: client_step_def Let_def split: client_pc.splits if_splits)
next
  case (tf_worker s w i t)
  then show ?case by (auto simp: runner_step_def split: runner_pc.splits if_splits prod.splits bool.splits)
qed

section \<open>Properties\<close>

text \<open>C8: Whatever the order in which clients and workers run, the answer a client gets is the one of its own callable: the value,
  or an exception; only a client that posts its task before it takes the future can
  come too late for it. No run goes on for ever, and where it ends, with at least one worker and no callable
  that threw something else than a standard exception, every client has its answer, or came too late.\<close>

theorem task_futures_answer:
  fixes calls :: "('v outcome \<times> bool) list"
  assumes "tf_step\<^sup>*\<^sup>* (tf_init calls n) s"
  shows "(\<forall>i<length calls. \<forall>v. cl_pc (tf_clients s ! i) = CL_Answer v \<longrightarrow> v = answer_of (fst (calls ! i)))
    \<and> (\<forall>i<length calls. cl_pc (tf_clients s ! i) = CL_Undefined \<longrightarrow> \<not> snd (calls ! i))
    \<and> wfp (\<lambda>t s :: 'v tf_sys. tf_step s t)
    \<and> (0 < n \<and> \<not> tf_terminated s \<and> (\<nexists>t. tf_step s t) \<longrightarrow>
        (\<forall>i<length calls. cl_pc (tf_clients s ! i) = CL_Answer (answer_of (fst (calls ! i))) \<or> cl_pc (tf_clients s ! i) = CL_Undefined))"
proof -
  have inv: "tf_inv s" using futures.inv_reachable [OF refl assms] .
  have eq: "map (\<lambda>c. (cl_fn c, cl_future_first c)) (tf_clients s) = calls \<and> length (tf_workers s) = n"
    using assms
  proof (induction rule: rtranclp_induct)
    case base
    show ?case by (simp add: tf_init_def case_prod_unfold comp_def)
  next
    case (step s t)
    then show ?case using step_calls [OF step(2)] by simp
  qed
  then have len: "length (tf_clients s) = length calls" by (metis length_map)
  have "(cl_fn (tf_clients s ! i), cl_future_first (tf_clients s ! i)) = calls ! i" if "i < length calls" for i
    using that len nth_map [of i "tf_clients s" "\<lambda>c. (cl_fn c, cl_future_first c)"] eq by simp
  then have same: "length (tf_clients s) = length calls \<and> length (tf_workers s) = n
      \<and> (\<forall>i<length calls. cl_fn (tf_clients s ! i) = fst (calls ! i) \<and> cl_future_first (tf_clients s ! i) = snd (calls ! i))"
    using len eq by (metis fst_conv snd_conv)
  have ok: "promise_ok (tf_clients s ! i) (count_list (places s) i) (i \<in> tf_alive s) (WK_Delete i \<in> set (tf_workers s)) (tf_promise s i)"
    if "i < length calls" for i using tf_invD(2) [OF inv] same that by simp
  have "wfp (\<lambda>t s :: 'v tf_sys. tf_step s t)"
    by (rule wfp_if_convertible_to_nat [of _ tf_rest]) (rule tf_step_rest)
  moreover have "cl_pc (tf_clients s ! i) = CL_Answer (answer_of (fst (calls ! i))) \<or> cl_pc (tf_clients s ! i) = CL_Undefined"
    if "0 < n" "\<not> tf_terminated s" "\<nexists>t. tf_step s t" "i < length calls" for i
    using stuck_answered [OF inv _ that(2,3), of i] same that(1,4) by (auto simp: answered_def)
  moreover have "v = answer_of (fst (calls ! i))" if "i < length calls" "cl_pc (tf_clients s ! i) = CL_Answer v" for i v
    using ok [OF that(1)] that same by simp
  moreover have "\<not> snd (calls ! i)" if "i < length calls" "cl_pc (tf_clients s ! i) = CL_Undefined" for i
    using ok [OF that(1)] that same by simp
  ultimately show ?thesis by blast
qed

text \<open>A run of given steps: a client, or a worker with the task it takes.\<close>

fun tf_exec :: "(nat + nat \<times> nat) list \<Rightarrow> 'v tf_sys \<Rightarrow> 'v tf_sys option" where
  "tf_exec [] s = Some s"
| "tf_exec (c # cs) s =
     (if tf_terminated s then None
      else Option.bind
        (case c of Inl i \<Rightarrow> if i < length (tf_clients s) then client_step i s else None
                 | Inr (w, i) \<Rightarrow> if w < length (tf_workers s) then runner_step w i s else None)
        (tf_exec cs))"

lemma tf_exec_run: "tf_exec cs s = Some t \<Longrightarrow> tf_step\<^sup>*\<^sup>* s t"
proof (induction cs arbitrary: s)
  case (Cons c cs)
  then obtain u where u: "tf_exec cs u = Some t" "tf_step s u"
    by (auto simp: bind_eq_Some_conv split: sum.splits prod.splits if_splits intro: tf_client tf_worker)
  then show ?case using Cons.IH converse_rtranclp_into_rtranclp [of tf_step s u t] by blast
qed simp

lemmas tf_run_simps = tf_init_def client_step_def runner_step_def take_future_def client_to_def promise_get_future_def new_promise_def base_task_execute_new

theorem task_futures_answer_witness:
  "\<exists>s. tf_step\<^sup>*\<^sup>* (tf_init [(Returns (5 :: int), True)] 1) s \<and> cl_pc (tf_clients s ! 0) = CL_Answer (Stored_value 5)
     \<and> wfp (\<lambda>t s :: int tf_sys. tf_step s t)"
proof -
  have "\<exists>s. tf_exec [Inl 0, Inl 0, Inl 0, Inr (0, 0), Inr (0, 0), Inl 0] (tf_init [(Returns (5 :: int), True)] 1) = Some s
      \<and> cl_pc (tf_clients s ! 0) = CL_Answer (Stored_value 5)"
    by (simp add: tf_run_simps)
  then obtain s where s: "tf_step\<^sup>*\<^sup>* (tf_init [(Returns (5 :: int), True)] 1) s" "cl_pc (tf_clients s ! 0) = CL_Answer (Stored_value 5)"
    using tf_exec_run by blast
  with task_futures_answer [OF s(1)] show ?thesis by blast
qed

text \<open>C34: \<open>Async\<close> can use a task after it was deleted: whatever the callable, unless it throws something else than a standard exception,
  a worker can execute and delete the task between the client's \<open>Post\<close> and its \<open>get_future\<close>.\<close>

theorem async_future_race:
  assumes "fn \<noteq> Throws_other" and "0 < n"
  shows "\<exists>s. tf_step\<^sup>*\<^sup>* (tf_init [(fn, False)] n) s \<and> cl_pc (tf_clients s ! 0) = CL_Undefined \<and> pr_value (tf_promise s 0) = Some (answer_of fn)"
proof -
  have "\<exists>s. tf_exec [Inl 0, Inl 0, Inr (0, 0), Inr (0, 0), Inr (0, 0), Inl 0] (tf_init [(fn, False)] n) = Some s
      \<and> cl_pc (tf_clients s ! 0) = CL_Undefined \<and> pr_value (tf_promise s 0) = Some (answer_of fn)"
    using assms by (simp add: tf_run_simps delete_promise_def)
  then show ?thesis using tf_exec_run by blast
qed

theorem async_future_race_witness:
  "\<exists>s. tf_step\<^sup>*\<^sup>* (tf_init [(Returns (7 :: int), False)] 2) s \<and> cl_pc (tf_clients s ! 0) = CL_Undefined"
  using async_future_race [of "Returns (7 :: int)" 2] by auto

end
