(* ===== verification/Executor_Slot.thy ===== *)
theory Executor_Slot
  imports Task_Queue Worker_Sleep Tasks
begin

text \<open>
  \<open>src/executor_slot.h\<close> and \<open>src/executor_slot.cpp\<close>: a slot of worker threads that share
  a queue, each with a queue of its own. A queue of task pointers is a \<open>TaskQueue\<close> with one
  lane; a waiter of the notifier has the number of its worker. The machine \<open>slot_step\<close> runs
  the loops of the workers against threads that post tasks and against the destructor, one
  search of the queues, one push, one access to the notifier or one access to a flag per step. A search
  of the queues is several accesses in the code: between them the deques themselves are the subject of
  \<open>Chase_Lev\<close>. The store of \<open>execute\<close> before \<open>commit_wait\<close> belongs to the first step of \<open>commit_wait\<close>. As in theory
  \<open>Worker_Sleep\<close>, \<open>ss_E\<close> and \<open>ss_ticket\<close> are bookkeeping that the code does not have, and so
  are the lists of posted and finished tasks.
\<close>

section \<open>Definitions\<close>

record 'r Worker =
  w_id :: nat
  w_cpu_id :: int
  w_vtm :: nat
  w_execute :: bool
  w_wsq :: "'r task TaskQueue"

record 'r ExecutorSlot =
  sl_id :: nat
  sl_name :: string
  sl_workers :: "'r Worker list"
  sl_wsq :: "'r task TaskQueue"
  sl_notifier :: WorkNotifier
  sl_done :: bool
  sl_entities_count :: int
  sl_m_entities_count :: "int option"

definition task_queue :: "'r task TaskQueue" where
  "task_queue = \<lparr>tq_top = [0], tq_bottom = [0], tq_array = [new_tq_Array None 512], tq_garbage = [[]]\<rparr>"

text \<open>The fields that \<open>spawn\<close> sets before it starts the thread of each worker.\<close>

definition spawn_worker :: "int list \<Rightarrow> nat \<Rightarrow> 'r Worker" where
  "spawn_worker cpus i = \<lparr>w_id = i, w_cpu_id = cpus ! i, w_vtm = i, w_execute = False, w_wsq = task_queue\<rparr>"

definition new_ExecutorSlot :: "nat \<Rightarrow> string \<Rightarrow> int list \<Rightarrow> ar_error + 'r ExecutorSlot" where
  "new_ExecutorSlot i name cpus =
     (case new_WorkNotifier (length cpus) of
        Inl e \<Rightarrow> Inl e
      | Inr n \<Rightarrow> Inr \<lparr>sl_id = i, sl_name = name, sl_workers = map (spawn_worker cpus) [0..<length cpus],
                      sl_wsq = task_queue, sl_notifier = n, sl_done = False, sl_entities_count = 0,
                      sl_m_entities_count = None\<rparr>)"

definition worker_push :: "nat \<Rightarrow> 'r task \<Rightarrow> 'r ExecutorSlot \<Rightarrow> 'r ExecutorSlot" where
  "worker_push i t s = (let w = sl_workers s ! i in
     s\<lparr>sl_workers := (sl_workers s)[i := w\<lparr>w_wsq := tq_push None (Some t) 0 (w_wsq w)\<rparr>]\<rparr>)"

definition slot_push :: "'r task \<Rightarrow> 'r ExecutorSlot \<Rightarrow> 'r ExecutorSlot" where
  "slot_push t s = s\<lparr>sl_wsq := tq_push None (Some t) 0 (sl_wsq s)\<rparr>"

text \<open>The first worker on a processor.\<close>

fun find_worker :: "int \<Rightarrow> 'r Worker list \<Rightarrow> nat option" where
  "find_worker cpu [] = None"
| "find_worker cpu (w # ws) = (if w_cpu_id w = cpu then Some 0 else map_option Suc (find_worker cpu ws))"

text \<open>
  \<open>post\<close> pushes the task, then notifies: the given waiter for a worker's own queue, any
  waiter for the shared queue.
\<close>

definition post_push :: "'r task \<Rightarrow> 'r ExecutorSlot \<Rightarrow> nat option \<times> 'r ExecutorSlot" where
  "post_push t s =
     (let state = tk_state t in
      if es_processor state \<noteq> INVALID_OBJECT_ID then
        case find_worker (es_processor state) (sl_workers s) of
          Some i \<Rightarrow> (Some i, worker_push i t s)
        | None \<Rightarrow> (None, slot_push t s)
      else (None, slot_push t s))"

definition post_notify :: "nat option \<Rightarrow> WorkNotifier \<Rightarrow> WorkNotifier option" where
  "post_notify target n = (case target of Some i \<Rightarrow> notify_waiter i n | None \<Rightarrow> map_option snd (notify False n))"

definition slot_post :: "'r task \<Rightarrow> 'r ExecutorSlot \<Rightarrow> 'r ExecutorSlot option" where
  "slot_post t s = (let (target, s1) = post_push t s in
     map_option (\<lambda>n. s1\<lparr>sl_notifier := n\<rparr>) (post_notify target (sl_notifier s1)))"

text \<open>The loop over the other workers; a queue is stolen from only while its worker executes.\<close>

fun steal_loop :: "nat \<Rightarrow> nat list \<Rightarrow> 'r Worker list \<Rightarrow> 'r task option \<times> 'r Worker list" where
  "steal_loop i [] ws = (None, ws)"
| "steal_loop i (j # js) ws =
     (if j \<noteq> i \<and> w_execute (ws ! j) then
        case tq_steal (w_wsq (ws ! j)) of
          (Some t, q) \<Rightarrow> (Some t, ws[j := (ws ! j)\<lparr>w_wsq := q\<rparr>])
        | (None, q) \<Rightarrow> steal_loop i js (ws[j := (ws ! j)\<lparr>w_wsq := q\<rparr>])
      else steal_loop i js ws)"

definition exploit_task :: "nat \<Rightarrow> 'r ExecutorSlot \<Rightarrow> 'r task option \<times> 'r ExecutorSlot" where
  "exploit_task i s =
     (let w = sl_workers s ! i; (t, q) = tq_pop (w_wsq w); s1 = s\<lparr>sl_workers := (sl_workers s)[i := w\<lparr>w_wsq := q\<rparr>]\<rparr> in
      if t \<noteq> None then (t, s1)
      else
        let (t, q) = tq_steal (sl_wsq s1); s2 = s1\<lparr>sl_wsq := q\<rparr> in
        if t \<noteq> None then (t, s2)
        else
          let (t, ws) = steal_loop i [0..<length (sl_workers s2)] (sl_workers s2) in
          (t, s2\<lparr>sl_workers := ws\<rparr>))"

definition explore_once :: "nat \<Rightarrow> 'r ExecutorSlot \<Rightarrow> bool" where
  "explore_once i s \<longleftrightarrow> \<not> tq_empty (w_wsq (sl_workers s ! i)) \<or> \<not> tq_empty (sl_wsq s)
     \<or> list_ex (\<lambda>j. j \<noteq> i \<and> w_execute (sl_workers s ! j) \<and> \<not> tq_empty (w_wsq (sl_workers s ! j))) [0..<length (sl_workers s)]"

definition MAX_STEALS :: nat where
  "MAX_STEALS = 24"

primrec explore_times :: "nat \<Rightarrow> nat \<Rightarrow> 'r ExecutorSlot \<Rightarrow> bool" where
  "explore_times 0 i s = False"
| "explore_times (Suc k) i s = (if explore_once i s then True else explore_times k i s)"

definition explore_task :: "nat \<Rightarrow> 'r ExecutorSlot \<Rightarrow> bool" where
  "explore_task i s = explore_times MAX_STEALS i s"

definition invoke :: "'r Worker \<Rightarrow> 'r task \<Rightarrow> 'r task" where
  "invoke w t = task_execute ((tk_state t)\<lparr>es_processor := w_cpu_id w\<rparr>) t"

definition slot_add_entity :: "'r ExecutorSlot \<Rightarrow> 'r ExecutorSlot" where
  "slot_add_entity s = s\<lparr>sl_m_entities_count := map_option (\<lambda>c. c + 1) (sl_m_entities_count s),
     sl_entities_count := sl_entities_count s + 1\<rparr>"

definition slot_delete_entity :: "'r ExecutorSlot \<Rightarrow> 'r ExecutorSlot" where
  "slot_delete_entity s =
     (let s1 = s\<lparr>sl_m_entities_count := map_option (\<lambda>c. c - 1) (sl_m_entities_count s)\<rparr>;
          old = sl_entities_count s1; s2 = s1\<lparr>sl_entities_count := old - 1\<rparr> in
      if old \<le> 0 then s2\<lparr>sl_entities_count := 0\<rparr> else s2)"

definition get_util :: "'r ExecutorSlot \<Rightarrow> int" where
  "get_util s = sl_entities_count s"

text \<open>The loop of a worker, and the destructor.\<close>

datatype 'r worker_pc =
    WL_Test | WL_Exploit | WL_Prepare | WL_Explore | WL_Cancel | WL_Renotify | WL_Store "'r task" | WL_Run "'r task"
  | WL_Commit | WL_Committing | WL_Park | WL_Exit

datatype slot_dtor = SD_Alive | SD_Done | SD_Joining | SD_Joined

record 'r slot_sys =
  ss_slot :: "'r ExecutorSlot"
  ss_pc :: "'r worker_pc list"
  ss_dtor :: slot_dtor
  ss_posting :: "nat option list"
  ss_posted :: "'r task list"
  ss_finished :: "('r task \<times> 'r task) list"
  ss_E :: nat
  ss_ticket :: "nat \<Rightarrow> nat"

definition set_execute :: "nat \<Rightarrow> bool \<Rightarrow> 'r ExecutorSlot \<Rightarrow> 'r ExecutorSlot" where
  "set_execute i b s = s\<lparr>sl_workers := (sl_workers s)[i := (sl_workers s ! i)\<lparr>w_execute := b\<rparr>]\<rparr>"

definition on_notifier :: "WorkNotifier \<Rightarrow> 'r ExecutorSlot \<Rightarrow> 'r ExecutorSlot" where
  "on_notifier n s = s\<lparr>sl_notifier := n\<rparr>"

definition worker_to :: "nat \<Rightarrow> 'r worker_pc \<Rightarrow> 'r ExecutorSlot \<Rightarrow> nat \<Rightarrow> 'r slot_sys \<Rightarrow> 'r slot_sys" where
  "worker_to i pc sl e s = s\<lparr>ss_slot := sl, ss_pc := (ss_pc s)[i := pc], ss_E := ss_E s + e\<rparr>"

fun after_cancel_pc :: "wait_result \<Rightarrow> 'r worker_pc" where
  "after_cancel_pc WR_done = WL_Renotify"
| "after_cancel_pc WR_notified = WL_Renotify"
| "after_cancel_pc r = WL_Cancel"

fun after_commit_pc :: "wait_result \<Rightarrow> 'r worker_pc" where
  "after_commit_pc WR_done = WL_Park"
| "after_commit_pc WR_notified = WL_Test"
| "after_commit_pc r = WL_Committing"

text \<open>One step of worker \<open>i\<close>; \<open>None\<close> when it sleeps, failed an assertion or has left its loop.\<close>

definition worker_step :: "nat \<Rightarrow> 'r slot_sys \<Rightarrow> 'r slot_sys option" where
  "worker_step i s =
     (let sl = ss_slot s; n = sl_notifier sl in
      case ss_pc s ! i of
        WL_Test \<Rightarrow> Some (worker_to i (if \<not> sl_done sl then WL_Exploit else WL_Exit) sl 0 s)
      | WL_Exploit \<Rightarrow> (case exploit_task i sl of
            (Some t, sl1) \<Rightarrow> Some (worker_to i (WL_Store t) sl1 0 s)
          | (None, sl1) \<Rightarrow> Some (worker_to i WL_Prepare sl1 0 s))
      | WL_Prepare \<Rightarrow>
          Some ((worker_to i WL_Explore (on_notifier (prepare_wait i n) sl) 0 s)
                  \<lparr>ss_ticket := (ss_ticket s)(i := ss_E s + prewait n)\<rparr>)
      | WL_Explore \<Rightarrow> Some (worker_to i (if explore_task i sl then WL_Cancel else WL_Commit) sl 0 s)
      | WL_Cancel \<Rightarrow> (let (r, n1) = cancel_iter i n in
          if r = WR_assert then None else Some (worker_to i (after_cancel_pc r) (on_notifier n1 sl) (decided r) s))
      | WL_Renotify \<Rightarrow> map_option (\<lambda>(_, n1). worker_to i WL_Test (on_notifier n1 sl) (min 1 (prewait n)) s) (notify False n)
      | WL_Store t \<Rightarrow> Some (worker_to i (WL_Run t) (set_execute i True sl) 0 s)
      | WL_Run t \<Rightarrow>
          Some ((worker_to i WL_Test sl 0 s)
                  \<lparr>ss_finished := ss_finished s @ [(t, invoke (sl_workers sl ! i) t)]\<rparr>)
      | WL_Commit \<Rightarrow> Some (worker_to i WL_Committing (on_notifier (commit_begin i n) (set_execute i False sl)) 0 s)
      | WL_Committing \<Rightarrow> (let (r, n1) = commit_iter i n in
          if r = WR_assert then None else Some (worker_to i (after_commit_pc r) (on_notifier n1 sl) (decided r) s))
      | WL_Park \<Rightarrow> (let (out, n1) = park_iter i n in
          if out then Some (worker_to i WL_Test (on_notifier n1 sl) 0 s)
          else if n1 \<noteq> n then Some (worker_to i WL_Park (on_notifier n1 sl) 0 s) else None)
      | WL_Exit \<Rightarrow> None)"

text \<open>A task may be posted by a client as long as the slot lives, and by a task that is running.\<close>

definition may_post :: "'r slot_sys \<Rightarrow> bool" where
  "may_post s \<longleftrightarrow> ss_dtor s = SD_Alive \<or> list_ex (\<lambda>pc. case pc of WL_Run t \<Rightarrow> True | _ \<Rightarrow> False) (ss_pc s)"

inductive slot_step :: "'r slot_sys \<Rightarrow> 'r slot_sys \<Rightarrow> bool" where
  slot_worker: "i < length (ss_pc s) \<Longrightarrow> worker_step i s = Some t \<Longrightarrow> slot_step s t"
| slot_post_push: "may_post s \<Longrightarrow> post_push tk (ss_slot s) = (target, sl) \<Longrightarrow>
    slot_step s (s\<lparr>ss_slot := sl, ss_posting := ss_posting s @ [target], ss_posted := ss_posted s @ [tk]\<rparr>)"
| slot_post_notify: "target \<in> set (ss_posting s) \<Longrightarrow> post_notify target (sl_notifier (ss_slot s)) = Some n \<Longrightarrow>
    slot_step s (s\<lparr>ss_slot := on_notifier n (ss_slot s), ss_posting := remove1 target (ss_posting s),
      ss_E := ss_E s + (if target = None then min 1 (prewait (sl_notifier (ss_slot s))) else prewait (sl_notifier (ss_slot s)))\<rparr>)"
| slot_dtor_done: "ss_dtor s = SD_Alive \<Longrightarrow>
    slot_step s (s\<lparr>ss_slot := (ss_slot s)\<lparr>sl_done := True\<rparr>, ss_dtor := SD_Done\<rparr>)"
| slot_dtor_notify: "ss_dtor s = SD_Done \<Longrightarrow> notify True (sl_notifier (ss_slot s)) = Some (r, n) \<Longrightarrow>
    slot_step s (s\<lparr>ss_slot := on_notifier n (ss_slot s), ss_dtor := SD_Joining,
      ss_E := ss_E s + prewait (sl_notifier (ss_slot s))\<rparr>)"
| slot_dtor_join: "ss_dtor s = SD_Joining \<Longrightarrow> list_all (\<lambda>pc. pc = WL_Exit) (ss_pc s) \<Longrightarrow>
    slot_step s (s\<lparr>ss_dtor := SD_Joined\<rparr>)"

inductive_cases slot_stepE: "slot_step s t"

definition slot_init :: "'r ExecutorSlot \<Rightarrow> 'r slot_sys" where
  "slot_init sl = \<lparr>ss_slot = sl, ss_pc = replicate (length (sl_workers sl)) WL_Test, ss_dtor = SD_Alive,
     ss_posting = [], ss_posted = [], ss_finished = [], ss_E = 2 ^ 32 - 1 - 2 * length (sl_workers sl), ss_ticket = (\<lambda>_. 0)\<rparr>"

section \<open>The queues\<close>

definition queue_ok :: "'r task TaskQueue \<Rightarrow> bool" where
  "queue_ok q \<longleftrightarrow> tq_inv q \<and> tq_lanes q = 1"

abbreviation queue_items :: "'r task TaskQueue \<Rightarrow> 'r task list" where
  "queue_items q \<equiv> tq_items 0 q"

lemma task_queue_facts:
  "queue_ok (task_queue :: 'r task TaskQueue) \<and> queue_items (task_queue :: 'r task TaskQueue) = []"
proof -
  have "new_TaskQueue None 1 512 = Inr (task_queue :: 'r task TaskQueue)"
    by (simp add: new_TaskQueue_def task_queue_def)
  from new_TaskQueue_inv [OF this] show ?thesis by (simp add: queue_ok_def)
qed

lemma one_lane: "queue_ok q \<Longrightarrow> tq_front q = (if queue_items q = [] then None else Some 0)"
  by (simp add: queue_ok_def tq_front_def)

lemma queue_empty: "queue_ok q \<Longrightarrow> tq_empty q \<longleftrightarrow> queue_items q = []"
  by (simp add: tq_empty_items one_lane)

lemma tq_put_lanes: "tq_lanes (tq_put p t b a g q) = tq_lanes q"
  by (simp add: tq_put_def)

interpretation slot_queue: work_deque queue_ok queue_items "\<lambda>x. tq_push None (Some x) 0" tq_pop tq_steal "\<lambda>_. True"
proof unfold_locales
  fix q :: "'r task TaskQueue" and x :: "'r task"
  assume q: "queue_ok q"
  then have inv: "tq_inv q" and p: "0 < tq_lanes q" and one: "tq_lanes q = 1" by (auto simp: queue_ok_def)
  note put = tq_put_facts [OF inv p] tq_put_lanes
  from tq_push_put [OF inv p, of None x] show "queue_ok (tq_push None (Some x) 0 q)"
    and "queue_items (tq_push None (Some x) 0 q) = list_push x (queue_items q)"
    using put one by (auto simp: queue_ok_def list_push_def)
  have pop: "tq_pop q = (if queue_items q = [] then (None, q) else tq_pop_at 0 q)"
    and steal: "tq_steal q = (if queue_items q = [] then (None, q) else tq_steal_at 0 q)"
    using tq_pop_front [OF inv] tq_steal_front [OF inv] one_lane [OF q] by auto
  show "queue_ok (snd (tq_pop q))" "map_prod id queue_items (tq_pop q) = list_pop (queue_items q)"
    using tq_pop_put [OF inv p] put inv one unfolding pop by (cases "queue_items q = []"; auto simp: queue_ok_def)+
  show "queue_ok (snd (tq_steal q))" "map_prod id queue_items (tq_steal q) = list_steal (queue_items q)"
    using tq_steal_put [OF inv p] put inv one unfolding steal by (cases "queue_items q"; auto simp: queue_ok_def)+
qed

lemma queue_none: "queue_ok q \<Longrightarrow> queue_items q = [] \<Longrightarrow> tq_pop q = (None, q) \<and> tq_steal q = (None, q)"
  by (simp add: queue_ok_def tq_pop_front tq_steal_front one_lane [unfolded queue_ok_def])

lemma queue_pop:
  assumes "queue_ok q" "queue_items q \<noteq> []"
  shows "\<exists>q'. tq_pop q = (Some (last (queue_items q)), q') \<and> queue_ok q' \<and> queue_items q' = butlast (queue_items q)"
  using slot_queue.pop_inv [OF assms(1)] slot_queue.pop_abs [OF assms(1)] assms(2)
  by (cases "tq_pop q") auto

lemma queue_steal:
  assumes "queue_ok q" "queue_items q \<noteq> []"
  shows "\<exists>q'. tq_steal q = (Some (hd (queue_items q)), q') \<and> queue_ok q' \<and> queue_items q' = tl (queue_items q)"
  using slot_queue.steal_inv [OF assms(1)] slot_queue.steal_abs [OF assms(1)] assms(2)
  by (cases "tq_steal q"; cases "queue_items q") auto

lemma mset_ends: "xs \<noteq> [] \<Longrightarrow> mset xs = add_mset (last xs) (mset (butlast xs)) \<and> mset xs = add_mset (hd xs) (mset (tl xs))"
  by (metis append_butlast_last_id list.collapse mset.simps(2) mset_append add_mset_add_single mset_single_iff_right
      union_mset_add_mset_right add.right_neutral mset_zero_iff)

text \<open>The tasks in the queues of a slot; one task is taken from one of them.\<close>

definition slot_wf :: "'r ExecutorSlot \<Rightarrow> bool" where
  "slot_wf s \<longleftrightarrow> queue_ok (sl_wsq s) \<and> (\<forall>w\<in>set (sl_workers s). queue_ok (w_wsq w))"

definition slot_tasks :: "'r ExecutorSlot \<Rightarrow> 'r task multiset" where
  "slot_tasks s = mset (queue_items (sl_wsq s)) + (\<Sum>w\<leftarrow>sl_workers s. mset (queue_items (w_wsq w)))"

definition took :: "'r task \<Rightarrow> 'r ExecutorSlot \<Rightarrow> 'r ExecutorSlot \<Rightarrow> bool" where
  "took t s s' \<longleftrightarrow>
     (\<exists>q. queue_ok q \<and> s' = s\<lparr>sl_wsq := q\<rparr> \<and> mset (queue_items (sl_wsq s)) = add_mset t (mset (queue_items q)))
   \<or> (\<exists>j q. j < length (sl_workers s) \<and> queue_ok q \<and> s' = s\<lparr>sl_workers := (sl_workers s)[j := (sl_workers s ! j)\<lparr>w_wsq := q\<rparr>]\<rparr>
        \<and> mset (queue_items (w_wsq (sl_workers s ! j))) = add_mset t (mset (queue_items q)))"

lemma sum_list_update_mset:
  fixes f :: "'b \<Rightarrow> 'c multiset"
  assumes "j < length xs"
  shows "(\<Sum>x\<leftarrow>xs[j := y]. f x) + f (xs ! j) = (\<Sum>x\<leftarrow>xs. f x) + f y"
proof -
  have "(\<Sum>x\<leftarrow>xs. f x) = (\<Sum>x\<leftarrow>take j xs. f x) + (f (xs ! j) + (\<Sum>x\<leftarrow>drop (Suc j) xs. f x))"
    using assms by (subst id_take_nth_drop [of j xs]) simp_all
  then show ?thesis using assms by (simp add: upd_conv_take_nth_drop ac_simps)
qed

lemma took_tasks: "took t s s' \<Longrightarrow> slot_tasks s = add_mset t (slot_tasks s')"
proof (unfold took_def, elim disjE exE conjE)
  fix j q
  assume j: "j < length (sl_workers s)" and s': "s' = s\<lparr>sl_workers := (sl_workers s)[j := (sl_workers s ! j)\<lparr>w_wsq := q\<rparr>]\<rparr>"
    and t: "mset (queue_items (w_wsq (sl_workers s ! j))) = add_mset t (mset (queue_items q))"
  from sum_list_update_mset [OF j, of "\<lambda>w. mset (queue_items (w_wsq w))" "(sl_workers s ! j)\<lparr>w_wsq := q\<rparr>"] t
  show ?thesis by (simp add: slot_tasks_def s')
qed (simp add: slot_tasks_def)

lemma took_wf: "took t s s' \<Longrightarrow> slot_wf s \<Longrightarrow> slot_wf s'"
  by (auto simp: took_def slot_wf_def dest!: set_update_subset_insert [THEN subsetD])

text \<open>What the search for a task finds.\<close>

definition stealable :: "nat \<Rightarrow> 'r Worker list \<Rightarrow> nat \<Rightarrow> bool" where
  "stealable i ws j \<longleftrightarrow> j \<noteq> i \<and> w_execute (ws ! j) \<and> queue_items (w_wsq (ws ! j)) \<noteq> []"

lemma steal_loop_find:
  assumes "\<forall>w\<in>set ws. queue_ok (w_wsq w)" "\<forall>j\<in>set js. j < length ws"
  shows "(List.find (stealable i ws) js = None \<and> steal_loop i js ws = (None, ws))
    \<or> (\<exists>j q. j \<in> set js \<and> stealable i ws j \<and> queue_ok q \<and> queue_items q = tl (queue_items (w_wsq (ws ! j)))
         \<and> steal_loop i js ws = (Some (hd (queue_items (w_wsq (ws ! j)))), ws[j := (ws ! j)\<lparr>w_wsq := q\<rparr>]))"
  using assms(2)
proof (induction js)
  case (Cons j js)
  have ok: "queue_ok (w_wsq (ws ! j))" using assms(1) Cons.prems by simp
  show ?case
  proof (cases "stealable i ws j")
    case True
    then obtain q where "tq_steal (w_wsq (ws ! j)) = (Some (hd (queue_items (w_wsq (ws ! j)))), q)" "queue_ok q"
      "queue_items q = tl (queue_items (w_wsq (ws ! j)))" using queue_steal [OF ok] by (auto simp: stealable_def)
    then show ?thesis using True by (intro disjI2 exI [of _ j] exI [of _ q]) (simp add: stealable_def)
  next
    case False
    then have "steal_loop i (j # js) ws = steal_loop i js ws"
      using queue_none [OF ok] Cons.prems by (auto simp: stealable_def list_update_same_conv)
    then show ?thesis using False Cons.IH Cons.prems by auto
  qed
qed simp

lemma explore_times_iff: "explore_times k i s \<longleftrightarrow> k > 0 \<and> explore_once i s"
  by (induction k) auto

lemma explore_task_iff:
  assumes "slot_wf s" "i < length (sl_workers s)"
  shows "explore_task i s \<longleftrightarrow> queue_items (w_wsq (sl_workers s ! i)) \<noteq> [] \<or> queue_items (sl_wsq s) \<noteq> []
     \<or> (\<exists>j<length (sl_workers s). stealable i (sl_workers s) j)"
proof -
  have ok: "queue_ok (w_wsq (sl_workers s ! j))" if "j < length (sl_workers s)" for j
    using assms(1) that by (simp add: slot_wf_def)
  have "queue_ok (sl_wsq s)" using assms(1) by (simp add: slot_wf_def)
  then show ?thesis
    using ok assms(2)
    by (auto simp: explore_task_def explore_times_iff MAX_STEALS_def explore_once_def queue_empty stealable_def list_ex_iff Bex_def)
qed

lemma steal_loop_took:
  assumes "slot_wf s"
  shows "(\<forall>j<length (sl_workers s). \<not> stealable i (sl_workers s) j)
      \<and> steal_loop i [0..<length (sl_workers s)] (sl_workers s) = (None, sl_workers s)
    \<or> (\<exists>t ws j. j < length (sl_workers s) \<and> stealable i (sl_workers s) j
      \<and> steal_loop i [0..<length (sl_workers s)] (sl_workers s) = (Some t, ws) \<and> took t s (s\<lparr>sl_workers := ws\<rparr>))"
proof -
  let ?ws = "sl_workers s"
  have "\<forall>w\<in>set ?ws. queue_ok (w_wsq w)" "\<forall>j\<in>set [0..<length ?ws]. j < length ?ws" using assms by (auto simp: slot_wf_def)
  from steal_loop_find [OF this, of i] show ?thesis
  proof (elim disjE exE conjE)
    assume "List.find (stealable i ?ws) [0..<length ?ws] = None" "steal_loop i [0..<length ?ws] ?ws = (None, ?ws)"
    then show ?thesis by (simp add: find_None_iff)
  next
    fix j q
    assume j: "j \<in> set [0..<length ?ws]" "stealable i ?ws j" "queue_ok q" "queue_items q = tl (queue_items (w_wsq (?ws ! j)))"
      "steal_loop i [0..<length ?ws] ?ws = (Some (hd (queue_items (w_wsq (?ws ! j)))), ?ws[j := (?ws ! j)\<lparr>w_wsq := q\<rparr>])"
    then have ne: "queue_items (w_wsq (?ws ! j)) \<noteq> []" by (simp add: stealable_def)
    have "took (hd (queue_items (w_wsq (?ws ! j)))) s (s\<lparr>sl_workers := ?ws[j := (?ws ! j)\<lparr>w_wsq := q\<rparr>]\<rparr>)"
      unfolding took_def using j mset_ends [OF ne, THEN conjunct2] by (intro disjI2 exI [of _ j] exI [of _ q]) simp
    then show ?thesis using j by auto
  qed
qed

lemma exploit_task_facts:
  assumes "slot_wf s" "i < length (sl_workers s)"
  shows "(\<not> explore_task i s \<and> exploit_task i s = (None, s))
    \<or> (\<exists>t s'. explore_task i s \<and> exploit_task i s = (Some t, s') \<and> took t s s')"
proof -
  let ?w = "sl_workers s ! i" and ?ws = "sl_workers s"
  have ok: "queue_ok (w_wsq ?w)" "queue_ok (sl_wsq s)" "\<forall>w\<in>set ?ws. queue_ok (w_wsq w)"
    using assms by (auto simp: slot_wf_def)
  have same: "s\<lparr>sl_workers := ?ws[i := ?w\<lparr>w_wsq := w_wsq ?w\<rparr>]\<rparr> = s" by simp
  note ex = explore_task_iff [OF assms]
  show ?thesis
  proof (cases "queue_items (w_wsq ?w) = []")
    case False
    then obtain q where q: "tq_pop (w_wsq ?w) = (Some (last (queue_items (w_wsq ?w))), q)" "queue_ok q"
      "queue_items q = butlast (queue_items (w_wsq ?w))" using queue_pop [OF ok(1)] by blast
    have "took (last (queue_items (w_wsq ?w))) s (s\<lparr>sl_workers := ?ws[i := ?w\<lparr>w_wsq := q\<rparr>]\<rparr>)"
      unfolding took_def using q(2,3) assms(2) mset_ends [OF False, THEN conjunct1] by (intro disjI2 exI [of _ i] exI [of _ q]) simp
    then show ?thesis using q(1) ex False by (simp add: exploit_task_def Let_def)
  next
    case own: True
    note n = queue_none [OF ok(1) own]
    show ?thesis
    proof (cases "queue_items (sl_wsq s) = []")
      case False
      then obtain q where q: "tq_steal (sl_wsq s) = (Some (hd (queue_items (sl_wsq s))), q)" "queue_ok q"
        "queue_items q = tl (queue_items (sl_wsq s))" using queue_steal [OF ok(2)] by blast
      have "took (hd (queue_items (sl_wsq s))) s (s\<lparr>sl_wsq := q\<rparr>)"
        unfolding took_def using q(2,3) mset_ends [OF False, THEN conjunct2] by (intro disjI1 exI [of _ q]) simp
      then show ?thesis using q(1) n ex False same by (simp add: exploit_task_def Let_def)
    next
      case shared: True
      have "exploit_task i s = (let (t, ws) = steal_loop i [0..<length ?ws] ?ws in (t, s\<lparr>sl_workers := ws\<rparr>))"
        using n queue_none [OF ok(2) shared] same by (simp add: exploit_task_def Let_def)
      then show ?thesis using steal_loop_took [OF assms(1), of i] ex own shared by auto
    qed
  qed
qed


section \<open>Every posted task is executed at most once\<close>

lemma find_worker_less: "find_worker cpu ws = Some i \<Longrightarrow> i < length ws \<and> w_cpu_id (ws ! i) = cpu"
  by (induction ws arbitrary: i) (auto split: if_splits)

text \<open>Where \<open>post\<close> puts the task.\<close>

lemma post_push_cases:
  assumes "post_push t s = (target, s')"
  obtains (shared) "target = None" "s' = slot_push t s"
  | (own) i where "target = Some i" "s' = worker_push i t s" "i < length (sl_workers s)"
      "w_cpu_id (sl_workers s ! i) = es_processor (tk_state t)"
proof (cases "es_processor (tk_state t) = INVALID_OBJECT_ID \<or> find_worker (es_processor (tk_state t)) (sl_workers s) = None")
  case False
  then obtain i where i: "find_worker (es_processor (tk_state t)) (sl_workers s) = Some i" by auto
  with False assms find_worker_less [OF i] own [of i] show thesis by (simp add: post_push_def)
qed (use assms shared in \<open>auto simp: post_push_def Let_def split: if_splits\<close>)

lemma queue_push: "queue_ok q \<Longrightarrow> queue_ok (tq_push None (Some t) 0 q) \<and> queue_items (tq_push None (Some t) 0 q) = queue_items q @ [t]"
  using slot_queue.push_inv [of q t] slot_queue.push_abs [of q t] by (simp add: list_push_def)

lemma post_push_facts:
  assumes "post_push t s = (target, s')" "slot_wf s"
  shows "slot_wf s'" "slot_tasks s' = add_mset t (slot_tasks s)" "length (sl_workers s') = length (sl_workers s)"
    "map w_cpu_id (sl_workers s') = map w_cpu_id (sl_workers s)" "sl_notifier s' = sl_notifier s" "sl_done s' = sl_done s"
    "target \<noteq> None \<Longrightarrow> queue_items (sl_wsq s') = queue_items (sl_wsq s)"
    "\<And>j. j < length (sl_workers s) \<Longrightarrow> target \<noteq> Some j \<Longrightarrow> sl_workers s' ! j = sl_workers s ! j"
proof -
  have ok: "queue_ok (sl_wsq s)" "\<And>w. w \<in> set (sl_workers s) \<Longrightarrow> queue_ok (w_wsq w)"
    using assms(2) by (auto simp: slot_wf_def)
  from assms(1) have "slot_wf s' \<and> slot_tasks s' = add_mset t (slot_tasks s) \<and> length (sl_workers s') = length (sl_workers s)
    \<and> map w_cpu_id (sl_workers s') = map w_cpu_id (sl_workers s) \<and> sl_notifier s' = sl_notifier s \<and> sl_done s' = sl_done s
    \<and> (target \<noteq> None \<longrightarrow> queue_items (sl_wsq s') = queue_items (sl_wsq s))
    \<and> (\<forall>j<length (sl_workers s). target \<noteq> Some j \<longrightarrow> sl_workers s' ! j = sl_workers s ! j)"
  proof (cases rule: post_push_cases)
    case shared
    then show ?thesis using ok queue_push [OF ok(1), of t] by (simp add: slot_push_def slot_wf_def slot_tasks_def)
  next
    case (own i)
    let ?w = "sl_workers s ! i" let ?w' = "?w\<lparr>w_wsq := tq_push None (Some t) 0 (w_wsq ?w)\<rparr>"
    have q: "queue_ok (w_wsq ?w')" "queue_items (w_wsq ?w') = queue_items (w_wsq ?w) @ [t]"
      using queue_push [OF ok(2), of ?w t] own(3) by auto
    have "slot_wf s'" using ok q(1) own(2)
      by (auto simp: slot_wf_def worker_push_def Let_def dest!: set_update_subset_insert [THEN subsetD])
    moreover have "slot_tasks s' = add_mset t (slot_tasks s)"
      using sum_list_update_mset [OF own(3), of "\<lambda>w. mset (queue_items (w_wsq w))" ?w'] q(2) own(2)
      by (simp add: slot_tasks_def worker_push_def Let_def)
    ultimately show ?thesis using own by (auto simp: worker_push_def Let_def map_update list_update_same_conv)
  qed
  then show "slot_wf s'" "slot_tasks s' = add_mset t (slot_tasks s)" "length (sl_workers s') = length (sl_workers s)"
    "map w_cpu_id (sl_workers s') = map w_cpu_id (sl_workers s)" "sl_notifier s' = sl_notifier s" "sl_done s' = sl_done s"
    "target \<noteq> None \<Longrightarrow> queue_items (sl_wsq s') = queue_items (sl_wsq s)"
    "\<And>j. j < length (sl_workers s) \<Longrightarrow> target \<noteq> Some j \<Longrightarrow> sl_workers s' ! j = sl_workers s ! j" by auto
qed

definition running :: "'r worker_pc \<Rightarrow> 'r task multiset" where
  "running pc = (case pc of WL_Store t \<Rightarrow> {#t#} | WL_Run t \<Rightarrow> {#t#} | _ \<Rightarrow> {#})"

lemma running_simps [simp]:
  "running (WL_Store t) = {#t#}" "running (WL_Run t) = {#t#}" "running WL_Test = {#}" "running WL_Exploit = {#}" "running WL_Prepare = {#}"
  "running WL_Explore = {#}" "running WL_Cancel = {#}" "running WL_Renotify = {#}" "running WL_Commit = {#}"
  "running WL_Committing = {#}" "running WL_Park = {#}" "running WL_Exit = {#}"
  by (simp_all add: running_def)

lemma running_after [simp]: "running (after_cancel_pc r) = {#}" "running (after_commit_pc r) = {#}"
  by (cases r; simp)+

definition executed_on :: "int list \<Rightarrow> 'r task \<times> 'r task \<Rightarrow> bool" where
  "executed_on cpus x \<longleftrightarrow> (\<exists>c\<in>set cpus. snd x = task_execute ((tk_state (fst x))\<lparr>es_processor := c\<rparr>) (fst x))"

definition slot_accounted :: "int list \<Rightarrow> 'r slot_sys \<Rightarrow> bool" where
  "slot_accounted cpus s \<longleftrightarrow> slot_wf (ss_slot s) \<and> length (ss_pc s) = length (sl_workers (ss_slot s))
     \<and> map w_cpu_id (sl_workers (ss_slot s)) = cpus
     \<and> mset (ss_posted s) = slot_tasks (ss_slot s) + (\<Sum>pc\<leftarrow>ss_pc s. running pc) + mset (map fst (ss_finished s))
     \<and> (\<forall>x\<in>set (ss_finished s). executed_on cpus x)"

lemma slot_keeps [simp]:
  "slot_wf (on_notifier n s) = slot_wf s" "slot_tasks (on_notifier n s) = slot_tasks s" "sl_workers (on_notifier n s) = sl_workers s"
  "sl_done (on_notifier n s) = sl_done s" "sl_notifier (on_notifier n s) = n" "sl_wsq (on_notifier n s) = sl_wsq s"
  by (simp_all add: on_notifier_def slot_wf_def slot_tasks_def)

lemma set_execute_keeps [simp]:
  "length (sl_workers (set_execute i b s)) = length (sl_workers s)" "map w_cpu_id (sl_workers (set_execute i b s)) = map w_cpu_id (sl_workers s)"
  "sl_done (set_execute i b s) = sl_done s" "sl_notifier (set_execute i b s) = sl_notifier s" "sl_wsq (set_execute i b s) = sl_wsq s"
  by (auto simp: set_execute_def map_update list_update_same_conv) (metis list_update_beyond list_update_id map_update nth_map not_le)

lemma set_execute_queue [simp]: "w_wsq (sl_workers (set_execute i b s) ! j) = w_wsq (sl_workers s ! j)"
  by (cases "i < length (sl_workers s)"; cases "i = j") (auto simp: set_execute_def list_update_beyond)

lemma set_execute_tasks [simp]: "slot_tasks (set_execute i b s) = slot_tasks s" "slot_wf (set_execute i b s) = slot_wf s"
proof -
  have "map w_wsq (sl_workers (set_execute i b s)) = map w_wsq (sl_workers s)" by (rule nth_equalityI) auto
  then have "map (\<lambda>q. mset (queue_items q)) (map w_wsq (sl_workers (set_execute i b s))) = map (\<lambda>q. mset (queue_items q)) (map w_wsq (sl_workers s))"
    and "w_wsq ` set (sl_workers (set_execute i b s)) = w_wsq ` set (sl_workers s)"
    by (simp, metis image_set)
  then show "slot_tasks (set_execute i b s) = slot_tasks s" "slot_wf (set_execute i b s) = slot_wf s"
    by (auto simp: slot_tasks_def slot_wf_def comp_def ball_simps(9) [symmetric] simp del: ball_simps(9))
qed

lemma took_keeps:
  assumes "took t s s'"
  shows "length (sl_workers s') = length (sl_workers s)" "map w_cpu_id (sl_workers s') = map w_cpu_id (sl_workers s)"
    "sl_notifier s' = sl_notifier s" "sl_done s' = sl_done s" "queue_items (sl_wsq s) = [] \<Longrightarrow> queue_items (sl_wsq s') = []"
    "\<And>j. j < length (sl_workers s) \<Longrightarrow> queue_items (w_wsq (sl_workers s ! j)) = [] \<Longrightarrow> queue_items (w_wsq (sl_workers s' ! j)) = []"
  using assms by (auto simp: took_def map_update list_update_same_conv nth_list_update)

lemma slot_accounted_worker:
  assumes inv: "slot_accounted cpus s" and i: "i < length (ss_pc s)" and step: "worker_step i s = Some t"
  shows "slot_accounted cpus t"
proof -
  have wf: "slot_wf (ss_slot s)" and iw: "i < length (sl_workers (ss_slot s))" using inv i by (auto simp: slot_accounted_def)
  have move: "(\<Sum>pc\<leftarrow>(ss_pc s)[i := pc']. running pc) + running (ss_pc s ! i) = (\<Sum>pc\<leftarrow>ss_pc s. running pc) + running pc'" for pc'
    by (rule sum_list_update_mset [OF i])
  show ?thesis
  proof (cases "ss_pc s ! i")
    case WL_Exploit
    from exploit_task_facts [OF wf iw] show ?thesis
    proof (elim disjE exE conjE)
      assume "exploit_task i (ss_slot s) = (None, ss_slot s)"
      then show ?thesis using step inv move [of WL_Prepare] WL_Exploit
        by (auto simp: worker_step_def worker_to_def slot_accounted_def)
    next
      fix tk sl assume e: "exploit_task i (ss_slot s) = (Some tk, sl)" "took tk (ss_slot s) sl"
      then show ?thesis using step inv move [of "WL_Store tk"] WL_Exploit took_tasks [OF e(2)] took_wf [OF e(2)] took_keeps [OF e(2)]
        by (auto simp: worker_step_def worker_to_def slot_accounted_def)
    qed
  next
    case (WL_Store tk)
    then have "(\<Sum>pc\<leftarrow>(ss_pc s)[i := WL_Run tk]. running pc) = (\<Sum>pc\<leftarrow>ss_pc s. running pc)"
      using move [of "WL_Run tk"] by simp
    then show ?thesis using step inv WL_Store by (auto simp: worker_step_def worker_to_def slot_accounted_def Let_def)
  next
    case (WL_Run tk)
    have "executed_on cpus (tk, invoke (sl_workers (ss_slot s) ! i) tk)"
      using inv iw by (auto simp: slot_accounted_def invoke_def executed_on_def)
    moreover have "(\<Sum>pc\<leftarrow>ss_pc s. running pc) = add_mset tk (\<Sum>pc\<leftarrow>(ss_pc s)[i := WL_Test]. running pc)"
      using move [of WL_Test] WL_Run by simp
    ultimately show ?thesis using step inv WL_Run
      by (auto simp: worker_step_def worker_to_def slot_accounted_def Let_def)
  qed (use step inv move in \<open>auto simp: worker_step_def worker_to_def slot_accounted_def Let_def split: if_splits prod.splits\<close>)
qed

lemma slot_accounted_step:
  assumes inv: "slot_accounted cpus s" and step: "slot_step s t"
  shows "slot_accounted cpus t"
  using step
proof cases
  case (slot_worker i)
  then show ?thesis using slot_accounted_worker [OF inv] by blast
next
  case (slot_post_push tk target sl)
  have "slot_wf (ss_slot s)" using inv by (simp add: slot_accounted_def)
  from post_push_facts [OF slot_post_push(3) this] show ?thesis
    using inv slot_post_push(1) by (auto simp: slot_accounted_def)
qed (use inv in \<open>auto simp: slot_accounted_def slot_wf_def slot_tasks_def\<close>)

lemma new_ExecutorSlot_facts:
  fixes sl :: "'r ExecutorSlot"
  assumes "new_ExecutorSlot sid name cpus = Inr sl"
  shows "slot_wf sl" "slot_tasks sl = {#}" "map w_cpu_id (sl_workers sl) = cpus" "\<not> sl_done sl"
    "new_WorkNotifier (length cpus) = Inr (sl_notifier sl)" "length (sl_workers sl) = length cpus"
    "queue_items (sl_wsq sl) = []" "\<And>i. i < length cpus \<Longrightarrow> queue_items (w_wsq (sl_workers sl ! i)) = []"
proof -
  obtain n where n: "new_WorkNotifier (length cpus) = Inr n"
    and sl: "sl = \<lparr>sl_id = sid, sl_name = name, sl_workers = map (spawn_worker cpus) [0..<length cpus],
        sl_wsq = task_queue, sl_notifier = n, sl_done = False, sl_entities_count = 0, sl_m_entities_count = None\<rparr>"
    using assms by (auto simp: new_ExecutorSlot_def split: sum.splits)
  have "map w_cpu_id (map (spawn_worker cpus) [0..<length cpus]) = cpus"
    by (rule nth_equalityI) (simp_all add: spawn_worker_def)
  then show "map w_cpu_id (sl_workers sl) = cpus" by (simp add: sl)
  show "slot_wf sl" "\<not> sl_done sl" "new_WorkNotifier (length cpus) = Inr (sl_notifier sl)"
    "length (sl_workers sl) = length cpus" "queue_items (sl_wsq sl) = []"
    "\<And>i. i < length cpus \<Longrightarrow> queue_items (w_wsq (sl_workers sl ! i)) = []"
    using task_queue_facts n by (auto simp: slot_wf_def sl spawn_worker_def)
  have "(\<Sum>i\<leftarrow>xs. mset (queue_items (w_wsq (spawn_worker cpus i :: 'r Worker)))) = {#}" for xs
    using task_queue_facts [where ?'r = 'r] by (induction xs) (simp_all add: spawn_worker_def)
  then show "slot_tasks sl = {#}" using task_queue_facts [where ?'r = 'r] by (simp add: slot_tasks_def sl comp_def)
qed

lemma slot_accounted_init:
  assumes "new_ExecutorSlot sid name cpus = Inr sl"
  shows "slot_accounted cpus (slot_init sl)"
proof -
  have "(\<Sum>pc\<leftarrow>replicate k (WL_Test :: 'a worker_pc). running pc) = {#}" for k by (induction k) simp_all
  then show ?thesis using new_ExecutorSlot_facts [OF assms] by (simp add: slot_accounted_def slot_init_def)
qed

interpretation slot_run: step_invariant
  "\<lambda>s :: 'r slot_sys. \<exists>sid name sl. new_ExecutorSlot sid name cpus = Inr sl \<and> s = slot_init sl" slot_step "slot_accounted cpus" for cpus
  by unfold_locales (auto intro: slot_accounted_init slot_accounted_step)

text \<open>C1: In every run of a slot, its workers, the posting threads and the destructor, each
  posted task is in exactly one place: in one queue, running on one worker, or finished; so
  no task is lost and none is executed twice. A finished task was executed with its own
  execution state, except that the processor is the one of a worker of the slot.\<close>

theorem slot_exactly_once:
  assumes "new_ExecutorSlot sid name cpus = Inr sl" and "slot_step\<^sup>*\<^sup>* (slot_init sl) s"
  shows "mset (ss_posted s) = slot_tasks (ss_slot s) + (\<Sum>pc\<leftarrow>ss_pc s. running pc) + mset (map fst (ss_finished s))
     \<and> (\<forall>(a, b)\<in>set (ss_finished s). \<exists>c\<in>set cpus. b = task_execute ((tk_state a)\<lparr>es_processor := c\<rparr>) a)"
proof -
  have "slot_accounted cpus s"
    using slot_run.inv_reachable [of cpus "slot_init sl" s] assms by blast
  then show ?thesis by (simp add: slot_accounted_def executed_on_def case_prod_unfold)
qed

lemma small_slot: "\<exists>sl :: 'r ExecutorSlot. new_ExecutorSlot 0 ''io'' [0, 1] = Inr sl"
  by (simp add: new_ExecutorSlot_def new_WorkNotifier_def)

theorem slot_exactly_once_witness:
  "\<exists>(sl :: unit ExecutorSlot) s t. new_ExecutorSlot 0 ''io'' [0, 1] = Inr sl \<and> slot_step\<^sup>*\<^sup>* (slot_init sl) s \<and> ss_posted s = [t]
     \<and> {#t#} = slot_tasks (ss_slot s) + (\<Sum>pc\<leftarrow>ss_pc s. running pc) + mset (map fst (ss_finished s))"
proof -
  obtain sl :: "unit ExecutorSlot" where sl: "new_ExecutorSlot 0 ''io'' [0, 1] = Inr sl" using small_slot by blast
  obtain t :: "unit task" where True by blast
  obtain target sl' where "post_push t (ss_slot (slot_init sl)) = (target, sl')" by fastforce
  from slot_post_push [OF _ this] have "\<exists>s. slot_step (slot_init sl) s \<and> ss_posted s = [t]"
    by (fastforce simp: may_post_def slot_init_def)
  then obtain s where s: "slot_step (slot_init sl) s" "ss_posted s = [t]" by blast
  from slot_exactly_once [OF sl r_into_rtranclp, OF s(1)] s sl show ?thesis
    by (intro exI [of _ sl] exI [of _ s] exI [of _ t]) auto
qed

end
