(* ===== verification/Slot_Progress.thy ===== *)
theory Slot_Progress
  imports Executor_Slot
begin

text \<open>
  No lost wake-up in an executor slot (\<open>src/executor_slot.cpp\<close> with \<open>src/work_notifier.h\<close>): as
  long as a task is queued and the slot is not being destroyed, a notification is on its way
  or a worker is awake. The destructor is the exception: its notification can fall between a
  worker's test of \<open>done\<close> and its \<open>prepare_wait\<close>.
\<close>

section \<open>Sleeping waiters\<close>

definition asleep :: "WorkNotifier \<Rightarrow> wn_pc list \<Rightarrow> nat \<Rightarrow> (nat \<Rightarrow> nat) \<Rightarrow> nat \<Rightarrow> bool" where
  "asleep n pcs E tk i \<longleftrightarrow> undecided (pcs ! i) \<and> E \<le> tk i
     \<or> pcs ! i = WParked \<and> w_state (wn_waiters n ! i) \<noteq> kSignaled"

lemma asleep_iff:
  assumes "wn_core n pcs E tk p stk" "i < length pcs"
  shows "asleep n pcs E tk i \<longleftrightarrow> i \<in> pending pcs E tk \<or> i \<in> set stk"
  using assms by (auto simp: asleep_def wn_core_def pending_def)

text \<open>A notification of one waiter leaves one waiter awake, one of all leaves all awake.\<close>

lemma notify_one_awakes:
  assumes c: "wn_core n pcs E tk p stk" and ne: "pcs \<noteq> []"
  shows "\<exists>r n'. notify False n = Some (r, n') \<and> (\<exists>p' stk'. wn_core n' pcs (E + min 1 p) tk p' stk')
     \<and> (\<exists>i<length pcs. \<not> asleep n' pcs (E + min 1 p) tk i)
     \<and> (\<forall>i<length pcs. asleep n' pcs (E + min 1 p) tk i \<longrightarrow> asleep n pcs E tk i)"
proof -
  obtain r n' p' stk' where n': "notify False n = Some (r, n')" and c': "wn_core n' pcs (E + min 1 p) tk p' stk'"
    and p': "p' = p - 1" "stk' = (if p = 0 then tl stk else stk)" using core_notify_one [OF c] by blast
  note a = asleep_iff [OF c] and a' = asleep_iff [OF c']
  have "set stk' \<subseteq> set stk" using p'(2) by (cases stk) auto
  then have mono: "\<forall>i<length pcs. asleep n' pcs (E + min 1 p) tk i \<longrightarrow> asleep n pcs E tk i"
    using a a' by (auto simp: pending_def)
  have bij: "tk ` pending pcs E tk = {E..<E + p}" using c by (simp add: wn_core_def bij_betw_def)
  have "\<exists>i<length pcs. \<not> asleep n' pcs (E + min 1 p) tk i"
  proof (cases p)
    case (Suc q)
    then have "E \<in> tk ` pending pcs E tk" using bij by simp
    then obtain i where "i \<in> pending pcs E tk" "tk i = E" by blast
    with Suc show ?thesis by (intro exI [of _ i]) (auto simp: pending_def asleep_def undecided_def)
  next
    case 0
    show ?thesis
    proof (cases stk)
      case Nil
      with 0 p' bij ne have "\<not> asleep n' pcs (E + min 1 p) tk 0" using a' [of 0] by auto
      with ne show ?thesis by blast
    next
      case (Cons x xs)
      then have "x < length pcs" "x \<notin> set xs" using c by (auto simp: wn_core_def wn_rep_def)
      with 0 Cons p' bij have "\<not> asleep n' pcs (E + min 1 p) tk x" using a' [of x] by auto
      with \<open>x < length pcs\<close> show ?thesis by blast
    qed
  qed
  with n' c' mono show ?thesis by blast
qed

lemma core_notify_waiter:
  assumes c: "wn_core n pcs E tk p stk" and ne: "pcs \<noteq> []"
  shows "\<exists>n'. notify_waiter w n = Some n' \<and> wn_core n' pcs (E + p) tk 0 []"
proof -
  have rep: "wn_rep n E p stk" and ws: "wn_waiters n \<noteq> []" using c ne by (auto simp: wn_core_def)
  obtain n1 where n1: "notify True n = Some (list_head stk, n1)" "wn_core n1 pcs (E + p) tk 0 []"
    using core_notify_all [OF c] by blast
  then have r1: "wn_rep n1 (E + p) 0 []" by (simp add: wn_core_def)
  obtain k where "length (wn_waiters n) = Suc k" using ws by (cases "wn_waiters n") auto
  with n1 have "notify_waiter w n = Some n1"
    by (simp add: notify_waiter_def notify_until_nobody [OF r1] notify_nobody [OF r1])
  with n1 show ?thesis by blast
qed

lemma quiet_not_asleep: "wn_core n pcs E tk 0 [] \<Longrightarrow> i < length pcs \<Longrightarrow> \<not> asleep n pcs E tk i"
  using asleep_iff [of n pcs E tk 0 "[]" i] by (auto simp: wn_core_def bij_betw_def)

text \<open>The waiting operations of a worker touch no other waiter.\<close>

lemma waiter_frames:
  assumes "j \<noteq> i"
  shows "wn_waiters (prepare_wait i n) ! j = wn_waiters n ! j" "wn_waiters (commit_begin i n) ! j = wn_waiters n ! j"
    "wn_waiters (snd (commit_iter i n)) ! j = wn_waiters n ! j" "wn_waiters (snd (cancel_iter i n)) ! j = wn_waiters n ! j"
    "wn_waiters (snd (park_iter i n)) ! j = wn_waiters n ! j"
  using assms by (simp_all add: prepare_wait_def commit_begin_def commit_iter_def cancel_iter_def park_iter_def Let_def)

lemma asleep_frame:
  assumes "asleep n' (pcs[i := c]) E' tk' j" "j \<noteq> i" "E \<le> E'" "tk' j = tk j" "wn_waiters n' ! j = wn_waiters n ! j"
  shows "asleep n pcs E tk j"
  using assms by (auto simp: asleep_def)

section \<open>The invariant\<close>

fun wait_pc :: "'r worker_pc \<Rightarrow> wn_pc" where
  "wait_pc WL_Explore = WPrepared"
| "wait_pc WL_Cancel = WPrepared"
| "wait_pc WL_Commit = WPrepared"
| "wait_pc WL_Committing = WCommitting"
| "wait_pc WL_Park = WParked"
| "wait_pc _ = WIdle"

fun giving_up :: "'r worker_pc \<Rightarrow> bool" where
  "giving_up WL_Commit = True"
| "giving_up WL_Committing = True"
| "giving_up WL_Park = True"
| "giving_up _ = False"

definition awake :: "nat \<Rightarrow> 'r slot_sys \<Rightarrow> bool" where
  "awake i s \<longleftrightarrow> ss_pc s ! i \<noteq> WL_Exit \<and>
     (giving_up (ss_pc s ! i) \<longrightarrow> \<not> asleep (sl_notifier (ss_slot s)) (map wait_pc (ss_pc s)) (ss_E s) (ss_ticket s) i)"

definition slot_timely :: "'r slot_sys \<Rightarrow> bool" where
  "slot_timely s \<longleftrightarrow> (\<forall>i<length (ss_pc s). undecided (wait_pc (ss_pc s ! i)) \<longrightarrow> ss_E s < ss_ticket s i + 2 ^ 31)"

definition timely_slot_step :: "'r slot_sys \<Rightarrow> 'r slot_sys \<Rightarrow> bool" where
  "timely_slot_step s t \<longleftrightarrow> slot_step s t \<and> slot_timely t"

definition slot_core :: "'r slot_sys \<Rightarrow> bool" where
  "slot_core s \<longleftrightarrow> slot_timely s \<and> ss_pc s \<noteq> []
     \<and> (\<exists>p stk. wn_core (sl_notifier (ss_slot s)) (map wait_pc (ss_pc s)) (ss_E s) (ss_ticket s) p stk)"

definition slot_covered :: "'r slot_sys \<Rightarrow> bool" where
  "slot_covered s \<longleftrightarrow> (\<forall>i<length (ss_pc s). ss_pc s ! i \<noteq> WL_Exit)
     \<and> (None \<notin> set (ss_posting s) \<and> queue_items (sl_wsq (ss_slot s)) \<noteq> [] \<longrightarrow> (\<exists>i<length (ss_pc s). awake i s))
     \<and> (\<forall>i<length (ss_pc s). Some i \<notin> set (ss_posting s) \<and> queue_items (w_wsq (sl_workers (ss_slot s) ! i)) \<noteq> [] \<longrightarrow> awake i s)"

definition slot_live :: "int list \<Rightarrow> 'r slot_sys \<Rightarrow> bool" where
  "slot_live cpus s \<longleftrightarrow> slot_accounted cpus s \<and> slot_core s \<and> (\<not> sl_done (ss_slot s) \<longrightarrow> slot_covered s)"

text \<open>What a step of worker \<open>i\<close> does to the notifier.\<close>

lemma wait_pc_after [simp]: "wait_pc (after_cancel_pc r) = after_cancel r" "wait_pc (after_commit_pc r) = after_commit r"
  by (cases r; simp)+

lemma expected_not_assert [simp]: "expected E t \<noteq> WR_assert" "WR_assert \<noteq> expected E t"
  by (simp_all add: expected_def)

text \<open>The steps that leave the notifier alone: testing \<open>done\<close>, taking and running a task, looking for one to steal.\<close>

lemma worker_step_quiet:
  assumes i: "i < length (ss_pc s)" and step: "worker_step i s = Some t"
    and wf: "slot_wf (ss_slot s)" "length (ss_pc s) = length (sl_workers (ss_slot s))"
    and pc: "ss_pc s ! i \<in> {WL_Exploit, WL_Explore, WL_Test} \<or> (\<exists>tk. ss_pc s ! i = WL_Store tk \<or> ss_pc s ! i = WL_Run tk)"
  shows "sl_notifier (ss_slot t) = sl_notifier (ss_slot s)" "map wait_pc (ss_pc t) = map wait_pc (ss_pc s)"
    "ss_E t = ss_E s" "ss_ticket t = ss_ticket s"
proof -
  have same: "(map wait_pc (ss_pc s))[i := w] = map wait_pc (ss_pc s)" if "wait_pc (ss_pc s ! i) = w" for w
    using that i by (auto simp: list_update_same_conv)
  have e: "exploit_task i (ss_slot s) = (tk, sl) \<Longrightarrow> sl_notifier sl = sl_notifier (ss_slot s)" for tk sl
    using exploit_task_facts [OF wf(1), of i] wf(2) i took_keeps(3) by fastforce
  show "sl_notifier (ss_slot t) = sl_notifier (ss_slot s)" "map wait_pc (ss_pc t) = map wait_pc (ss_pc s)"
    "ss_E t = ss_E s" "ss_ticket t = ss_ticket s"
    using pc step e same
    by (auto simp: worker_step_def worker_to_def map_update Let_def split: prod.splits option.splits if_splits)
qed

lemma slot_core_worker:
  assumes core: "slot_core s" and i: "i < length (ss_pc s)" and step: "worker_step i s = Some t"
    and wf: "slot_wf (ss_slot s)" "length (ss_pc s) = length (sl_workers (ss_slot s))"
  shows "\<exists>p stk. wn_core (sl_notifier (ss_slot t)) (map wait_pc (ss_pc t)) (ss_E t) (ss_ticket t) p stk"
proof -
  let ?n = "sl_notifier (ss_slot s)" and ?pcs = "map wait_pc (ss_pc s)" and ?E = "ss_E s" and ?tk = "ss_ticket s"
  obtain p stk where c: "wn_core ?n ?pcs ?E ?tk p stk" using core by (auto simp: slot_core_def)
  have pw: "prewait ?n = p" using c prewait_rep by (auto simp: wn_core_def)
  have il: "i < length ?pcs" and pc: "?pcs ! i = wait_pc (ss_pc s ! i)" using i by simp_all
  have timely: "undecided (wait_pc (ss_pc s ! i)) \<Longrightarrow> ?E < ?tk i + 2 ^ 31" using core i by (simp add: slot_core_def slot_timely_def)
  have result: ?thesis
    if "sl_notifier (ss_slot t) = n'" "map wait_pc (ss_pc t) = pcs'" "ss_E t = E'" "ss_ticket t = tk'" "wn_core n' pcs' E' tk' p' stk'"
    for n' pcs' E' tk' p' stk' using that by auto
  note defs = worker_step_def worker_to_def map_update
  show ?thesis
  proof (cases "ss_pc s ! i")
    case WL_Prepare
    then show ?thesis using core_prepare [OF c il] pc step pw
      by (intro exI [of _ "Suc p"] exI [of _ stk]) (auto simp: defs Let_def)
  next
    case WL_Cancel
    obtain n' p' stk' where k: "cancel_iter i ?n = (expected ?E (?tk i), n')"
      and c': "wn_core n' (?pcs[i := after_cancel (expected ?E (?tk i))]) (?E + decided (expected ?E (?tk i))) ?tk p' stk'"
      using core_cancel [OF c il] timely pc WL_Cancel by auto
    show ?thesis by (rule result [OF _ _ _ _ c']; use step k WL_Cancel in \<open>auto simp: defs Let_def\<close>)
  next
    case WL_Renotify
    obtain r n' p' stk' where k: "notify False ?n = Some (r, n')" and c': "wn_core n' ?pcs (?E + min 1 p) ?tk p' stk'"
      using core_notify_one [OF c] by blast
    show ?thesis by (rule result [OF _ _ _ _ c']; use step k pw i WL_Renotify in \<open>auto simp: defs Let_def list_update_same_conv\<close>)
  next
    case WL_Commit
    have c': "wn_core (commit_begin i ?n) (?pcs[i := WCommitting]) ?E ?tk p stk"
      using core_begin [OF c il] pc WL_Commit by simp
    show ?thesis by (rule result [OF _ _ _ _ c']; use step WL_Commit in \<open>auto simp: defs Let_def\<close>)
  next
    case WL_Committing
    obtain n' p' stk' where k: "commit_iter i ?n = (expected ?E (?tk i), n')"
      and c': "wn_core n' (?pcs[i := after_commit (expected ?E (?tk i))]) (?E + decided (expected ?E (?tk i))) ?tk p' stk'"
      using core_commit [OF c il] timely pc WL_Committing by auto
    show ?thesis by (rule result [OF _ _ _ _ c']; use step k WL_Committing in \<open>auto simp: defs Let_def\<close>)
  next
    case WL_Park
    obtain out n1 where k: "park_iter i ?n = (out, n1)" by fastforce
    have c': "wn_core n1 (?pcs[i := if out then WIdle else WParked]) ?E ?tk p stk"
      using core_park [OF c il _ k] pc WL_Park by simp
    show ?thesis by (rule result [OF _ _ _ _ c']; use step k WL_Park in \<open>auto simp: defs Let_def split: if_splits\<close>)
  qed (use step worker_step_quiet [OF i step wf] c in \<open>auto simp: worker_step_def\<close>)
qed


lemma worker_step_slot:
  assumes step: "worker_step i s = Some t" and i: "i < length (sl_workers (ss_slot s))" and wf: "slot_wf (ss_slot s)"
  shows "sl_done (ss_slot t) = sl_done (ss_slot s)" "ss_posting t = ss_posting s" "\<exists>c. ss_pc t = (ss_pc s)[i := c]"
    "queue_items (sl_wsq (ss_slot s)) = [] \<Longrightarrow> queue_items (sl_wsq (ss_slot t)) = []"
    "\<And>j. j < length (sl_workers (ss_slot s)) \<Longrightarrow> queue_items (w_wsq (sl_workers (ss_slot s) ! j)) = [] \<Longrightarrow>
       queue_items (w_wsq (sl_workers (ss_slot t) ! j)) = []"
proof -
  have "sl_done (ss_slot t) = sl_done (ss_slot s) \<and> ss_posting t = ss_posting s \<and> (\<exists>c. ss_pc t = (ss_pc s)[i := c])
    \<and> (queue_items (sl_wsq (ss_slot s)) = [] \<longrightarrow> queue_items (sl_wsq (ss_slot t)) = [])
    \<and> (\<forall>j<length (sl_workers (ss_slot s)). queue_items (w_wsq (sl_workers (ss_slot s) ! j)) = [] \<longrightarrow>
         queue_items (w_wsq (sl_workers (ss_slot t) ! j)) = [])"
  proof (cases "ss_pc s ! i")
    case WL_Exploit
    from exploit_task_facts [OF wf i] show ?thesis
    proof (elim disjE exE conjE)
      fix tk sl assume "exploit_task i (ss_slot s) = (Some tk, sl)" "took tk (ss_slot s) sl"
      then show ?thesis using WL_Exploit step took_keeps [of tk "ss_slot s" sl] by (auto simp: worker_step_def worker_to_def)
    qed (use WL_Exploit step in \<open>auto simp: worker_step_def worker_to_def\<close>)
  qed (use step in \<open>auto simp: worker_step_def worker_to_def Let_def split: if_splits prod.splits\<close>)
  then show "sl_done (ss_slot t) = sl_done (ss_slot s)" "ss_posting t = ss_posting s" "\<exists>c. ss_pc t = (ss_pc s)[i := c]"
    "queue_items (sl_wsq (ss_slot s)) = [] \<Longrightarrow> queue_items (sl_wsq (ss_slot t)) = []"
    "\<And>j. j < length (sl_workers (ss_slot s)) \<Longrightarrow> queue_items (w_wsq (sl_workers (ss_slot s) ! j)) = [] \<Longrightarrow>
       queue_items (w_wsq (sl_workers (ss_slot t) ! j)) = []" by auto
qed

lemma worker_step_frame:
  assumes step: "worker_step i s = Some t" and j: "j \<noteq> i" and pc: "ss_pc s ! i \<noteq> WL_Renotify"
    and wf: "i < length (sl_workers (ss_slot s))" "slot_wf (ss_slot s)"
  shows "ss_E s \<le> ss_E t \<and> ss_ticket t j = ss_ticket s j
     \<and> wn_waiters (sl_notifier (ss_slot t)) ! j = wn_waiters (sl_notifier (ss_slot s)) ! j"
proof (cases "ss_pc s ! i")
  case WL_Exploit
  have "sl_notifier (snd (exploit_task i (ss_slot s))) = sl_notifier (ss_slot s)"
    using exploit_task_facts [OF wf(2,1)] took_keeps(3) by force
  then show ?thesis using WL_Exploit step by (auto simp: worker_step_def worker_to_def split: prod.splits option.splits)
qed (use step pc j waiter_frames [OF j, of "sl_notifier (ss_slot s)"] in
     \<open>auto simp: worker_step_def worker_to_def Let_def split: if_splits prod.splits\<close>)

text \<open>A worker that steps falls asleep only after a search of the queues that found nothing.\<close>

lemma awake_self:
  assumes core: "slot_core s" and i: "i < length (ss_pc s)" and step: "worker_step i s = Some t"
    and awake: "awake i s" and run: "\<not> sl_done (ss_slot s)"
  shows "awake i t \<or> ss_pc s ! i = WL_Explore \<and> \<not> explore_task i (ss_slot s)"
proof (cases "ss_pc s ! i")
  case WL_Exploit
  then show ?thesis using step i by (auto simp: worker_step_def worker_to_def awake_def split: prod.splits option.splits)
next
  case WL_Cancel
  then show ?thesis using step i
    by (cases "fst (cancel_iter i (sl_notifier (ss_slot s)))") (auto simp: worker_step_def worker_to_def awake_def Let_def split: if_splits prod.splits)
next
  case WL_Commit
  then show ?thesis using step i awake by (auto simp: worker_step_def worker_to_def awake_def Let_def asleep_def commit_begin_def)
next
  case WL_Committing
  obtain p stk where c: "wn_core (sl_notifier (ss_slot s)) (map wait_pc (ss_pc s)) (ss_E s) (ss_ticket s) p stk"
    using core by (auto simp: slot_core_def)
  have "ss_E s < ss_ticket s i + 2 ^ 31" using core i WL_Committing by (auto simp: slot_core_def slot_timely_def)
  from core_commit [OF c _ _ this] have "fst (commit_iter i (sl_notifier (ss_slot s))) = expected (ss_E s) (ss_ticket s i)"
    using i WL_Committing by auto
  moreover have "ss_ticket s i < ss_E s" using awake i WL_Committing by (simp add: awake_def asleep_def)
  ultimately show ?thesis using step i WL_Committing
    by (auto simp: worker_step_def worker_to_def awake_def Let_def expected_def split: prod.splits)
next
  case WL_Park
  then have "w_state (wn_waiters (sl_notifier (ss_slot s)) ! i) = kSignaled" using awake i by (simp add: awake_def asleep_def)
  then show ?thesis using step i WL_Park by (auto simp: worker_step_def worker_to_def awake_def Let_def park_iter_def)
qed (use step i run in \<open>auto simp: worker_step_def worker_to_def awake_def Let_def split: if_splits\<close>)

lemma awake_worker:
  assumes core: "slot_core s" and i: "i < length (ss_pc s)" and step: "worker_step i s = Some t"
    and wf: "slot_wf (ss_slot s)" "length (ss_pc s) = length (sl_workers (ss_slot s))"
    and awake: "awake j s" "j < length (ss_pc s)" and run: "\<not> sl_done (ss_slot s)"
  shows "awake j t \<or> j = i \<and> ss_pc s ! i = WL_Explore \<and> \<not> explore_task i (ss_slot s)"
proof (cases "j = i")
  case True
  with awake_self [OF core i step _ run] awake show ?thesis by blast
next
  case False
  let ?n = "sl_notifier (ss_slot s)" and ?pcs = "map wait_pc (ss_pc s)"
  obtain c where pcs: "ss_pc t = (ss_pc s)[i := c]" using worker_step_slot(3) [OF step] wf i by auto
  have "asleep ?n ?pcs (ss_E s) (ss_ticket s) j"
    if a: "asleep (sl_notifier (ss_slot t)) (map wait_pc (ss_pc t)) (ss_E t) (ss_ticket t) j"
  proof (cases "ss_pc s ! i = WL_Renotify")
    case True
    obtain p stk where core': "wn_core ?n ?pcs (ss_E s) (ss_ticket s) p stk" using core by (auto simp: slot_core_def)
    have pw: "prewait ?n = p" using core' prewait_rep by (auto simp: wn_core_def)
    have "?pcs \<noteq> []" using i by auto
    from notify_one_awakes [OF core' this] obtain r n' where n': "notify False ?n = Some (r, n')"
      "asleep n' ?pcs (ss_E s + min 1 p) (ss_ticket s) j \<Longrightarrow> asleep ?n ?pcs (ss_E s) (ss_ticket s) j"
      using awake(2) by auto
    have "?pcs[i := WIdle] = ?pcs" using True i by (simp add: list_update_same_conv)
    with a n' True step pw show ?thesis by (auto simp: worker_step_def worker_to_def Let_def map_update)
  next
    case no: False
    have "i < length (sl_workers (ss_slot s))" using i wf by simp
    from worker_step_frame [OF step False no this wf(1)] asleep_frame [OF a [unfolded pcs map_update] False]
    show ?thesis by blast
  qed
  with awake False pcs show ?thesis by (auto simp: awake_def)
qed

lemma after_not_exit [simp]: "after_cancel_pc r \<noteq> WL_Exit" "after_commit_pc r \<noteq> WL_Exit"
  by (cases r; simp)+

lemma worker_no_exit:
  assumes step: "worker_step i s = Some t" and run: "\<not> sl_done (ss_slot s)" and i: "i < length (ss_pc s)"
  shows "ss_pc t ! i \<noteq> WL_Exit"
  using assms
  by (cases "ss_pc s ! i") (auto simp: worker_step_def worker_to_def Let_def split: if_splits prod.splits option.splits)

lemma covered_worker:
  assumes inv: "slot_live cpus s" and i: "i < length (ss_pc s)" and step: "worker_step i s = Some t"
    and run: "\<not> sl_done (ss_slot s)"
  shows "slot_covered t"
proof -
  have wf: "slot_wf (ss_slot s)" "length (ss_pc s) = length (sl_workers (ss_slot s))" and core: "slot_core s" and cov: "slot_covered s"
    using inv run by (auto simp: slot_live_def slot_accounted_def)
  have iw: "i < length (sl_workers (ss_slot s))" using i wf by simp
  note st = worker_step_slot [OF step iw wf(1)]
  have len: "length (ss_pc t) = length (ss_pc s)" using st(3) by auto
  have keep: "awake j t \<or> j = i \<and> \<not> explore_task i (ss_slot s)" if "awake j s" "j < length (ss_pc s)" for j
    using awake_worker [OF core i step wf that run] by blast
  note ex = explore_task_iff [OF wf(1) iw]
  have "\<forall>j<length (ss_pc t). ss_pc t ! j \<noteq> WL_Exit"
  proof (intro allI impI)
    fix j assume j: "j < length (ss_pc t)"
    obtain c where "ss_pc t = (ss_pc s)[i := c]" using st(3) by blast
    then show "ss_pc t ! j \<noteq> WL_Exit"
      using worker_no_exit [OF step run i] cov j by (cases "j = i") (simp_all add: slot_covered_def)
  qed
  moreover have "\<exists>j<length (ss_pc t). awake j t" if "None \<notin> set (ss_posting t)" "queue_items (sl_wsq (ss_slot t)) \<noteq> []"
  proof -
    from that st(2,4) cov obtain j where "j < length (ss_pc s)" "awake j s" by (auto simp: slot_covered_def)
    with keep [of j] ex that st(4) len show ?thesis by auto
  qed
  moreover have "awake j t" if "j < length (ss_pc t)" "Some j \<notin> set (ss_posting t)" "queue_items (w_wsq (sl_workers (ss_slot t) ! j)) \<noteq> []" for j
  proof -
    have "queue_items (w_wsq (sl_workers (ss_slot s) ! j)) \<noteq> []" using that st(5) len wf by auto
    with that st(2) cov len have "awake j s" by (auto simp: slot_covered_def)
    with keep [of j] ex \<open>queue_items (w_wsq (sl_workers (ss_slot s) ! j)) \<noteq> []\<close> that len show ?thesis by auto
  qed
  ultimately show ?thesis by (simp add: slot_covered_def)
qed


lemma awake_can_step:
  assumes core: "slot_core s" and i: "i < length (ss_pc s)" "awake i s"
  shows "worker_step i s \<noteq> None"
proof -
  let ?n = "sl_notifier (ss_slot s)"
  obtain p stk where c: "wn_core ?n (map wait_pc (ss_pc s)) (ss_E s) (ss_ticket s) p stk"
    using core by (auto simp: slot_core_def)
  have timely: "undecided (wait_pc (ss_pc s ! i)) \<Longrightarrow> ss_E s < ss_ticket s i + 2 ^ 31"
    using core i by (simp add: slot_core_def slot_timely_def)
  show ?thesis
  proof (cases "ss_pc s ! i")
    case WL_Cancel
    then have "fst (cancel_iter i ?n) = expected (ss_E s) (ss_ticket s i)" using core_cancel [OF c, of i] i timely by auto
    then show ?thesis using WL_Cancel by (auto simp: worker_step_def Let_def split: prod.splits)
  next
    case WL_Committing
    then have "fst (commit_iter i ?n) = expected (ss_E s) (ss_ticket s i)" using core_commit [OF c, of i] i timely by auto
    then show ?thesis using WL_Committing by (auto simp: worker_step_def Let_def split: prod.splits)
  next
    case WL_Park
    then have "w_state (wn_waiters ?n ! i) = kSignaled" using i by (simp add: awake_def asleep_def)
    then show ?thesis using WL_Park by (simp add: worker_step_def Let_def park_iter_def)
  next
    case WL_Renotify
    then show ?thesis using core_notify_one [OF c] by (auto simp: worker_step_def Let_def)
  qed (use i in \<open>auto simp: worker_step_def Let_def awake_def split: prod.splits option.splits\<close>)
qed

section \<open>Every step keeps the slot live\<close>

lemma awake_iff:
  "\<not> asleep (sl_notifier (ss_slot s)) (map wait_pc (ss_pc s)) (ss_E s) (ss_ticket s) i \<Longrightarrow> ss_pc s ! i \<noteq> WL_Exit \<Longrightarrow> awake i s"
  by (simp add: awake_def)

lemma live_post_push:
  assumes inv: "slot_live cpus s" and push: "post_push tk (ss_slot s) = (target, sl)"
    and t: "t = s\<lparr>ss_slot := sl, ss_posting := ss_posting s @ [target], ss_posted := ss_posted s @ [tk]\<rparr>"
  shows "(\<not> sl_done (ss_slot t) \<longrightarrow> slot_covered t) \<and> (slot_timely t \<longrightarrow> slot_core t)"
proof -
  have wf: "slot_wf (ss_slot s)" "length (ss_pc s) = length (sl_workers (ss_slot s))"
    using inv by (auto simp: slot_live_def slot_accounted_def)
  note f = post_push_facts [OF push wf(1)]
  have a: "awake i t = awake i s" for i using f(5) by (simp add: awake_def t)
  have "slot_covered t" if "slot_covered s"
  proof -
    have "target \<noteq> None \<Longrightarrow> queue_items (sl_wsq sl) = queue_items (sl_wsq (ss_slot s))" using f(7) by auto
    then show ?thesis using that f(8) wf(2) unfolding slot_covered_def a by (cases target) (auto simp: t)
  qed
  then show ?thesis using inv f(5,6) by (auto simp: slot_live_def slot_core_def t)
qed

lemma live_post_notify:
  assumes inv: "slot_live cpus s" and notify: "post_notify target (sl_notifier (ss_slot s)) = Some n"
    and t: "t = s\<lparr>ss_slot := on_notifier n (ss_slot s), ss_posting := remove1 target (ss_posting s),
      ss_E := ss_E s + (if target = None then min 1 (prewait (sl_notifier (ss_slot s))) else prewait (sl_notifier (ss_slot s)))\<rparr>"
  shows "(\<not> sl_done (ss_slot t) \<longrightarrow> slot_covered t) \<and> (slot_timely t \<longrightarrow> slot_core t)"
proof -
  let ?n = "sl_notifier (ss_slot s)" and ?pcs = "map wait_pc (ss_pc s)"
  obtain p stk where c: "wn_core ?n ?pcs (ss_E s) (ss_ticket s) p stk" and ne: "?pcs \<noteq> []"
    using inv by (auto simp: slot_live_def slot_core_def)
  have pw: "prewait ?n = p" using c prewait_rep by (auto simp: wn_core_def)
  show ?thesis
  proof (cases target)
    case None
    obtain r n' where "notify False ?n = Some (r, n')"
      and n': "\<exists>p' stk'. wn_core n' ?pcs (ss_E s + min 1 p) (ss_ticket s) p' stk'"
        "\<exists>i<length ?pcs. \<not> asleep n' ?pcs (ss_E s + min 1 p) (ss_ticket s) i"
        "\<forall>i<length ?pcs. asleep n' ?pcs (ss_E s + min 1 p) (ss_ticket s) i \<longrightarrow> asleep ?n ?pcs (ss_E s) (ss_ticket s) i"
      using notify_one_awakes [OF c ne] by blast
    then have n: "n' = n" using notify None by (simp add: post_notify_def)
    obtain i where i: "i < length (ss_pc s)" "\<not> asleep n ?pcs (ss_E s + min 1 p) (ss_ticket s) i"
      using n'(2) n by auto
    note c' = n'(1) [unfolded n] and mono = n'(3) [unfolded n]
    have keep: "awake j t" if "awake j s" "j < length (ss_pc s)" for j
      using that mono by (auto simp: awake_def t None pw)
    have "slot_covered t" if cov: "slot_covered s"
    proof -
      have "awake i t" using i cov by (intro awake_iff) (auto simp: t None pw slot_covered_def)
      then show ?thesis using cov i keep by (auto simp: slot_covered_def t None)
    qed
    then show ?thesis using inv c' ne by (auto simp: slot_live_def slot_core_def t None pw)
  next
    case (Some w)
    from core_notify_waiter [OF c ne, of w] notify Some have c': "wn_core n ?pcs (ss_E s + p) (ss_ticket s) 0 []"
      by (simp add: post_notify_def)
    have "slot_covered t" if cov: "slot_covered s"
    proof -
      have "awake j t" if "j < length (ss_pc s)" for j
        using quiet_not_asleep [OF c', of j] that cov by (intro awake_iff) (auto simp: t Some pw slot_covered_def)
      then show ?thesis using cov ne by (auto simp: slot_covered_def t Some)
    qed
    moreover have "slot_timely t \<longrightarrow> slot_core t" using c' ne by (auto simp: slot_core_def t Some pw)
    ultimately show ?thesis using inv by (auto simp: slot_live_def t)
  qed
qed

lemma live_dtor_notify:
  assumes inv: "slot_live cpus s" and notify: "notify True (sl_notifier (ss_slot s)) = Some (r, n)"
    and t: "t = s\<lparr>ss_slot := on_notifier n (ss_slot s), ss_dtor := SD_Joining, ss_E := ss_E s + prewait (sl_notifier (ss_slot s))\<rparr>"
  shows "(\<not> sl_done (ss_slot t) \<longrightarrow> slot_covered t) \<and> (slot_timely t \<longrightarrow> slot_core t)"
proof -
  let ?n = "sl_notifier (ss_slot s)" and ?pcs = "map wait_pc (ss_pc s)"
  obtain p stk where c: "wn_core ?n ?pcs (ss_E s) (ss_ticket s) p stk" and ne: "?pcs \<noteq> []"
    using inv by (auto simp: slot_live_def slot_core_def)
  have pw: "prewait ?n = p" using c prewait_rep by (auto simp: wn_core_def)
  from core_notify_all [OF c] notify have c': "wn_core n ?pcs (ss_E s + p) (ss_ticket s) 0 []" by auto
  have "slot_covered t" if cov: "slot_covered s"
  proof -
    have "awake j t" if "j < length (ss_pc s)" for j
      using quiet_not_asleep [OF c', of j] that cov by (intro awake_iff) (auto simp: t pw slot_covered_def)
    then show ?thesis using cov ne by (auto simp: slot_covered_def t)
  qed
  moreover have "slot_timely t \<longrightarrow> slot_core t" using c' ne by (auto simp: slot_core_def t pw)
  ultimately show ?thesis using inv by (auto simp: slot_live_def t)
qed

lemma slot_live_step:
  assumes inv: "slot_live cpus s" and step: "timely_slot_step s t"
  shows "slot_live cpus t"
proof -
  have st: "slot_step s t" and timely: "slot_timely t" using step by (auto simp: timely_slot_step_def)
  have acc: "slot_accounted cpus s" using inv by (simp add: slot_live_def)
  from st have "(\<not> sl_done (ss_slot t) \<longrightarrow> slot_covered t) \<and> (slot_timely t \<longrightarrow> slot_core t)"
  proof cases
    case (slot_worker i)
    have wf: "slot_wf (ss_slot s)" "length (ss_pc s) = length (sl_workers (ss_slot s))" and core: "slot_core s"
      using inv by (auto simp: slot_live_def slot_accounted_def)
    have "sl_done (ss_slot t) = sl_done (ss_slot s)" "length (ss_pc t) = length (ss_pc s)"
      using worker_step_slot(1,3) [OF slot_worker(2) _ wf(1)] slot_worker(1) wf(2) by auto
    moreover have "\<not> sl_done (ss_slot s) \<Longrightarrow> slot_covered t" using covered_worker [OF inv slot_worker] .
    ultimately show ?thesis using slot_core_worker [OF core slot_worker wf] slot_worker(1) by (auto simp: slot_core_def)
  next
    case (slot_post_push tk target sl)
    then show ?thesis using live_post_push [OF inv slot_post_push(3)] by blast
  next
    case (slot_post_notify target n)
    then show ?thesis using live_post_notify [OF inv slot_post_notify(3)] by blast
  next
    case (slot_dtor_notify r n)
    then show ?thesis using live_dtor_notify [OF inv slot_dtor_notify(3)] by blast
  next
    case slot_dtor_join
    have "awake i t = awake i s" for i using slot_dtor_join(1) by (simp add: awake_def)
    then show ?thesis using inv slot_dtor_join(1) by (auto simp: slot_live_def slot_core_def slot_covered_def)
  qed (use inv in \<open>auto simp: slot_live_def slot_core_def\<close>)
  with timely slot_accounted_step [OF acc st] show ?thesis by (simp add: slot_live_def)
qed

lemma slot_live_init:
  assumes new: "new_ExecutorSlot sid name cpus = Inr sl" and ne: "cpus \<noteq> []"
  shows "slot_live cpus (slot_init sl)"
proof -
  note f = new_ExecutorSlot_facts [OF new]
  have "sys_init (length cpus) = Inr \<lparr>sys_n = sl_notifier sl, sys_pc = replicate (length cpus) WIdle,
      sys_E = 2 ^ 32 - 1 - 2 * length cpus, sys_ticket = (\<lambda>_. 0)\<rparr>" using f(5) by (simp add: sys_init_def)
  from sys_inv_init [OF this] have "slot_core (slot_init sl)"
    using f(6) ne by (auto simp: sys_inv_def slot_core_def slot_init_def slot_timely_def map_replicate_const)
  moreover have "slot_covered (slot_init sl)" using f(6-8) by (auto simp: slot_covered_def slot_init_def)
  ultimately show ?thesis using slot_accounted_init [OF new] by (simp add: slot_live_def)
qed

interpretation slot_life: step_invariant
  "\<lambda>s :: 'r slot_sys. \<exists>sid name sl. new_ExecutorSlot sid name cpus = Inr sl \<and> cpus \<noteq> [] \<and> s = slot_init sl"
  timely_slot_step "slot_live cpus" for cpus
  by unfold_locales (auto intro: slot_live_init slot_live_step)


lemma no_tasks: "\<forall>w\<in>set ws. queue_items (w_wsq w) = [] \<Longrightarrow> (\<Sum>w\<leftarrow>ws. mset (queue_items (w_wsq w))) = {#}"
  by (induction ws) auto

section \<open>Properties\<close>

text \<open>C2: No lost wake-up. In every run of a slot with at least one worker that is not being
  destroyed: when a task sits in the shared queue or in the queue of a worker, then either a
  posting thread still has its notification to send, or a worker is awake, in the middle of
  its loop or certain to be told that it was notified, and it can step. A posted task
  is never left behind by workers that all sleep.\<close>

theorem slot_no_stranded_task:
  assumes new: "new_ExecutorSlot sid name cpus = Inr sl" and ne: "cpus \<noteq> []"
    and run: "timely_slot_step\<^sup>*\<^sup>* (slot_init sl) s"
    and alive: "\<not> sl_done (ss_slot s)" and queued: "slot_tasks (ss_slot s) \<noteq> {#}"
  shows "ss_posting s \<noteq> [] \<or> (\<exists>i<length cpus. awake i s \<and> worker_step i s \<noteq> None)"
proof (cases "ss_posting s")
  case Nil
  have live: "slot_live cpus s"
    using slot_life.inv_reachable [of cpus "slot_init sl" s] new ne run by blast
  then have cov: "slot_covered s" and acc: "slot_accounted cpus s" and core: "slot_core s" using alive by (auto simp: slot_live_def)
  have len: "length (ss_pc s) = length (sl_workers (ss_slot s))" "length (sl_workers (ss_slot s)) = length cpus"
    using acc by (auto simp: slot_accounted_def)
  have "\<exists>i<length (ss_pc s). awake i s"
  proof (cases "queue_items (sl_wsq (ss_slot s)) = []")
    case True
    with queued have "\<exists>w\<in>set (sl_workers (ss_slot s)). queue_items (w_wsq w) \<noteq> []"
      using no_tasks by (auto simp: slot_tasks_def)
    then obtain i where "i < length (ss_pc s)" "queue_items (w_wsq (sl_workers (ss_slot s) ! i)) \<noteq> []"
      by (auto simp: in_set_conv_nth len)
    with cov Nil show ?thesis by (auto simp: slot_covered_def)
  qed (use cov Nil in \<open>auto simp: slot_covered_def\<close>)
  then obtain i where i: "i < length (ss_pc s)" "awake i s" by blast
  with awake_can_step [OF core i] len show ?thesis by auto
qed simp

text \<open>The start of a slot: nobody waits.\<close>

lemma slot_start:
  assumes "new_ExecutorSlot sid name cpus = Inr sl"
  shows "wn_core (sl_notifier sl) (replicate (length cpus) WIdle) (2 ^ 32 - 1 - 2 * length cpus) (\<lambda>_. 0) 0 []"
proof -
  let ?E = "2 ^ 32 - 1 - 2 * length cpus" and ?pcs = "replicate (length cpus) WIdle"
  have "sys_init (length cpus) = Inr \<lparr>sys_n = sl_notifier sl, sys_pc = ?pcs, sys_E = ?E, sys_ticket = (\<lambda>_. 0)\<rparr>"
    using new_ExecutorSlot_facts(5) [OF assms] by (simp add: sys_init_def)
  from sys_inv_init [OF this] obtain p stk where c: "wn_core (sl_notifier sl) ?pcs ?E (\<lambda>_. 0) p stk"
    by (auto simp: sys_inv_def)
  have "pending ?pcs ?E (\<lambda>_. 0) = {}" by (auto simp: pending_def)
  then have "p = 0" using c by (simp add: wn_core_def bij_betw_def)
  moreover have "x \<notin> set stk" for x using c by (cases "x < length cpus") (auto simp: wn_core_def wn_rep_def)
  then have "stk = []" by (cases stk) auto
  ultimately show ?thesis using c by simp
qed

lemma start_nobody: "new_ExecutorSlot sid name cpus = Inr sl \<Longrightarrow> notify all (sl_notifier sl) = Some (None, sl_notifier sl)"
  using slot_start [of sid name cpus sl] notify_nobody by (auto simp: wn_core_def)

lemma start_prewait: "new_ExecutorSlot sid name cpus = Inr sl \<Longrightarrow> prewait (sl_notifier sl) = 0"
  using slot_start [of sid name cpus sl] prewait_rep by (auto simp: wn_core_def)

theorem slot_no_stranded_task_witness:
  "\<exists>(sl :: unit ExecutorSlot) s. new_ExecutorSlot 0 ''io'' [0, 1] = Inr sl \<and> timely_slot_step\<^sup>*\<^sup>* (slot_init sl) s
     \<and> ss_posting s = [] \<and> slot_tasks (ss_slot s) \<noteq> {#} \<and> (\<exists>i<length [0::int, 1]. awake i s \<and> worker_step i s \<noteq> None)"
proof -
  obtain sl :: "unit ExecutorSlot" where sl: "new_ExecutorSlot 0 ''io'' [0, 1] = Inr sl" using small_slot by blast
  let ?t = "new_task 0 (Inr ()) 0 :: unit task" and ?s0 = "slot_init sl"
  note f = new_ExecutorSlot_facts [OF sl]
  have push: "post_push ?t (ss_slot ?s0) = (None, slot_push ?t sl)"
    by (simp add: post_push_def new_task_def new_execution_state_def slot_init_def)
  have n: "sl_notifier (slot_push ?t sl) = sl_notifier sl" by (simp add: slot_push_def)
  let ?s1 = "?s0\<lparr>ss_slot := slot_push ?t sl, ss_posting := ss_posting ?s0 @ [None], ss_posted := ss_posted ?s0 @ [?t]\<rparr>"
  let ?s2 = "?s1\<lparr>ss_slot := on_notifier (sl_notifier sl) (ss_slot ?s1), ss_posting := remove1 None (ss_posting ?s1),
      ss_E := ss_E ?s1 + (if (None :: nat option) = None then min 1 (prewait (sl_notifier (ss_slot ?s1))) else prewait (sl_notifier (ss_slot ?s1)))\<rparr>"
  have "may_post ?s0" by (simp add: may_post_def slot_init_def)
  note step1 = slot_post_push [OF this push]
  have "post_notify None (sl_notifier (ss_slot ?s1)) = Some (sl_notifier sl)"
    using start_nobody [OF sl] n by (simp add: post_notify_def)
  note step2 = slot_post_notify [OF _ this]
  have timely: "slot_timely ?s1" "slot_timely ?s2" by (auto simp: slot_timely_def slot_init_def)
  have "timely_slot_step ?s0 ?s1" "timely_slot_step ?s1 ?s2"
    using step1 step2 timely by (auto simp: timely_slot_step_def)
  then have run: "timely_slot_step\<^sup>*\<^sup>* ?s0 ?s2" by (meson rtranclp.rtrancl_into_rtrancl rtranclp.rtrancl_refl)
  have q: "slot_tasks (slot_push ?t sl) = {#?t#}"
    using post_push_facts(2) [of ?t sl None "slot_push ?t sl"] push f(1,2) by (simp add: slot_init_def)
  have d: "\<not> sl_done (slot_push ?t sl)" using f(4) by (simp add: slot_push_def)
  from slot_no_stranded_task [OF sl _ run] q d have "\<exists>i<length [0::int, 1]. awake i ?s2 \<and> worker_step i ?s2 \<noteq> None"
    by (simp add: slot_init_def)
  then show ?thesis using sl run q by (intro exI [of _ sl] exI [of _ ?s2]) (simp add: slot_init_def)
qed

lemma lone_worker_parks:
  assumes c: "wn_core n [WIdle] E tk 0 []"
  shows "\<exists>n3 n4. commit_iter 0 (commit_begin 0 (prepare_wait 0 n)) = (WR_done, n3)
     \<and> park_iter 0 n3 = (False, n4) \<and> park_iter 0 n4 = (False, n4) \<and> n4 \<noteq> n3"
proof -
  define n1 where "n1 = prepare_wait 0 n"
  have c1: "wn_core n1 [WPrepared] E (tk(0 := E)) 1 []" using core_prepare [OF c, of 0] by (simp add: n1_def)
  have c2: "wn_core (commit_begin 0 n1) [WCommitting] E (tk(0 := E)) 1 []" using core_begin [OF c1, of 0] by simp
  obtain n3 where n3: "commit_iter 0 (commit_begin 0 n1) = (WR_done, n3)"
    using core_commit [OF c2, of 0] by (auto simp: expected_def)
  have "length (wn_waiters n1) = 1" using c1 by (simp add: wn_core_def)
  then have w3: "w_state (wn_waiters n3 ! 0) = kNotSignaled" "length (wn_waiters n3) = 1"
    using n3 by (auto simp: commit_begin_def commit_iter_def Let_def split: if_splits)
  define n4 where "n4 = n3\<lparr>wn_waiters := (wn_waiters n3)[0 := (wn_waiters n3 ! 0)\<lparr>w_state := kWaiting\<rparr>]\<rparr>"
  have "w_state (wn_waiters n4 ! 0) = kWaiting" using w3 by (simp add: n4_def)
  with w3 have "n4 \<noteq> n3" by auto
  moreover have "park_iter 0 n3 = (False, n4)" "park_iter 0 n4 = (False, n4)"
    using w3 by (auto simp: park_iter_def n4_def)
  ultimately show ?thesis using n3 by (auto simp: n1_def)
qed

text \<open>The states of a slot with one worker, no post under way and no task: the worker at \<open>pc\<close>, the
  destructor at \<open>d\<close>, the epochs counted so far and the worker's ticket.\<close>

definition lone :: "'r ExecutorSlot \<Rightarrow> 'r worker_pc \<Rightarrow> slot_dtor \<Rightarrow> nat \<times> (nat \<Rightarrow> nat) \<Rightarrow> 'r slot_sys" where
  "lone x pc d tk = \<lparr>ss_slot = x, ss_pc = [pc], ss_dtor = d, ss_posting = [], ss_posted = [],
     ss_finished = [], ss_E = fst tk, ss_ticket = snd tk\<rparr>"

lemmas lone_defs = lone_def worker_step_def worker_to_def Let_def

lemma lone_step:
  assumes "slot_step (lone x pc d tk) (lone x' pc' d' tk')" "fst tk' < snd tk' 0 + 2 ^ 31 \<or> \<not> undecided (wait_pc pc')"
  shows "timely_slot_step (lone x pc d tk) (lone x' pc' d' tk')"
  using assms by (auto simp: timely_slot_step_def slot_timely_def lone_def)

lemmas lone_worker = lone_step [OF slot_worker [of 0]]

text \<open>The worker reads \<open>done\<close>, finds no task, and is overtaken by the whole of \<open>done = true; notify(true)\<close>.\<close>

lemma lone_destructed:
  fixes sl :: "'r ExecutorSlot"
  assumes new: "new_ExecutorSlot sid name [c] = Inr sl"
  shows "timely_slot_step\<^sup>*\<^sup>* (slot_init sl)
    (lone (sl\<lparr>sl_done := True\<rparr>) WL_Prepare SD_Joining (2 ^ 32 - 1 - 2 * length [c], \<lambda>_. 0))"
proof -
  note f = new_ExecutorSlot_facts [OF new]
  let ?t = "(2 ^ 32 - 1 - 2 * length [c], \<lambda>_. 0) :: nat \<times> (nat \<Rightarrow> nat)" and ?sd = "sl\<lparr>sl_done := True\<rparr>"
  have len: "length (sl_workers sl) = 1" using f(6) by simp
  have quiet: "\<not> explore_task 0 sl" using explore_task_iff [OF f(1), of 0] f(7,8) len by (auto simp: stealable_def)
  have init: "slot_init sl = lone sl WL_Test SD_Alive ?t" using len by (simp add: lone_def slot_init_def)
  have 1: "timely_slot_step (lone sl WL_Test SD_Alive ?t) (lone sl WL_Exploit SD_Alive ?t)"
    by (rule lone_worker) (use f(4) in \<open>simp_all add: lone_defs\<close>)
  have 2: "timely_slot_step (lone sl WL_Exploit SD_Alive ?t) (lone sl WL_Prepare SD_Alive ?t)"
    using exploit_task_facts [OF f(1), of 0] quiet len by (intro lone_worker) (auto simp: lone_defs)
  have 3: "timely_slot_step (lone sl WL_Prepare SD_Alive ?t) (lone ?sd WL_Prepare SD_Done ?t)"
    using slot_dtor_done [of "lone sl WL_Prepare SD_Alive ?t"] by (intro lone_step) (simp_all add: lone_def)
  have 4: "timely_slot_step (lone ?sd WL_Prepare SD_Done ?t) (lone ?sd WL_Prepare SD_Joining ?t)"
    using slot_dtor_notify [of "lone ?sd WL_Prepare SD_Done ?t"] start_nobody [OF new, of True] start_prewait [OF new]
    by (intro lone_step) (simp_all add: lone_def on_notifier_def)
  show ?thesis unfolding init using 1 2 3 4 by (meson rtranclp.rtrancl_into_rtrancl rtranclp.rtrancl_refl)
qed

text \<open>A worker that is alone, finds nothing to steal and is not signalled, parks; nobody is left to wake it.\<close>

lemma lone_parks:
  assumes core: "wn_core (sl_notifier x) [WIdle] E tk 0 []"
    and quiet: "\<And>n. \<not> explore_task 0 (on_notifier n x)"
  shows "\<exists>s. timely_slot_step\<^sup>*\<^sup>* (lone x WL_Prepare SD_Joining (E, tk)) s
     \<and> ss_dtor s = SD_Joining \<and> ss_pc s = [WL_Park] \<and> (\<forall>t. \<not> slot_step s t)"
proof -
  define n1 where "n1 = prepare_wait 0 (sl_notifier x)"
  define n2 where "n2 = commit_begin 0 n1"
  obtain n3 n4 where n3: "commit_iter 0 n2 = (WR_done, n3)"
    and n4: "park_iter 0 n3 = (False, n4)" "park_iter 0 n4 = (False, n4)" "n4 \<noteq> n3"
    using lone_worker_parks [OF core] unfolding n2_def n1_def by blast
  have pw: "prewait (sl_notifier x) = 0" using core prewait_rep by (auto simp: wn_core_def)
  let ?t = "(E, tk(0 := E))" and ?u = "(Suc E, tk(0 := E))" and ?x = "on_notifier n1 x"
    and ?y = "set_execute 0 False (on_notifier n1 x)"
  have 1: "timely_slot_step (lone x WL_Prepare SD_Joining (E, tk)) (lone ?x WL_Explore SD_Joining ?t)"
    by (rule lone_worker) (use pw in \<open>simp_all add: lone_defs n1_def\<close>)
  have 2: "timely_slot_step (lone ?x WL_Explore SD_Joining ?t) (lone ?x WL_Commit SD_Joining ?t)"
    by (rule lone_worker) (use quiet in \<open>simp_all add: lone_defs\<close>)
  have 3: "timely_slot_step (lone ?x WL_Commit SD_Joining ?t) (lone (on_notifier n2 ?y) WL_Committing SD_Joining ?t)"
    by (rule lone_worker) (simp_all add: lone_defs n2_def)
  have 4: "timely_slot_step (lone (on_notifier n2 ?y) WL_Committing SD_Joining ?t) (lone (on_notifier n3 ?y) WL_Park SD_Joining ?u)"
    by (rule lone_worker) (use n3 in \<open>simp_all add: lone_defs on_notifier_def\<close>)
  have 5: "timely_slot_step (lone (on_notifier n3 ?y) WL_Park SD_Joining ?u) (lone (on_notifier n4 ?y) WL_Park SD_Joining ?u)"
    by (rule lone_worker) (use n4 in \<open>simp_all add: lone_defs on_notifier_def\<close>)
  have "timely_slot_step\<^sup>*\<^sup>* (lone x WL_Prepare SD_Joining (E, tk)) (lone (on_notifier n4 ?y) WL_Park SD_Joining ?u)"
    using 1 2 3 4 5 by (meson rtranclp.rtrancl_into_rtrancl rtranclp.rtrancl_refl)
  moreover have "\<not> slot_step (lone (on_notifier n4 ?y) WL_Park SD_Joining ?u) t" for t
    using n4 by (auto simp: lone_def worker_step_def may_post_def slot_init_def on_notifier_def elim!: slot_stepE)
  ultimately show ?thesis by (intro exI [of _ "lone (on_notifier n4 ?y) WL_Park SD_Joining ?u"]) (simp add: lone_def)
qed

text \<open>C26: The destructor of a slot may never return. In a slot with one worker, whichever
  processor it is bound to, \<open>done = true\<close> and \<open>notify(true)\<close> can run after the worker's test of
  \<open>done\<close> and before its \<open>prepare_wait\<close>; the worker then finds no task, commits the wait and
  parks, and the destructor waits for its thread: a reachable state in which no thread can
  take a step.\<close>

theorem slot_destructor_hangs:
  assumes new: "new_ExecutorSlot sid name [c] = Inr sl"
  shows "\<exists>s. timely_slot_step\<^sup>*\<^sup>* (slot_init sl) s \<and> ss_dtor s = SD_Joining \<and> ss_pc s = [WL_Park] \<and> (\<forall>t. \<not> slot_step s t)"
proof -
  note f = new_ExecutorSlot_facts [OF new]
  let ?sd = "sl\<lparr>sl_done := True\<rparr>" and ?E = "2 ^ 32 - 1 - 2 * length [c]"
  have "\<not> explore_task 0 (on_notifier n ?sd)" for n
    using explore_task_iff [of "on_notifier n ?sd" 0] f by (auto simp: stealable_def slot_wf_def)
  moreover have "wn_core (sl_notifier ?sd) [WIdle] ?E (\<lambda>_. 0) 0 []" using slot_start [OF new] by simp
  ultimately show ?thesis using lone_parks [of ?sd ?E "\<lambda>_. 0"] lone_destructed [OF new] by (meson rtranclp_trans)
qed

theorem slot_destructor_hangs_witness:
  "\<exists>(sl :: unit ExecutorSlot) s. new_ExecutorSlot 0 ''io'' [2] = Inr sl \<and> timely_slot_step\<^sup>*\<^sup>* (slot_init sl) s
     \<and> ss_dtor s = SD_Joining \<and> (\<forall>t. \<not> slot_step s t)"
proof -
  have "\<exists>sl :: unit ExecutorSlot. new_ExecutorSlot 0 ''io'' [2] = Inr sl"
    by (simp add: new_ExecutorSlot_def new_WorkNotifier_def)
  then obtain sl :: "unit ExecutorSlot" where sl: "new_ExecutorSlot 0 ''io'' [2] = Inr sl" by blast
  from slot_destructor_hangs [OF sl] sl show ?thesis by blast
qed

end
