(* ===== verification/Numbers.thy ===== *)
theory Numbers
  imports AR_Prelude
begin

text \<open>
  \<open>src/numbers.cpp\<close>: two 16-bit numbers packed into one 32-bit entity tag, the
  executor's index in the high half and the entity's number in the low half.
\<close>

definition Pack :: "u16 \<Rightarrow> u16 \<Rightarrow> u32" where
  "Pack x y = push_bit 16 (ucast x) OR ucast y"

definition Unpack :: "u32 \<Rightarrow> u16 \<times> u16" where
  "Unpack v = (ucast (drop_bit 16 v), ucast v)"

lemma Pack_bit: "bit (Pack x y) n \<longleftrightarrow> (if n < 16 then bit y n else n < 32 \<and> bit x (n - 16))"
  by (auto simp: Pack_def bit_simps dest: bit_imp_le_length)

lemma Unpack_Pack: "Unpack (Pack x y) = (x, y)"
  by (auto simp: Unpack_def bit_word_eqI Pack_bit bit_simps intro!: bit_word_eqI)

lemma Pack_Unpack: "case_prod Pack (Unpack v) = v"
  by (rule bit_word_eqI) (auto simp: Unpack_def Pack_bit bit_simps)

lemma unat_Pack: "unat (Pack x y) = unat x * 65536 + unat y"
proof -
  have "Pack x y = push_bit 16 (ucast x) + ucast y"
    unfolding Pack_def by (rule disjunctive_add [symmetric]) (auto simp: bit_simps dest: bit_imp_le_length)
  moreover have "unat x < 65536" "unat y < 65536"
    using unsigned_less [of x, where 'a = nat] unsigned_less [of y, where 'a = nat] by simp_all
  ultimately show ?thesis
    by (simp add: push_bit_eq_mult unat_word_ariths unsigned_ucast_eq take_bit_eq_mod)
qed

text \<open>A tag determines its two halves: the packing is a codec on all pairs.\<close>

interpretation tag: codec "case_prod Pack" "\<lambda>v. Inr (Unpack v)" "\<lambda>_. True"
  by unfold_locales (auto simp: Unpack_Pack)

end
