(* ===== verification/Executor.thy ===== *)
theory Executor
  imports Slot_Progress Numbers "HOL-Library.AList"
begin

text \<open>
  \<open>src/executor.cpp\<close> with \<open>include/ar/executor.hpp\<close>: an executor is a list of work groups,
  a work group a list of slots with a scheduler for delayed tasks. A pointer to a slot or a
  group is its index in the list that owns it. Doubles are an arbitrary type \<open>'d\<close>; the one
  expression over them, the number of processors that a group may use, is the parameter
  \<open>share\<close>, and the number of hardware threads the parameter \<open>hw\<close>. A result
  \<open>None\<close> stands for a call that does not return.
\<close>

section \<open>Definitions\<close>

datatype ExecutorType = kCPU_EXECUTOR | kIO_EXECUTOR | kUSER_EXECUTOR

record CPU =
  cpu_id :: nat
  numa_node_id :: nat

record 'd WorkGroupOption =
  wgo_name :: string
  wgo_cap :: 'd
  wgo_util :: 'd
  wgo_slot_concurrency :: int

record 'r ExecutorWorkGroup =
  wg_id :: int
  wg_name :: string
  wg_entities_peer_slot :: "u16 \<rightharpoonup> nat"
  wg_cpus_peer_slot :: "(int \<times> nat) list"
  wg_slots :: "'r ExecutorSlot list"
  wg_scheduler :: "'r Scheduler"
  wg_workers_count :: "int option"
  wg_slots_count :: "int option"

text \<open>The conversion of an integer to the 32-bit \<open>int\<close> of a map's key.\<close>

definition to_int :: "int \<Rightarrow> int" where
  "to_int x = sint (word_of_int x :: 32 word)"

text \<open>\<open>std::min_element\<close>: the position of the first smallest element.\<close>

fun min_loop :: "('a \<Rightarrow> 'a \<Rightarrow> bool) \<Rightarrow> 'a \<Rightarrow> nat \<Rightarrow> nat \<Rightarrow> 'a list \<Rightarrow> nat" where
  "min_loop lt best at i [] = at"
| "min_loop lt best at i (x # xs) =
     (if lt x best then min_loop lt x i (Suc i) xs else min_loop lt best at (Suc i) xs)"

fun min_element :: "('a \<Rightarrow> 'a \<Rightarrow> bool) \<Rightarrow> 'a list \<Rightarrow> nat option" where
  "min_element lt [] = None"
| "min_element lt (x # xs) = Some (min_loop lt x 0 1 xs)"

text \<open>The constructor of a work group: the processors of one slot, then the slots.\<close>

fun take_cpus :: "nat \<Rightarrow> CPU list \<Rightarrow> nat \<Rightarrow> (nat \<times> nat) list \<Rightarrow> (int \<times> nat) list \<Rightarrow>
    ar_error + CPU list \<times> (nat \<times> nat) list \<times> (int \<times> nat) list" where
  "take_cpus 0 cpus i cpus_wg peer = Inr ([], cpus_wg, peer)"
| "take_cpus (Suc c) cpus i cpus_wg peer =
     (case min_element (\<lambda>l r. snd l < snd r) cpus_wg of
        None \<Rightarrow> Inl undefined_behaviour
      | Some k \<Rightarrow>
          let (j, used) = cpus_wg ! k in
          if length cpus \<le> j then Inl undefined_behaviour
          else
            case take_cpus c cpus i (cpus_wg[k := (j, Suc used)]) (AList.update (to_int (int (cpu_id (cpus ! j)))) i peer) of
              Inl e \<Rightarrow> Inl e
            | Inr (cs, wg, pr) \<Rightarrow> Inr (cpus ! j # cs, wg, pr))"

fun make_slots :: "nat \<Rightarrow> string \<Rightarrow> CPU list \<Rightarrow> nat list \<Rightarrow> (nat \<times> nat) list \<Rightarrow> (int \<times> nat) list \<Rightarrow>
    ar_error + 'r ExecutorSlot list \<times> (nat \<times> nat) list \<times> (int \<times> nat) list" where
  "make_slots sc name cpus [] cpus_wg peer = Inr ([], cpus_wg, peer)"
| "make_slots sc name cpus (i # is) cpus_wg peer =
     (case take_cpus sc cpus i cpus_wg peer of
        Inl e \<Rightarrow> Inl e
      | Inr (slot_cpus, wg, pr) \<Rightarrow>
          (case new_ExecutorSlot i name (map (int \<circ> cpu_id) slot_cpus) of
             Inl e \<Rightarrow> Inl e
           | Inr slot \<Rightarrow>
               (case make_slots sc name cpus is wg pr of
                  Inl e \<Rightarrow> Inl e
                | Inr (slots, wg', pr') \<Rightarrow> Inr (slot # slots, wg', pr'))))"

definition new_ExecutorWorkGroup :: "int \<Rightarrow> (nat \<Rightarrow> 'd \<Rightarrow> 'd \<Rightarrow> int) \<Rightarrow> int \<Rightarrow> 'd WorkGroupOption \<Rightarrow> CPU list \<Rightarrow>
    (nat \<times> nat) list \<Rightarrow> ar_error + 'r ExecutorWorkGroup \<times> (nat \<times> nat) list" where
  "new_ExecutorWorkGroup hw share i opt cpus cpus_wg =
     (let slot_concurrency = (if wgo_slot_concurrency opt > 0 then wgo_slot_concurrency opt else hw) in
      if slot_concurrency = 0 then Inl undefined_behaviour
      else
        let max_cpus = share (length cpus) (wgo_cap opt) (wgo_util opt);
            max_cpus = min (max 1 max_cpus) (int (length cpus));
            slots_count = max 1 (max_cpus div slot_concurrency) in
        case make_slots (nat slot_concurrency) (wgo_name opt) cpus [0..<nat slots_count] cpus_wg [] of
          Inl e \<Rightarrow> Inl e
        | Inr (slots, wg, peer) \<Rightarrow>
            Inr (\<lparr>wg_id = i, wg_name = wgo_name opt, wg_entities_peer_slot = Map.empty, wg_cpus_peer_slot = peer,
                  wg_slots = slots, wg_scheduler = new_Scheduler, wg_workers_count = None, wg_slots_count = None\<rparr>, wg))"

definition wg_MakeMetrics :: "bool \<Rightarrow> 'r ExecutorWorkGroup \<Rightarrow> 'r ExecutorWorkGroup" where
  "wg_MakeMetrics metricer g =
     (if metricer then
        g\<lparr>wg_workers_count := Some (0 + int (length (wg_cpus_peer_slot g))),
          wg_slots_count := Some (0 + int (length (wg_slots g))),
          wg_slots := map (\<lambda>s. s\<lparr>sl_m_entities_count := Some 0\<rparr>) (wg_slots g)\<rparr>
      else g)"

definition wg_DeleteEntity :: "u16 \<Rightarrow> 'r ExecutorWorkGroup \<Rightarrow> 'r ExecutorWorkGroup" where
  "wg_DeleteEntity e g =
     (case wg_entities_peer_slot g e of
        None \<Rightarrow> g
      | Some k \<Rightarrow> g\<lparr>wg_slots := (wg_slots g)[k := slot_delete_entity (wg_slots g ! k)],
                    wg_entities_peer_slot := (wg_entities_peer_slot g)(e := None)\<rparr>)"

text \<open>\<open>slots[k]->post(task)\<close>.\<close>

definition post_at :: "nat \<Rightarrow> 'r task \<Rightarrow> 'r ExecutorWorkGroup \<Rightarrow> (ar_error + 'r ExecutorWorkGroup) option" where
  "post_at k t g =
     (if k < length (wg_slots g)
      then map_option (\<lambda>s. Inr (g\<lparr>wg_slots := (wg_slots g)[k := s]\<rparr>)) (slot_post t (wg_slots g ! k))
      else Some (Inl undefined_behaviour))"

text \<open>The entity of a tag goes to its slot; a new entity gets the slot with the fewest entities.\<close>

definition entity_slot :: "u16 \<Rightarrow> 'r ExecutorWorkGroup \<Rightarrow> nat \<times> 'r ExecutorWorkGroup" where
  "entity_slot entity g =
     (case wg_entities_peer_slot g entity of
        Some k \<Rightarrow> (k, g)
      | None \<Rightarrow>
          (case min_element (\<lambda>l r. get_util l < get_util r) (wg_slots g) of
             None \<Rightarrow> (0, g)
           | Some k \<Rightarrow>
               (k, g\<lparr>wg_slots := (wg_slots g)[k := slot_add_entity (wg_slots g ! k)],
                     wg_entities_peer_slot := (wg_entities_peer_slot g)(entity \<mapsto> sl_id (wg_slots g ! k))\<rparr>)))"

definition wg_Post :: "clock_reads \<Rightarrow> 'r task \<Rightarrow> 'r ExecutorWorkGroup \<Rightarrow> (ar_error + 'r ExecutorWorkGroup) option" where
  "wg_Post clk t g =
     (let t = set_execution_state_wg (wg_id g) t; state = tk_state t in
      if get_delay (clk 0) t \<le> 0 then
        case (if es_processor state \<noteq> INVALID_OBJECT_ID then map_of (wg_cpus_peer_slot g) (to_int (es_processor state)) else None) of
          Some k \<Rightarrow> post_at k t g
        | None \<Rightarrow>
            if es_tag state \<noteq> INVALID_OBJECT_ID then
              let (k, g) = entity_slot (snd (Unpack (word_of_int (es_tag state)))) g in post_at k t g
            else post_at 0 t g
      else Some (Inr (g\<lparr>wg_scheduler := Scheduler_Post (\<lambda>k. clk (Suc k)) t (wg_scheduler g)\<rparr>)))"

text \<open>The executor. \<open>IExecutor\<close> is the part that every kind of executor has.\<close>

record 'r Executor =
  ex_name :: string
  ex_type :: ExecutorType
  ex_index :: int
  ex_entities_count :: int
  ex_entities_inc :: u16
  ex_groups :: "'r ExecutorWorkGroup list"

definition new_IExecutor :: "string \<Rightarrow> ExecutorType \<Rightarrow> 'r Executor" where
  "new_IExecutor name type = \<lparr>ex_name = name, ex_type = type, ex_index = 0, ex_entities_count = 0, ex_entities_inc = 0, ex_groups = []\<rparr>"

definition IExecutor_AddEntity :: "'r Executor \<Rightarrow> u16 \<times> 'r Executor" where
  "IExecutor_AddEntity x = (0, x\<lparr>ex_entities_count := ex_entities_count x + 1\<rparr>)"

definition IExecutor_DeleteEntity :: "u16 \<Rightarrow> 'r Executor \<Rightarrow> 'r Executor" where
  "IExecutor_DeleteEntity e x =
     (let old = ex_entities_count x; x = x\<lparr>ex_entities_count := old - 1\<rparr> in
      if old \<le> 0 then x\<lparr>ex_entities_count := 0\<rparr> else x)"

fun make_groups :: "int \<Rightarrow> (nat \<Rightarrow> 'd \<Rightarrow> 'd \<Rightarrow> int) \<Rightarrow> CPU list \<Rightarrow> int \<Rightarrow> 'd WorkGroupOption list \<Rightarrow> (nat \<times> nat) list \<Rightarrow>
    ar_error + 'r ExecutorWorkGroup list" where
  "make_groups hw share cpus i [] cpus_wg = Inr []"
| "make_groups hw share cpus i (opt # opts) cpus_wg =
     (case new_ExecutorWorkGroup hw share i opt cpus cpus_wg of
        Inl e \<Rightarrow> Inl e
      | Inr (g, wg) \<Rightarrow> (case make_groups hw share cpus (i + 1) opts wg of Inl e \<Rightarrow> Inl e | Inr gs \<Rightarrow> Inr (g # gs)))"

definition new_Executor :: "int \<Rightarrow> (nat \<Rightarrow> 'd \<Rightarrow> 'd \<Rightarrow> int) \<Rightarrow> string \<Rightarrow> CPU list \<Rightarrow> 'd WorkGroupOption list \<Rightarrow> ar_error + 'r Executor" where
  "new_Executor hw share name cpus opts =
     (let cpus_wg = map (\<lambda>i. (i, 0)) [0..<length cpus] in
      case make_groups hw share cpus 0 opts cpus_wg of
        Inl e \<Rightarrow> Inl e
      | Inr groups \<Rightarrow>
          if groups = [] then Inl undefined_behaviour
          else Inr ((new_IExecutor name kCPU_EXECUTOR)\<lparr>ex_groups := groups\<rparr>))"

definition Executor_MakeMetrics :: "bool \<Rightarrow> 'r Executor \<Rightarrow> 'r Executor" where
  "Executor_MakeMetrics metricer x = (if metricer then x\<lparr>ex_groups := map (wg_MakeMetrics metricer) (ex_groups x)\<rparr> else x)"

definition Executor_AddEntity :: "'r Executor \<Rightarrow> u16 \<times> 'r Executor" where
  "Executor_AddEntity x =
     (let x = x\<lparr>ex_entities_count := ex_entities_count x + 1\<rparr>;
          e = unat (ex_entities_inc x);
          x = x\<lparr>ex_entities_inc := ex_entities_inc x + 1\<rparr> in
      if e \<ge> 65500 then (0, x\<lparr>ex_entities_inc := 0\<rparr>) else (word_of_nat e, x))"

definition Executor_DeleteEntity :: "u16 \<Rightarrow> 'r Executor \<Rightarrow> 'r Executor" where
  "Executor_DeleteEntity e x =
     (let old = ex_entities_count x; x = x\<lparr>ex_entities_count := old - 1\<rparr>;
          x = (if old \<le> 0 then x\<lparr>ex_entities_count := 0\<rparr> else x) in
      x\<lparr>ex_groups := map (wg_DeleteEntity e) (ex_groups x)\<rparr>)"

text \<open>The group of a task: the one that it names, or the first.\<close>

definition group_at :: "nat \<Rightarrow> clock_reads \<Rightarrow> 'r task \<Rightarrow> 'r Executor \<Rightarrow> (ar_error + 'r Executor) option" where
  "group_at k clk t x =
     (if k < length (ex_groups x)
      then map_option (map_sum id (\<lambda>g. x\<lparr>ex_groups := (ex_groups x)[k := g]\<rparr>)) (wg_Post clk t (ex_groups x ! k))
      else Some (Inl undefined_behaviour))"

definition Executor_Post :: "nat \<Rightarrow> clock_reads \<Rightarrow> 'r task \<Rightarrow> 'r Executor \<Rightarrow> (ar_error + 'r Executor) option" where
  "Executor_Post self clk t x =
     (let state = (tk_state t)\<lparr>es_executor := Some self\<rparr>; t = set_execution_state state t in
      if es_work_group state \<noteq> INVALID_OBJECT_ID then
        if es_work_group state < 0 then Some (Inl undefined_behaviour)
        else group_at (nat (es_work_group state)) clk t x
      else group_at 0 clk t x)"


text \<open>Sequences of calls on one work group.\<close>

datatype 'r wg_op = WG_Post clock_reads "'r task" | WG_Delete u16

fun wg_run :: "'r wg_op list \<Rightarrow> 'r ExecutorWorkGroup \<Rightarrow> (ar_error + 'r ExecutorWorkGroup) option" where
  "wg_run [] g = Some (Inr g)"
| "wg_run (WG_Post clk t # ops) g = (case wg_Post clk t g of Some (Inr g') \<Rightarrow> wg_run ops g' | r \<Rightarrow> r)"
| "wg_run (WG_Delete e # ops) g = wg_run ops (wg_DeleteEntity e g)"

fun wg_posted :: "int \<Rightarrow> 'r wg_op list \<Rightarrow> 'r task list" where
  "wg_posted i [] = []"
| "wg_posted i (WG_Post clk t # ops) = set_execution_state_wg i t # wg_posted i ops"
| "wg_posted i (WG_Delete e # ops) = wg_posted i ops"

text \<open>Sequences of calls on one executor.\<close>

datatype 'r ex_op = EX_Post clock_reads "'r task" | EX_Add | EX_Delete u16

fun ex_run :: "nat \<Rightarrow> 'r ex_op list \<Rightarrow> 'r Executor \<Rightarrow> (ar_error + 'r Executor) option" where
  "ex_run self [] x = Some (Inr x)"
| "ex_run self (EX_Post clk t # ops) x = (case Executor_Post self clk t x of Some (Inr x') \<Rightarrow> ex_run self ops x' | r \<Rightarrow> r)"
| "ex_run self (EX_Add # ops) x = ex_run self ops (snd (Executor_AddEntity x))"
| "ex_run self (EX_Delete e # ops) x = ex_run self ops (Executor_DeleteEntity e x)"

definition work_group_of :: "'r task \<Rightarrow> int" where
  "work_group_of t = (if es_work_group (tk_state t) = INVALID_OBJECT_ID then 0 else es_work_group (tk_state t))"

fun ex_posted :: "nat \<Rightarrow> 'r ex_op list \<Rightarrow> 'r task list" where
  "ex_posted self [] = []"
| "ex_posted self (EX_Post clk t # ops) =
     t\<lparr>tk_state := (tk_state t)\<lparr>es_executor := Some self, es_work_group := work_group_of t\<rparr>\<rparr> # ex_posted self ops"
| "ex_posted self (op # ops) = ex_posted self ops"

section \<open>The smallest element\<close>

lemma min_loop_facts:
  fixes f :: "'a \<Rightarrow> 'b :: linorder"
  assumes "at < i" "i \<le> length ys" "xs = drop i ys" "best = ys ! at" "\<forall>j<i. f best \<le> f (ys ! j)"
  shows "min_loop (\<lambda>l r. f l < f r) best at i xs < length ys
     \<and> (\<forall>j<length ys. f (ys ! min_loop (\<lambda>l r. f l < f r) best at i xs) \<le> f (ys ! j))"
  using assms
proof (induction xs arbitrary: best at i)
  case Nil
  then show ?case by auto
next
  case (Cons x xs)
  then have i: "i < length ys" "x = ys ! i" "xs = drop (Suc i) ys"
    by (auto simp: Cons_nth_drop_Suc [symmetric] dest!: sym [of "_ # _"])
      (metis Cons.prems(3) Cons_nth_drop_Suc drop_eq_Nil list.distinct(1) list.inject not_le)+
  show ?case
  proof (cases "f x < f best")
    case True
    with Cons.prems i have "\<forall>j<Suc i. f x \<le> f (ys ! j)" by (auto simp: less_Suc_eq)
    with True Cons.IH [of i "Suc i" x] i show ?thesis by simp
  next
    case False
    with Cons.prems i have "\<forall>j<Suc i. f best \<le> f (ys ! j)" by (auto simp: less_Suc_eq)
    with False Cons.IH [of at "Suc i" best] Cons.prems(1,4) i show ?thesis by simp
  qed
qed

lemma min_element_facts:
  fixes f :: "'a \<Rightarrow> 'b :: linorder"
  assumes "ys \<noteq> []"
  shows "\<exists>k. min_element (\<lambda>l r. f l < f r) ys = Some k \<and> k < length ys \<and> (\<forall>j<length ys. f (ys ! k) \<le> f (ys ! j))"
proof -
  obtain x xs where ys: "ys = x # xs" using assms by (cases ys) auto
  from min_loop_facts [of 0 1 "x # xs" xs x f] show ?thesis unfolding ys by simp
qed

section \<open>The entity numbers\<close>

primrec add_entities :: "nat \<Rightarrow> 'r Executor \<Rightarrow> u16 list \<times> 'r Executor" where
  "add_entities 0 x = ([], x)"
| "add_entities (Suc n) x = (let (ids, x) = add_entities n x; (e, x) = Executor_AddEntity x in (ids @ [e], x))"

lemma add_entities_inc:
  assumes "ex_entities_inc x = 0"
  shows "length (fst (add_entities n x)) = n \<and> ex_entities_inc (snd (add_entities n x)) = word_of_nat (n mod 65501)
     \<and> (\<forall>i<n. fst (add_entities n x) ! i = word_of_nat (i mod 65501 mod 65500))"
proof (induction n)
  case (Suc n)
  obtain ids y where y: "add_entities n x = (ids, y)" by fastforce
  have inc: "ex_entities_inc y = word_of_nat (n mod 65501)" and ids: "length ids = n"
    "\<forall>i<n. ids ! i = word_of_nat (i mod 65501 mod 65500)" using Suc y by auto
  have "n mod 65501 < 65536" by (rule less_trans [of _ 65501]) simp_all
  then have e: "unat (ex_entities_inc y) = n mod 65501"
    unfolding inc by (simp add: unat_of_nat)
  show ?case
  proof (cases "n mod 65501 = 65500")
    case True
    then have "Suc n mod 65501 = 0" by (simp add: mod_Suc)
    with True e y ids show ?thesis by (auto simp: Executor_AddEntity_def Let_def nth_append less_Suc_eq)
  next
    case False
    then have l: "n mod 65501 < 65500" using mod_less_divisor [of 65501 n] by linarith
    then have "Suc n mod 65501 = Suc (n mod 65501)" by (simp add: mod_Suc)
    with l e y ids inc show ?thesis by (auto simp: Executor_AddEntity_def Let_def nth_append less_Suc_eq)
  qed
qed (simp add: assms)

text \<open>The numbers that an executor gives to entities, for any number of calls of
  \<open>AddEntity\<close> on a new executor: below 65500 always, counting up from 0, and repeated with
  period 65501. So the first 65500 entities have distinct numbers, and each time the counter
  is reset two entities in a row get the number 0.\<close>

theorem entity_ids_cycle:
  assumes "new_Executor hw share name cpus opts = Inr x"
  shows "let ids = fst (add_entities n x) in length ids = n \<and> (\<forall>i<n. ids ! i = word_of_nat (i mod 65501 mod 65500) \<and> unat (ids ! i) < 65500)
     \<and> distinct (take 65500 ids)"
proof -
  have "ex_entities_inc x = 0" using assms by (auto simp: new_Executor_def new_IExecutor_def split: sum.splits if_splits)
  from add_entities_inc [OF this, of n] have f: "length (fst (add_entities n x)) = n"
    "\<forall>i<n. fst (add_entities n x) ! i = word_of_nat (i mod 65501 mod 65500)" by auto
  have u: "unat (word_of_nat (i mod 65501 mod 65500) :: u16) = i mod 65501 mod 65500" for i :: nat
  proof -
    have "i mod 65501 mod 65500 < 65500" by simp
    then show ?thesis by (simp add: unat_of_nat)
  qed
  have "distinct (take 65500 (fst (add_entities n x)))"
  proof (unfold distinct_conv_nth, intro allI impI)
    fix i j
    assume ij: "i < length (take 65500 (fst (add_entities n x)))" "j < length (take 65500 (fst (add_entities n x)))" "i \<noteq> j"
    then have b: "i < 65500" "j < 65500" "i < n" "j < n" using f(1) by auto
    have "unat (fst (add_entities n x) ! i) \<noteq> unat (fst (add_entities n x) ! j)"
      using b f(2) u [of i] u [of j] ij(3) by simp
    with b show "take 65500 (fst (add_entities n x)) ! i \<noteq> take 65500 (fst (add_entities n x)) ! j" by auto
  qed
  with f u show ?thesis by (simp add: Let_def)
qed


section \<open>Work groups\<close>

definition rep_ok :: "WorkNotifier \<Rightarrow> bool" where
  "rep_ok n \<longleftrightarrow> (\<exists>E p stk. wn_rep n E p stk)"

lemma rep_okI [intro]: "wn_rep n E p stk \<Longrightarrow> rep_ok n"
  unfolding rep_ok_def by blast

definition slot_good :: "'r ExecutorSlot \<Rightarrow> bool" where
  "slot_good s \<longleftrightarrow> slot_wf s \<and> sl_workers s \<noteq> [] \<and> length (wn_waiters (sl_notifier s)) = length (sl_workers s)
     \<and> rep_ok (sl_notifier s)"

lemma new_slot_good:
  assumes "new_ExecutorSlot i name cpus = Inr sl" "cpus \<noteq> []"
  shows "slot_good sl \<and> slot_tasks sl = {#} \<and> get_util sl = 0 \<and> sl_id sl = i \<and> length (sl_workers sl) = length cpus"
proof -
  note f = new_ExecutorSlot_facts [OF assms(1)]
  have "wn_rep (sl_notifier sl) (2 ^ 32 - 1 - 2 * length cpus) 0 []" "length (wn_waiters (sl_notifier sl)) = length cpus"
    using slot_start [OF assms(1)] by (auto simp: wn_core_def)
  moreover have "sl_id sl = i" "sl_entities_count sl = 0" using assms(1) by (auto simp: new_ExecutorSlot_def split: sum.splits)
  ultimately show ?thesis using f assms(2) by (auto simp: slot_good_def get_util_def)
qed

lemma post_notify_rep:
  assumes rep: "wn_rep n E p stk" and ne: "wn_waiters n \<noteq> []"
  shows "\<exists>n'. post_notify target n = Some n' \<and> length (wn_waiters n') = length (wn_waiters n) \<and> rep_ok n'"
proof (cases target)
  case (Some w)
  from notify_waiter_rep [OF rep ne, of w] obtain n' where "notify_waiter w n = Some n'" "wn_rep n' (E + p) 0 []"
    "wn_waiters n' = fold signal stk (wn_waiters n)" by blast
  with Some show ?thesis by (auto simp: post_notify_def)
next
  case None
  show ?thesis
  proof (cases p)
    case (Suc q)
    from notify_one_rep(1) [OF rep this] None show ?thesis by (auto simp: post_notify_def)
  next
    case 0
    show ?thesis
    proof (cases stk)
      case Nil
      from notify_one_rep(2) [OF rep 0 this] None rep show ?thesis by (auto simp: post_notify_def)
    next
      case (Cons x xs)
      from notify_one_rep(3) [OF rep 0 this] None show ?thesis by (auto simp: post_notify_def)
    qed
  qed
qed

lemma slot_post_good:
  assumes "slot_good s"
  shows "\<exists>s'. slot_post t s = Some s' \<and> slot_good s' \<and> slot_tasks s' = add_mset t (slot_tasks s)
     \<and> sl_id s' = sl_id s \<and> get_util s' = get_util s"
proof -
  obtain target s1 where push: "post_push t s = (target, s1)" by fastforce
  have wf: "slot_wf s" using assms by (simp add: slot_good_def)
  note f = post_push_facts [OF push wf]
  obtain E p stk where "wn_rep (sl_notifier s) E p stk" using assms unfolding slot_good_def rep_ok_def by blast
  moreover have "wn_waiters (sl_notifier s) \<noteq> []" using assms by (auto simp: slot_good_def)
  ultimately obtain n' where n': "post_notify target (sl_notifier s) = Some n'"
    "length (wn_waiters n') = length (wn_waiters (sl_notifier s))" "rep_ok n'"
    using post_notify_rep by blast
  have "sl_id s1 = sl_id s" "sl_entities_count s1 = sl_entities_count s"
    by (cases rule: post_push_cases [OF push]; simp add: slot_push_def worker_push_def Let_def)+
  moreover have "sl_workers s1 \<noteq> []" using assms f(3) by (auto simp: slot_good_def)
  moreover have "slot_wf (s1\<lparr>sl_notifier := n'\<rparr>)" "slot_tasks (s1\<lparr>sl_notifier := n'\<rparr>) = add_mset t (slot_tasks s)"
    using f(1,2) slot_keeps(1,2) [of n' s1] by (simp_all add: on_notifier_def)
  ultimately show ?thesis using push f n' assms by (auto simp: slot_post_def slot_good_def get_util_def)
qed

definition group_tasks :: "'r ExecutorWorkGroup \<Rightarrow> 'r task multiset" where
  "group_tasks g = (\<Sum>s\<leftarrow>wg_slots g. slot_tasks s) + mset (sc_delayed_task (wg_scheduler g))"

definition util_counts :: "'r ExecutorWorkGroup \<Rightarrow> bool" where
  "util_counts g \<longleftrightarrow> (\<forall>k<length (wg_slots g). get_util (wg_slots g ! k) = int (card {e. wg_entities_peer_slot g e = Some k}))"

definition group_wf :: "'r ExecutorWorkGroup \<Rightarrow> bool" where
  "group_wf g \<longleftrightarrow> wg_slots g \<noteq> [] \<and> (\<forall>s\<in>set (wg_slots g). slot_good s)
     \<and> (\<forall>k<length (wg_slots g). sl_id (wg_slots g ! k) = k)
     \<and> (\<forall>e k. wg_entities_peer_slot g e = Some k \<longrightarrow> k < length (wg_slots g))
     \<and> (\<forall>c k. map_of (wg_cpus_peer_slot g) c = Some k \<longrightarrow> k < length (wg_slots g)) \<and> util_counts g"

lemma group_slot_update:
  assumes "group_wf g" "k < length (wg_slots g)" "slot_good s" "sl_id s = k" "get_util s = get_util (wg_slots g ! k)"
  shows "group_wf (g\<lparr>wg_slots := (wg_slots g)[k := s]\<rparr>)"
  using assms by (auto simp: group_wf_def util_counts_def nth_list_update dest!: set_update_subset_insert [THEN subsetD])

lemma post_at_facts:
  assumes "group_wf g" "k < length (wg_slots g)"
  shows "\<exists>s. post_at k t g = Some (Inr (g\<lparr>wg_slots := (wg_slots g)[k := s]\<rparr>)) \<and> group_wf (g\<lparr>wg_slots := (wg_slots g)[k := s]\<rparr>)
     \<and> group_tasks (g\<lparr>wg_slots := (wg_slots g)[k := s]\<rparr>) = add_mset t (group_tasks g)
     \<and> slot_tasks s = add_mset t (slot_tasks (wg_slots g ! k)) \<and> get_util s = get_util (wg_slots g ! k)"
proof -
  have "slot_good (wg_slots g ! k)" using assms by (simp add: group_wf_def)
  from slot_post_good [OF this, of t] obtain s where s: "slot_post t (wg_slots g ! k) = Some s" "slot_good s"
    "slot_tasks s = add_mset t (slot_tasks (wg_slots g ! k))" "sl_id s = sl_id (wg_slots g ! k)" "get_util s = get_util (wg_slots g ! k)" by blast
  have "sl_id s = k" using s(4) assms by (simp add: group_wf_def)
  note wf = group_slot_update [OF assms s(2) this s(5)]
  have "(\<Sum>s\<leftarrow>(wg_slots g)[k := s]. slot_tasks s) = add_mset t (\<Sum>s\<leftarrow>wg_slots g. slot_tasks s)"
    using sum_list_update_mset [OF assms(2), of slot_tasks s] s(3) by simp
  then show ?thesis using s wf assms(2) by (auto simp: post_at_def group_tasks_def)
qed

lemma slot_entity_good:
  "slot_good (slot_add_entity s) = slot_good s" "slot_good (slot_delete_entity s) = slot_good s"
  "slot_tasks (slot_add_entity s) = slot_tasks s" "slot_tasks (slot_delete_entity s) = slot_tasks s"
  "sl_id (slot_add_entity s) = sl_id s" "sl_id (slot_delete_entity s) = sl_id s"
  "get_util (slot_add_entity s) = get_util s + 1" "get_util (slot_delete_entity s) = (if get_util s \<le> 0 then 0 else get_util s - 1)"
  by (simp_all add: slot_add_entity_def slot_delete_entity_def slot_good_def slot_wf_def slot_tasks_def get_util_def Let_def)


lemma card_map_update:
  fixes m :: "u16 \<rightharpoonup> nat"
  shows "m e = None \<Longrightarrow> card {x. (m(e \<mapsto> k)) x = Some j} = card {x. m x = Some j} + (if j = k then 1 else 0)"
    and "m e = Some k \<Longrightarrow> card {x. m x = Some j} = card {x. (m(e := None)) x = Some j} + (if j = k then 1 else 0)"
proof -
  assume "m e = None"
  then have "{x. (m(e \<mapsto> k)) x = Some j} = (if j = k then insert e {x. m x = Some j} else {x. m x = Some j})" "e \<notin> {x. m x = Some j}"
    by auto
  then show "card {x. (m(e \<mapsto> k)) x = Some j} = card {x. m x = Some j} + (if j = k then 1 else 0)"
    by (cases "j = k") simp_all
next
  assume "m e = Some k"
  then have "{x. m x = Some j} = (if j = k then insert e {x. (m(e := None)) x = Some j} else {x. (m(e := None)) x = Some j})"
    "e \<notin> {x. (m(e := None)) x = Some j}" by auto
  then show "card {x. m x = Some j} = card {x. (m(e := None)) x = Some j} + (if j = k then 1 else 0)"
    by (cases "j = k") simp_all
qed

lemma sum_slot_update:
  "k < length ss \<Longrightarrow> slot_tasks s = slot_tasks (ss ! k) \<Longrightarrow> (\<Sum>s\<leftarrow>ss[k := s]. slot_tasks s) = (\<Sum>s\<leftarrow>ss. slot_tasks s)"
  using sum_list_update_mset [of k ss slot_tasks s] by simp

definition same_shape :: "'r ExecutorWorkGroup \<Rightarrow> 'r ExecutorWorkGroup \<Rightarrow> bool" where
  "same_shape g g' \<longleftrightarrow> length (wg_slots g') = length (wg_slots g) \<and> wg_id g' = wg_id g \<and> wg_cpus_peer_slot g' = wg_cpus_peer_slot g"

lemma entity_slot_facts:
  assumes wf: "group_wf g" and es: "entity_slot e g = (k, g')"
  shows "group_wf g' \<and> group_tasks g' = group_tasks g \<and> same_shape g g' \<and> wg_entities_peer_slot g' = (wg_entities_peer_slot g)(e \<mapsto> k)
     \<and> (wg_entities_peer_slot g e = None \<longrightarrow> (\<forall>j<length (wg_slots g). get_util (wg_slots g ! k) \<le> get_util (wg_slots g ! j)
          \<and> get_util (wg_slots g' ! j) = get_util (wg_slots g ! j) + (if j = k then 1 else 0)))
     \<and> (\<forall>i. wg_entities_peer_slot g e = Some i \<longrightarrow> g' = g) \<and> k < length (wg_slots g)"
proof (cases "wg_entities_peer_slot g e")
  case (Some i)
  with es wf show ?thesis by (auto simp: entity_slot_def group_wf_def same_shape_def)
next
  case None
  have "wg_slots g \<noteq> []" using wf by (simp add: group_wf_def)
  from min_element_facts [OF this, of get_util] obtain j where j: "min_element (\<lambda>l r. get_util l < get_util r) (wg_slots g) = Some j"
    "j < length (wg_slots g)" "\<forall>i<length (wg_slots g). get_util (wg_slots g ! j) \<le> get_util (wg_slots g ! i)" by blast
  then have k: "k = j" and g': "g' = g\<lparr>wg_slots := (wg_slots g)[j := slot_add_entity (wg_slots g ! j)],
      wg_entities_peer_slot := (wg_entities_peer_slot g)(e \<mapsto> j)\<rparr>"
    using es None wf by (auto simp: entity_slot_def group_wf_def)
  have "util_counts g'"
    using wf j(2) unfolding util_counts_def g'
    by (auto simp: nth_list_update slot_entity_good card_map_update(1) [of "wg_entities_peer_slot g" e, OF None]
        group_wf_def util_counts_def simp del: fun_upd_apply)
  then have "group_wf g'"
    using wf j(2) unfolding group_wf_def g'
    by (auto simp: slot_entity_good nth_list_update dest!: set_update_subset_insert [THEN subsetD])
  then show ?thesis using None k j
    by (auto simp: g' group_tasks_def same_shape_def sum_slot_update slot_entity_good nth_list_update)
qed

lemma entity_slot_keeps:
  assumes "entity_slot e g = (k, g')"
  shows "wg_id g' = wg_id g" "slot_tasks (wg_slots g' ! j) = slot_tasks (wg_slots g ! j)"
  using assms by (auto simp: entity_slot_def split: option.splits)
    (metis nth_list_update_eq nth_list_update_neq list_update_beyond not_le slot_entity_good(3))+

lemma wg_DeleteEntity_facts:
  assumes wf: "group_wf g"
  shows "group_wf (wg_DeleteEntity e g) \<and> group_tasks (wg_DeleteEntity e g) = group_tasks g \<and> same_shape g (wg_DeleteEntity e g)
     \<and> wg_entities_peer_slot (wg_DeleteEntity e g) = (wg_entities_peer_slot g)(e := None)"
proof (cases "wg_entities_peer_slot g e")
  case None
  with wf show ?thesis by (auto simp: wg_DeleteEntity_def same_shape_def)
next
  case (Some k)
  let ?g = "g\<lparr>wg_slots := (wg_slots g)[k := slot_delete_entity (wg_slots g ! k)],
      wg_entities_peer_slot := (wg_entities_peer_slot g)(e := None)\<rparr>"
  have d: "wg_DeleteEntity e g = ?g" using Some by (simp add: wg_DeleteEntity_def)
  have k: "k < length (wg_slots g)" using Some wf by (simp add: group_wf_def)
  note c = card_map_update(2) [of "wg_entities_peer_slot g" e, OF Some]
  have u: "get_util (wg_slots g ! k) = int (card {x. wg_entities_peer_slot g x = Some k})"
    using wf k by (simp add: group_wf_def util_counts_def)
  have "util_counts ?g"
    using wf k u unfolding util_counts_def
    by (auto simp: nth_list_update slot_entity_good group_wf_def util_counts_def c simp del: fun_upd_apply)
  then have "group_wf ?g"
    using wf k unfolding group_wf_def
    by (auto simp: slot_entity_good nth_list_update dest!: set_update_subset_insert [THEN subsetD])
  then show ?thesis unfolding d using k by (auto simp: group_tasks_def same_shape_def sum_slot_update slot_entity_good)
qed

text \<open>The slot that a task goes to, and what the group looks like before the push.\<close>

definition destination :: "'r task \<Rightarrow> 'r ExecutorWorkGroup \<Rightarrow> nat \<times> 'r ExecutorWorkGroup" where
  "destination t g =
     (case (if es_processor (tk_state t) \<noteq> INVALID_OBJECT_ID then map_of (wg_cpus_peer_slot g) (to_int (es_processor (tk_state t))) else None) of
        Some k \<Rightarrow> (k, g)
      | None \<Rightarrow> if es_tag (tk_state t) \<noteq> INVALID_OBJECT_ID then entity_slot (snd (Unpack (word_of_int (es_tag (tk_state t))))) g else (0, g))"

lemma wg_Post_destination:
  "wg_Post clk t g =
     (if get_delay (clk 0) t \<le> 0 then case destination t g of (k, g') \<Rightarrow> post_at k (set_execution_state_wg (wg_id g) t) g'
      else Some (Inr (g\<lparr>wg_scheduler := Scheduler_Post (\<lambda>k. clk (Suc k)) (set_execution_state_wg (wg_id g) t) (wg_scheduler g)\<rparr>)))"
  by (auto simp: wg_Post_def destination_def Let_def set_execution_state_wg_def get_delay_def split: option.splits)

lemma destination_facts:
  assumes wf: "group_wf g" and d: "destination t g = (k, g')"
  shows "group_wf g' \<and> group_tasks g' = group_tasks g \<and> same_shape g g' \<and> k < length (wg_slots g)
     \<and> (\<forall>e i. wg_entities_peer_slot g e = Some i \<longrightarrow> wg_entities_peer_slot g' e = Some i)
     \<and> (g' = g \<or> (\<forall>j<length (wg_slots g). get_util (wg_slots g ! k) \<le> get_util (wg_slots g ! j)
          \<and> get_util (wg_slots g' ! j) = get_util (wg_slots g ! j) + (if j = k then 1 else 0)))"
proof (cases "if es_processor (tk_state t) \<noteq> INVALID_OBJECT_ID then map_of (wg_cpus_peer_slot g) (to_int (es_processor (tk_state t))) else None")
  case None
  show ?thesis
  proof (cases "es_tag (tk_state t) = INVALID_OBJECT_ID")
    case False
    let ?e = "snd (Unpack (word_of_int (es_tag (tk_state t))))"
    from False None d have es: "entity_slot ?e g = (k, g')" by (simp add: destination_def)
    note f = entity_slot_facts [OF wf es]
    from f have "wg_entities_peer_slot g e = Some i \<longrightarrow> wg_entities_peer_slot g' e = Some i" for e i
      by (cases "wg_entities_peer_slot g ?e"; cases "e = ?e") auto
    with f show ?thesis by (cases "wg_entities_peer_slot g ?e") auto
  qed (use None d wf in \<open>auto simp: destination_def group_wf_def same_shape_def\<close>)
next
  case (Some j)
  then show ?thesis using d wf by (auto simp: destination_def group_wf_def same_shape_def split: if_splits)
qed

lemma wg_Post_facts:
  assumes wf: "group_wf g"
  shows "\<exists>g'. wg_Post clk t g = Some (Inr g') \<and> group_wf g' \<and> same_shape g g'
     \<and> group_tasks g' = add_mset (set_execution_state_wg (wg_id g) t) (group_tasks g)
     \<and> (\<forall>e i. wg_entities_peer_slot g e = Some i \<longrightarrow> wg_entities_peer_slot g' e = Some i)
     \<and> ((\<forall>j<length (wg_slots g). get_util (wg_slots g' ! j) = get_util (wg_slots g ! j))
        \<or> (\<exists>k<length (wg_slots g). \<forall>j<length (wg_slots g). get_util (wg_slots g ! k) \<le> get_util (wg_slots g ! j)
             \<and> get_util (wg_slots g' ! j) = get_util (wg_slots g ! j) + (if j = k then 1 else 0)))"
proof (cases "get_delay (clk 0) t \<le> 0")
  case False
  let ?g = "g\<lparr>wg_scheduler := Scheduler_Post (\<lambda>k. clk (Suc k)) (set_execution_state_wg (wg_id g) t) (wg_scheduler g)\<rparr>"
  have "group_wf ?g" using wf by (simp add: group_wf_def util_counts_def)
  then show ?thesis using False by (auto simp: wg_Post_destination group_tasks_def same_shape_def)
next
  case True
  obtain k g1 where d: "destination t g = (k, g1)" by fastforce
  note f = destination_facts [OF wf d]
  then have g1: "group_wf g1" "k < length (wg_slots g1)" by (auto simp: same_shape_def)
  from post_at_facts [OF this, of "set_execution_state_wg (wg_id g) t"] obtain s where
    s: "post_at k (set_execution_state_wg (wg_id g) t) g1 = Some (Inr (g1\<lparr>wg_slots := (wg_slots g1)[k := s]\<rparr>))"
      "group_wf (g1\<lparr>wg_slots := (wg_slots g1)[k := s]\<rparr>)"
      "group_tasks (g1\<lparr>wg_slots := (wg_slots g1)[k := s]\<rparr>) = add_mset (set_execution_state_wg (wg_id g) t) (group_tasks g1)"
      "get_util s = get_util (wg_slots g1 ! k)" by blast
  let ?g = "g1\<lparr>wg_slots := (wg_slots g1)[k := s]\<rparr>"
  have u: "get_util (wg_slots ?g ! j) = get_util (wg_slots g1 ! j)" for j
    using s(4) g1(2) by (cases "j = k") simp_all
  have "wg_Post clk t g = Some (Inr ?g)" using True d s(1) by (simp add: wg_Post_destination)
  moreover have "same_shape g ?g" "group_tasks ?g = add_mset (set_execution_state_wg (wg_id g) t) (group_tasks g)"
    using f s(3) by (auto simp: same_shape_def)
  moreover have "\<forall>e i. wg_entities_peer_slot g e = Some i \<longrightarrow> wg_entities_peer_slot ?g e = Some i" using f by simp
  moreover have "(\<forall>j<length (wg_slots g). get_util (wg_slots ?g ! j) = get_util (wg_slots g ! j))
        \<or> (\<exists>k<length (wg_slots g). \<forall>j<length (wg_slots g). get_util (wg_slots g ! k) \<le> get_util (wg_slots g ! j)
             \<and> get_util (wg_slots ?g ! j) = get_util (wg_slots g ! j) + (if j = k then 1 else 0))"
    unfolding u using f by blast
  ultimately show ?thesis using s(2) by blast
qed


section \<open>New work groups\<close>

text \<open>How often each processor is used: an even spread stays even.\<close>

definition even_spread :: "(nat \<times> nat) list \<Rightarrow> bool" where
  "even_spread wg \<longleftrightarrow> (\<forall>i<length wg. \<forall>j<length wg. snd (wg ! i) \<le> snd (wg ! j) + 1)"

lemma even_spread_use:
  assumes "even_spread wg" "k < length wg" "\<forall>j<length wg. snd (wg ! k) \<le> snd (wg ! j)"
  shows "even_spread (wg[k := (i, Suc (snd (wg ! k)))])"
proof -
  have "snd (wg ! a) \<le> snd (wg ! k) + 1" if "a < length wg" for a using assms(1,2) that by (auto simp: even_spread_def)
  then show ?thesis using assms unfolding even_spread_def by (auto simp: nth_list_update intro: le_SucI)
qed

lemma take_cpus_facts:
  assumes "take_cpus c cpus i wg peer = Inr (cs, wg', peer')"
  shows "length cs = c \<and> set cs \<subseteq> set cpus \<and> length wg' = length wg \<and> map fst wg' = map fst wg
     \<and> (even_spread wg \<longrightarrow> even_spread wg') \<and> (\<Sum>x\<leftarrow>wg'. snd x) = (\<Sum>x\<leftarrow>wg. snd x) + c
     \<and> (\<forall>x k. map_of peer' x = Some k \<longrightarrow> map_of peer x = Some k \<or> k = i)"
  using assms
proof (induction c arbitrary: wg peer cs)
  case (Suc c)
  have ne: "wg \<noteq> []" using Suc.prems by auto
  from min_element_facts [OF this, of snd] obtain k where k: "min_element (\<lambda>l r. snd l < snd r) wg = Some k" "k < length wg"
    "\<forall>j<length wg. snd (wg ! k) \<le> snd (wg ! j)" by blast
  obtain j used where w: "wg ! k = (j, used)" by fastforce
  let ?wg = "wg[k := (j, Suc used)]" and ?peer = "AList.update (to_int (int (cpu_id (cpus ! j)))) i peer"
  obtain cs' where j: "j < length cpus" and rec: "take_cpus c cpus i ?wg ?peer = Inr (cs', wg', peer')" "cs = cpus ! j # cs'"
    using Suc.prems k w by (auto split: if_splits sum.splits prod.splits)
  note IH = Suc.IH [OF rec(1)]
  have "map fst ?wg = map fst wg" using w k(2) by (simp add: map_update list_update_same_conv)
  moreover have "even_spread wg \<Longrightarrow> even_spread ?wg" using even_spread_use [OF _ k(2,3), of j] w by simp
  moreover have "(\<Sum>x\<leftarrow>?wg. snd x) = (\<Sum>x\<leftarrow>wg. snd x) + 1"
    using w k(2) by (simp add: map_update sum_list_update del: One_nat_def)
  ultimately show ?case using IH j rec(2) k(2) by (auto simp: update_conv' split: if_splits)
qed simp

lemma make_slots_facts:
  assumes "make_slots sc name cpus is wg peer = Inr (slots, wg', peer')" "0 < sc"
  shows "map sl_id slots = is \<and> (\<forall>s\<in>set slots. slot_good s \<and> slot_tasks s = {#} \<and> get_util s = 0 \<and> length (sl_workers s) = sc)
     \<and> length wg' = length wg \<and> (even_spread wg \<longrightarrow> even_spread wg') \<and> (\<Sum>x\<leftarrow>wg'. snd x) = (\<Sum>x\<leftarrow>wg. snd x) + sc * length is
     \<and> (\<forall>x k. map_of peer' x = Some k \<longrightarrow> map_of peer x = Some k \<or> k \<in> set is)"
  using assms(1)
proof (induction "is" arbitrary: wg peer slots)
  case (Cons i "is")
  obtain cs wg1 peer1 slot slots1 where
    c: "take_cpus sc cpus i wg peer = Inr (cs, wg1, peer1)" "new_ExecutorSlot i name (map (int \<circ> cpu_id) cs) = Inr slot"
      "make_slots sc name cpus is wg1 peer1 = Inr (slots1, wg', peer')" "slots = slot # slots1"
    using Cons.prems by (auto split: sum.splits prod.splits)
  note t = take_cpus_facts [OF c(1)] and IH = Cons.IH [OF c(3)]
  have "map (int \<circ> cpu_id) cs \<noteq> []" using t assms(2) by auto
  note n = new_slot_good [OF c(2) this]
  have peer: "map_of peer x = Some k \<or> k \<in> set (i # is)" if "map_of peer' x = Some k" for x k
  proof -
    have "\<forall>x k. map_of peer1 x = Some k \<longrightarrow> map_of peer x = Some k \<or> k = i"
      "\<forall>x k. map_of peer' x = Some k \<longrightarrow> map_of peer1 x = Some k \<or> k \<in> set is" using t IH by blast+
    with that show ?thesis by fastforce
  qed
  show ?case using n t IH c(4) peer by (simp add: algebra_simps)
qed simp

lemma slots_sum:
  "\<forall>s\<in>set ss. slot_tasks s = {#} \<Longrightarrow> (\<Sum>s\<leftarrow>ss. slot_tasks s) = {#}"
  "\<forall>s\<in>set ss. length (sl_workers s) = c \<Longrightarrow> (\<Sum>s\<leftarrow>ss. length (sl_workers s)) = c * length ss"
  by (induction ss) auto

lemma new_group_facts:
  assumes new: "new_ExecutorWorkGroup hw share i opt cpus wg = Inr (g, wg')" and hw: "0 \<le> hw"
  shows "group_wf g \<and> group_tasks g = {#} \<and> wg_id g = i \<and> wg_entities_peer_slot g = Map.empty
     \<and> (even_spread wg \<longrightarrow> even_spread wg') \<and> (\<forall>s\<in>set (wg_slots g). get_util s = 0)
     \<and> (\<Sum>x\<leftarrow>wg'. snd x) = (\<Sum>x\<leftarrow>wg. snd x) + (\<Sum>s\<leftarrow>wg_slots g. length (sl_workers s))"
proof -
  define sc where "sc = (if wgo_slot_concurrency opt > 0 then wgo_slot_concurrency opt else hw)"
  define n where "n = max 1 (min (max 1 (share (length cpus) (wgo_cap opt) (wgo_util opt))) (int (length cpus)) div sc)"
  obtain slots peer where m: "make_slots (nat sc) (wgo_name opt) cpus [0..<nat n] wg [] = Inr (slots, wg', peer)"
    and g: "g = \<lparr>wg_id = i, wg_name = wgo_name opt, wg_entities_peer_slot = Map.empty, wg_cpus_peer_slot = peer,
                  wg_slots = slots, wg_scheduler = new_Scheduler, wg_workers_count = None, wg_slots_count = None\<rparr>"
    and "sc \<noteq> 0"
    using new by (auto simp: new_ExecutorWorkGroup_def Let_def sc_def n_def split: if_splits sum.splits)
  then have "0 < nat sc" using hw by (auto simp: sc_def split: if_splits)
  note f = make_slots_facts [OF m this]
  have len: "length slots = nat n" "0 < nat n" using f by (metis length_map length_upt minus_nat.diff_0) (simp add: n_def)
  have ids: "sl_id (slots ! k) = k" if "k < length slots" for k
    using f that len by (metis add_0 nth_map nth_upt)
  have "group_wf g" using f len ids by (auto simp: g group_wf_def util_counts_def)
  moreover have "group_tasks g = {#}" using f by (simp add: g group_tasks_def new_Scheduler_def slots_sum)
  moreover have "(\<Sum>s\<leftarrow>slots. length (sl_workers s)) = nat sc * nat n" using f len slots_sum(2) [of slots "nat sc"] by simp
  ultimately show ?thesis using f by (auto simp: g)
qed


section \<open>Properties of work groups\<close>

lemma wg_run_facts:
  assumes "group_wf g"
  shows "\<exists>g'. wg_run ops g = Some (Inr g') \<and> group_wf g' \<and> same_shape g g'
     \<and> group_tasks g' = mset (wg_posted (wg_id g) ops) + group_tasks g
     \<and> (\<forall>e k. WG_Delete e \<notin> set ops \<and> wg_entities_peer_slot g e = Some k \<longrightarrow> wg_entities_peer_slot g' e = Some k)"
  using assms
proof (induction ops arbitrary: g)
  case (Cons op ops)
  show ?case
  proof (cases op)
    case (WG_Post clk t)
    from wg_Post_facts [OF Cons.prems, of clk t] obtain g1 where g1: "wg_Post clk t g = Some (Inr g1)" "group_wf g1" "same_shape g g1"
      "group_tasks g1 = add_mset (set_execution_state_wg (wg_id g) t) (group_tasks g)"
      "\<forall>e i. wg_entities_peer_slot g e = Some i \<longrightarrow> wg_entities_peer_slot g1 e = Some i" by blast
    from Cons.IH [OF g1(2)] g1 WG_Post show ?thesis by (auto simp: same_shape_def)
  next
    case (WG_Delete e)
    from wg_DeleteEntity_facts [OF Cons.prems, of e] Cons.IH [of "wg_DeleteEntity e g"] WG_Delete
    show ?thesis by (auto simp: same_shape_def)
  qed
qed (auto simp: same_shape_def)

text \<open>A work group accepts every task: any sequence of \<open>Post\<close> and \<open>DeleteEntity\<close> on a new
  group returns, with every posted task exactly once in the queue of a slot or with the
  scheduler, carrying the number of the group, and with the load that each slot reports equal
  to the number of entities that the group maps to it.\<close>

theorem group_accepts:
  assumes "new_ExecutorWorkGroup hw share i opt cpus wg = Inr (g, wg')" and "0 \<le> hw"
  shows "\<exists>g'. wg_run ops g = Some (Inr g') \<and> group_tasks g' = mset (wg_posted i ops)
     \<and> (\<forall>k<length (wg_slots g'). get_util (wg_slots g' ! k) = int (card {e. wg_entities_peer_slot g' e = Some k}))"
proof -
  note f = new_group_facts [OF assms]
  then obtain g' where "wg_run ops g = Some (Inr g')" "group_wf g'" "group_tasks g' = mset (wg_posted (wg_id g) ops) + group_tasks g"
    using wg_run_facts [of g ops] by auto
  with f show ?thesis by (auto simp: group_wf_def util_counts_def)
qed

text \<open>C13: Tasks of one entity stay together. Once a due task with a tag and no processor has
  been posted, every later task with the same entity and no processor goes to the slot of
  that first task, whatever was posted in between, until the entity is deleted.\<close>

theorem entity_affinity:
  assumes new: "new_ExecutorWorkGroup hw share i opt cpus wg = Inr (g0, wg')" and hw: "0 \<le> hw"
    and g: "wg_run before g0 = Some (Inr g)"
    and t: "get_delay (clk 0) t \<le> 0" "es_processor (tk_state t) = INVALID_OBJECT_ID" "es_tag (tk_state t) \<noteq> INVALID_OBJECT_ID"
    and u: "get_delay (clk' 0) u \<le> 0" "es_processor (tk_state u) = INVALID_OBJECT_ID" "es_tag (tk_state u) = es_tag (tk_state t)"
    and kept: "WG_Delete (snd (Unpack (word_of_int (es_tag (tk_state t))))) \<notin> set between"
  shows "\<exists>k g1 g2. wg_Post clk t g = Some (Inr g1) \<and> wg_run between g1 = Some (Inr g2)
     \<and> slot_tasks (wg_slots g1 ! k) = add_mset (set_execution_state_wg i t) (slot_tasks (wg_slots g ! k))
     \<and> wg_Post clk' u g2 = post_at k (set_execution_state_wg i u) g2"
proof -
  note f = new_group_facts [OF new hw]
  then have wf: "group_wf g" and id: "wg_id g = i" using wg_run_facts [of g0 before] g by (auto simp: same_shape_def)
  let ?e = "snd (Unpack (word_of_int (es_tag (tk_state t))))"
  obtain k gd where d: "entity_slot ?e g = (k, gd)" by fastforce
  note e = entity_slot_facts [OF wf d]
  have dest: "destination t g = (k, gd)" using t d by (simp add: destination_def)
  have k: "group_wf gd" "k < length (wg_slots gd)" using e by (auto simp: same_shape_def)
  from post_at_facts [OF k, of "set_execution_state_wg i t"] obtain s where
    s: "post_at k (set_execution_state_wg i t) gd = Some (Inr (gd\<lparr>wg_slots := (wg_slots gd)[k := s]\<rparr>))"
      "group_wf (gd\<lparr>wg_slots := (wg_slots gd)[k := s]\<rparr>)"
      "slot_tasks s = add_mset (set_execution_state_wg i t) (slot_tasks (wg_slots gd ! k))" by blast
  let ?g1 = "gd\<lparr>wg_slots := (wg_slots gd)[k := s]\<rparr>"
  have p1: "wg_Post clk t g = Some (Inr ?g1)" using t(1) dest s(1) id by (simp add: wg_Post_destination)
  note same = entity_slot_keeps [OF d, unfolded id]
  have m1: "wg_entities_peer_slot ?g1 ?e = Some k" using e by simp
  from wg_run_facts [OF s(2), of between] kept m1 obtain g2 where
    g2: "wg_run between ?g1 = Some (Inr g2)" "wg_entities_peer_slot g2 ?e = Some k" "wg_id g2 = i"
    using same(1) by (auto simp: same_shape_def)
  have "wg_Post clk' u g2 = post_at k (set_execution_state_wg i u) g2"
    using u t(3) g2(2,3) by (simp add: wg_Post_destination destination_def entity_slot_def)
  with p1 g2(1) s(3) k(2) same(2) show ?thesis by (intro exI [of _ k] exI [of _ ?g1] exI [of _ g2]) simp
qed

definition balanced :: "'r ExecutorWorkGroup \<Rightarrow> bool" where
  "balanced g \<longleftrightarrow> (\<forall>i<length (wg_slots g). \<forall>j<length (wg_slots g). get_util (wg_slots g ! i) \<le> get_util (wg_slots g ! j) + 1)"

lemma wg_Post_balanced:
  assumes wf: "group_wf g" and bal: "balanced g" and p: "wg_Post clk t g = Some (Inr g')"
  shows "balanced g'"
proof -
  from wg_Post_facts [OF wf, of clk t] p have len: "length (wg_slots g') = length (wg_slots g)"
    and u: "(\<forall>j<length (wg_slots g). get_util (wg_slots g' ! j) = get_util (wg_slots g ! j))
        \<or> (\<exists>k<length (wg_slots g). \<forall>j<length (wg_slots g). get_util (wg_slots g ! k) \<le> get_util (wg_slots g ! j)
             \<and> get_util (wg_slots g' ! j) = get_util (wg_slots g ! j) + (if j = k then 1 else 0))"
    by (auto simp: same_shape_def)
  from u show ?thesis
  proof
    assume "\<forall>j<length (wg_slots g). get_util (wg_slots g' ! j) = get_util (wg_slots g ! j)"
    with bal len show ?thesis by (simp add: balanced_def)
  next
    assume "\<exists>k<length (wg_slots g). \<forall>j<length (wg_slots g). get_util (wg_slots g ! k) \<le> get_util (wg_slots g ! j)
             \<and> get_util (wg_slots g' ! j) = get_util (wg_slots g ! j) + (if j = k then 1 else 0)"
    with bal len show ?thesis by (fastforce simp: balanced_def)
  qed
qed

text \<open>Entities are spread evenly: as long as no entity is deleted, the loads of any two
  slots of a group differ by at most one.\<close>

theorem entities_balanced:
  assumes "new_ExecutorWorkGroup hw share i opt cpus wg = Inr (g, wg')" and "0 \<le> hw"
    and "\<forall>op\<in>set ops. \<exists>clk t. op = WG_Post clk t" and "wg_run ops g = Some (Inr g')"
    and "j < length (wg_slots g')" "k < length (wg_slots g')"
  shows "\<bar>get_util (wg_slots g' ! j) - get_util (wg_slots g' ! k)\<bar> \<le> 1"
proof -
  have "group_wf g" "balanced g" using new_group_facts [OF assms(1,2)] by (auto simp: balanced_def)
  with assms(3,4) have "balanced g'"
  proof (induction ops arbitrary: g)
    case (Cons op ops)
    then obtain clk t where op: "op = WG_Post clk t" by auto
    from wg_Post_facts [OF Cons.prems(3), of clk t] obtain g1 where g1: "wg_Post clk t g = Some (Inr g1)" "group_wf g1" by blast
    with Cons.IH [of g1] Cons.prems op wg_Post_balanced [OF Cons.prems(3,4) g1(1)] show ?case by simp
  qed simp
  then have "get_util (wg_slots g' ! j) \<le> get_util (wg_slots g' ! k) + 1" "get_util (wg_slots g' ! k) \<le> get_util (wg_slots g' ! j) + 1"
    using assms(5,6) by (auto simp: balanced_def)
  then show ?thesis by linarith
qed


text \<open>A small group: two processors, slots of one worker.\<close>

definition small_cpus :: "CPU list" where
  "small_cpus = [\<lparr>cpu_id = 0, numa_node_id = 0\<rparr>, \<lparr>cpu_id = 1, numa_node_id = 0\<rparr>]"

definition small_option :: "unit WorkGroupOption" where
  "small_option = \<lparr>wgo_name = ''main'', wgo_cap = (), wgo_util = (), wgo_slot_concurrency = 1\<rparr>"

lemma small_group:
  "\<exists>(g :: 'r ExecutorWorkGroup) wg. new_ExecutorWorkGroup 2 (\<lambda>n _ _. int n) 0 small_option small_cpus [(0, 0), (1, 0)] = Inr (g, wg)
     \<and> length (wg_slots g) = 2"
  by (simp add: new_ExecutorWorkGroup_def small_option_def small_cpus_def Let_def new_ExecutorSlot_def new_WorkNotifier_def upt_rec)

definition tagged_task :: "nat \<Rightarrow> int \<Rightarrow> unit task" where
  "tagged_task i tag = set_execution_state_tag tag (new_task i (Inr ()) 0)"

theorem group_accepts_witness:
  "\<exists>(g :: unit ExecutorWorkGroup) wg g'. new_ExecutorWorkGroup 2 (\<lambda>n _ _. int n) 0 small_option small_cpus [(0, 0), (1, 0)] = Inr (g, wg)
     \<and> wg_run [WG_Post (\<lambda>k. 0) (tagged_task 0 7), WG_Delete 7] g = Some (Inr g') \<and> size (group_tasks g') = 1"
proof -
  obtain g :: "unit ExecutorWorkGroup" and wg where g: "new_ExecutorWorkGroup 2 (\<lambda>n _ _. int n) 0 small_option small_cpus [(0, 0), (1, 0)] = Inr (g, wg)"
    using small_group by blast
  from group_accepts [OF g, of "[WG_Post (\<lambda>k. 0) (tagged_task 0 7), WG_Delete 7]"] obtain g' where
    "wg_run [WG_Post (\<lambda>k. 0) (tagged_task 0 7), WG_Delete 7] g = Some (Inr g')"
    "group_tasks g' = mset (wg_posted 0 [WG_Post (\<lambda>k. 0) (tagged_task 0 7), WG_Delete 7])" by auto
  with g show ?thesis by (intro exI [of _ g] exI [of _ wg] exI [of _ g']) (simp del: wg_run.simps)
qed

theorem entity_affinity_witness:
  "\<exists>(g :: unit ExecutorWorkGroup) wg k g1 g2. new_ExecutorWorkGroup 2 (\<lambda>n _ _. int n) 0 small_option small_cpus [(0, 0), (1, 0)] = Inr (g, wg)
     \<and> wg_Post (\<lambda>k. 0) (tagged_task 0 7) g = Some (Inr g1) \<and> wg_run [WG_Post (\<lambda>k. 0) (tagged_task 1 8)] g1 = Some (Inr g2)
     \<and> wg_Post (\<lambda>k. 0) (tagged_task 2 7) g2 = post_at k (set_execution_state_wg 0 (tagged_task 2 7)) g2"
proof -
  obtain g :: "unit ExecutorWorkGroup" and wg where g: "new_ExecutorWorkGroup 2 (\<lambda>n _ _. int n) 0 small_option small_cpus [(0, 0), (1, 0)] = Inr (g, wg)"
    using small_group by blast
  have r: "wg_run [] g = Some (Inr g)" by simp
  have t: "get_delay 0 (tagged_task i tag) \<le> 0" "es_processor (tk_state (tagged_task i tag)) = INVALID_OBJECT_ID"
    "es_tag (tk_state (tagged_task i tag)) = tag" for i tag
    by (simp_all add: tagged_task_def set_execution_state_tag_def new_task_def new_execution_state_def get_delay_def)
  from entity_affinity [OF g _ r t(1) t(2) _ t(1) t(2), of 0 7 2 7 "[WG_Post (\<lambda>k. 0) (tagged_task 1 8)]"] t(3) g show ?thesis
    by (simp add: INVALID_OBJECT_ID_def del: wg_run.simps) blast
qed

theorem entities_balanced_witness:
  "\<exists>(g :: unit ExecutorWorkGroup) wg g'. new_ExecutorWorkGroup 2 (\<lambda>n _ _. int n) 0 small_option small_cpus [(0, 0), (1, 0)] = Inr (g, wg)
     \<and> wg_run [WG_Post (\<lambda>k. 0) (tagged_task 0 7), WG_Post (\<lambda>k. 0) (tagged_task 1 8), WG_Post (\<lambda>k. 0) (tagged_task 2 9)] g = Some (Inr g')
     \<and> \<bar>get_util (wg_slots g' ! 0) - get_util (wg_slots g' ! 1)\<bar> \<le> 1"
proof -
  obtain g :: "unit ExecutorWorkGroup" and wg where g: "new_ExecutorWorkGroup 2 (\<lambda>n _ _. int n) 0 small_option small_cpus [(0, 0), (1, 0)] = Inr (g, wg)"
    and two: "length (wg_slots g) = 2" using small_group by blast
  have wf: "group_wf g" using new_group_facts [OF g] by simp
  let ?ops = "[WG_Post (\<lambda>k. 0) (tagged_task 0 7), WG_Post (\<lambda>k. 0) (tagged_task 1 8), WG_Post (\<lambda>k. 0) (tagged_task 2 9)]"
  from wg_run_facts [OF wf, of ?ops] obtain g' where g': "wg_run ?ops g = Some (Inr g')" "same_shape g g'" by blast
  then have "0 < length (wg_slots g')" "1 < length (wg_slots g')" using two by (auto simp: same_shape_def)
  from entities_balanced [OF g _ _ g'(1) this] g g'(1) show ?thesis by (simp del: wg_run.simps) 
qed

section \<open>Properties of the executor\<close>

definition workers_on :: "int \<Rightarrow> 'r ExecutorWorkGroup list \<Rightarrow> nat" where
  "workers_on c gs = (\<Sum>g\<leftarrow>gs. \<Sum>s\<leftarrow>wg_slots g. count_list (map w_cpu_id (sl_workers s)) c)"

definition tracks :: "CPU list \<Rightarrow> (nat \<times> nat) list \<Rightarrow> (nat \<times> nat) list \<Rightarrow> (int \<Rightarrow> nat) \<Rightarrow> bool" where
  "tracks cpus wg wg' f \<longleftrightarrow> map fst wg' = [0..<length cpus]
     \<and> (\<forall>j<length cpus. snd (wg' ! j) = snd (wg ! j) + f (int (cpu_id (cpus ! j))))"

lemma tracks_add: "tracks cpus wg wg1 f \<Longrightarrow> tracks cpus wg1 wg2 h \<Longrightarrow> tracks cpus wg wg2 (\<lambda>c. f c + h c)"
  by (auto simp: tracks_def)

lemma take_cpus_tracks:
  assumes "take_cpus c cpus i wg peer = Inr (cs, wg', peer')" "map fst wg = [0..<length cpus]" "distinct (map cpu_id cpus)"
  shows "tracks cpus wg wg' (count_list (map (int \<circ> cpu_id) cs))"
  using assms(1,2)
proof (induction c arbitrary: wg peer cs)
  case (Suc c)
  have ne: "wg \<noteq> []" using Suc.prems by auto
  from min_element_facts [OF this, of snd] obtain k where k: "min_element (\<lambda>l r. snd l < snd r) wg = Some k" "k < length wg" by blast
  have len: "length wg = length cpus" using Suc.prems(2) by (metis length_map length_upt minus_nat.diff_0)
  have "fst (wg ! k) = k" using Suc.prems(2) k(2) len by (metis add_0 nth_map nth_upt)
  then obtain used where w: "wg ! k = (k, used)" by (metis prod.collapse)
  let ?wg = "wg[k := (k, Suc used)]"
  obtain cs' where rec: "take_cpus c cpus i ?wg (AList.update (to_int (int (cpu_id (cpus ! k)))) i peer) = Inr (cs', wg', peer')"
    "cs = cpus ! k # cs'"
    using Suc.prems(1) k w by (auto split: if_splits sum.splits prod.splits)
  have "map fst ?wg = [0..<length cpus]" using Suc.prems(2) k(2) len by (simp add: map_update list_update_same_conv)
  note IH = Suc.IH [OF rec(1) this]
  have "cpu_id (cpus ! k) = cpu_id (cpus ! j) \<longleftrightarrow> k = j" if "j < length cpus" for j
    using assms(3) that k(2) len by (auto simp: distinct_conv_nth)
  with IH rec(2) w k(2) len show ?case by (auto simp: tracks_def nth_list_update)
qed (simp add: tracks_def)

lemma make_slots_tracks:
  assumes "make_slots sc name cpus is wg peer = Inr (slots, wg', peer')" "map fst wg = [0..<length cpus]" "distinct (map cpu_id cpus)"
  shows "tracks cpus wg wg' (\<lambda>c. \<Sum>s\<leftarrow>slots. count_list (map w_cpu_id (sl_workers s)) c)"
  using assms(1,2)
proof (induction "is" arbitrary: wg peer slots)
  case (Cons i "is")
  obtain cs wg1 peer1 slot slots1 where
    c: "take_cpus sc cpus i wg peer = Inr (cs, wg1, peer1)" "new_ExecutorSlot i name (map (int \<circ> cpu_id) cs) = Inr slot"
      "make_slots sc name cpus is wg1 peer1 = Inr (slots1, wg', peer')" "slots = slot # slots1"
    using Cons.prems(1) by (auto split: sum.splits prod.splits)
  note t = take_cpus_tracks [OF c(1) Cons.prems(2) assms(3)]
  have "tracks cpus wg1 wg' (\<lambda>c. \<Sum>s\<leftarrow>slots1. count_list (map w_cpu_id (sl_workers s)) c)"
    using Cons.IH [OF c(3)] t by (simp add: tracks_def)
  from tracks_add [OF t this] show ?case using new_ExecutorSlot_facts(3) [OF c(2)] c(4) by simp
qed (simp add: tracks_def)

lemma make_groups_facts:
  assumes "make_groups hw share cpus i opts wg = Inr gs" "map fst wg = [0..<length cpus]" "distinct (map cpu_id cpus)" "0 \<le> hw" "even_spread wg"
  shows "\<exists>wg'. tracks cpus wg wg' (\<lambda>c. workers_on c gs) \<and> even_spread wg'"
  using assms(1,2,5)
proof (induction opts arbitrary: i wg gs)
  case (Cons opt opts)
  obtain g wg1 gs1 where c: "new_ExecutorWorkGroup hw share i opt cpus wg = Inr (g, wg1)"
    "make_groups hw share cpus (i + 1) opts wg1 = Inr gs1" "gs = g # gs1"
    using Cons.prems(1) by (auto split: sum.splits prod.splits)
  obtain sc n peer where m: "make_slots sc (wgo_name opt) cpus [0..<n] wg [] = Inr (wg_slots g, wg1, peer)"
    using c(1) by (auto simp: new_ExecutorWorkGroup_def Let_def split: if_splits sum.splits)
  note t = make_slots_tracks [OF m Cons.prems(2) assms(3)]
  have "even_spread wg1" using new_group_facts [OF c(1) assms(4)] Cons.prems(3) by blast
  with Cons.IH [OF c(2)] t obtain wg' where "tracks cpus wg1 wg' (\<lambda>c. workers_on c gs1)" "even_spread wg'"
    by (auto simp: tracks_def)
  with tracks_add [OF t this(1)] c(3) show ?case by (auto simp: workers_on_def)
qed (auto simp: tracks_def workers_on_def)

text \<open>The constructor of an executor spreads the workers of all its groups evenly over its
  processors: the numbers of workers bound to any two of them differ by at most one.\<close>

theorem workers_spread:
  assumes new: "new_Executor hw share name cpus opts = Inr x" and hw: "0 \<le> hw" and ids: "distinct (map cpu_id cpus)"
    and j: "j < length cpus" "k < length cpus"
  shows "workers_on (int (cpu_id (cpus ! j))) (ex_groups x) \<le> workers_on (int (cpu_id (cpus ! k))) (ex_groups x) + 1"
proof -
  let ?wg = "map (\<lambda>i. (i, 0 :: nat)) [0..<length cpus]"
  have m: "make_groups hw share cpus 0 opts ?wg = Inr (ex_groups x)"
    using new by (auto simp: new_Executor_def Let_def split: sum.splits if_splits)
  have "map fst ?wg = [0..<length cpus]" "even_spread ?wg" by (simp_all add: comp_def even_spread_def)
  from make_groups_facts [OF m this(1) ids hw this(2)] obtain wg' where
    t: "tracks cpus ?wg wg' (\<lambda>c. workers_on c (ex_groups x))" and e: "even_spread wg'" by blast
  have "length wg' = length cpus" using t by (metis tracks_def length_map length_upt minus_nat.diff_0)
  with e j have "snd (wg' ! j) \<le> snd (wg' ! k) + 1" by (simp add: even_spread_def)
  with t j show ?thesis by (simp add: tracks_def)
qed


lemma small_executor:
  "\<exists>x :: 'r Executor. new_Executor 2 (\<lambda>n _ _. int n) ''cpu'' small_cpus [small_option] = Inr x \<and> length (ex_groups x) = 1"
proof -
  obtain g :: "'r ExecutorWorkGroup" and wg where
    "new_ExecutorWorkGroup 2 (\<lambda>n _ _. int n) 0 small_option small_cpus [(0, 0), (1, 0)] = Inr (g, wg)" using small_group by blast
  moreover have "map (\<lambda>i. (i, 0 :: nat)) [0..<length small_cpus] = [(0, 0), (1, 0)]" by (simp add: small_cpus_def upt_rec)
  ultimately show ?thesis by (simp add: new_Executor_def Let_def)
qed

theorem workers_spread_witness:
  "\<exists>x :: unit Executor. new_Executor 2 (\<lambda>n _ _. int n) ''cpu'' small_cpus [small_option] = Inr x
     \<and> workers_on 0 (ex_groups x) \<le> workers_on 1 (ex_groups x) + 1"
proof -
  obtain x :: "unit Executor" where x: "new_Executor 2 (\<lambda>n _ _. int n) ''cpu'' small_cpus [small_option] = Inr x"
    using small_executor by blast
  from workers_spread [OF x, of 0 1] x show ?thesis by (simp add: small_cpus_def)
qed

theorem entity_ids_cycle_witness:
  "\<exists>x :: unit Executor. new_Executor 2 (\<lambda>n _ _. int n) ''cpu'' small_cpus [small_option] = Inr x
     \<and> fst (add_entities 65502 x) ! 65500 = 0 \<and> fst (add_entities 65502 x) ! 65501 = 0"
proof -
  obtain x :: "unit Executor" where x: "new_Executor 2 (\<lambda>n _ _. int n) ''cpu'' small_cpus [small_option] = Inr x"
    using small_executor by blast
  from entity_ids_cycle [OF x, of 65502]
  have "\<forall>i<65502. fst (add_entities 65502 x) ! i = word_of_nat (i mod 65501 mod 65500)" unfolding Let_def by blast
  from this [rule_format, of 65500] this [rule_format, of 65501] x show ?thesis by simp
qed

definition executor_wf :: "'r Executor \<Rightarrow> bool" where
  "executor_wf x \<longleftrightarrow> ex_groups x \<noteq> [] \<and> (\<forall>k<length (ex_groups x). group_wf (ex_groups x ! k) \<and> wg_id (ex_groups x ! k) = int k)"

definition executor_tasks :: "'r Executor \<Rightarrow> 'r task multiset" where
  "executor_tasks x = (\<Sum>g\<leftarrow>ex_groups x. group_tasks g)"

lemma make_groups_wf:
  assumes "make_groups hw share cpus i opts wg = Inr gs" "0 \<le> hw"
  shows "length gs = length opts \<and> (\<Sum>g\<leftarrow>gs. group_tasks g) = {#} \<and> (\<forall>k<length gs. group_wf (gs ! k) \<and> wg_id (gs ! k) = i + int k)"
  using assms(1)
proof (induction opts arbitrary: i wg gs)
  case (Cons opt opts)
  obtain g wg1 gs1 where c: "new_ExecutorWorkGroup hw share i opt cpus wg = Inr (g, wg1)"
    "make_groups hw share cpus (i + 1) opts wg1 = Inr gs1" "gs = g # gs1"
    using Cons.prems by (auto split: sum.splits prod.splits)
  from new_group_facts [OF c(1) assms(2)] Cons.IH [OF c(2)] c(3) show ?case by (auto simp: nth_Cons split: nat.splits)
qed simp

lemma new_Executor_wf:
  assumes "new_Executor hw share name cpus opts = Inr x" "0 \<le> hw"
  shows "executor_wf x \<and> executor_tasks x = {#} \<and> length (ex_groups x) = length opts \<and> ex_type x = kCPU_EXECUTOR
     \<and> ex_entities_count x = 0 \<and> ex_index x = 0"
proof -
  obtain wg where "make_groups hw share cpus 0 opts wg = Inr (ex_groups x)" "ex_groups x \<noteq> []"
    and "ex_type x = kCPU_EXECUTOR" "ex_entities_count x = 0" "ex_index x = 0"
    using assms(1) by (auto simp: new_Executor_def new_IExecutor_def Let_def split: sum.splits if_splits)
  with make_groups_wf [OF _ assms(2)] show ?thesis by (fastforce simp: executor_wf_def executor_tasks_def)
qed

lemma executor_group_update:
  assumes "executor_wf x" "k < length (ex_groups x)" "group_wf g" "wg_id g = int k"
  shows "executor_wf (x\<lparr>ex_groups := (ex_groups x)[k := g]\<rparr>)"
  using assms by (auto simp: executor_wf_def nth_list_update)

text \<open>What a posted task looks like, and where it goes.\<close>

lemma Executor_Post_facts:
  assumes wf: "executor_wf x" and k: "0 \<le> work_group_of t" "nat (work_group_of t) < length (ex_groups x)"
  shows "\<exists>g. Executor_Post self clk t x = Some (Inr (x\<lparr>ex_groups := (ex_groups x)[nat (work_group_of t) := g]\<rparr>))
     \<and> executor_wf (x\<lparr>ex_groups := (ex_groups x)[nat (work_group_of t) := g]\<rparr>)
     \<and> executor_tasks (x\<lparr>ex_groups := (ex_groups x)[nat (work_group_of t) := g]\<rparr>)
        = add_mset (t\<lparr>tk_state := (tk_state t)\<lparr>es_executor := Some self, es_work_group := work_group_of t\<rparr>\<rparr>) (executor_tasks x)"
proof -
  let ?k = "nat (work_group_of t)" and ?t = "set_execution_state ((tk_state t)\<lparr>es_executor := Some self\<rparr>) t"
  have g: "group_wf (ex_groups x ! ?k)" "wg_id (ex_groups x ! ?k) = work_group_of t" using wf k by (auto simp: executor_wf_def)
  from wg_Post_facts [OF g(1), of clk ?t] obtain g' where g': "wg_Post clk ?t (ex_groups x ! ?k) = Some (Inr g')" "group_wf g'"
    "same_shape (ex_groups x ! ?k) g'" "group_tasks g' = add_mset (set_execution_state_wg (work_group_of t) ?t) (group_tasks (ex_groups x ! ?k))"
    unfolding g(2) by blast
  have post: "Executor_Post self clk t x = Some (Inr (x\<lparr>ex_groups := (ex_groups x)[?k := g']\<rparr>))"
    using g'(1) k by (cases "es_work_group (tk_state t) = INVALID_OBJECT_ID") (simp_all add: Executor_Post_def Let_def group_at_def work_group_of_def)
  have wf': "executor_wf (x\<lparr>ex_groups := (ex_groups x)[?k := g']\<rparr>)"
    using executor_group_update [OF wf k(2) g'(2)] g'(3) g(2) k(1) by (simp add: same_shape_def)
  have "set_execution_state_wg (work_group_of t) ?t
      = t\<lparr>tk_state := (tk_state t)\<lparr>es_executor := Some self, es_work_group := work_group_of t\<rparr>\<rparr>"
    by (simp add: set_execution_state_wg_def set_execution_state_def)
  then have "(\<Sum>g\<leftarrow>(ex_groups x)[?k := g']. group_tasks g)
      = add_mset (t\<lparr>tk_state := (tk_state t)\<lparr>es_executor := Some self, es_work_group := work_group_of t\<rparr>\<rparr>) (\<Sum>g\<leftarrow>ex_groups x. group_tasks g)"
    using sum_list_update_mset [OF k(2), of group_tasks g'] g'(4) by simp
  with post wf' show ?thesis by (intro exI [of _ g']) (simp add: executor_tasks_def)
qed

lemma Executor_entity_facts:
  assumes "executor_wf x"
  shows "executor_wf (snd (Executor_AddEntity x))" "executor_tasks (snd (Executor_AddEntity x)) = executor_tasks x"
    "ex_groups (snd (Executor_AddEntity x)) = ex_groups x" "executor_wf (Executor_DeleteEntity e x)"
    "executor_tasks (Executor_DeleteEntity e x) = executor_tasks x" "length (ex_groups (Executor_DeleteEntity e x)) = length (ex_groups x)"
proof -
  have gs: "ex_groups (Executor_DeleteEntity e x) = map (wg_DeleteEntity e) (ex_groups x)"
    by (simp add: Executor_DeleteEntity_def Let_def)
  then show "length (ex_groups (Executor_DeleteEntity e x)) = length (ex_groups x)" by simp
  have d: "group_wf (wg_DeleteEntity e g) \<and> group_tasks (wg_DeleteEntity e g) = group_tasks g \<and> wg_id (wg_DeleteEntity e g) = wg_id g"
    if "g \<in> set (ex_groups x)" for g
    using wg_DeleteEntity_facts [of g e] assms that by (auto simp: executor_wf_def in_set_conv_nth same_shape_def)
  then show "executor_wf (Executor_DeleteEntity e x)" using assms by (simp add: executor_wf_def gs)
  have "map group_tasks (map (wg_DeleteEntity e) (ex_groups x)) = map group_tasks (ex_groups x)" using d by simp
  then show "executor_tasks (Executor_DeleteEntity e x) = executor_tasks x" unfolding executor_tasks_def gs by (simp only:)
  show a: "ex_groups (snd (Executor_AddEntity x)) = ex_groups x" by (simp add: Executor_AddEntity_def Let_def)
  then show "executor_wf (snd (Executor_AddEntity x))" "executor_tasks (snd (Executor_AddEntity x)) = executor_tasks x"
    using assms by (simp_all add: executor_wf_def executor_tasks_def)
qed

definition valid_op :: "nat \<Rightarrow> 'r ex_op \<Rightarrow> bool" where
  "valid_op n op = (case op of EX_Post clk t \<Rightarrow> 0 \<le> work_group_of t \<and> work_group_of t < int n | _ \<Rightarrow> True)"

text \<open>C12: An executor accepts every task that names one of its work groups or none: any
  sequence of \<open>Post\<close>, \<open>AddEntity\<close> and \<open>DeleteEntity\<close> on a new executor returns; every posted task
  is then exactly once in a queue or with a scheduler, marked with the executor and its group
  (the first when it named none); and in every group the load of a slot is the number of
  entities mapped to it.\<close>

theorem executor_accepts:
  assumes "new_Executor hw share name cpus opts = Inr x" and "0 \<le> hw" and "\<forall>op\<in>set ops. valid_op (length opts) op"
  shows "\<exists>x'. ex_run self ops x = Some (Inr x') \<and> executor_tasks x' = mset (ex_posted self ops)
     \<and> (\<forall>g\<in>set (ex_groups x'). \<forall>k<length (wg_slots g). get_util (wg_slots g ! k) = int (card {e. wg_entities_peer_slot g e = Some k}))"
proof -
  have run: "\<exists>y'. ex_run self ops y = Some (Inr y') \<and> executor_tasks y' = mset (ex_posted self ops) + executor_tasks y \<and> executor_wf y'"
    if "executor_wf y" "\<forall>op\<in>set ops. valid_op (length (ex_groups y)) op" for y
    using that
  proof (induction ops arbitrary: y)
    case (Cons op ops)
    show ?case
    proof (cases op)
      case (EX_Post clk t)
      with Cons.prems have "0 \<le> work_group_of t" "nat (work_group_of t) < length (ex_groups y)" by (auto simp: valid_op_def)
      from Executor_Post_facts [OF Cons.prems(1) this, of self clk] obtain z where z: "Executor_Post self clk t y = Some (Inr z)"
        "executor_wf z" "executor_tasks z = add_mset (t\<lparr>tk_state := (tk_state t)\<lparr>es_executor := Some self, es_work_group := work_group_of t\<rparr>\<rparr>) (executor_tasks y)"
        "length (ex_groups z) = length (ex_groups y)" by auto
      from Cons.IH [OF z(2)] z Cons.prems(2) EX_Post show ?thesis by auto
    next
      case EX_Add
      with Cons.IH [OF Executor_entity_facts(1) [OF Cons.prems(1)]] Cons.prems(2) Executor_entity_facts(2,3) [OF Cons.prems(1)]
      show ?thesis by auto
    next
      case (EX_Delete e)
      with Cons.IH [OF Executor_entity_facts(4) [OF Cons.prems(1), of e]] Cons.prems(2) Executor_entity_facts(5,6) [OF Cons.prems(1), of e]
      show ?thesis by auto
    qed
  qed simp
  note new = new_Executor_wf [OF assms(1,2)]
  from run [of x] new assms(3) obtain x' where x': "ex_run self ops x = Some (Inr x')" "executor_tasks x' = mset (ex_posted self ops)" "executor_wf x'"
    by auto
  then have "\<forall>g\<in>set (ex_groups x'). util_counts g" by (auto simp: executor_wf_def group_wf_def in_set_conv_nth)
  with x' show ?thesis by (auto simp: util_counts_def)
qed

theorem executor_accepts_witness:
  "\<exists>(x :: unit Executor) x'. new_Executor 2 (\<lambda>n _ _. int n) ''cpu'' small_cpus [small_option] = Inr x
     \<and> ex_run 5 [EX_Add, EX_Post (\<lambda>k. 0) (tagged_task 0 0)] x = Some (Inr x') \<and> size (executor_tasks x') = 1"
proof -
  obtain x :: "unit Executor" where x: "new_Executor 2 (\<lambda>n _ _. int n) ''cpu'' small_cpus [small_option] = Inr x"
    using small_executor by blast
  have "\<forall>op\<in>set [EX_Add, EX_Post (\<lambda>k. 0) (tagged_task 0 0)]. valid_op (length [small_option]) op"
    by (simp add: valid_op_def work_group_of_def tagged_task_def set_execution_state_tag_def new_task_def new_execution_state_def)
  from executor_accepts [OF x _ this, of 5] x show ?thesis by (auto simp del: ex_run.simps)
qed


section \<open>Construction succeeds\<close>

lemma take_cpus_succeeds:
  assumes "wg \<noteq> []" "\<forall>x\<in>set wg. fst x < length cpus"
  shows "\<exists>r. take_cpus c cpus i wg peer = Inr r"
  using assms
proof (induction c arbitrary: wg peer)
  case (Suc c)
  from min_element_facts [OF Suc.prems(1), of snd] obtain k where k: "min_element (\<lambda>l r. snd l < snd r) wg = Some k" "k < length wg" by blast
  obtain j used where w: "wg ! k = (j, used)" by fastforce
  have j: "j < length cpus" using Suc.prems(2) k(2) w by (metis fst_conv nth_mem)
  have "\<forall>x\<in>set (wg[k := (j, Suc used)]). fst x < length cpus"
    using Suc.prems(2) j by (auto dest!: set_update_subset_insert [THEN subsetD])
  with Suc.IH [of "wg[k := (j, Suc used)]" "AList.update (to_int (int (cpu_id (cpus ! j)))) i peer"] Suc.prems(1) k w j
  show ?case by auto
qed simp

lemma fst_ok: "map fst wg' = map fst wg \<Longrightarrow> \<forall>x\<in>set wg. fst x < n \<Longrightarrow> \<forall>x\<in>set wg'. fst x < n"
  by (metis image_iff set_map)

lemma make_slots_succeeds:
  fixes wg :: "(nat \<times> nat) list"
  assumes "wg \<noteq> []" "\<forall>x\<in>set wg. fst x < length cpus" "sc < 65535"
  shows "\<exists>(slots :: 'r ExecutorSlot list) wg' peer'. make_slots sc name cpus is wg peer = Inr (slots, wg', peer') \<and> map fst wg' = map fst wg"
  using assms(1,2)
proof (induction "is" arbitrary: wg peer)
  case (Cons i "is")
  from take_cpus_succeeds [OF Cons.prems, of sc i peer] obtain cs wg1 peer1 where t: "take_cpus sc cpus i wg peer = Inr (cs, wg1, peer1)" by auto
  note f = take_cpus_facts [OF t]
  have "\<exists>y :: 'r ExecutorSlot. new_ExecutorSlot i name (map (int \<circ> cpu_id) cs) = Inr y"
    using f assms(3) by (simp add: new_ExecutorSlot_def new_WorkNotifier_def)
  then obtain y :: "'r ExecutorSlot" where y: "new_ExecutorSlot i name (map (int \<circ> cpu_id) cs) = Inr y" by blast
  have fst: "map fst wg1 = map fst wg" using f by blast
  then have "wg1 \<noteq> []" using Cons.prems(1) by (metis map_is_Nil_conv)
  from Cons.IH [OF this fst_ok [OF fst Cons.prems(2)], of peer1] obtain slots :: "'r ExecutorSlot list" and wg' peer'
    where "make_slots sc name cpus is wg1 peer1 = Inr (slots, wg', peer')" "map fst wg' = map fst wg1" by blast
  with t y fst show ?case by simp
qed simp

lemma new_group_succeeds:
  fixes wg :: "(nat \<times> nat) list"
  assumes "wg \<noteq> []" "\<forall>x\<in>set wg. fst x < length cpus" "0 < hw" "hw < 65535" "wgo_slot_concurrency opt < 65535"
  shows "\<exists>(g :: 'r ExecutorWorkGroup) wg'. new_ExecutorWorkGroup hw share i opt cpus wg = Inr (g, wg') \<and> map fst wg' = map fst wg"
proof -
  define sc where "sc = (if wgo_slot_concurrency opt > 0 then wgo_slot_concurrency opt else hw)"
  define n where "n = max 1 (min (max 1 (share (length cpus) (wgo_cap opt) (wgo_util opt))) (int (length cpus)) div sc)"
  have sc: "sc \<noteq> 0" "nat sc < 65535" using assms by (auto simp: sc_def)
  obtain slots :: "'r ExecutorSlot list" and wg' peer' where "make_slots (nat sc) (wgo_name opt) cpus [0..<nat n] wg [] = Inr (slots, wg', peer')"
    "map fst wg' = map fst wg" using make_slots_succeeds [OF assms(1,2) sc(2)] by blast
  then show ?thesis using sc(1) unfolding new_ExecutorWorkGroup_def Let_def sc_def [symmetric] n_def [symmetric] by simp
qed

lemma make_groups_succeeds:
  fixes wg :: "(nat \<times> nat) list"
  assumes "wg \<noteq> []" "\<forall>x\<in>set wg. fst x < length cpus" "0 < hw" "hw < 65535" "\<forall>opt\<in>set opts. wgo_slot_concurrency opt < 65535"
  shows "\<exists>gs :: 'r ExecutorWorkGroup list. make_groups hw share cpus i opts wg = Inr gs \<and> length gs = length opts"
  using assms(1,2,5)
proof (induction opts arbitrary: i wg)
  case (Cons opt opts)
  from new_group_succeeds [OF Cons.prems(1,2) assms(3,4)] Cons.prems(3) obtain g :: "'r ExecutorWorkGroup" and wg' where
    g: "new_ExecutorWorkGroup hw share i opt cpus wg = Inr (g, wg')" "map fst wg' = map fst wg" by (metis list.set_intros(1))
  then have "wg' \<noteq> []" using Cons.prems(1) by (metis map_is_Nil_conv)
  from Cons.IH [OF this fst_ok [OF g(2) Cons.prems(2)], of "i + 1"] Cons.prems(3) g(1) show ?case by auto
qed simp

lemma new_Executor_succeeds:
  assumes "cpus \<noteq> []" "opts \<noteq> []" "0 < hw" "hw < 65535" "\<forall>opt\<in>set opts. wgo_slot_concurrency opt < 65535"
  shows "\<exists>x :: 'r Executor. new_Executor hw share name cpus opts = Inr x"
proof -
  let ?wg = "map (\<lambda>i. (i, 0 :: nat)) [0..<length cpus]"
  have "?wg \<noteq> []" "\<forall>x\<in>set ?wg. fst x < length cpus" using assms(1) by auto
  from make_groups_succeeds [OF this assms(3-5), of share 0] obtain gs :: "'r ExecutorWorkGroup list"
    where "make_groups hw share cpus 0 opts ?wg = Inr gs" "length gs = length opts" by blast
  with assms(2) show ?thesis by (auto simp: new_Executor_def Let_def)
qed

end
