(* ===== verification/Cpu_Nodes.thy ===== *)
theory Cpu_Nodes
  imports Executor Float_Single
begin

text \<open>
  \<open>src/cpu_helper.cpp\<close>: the processors of the machine, grouped by NUMA node. The number \<open>hw\<close>
  of hardware threads, the number of nodes and the node of a processor come from the system.
  The grouping by hand divides single-precision floats, as the model does (\<open>fl_div\<close>); below
  \<open>2 ^ 24\<close> processors the truncated quotient is the quotient of the integers. A division
  by zero and a node beyond the array are errors. (A negative count is not modelled.)
\<close>

section \<open>Definitions\<close>

record NumaNode =
  nn_id :: nat
  nn_cpus :: "CPU list"

definition new_NumaNode :: NumaNode where
  "new_NumaNode = \<lparr>nn_id = 0, nn_cpus = []\<rparr>"

definition GetCPUs :: "nat \<Rightarrow> (nat \<Rightarrow> nat) \<Rightarrow> CPU list" where
  "GetCPUs hw node_of_cpu = map (\<lambda>i. \<lparr>cpu_id = i, numa_node_id = node_of_cpu i\<rparr>) [0..<hw]"

text \<open>The body of the loop over the processors.\<close>

definition add_cpu :: "CPU \<Rightarrow> NumaNode list \<Rightarrow> ar_error + NumaNode list" where
  "add_cpu cpu nodes =
     (let n = numa_node_id cpu in
      if length nodes \<le> n then Inl undefined_behaviour
      else Inr (nodes[n := \<lparr>nn_id = n, nn_cpus = nn_cpus (nodes ! n) @ [cpu]\<rparr>]))"

fun add_cpus :: "CPU list \<Rightarrow> NumaNode list \<Rightarrow> ar_error + NumaNode list" where
  "add_cpus [] nodes = Inr nodes"
| "add_cpus (cpu # cpus) nodes = (case add_cpu cpu nodes of Inl e \<Rightarrow> Inl e | Inr nodes \<Rightarrow> add_cpus cpus nodes)"

definition GetNumaNodes :: "nat \<Rightarrow> nat \<Rightarrow> (nat \<Rightarrow> nat) \<Rightarrow> ar_error + NumaNode list" where
  "GetNumaNodes hw nodes_count node_of_cpu =
     add_cpus (map (\<lambda>i. \<lparr>cpu_id = i, numa_node_id = node_of_cpu i\<rparr>) [0..<hw]) (replicate nodes_count new_NumaNode)"

definition node_cpus_count :: "nat \<Rightarrow> nat \<Rightarrow> nat" where
  "node_cpus_count hw cnt = nat \<lfloor>fl_div (nat \<lfloor>fl (of_nat hw)\<rfloor>) cnt\<rfloor>"

definition manual_node :: "nat \<Rightarrow> nat \<Rightarrow> nat" where
  "manual_node i cpus_count = nat \<lfloor>fl_div i cpus_count\<rfloor>"

definition GetManualNumaNodes :: "nat \<Rightarrow> nat \<Rightarrow> ar_error + NumaNode list" where
  "GetManualNumaNodes hw cnt =
     (let q = node_cpus_count hw cnt in
      if cnt = 0 \<or> 0 < hw \<and> q = 0 then Inl undefined_behaviour
      else add_cpus (map (\<lambda>i. \<lparr>cpu_id = i, numa_node_id = manual_node i q\<rparr>) [0..<hw]) (replicate cnt new_NumaNode))"

section \<open>The grouping\<close>

lemma add_cpus_ok:
  "(\<exists>nodes'. add_cpus cpus nodes = Inr nodes') \<longleftrightarrow> (\<forall>c\<in>set cpus. numa_node_id c < length nodes)"
  by (induction cpus arbitrary: nodes) (auto simp: add_cpu_def Let_def)

lemma add_cpus_facts:
  assumes "add_cpus cpus nodes = Inr nodes'"
  shows "length nodes' = length nodes
     \<and> (\<forall>n<length nodes. nn_cpus (nodes' ! n) = nn_cpus (nodes ! n) @ filter (\<lambda>c. numa_node_id c = n) cpus
          \<and> (nn_id (nodes ! n) = n \<or> filter (\<lambda>c. numa_node_id c = n) cpus \<noteq> [] \<longrightarrow> nn_id (nodes' ! n) = n))"
  using assms
proof (induction cpus arbitrary: nodes)
  case (Cons c cpus)
  let ?n = "numa_node_id c"
  let ?nodes = "nodes[?n := \<lparr>nn_id = ?n, nn_cpus = nn_cpus (nodes ! ?n) @ [c]\<rparr>]"
  have n: "?n < length nodes" and rec: "add_cpus cpus ?nodes = Inr nodes'"
    using Cons.prems by (auto simp: add_cpu_def Let_def split: if_splits)
  from Cons.IH [OF rec] n show ?case by (auto simp: nth_list_update)
qed simp

lemma GetManualNumaNodes_div:
  assumes "hw < 2 ^ 24" "cnt \<le> 2 ^ 24"
  shows "GetManualNumaNodes hw cnt =
     (let q = hw div cnt in
      if cnt = 0 \<or> 0 < hw \<and> q = 0 then Inl undefined_behaviour
      else add_cpus (map (\<lambda>i. \<lparr>cpu_id = i, numa_node_id = i div q\<rparr>) [0..<hw]) (replicate cnt new_NumaNode))"
proof (cases "cnt = 0")
  case False
  then have q: "node_cpus_count hw cnt = hw div cnt" using assms by (simp add: node_cpus_count_def fl_div_floor)
  have "hw div cnt \<le> 2 ^ 24" using assms(1) div_le_dividend [of hw cnt] by linarith
  then have "manual_node i (hw div cnt) = i div (hw div cnt)" if "i < hw" "0 < hw div cnt" for i
    using that assms(1) by (simp add: manual_node_def fl_div_floor)
  then show ?thesis unfolding GetManualNumaNodes_def q Let_def by (auto intro!: arg_cong2 [where f = add_cpus])
qed (simp add: GetManualNumaNodes_def)

text \<open>C36: Grouping the \<open>hw\<close> processors into \<open>cnt\<close> nodes by hand stays inside the array of nodes
  exactly when there are at most as many nodes as processors and the last processor still falls
  into one of the nodes (8 processors in 3 nodes already fail). When it succeeds every
  processor is in exactly one node, in order: node \<open>n\<close> has the processors from
  \<open>n * (hw div cnt)\<close> on. The numbers of processors and nodes are below \<open>2 ^ 24\<close>, where the
  float divisions of the code are exact enough.\<close>

theorem manual_numa_nodes:
  assumes "0 < hw" and "hw < 2 ^ 24" "cnt \<le> 2 ^ 24"
  shows "case GetManualNumaNodes hw cnt of
      Inl e \<Rightarrow> e = undefined_behaviour \<and> \<not> (0 < cnt \<and> cnt \<le> hw \<and> (hw - 1) div (hw div cnt) < cnt)
    | Inr nodes \<Rightarrow> 0 < cnt \<and> cnt \<le> hw \<and> (hw - 1) div (hw div cnt) < cnt \<and> length nodes = cnt
        \<and> (\<forall>n<cnt. map cpu_id (nn_cpus (nodes ! n)) = filter (\<lambda>i. i div (hw div cnt) = n) [0..<hw])"
proof -
  let ?q = "hw div cnt" and ?cpus = "map (\<lambda>i. \<lparr>cpu_id = i, numa_node_id = i div (hw div cnt)\<rparr>) [0..<hw]"
  have q: "?q = 0 \<longleftrightarrow> \<not> (0 < cnt \<and> cnt \<le> hw)" by (cases "cnt = 0") (auto simp: div_eq_0_iff)
  have last: "(\<forall>i<hw. i div ?q < cnt) \<longleftrightarrow> (hw - 1) div ?q < cnt"
  proof
    assume "(hw - 1) div ?q < cnt"
    moreover have "i div ?q \<le> (hw - 1) div ?q" if "i < hw" for i using that by (intro div_le_mono) simp
    ultimately show "\<forall>i<hw. i div ?q < cnt" by (meson le_less_trans)
  qed (use assms(1) in simp)
  have err: "e = undefined_behaviour" if "add_cpus cs ns = Inl e" for cs ns e
    using that by (induction cs arbitrary: ns) (auto simp: add_cpu_def Let_def split: if_splits)
  show ?thesis
  proof (cases "?q = 0")
    case True
    with assms q show ?thesis by (auto simp: GetManualNumaNodes_div)
  next
    case False
    then have g: "GetManualNumaNodes hw cnt = add_cpus ?cpus (replicate cnt new_NumaNode)"
      using assms q by (simp add: GetManualNumaNodes_div Let_def)
    have ok: "(\<exists>nodes. add_cpus ?cpus (replicate cnt new_NumaNode) = Inr nodes) \<longleftrightarrow> (hw - 1) div ?q < cnt"
      unfolding add_cpus_ok last [symmetric] by auto
    show ?thesis
    proof (cases "add_cpus ?cpus (replicate cnt new_NumaNode)")
      case (Inl e)
      with ok err [OF Inl] g show ?thesis by auto
    next
      case (Inr nodes)
      from add_cpus_facts [OF this] have "length nodes = cnt"
        "\<forall>n<cnt. map cpu_id (nn_cpus (nodes ! n)) = filter (\<lambda>i. i div ?q = n) [0..<hw]"
        by (auto simp: new_NumaNode_def filter_map comp_def)
      with Inr ok g q False show ?thesis by auto
    qed
  qed
qed

theorem manual_numa_nodes_witness:
  "GetManualNumaNodes 8 3 = Inl undefined_behaviour \<and> (\<exists>nodes. GetManualNumaNodes 8 4 = Inr nodes \<and> length nodes = 4)"
proof -
  have "\<not> (0 < (3::nat) \<and> 3 \<le> (8::nat) \<and> (8 - 1) div (8 div 3) < (3::nat))" "(8 - 1) div (8 div 4) < (4::nat)" by simp_all
  with manual_numa_nodes [of 8 3] manual_numa_nodes [of 8 4] show ?thesis
    by (cases "GetManualNumaNodes 8 3"; cases "GetManualNumaNodes 8 4") auto
qed

text \<open>Grouping by the nodes of the system.\<close>

lemma numa_nodes_cpus:
  assumes "\<forall>i<hw. node_of_cpu i < n"
  shows "\<exists>nodes. GetNumaNodes hw n node_of_cpu = Inr nodes \<and> length nodes = n
     \<and> (\<forall>k<n. map cpu_id (nn_cpus (nodes ! k)) = filter (\<lambda>i. node_of_cpu i = k) [0..<hw])"
proof -
  have "\<exists>nodes. GetNumaNodes hw n node_of_cpu = Inr nodes"
    unfolding GetNumaNodes_def add_cpus_ok using assms by auto
  then obtain nodes where nodes: "GetNumaNodes hw n node_of_cpu = Inr nodes" by blast
  from add_cpus_facts [OF this [unfolded GetNumaNodes_def]] nodes show ?thesis
    by (auto simp: new_NumaNode_def filter_map comp_def)
qed

end
