(* ===== verification/Runtime.thy ===== *)
theory Runtime
  imports Cpu_Nodes
begin

text \<open>
  \<open>src/runtime.cpp\<close> with \<open>include/ar/runtime.hpp\<close>: the runtime owns the executors. Objects are
  allocated at fresh addresses of \<open>rt_heap\<close> and deleted from it, so that a pointer kept beyond
  \<open>Terminate\<close> dangles; the map of executors is a list sorted by key. What the system and the
  libraries provide is in \<open>rt_env\<close>: the hardware threads, the NUMA nodes, the expression over
  doubles of the work groups, and the hash code of the type of the I/O executor, which is its
  key. A call that throws gives the error with the state at that point.
\<close>

section \<open>Definitions\<close>

record 'd rt_env =
  env_hw :: nat
  env_share :: "nat \<Rightarrow> 'd \<Rightarrow> 'd \<Rightarrow> int"
  env_nodes_count :: nat
  env_node_of_cpu :: "nat \<Rightarrow> nat"
  env_io_key :: nat
  env_one :: 'd

record ('d, 'r) Runtime =
  rt_work_groups_option :: "'d WorkGroupOption list"
  rt_heap :: "nat \<rightharpoonup> 'r Executor"
  rt_next :: nat
  rt_executors :: "(nat \<times> nat) list"
  rt_main_executor :: "nat option"
  rt_io_executor :: "nat option"
  rt_is_setup :: bool
  rt_metricer :: bool

definition MAX_GROUPS_COUNT :: nat where
  "MAX_GROUPS_COUNT = 10"

definition MAIN_WORK_GROUP :: string where
  "MAIN_WORK_GROUP = ''main''"

definition new_Runtime :: "('d, 'r) Runtime" where
  "new_Runtime = \<lparr>rt_work_groups_option = [], rt_heap = Map.empty, rt_next = 1, rt_executors = [], rt_main_executor = None,
     rt_io_executor = None, rt_is_setup = False, rt_metricer = False\<rparr>"

fun digits :: "nat \<Rightarrow> string" where
  "digits n = (if n < 10 then [char_of (48 + n)] else digits (n div 10) @ [char_of (48 + n mod 10)])"

declare digits.simps [simp del]

text \<open>\<open>std::map::insert\<close> keeps the element that is already there.\<close>

fun map_insert :: "nat \<Rightarrow> 'v \<Rightarrow> (nat \<times> 'v) list \<Rightarrow> (nat \<times> 'v) list" where
  "map_insert k v [] = [(k, v)]"
| "map_insert k v ((j, w) # xs) =
     (if k < j then (k, v) # (j, w) # xs else if k = j then (j, w) # xs else (j, w) # map_insert k v xs)"

fun add_groups :: "'d WorkGroupOption list \<Rightarrow> 'd WorkGroupOption list \<Rightarrow> ar_error option \<times> 'd WorkGroupOption list" where
  "add_groups [] gs = (None, gs)"
| "add_groups (grp # opts) gs =
     (if wgo_name grp \<noteq> MAIN_WORK_GROUP then add_groups opts (gs @ [grp])
      else (Some (runtime_error (''Work group \"'' @ wgo_name grp @ ''\" already exist!'')), gs))"

definition SetupWorkGroups :: "'d rt_env \<Rightarrow> 'd WorkGroupOption list \<Rightarrow> ('d, 'r) Runtime \<Rightarrow> ar_error option \<times> ('d, 'r) Runtime" where
  "SetupWorkGroups env opts rt =
     (let main = \<lparr>wgo_name = MAIN_WORK_GROUP, wgo_cap = env_one env, wgo_util = env_one env, wgo_slot_concurrency = 0\<rparr>;
          groups = rt_work_groups_option rt @ [main] in
      if length groups > MAX_GROUPS_COUNT
      then (Some (runtime_error (''Work group size > '' @ digits MAX_GROUPS_COUNT)), rt\<lparr>rt_work_groups_option := groups\<rparr>)
      else let (e, groups) = add_groups opts groups in (e, rt\<lparr>rt_work_groups_option := groups\<rparr>))"

definition GetWorkGroup :: "string \<Rightarrow> ('d, 'r) Runtime \<Rightarrow> int" where
  "GetWorkGroup name rt =
     (case List.find (\<lambda>i. wgo_name (rt_work_groups_option rt ! i) = name) [0..<length (rt_work_groups_option rt)] of
        Some i \<Rightarrow> int i | None \<Rightarrow> INVALID_OBJECT_ID)"

definition allocate :: "'r Executor \<Rightarrow> ('d, 'r) Runtime \<Rightarrow> nat \<times> ('d, 'r) Runtime" where
  "allocate x rt = (rt_next rt, rt\<lparr>rt_heap := (rt_heap rt)(rt_next rt \<mapsto> x), rt_next := rt_next rt + 1\<rparr>)"

text \<open>The loop over the nodes, from node \<open>i\<close> on.\<close>

fun make_executors :: "'d rt_env \<Rightarrow> nat \<Rightarrow> NumaNode list \<Rightarrow> ('d, 'r) Runtime \<Rightarrow> ar_error option \<times> ('d, 'r) Runtime" where
  "make_executors env i [] rt = (None, rt)"
| "make_executors env i (node # nodes) rt =
     (case new_Executor (int (env_hw env)) (env_share env) (''CPUExecutor_'' @ digits i) (nn_cpus node) (rt_work_groups_option rt) of
        Inl e \<Rightarrow> (Some e, rt)
      | Inr x \<Rightarrow>
          let (a, rt) = allocate (x\<lparr>ex_index := int i\<rparr>) rt;
              rt = (if rt_main_executor rt = None then rt\<lparr>rt_main_executor := Some a\<rparr> else rt);
              rt = rt\<lparr>rt_executors := map_insert i a (rt_executors rt)\<rparr> in
          make_executors env (Suc i) nodes rt)"

definition CreateDefaultExecutors :: "'d rt_env \<Rightarrow> nat \<Rightarrow> ('d, 'r) Runtime \<Rightarrow> ar_error option \<times> ('d, 'r) Runtime" where
  "CreateDefaultExecutors env virtual_numa_nodes_count rt =
     (case (if virtual_numa_nodes_count = 0 then GetNumaNodes (env_hw env) (env_nodes_count env) (env_node_of_cpu env)
            else GetManualNumaNodes (env_hw env) virtual_numa_nodes_count) of
        Inl e \<Rightarrow> (Some e, rt)
      | Inr nodes \<Rightarrow>
          (case make_executors env 0 nodes rt of
             (Some e, rt) \<Rightarrow> (Some e, rt)
           | (None, rt) \<Rightarrow> if rt_main_executor rt = None then (Some (runtime_error ''main executor not setup''), rt) else (None, rt)))"

text \<open>\<open>CreateExecutor\<close> for the I/O executor, whose own part is outside this model.\<close>

definition CreateExecutor :: "nat \<Rightarrow> 'r Executor \<Rightarrow> ('d, 'r) Runtime \<Rightarrow> nat \<times> ('d, 'r) Runtime" where
  "CreateExecutor key x rt =
     (let (a, rt) = allocate x rt in (a, rt\<lparr>rt_executors := map_insert key a (rt_executors rt)\<rparr>))"

definition Runtime_Setup :: "'d rt_env \<Rightarrow> 'd WorkGroupOption list \<Rightarrow> nat \<Rightarrow> ('d, 'r) Runtime \<Rightarrow> ar_error option \<times> ('d, 'r) Runtime" where
  "Runtime_Setup env opts virtual_numa_nodes_count rt =
     (case SetupWorkGroups env opts rt of
        (Some e, rt) \<Rightarrow> (Some e, rt)
      | (None, rt) \<Rightarrow>
          if rt_is_setup rt then (None, rt)
          else
            case CreateDefaultExecutors env virtual_numa_nodes_count rt of
              (Some e, rt) \<Rightarrow> (Some e, rt)
            | (None, rt) \<Rightarrow>
                let (a, rt) = CreateExecutor (env_io_key env) (new_IExecutor ''io'' kIO_EXECUTOR) rt in
                (None, rt\<lparr>rt_io_executor := Some a, rt_is_setup := True\<rparr>))"

text \<open>
  \<open>delete\<close> of an executor runs its destructor, which joins the threads of its work groups and
  need not return (\<open>slot_destructor_hangs\<close>, \<open>scheduler_destructor_hangs\<close>). Whether it does is up
  to the schedule of the threads: \<open>joins a\<close> says it of the executor at address \<open>a\<close>, and a
  \<open>Terminate\<close> that hangs is \<open>None\<close>.
\<close>

fun delete_executors :: "(nat \<Rightarrow> bool) \<Rightarrow> (nat \<times> nat) list \<Rightarrow> (nat \<rightharpoonup> 'r Executor) \<Rightarrow> (nat \<rightharpoonup> 'r Executor) option" where
  "delete_executors joins [] heap = Some heap"
| "delete_executors joins ((key, a) # xs) heap = (if joins a then delete_executors joins xs (heap(a := None)) else None)"

definition Runtime_Terminate :: "(nat \<Rightarrow> bool) \<Rightarrow> ('d, 'r) Runtime \<Rightarrow> ('d, 'r) Runtime option" where
  "Runtime_Terminate joins rt =
     (if \<not> rt_is_setup rt then Some rt
      else map_option (\<lambda>heap. rt\<lparr>rt_heap := heap, rt_executors := [], rt_is_setup := False\<rparr>)
             (delete_executors joins (rt_executors rt) (rt_heap rt)))"

definition CheckRuntime :: "('d, 'r) Runtime \<Rightarrow> ar_error + unit" where
  "CheckRuntime rt = (if rt_is_setup rt \<and> rt_io_executor rt \<noteq> None \<and> rt_main_executor rt \<noteq> None then Inr () else Inl assertion_failed)"

text \<open>Finding an executor; \<open>INT_MAX\<close> is the start of the search for the one with the fewest entities.\<close>

fun fetch_loop :: "ExecutorType \<Rightarrow> u16 \<Rightarrow> (nat \<times> nat) list \<Rightarrow> (nat \<rightharpoonup> 'r Executor) \<Rightarrow> nat option" where
  "fetch_loop type eid [] heap = None"
| "fetch_loop type eid ((key, a) # xs) heap =
     (if ex_type (the (heap a)) = type \<and> ex_index (the (heap a)) = int (unat eid) then Some a else fetch_loop type eid xs heap)"

definition FetchExecutor :: "ExecutorType \<Rightarrow> int \<Rightarrow> ('d, 'r) Runtime \<Rightarrow> nat option" where
  "FetchExecutor type tag rt = fetch_loop type (fst (Unpack (word_of_int tag))) (rt_executors rt) (rt_heap rt)"

fun free_loop :: "ExecutorType \<Rightarrow> int \<Rightarrow> nat option \<Rightarrow> (nat \<times> nat) list \<Rightarrow> (nat \<rightharpoonup> 'r Executor) \<Rightarrow> nat option" where
  "free_loop type least best [] heap = best"
| "free_loop type least best ((key, a) # xs) heap =
     (if ex_type (the (heap a)) = type \<and> least > ex_entities_count (the (heap a))
      then free_loop type (ex_entities_count (the (heap a))) (Some a) xs heap
      else free_loop type least best xs heap)"

definition INT_MAX :: int where
  "INT_MAX = 2147483647"

definition FetchFreeExecutor :: "ExecutorType \<Rightarrow> ('d, 'r) Runtime \<Rightarrow> nat option" where
  "FetchFreeExecutor type rt = free_loop type INT_MAX None (rt_executors rt) (rt_heap rt)"

definition AddEntityTag :: "('d, 'r) Runtime \<Rightarrow> int \<times> ('d, 'r) Runtime" where
  "AddEntityTag rt =
     (case FetchFreeExecutor kCPU_EXECUTOR rt of
        Some a \<Rightarrow>
          let x = the (rt_heap rt a); (entity_id, x') = Executor_AddEntity x; executor_id = word_of_int (ex_index x) in
          (int (unat (Pack executor_id entity_id)), rt\<lparr>rt_heap := (rt_heap rt)(a \<mapsto> x')\<rparr>)
      | None \<Rightarrow> (INVALID_OBJECT_ID, rt))"

definition DeleteEntityTag :: "int \<Rightarrow> ('d, 'r) Runtime \<Rightarrow> ('d, 'r) Runtime" where
  "DeleteEntityTag tag rt =
     (let (executor_id, entity_id) = Unpack (word_of_int tag) in
      case fetch_loop kCPU_EXECUTOR executor_id (rt_executors rt) (rt_heap rt) of
        Some a \<Rightarrow> rt\<lparr>rt_heap := (rt_heap rt)(a \<mapsto> Executor_DeleteEntity entity_id (the (rt_heap rt a)))\<rparr>
      | None \<Rightarrow> rt)"

text \<open>The virtual \<open>Post\<close> of an executor: the I/O executor refuses a task.\<close>

definition virtual_Post :: "nat \<Rightarrow> clock_reads \<Rightarrow> 'r task \<Rightarrow> 'r Executor \<Rightarrow> (ar_error + 'r Executor) option" where
  "virtual_Post self clk t x =
     (case ex_type x of
        kIO_EXECUTOR \<Rightarrow> Some (Inl (runtime_error ''task not supported in IOExecutor use io_task''))
      | _ \<Rightarrow> Executor_Post self clk t x)"

definition post_to :: "nat \<Rightarrow> clock_reads \<Rightarrow> 'r task \<Rightarrow> ('d, 'r) Runtime \<Rightarrow> (ar_error + ('d, 'r) Runtime) option" where
  "post_to a clk t rt =
     (case rt_heap rt a of
        None \<Rightarrow> Some (Inl undefined_behaviour)
      | Some x \<Rightarrow> map_option (map_sum id (\<lambda>x. rt\<lparr>rt_heap := (rt_heap rt)(a \<mapsto> x)\<rparr>)) (virtual_Post a clk t x))"

definition Runtime_Post :: "clock_reads \<Rightarrow> 'r task \<Rightarrow> ('d, 'r) Runtime \<Rightarrow> (ar_error + ('d, 'r) Runtime) option" where
  "Runtime_Post clk t rt =
     (case es_executor (tk_state t) of
        None \<Rightarrow>
          (case (if es_tag (tk_state t) \<noteq> INVALID_OBJECT_ID then FetchExecutor kCPU_EXECUTOR (es_tag (tk_state t)) rt
                 else FetchFreeExecutor kCPU_EXECUTOR rt) of
             Some a \<Rightarrow> post_to a clk t rt
           | None \<Rightarrow> (case rt_main_executor rt of None \<Rightarrow> Some (Inl undefined_behaviour) | Some a \<Rightarrow> post_to a clk t rt))
      | Some a \<Rightarrow> post_to a clk t rt)"

text \<open>The calls of the clients; \<open>i\<close> is the identity of the new task.\<close>

definition checked_Post :: "clock_reads \<Rightarrow> 'r task \<Rightarrow> ('d, 'r) Runtime \<Rightarrow> (ar_error + ('d, 'r) Runtime) option" where
  "checked_Post clk t rt = (case CheckRuntime rt of Inl e \<Rightarrow> Some (Inl e) | Inr _ \<Rightarrow> Runtime_Post clk t rt)"

definition Async :: "nat \<Rightarrow> (ar_error + 'r) \<Rightarrow> clock_reads \<Rightarrow> ('d, 'r) Runtime \<Rightarrow> (ar_error + ('d, 'r) Runtime) option" where
  "Async i f clk rt = checked_Post (\<lambda>k. clk (k + 1)) (new_task i f (clk 0)) rt"

definition AsyncDelayed :: "nat \<Rightarrow> (ar_error + 'r) \<Rightarrow> int \<Rightarrow> clock_reads \<Rightarrow> ('d, 'r) Runtime \<Rightarrow> (ar_error + ('d, 'r) Runtime) option" where
  "AsyncDelayed i f delay_ms clk rt = checked_Post (\<lambda>k. clk (k + 2)) (set_delay Milli delay_ms (clk 1) (new_task i f (clk 0))) rt"

definition AsyncSleep :: "nat \<Rightarrow> int \<times> int \<Rightarrow> int \<Rightarrow> clock_reads \<Rightarrow> ('d, unit) Runtime \<Rightarrow> (ar_error + ('d, unit) Runtime) option" where
  "AsyncSleep i rep rtime clk rt = checked_Post (\<lambda>k. clk (k + 2)) (set_delay rep rtime (clk 1) (new_task i (Inr ()) (clk 0))) rt"

definition AsyncTask :: "nat \<Rightarrow> clock_reads \<Rightarrow> 'r task \<Rightarrow> ('d, 'r) Runtime \<Rightarrow> (ar_error + ('d, 'r) Runtime) option" where
  "AsyncTask key clk t rt =
     (case CheckRuntime rt of
        Inl e \<Rightarrow> Some (Inl e)
      | Inr _ \<Rightarrow> (case map_of (rt_executors rt) key of None \<Rightarrow> Some (Inl out_of_range) | Some a \<Rightarrow> post_to a clk t rt))"

definition CreateMetrics :: "('d, 'r) Runtime \<Rightarrow> ('d, 'r) Runtime" where
  "CreateMetrics rt = (let rt = rt\<lparr>rt_metricer := True\<rparr> in
     rt\<lparr>rt_heap := (\<lambda>a. if a \<in> set (map snd (rt_executors rt)) then map_option (Executor_MakeMetrics True) (rt_heap rt a) else rt_heap rt a)\<rparr>)"

text \<open>Sequences of calls.\<close>

datatype 'r rt_op = RT_Add | RT_Delete int | RT_Post clock_reads "'r task"

fun rt_run :: "'r rt_op list \<Rightarrow> ('d, 'r) Runtime \<Rightarrow> (ar_error + ('d, 'r) Runtime) option" where
  "rt_run [] rt = Some (Inr rt)"
| "rt_run (RT_Add # ops) rt = rt_run ops (snd (AddEntityTag rt))"
| "rt_run (RT_Delete tag # ops) rt = rt_run ops (DeleteEntityTag tag rt)"
| "rt_run (RT_Post clk t # ops) rt = (case Runtime_Post clk t rt of Some (Inr rt') \<Rightarrow> rt_run ops rt' | r \<Rightarrow> r)"

section \<open>Work groups\<close>

lemma add_groups_facts:
  "add_groups opts gs = (if \<exists>g\<in>set opts. wgo_name g = MAIN_WORK_GROUP
     then (Some (runtime_error (''Work group \"'' @ MAIN_WORK_GROUP @ ''\" already exist!'')), gs @ takeWhile (\<lambda>g. wgo_name g \<noteq> MAIN_WORK_GROUP) opts)
     else (None, gs @ opts))"
  by (induction opts arbitrary: gs) auto

lemma find_first:
  assumes "i < n" "P i" "\<forall>j<i. \<not> P j"
  shows "List.find P [0..<n] = Some i"
  using assms by (auto simp: find_Some_iff intro!: exI [of _ i])

lemma GetWorkGroup_first:
  assumes "i < length (rt_work_groups_option rt)" "wgo_name (rt_work_groups_option rt ! i) = name"
    "\<forall>j<i. wgo_name (rt_work_groups_option rt ! j) \<noteq> name"
  shows "GetWorkGroup name rt = int i"
  using find_first [of i "length (rt_work_groups_option rt)" "\<lambda>i. wgo_name (rt_work_groups_option rt ! i) = name"] assms
  by (simp add: GetWorkGroup_def)

text \<open>C37: \<open>SetupWorkGroups\<close> on a new runtime puts the main group first and the groups of the
  user behind it, and fails with the message of the sources exactly when one of them is called
  \<open>main\<close>. The check against \<open>MAX_GROUPS_COUNT\<close> comes before they are added, so it accepts any
  number of them. Afterwards \<open>GetWorkGroup\<close> gives 0 for the main group, the position of a group
  for its name when the names differ, and the invalid id for any other name.\<close>

theorem setup_work_groups:
  fixes env :: "'d rt_env"
  shows "case SetupWorkGroups env opts (new_Runtime :: ('d, 'r) Runtime) of (e, rt) \<Rightarrow>
     if MAIN_WORK_GROUP \<in> set (map wgo_name opts) then e = Some (runtime_error (''Work group \"main\" already exist!''))
     else e = None \<and> length (rt_work_groups_option rt) = Suc (length opts) \<and> GetWorkGroup MAIN_WORK_GROUP rt = 0
       \<and> (distinct (map wgo_name opts) \<longrightarrow> (\<forall>i<length opts. GetWorkGroup (wgo_name (opts ! i)) rt = int (Suc i)))
       \<and> (\<forall>name. name \<noteq> MAIN_WORK_GROUP \<and> name \<notin> set (map wgo_name opts) \<longrightarrow> GetWorkGroup name rt = INVALID_OBJECT_ID)"
proof -
  let ?main = "\<lparr>wgo_name = MAIN_WORK_GROUP, wgo_cap = env_one env, wgo_util = env_one env, wgo_slot_concurrency = 0\<rparr>"
  have s: "SetupWorkGroups env opts (new_Runtime :: ('d, 'r) Runtime) = (let (e, gs) = add_groups opts [?main] in (e, (new_Runtime :: ('d, 'r) Runtime)\<lparr>rt_work_groups_option := gs\<rparr>))"
    by (simp add: SetupWorkGroups_def new_Runtime_def MAX_GROUPS_COUNT_def Let_def)
  show ?thesis
  proof (cases "MAIN_WORK_GROUP \<in> set (map wgo_name opts)")
    case True
    then have "\<exists>g\<in>set opts. wgo_name g = MAIN_WORK_GROUP" by (metis imageE set_map)
    with True show ?thesis by (simp add: s add_groups_facts MAIN_WORK_GROUP_def)
  next
    case False
    let ?rt = "(new_Runtime :: ('d, 'r) Runtime)\<lparr>rt_work_groups_option := ?main # opts\<rparr>"
    from False have "\<not> (\<exists>g\<in>set opts. wgo_name g = MAIN_WORK_GROUP)" by (metis image_eqI set_map)
    then have a: "SetupWorkGroups env opts (new_Runtime :: ('d, 'r) Runtime) = (None, ?rt)" by (simp add: s add_groups_facts)
    have "GetWorkGroup MAIN_WORK_GROUP ?rt = 0" using GetWorkGroup_first [of 0 ?rt] by simp
    moreover have "GetWorkGroup (wgo_name (opts ! i)) ?rt = int (Suc i)" if "distinct (map wgo_name opts)" "i < length opts" for i
    proof -
      have "\<forall>j<Suc i. wgo_name ((?main # opts) ! j) \<noteq> wgo_name (opts ! i)"
        using that False by (auto simp: nth_Cons distinct_conv_nth split: nat.splits)
      with that show ?thesis using GetWorkGroup_first [of "Suc i" ?rt] by simp
    qed
    moreover have "GetWorkGroup name ?rt = INVALID_OBJECT_ID" if "name \<noteq> MAIN_WORK_GROUP" "name \<notin> set (map wgo_name opts)" for name
    proof -
      have "\<forall>i<Suc (length opts). wgo_name ((?main # opts) ! i) \<noteq> name"
        using that by (auto simp: nth_Cons split: nat.splits)
      then have "List.find (\<lambda>i. wgo_name ((?main # opts) ! i) = name) [0..<Suc (length opts)] = None"
        by (simp add: find_None_iff del: upt_Suc)
      then show ?thesis by (simp add: GetWorkGroup_def del: upt_Suc)
    qed
    ultimately show ?thesis using False a by simp
  qed
qed

section \<open>Finding an executor\<close>

lemma free_loop_facts:
  "case free_loop type least best xs heap of
     None \<Rightarrow> best = None \<and> (\<forall>(k, b)\<in>set xs. ex_type (the (heap b)) = type \<longrightarrow> least \<le> ex_entities_count (the (heap b)))
   | Some a \<Rightarrow> (\<exists>k. (k, a) \<in> set xs \<and> ex_type (the (heap a)) = type \<and> ex_entities_count (the (heap a)) < least
         \<and> (\<forall>(k, b)\<in>set xs. ex_type (the (heap b)) = type \<longrightarrow> ex_entities_count (the (heap a)) \<le> ex_entities_count (the (heap b))))
      \<or> best = Some a \<and> (\<forall>(k, b)\<in>set xs. ex_type (the (heap b)) = type \<longrightarrow> least \<le> ex_entities_count (the (heap b)))"
proof (induction xs arbitrary: least best)
  case Nil
  then show ?case by (cases best) auto
next
  case (Cons x xs)
  obtain k a where x: "x = (k, a)" by fastforce
  show ?case
  proof (cases "ex_type (the (heap a)) = type \<and> least > ex_entities_count (the (heap a))")
    case True
    from Cons.IH [where least = "ex_entities_count (the (heap a))" and best = "Some a"] True x show ?thesis
      by (auto split: option.splits)
  next
    case False
    from Cons.IH [where least = least and best = best] False x show ?thesis by (auto split: option.splits)
  qed
qed

text \<open>\<open>FetchFreeExecutor\<close> returns an executor of the given type with the fewest entities of
  all executors of that type, and no executor only when there is none of that type whose
  count is below \<open>INT_MAX\<close>.\<close>

theorem free_executor_least:
  "case FetchFreeExecutor type rt of
     None \<Rightarrow> (\<forall>(k, b)\<in>set (rt_executors rt). ex_type (the (rt_heap rt b)) = type \<longrightarrow> INT_MAX \<le> ex_entities_count (the (rt_heap rt b)))
   | Some a \<Rightarrow> a \<in> snd ` set (rt_executors rt) \<and> ex_type (the (rt_heap rt a)) = type \<and> ex_entities_count (the (rt_heap rt a)) < INT_MAX
       \<and> (\<forall>(k, b)\<in>set (rt_executors rt). ex_type (the (rt_heap rt b)) = type \<longrightarrow>
            ex_entities_count (the (rt_heap rt a)) \<le> ex_entities_count (the (rt_heap rt b)))"
  using free_loop_facts [where type = type and least = INT_MAX and best = None and xs = "rt_executors rt" and heap = "rt_heap rt"]
  by (auto simp: FetchFreeExecutor_def split: option.splits) (force simp: image_iff)+


lemma fetch_loop_unique:
  assumes "(k, a) \<in> set xs" "ex_type (the (heap a)) = type" "ex_index (the (heap a)) = int (unat eid)"
    "\<forall>(k', b)\<in>set xs. ex_type (the (heap b)) = type \<and> ex_index (the (heap b)) = int (unat eid) \<longrightarrow> b = a"
  shows "fetch_loop type eid xs heap = Some a"
  using assms
proof (induction xs)
  case (Cons x xs)
  then show ?case by (cases x) auto
qed simp

lemma fetch_loop_mem:
  "fetch_loop type eid xs heap = Some a \<Longrightarrow> \<exists>k. (k, a) \<in> set xs \<and> ex_type (the (heap a)) = type"
  by (induction xs) (auto split: if_splits)

section \<open>The invariant of a runtime that was set up\<close>

definition cpu_executor :: "nat \<Rightarrow> nat \<Rightarrow> nat \<Rightarrow> 'r Executor \<Rightarrow> bool" where
  "cpu_executor n ng k x \<longleftrightarrow> ex_type x = kCPU_EXECUTOR \<and> ex_index x = int k \<and> k < n \<and> executor_wf x \<and> length (ex_groups x) = ng"

definition executors_ok :: "nat \<Rightarrow> nat \<Rightarrow> ('d, 'r) Runtime \<Rightarrow> bool" where
  "executors_ok n ng rt \<longleftrightarrow> sorted_wrt (<) (map fst (rt_executors rt)) \<and> distinct (map snd (rt_executors rt))
     \<and> (\<forall>(k, a)\<in>set (rt_executors rt). a < rt_next rt \<and> (\<exists>x. rt_heap rt a = Some x \<and> (cpu_executor n ng k x \<or> ex_type x = kIO_EXECUTOR)))"

definition main_ok :: "('d, 'r) Runtime \<Rightarrow> bool" where
  "main_ok rt = (case rt_main_executor rt of None \<Rightarrow> False
     | Some a \<Rightarrow> a \<in> snd ` set (rt_executors rt) \<and> ex_type (the (rt_heap rt a)) = kCPU_EXECUTOR)"

definition runtime_tasks :: "('d, 'r) Runtime \<Rightarrow> 'r task multiset" where
  "runtime_tasks rt = (\<Sum>(k, a)\<leftarrow>rt_executors rt. executor_tasks (the (rt_heap rt a)))"

lemma snd_unique:
  "distinct (map snd xs) \<Longrightarrow> (k, a) \<in> set xs \<Longrightarrow> (k', a) \<in> set xs \<Longrightarrow> k' = k"
  using inj_onD [of snd "set xs" "(k, a)" "(k', a)"] by (simp add: distinct_map)

lemma executors_update:
  assumes ok: "executors_ok n ng rt" and a: "(k, a) \<in> set (rt_executors rt)" and x: "cpu_executor n ng k x"
  shows "executors_ok n ng (rt\<lparr>rt_heap := (rt_heap rt)(a \<mapsto> x)\<rparr>)"
proof -
  have "k' = k" if "(k', a) \<in> set (rt_executors rt)" for k'
    using ok snd_unique [OF _ a that] by (simp add: executors_ok_def)
  with ok x show ?thesis by (auto simp: executors_ok_def)
qed

lemma tasks_update:
  assumes "distinct (map snd xs)" "(k, a) \<in> set xs"
  shows "(\<Sum>(k, b)\<leftarrow>xs. executor_tasks (the ((h(a \<mapsto> x)) b))) + executor_tasks (the (h a))
     = (\<Sum>(k, b)\<leftarrow>xs. executor_tasks (the (h b))) + executor_tasks x"
  using assms
proof (induction xs)
  case (Cons y xs)
  obtain j b where y: "y = (j, b)" by fastforce
  show ?case
  proof (cases "b = a")
    case True
    then have "a \<notin> snd ` set xs" using Cons.prems(1) y by simp
    then have "map (\<lambda>(k, b). executor_tasks (the ((h(a \<mapsto> x)) b))) xs = map (\<lambda>(k, b). executor_tasks (the (h b))) xs"
      by (intro map_cong) (auto simp: image_iff)
    then have "(\<Sum>(k, b)\<leftarrow>xs. executor_tasks (the ((h(a \<mapsto> x)) b))) = (\<Sum>(k, b)\<leftarrow>xs. executor_tasks (the (h b)))" by (simp only:)
    then show ?thesis using True y by (simp add: ac_simps)
  next
    case False
    then show ?thesis using Cons y by (auto simp: ac_simps)
  qed
qed simp

lemma cpu_member:
  assumes "executors_ok n ng rt" "(k, a) \<in> set (rt_executors rt)" "ex_type (the (rt_heap rt a)) = kCPU_EXECUTOR"
  obtains x where "rt_heap rt a = Some x" "cpu_executor n ng k x"
  using assms by (fastforce simp: executors_ok_def)

text \<open>Posting to a CPU executor of the runtime.\<close>

lemma post_to_facts:
  assumes ok: "executors_ok n ng rt" and a: "(k, a) \<in> set (rt_executors rt)" "ex_type (the (rt_heap rt a)) = kCPU_EXECUTOR"
    and t: "0 \<le> work_group_of t" "work_group_of t < int ng"
  shows "\<exists>rt'. post_to a clk t rt = Some (Inr rt') \<and> executors_ok n ng rt' \<and> rt_executors rt' = rt_executors rt
     \<and> (main_ok rt \<longrightarrow> main_ok rt')
     \<and> image_mset tk_id (runtime_tasks rt') = add_mset (tk_id t) (image_mset tk_id (runtime_tasks rt))"
proof -
  obtain x where x: "rt_heap rt a = Some x" "cpu_executor n ng k x" by (rule cpu_member [OF ok a])
  then have wf: "executor_wf x" "nat (work_group_of t) < length (ex_groups x)" using t by (auto simp: cpu_executor_def)
  obtain g where g: "Executor_Post a clk t x = Some (Inr (x\<lparr>ex_groups := (ex_groups x)[nat (work_group_of t) := g]\<rparr>))"
    "executor_wf (x\<lparr>ex_groups := (ex_groups x)[nat (work_group_of t) := g]\<rparr>)"
    "executor_tasks (x\<lparr>ex_groups := (ex_groups x)[nat (work_group_of t) := g]\<rparr>)
        = add_mset (t\<lparr>tk_state := (tk_state t)\<lparr>es_executor := Some a, es_work_group := work_group_of t\<rparr>\<rparr>) (executor_tasks x)"
    using Executor_Post_facts [OF wf(1) t(1) wf(2), of a clk] by blast
  let ?x = "x\<lparr>ex_groups := (ex_groups x)[nat (work_group_of t) := g]\<rparr>" and ?t = "t\<lparr>tk_state := (tk_state t)\<lparr>es_executor := Some a, es_work_group := work_group_of t\<rparr>\<rparr>"
  let ?rt = "rt\<lparr>rt_heap := (rt_heap rt)(a \<mapsto> ?x)\<rparr>"
  have x': "cpu_executor n ng k ?x" using x(2) g(2) by (simp add: cpu_executor_def)
  have "post_to a clk t rt = Some (Inr ?rt)" using x g(1) by (simp add: post_to_def virtual_Post_def cpu_executor_def)
  moreover have "main_ok rt \<longrightarrow> main_ok ?rt" using x x' by (auto simp: main_ok_def cpu_executor_def split: option.splits)
  moreover have "distinct (map snd (rt_executors rt))" using ok by (simp add: executors_ok_def)
  from tasks_update [OF this a(1), of "rt_heap rt" ?x] have "runtime_tasks ?rt = add_mset ?t (runtime_tasks rt)"
    using x(1) g(3) by (simp add: runtime_tasks_def del: fun_upd_apply)
  ultimately show ?thesis using executors_update [OF ok a(1) x'] by (intro exI [of _ ?rt]) simp
qed

lemma Runtime_Post_facts:
  assumes ok: "executors_ok n ng rt" "main_ok rt" and t: "es_executor (tk_state t) = None" "0 \<le> work_group_of t" "work_group_of t < int ng"
  shows "\<exists>rt'. Runtime_Post clk t rt = Some (Inr rt') \<and> executors_ok n ng rt' \<and> rt_executors rt' = rt_executors rt \<and> main_ok rt'
     \<and> image_mset tk_id (runtime_tasks rt') = add_mset (tk_id t) (image_mset tk_id (runtime_tasks rt))"
proof -
  obtain m km where m: "rt_main_executor rt = Some m" "(km, m) \<in> set (rt_executors rt)" "ex_type (the (rt_heap rt m)) = kCPU_EXECUTOR"
    using ok(2) by (auto simp: main_ok_def split: option.splits)
  have "\<exists>a k. Runtime_Post clk t rt = post_to a clk t rt \<and> (k, a) \<in> set (rt_executors rt) \<and> ex_type (the (rt_heap rt a)) = kCPU_EXECUTOR"
  proof (cases "if es_tag (tk_state t) \<noteq> INVALID_OBJECT_ID then FetchExecutor kCPU_EXECUTOR (es_tag (tk_state t)) rt else FetchFreeExecutor kCPU_EXECUTOR rt")
    case None
    with m t(1) show ?thesis by (auto simp: Runtime_Post_def)
  next
    case (Some a)
    then have "\<exists>k. (k, a) \<in> set (rt_executors rt) \<and> ex_type (the (rt_heap rt a)) = kCPU_EXECUTOR"
      using fetch_loop_mem [of kCPU_EXECUTOR _ "rt_executors rt" "rt_heap rt" a] free_executor_least [where type = kCPU_EXECUTOR and rt = rt]
      by (auto simp: FetchExecutor_def split: if_splits)
    with Some t(1) show ?thesis by (auto simp: Runtime_Post_def)
  qed
  with post_to_facts [OF ok(1) _ _ t(2,3)] ok(2) show ?thesis by metis
qed


definition keeps :: "nat \<Rightarrow> nat \<Rightarrow> ('d, 'r) Runtime \<Rightarrow> ('d, 'r) Runtime \<Rightarrow> bool" where
  "keeps n ng rt rt' \<longleftrightarrow> executors_ok n ng rt' \<and> main_ok rt' \<and> rt_executors rt' = rt_executors rt \<and> runtime_tasks rt' = runtime_tasks rt"

lemma keeps_update:
  assumes ok: "executors_ok n ng rt" "main_ok rt"
    and a: "(k, a) \<in> set (rt_executors rt)" "rt_heap rt a = Some x" "cpu_executor n ng k x'" "executor_tasks x' = executor_tasks x"
  shows "keeps n ng rt (rt\<lparr>rt_heap := (rt_heap rt)(a \<mapsto> x')\<rparr>)"
proof -
  have "main_ok (rt\<lparr>rt_heap := (rt_heap rt)(a \<mapsto> x')\<rparr>)" using ok(2) a by (auto simp: main_ok_def cpu_executor_def split: option.splits)
  moreover have "distinct (map snd (rt_executors rt))" using ok by (simp add: executors_ok_def)
  from tasks_update [OF this a(1), of "rt_heap rt" x'] have "runtime_tasks (rt\<lparr>rt_heap := (rt_heap rt)(a \<mapsto> x')\<rparr>) = runtime_tasks rt"
    using a by (simp add: runtime_tasks_def del: fun_upd_apply)
  ultimately show ?thesis using executors_update [OF ok(1) a(1,3)] by (simp add: keeps_def)
qed

lemma cpu_executor_entity:
  assumes "cpu_executor n ng k x"
  shows "cpu_executor n ng k (snd (Executor_AddEntity x))" "cpu_executor n ng k (Executor_DeleteEntity e x)"
proof -
  have "executor_wf x" using assms by (simp add: cpu_executor_def)
  note f = Executor_entity_facts [OF this]
  show "cpu_executor n ng k (snd (Executor_AddEntity x))" using assms f(1) by (simp add: cpu_executor_def Executor_AddEntity_def Let_def)
  show "cpu_executor n ng k (Executor_DeleteEntity e x)"
    using assms f(4,6) by (simp add: cpu_executor_def Executor_DeleteEntity_def Let_def)
qed

lemma free_cpu_executor:
  assumes "executors_ok n ng rt" "FetchFreeExecutor kCPU_EXECUTOR rt = Some a"
  obtains k x where "(k, a) \<in> set (rt_executors rt)" "rt_heap rt a = Some x" "cpu_executor n ng k x"
proof -
  obtain k where k: "(k, a) \<in> set (rt_executors rt)" "ex_type (the (rt_heap rt a)) = kCPU_EXECUTOR"
    using free_executor_least [where type = kCPU_EXECUTOR and rt = rt] assms(2) by auto
  then show thesis using that by (blast elim: cpu_member [OF assms(1)])
qed

lemma AddEntityTag_keeps:
  assumes ok: "executors_ok n ng rt" "main_ok rt"
  shows "keeps n ng rt (snd (AddEntityTag rt))"
proof (cases "FetchFreeExecutor kCPU_EXECUTOR rt")
  case None
  with ok show ?thesis by (simp add: AddEntityTag_def keeps_def)
next
  case (Some a)
  obtain k x where x: "(k, a) \<in> set (rt_executors rt)" "rt_heap rt a = Some x" "cpu_executor n ng k x"
    by (rule free_cpu_executor [OF ok(1) Some])
  then have "executor_wf x" by (simp add: cpu_executor_def)
  from keeps_update [OF ok x(1,2) cpu_executor_entity(1) [OF x(3)] Executor_entity_facts(2) [OF this]] Some x(2)
  show ?thesis by (simp add: AddEntityTag_def Let_def case_prod_unfold)
qed

lemma DeleteEntityTag_keeps:
  assumes ok: "executors_ok n ng rt" "main_ok rt"
  shows "keeps n ng rt (DeleteEntityTag tag rt)"
proof -
  obtain i e where u: "Unpack (word_of_int tag) = (i, e)" by fastforce
  show ?thesis
  proof (cases "fetch_loop kCPU_EXECUTOR i (rt_executors rt) (rt_heap rt)")
    case None
    with ok u show ?thesis by (simp add: DeleteEntityTag_def keeps_def)
  next
    case (Some a)
    from fetch_loop_mem [OF this] obtain k where k: "(k, a) \<in> set (rt_executors rt)" "ex_type (the (rt_heap rt a)) = kCPU_EXECUTOR" by blast
    obtain x where x: "rt_heap rt a = Some x" "cpu_executor n ng k x" by (rule cpu_member [OF ok(1) k])
    then have "executor_wf x" by (simp add: cpu_executor_def)
    from keeps_update [OF ok k(1) x(1) cpu_executor_entity(2) [OF x(2), of e] Executor_entity_facts(5) [OF this]] Some u x(1)
    show ?thesis by (simp add: DeleteEntityTag_def)
  qed
qed

section \<open>Setting up\<close>

lemma map_insert_last: "\<forall>(j, b)\<in>set xs. j < k \<Longrightarrow> map_insert k v xs = xs @ [(k, v)]"
  by (induction xs) auto

lemma map_insert_facts:
  "set xs \<subseteq> set (map_insert k v xs)" "set (map_insert k v xs) \<subseteq> insert (k, v) (set xs)"
  by (induction xs) (auto split: if_splits)

lemma runtime_tasks_empty:
  fixes rt :: "('d, 'r) Runtime"
  shows "runtime_tasks rt = {#} \<longleftrightarrow> (\<forall>(k, a)\<in>set (rt_executors rt). executor_tasks (the (rt_heap rt a)) = {#})"
proof -
  have "(\<Sum>(k, a)\<leftarrow>xs. executor_tasks (the (h a))) = {#} \<longleftrightarrow> (\<forall>(k, a)\<in>set xs. executor_tasks (the (h a)) = {#})"
    for xs :: "(nat \<times> nat) list" and h :: "nat \<rightharpoonup> 'r Executor" by (induction xs) auto
  then show ?thesis by (simp add: runtime_tasks_def)
qed

lemma make_executors_ok:
  fixes rt :: "('d, 'r) Runtime"
  assumes "make_executors env i nodes rt = (None, rt')" "executors_ok n (length (rt_work_groups_option rt)) rt"
    "\<forall>(k, a)\<in>set (rt_executors rt). k < i" "i + length nodes \<le> n" "runtime_tasks rt = {#}"
    "rt_main_executor rt \<noteq> None \<longrightarrow> main_ok rt"
  shows "executors_ok n (length (rt_work_groups_option rt)) rt' \<and> (\<forall>(k, a)\<in>set (rt_executors rt'). k < i + length nodes)
     \<and> runtime_tasks rt' = {#} \<and> (rt_main_executor rt' \<noteq> None \<longrightarrow> main_ok rt')
     \<and> rt_work_groups_option rt' = rt_work_groups_option rt \<and> rt_is_setup rt' = rt_is_setup rt"
  using assms
proof (induction nodes arbitrary: i rt)
  case (Cons node nodes)
  let ?name = "''CPUExecutor_'' @ digits i"
  obtain x :: "'r Executor" where x: "new_Executor (int (env_hw env)) (env_share env) ?name (nn_cpus node) (rt_work_groups_option rt) = Inr x"
    using Cons.prems(1) by (auto split: sum.splits)
  let ?a = "rt_next rt" and ?x = "x\<lparr>ex_index := int i\<rparr>" and ?m = "if rt_main_executor rt = None then Some (rt_next rt) else rt_main_executor rt"
  let ?rt = "rt\<lparr>rt_heap := (rt_heap rt)(?a \<mapsto> ?x), rt_next := ?a + 1, rt_main_executor := ?m,
      rt_executors := rt_executors rt @ [(i, ?a)]\<rparr>"
  have rec: "make_executors env (Suc i) nodes ?rt = (None, rt')"
    using Cons.prems(1) x map_insert_last [OF Cons.prems(3), of ?a] by (auto simp: allocate_def Let_def split: if_splits)
  note f = new_Executor_wf [OF x]
  have cpu: "cpu_executor n (length (rt_work_groups_option rt)) i ?x"
    using f Cons.prems(4) by (auto simp: cpu_executor_def executor_wf_def)
  have fresh: "\<forall>(k, a)\<in>set (rt_executors rt). a \<noteq> ?a \<and> k \<noteq> i" using Cons.prems(2,3) by (fastforce simp: executors_ok_def)
  have ok: "executors_ok n (length (rt_work_groups_option rt)) ?rt"
    using Cons.prems(2,3) cpu fresh by (fastforce simp: executors_ok_def sorted_wrt_append)
  have "executor_tasks ?x = {#}" using f by (simp add: executor_tasks_def)
  then have tasks: "runtime_tasks ?rt = {#}"
    using Cons.prems(5) fresh unfolding runtime_tasks_empty by auto
  have main: "main_ok ?rt"
    using Cons.prems(6) cpu fresh by (auto simp: main_ok_def cpu_executor_def split: option.splits)
  have "\<forall>(k, a)\<in>set (rt_executors ?rt). k < Suc i" using Cons.prems(3) by auto
  with Cons.IH [OF rec _ _ _ tasks] ok Cons.prems(4) main show ?case by simp
qed auto


lemma map_insert_sorted:
  "sorted_wrt (<) (map fst xs) \<Longrightarrow> sorted_wrt (<) (map fst (map_insert k v xs))"
proof (induction xs)
  case (Cons y xs)
  obtain j w where y: "y = (j, w)" by fastforce
  have "fst ` set (map_insert k v xs) \<subseteq> insert k (fst ` set xs)" using map_insert_facts(2) [of k v xs] by fastforce
  with Cons y show ?case by fastforce
qed simp

lemma map_insert_distinct:
  "distinct (map snd xs) \<Longrightarrow> v \<notin> snd ` set xs \<Longrightarrow> distinct (map snd (map_insert k v xs))"
proof (induction xs)
  case (Cons y xs)
  obtain j w where y: "y = (j, w)" by fastforce
  have "snd ` set (map_insert k v xs) \<subseteq> insert v (snd ` set xs)" using map_insert_facts(2) [of k v xs] by fastforce
  then have "w \<notin> snd ` set (map_insert k v xs)" using Cons.prems y by auto
  with Cons y show ?case by auto
qed simp

lemma executors_insert_io:
  fixes rt :: "('d, 'r) Runtime"
  assumes ok: "executors_ok n ng rt" and main: "main_ok rt"
    and c: "CreateExecutor key (new_IExecutor name kIO_EXECUTOR) rt = (a, rt')"
  shows "executors_ok n ng rt' \<and> main_ok rt' \<and> (runtime_tasks rt = {#} \<longrightarrow> runtime_tasks rt' = {#})"
proof -
  let ?x = "new_IExecutor name kIO_EXECUTOR :: 'r Executor" let ?h = "(rt_heap rt)(rt_next rt \<mapsto> ?x)"
  have rt': "rt' = rt\<lparr>rt_heap := ?h, rt_next := rt_next rt + 1, rt_executors := map_insert key (rt_next rt) (rt_executors rt)\<rparr>"
    using c by (auto simp: CreateExecutor_def allocate_def)
  have fresh: "\<forall>(k, b)\<in>set (rt_executors rt). b < rt_next rt" using ok by (fastforce simp: executors_ok_def)
  then have new: "rt_next rt \<notin> snd ` set (rt_executors rt)" by fastforce
  note ins = map_insert_facts [where xs = "rt_executors rt" and k = key and v = "rt_next rt"]
  have mem: "(k, b) \<in> set (rt_executors rt) \<and> ?h b = rt_heap rt b \<or> b = rt_next rt \<and> ?h b = Some ?x"
    if "(k, b) \<in> set (rt_executors rt')" for k b
    using that ins(2) fresh by (auto simp: rt')
  have x: "ex_type ?x = kIO_EXECUTOR" "executor_tasks ?x = {#}" by (simp_all add: new_IExecutor_def executor_tasks_def)
  have "executors_ok n ng rt'"
    unfolding executors_ok_def
  proof (intro conjI ballI)
    show "sorted_wrt (<) (map fst (rt_executors rt'))" "distinct (map snd (rt_executors rt'))"
      using ok new by (auto simp: rt' executors_ok_def intro!: map_insert_sorted map_insert_distinct)
    fix y assume y: "y \<in> set (rt_executors rt')"
    obtain k b where kb: "y = (k, b)" by fastforce
    from mem [of k b] y kb have "(k, b) \<in> set (rt_executors rt) \<and> rt_heap rt' b = rt_heap rt b \<or> b = rt_next rt \<and> rt_heap rt' b = Some ?x"
      by (simp add: rt')
    then show "case y of (k, a) \<Rightarrow> a < rt_next rt' \<and> (\<exists>x. rt_heap rt' a = Some x \<and> (cpu_executor n ng k x \<or> ex_type x = kIO_EXECUTOR))"
    proof
      assume "(k, b) \<in> set (rt_executors rt) \<and> rt_heap rt' b = rt_heap rt b"
      then show ?thesis using ok kb by (fastforce simp: executors_ok_def rt')
    next
      assume "b = rt_next rt \<and> rt_heap rt' b = Some ?x"
      then show ?thesis using kb x(1) by (simp add: rt')
    qed
  qed
  moreover have "main_ok rt'"
    using main ins(1) new by (auto simp: main_ok_def rt' image_iff split: option.splits)
  moreover have "runtime_tasks rt' = {#}" if "runtime_tasks rt = {#}"
    unfolding runtime_tasks_empty
  proof (intro ballI)
    fix y assume y: "y \<in> set (rt_executors rt')"
    obtain k b where kb: "y = (k, b)" by fastforce
    from mem [of k b] y kb that x(2) show "case y of (k, a) \<Rightarrow> executor_tasks (the (rt_heap rt' a)) = {#}"
      unfolding runtime_tasks_empty by (auto simp: rt')
  qed
  ultimately show ?thesis by blast
qed


definition nodes_of :: "'d rt_env \<Rightarrow> nat \<Rightarrow> nat" where
  "nodes_of env v = (if v = 0 then env_nodes_count env else v)"

lemma numa_nodes_length:
  "GetNumaNodes hw n f = Inr nodes \<Longrightarrow> length nodes = n" "GetManualNumaNodes hw cnt = Inr nodes \<Longrightarrow> length nodes = cnt"
  using add_cpus_facts by (fastforce simp: GetNumaNodes_def GetManualNumaNodes_def Let_def split: if_splits)+

lemma CreateDefaultExecutors_ok:
  assumes c: "CreateDefaultExecutors env v rt = (None, rt')" and e: "rt_executors rt = []" and m: "rt_main_executor rt = None"
  shows "executors_ok (nodes_of env v) (length (rt_work_groups_option rt)) rt' \<and> main_ok rt' \<and> runtime_tasks rt' = {#}"
proof -
  obtain nodes where n: "(if v = 0 then GetNumaNodes (env_hw env) (env_nodes_count env) (env_node_of_cpu env)
      else GetManualNumaNodes (env_hw env) v) = Inr nodes" and x: "make_executors env 0 nodes rt = (None, rt')" "rt_main_executor rt' \<noteq> None"
    using c by (auto simp: CreateDefaultExecutors_def split: sum.splits prod.splits option.splits if_splits)
  have "length nodes = nodes_of env v" using n numa_nodes_length by (auto simp: nodes_of_def split: if_splits)
  with make_executors_ok [OF x(1), of "nodes_of env v"] e m x(2) show ?thesis
    by (simp add: executors_ok_def runtime_tasks_def)
qed

lemma Setup_ok:
  fixes rt :: "('d, 'r) Runtime"
  assumes "Runtime_Setup env opts v new_Runtime = (None, rt)"
  shows "executors_ok (nodes_of env v) (Suc (length opts)) rt \<and> main_ok rt \<and> runtime_tasks rt = {#}"
proof -
  obtain rt1 where s: "SetupWorkGroups env opts (new_Runtime :: ('d, 'r) Runtime) = (None, rt1)"
    using assms by (auto simp: Runtime_Setup_def split: prod.splits option.splits)
  have f: "rt_executors rt1 = []" "rt_main_executor rt1 = None" "\<not> rt_is_setup rt1"
    using s by (auto simp: SetupWorkGroups_def Let_def new_Runtime_def split: if_splits prod.splits)
  have len: "length (rt_work_groups_option rt1) = Suc (length opts)"
    using s by (auto simp: SetupWorkGroups_def Let_def new_Runtime_def add_groups_facts split: if_splits prod.splits)
  obtain rt2 a rt3 where c: "CreateDefaultExecutors env v rt1 = (None, rt2)"
    "CreateExecutor (env_io_key env) (new_IExecutor ''io'' kIO_EXECUTOR) rt2 = (a, rt3)" "rt = rt3\<lparr>rt_io_executor := Some a, rt_is_setup := True\<rparr>"
    using assms s f(3) by (auto simp: Runtime_Setup_def Let_def split: prod.splits option.splits)
  note d = CreateDefaultExecutors_ok [OF c(1) f(1,2), unfolded len]
  from executors_insert_io [OF _ _ c(2)] d
  have "executors_ok (nodes_of env v) (Suc (length opts)) rt3 \<and> main_ok rt3 \<and> runtime_tasks rt3 = {#}" by blast
  then show ?thesis by (cases "rt_main_executor rt3") (simp_all add: c(3) executors_ok_def main_ok_def runtime_tasks_def)
qed

section \<open>Properties of the runtime\<close>

fun posted_ids :: "'r rt_op list \<Rightarrow> nat list" where
  "posted_ids [] = []"
| "posted_ids (RT_Post clk t # ops) = tk_id t # posted_ids ops"
| "posted_ids (op # ops) = posted_ids ops"

definition fresh_op :: "nat \<Rightarrow> 'r rt_op \<Rightarrow> bool" where
  "fresh_op ng op = (case op of RT_Post clk t \<Rightarrow> es_executor (tk_state t) = None \<and> 0 \<le> work_group_of t \<and> work_group_of t < int ng | _ \<Rightarrow> True)"

lemma rt_run_facts:
  assumes "executors_ok n ng rt" "main_ok rt" "\<forall>op\<in>set ops. fresh_op ng op"
  shows "\<exists>rt'. rt_run ops rt = Some (Inr rt') \<and> executors_ok n ng rt' \<and> main_ok rt'
     \<and> image_mset tk_id (runtime_tasks rt') = mset (posted_ids ops) + image_mset tk_id (runtime_tasks rt)"
  using assms
proof (induction ops arbitrary: rt)
  case (Cons op ops)
  show ?case
  proof (cases op)
    case RT_Add
    from AddEntityTag_keeps [OF Cons.prems(1,2)] Cons.IH [of "snd (AddEntityTag rt)"] Cons.prems(3) RT_Add
    show ?thesis by (auto simp: keeps_def)
  next
    case (RT_Delete tag)
    from DeleteEntityTag_keeps [OF Cons.prems(1,2), of tag] Cons.IH [of "DeleteEntityTag tag rt"] Cons.prems(3) RT_Delete
    show ?thesis by (auto simp: keeps_def)
  next
    case (RT_Post clk t)
    then have "es_executor (tk_state t) = None" "0 \<le> work_group_of t" "work_group_of t < int ng"
      using Cons.prems(3) by (auto simp: fresh_op_def)
    from Runtime_Post_facts [OF Cons.prems(1,2) this, of clk] obtain rt1 where r: "Runtime_Post clk t rt = Some (Inr rt1)"
      "executors_ok n ng rt1" "main_ok rt1" "image_mset tk_id (runtime_tasks rt1) = add_mset (tk_id t) (image_mset tk_id (runtime_tasks rt))"
      by blast
    from Cons.IH [OF r(2,3)] Cons.prems(3) r(1,4) RT_Post show ?thesis by auto
  qed
qed simp

text \<open>C9: After a successful \<open>Setup\<close> every task that a client posts is accepted and held exactly
  once: any sequence of \<open>AddEntityTag\<close>, \<open>DeleteEntityTag\<close> and \<open>Post\<close>, with any tags, of tasks
  that name an existing work group or none, returns without an error, and the tasks in the
  queues and schedulers of all executors are exactly the posted ones.\<close>

theorem runtime_accepts:
  assumes "Runtime_Setup env opts v new_Runtime = (None, rt)" and "\<forall>op\<in>set ops. fresh_op (Suc (length opts)) op"
  shows "\<exists>rt'. rt_run ops rt = Some (Inr rt') \<and> image_mset tk_id (runtime_tasks rt') = mset (posted_ids ops)"
proof -
  note s = Setup_ok [OF assms(1)]
  from rt_run_facts [of _ _ rt ops] s assms(2) show ?thesis by fastforce
qed

text \<open>The calls neither add nor remove executors, nor change what kind an executor is.\<close>

lemma map_sum_Inr: "map_sum f g r = Inr y \<longleftrightarrow> (\<exists>z. r = Inr z \<and> y = g z)"
  by (cases r) auto

lemma Executor_Post_type: "Executor_Post self clk t x = Some (Inr x') \<Longrightarrow> ex_type x' = ex_type x"
  by (auto simp: Executor_Post_def group_at_def Let_def map_sum_Inr split: if_splits)

lemma post_to_types:
  assumes "post_to a clk t rt = Some (Inr rt')"
  shows "rt_executors rt' = rt_executors rt" "ex_type (the (rt_heap rt' b)) = ex_type (the (rt_heap rt b))"
  using assms by (auto simp: post_to_def virtual_Post_def map_sum_Inr split: option.splits ExecutorType.splits dest: Executor_Post_type)

lemma rt_run_types:
  "rt_run ops rt = Some (Inr rt') \<Longrightarrow> rt_executors rt' = rt_executors rt \<and> ex_type (the (rt_heap rt' b)) = ex_type (the (rt_heap rt b))"
proof (induction ops rt rule: rt_run.induct)
  case (2 ops rt)
  then show ?case by (auto simp: AddEntityTag_def Executor_AddEntity_def Let_def split: option.splits prod.splits)
next
  case (3 tag ops rt)
  then show ?case by (auto simp: DeleteEntityTag_def Executor_DeleteEntity_def IExecutor_DeleteEntity_def Let_def split: option.splits prod.splits)
next
  case (4 clk t ops rt)
  then obtain rt1 where r: "Runtime_Post clk t rt = Some (Inr rt1)" "rt_run ops rt1 = Some (Inr rt')"
    by (auto split: option.splits sum.splits)
  from r(1) obtain a where "post_to a clk t rt = Some (Inr rt1)" by (auto simp: Runtime_Post_def split: option.splits if_splits)
  with 4 r post_to_types [of a clk t rt rt1] show ?case by auto
qed simp

text \<open>The tag of an entity of the executor with key \<open>k\<close> finds this executor.\<close>

lemma tag_finds_executor:
  assumes ok: "executors_ok n ng rt" and a: "(k, a) \<in> set (rt_executors rt)" "ex_type (the (rt_heap rt a)) = kCPU_EXECUTOR"
    and k: "k < 65536"
  shows "FetchExecutor kCPU_EXECUTOR (int (unat (Pack (word_of_int (int k)) e))) rt = Some a"
proof -
  have u: "unat (word_of_int (int k) :: u16) = k" using k by (simp add: unat_of_nat)
  have "fetch_loop kCPU_EXECUTOR (word_of_int (int k)) (rt_executors rt) (rt_heap rt) = Some a"
  proof (rule fetch_loop_unique [OF a(1)])
    show "ex_type (the (rt_heap rt a)) = kCPU_EXECUTOR" by (rule a(2))
    obtain x where "rt_heap rt a = Some x" "cpu_executor n ng k x" by (rule cpu_member [OF ok a])
    then show "ex_index (the (rt_heap rt a)) = int (unat (word_of_int (int k) :: u16))" unfolding u by (simp add: cpu_executor_def)
    have dist: "distinct (map fst (rt_executors rt))" using ok by (simp add: executors_ok_def strict_sorted_iff)
    have "b = a" if b: "(k', b) \<in> set (rt_executors rt)" "ex_type (the (rt_heap rt b)) = kCPU_EXECUTOR" "ex_index (the (rt_heap rt b)) = int k" for k' b
    proof -
      obtain y where "rt_heap rt b = Some y" "cpu_executor n ng k' y" by (rule cpu_member [OF ok b(1,2)])
      then have "k' = k" using b(3) by (simp add: cpu_executor_def)
      with b(1) a(1) dist show ?thesis by (auto dest: eq_key_imp_eq_value)
    qed
    then show "\<forall>(k', b)\<in>set (rt_executors rt). ex_type (the (rt_heap rt b)) = kCPU_EXECUTOR
        \<and> ex_index (the (rt_heap rt b)) = int (unat (word_of_int (int k) :: u16)) \<longrightarrow> b = a" unfolding u by blast
  qed
  then show ?thesis by (simp add: FetchExecutor_def Unpack_Pack)
qed

lemma post_to_holds:
  assumes ok: "executors_ok n ng rt" and a: "(k, a) \<in> set (rt_executors rt)" "ex_type (the (rt_heap rt a)) = kCPU_EXECUTOR"
    and t: "0 \<le> work_group_of t" "work_group_of t < int ng"
  shows "\<exists>rt'. post_to a clk t rt = Some (Inr rt') \<and> (\<forall>b. b \<noteq> a \<longrightarrow> rt_heap rt' b = rt_heap rt b)
     \<and> image_mset tk_id (executor_tasks (the (rt_heap rt' a))) = add_mset (tk_id t) (image_mset tk_id (executor_tasks (the (rt_heap rt a))))"
proof -
  obtain x where x: "rt_heap rt a = Some x" "cpu_executor n ng k x" by (rule cpu_member [OF ok a])
  then have wf: "executor_wf x" "nat (work_group_of t) < length (ex_groups x)" using t by (auto simp: cpu_executor_def)
  from Executor_Post_facts [OF wf(1) t(1) wf(2), of a clk] x show ?thesis
    by (auto simp: post_to_def virtual_Post_def cpu_executor_def)
qed

text \<open>C10: A tag leads back to the executor that gave it. In a runtime with at most 65536 executors
  for processors, after any sequence of calls: the tag that \<open>AddEntityTag\<close> returns, unless it is
  the invalid one, belongs to an executor for processors that has at that moment no more
  entities than any other; and after any further sequence of \<open>AddEntityTag\<close>,
  \<open>DeleteEntityTag\<close> and \<open>Post\<close>, a task that is posted with this tag and no executor of its own,
  to a work group that exists, is taken by that executor and by no other.\<close>

theorem entity_tag_routes:
  assumes su: "Runtime_Setup env opts v new_Runtime = (None, rt0)" and nodes: "nodes_of env v \<le> 65536"
    and ops: "\<forall>op\<in>set ops. fresh_op (Suc (length opts)) op" "rt_run ops rt0 = Some (Inr rt)"
    and tag: "AddEntityTag rt = (tag, rt1)" "tag \<noteq> INVALID_OBJECT_ID"
    and later: "\<forall>op\<in>set ops'. fresh_op (Suc (length opts)) op" "rt_run ops' rt1 = Some (Inr rt2)"
    and t: "fresh_op (Suc (length opts)) (RT_Post clk t)" "es_tag (tk_state t) = tag"
  shows "\<exists>a rt3. a \<in> snd ` set (rt_executors rt) \<and> ex_type (the (rt_heap rt a)) = kCPU_EXECUTOR
     \<and> (\<forall>(k, b)\<in>set (rt_executors rt). ex_type (the (rt_heap rt b)) = kCPU_EXECUTOR \<longrightarrow>
          ex_entities_count (the (rt_heap rt a)) \<le> ex_entities_count (the (rt_heap rt b)))
     \<and> Runtime_Post clk t rt2 = Some (Inr rt3) \<and> (\<forall>b. b \<noteq> a \<longrightarrow> rt_heap rt3 b = rt_heap rt2 b)
     \<and> image_mset tk_id (executor_tasks (the (rt_heap rt3 a))) = add_mset (tk_id t) (image_mset tk_id (executor_tasks (the (rt_heap rt2 a))))"
proof -
  let ?n = "nodes_of env v" and ?ng = "Suc (length opts)"
  from rt_run_facts [of ?n ?ng rt0 ops] Setup_ok [OF su] ops have ok: "executors_ok ?n ?ng rt" "main_ok rt" by auto
  obtain a where a: "FetchFreeExecutor kCPU_EXECUTOR rt = Some a"
    using tag by (cases "FetchFreeExecutor kCPU_EXECUTOR rt") (auto simp: AddEntityTag_def)
  obtain k x where x: "(k, a) \<in> set (rt_executors rt)" "rt_heap rt a = Some x" "cpu_executor ?n ?ng k x"
    by (rule free_cpu_executor [OF ok(1) a])
  obtain e where tag': "tag = int (unat (Pack (word_of_int (int k)) e))"
    using tag(1) a x by (auto simp: AddEntityTag_def Let_def cpu_executor_def split: prod.splits)
  have k: "k < 65536" using x(3) nodes by (simp add: cpu_executor_def)
  have "executors_ok ?n ?ng rt1" "main_ok rt1" using AddEntityTag_keeps [OF ok] tag(1) by (auto simp: keeps_def)
  from rt_run_facts [OF this later(1)] later(2) have ok2: "executors_ok ?n ?ng rt2" by auto
  have run: "rt_run (RT_Add # ops') rt = Some (Inr rt2)" using later(2) tag(1) by simp
  have a2: "(k, a) \<in> set (rt_executors rt2)" "ex_type (the (rt_heap rt2 a)) = kCPU_EXECUTOR"
    using rt_run_types [OF run, of a] x by (auto simp: cpu_executor_def)
  have "Runtime_Post clk t rt2 = post_to a clk t rt2"
    using tag_finds_executor [OF ok2 a2 k, of e] t tag(2) tag' by (simp add: Runtime_Post_def fresh_op_def)
  moreover have "\<exists>rt3. post_to a clk t rt2 = Some (Inr rt3) \<and> (\<forall>b. b \<noteq> a \<longrightarrow> rt_heap rt3 b = rt_heap rt2 b)
     \<and> image_mset tk_id (executor_tasks (the (rt_heap rt3 a))) = add_mset (tk_id t) (image_mset tk_id (executor_tasks (the (rt_heap rt2 a))))"
    using post_to_holds [OF ok2 a2] t(1) by (simp add: fresh_op_def)
  ultimately show ?thesis using free_executor_least [where type = kCPU_EXECUTOR and rt = rt] a by auto
qed


section \<open>Setting up again\<close>

lemma delete_executors_result:
  "delete_executors joins xs heap =
     (if \<forall>a\<in>snd ` set xs. joins a then Some (\<lambda>a. if a \<in> snd ` set xs then None else heap a) else None)"
proof (induction joins xs heap rule: delete_executors.induct)
  case (2 joins key a xs heap)
  have "(\<lambda>b. if b \<in> snd ` set xs then None else (heap(a := None)) b) = (\<lambda>b. if b \<in> snd ` set ((key, a) # xs) then None else heap b)"
    by (rule ext) simp
  with 2 show ?case by (simp add: fun_upd_def)
qed simp

lemma Runtime_Terminate_result:
  "rt_is_setup rt \<Longrightarrow> Runtime_Terminate joins rt =
     (if \<forall>a\<in>snd ` set (rt_executors rt). joins a
      then Some (rt\<lparr>rt_heap := (\<lambda>a. if a \<in> snd ` set (rt_executors rt) then None else rt_heap rt a), rt_executors := [], rt_is_setup := False\<rparr>)
      else None)"
  by (simp add: Runtime_Terminate_def delete_executors_result)

text \<open>Setting up touches only fresh addresses, and no main executor that is already there.\<close>

definition old_kept :: "('d, 'r) Runtime \<Rightarrow> ('d, 'r) Runtime \<Rightarrow> bool" where
  "old_kept rt rt' \<longleftrightarrow> rt_next rt \<le> rt_next rt' \<and> (\<forall>b<rt_next rt. rt_heap rt' b = rt_heap rt b)
     \<and> (rt_main_executor rt \<noteq> None \<longrightarrow> rt_main_executor rt' = rt_main_executor rt)"

lemma old_kept_trans: "old_kept a b \<Longrightarrow> old_kept b c \<Longrightarrow> old_kept a c"
  by (auto simp: old_kept_def)

lemma make_executors_kept: "make_executors env i nodes rt = (e, rt') \<Longrightarrow> old_kept rt rt'"
proof (induction nodes arbitrary: i rt)
  case (Cons node nodes)
  show ?case
  proof (cases "new_Executor (int (env_hw env)) (env_share env) (''CPUExecutor_'' @ digits i) (nn_cpus node) (rt_work_groups_option rt) :: ar_error + 'b Executor")
    case (Inl err)
    with Cons.prems show ?thesis by (simp add: old_kept_def)
  next
    case (Inr x)
    let ?m = "if rt_main_executor rt = None then Some (rt_next rt) else rt_main_executor rt"
    let ?rt = "rt\<lparr>rt_heap := (rt_heap rt)(rt_next rt \<mapsto> x\<lparr>ex_index := int i\<rparr>), rt_next := rt_next rt + 1, rt_main_executor := ?m,
      rt_executors := map_insert i (rt_next rt) (rt_executors rt)\<rparr>"
    have "make_executors env (Suc i) nodes ?rt = (e, rt')"
      using Cons.prems Inr by (auto simp: allocate_def Let_def split: if_splits)
    from Cons.IH [OF this] have "old_kept ?rt rt'" .
    moreover have "old_kept rt ?rt" by (simp add: old_kept_def)
    ultimately show ?thesis by (rule old_kept_trans [rotated])
  qed
qed (simp add: old_kept_def)

lemma Setup_kept:
  assumes "Runtime_Setup env opts v rt = (None, rt')" "\<not> rt_is_setup rt"
  shows "old_kept rt rt' \<and> rt_is_setup rt'"
proof -
  obtain rt1 where s: "SetupWorkGroups env opts rt = (None, rt1)"
    using assms(1) by (auto simp: Runtime_Setup_def split: prod.splits option.splits)
  then have k1: "old_kept rt rt1" "\<not> rt_is_setup rt1"
    using assms(2) by (auto simp: SetupWorkGroups_def Let_def old_kept_def split: if_splits prod.splits)
  obtain rt2 a rt3 where c: "CreateDefaultExecutors env v rt1 = (None, rt2)"
    "CreateExecutor (env_io_key env) (new_IExecutor ''io'' kIO_EXECUTOR) rt2 = (a, rt3)" "rt' = rt3\<lparr>rt_io_executor := Some a, rt_is_setup := True\<rparr>"
    using assms(1) s k1(2) by (auto simp: Runtime_Setup_def Let_def split: prod.splits option.splits)
  have "old_kept rt1 rt2" using c(1) make_executors_kept
    by (fastforce simp: CreateDefaultExecutors_def split: sum.splits prod.splits option.splits if_splits)
  moreover have "old_kept rt2 rt'" "rt_is_setup rt'" using c(2,3) by (auto simp: CreateExecutor_def allocate_def old_kept_def)
  ultimately show ?thesis using k1(1) old_kept_trans by blast
qed

text \<open>\<open>Terminate\<close> leaves \<open>main_executor\<close> behind. After \<open>Setup\<close>, \<open>Terminate\<close> and a second
  successful \<open>Setup\<close> the pointer to the main executor is the one of the first, deleted,
  executor; posting a task whose tag names no executor of the runtime uses it.\<close>

theorem setup_again_dangles:
  fixes rt1 rt2 :: "('d, 'r) Runtime"
  assumes first: "Runtime_Setup env opts v new_Runtime = (None, rt1)"
    and ended: "Runtime_Terminate joins rt1 = Some r"
    and second: "Runtime_Setup env opts2 v2 r = (None, rt2)"
    and t: "es_executor (tk_state t) = None" "es_tag (tk_state t) \<noteq> INVALID_OBJECT_ID"
      "FetchExecutor kCPU_EXECUTOR (es_tag (tk_state t)) rt2 = None"
  shows "\<exists>a. rt_main_executor rt2 = Some a \<and> rt_heap rt2 a = None \<and> Runtime_Post clk t rt2 = Some (Inl undefined_behaviour)"
proof -
  note ok = Setup_ok [OF first]
  have "\<not> rt_is_setup (new_Runtime :: ('d, 'r) Runtime)" by (simp add: new_Runtime_def)
  from Setup_kept [OF first this] have up: "rt_is_setup rt1" by blast
  obtain a where a: "rt_main_executor rt1 = Some a" "a \<in> snd ` set (rt_executors rt1)"
    using ok by (auto simp: main_ok_def split: option.splits)
  then have "a < rt_next rt1" using ok by (fastforce simp: executors_ok_def)
  have r: "rt_main_executor r = Some a" "rt_heap r a = None" "a < rt_next r" "\<not> rt_is_setup r"
    using ended a \<open>a < rt_next rt1\<close> by (force simp: Runtime_Terminate_result [OF up] split: if_splits)+
  from Setup_kept [OF second r(4)] r(1-3) have "rt_main_executor rt2 = Some a" "rt_heap rt2 a = None"
    by (auto simp: old_kept_def)
  then show ?thesis using t by (simp add: Runtime_Post_def post_to_def)
qed

section \<open>A small runtime\<close>

definition small_env :: "unit rt_env" where
  "small_env = \<lparr>env_hw = 2, env_share = (\<lambda>n _ _. int n), env_nodes_count = 1, env_node_of_cpu = (\<lambda>_. 0), env_io_key = 77, env_one = ()\<rparr>"

lemma small_nodes: "GetNumaNodes 2 1 (\<lambda>_. 0) = Inr [\<lparr>nn_id = 0, nn_cpus = small_cpus\<rparr>]"
  by (simp add: GetNumaNodes_def add_cpu_def new_NumaNode_def small_cpus_def upt_rec)

lemma small_Setup:
  fixes rt :: "(unit, 'r) Runtime"
  assumes "length (rt_work_groups_option rt) < 10" "\<forall>opt\<in>set (rt_work_groups_option rt). wgo_slot_concurrency opt < 65535" "\<not> rt_is_setup rt"
  shows "\<exists>rt'. Runtime_Setup small_env [] 0 rt = (None, rt') \<and> rt_work_groups_option rt' = rt_work_groups_option rt @
     [\<lparr>wgo_name = MAIN_WORK_GROUP, wgo_cap = (), wgo_util = (), wgo_slot_concurrency = 0\<rparr>]
     \<and> (rt_executors rt = [] \<longrightarrow> list_all (\<lambda>(k, a). ex_index (the (rt_heap rt' a)) = 0) (rt_executors rt'))"
proof -
  let ?main = "\<lparr>wgo_name = MAIN_WORK_GROUP, wgo_cap = (), wgo_util = (), wgo_slot_concurrency = 0\<rparr> :: unit WorkGroupOption"
  let ?gs = "rt_work_groups_option rt @ [?main]" let ?rt1 = "rt\<lparr>rt_work_groups_option := ?gs\<rparr>"
  have s: "SetupWorkGroups small_env [] rt = (None, ?rt1)"
    using assms(1) by (simp add: SetupWorkGroups_def MAX_GROUPS_COUNT_def small_env_def)
  have "\<exists>x :: 'r Executor. new_Executor 2 (\<lambda>n _ _. int n) (''CPUExecutor_'' @ digits 0) small_cpus ?gs = Inr x"
    using assms(2) by (intro new_Executor_succeeds) (auto simp: small_cpus_def)
  then obtain x :: "'r Executor" where x: "new_Executor 2 (\<lambda>n _ _. int n) (''CPUExecutor_'' @ digits 0) small_cpus ?gs = Inr x" by blast
  have "\<exists>rt2. make_executors small_env 0 [\<lparr>nn_id = 0, nn_cpus = small_cpus\<rparr>] ?rt1 = (None, rt2) \<and> rt_main_executor rt2 \<noteq> None
      \<and> rt_work_groups_option rt2 = ?gs \<and> rt_next rt2 = Suc (rt_next rt)
      \<and> (rt_executors rt = [] \<longrightarrow> rt_executors rt2 = [(0, rt_next rt)] \<and> ex_index (the (rt_heap rt2 (rt_next rt))) = 0)"
    using x by (simp add: small_env_def allocate_def Let_def)
  then obtain rt2 where "CreateDefaultExecutors small_env 0 ?rt1 = (None, rt2)" "rt_work_groups_option rt2 = ?gs"
    "rt_next rt2 = Suc (rt_next rt)"
    "rt_executors rt = [] \<longrightarrow> rt_executors rt2 = [(0, rt_next rt)] \<and> ex_index (the (rt_heap rt2 (rt_next rt))) = 0"
    using small_nodes by (auto simp: CreateDefaultExecutors_def small_env_def)
  with s assms(3) show ?thesis
    by (simp add: Runtime_Setup_def CreateExecutor_def allocate_def small_env_def new_IExecutor_def)
qed


lemma small_runtime:
  "\<exists>(rt :: (unit, 'r) Runtime) x. Runtime_Setup small_env [] 0 new_Runtime = (None, rt) \<and> rt_executors rt = [(0, 1), (77, 2)]
     \<and> rt_heap rt 1 = Some x \<and> ex_type x = kCPU_EXECUTOR \<and> ex_index x = 0 \<and> ex_entities_count x = 0 \<and> ex_entities_inc x = 0
     \<and> rt_heap rt 2 = Some (new_IExecutor ''io'' kIO_EXECUTOR)"
proof -
  let ?gs = "[\<lparr>wgo_name = MAIN_WORK_GROUP, wgo_cap = (), wgo_util = (), wgo_slot_concurrency = 0\<rparr>] :: unit WorkGroupOption list"
  have "\<exists>x :: 'r Executor. new_Executor 2 (\<lambda>n _ _. int n) (''CPUExecutor_'' @ digits 0) small_cpus ?gs = Inr x"
    by (intro new_Executor_succeeds) (auto simp: small_cpus_def)
  then obtain x :: "'r Executor" where x: "new_Executor 2 (\<lambda>n _ _. int n) (''CPUExecutor_'' @ digits 0) small_cpus ?gs = Inr x" by blast
  have inc: "ex_entities_inc x = 0" using x by (auto simp: new_Executor_def new_IExecutor_def Let_def split: sum.splits if_splits)
  note f = new_Executor_wf [OF x]
  have s: "SetupWorkGroups small_env [] (new_Runtime :: (unit, 'r) Runtime) = (None, new_Runtime\<lparr>rt_work_groups_option := ?gs\<rparr>)"
    by (simp add: SetupWorkGroups_def MAX_GROUPS_COUNT_def small_env_def new_Runtime_def)
  have "CreateDefaultExecutors small_env 0 ((new_Runtime :: (unit, 'r) Runtime)\<lparr>rt_work_groups_option := ?gs\<rparr>) =
      (None, (new_Runtime :: (unit, 'r) Runtime)\<lparr>rt_work_groups_option := ?gs, rt_heap := [1 \<mapsto> x\<lparr>ex_index := 0\<rparr>], rt_next := 2,
         rt_main_executor := Some 1, rt_executors := [(0, 1)]\<rparr>)"
    using x small_nodes by (simp add: CreateDefaultExecutors_def small_env_def allocate_def Let_def new_Runtime_def)
  with s f inc show ?thesis
    by (simp add: Runtime_Setup_def CreateExecutor_def allocate_def new_Runtime_def small_env_def)
qed

theorem setup_work_groups_witness:
  "case SetupWorkGroups small_env [small_option\<lparr>wgo_name := ''a''\<rparr>, small_option\<lparr>wgo_name := ''b''\<rparr>] (new_Runtime :: (unit, unit) Runtime) of (e, rt) \<Rightarrow>
     e = None \<and> GetWorkGroup ''a'' rt = 1 \<and> GetWorkGroup ''b'' rt = 2 \<and> GetWorkGroup ''c'' rt = INVALID_OBJECT_ID"
proof -
  let ?opts = "[small_option\<lparr>wgo_name := ''a''\<rparr>, small_option\<lparr>wgo_name := ''b''\<rparr>]"
  obtain e and rt :: "(unit, unit) Runtime" where s: "SetupWorkGroups small_env ?opts new_Runtime = (e, rt)" by fastforce
  have names: "map wgo_name ?opts = [''a'', ''b'']" "length ?opts = 2" by simp_all
  have main: "MAIN_WORK_GROUP \<notin> set (map wgo_name ?opts)" "''c'' \<noteq> MAIN_WORK_GROUP" "''c'' \<notin> set (map wgo_name ?opts)"
    by (simp_all add: MAIN_WORK_GROUP_def)
  have f: "e = None \<and> (distinct (map wgo_name ?opts) \<longrightarrow> (\<forall>i<length ?opts. GetWorkGroup (wgo_name (?opts ! i)) rt = int (Suc i)))
      \<and> (\<forall>name. name \<noteq> MAIN_WORK_GROUP \<and> name \<notin> set (map wgo_name ?opts) \<longrightarrow> GetWorkGroup name rt = INVALID_OBJECT_ID)"
    using setup_work_groups [where env = small_env and opts = ?opts and ?'r = unit] main(1) unfolding s prod.case if_not_P [OF main(1)] by blast
  have "distinct (map wgo_name ?opts)" by simp
  with f have "\<forall>i<length ?opts. GetWorkGroup (wgo_name (?opts ! i)) rt = int (Suc i)" by blast
  from this [rule_format, of 0] this [rule_format, of 1] have "GetWorkGroup ''a'' rt = 1" "GetWorkGroup ''b'' rt = 2" by simp_all
  with f main(2,3) s show ?thesis by simp
qed
theorem runtime_accepts_witness:
  "\<exists>(rt :: (unit, unit) Runtime) rt'. Runtime_Setup small_env [] 0 new_Runtime = (None, rt)
     \<and> rt_run [RT_Add, RT_Post (\<lambda>k. 0) (new_task 3 (Inr ()) 0), RT_Post (\<lambda>k. 0) (tagged_task 4 0)] rt = Some (Inr rt')
     \<and> image_mset tk_id (runtime_tasks rt') = {#3, 4#}"
proof -
  obtain rt :: "(unit, unit) Runtime" where rt: "Runtime_Setup small_env [] 0 new_Runtime = (None, rt)" using small_runtime by blast
  have "\<forall>op\<in>set [RT_Add, RT_Post (\<lambda>k. 0) (new_task 3 (Inr ()) 0), RT_Post (\<lambda>k. 0) (tagged_task 4 0)]. fresh_op (Suc (length ([] :: unit WorkGroupOption list))) op"
    by (simp add: fresh_op_def work_group_of_def tagged_task_def set_execution_state_tag_def new_task_def new_execution_state_def)
  from runtime_accepts [OF rt this] rt show ?thesis
    by (auto simp: tagged_task_def set_execution_state_tag_def new_task_def simp del: rt_run.simps)
qed

theorem entity_tag_routes_witness:
  "\<exists>(rt :: (unit, unit) Runtime) rt1 rt2 rt3 a. Runtime_Setup small_env [] 0 new_Runtime = (None, rt) \<and> AddEntityTag rt = (0, rt1)
     \<and> rt_run [RT_Add, RT_Post (\<lambda>k. 0) (new_task 3 (Inr ()) 0), RT_Delete 5] rt1 = Some (Inr rt2)
     \<and> Runtime_Post (\<lambda>k. 0) (tagged_task 4 0) rt2 = Some (Inr rt3)
     \<and> image_mset tk_id (executor_tasks (the (rt_heap rt3 a))) = add_mset 4 (image_mset tk_id (executor_tasks (the (rt_heap rt2 a))))"
proof -
  obtain rt :: "(unit, unit) Runtime" and x where rt: "Runtime_Setup small_env [] 0 new_Runtime = (None, rt)"
    and f: "rt_executors rt = [(0, 1), (77, 2)]" "rt_heap rt 1 = Some x" "ex_type x = kCPU_EXECUTOR" "ex_index x = 0"
      "ex_entities_count x = 0" "ex_entities_inc x = 0" "rt_heap rt 2 = Some (new_IExecutor ''io'' kIO_EXECUTOR)"
    using small_runtime by blast
  let ?ops = "[RT_Add, RT_Post (\<lambda>k. 0) (new_task 3 (Inr ()) 0), RT_Delete 5]" and ?t = "tagged_task 4 0 :: unit task"
  have free: "FetchFreeExecutor kCPU_EXECUTOR rt = Some 1"
    using f by (simp add: FetchFreeExecutor_def INT_MAX_def new_IExecutor_def)
  have "\<exists>rt1. AddEntityTag rt = (0, rt1)"
    using free f by (simp add: AddEntityTag_def Executor_AddEntity_def Let_def Pack_def)
  then obtain rt1 where add: "AddEntityTag rt = (0, rt1)" by blast
  have n: "nodes_of small_env 0 \<le> 65536" by (simp add: nodes_of_def small_env_def)
  have ops: "\<forall>op\<in>set ?ops. fresh_op (Suc (length ([] :: unit WorkGroupOption list))) op"
    "fresh_op (Suc (length ([] :: unit WorkGroupOption list))) (RT_Post (\<lambda>k. 0) ?t)" "es_tag (tk_state ?t) = 0" "tk_id ?t = 4"
    by (simp_all add: fresh_op_def work_group_of_def tagged_task_def set_execution_state_tag_def new_task_def new_execution_state_def)
  have "executors_ok (nodes_of small_env 0) (Suc (length ([] :: unit WorkGroupOption list))) rt1" "main_ok rt1"
    using AddEntityTag_keeps [of _ _ rt] Setup_ok [OF rt] add by (auto simp: keeps_def)
  from rt_run_facts [OF this ops(1)] obtain rt2 where run: "rt_run ?ops rt1 = Some (Inr rt2)" by blast
  have run0: "rt_run [] rt = Some (Inr rt)" by simp
  from entity_tag_routes [OF rt n _ run0 add _ ops(1) run ops(2,3)] obtain a rt3 where
    "Runtime_Post (\<lambda>k. 0) ?t rt2 = Some (Inr rt3)"
    "image_mset tk_id (executor_tasks (the (rt_heap rt3 a))) = add_mset 4 (image_mset tk_id (executor_tasks (the (rt_heap rt2 a))))"
    by (auto simp: INVALID_OBJECT_ID_def ops(4))
  with rt add run show ?thesis by blast
qed

theorem setup_again_dangles_witness:
  "\<exists>(rt1 :: (unit, unit) Runtime) r rt2 a. Runtime_Setup small_env [] 0 new_Runtime = (None, rt1)
     \<and> Runtime_Terminate (\<lambda>a. True) rt1 = Some r \<and> Runtime_Setup small_env [] 0 r = (None, rt2)
     \<and> rt_main_executor rt2 = Some a \<and> rt_heap rt2 a = None \<and> Runtime_Post (\<lambda>k. 0) (tagged_task 4 (9 * 65536)) rt2 = Some (Inl undefined_behaviour)"
proof -
  have "length (rt_work_groups_option (new_Runtime :: (unit, unit) Runtime)) < 10" "\<not> rt_is_setup (new_Runtime :: (unit, unit) Runtime)"
    "\<forall>opt\<in>set (rt_work_groups_option (new_Runtime :: (unit, unit) Runtime)). wgo_slot_concurrency opt < 65535"
    by (simp_all add: new_Runtime_def)
  from small_Setup [OF this(1,3,2)] obtain rt1 :: "(unit, unit) Runtime" where rt1: "Runtime_Setup small_env [] 0 new_Runtime = (None, rt1)"
    and g1: "rt_work_groups_option rt1 = [\<lparr>wgo_name = MAIN_WORK_GROUP, wgo_cap = (), wgo_util = (), wgo_slot_concurrency = 0\<rparr>]"
    by (auto simp: new_Runtime_def)
  have up: "rt_is_setup rt1" using Setup_kept [OF rt1] by (simp add: new_Runtime_def)
  then obtain r where ended: "Runtime_Terminate (\<lambda>a. True) rt1 = Some r" by (simp add: Runtime_Terminate_result)
  have "length (rt_work_groups_option r) < 10" "\<forall>opt\<in>set (rt_work_groups_option r). wgo_slot_concurrency opt < 65535" "\<not> rt_is_setup r"
    using g1 ended by (auto simp: Runtime_Terminate_result [OF up])
  moreover have "rt_executors r = []"
    using ended by (auto simp: Runtime_Terminate_result [OF up])
  ultimately obtain rt2 where rt2: "Runtime_Setup small_env [] 0 r = (None, rt2)"
    and zero: "list_all (\<lambda>(k, a). ex_index (the (rt_heap rt2 a)) = 0) (rt_executors rt2)" using small_Setup [of r] by blast
  let ?t = "tagged_task 4 (9 * 65536)"
  have t: "es_executor (tk_state ?t) = None" "es_tag (tk_state ?t) \<noteq> INVALID_OBJECT_ID" "es_tag (tk_state ?t) = 9 * 65536"
    by (simp_all add: tagged_task_def set_execution_state_tag_def new_task_def new_execution_state_def INVALID_OBJECT_ID_def)
  have "fetch_loop kCPU_EXECUTOR 9 xs h = None" if "list_all (\<lambda>(k, a). ex_index (the (h a)) = 0) xs"
    for xs :: "(nat \<times> nat) list" and h :: "nat \<rightharpoonup> unit Executor" using that by (induction xs) auto
  then have "FetchExecutor kCPU_EXECUTOR (es_tag (tk_state ?t)) rt2 = None"
    using zero t(3) by (simp add: FetchExecutor_def Unpack_def drop_bit_eq_div)
  from setup_again_dangles [OF rt1 ended rt2 t(1,2) this, of "\<lambda>k. 0"] rt1 ended rt2 show ?thesis by blast
qed

end
