(* ===== verification/Runtime_Lifecycle.thy ===== *)
theory Runtime_Lifecycle
  imports Runtime Resource_Pool
begin

text \<open>
  The global runtime of \<open>include/ar/runtime.hpp\<close>, with the pools of memory that belong to it, and the
  metricer (\<open>include/ar/metricer.hpp\<close>). A program has the pointer \<open>g_runtime\<close> and the runtime
  objects that are alive; a runtime that is deleted leaves behind what its destructor did not
  delete, which \<open>pg_left\<close> records: its executors and its pools. A call through a null pointer
  is an error; a call that never returns, as \<open>Terminate\<close> does when the destructor of an
  executor waits for ever, is \<open>None\<close>.
\<close>

section \<open>Definitions\<close>

record ('d, 'r) program =
  pg_runtime :: "nat option"
  pg_alive :: "nat \<rightharpoonup> ('d, 'r) Runtime \<times> manager"
  pg_next :: nat
  pg_left :: "(('d, 'r) Runtime \<times> manager) list"

definition new_program :: "('d, 'r) program" where
  "new_program = \<lparr>pg_runtime = None, pg_alive = Map.empty, pg_next = 1, pg_left = []\<rparr>"

text \<open>\<open>pool\<close> is the address of the default pool of the new runtime.\<close>

definition SetupRuntime ::
  "'d rt_env \<Rightarrow> 'd WorkGroupOption list \<Rightarrow> nat \<Rightarrow> nat \<Rightarrow> ('d, 'r) program \<Rightarrow> ar_error option \<times> ('d, 'r) program" where
  "SetupRuntime env opts v pool p =
     (let (e, rt) = Runtime_Setup env opts v new_Runtime in
      (e, p\<lparr>pg_runtime := Some (pg_next p), pg_alive := (pg_alive p)(pg_next p \<mapsto> (rt, new_manager pool)), pg_next := pg_next p + 1\<rparr>))"

definition SetupRuntime_other :: "nat option \<Rightarrow> ('d, 'r) program \<Rightarrow> ar_error + ('d, 'r) program" where
  "SetupRuntime_other other p = (if pg_runtime p = None then Inl undefined_behaviour else Inr (p\<lparr>pg_runtime := other\<rparr>))"

text \<open>The destructor terminates again, which does nothing, and destroys the manager of the pools.\<close>

definition delete_runtime :: "(nat \<Rightarrow> bool) \<Rightarrow> nat \<Rightarrow> ('d, 'r) program \<Rightarrow> (ar_error + ('d, 'r) program) option" where
  "delete_runtime joins a p =
     (case pg_alive p a of
        None \<Rightarrow> Some (Inl undefined_behaviour)
      | Some (rt, m) \<Rightarrow>
          (case Runtime_Terminate joins rt of
             None \<Rightarrow> None
           | Some rt \<Rightarrow>
               Some (case manager_end m of
                  None \<Rightarrow> Inl undefined_behaviour
                | Some m \<Rightarrow> Inr (p\<lparr>pg_alive := (pg_alive p)(a := None), pg_left := pg_left p @ [(rt, m)]\<rparr>))))"

definition Terminate :: "(nat \<Rightarrow> bool) \<Rightarrow> ('d, 'r) program \<Rightarrow> (ar_error + ('d, 'r) program) option" where
  "Terminate joins p =
     (case pg_runtime p of
        None \<Rightarrow> Some (Inr p)
      | Some a \<Rightarrow>
          (case pg_alive p a of
             None \<Rightarrow> Some (Inl undefined_behaviour)
           | Some (rt, m) \<Rightarrow>
               (case Runtime_Terminate joins rt of
                  None \<Rightarrow> None
                | Some rt \<Rightarrow>
                    map_option (map_sum id (\<lambda>p. p\<lparr>pg_runtime := None\<rparr>))
                      (delete_runtime joins a (p\<lparr>pg_alive := (pg_alive p)(a \<mapsto> (rt, m))\<rparr>)))))"

text \<open>The calls that go through the pointer: to the runtime and to its manager of pools.\<close>

definition through :: "(('d, 'r) Runtime \<times> manager \<Rightarrow> ar_error + ('d, 'r) Runtime \<times> manager) \<Rightarrow> ('d, 'r) program \<Rightarrow> ar_error + ('d, 'r) program" where
  "through f p =
     (case pg_runtime p of
        None \<Rightarrow> Inl undefined_behaviour
      | Some a \<Rightarrow>
          (case pg_alive p a of
             None \<Rightarrow> Inl undefined_behaviour
           | Some x \<Rightarrow> (case f x of Inl e \<Rightarrow> Inl e | Inr y \<Rightarrow> Inr (p\<lparr>pg_alive := (pg_alive p)(a \<mapsto> y)\<rparr>))))"

definition CreateResource :: "nat \<Rightarrow> ('d, 'r) program \<Rightarrow> ar_error + ('d, 'r) program" where
  "CreateResource pool p = through (\<lambda>(rt, m). Inr (rt, if pool \<in> set (mg_live m) then m else snd (create_resource pool m))) p"

definition DeleteResource :: "nat \<Rightarrow> ('d, 'r) program \<Rightarrow> ar_error + ('d, 'r) program" where
  "DeleteResource pool p = through (\<lambda>(rt, m). case delete_resource pool m of None \<Rightarrow> Inl undefined_behaviour | Some m \<Rightarrow> Inr (rt, m)) p"

definition GetDefaultResource :: "('d, 'r) program \<Rightarrow> ar_error + nat option" where
  "GetDefaultResource p =
     (case pg_runtime p of
        None \<Rightarrow> Inl undefined_behaviour
      | Some a \<Rightarrow> (case pg_alive p a of None \<Rightarrow> Inl undefined_behaviour | Some (rt, m) \<Rightarrow> Inr (mg_default m)))"

text \<open>The pool of an allocator: the default one, or the one of the coroutine when it has one
  (\<open>include/ar/coroutine.hpp\<close>). Two allocators are equal when their pools are the same object.\<close>

definition Allocator_default :: "('d, 'r) program \<Rightarrow> ar_error + nat option" where
  "Allocator_default p = GetDefaultResource p"

definition Allocator_handler :: "nat option \<Rightarrow> ('d, 'r) program \<Rightarrow> ar_error + nat option" where
  "Allocator_handler resource p = (case resource of Some a \<Rightarrow> Inr (Some a) | None \<Rightarrow> GetDefaultResource p)"

definition AddEntityTag_global :: "('d, 'r) program \<Rightarrow> ar_error + ('d, 'r) program" where
  "AddEntityTag_global p = through (\<lambda>(rt, m). Inr (snd (AddEntityTag rt), m)) p"

definition DeleteEntityTag_global :: "int \<Rightarrow> ('d, 'r) program \<Rightarrow> ar_error + ('d, 'r) program" where
  "DeleteEntityTag_global tag p = through (\<lambda>(rt, m). Inr (DeleteEntityTag tag rt, m)) p"

text \<open>The labels of a counter: inserting keeps the constant label of the same name.\<close>

definition MakeCounter :: "(string \<rightharpoonup> string) \<Rightarrow> string \<Rightarrow> (string \<rightharpoonup> string) \<Rightarrow> string \<times> (string \<rightharpoonup> string)" where
  "MakeCounter const_labels name labels = (name, labels ++ const_labels)"

definition MakeMetricsCounter ::
  "(string \<rightharpoonup> string) option \<Rightarrow> string \<Rightarrow> (string \<rightharpoonup> string) \<Rightarrow> (string \<times> (string \<rightharpoonup> string)) option" where
  "MakeMetricsCounter metricer name labels = (case metricer of None \<Rightarrow> None | Some const_labels \<Rightarrow> Some (MakeCounter const_labels name labels))"

text \<open>Posting through the pointer; the asynchronous calls check the runtime first.\<close>

definition post_through ::
  "(('d, 'r) Runtime \<Rightarrow> (ar_error + ('d, 'r) Runtime) option) \<Rightarrow> ('d, 'r) program \<Rightarrow> (ar_error + ('d, 'r) program) option" where
  "post_through f p =
     (case pg_runtime p of
        None \<Rightarrow> Some (Inl undefined_behaviour)
      | Some a \<Rightarrow>
          (case pg_alive p a of
             None \<Rightarrow> Some (Inl undefined_behaviour)
           | Some (rt, m) \<Rightarrow> map_option (map_sum id (\<lambda>rt. p\<lparr>pg_alive := (pg_alive p)(a \<mapsto> (rt, m))\<rparr>)) (f rt)))"

text \<open>What a program does while it has a runtime.\<close>

datatype 'r app_op = A_Create nat | A_Delete nat | A_AddTag | A_DeleteTag int
  | A_Post clock_reads "'r task" | A_Async nat "ar_error + 'r" clock_reads | A_AsyncDelayed nat "ar_error + 'r" int clock_reads

fun app_call :: "'r app_op \<Rightarrow> ('d, 'r) program \<Rightarrow> (ar_error + ('d, 'r) program) option" where
  "app_call (A_Create pool) p = Some (CreateResource pool p)"
| "app_call (A_Delete pool) p = Some (DeleteResource pool p)"
| "app_call A_AddTag p = Some (AddEntityTag_global p)"
| "app_call (A_DeleteTag tag) p = Some (DeleteEntityTag_global tag p)"
| "app_call (A_Post clk t) p = post_through (checked_Post clk t) p"
| "app_call (A_Async i f clk) p = post_through (Async i f clk) p"
| "app_call (A_AsyncDelayed i f ms clk) p = post_through (AsyncDelayed i f ms clk) p"

primrec app_run :: "'r app_op list \<Rightarrow> ('d, 'r) program \<Rightarrow> (ar_error + ('d, 'r) program) option" where
  "app_run [] p = Some (Inr p)"
| "app_run (c # cs) p = (case app_call c p of Some (Inr p) \<Rightarrow> app_run cs p | r \<Rightarrow> r)"

text \<open>A task that a program posts names no executor, and a work group of the runtime or none.\<close>

definition app_valid :: "nat \<Rightarrow> 'r app_op \<Rightarrow> bool" where
  "app_valid ng c = (case c of A_Post clk t \<Rightarrow> fresh_op ng (RT_Post clk t) | _ \<Rightarrow> True)"

section \<open>Executors are owned\<close>

definition owned :: "('d, 'r) Runtime \<Rightarrow> bool" where
  "owned rt \<longleftrightarrow> dom (rt_heap rt) \<subseteq> snd ` set (rt_executors rt)"

lemma make_executors_owned:
  "make_executors env i nodes rt = (None, rt') \<Longrightarrow> owned rt \<Longrightarrow> \<forall>(k, a)\<in>set (rt_executors rt). k < i \<Longrightarrow>
    owned rt' \<and> (\<forall>(k, a)\<in>set (rt_executors rt'). k < i + length nodes) \<and> rt_is_setup rt' = rt_is_setup rt"
proof (induction nodes arbitrary: i rt)
  case (Cons node nodes)
  obtain x :: "'b Executor" where x: "new_Executor (int (env_hw env)) (env_share env) (''CPUExecutor_'' @ digits i) (nn_cpus node) (rt_work_groups_option rt) = Inr x"
    using Cons.prems(1) by (auto split: sum.splits)
  let ?a = "rt_next rt" and ?m = "if rt_main_executor rt = None then Some (rt_next rt) else rt_main_executor rt"
  let ?rt = "rt\<lparr>rt_heap := (rt_heap rt)(?a \<mapsto> x\<lparr>ex_index := int i\<rparr>), rt_next := ?a + 1, rt_main_executor := ?m,
      rt_executors := rt_executors rt @ [(i, ?a)]\<rparr>"
  have rec: "make_executors env (Suc i) nodes ?rt = (None, rt')"
    using Cons.prems(1) x map_insert_last [OF Cons.prems(3), of ?a] by (auto simp: allocate_def Let_def split: if_splits)
  have "owned ?rt" using Cons.prems(2) by (auto simp: owned_def)
  moreover have "\<forall>(k, a)\<in>set (rt_executors ?rt). k < Suc i" using Cons.prems(3) by auto
  ultimately show ?case using Cons.IH [OF rec] by simp
qed auto

lemma map_insert_fresh: "k \<notin> fst ` set xs \<Longrightarrow> set (map_insert k v xs) = insert (k, v) (set xs)"
proof (induction xs)
  case (Cons x xs)
  then show ?case by (cases x) auto
qed simp

lemma Setup_owned:
  fixes rt :: "('d, 'r) Runtime"
  assumes "Runtime_Setup env opts v new_Runtime = (None, rt)" and key: "nodes_of env v \<le> env_io_key env"
  shows "owned rt \<and> rt_is_setup rt"
proof -
  obtain rt1 where s: "SetupWorkGroups env opts (new_Runtime :: ('d, 'r) Runtime) = (None, rt1)"
    using assms(1) by (auto simp: Runtime_Setup_def split: prod.splits option.splits)
  have f: "rt_executors rt1 = []" "rt_heap rt1 = Map.empty" "\<not> rt_is_setup rt1"
    using s by (auto simp: SetupWorkGroups_def Let_def new_Runtime_def split: if_splits prod.splits)
  obtain rt2 a rt3 where c: "CreateDefaultExecutors env v rt1 = (None, rt2)"
    "CreateExecutor (env_io_key env) (new_IExecutor ''io'' kIO_EXECUTOR) rt2 = (a, rt3)" "rt = rt3\<lparr>rt_io_executor := Some a, rt_is_setup := True\<rparr>"
    using assms(1) s f(3) by (auto simp: Runtime_Setup_def Let_def split: prod.splits option.splits)
  obtain nodes where n: "(if v = 0 then GetNumaNodes (env_hw env) (env_nodes_count env) (env_node_of_cpu env)
      else GetManualNumaNodes (env_hw env) v) = Inr nodes" and x: "make_executors env 0 nodes rt1 = (None, rt2)"
    using c(1) by (auto simp: CreateDefaultExecutors_def split: sum.splits prod.splits option.splits if_splits)
  have "length nodes = nodes_of env v" using n numa_nodes_length by (auto simp: nodes_of_def split: if_splits)
  with make_executors_owned [OF x] f key have o2: "owned rt2" "env_io_key env \<notin> fst ` set (rt_executors rt2)"
    by (auto simp: owned_def)
  have "rt_heap rt3 = (rt_heap rt2)(rt_next rt2 \<mapsto> new_IExecutor ''io'' kIO_EXECUTOR)"
    "set (rt_executors rt3) = insert (env_io_key env, rt_next rt2) (set (rt_executors rt2))"
    using c(2) map_insert_fresh [OF o2(2)] by (auto simp: CreateExecutor_def allocate_def)
  then have "owned rt3" using o2(1) unfolding owned_def by (simp add: dom_def) blast
  then show ?thesis by (simp add: c(3) owned_def)
qed

lemma Terminate_owned:
  assumes "owned rt" "rt_is_setup rt"
  shows "Runtime_Terminate joins rt =
     (if \<forall>a\<in>snd ` set (rt_executors rt). joins a
      then Some (rt\<lparr>rt_heap := Map.empty, rt_executors := [], rt_is_setup := False\<rparr>) else None)"
proof -
  have "(\<lambda>a. if a \<in> snd ` set (rt_executors rt) then None else rt_heap rt a) = Map.empty"
  proof (rule ext)
    fix a show "(if a \<in> snd ` set (rt_executors rt) then None else rt_heap rt a) = None"
      using assms(1) by (cases "rt_heap rt a") (auto simp: owned_def)
  qed
  then show ?thesis unfolding Runtime_Terminate_result [OF assms(2)] by simp
qed

lemma owned_update: "owned rt \<Longrightarrow> a \<in> snd ` set (rt_executors rt) \<Longrightarrow> owned (rt\<lparr>rt_heap := (rt_heap rt)(a \<mapsto> x)\<rparr>)"
  by (auto simp: owned_def)

lemma AddEntityTag_owned: "owned rt \<Longrightarrow> owned (snd (AddEntityTag rt)) \<and> rt_is_setup (snd (AddEntityTag rt)) = rt_is_setup rt"
  using free_executor_least [where type = kCPU_EXECUTOR and rt = rt]
  by (auto simp: AddEntityTag_def Let_def split: option.splits prod.splits intro!: owned_update)

lemma DeleteEntityTag_owned: "owned rt \<Longrightarrow> owned (DeleteEntityTag tag rt) \<and> rt_is_setup (DeleteEntityTag tag rt) = rt_is_setup rt"
  by (auto simp: DeleteEntityTag_def split: option.splits prod.splits intro!: owned_update dest!: fetch_loop_mem) force

text \<open>A runtime in use: it owns its executors and can take tasks.\<close>

definition in_use :: "nat \<Rightarrow> nat \<Rightarrow> ('d, 'r) Runtime \<Rightarrow> bool" where
  "in_use n ng rt \<longleftrightarrow> owned rt \<and> rt_is_setup rt \<and> rt_io_executor rt \<noteq> None \<and> executors_ok n ng rt \<and> main_ok rt"

lemma Setup_in_use:
  fixes rt :: "('d, 'r) Runtime"
  assumes "Runtime_Setup env opts v new_Runtime = (None, rt)" and key: "nodes_of env v \<le> env_io_key env"
  shows "in_use (nodes_of env v) (Suc (length opts)) rt"
proof -
  have "rt_io_executor rt \<noteq> None"
    using assms(1) Setup_owned [OF assms] by (auto simp: Runtime_Setup_def SetupWorkGroups_def new_Runtime_def Let_def split: prod.splits option.splits if_splits)
  then show ?thesis using Setup_owned [OF assms] Setup_ok [OF assms(1)] by (simp add: in_use_def)
qed

lemma AddEntityTag_in_use: "in_use n ng rt \<Longrightarrow> in_use n ng (snd (AddEntityTag rt))"
  using AddEntityTag_owned [of rt] AddEntityTag_keeps [of n ng rt]
  by (auto simp: in_use_def keeps_def) (auto simp: AddEntityTag_def Let_def split: option.splits prod.splits)

lemma DeleteEntityTag_in_use: "in_use n ng rt \<Longrightarrow> in_use n ng (DeleteEntityTag tag rt)"
  using DeleteEntityTag_owned [of rt tag] DeleteEntityTag_keeps [of n ng rt tag]
  by (auto simp: in_use_def keeps_def) (auto simp: DeleteEntityTag_def Let_def split: option.splits prod.splits)

lemma Runtime_Post_frame:
  assumes "Runtime_Post clk t rt = Some (Inr rt')"
  shows "dom (rt_heap rt') = dom (rt_heap rt) \<and> rt_executors rt' = rt_executors rt \<and> rt_is_setup rt' = rt_is_setup rt
     \<and> rt_io_executor rt' = rt_io_executor rt"
proof -
  obtain a where "post_to a clk t rt = Some (Inr rt')" using assms by (auto simp: Runtime_Post_def split: option.splits if_splits)
  then show ?thesis by (auto simp: post_to_def map_sum_Inr split: option.splits if_splits)
qed

lemma checked_Post_in_use:
  assumes rt: "in_use n ng rt" and t: "fresh_op ng (RT_Post clk t)"
  shows "\<exists>rt'. checked_Post clk t rt = Some (Inr rt') \<and> in_use n ng rt'"
proof -
  have "CheckRuntime rt = Inr ()" using rt by (auto simp: in_use_def CheckRuntime_def main_ok_def split: option.splits)
  moreover obtain rt' where "Runtime_Post clk t rt = Some (Inr rt')" "executors_ok n ng rt'" "main_ok rt'"
    using Runtime_Post_facts [of n ng rt t clk] rt t by (auto simp: in_use_def fresh_op_def)
  ultimately show ?thesis using rt Runtime_Post_frame [of clk t rt rt'] by (auto simp: checked_Post_def in_use_def owned_def)
qed

section \<open>The life of the global runtime\<close>

definition program_ok :: "nat \<Rightarrow> nat \<Rightarrow> ('d, 'r) program \<Rightarrow> bool" where
  "program_ok n ng p \<longleftrightarrow> (\<exists>a rt m. pg_runtime p = Some a \<and> pg_alive p = [a \<mapsto> (rt, m)] \<and> pg_left p = []
     \<and> in_use n ng rt \<and> manager_inv m)"

lemma through_ok:
  assumes "program_ok n ng p"
    and "\<And>rt m. in_use n ng rt \<Longrightarrow> manager_inv m \<Longrightarrow> \<exists>rt' m'. f (rt, m) = Inr (rt', m') \<and> in_use n ng rt' \<and> manager_inv m'"
  shows "\<exists>p'. through f p = Inr p' \<and> program_ok n ng p'"
proof -
  obtain a rt m where p: "pg_runtime p = Some a" "pg_alive p = [a \<mapsto> (rt, m)]" "pg_left p = []" "in_use n ng rt" "manager_inv m"
    using assms(1) by (auto simp: program_ok_def)
  obtain rt' m' where "f (rt, m) = Inr (rt', m')" "in_use n ng rt'" "manager_inv m'" using assms(2) p(4,5) by blast
  then have "through f p = Inr (p\<lparr>pg_alive := [a \<mapsto> (rt', m')]\<rparr>)" "program_ok n ng (p\<lparr>pg_alive := [a \<mapsto> (rt', m')]\<rparr>)"
    using p by (simp_all add: through_def program_ok_def) blast
  then show ?thesis by blast
qed

lemma post_through_ok:
  assumes "program_ok n ng p" and f: "\<And>rt. in_use n ng rt \<Longrightarrow> \<exists>rt'. f rt = Some (Inr rt') \<and> in_use n ng rt'"
  shows "\<exists>p'. post_through f p = Some (Inr p') \<and> program_ok n ng p'"
proof -
  obtain a rt m where p: "pg_runtime p = Some a" "pg_alive p = [a \<mapsto> (rt, m)]" "pg_left p = []" "in_use n ng rt" "manager_inv m"
    using assms(1) by (auto simp: program_ok_def)
  obtain rt' where "f rt = Some (Inr rt')" "in_use n ng rt'" using f p(4) by blast
  then have "post_through f p = Some (Inr (p\<lparr>pg_alive := [a \<mapsto> (rt', m)]\<rparr>))" "program_ok n ng (p\<lparr>pg_alive := [a \<mapsto> (rt', m)]\<rparr>)"
    using p by (simp_all add: post_through_def program_ok_def) blast
  then show ?thesis by blast
qed

lemma new_task_fresh:
  "0 < ng \<Longrightarrow> fresh_op ng (RT_Post clk (new_task i f now))" "0 < ng \<Longrightarrow> fresh_op ng (RT_Post clk (set_delay rep time now2 (new_task i f now)))"
  by (simp_all add: fresh_op_def work_group_of_def new_task_def new_execution_state_def set_delay_def Let_def)

lemma app_call_ok:
  assumes p: "program_ok n ng p" and c: "app_valid ng c" and ng: "0 < ng"
  shows "\<exists>p'. app_call c p = Some (Inr p') \<and> program_ok n ng p'"
proof (cases c)
  case (A_Create pool)
  from p have "\<exists>p'. CreateResource pool p = Inr p' \<and> program_ok n ng p'" unfolding CreateResource_def
    by (rule through_ok) (auto simp: manager_inv_def create_resource_def)
  then show ?thesis by (auto simp: A_Create)
next
  case (A_Delete pool)
  from p have "\<exists>p'. DeleteResource pool p = Inr p' \<and> program_ok n ng p'" unfolding DeleteResource_def
    by (rule through_ok) (auto simp: manager_inv_def delete_resource_def delete_pool_def)
  then show ?thesis by (auto simp: A_Delete)
next
  case A_AddTag
  from p have "\<exists>p'. AddEntityTag_global p = Inr p' \<and> program_ok n ng p'" unfolding AddEntityTag_global_def
    by (rule through_ok) (simp add: AddEntityTag_in_use)
  then show ?thesis by (auto simp: A_AddTag)
next
  case (A_DeleteTag tag)
  from p have "\<exists>p'. DeleteEntityTag_global tag p = Inr p' \<and> program_ok n ng p'" unfolding DeleteEntityTag_global_def
    by (rule through_ok) (simp add: DeleteEntityTag_in_use)
  then show ?thesis by (auto simp: A_DeleteTag)
next
  case (A_Post clk t)
  with p c show ?thesis by (simp add: post_through_ok checked_Post_in_use app_valid_def)
next
  case (A_Async i f clk)
  with p ng show ?thesis by (simp add: post_through_ok checked_Post_in_use Async_def new_task_fresh)
next
  case (A_AsyncDelayed i f ms clk)
  with p ng show ?thesis by (simp add: post_through_ok checked_Post_in_use AsyncDelayed_def new_task_fresh)
qed

lemma app_run_ok:
  "program_ok n ng p \<Longrightarrow> \<forall>c\<in>set cs. app_valid ng c \<Longrightarrow> 0 < ng \<Longrightarrow> \<exists>p'. app_run cs p = Some (Inr p') \<and> program_ok n ng p'"
proof (induction cs arbitrary: p)
  case (Cons c cs)
  from app_call_ok [OF Cons.prems(1), of c] Cons show ?case by fastforce
qed simp

text \<open>The executors of the runtime that the pointer names.\<close>

definition live_executors :: "('d, 'r) program \<Rightarrow> nat set" where
  "live_executors p = (case pg_runtime p of None \<Rightarrow> {}
     | Some a \<Rightarrow> (case pg_alive p a of None \<Rightarrow> {} | Some (rt, m) \<Rightarrow> snd ` set (rt_executors rt)))"

lemma Terminate_ok:
  assumes "program_ok n ng p"
  shows "if \<forall>a\<in>live_executors p. joins a
     then \<exists>q rt m. Terminate joins p = Some (Inr q) \<and> pg_runtime q = None \<and> pg_alive q = Map.empty
       \<and> pg_left q = [(rt, m)] \<and> rt_heap rt = Map.empty \<and> mg_live m = []
     else Terminate joins p = None"
proof -
  obtain a rt m where p: "pg_runtime p = Some a" "pg_alive p = [a \<mapsto> (rt, m)]" "pg_left p = []" "owned rt" "rt_is_setup rt" "manager_inv m"
    using assms by (auto simp: program_ok_def in_use_def)
  have live: "live_executors p = snd ` set (rt_executors rt)" using p by (simp add: live_executors_def)
  obtain m' where "manager_end m = Some m'" "mg_live m' = []"
    using delete_pools_all [of "mg_pools m" m] p(6) by (auto simp: manager_end_def manager_inv_def)
  then show ?thesis unfolding live using p Terminate_owned [OF p(4,5), of joins]
    by (simp add: Terminate_def delete_runtime_def Runtime_Terminate_def [where rt = "rt\<lparr>rt_heap := Map.empty, rt_executors := [], rt_is_setup := False\<rparr>"])
qed

text \<open>C25: A runtime that was set up gives everything back when its threads can be joined. Whatever
  pools and tags a program makes and deletes and whatever tasks it posts through the global
  runtime, every call returns without an error. \<open>Terminate\<close> then returns exactly if the
  destructor of every executor returns; if so, it has deleted the runtime with all its executors
  and pools and leaves no runtime, calling it again does nothing, and any other call then goes
  through a null pointer. The key of the I/O executor, a hash code, is not the number of a node;
  posted tasks name no executor and an existing work group or none.\<close>

theorem runtime_lifecycle:
  assumes su: "SetupRuntime env opts v pool new_program = (None, p)" and key: "nodes_of env v \<le> env_io_key env"
    and cs: "\<forall>c\<in>set cs. app_valid (Suc (length opts)) c"
  shows "\<exists>p'. app_run cs p = Some (Inr p')
    \<and> (if \<forall>a\<in>live_executors p'. joins a
       then \<exists>q rt m. Terminate joins p' = Some (Inr q) \<and> pg_runtime q = None \<and> pg_alive q = Map.empty
         \<and> pg_left q = [(rt, m)] \<and> rt_heap rt = Map.empty \<and> mg_live m = []
         \<and> Terminate joins q = Some (Inr q) \<and> (\<forall>c. app_call c q = Some (Inl undefined_behaviour))
       else Terminate joins p' = None)"
proof -
  let ?n = "nodes_of env v" and ?ng = "Suc (length opts)"
  obtain rt where rt: "Runtime_Setup env opts v new_Runtime = (None, rt)" "pg_runtime p = Some 1" "pg_alive p = [1 \<mapsto> (rt, new_manager pool)]"
    "pg_left p = []"
    using su by (auto simp: SetupRuntime_def new_program_def split: prod.splits)
  then have "program_ok ?n ?ng p" using Setup_in_use [OF rt(1) key] manager_inv_new [of pool] unfolding program_ok_def by blast
  then obtain p' where p': "app_run cs p = Some (Inr p')" "program_ok ?n ?ng p'" using app_run_ok cs by blast
  have "app_call c q = Some (Inl undefined_behaviour)" if "pg_runtime q = None" for c and q :: "('a, 'b) program"
    using that by (cases c) (simp_all add: CreateResource_def DeleteResource_def AddEntityTag_global_def DeleteEntityTag_global_def
      through_def post_through_def)
  moreover have "Terminate joins q = Some (Inr q)" if "pg_runtime q = None" for q :: "('a, 'b) program" using that by (simp add: Terminate_def)
  ultimately show ?thesis using p'(1) Terminate_ok [OF p'(2), of joins] by (auto split: if_splits)
qed

theorem runtime_lifecycle_witness:
  "\<exists>p p' q rt m. SetupRuntime small_env [] 0 50 (new_program :: (unit, nat) program) = (None, p)
     \<and> app_run [A_Create 51, A_AddTag, A_Async 1 (Inr 7) (\<lambda>k. 0), A_Delete 51, A_Delete 51] p = Some (Inr p')
     \<and> Terminate (\<lambda>a. True) p' = Some (Inr q) \<and> pg_left q = [(rt, m)] \<and> rt_heap rt = Map.empty \<and> mg_live m = []"
proof -
  let ?cs = "[A_Create 51, A_AddTag, A_Async 1 (Inr 7) (\<lambda>k. 0), A_Delete 51, A_Delete 51] :: nat app_op list"
  obtain rt :: "(unit, nat) Runtime" where "Runtime_Setup small_env [] 0 new_Runtime = (None, rt)" using small_runtime by blast
  then have s: "\<exists>p. SetupRuntime small_env [] 0 50 (new_program :: (unit, nat) program) = (None, p)" by (simp add: SetupRuntime_def)
  then obtain p where p: "SetupRuntime small_env [] 0 50 (new_program :: (unit, nat) program) = (None, p)" ..
  have k: "nodes_of small_env 0 \<le> env_io_key small_env" by (simp add: nodes_of_def small_env_def)
  have cs: "\<forall>c\<in>set ?cs. app_valid (Suc (length ([] :: unit WorkGroupOption list))) c" by (simp add: app_valid_def)
  from runtime_lifecycle [OF p k cs, of "\<lambda>a. True"] p show ?thesis by (simp del: app_run.simps) blast
qed

text \<open>Setting up a second time, without terminating, leaves the first runtime alive and out of reach.\<close>

lemma setup_twice_leaks:
  assumes "SetupRuntime env opts v pool new_program = (None, p)" "SetupRuntime env opts v pool' p = (e, q)" "Terminate joins q = Some (Inr r)"
  shows "pg_runtime r = None \<and> dom (pg_alive r) = {1}"
  using assms by (auto simp: SetupRuntime_def new_program_def Terminate_def delete_runtime_def map_sum_Inr split: prod.splits option.splits if_splits)

text \<open>Constant labels win over the labels of a counter.\<close>

lemma MakeCounter_labels: "snd (MakeCounter const_labels name labels) k = (if const_labels k \<noteq> None then const_labels k else labels k)"
  by (auto simp: MakeCounter_def map_add_def split: option.splits)

text \<open>An allocator without a pool of its own gets the default pool of the runtime, which is alive unless
  it was itself deleted through the global runtime.\<close>

definition default_alive :: "nat \<Rightarrow> ('d, 'r) program \<Rightarrow> bool" where
  "default_alive pool p \<longleftrightarrow> (\<exists>a rt m. pg_runtime p = Some a \<and> pg_alive p a = Some (rt, m) \<and> mg_default m = Some pool \<and> pool \<in> set (mg_live m))"

lemma default_alive_call:
  assumes "default_alive pool p" "app_call c p = Some (Inr p')" "c \<noteq> A_Delete pool"
  shows "default_alive pool p'"
  using assms
  by (cases c) (auto simp: default_alive_def through_def CreateResource_def DeleteResource_def AddEntityTag_global_def
      DeleteEntityTag_global_def create_resource_def delete_resource_def delete_pool_def post_through_def map_sum_Inr split: sum.splits option.splits if_splits prod.splits)

lemma default_alive_run: "app_run cs p = Some (Inr p') \<Longrightarrow> default_alive pool p \<Longrightarrow> A_Delete pool \<notin> set cs \<Longrightarrow> default_alive pool p'"
proof (induction cs arbitrary: p)
  case (Cons c cs)
  then obtain q where "app_call c p = Some (Inr q)" "app_run cs q = Some (Inr p')" by (auto split: option.splits sum.splits)
  then show ?case using Cons.IH Cons.prems default_alive_call [of pool p c q] by auto
qed simp

lemma allocator_pool_alive:
  assumes "SetupRuntime env opts v pool new_program = (e, p)" "app_run cs p = Some (Inr p')" "A_Delete pool \<notin> set cs"
  shows "Allocator_default p' = Inr (Some pool) \<and> Allocator_handler None p' = Inr (Some pool)
    \<and> Allocator_handler (Some a) p' = Inr (Some a) \<and> default_alive pool p'"
proof -
  have "default_alive pool p"
    using assms(1) by (auto simp: default_alive_def SetupRuntime_def new_program_def new_manager_def create_default_resource_def split: prod.splits)
  from default_alive_run [OF assms(2) this assms(3)] show ?thesis
    by (auto simp: Allocator_default_def Allocator_handler_def GetDefaultResource_def default_alive_def)
qed

end
