(* ===== verification/Spec2Isabelle.thy ===== *)
theory Spec2Isabelle
  imports Base64 Chase_Lev Triple_Buffer Dataflow_Kernel Channel Coroutines Io_Sessions Http_Digest Logging Profiling
    Task_Queue_Runs Coroutine_Memory Notifier_Wake Task_Futures Runtime_Lifecycle
begin

text \<open>
  A verification of the asynchronous runtime library \<open>async_runtime\<close> (\<open>src/\<close> and \<open>include/ar/\<close>).

  \<^bold>\<open>The program.\<close> A runtime (\<open>runtime.cpp\<close>) owns executors, one per NUMA node (\<open>cpu_helper.cpp\<close>), and an
  I/O executor. An executor (\<open>executor.cpp\<close>) is a list of work groups, a work group a list of slots and a
  scheduler for delayed tasks (\<open>scheduler.cpp\<close>). A slot (\<open>executor_slot.cpp\<close>) has worker threads; each worker
  has a work-stealing queue (\<open>task_queue.hpp\<close>, \<open>work_steal_queue.hpp\<close>, \<open>array.hpp\<close>), the slot has one for tasks
  posted from outside, and workers without work sleep on a notifier (\<open>work_notifier.h\<close>). Clients post
  tasks (\<open>task.hpp\<close>) directly, through coroutines (\<open>coroutine.hpp\<close>), tickers (\<open>ticker.cpp\<close>) or entity tags, which
  route the tasks of one entity to one slot (\<open>numbers.cpp\<close>). On top of it are channels (\<open>channel.hpp\<close>), dataflow
  kernels with ports and shared buffers (\<open>dataflow/\<close>), I/O sessions (\<open>io/\<close>), pools of memory (\<open>resource_pool.cpp\<close>), a
  logger, a profiler and a Base64 codec.

  \<^bold>\<open>The theories.\<close> Each opens with what it models and how; here the correspondence in short.

  \<^item> \<open>AR_Prelude\<close>: machine integers, errors, lemmas on words, lists and runs, and three interfaces: \<open>codec\<close> (encoding
    and decoding), \<open>step_invariant\<close> (an invariant along every run of a step relation), which every concurrent
    component instantiates, and \<open>step_simulation\<close> (a refinement of one step relation by another).
  \<^item> \<open>Numbers\<close>: \<open>Pack\<close> and \<open>Unpack\<close> of entity tags. \<open>Base64\<close>: \<open>base64.cpp\<close>, against RFC 4648 written out on
    bits. \<open>Float_Single\<close>: the single-precision conversions and divisions of the sources, exact below \<open>2 ^ 24\<close>. \<open>Std_Heap\<close>: the
    binary heap of \<open>std::priority_queue\<close>, whose comparison may change from call to call (\<open>approximate_order\<close>).
  \<^item> \<open>Atomic_Array\<close>, \<open>Work_Steal_Queue\<close>, \<open>Chase_Lev\<close>, \<open>Task_Queue\<close>: the circular array (\<open>ring_array\<close>), the deque as
    used by one thread (\<open>work_deque\<close>: a refinement of lists), the deque with thieves, one atomic access per step
    (\<open>cl_step\<close>), and the deque with priorities. \<open>Traits\<close>, \<open>Task_Queue_Runs\<close>: the templates of \<open>traits.hpp\<close>, and the queue with
    priorities as a whole, its loops unrolled by them, against one list per priority.
  \<^item> \<open>Work_Notifier\<close>, \<open>Worker_Sleep\<close>: the 64-bit state word of the notifier and its operations; the workers on one notifier
    with any notifying threads (\<open>wn_step\<close>). \<open>Notifier\<close>, \<open>Notifier_Wake\<close>: the same loops in \<open>notifier.hpp\<close>, one access to memory per
    step (\<open>fine_step\<close>), as a refinement of \<open>wn_step\<close>.
  \<^item> \<open>Tasks\<close>: tasks and their execution, timestamps, the scheduler with its queue and its loop, every reading of the clock an
    argument, tickers. \<open>Task_Futures\<close>: the promise of a task
    between the client that posts it and the worker that executes and deletes it (\<open>tf_step\<close>).
  \<^item> \<open>Executor_Slot\<close>, \<open>Slot_Progress\<close>: queues and loops of a slot, with workers, posting threads and the destructor
    (\<open>slot_step\<close>); that no wake-up is lost, and how the destructor can hang.
  \<^item> \<open>Executor\<close>, \<open>Cpu_Nodes\<close>, \<open>Runtime\<close>, \<open>Runtime_Lifecycle\<close>: work groups and executors, processors and nodes, the runtime
    with its heap of executors, and the global runtime with its pools and metrics. \<open>Terminate\<close> takes as an argument which
    executors' destructors return, since \<open>Slot_Progress\<close> and \<open>Tasks\<close> show that they can hang.
  \<^item> \<open>Coroutines\<close>: a coroutine's body with \<open>yield\<close>, \<open>suspend\<close> and \<open>Await\<close>, resumed by tasks on any threads (\<open>co_step\<close>).
    \<open>Coroutine_Memory\<close>: blocks and stacks of coroutines in pools, and the pointers that keep them.
  \<^item> \<open>Triple_Buffer\<close>, \<open>Dataflow_Buffers\<close>, \<open>Dataflow_Notifier\<close>, \<open>Dataflow_Ports\<close>, \<open>Dataflow_Kernel\<close>: the dataflow library, from the
    buffers (\<open>bounded_fifo\<close>, \<open>spsc_queue\<close>) over ports (\<open>port_registry\<close>) to the life of a kernel (\<open>kernel_hooks\<close>,
    \<open>kernel_step\<close>). \<open>Channel\<close>: \<open>channel.hpp\<close>.
  \<^item> \<open>Io_Tasks\<close>, \<open>Http\<close>, \<open>Io_Sessions\<close>, \<open>Http_Digest\<close>: the promises of I/O operations under every interleaving of their callbacks
    (\<open>io_step\<close>), TCP and UDP sessions, HTTP requests and multipart responses, whole requests on a session that
    is used again, digest authentication.
  \<^item> \<open>Resource_Pool\<close>, \<open>Pool_Pointers\<close>: pools of chunks, their manager, allocators, flat buffers and stacks; unique and
    shared pointers into pools. \<open>Logging\<close>: \<open>logger.cpp\<close>. \<open>Profiling\<close>: events and updates of \<open>profiler.cpp\<close>.

  \<^bold>\<open>How the code is modelled.\<close> Classes are records and operations functions on them; an exception, an assertion
  or undefined behaviour is a value of an error type. A concurrent component is a step relation, in sequentially
  consistent order; the programs of the threads are program counters. In \<open>Chase_Lev\<close>, \<open>Triple_Buffer\<close>, \<open>Notifier_Wake\<close> and
  \<open>Io_Tasks\<close> a step is one access to shared memory or one section under a lock. Others take coarser steps, named in their
  theories: a slot's search of its queues (\<open>exploit_task\<close>, \<open>explore_task\<close>) and each operation of the notifier in \<open>Worker_Sleep\<close> are
  one step, and so are a kernel's \<open>AsyncTerminate\<close>, \<open>Run\<close> and \<open>AsyncInit\<close>. Time, the processors, the hash codes of types, what I/O completes with and what
  libraries provide (\<open>boost::pool\<close>, the HTTP parser, \<open>md5\<close>, regular expressions, the shares of work groups
  computed in doubles) are arguments, with the documented promises of the library as hypotheses.

  \<^bold>\<open>What is shown.\<close> Tasks: each posted task is held or executed exactly once, in the deque with thieves, in a slot
  with all its threads, in an executor and in the runtime; a client gets the answer of its own task; no wake-up is lost, down to single accesses of the
  event count; delayed tasks are delivered when due,
  the earliest first as far as the readings of the clock agree; entities keep their slot and tags lead back to their executor. Coroutines: the calls get the yielded
  values in order under every interleaving, and a coroutine that is not done is posted, runs, or waits. Dataflow: buffers,
  ports and channels lose, repeat and reorder nothing, and kernels terminate, and dispose once unless \<open>OnDispose\<close> itself
  or an exception of a foreign type gets in the way. I/O: a promise is fulfilled
  once, requests end with their first error, headers are read back as printed. Memory: blocks of a pool do not overlap,
  pointers into pools hold objects that are destroyed once, so do pointers to coroutines, and every pool and executor is
  deleted when the destructors return. The properties that name a defect of the code state what it does instead.

  \<^bold>\<open>Bounds and fuel.\<close> The notifier's epoch has 32 bits and is compared as a signed difference: the theorems about sleeping workers hold
  in runs that are \<open>timely\<close>, where no worker is overtaken by \<open>2 ^ 31\<close> notifications between two of its steps, and, access by access, no turn of a notifier's loop by
  \<open>2 ^ 32\<close>. The loop
  that unparks workers follows a linked list and is a \<open>partial_function\<close>; the theorems show that it returns. Stealing ends
  after \<open>MAX_STEALS\<close> attempts, as in the code. Indices of the deques and the counters of loads are mathematical integers:
  the indices grow by one per push and stay below \<open>2 ^ 63\<close> for fewer pushes than that. Floats are exact below \<open>2 ^ 24\<close> (theorem
  \<open>large_block_short\<close> shows what happens above). There is no fuel: every other loop is a total function.

  \<^bold>\<open>Simplifications.\<close> The push and the notification of \<open>post\<close> are two steps of the machine of a slot, although the code holds
  a lock over both when the task comes from outside. Fulfilling a future and posting its continuation is one step. The
  state of the memory model beyond sequential consistency is not modelled.

  \<^bold>\<open>Not modelled.\<close> The tracer and the server of the profiler need generated code; the thread executor, sockets,
  timers and the switch of contexts are calls of libraries; macros and platform tests have no behaviour at run time;
  \<open>notifier.cpp\<close> and \<open>stack.cpp\<close> are commented out. The free functions of \<open>runtime.hpp\<close> that only forward to the global
  runtime, the containers that only name an allocator and the settings of the profiler's server are left out.
\<close>

end
